(* ===== verification/Prelude.thy ===== *)
theory Prelude
  imports Main "HOL-Library.Multiset"
begin

text \<open>
  Shared vocabulary of the development: the errors a Python program of the repository can stop
  with, the sequencing of computations that may stop with one, the string operations of the
  language that the programs use (\<^verbatim>\<open>str.split\<close>, \<^verbatim>\<open>int(...)\<close>, the \<^verbatim>\<open>%d\<close> conversion),
  and generic lemmas on lists, maps and ranges.
  Collections: \<open>res_simps\<close> unfolds the sequencing, \<open>py_simps\<close> the string operations.
\<close>

named_theorems res_simps "sequencing of computations that may stop with an error"
named_theorems py_simps "operations of the Python runtime"

section \<open>Errors and results\<close>

text \<open>How a run of one of the programs can end other than by returning a value.
  \<open>SysExit\<close> is a call of \<^verbatim>\<open>exit(1)\<close>, \<open>NameError\<close> a call of a function that does not exist
  (\<^verbatim>\<open>abort\<close> in \<^verbatim>\<open>malloc.py\<close>), \<open>NoReturn\<close> a loop that never ends.\<close>

datatype pyerr = AssertionError | KeyError | IndexError | ValueError | TypeError | NameError
  | ZeroDivisionError | AttributeError | SysExit | NoReturn

type_synonym 'a res = "pyerr + 'a"

definition bnd :: "'a res \<Rightarrow> ('a \<Rightarrow> 'b res) \<Rightarrow> 'b res" where
  "bnd m f = (case m of Inl e \<Rightarrow> Inl e | Inr a \<Rightarrow> f a)"

text \<open>\<^verbatim>\<open>assert(c)\<close> followed by the rest of the code.\<close>

definition asserting :: "bool \<Rightarrow> 'a res \<Rightarrow> 'a res" where
  "asserting c m = (if c then m else Inl AssertionError)"

definition dict_get :: "('k \<rightharpoonup> 'v) \<Rightarrow> 'k \<Rightarrow> 'v res" where
  "dict_get m k = (case m k of None \<Rightarrow> Inl KeyError | Some v \<Rightarrow> Inr v)"

text \<open>\<^verbatim>\<open>xs[i]\<close> for a Python list: a negative index counts from the end.\<close>

definition list_get :: "'a list \<Rightarrow> int \<Rightarrow> 'a res" where
  "list_get xs i =
     (let k = i + (if i < 0 then int (length xs) else 0)
      in if k < 0 \<or> int (length xs) \<le> k then Inl IndexError else Inr (xs ! nat k))"

text \<open>\<^verbatim>\<open>xs[i] = v\<close>\<close>

definition list_put :: "'a list \<Rightarrow> int \<Rightarrow> 'a \<Rightarrow> 'a list res" where
  "list_put xs i v =
     (let k = i + (if i < 0 then int (length xs) else 0)
      in if k < 0 \<or> int (length xs) \<le> k then Inl IndexError else Inr (xs[nat k := v]))"

text \<open>\<^verbatim>\<open>d[i]\<close> for a dictionary whose keys are \<open>0..<length xs\<close>.\<close>

definition key_get :: "'a list \<Rightarrow> nat \<Rightarrow> 'a res" where
  "key_get xs i = (if i < length xs then Inr (xs ! i) else Inl KeyError)"

text \<open>Evaluation looks at the first computation before the rest.\<close>

declare bnd_def [code_unfold] asserting_def [code_unfold]

lemma bnd_simps [simp, res_simps]: "bnd (Inl e) f = Inl e" "bnd (Inr a) f = f a"
  by (simp_all add: bnd_def)

lemma bnd_eq_Inr_iff [res_simps]: "bnd m f = Inr b \<longleftrightarrow> (\<exists>a. m = Inr a \<and> f a = Inr b)"
  by (cases m) auto

lemma bnd_assoc: "bnd (bnd m f) g = bnd m (\<lambda>x. bnd (f x) g)"
  by (cases m) auto

lemma asserting_True [simp]: "asserting True m = m"
  by (simp add: asserting_def)

lemma asserting_eq_Inr_iff [res_simps]: "asserting c m = Inr b \<longleftrightarrow> c \<and> m = Inr b"
  by (auto simp: asserting_def)

lemma dict_get_Some [simp]: "m k = Some v \<Longrightarrow> dict_get m k = Inr v"
  by (simp add: dict_get_def)

lemma dict_get_eq_Inr_iff [res_simps]: "dict_get m k = Inr v \<longleftrightarrow> m k = Some v"
  by (auto simp: dict_get_def split: option.splits)

lemma key_get_in [simp]: "i < length xs \<Longrightarrow> key_get xs i = Inr (xs ! i)"
  by (simp add: key_get_def)

lemma key_get_eq_Inr_iff [res_simps]: "key_get xs i = Inr v \<longleftrightarrow> i < length xs \<and> v = xs ! i"
  by (auto simp: key_get_def)

lemma list_get_nat [simp]: "i < length xs \<Longrightarrow> list_get xs (int i) = Inr (xs ! i)"
  by (simp add: list_get_def)

lemma list_get_in [simp]: "0 \<le> i \<Longrightarrow> i < int (length xs) \<Longrightarrow> list_get xs i = Inr (xs ! nat i)"
  by (simp add: list_get_def)

lemma list_put_in [simp]: "0 \<le> i \<Longrightarrow> i < int (length xs) \<Longrightarrow> list_put xs i v = Inr (xs[nat i := v])"
  by (simp add: list_put_def)

text \<open>A \<^verbatim>\<open>for\<close> loop whose body may stop with an error.\<close>

fun foldres :: "('s \<Rightarrow> 'a \<Rightarrow> 's res) \<Rightarrow> 's \<Rightarrow> 'a list \<Rightarrow> 's res" where
  "foldres f s [] = Inr s"
| "foldres f s (x # xs) = bnd (f s x) (\<lambda>s'. foldres f s' xs)"

lemma foldres_append: "foldres f s (xs @ ys) = bnd (foldres f s xs) (\<lambda>s'. foldres f s' ys)"
  by (induction xs arbitrary: s) (auto simp: bnd_assoc)

lemma foldres_inv:
  assumes "foldres f s xs = Inr t" and "P s"
    and "\<And>s x s'. P s \<Longrightarrow> x \<in> set xs \<Longrightarrow> f s x = Inr s' \<Longrightarrow> P s'"
  shows "P t"
  using assms
proof (induction xs arbitrary: s)
  case (Cons x xs)
  from Cons.prems(1) obtain s' where s': "f s x = Inr s'" "foldres f s' xs = Inr t"
    by (auto simp: bnd_eq_Inr_iff)
  have "P s'" using Cons.prems(3)[OF Cons.prems(2) _ s'(1)] by simp
  moreover have "\<And>s x s'. P s \<Longrightarrow> x \<in> set xs \<Longrightarrow> f s x = Inr s' \<Longrightarrow> P s'"
    using Cons.prems(3) by (meson list.set_intros(2))
  ultimately show ?case using Cons.IH[OF s'(2)] by blast
qed simp

lemma foldres_total:
  assumes "P s" and "\<And>s x. P s \<Longrightarrow> x \<in> set xs \<Longrightarrow> \<exists>s'. f s x = Inr s' \<and> P s'"
  shows "\<exists>t. foldres f s xs = Inr t \<and> P t"
  using assms
proof (induction xs arbitrary: s)
  case (Cons x xs)
  from Cons.prems obtain s' where "f s x = Inr s'" "P s'" by fastforce
  with Cons show ?case by auto
qed simp

section \<open>Integers\<close>

text \<open>\<^verbatim>\<open>int(a / b)\<close>: the quotient rounded towards zero (exact for the sizes the programs use).\<close>

definition int_div :: "int \<Rightarrow> int \<Rightarrow> int res" where
  "int_div a b =
     (if b = 0 then Inl ZeroDivisionError
      else Inr (if 0 \<le> a \<and> 0 < b \<or> a \<le> 0 \<and> b < 0 then \<bar>a\<bar> div \<bar>b\<bar> else - (\<bar>a\<bar> div \<bar>b\<bar>)))"

text \<open>\<^verbatim>\<open>a % b\<close>\<close>

definition int_mod :: "int \<Rightarrow> int \<Rightarrow> int res" where
  "int_mod a b = (if b = 0 then Inl ZeroDivisionError else Inr (a mod b))"

lemma int_div_nonneg [simp]: "0 \<le> a \<Longrightarrow> 0 < b \<Longrightarrow> int_div a b = Inr (a div b)"
  by (simp add: int_div_def)

lemma int_mod_pos [simp]: "b \<noteq> 0 \<Longrightarrow> int_mod a b = Inr (a mod b)"
  by (simp add: int_mod_def)

lemma zdiv_less_iff: "0 < m \<Longrightarrow> b div m < n \<longleftrightarrow> b < n * (m::int)"
proof
  assume m: "0 < m" and "b div m < n"
  then have "(b div m + 1) * m \<le> n * m" by (intro mult_right_mono) auto
  moreover have "b mod m < m" using m by simp
  ultimately show "b < n * m" using div_mult_mod_eq[of b m] by (simp only: distrib_right)
next
  assume m: "0 < m" and b: "b < n * m"
  show "b div m < n"
  proof (rule ccontr)
    assume "\<not> b div m < n"
    then have "n * m \<le> b div m * m" using m by (intro mult_right_mono) auto
    moreover have "0 \<le> b mod m" using m by simp
    ultimately show False using b div_mult_mod_eq[of b m] by simp
  qed
qed

lemma zdiv_ge_iff: "0 < m \<Longrightarrow> n \<le> b div m \<longleftrightarrow> n * m \<le> (b::int)"
  using zdiv_less_iff[of m b n] by linarith

section \<open>Random numbers\<close>

text \<open>\<^verbatim>\<open>random.random()\<close> is \<open>k / 2^53\<close> for an integer \<open>k\<close>; the programs take these numerators as inputs. \<open>scaled k n\<close> is
  \<^verbatim>\<open>int(random.random() * n)\<close>, with the product taken exactly.\<close>

abbreviation drawn :: "int \<Rightarrow> bool" where
  "drawn k \<equiv> 0 \<le> k \<and> k < 2 ^ 53"

definition scaled :: "int \<Rightarrow> int \<Rightarrow> int" where
  "scaled k n = k * n div 2 ^ 53"

lemma scaled_range: "drawn k \<Longrightarrow> 0 < n \<Longrightarrow> 0 \<le> scaled k n \<and> scaled k n < n"
  by (simp add: scaled_def zdiv_less_iff pos_imp_zdiv_nonneg_iff mult.commute)

text \<open>The same rounded towards zero, as \<^verbatim>\<open>int\<close> does, for a factor that may be negative.\<close>

definition int_scaled :: "int \<Rightarrow> int \<Rightarrow> int" where
  "int_scaled k n = (if 0 \<le> n then scaled k n else - scaled k (- n))"

lemma int_scaled_range: "drawn k \<Longrightarrow> 0 < n \<Longrightarrow> 0 \<le> int_scaled k n \<and> int_scaled k n < n"
  using scaled_range[of k n] by (simp add: int_scaled_def)

text \<open>A computation that only stops when the random numbers are used up.\<close>

definition lucky :: "('a \<Rightarrow> bool) \<Rightarrow> 'a res \<Rightarrow> bool" where
  "lucky P m \<longleftrightarrow> (case m of Inl e \<Rightarrow> e = NoReturn | Inr x \<Rightarrow> P x)"

lemma lucky_simps [simp]: "lucky P (Inr x) \<longleftrightarrow> P x" "lucky P (Inl e) \<longleftrightarrow> e = NoReturn"
  by (simp_all add: lucky_def)

lemma lucky_bnd: "lucky P m \<Longrightarrow> (\<And>x. P x \<Longrightarrow> lucky Q (f x)) \<Longrightarrow> lucky Q (bnd m f)"
  by (cases m) simp_all

lemma lucky_mono: "lucky P m \<Longrightarrow> (\<And>x. P x \<Longrightarrow> Q x) \<Longrightarrow> lucky Q m"
  by (cases m) simp_all

section \<open>Bits\<close>

unbundle bit_operations_syntax

lemma field_bits: "drop_bit n (a AND push_bit n (mask m)) = (a div 2 ^ n) mod 2 ^ m" for a :: int
proof -
  have "drop_bit n (a AND push_bit n (mask m)) = take_bit m (drop_bit n a)"
    by (rule bit_eqI) (auto simp: bit_simps)
  then show ?thesis by (simp add: take_bit_eq_mod drop_bit_eq_div)
qed

lemma or_field:
  assumes "0 \<le> b" "b < 2 ^ n"
  shows "push_bit n a OR b = a * 2 ^ n + (b::int)"
proof -
  have "b = take_bit n b" using assms by (simp add: take_bit_int_eq_self)
  then have "bit b k \<Longrightarrow> k < n" for k by (metis bit_take_bit_iff)
  then have "push_bit n a + b = push_bit n a OR b" by (intro disjunctive_add) (force simp: bit_simps)
  then show ?thesis by (simp add: push_bit_eq_mult)
qed

section \<open>Strings of the language\<close>

text \<open>\<^verbatim>\<open>s.split(c)\<close> for a one-character separator.\<close>

fun split_on :: "char \<Rightarrow> string \<Rightarrow> string list" where
  "split_on c [] = [[]]"
| "split_on c (x # xs) =
     (if x = c then [] # split_on c xs
      else (case split_on c xs of [] \<Rightarrow> [[x]] | y # ys \<Rightarrow> (x # y) # ys))"

lemma split_on_nonempty [simp]: "split_on c s \<noteq> []"
  by (induction s) (auto split: list.splits)

lemma split_on_plain [py_simps]: "c \<notin> set s \<Longrightarrow> split_on c s = [s]"
  by (induction s) auto

lemma split_on_sep [py_simps]:
  "c \<notin> set s \<Longrightarrow> split_on c (s @ c # t) = s # split_on c t"
  by (induction s) auto

lemma split_on_no_sep: "t \<in> set (split_on c s) \<Longrightarrow> c \<notin> set t"
  by (induction s arbitrary: t) (fastforce split: list.splits if_splits)+

text \<open>\<^verbatim>\<open>c.join(ts)\<close>, the inverse of \<open>split_on\<close>.\<close>

fun join_with :: "char \<Rightarrow> string list \<Rightarrow> string" where
  "join_with c [] = []"
| "join_with c [t] = t"
| "join_with c (t # ts) = t @ c # join_with c ts"

lemma split_join [py_simps]:
  "ts \<noteq> [] \<Longrightarrow> \<forall>t \<in> set ts. c \<notin> set t \<Longrightarrow> split_on c (join_with c ts) = ts"
  by (induction c ts rule: join_with.induct) (auto simp: py_simps)

text \<open>Decimal digits, the conversion \<^verbatim>\<open>'%d' % n\<close> and the conversion \<^verbatim>\<open>int(s)\<close>, which takes
  surrounding blanks, a sign, and single underscores between digits.\<close>

definition is_digit :: "char \<Rightarrow> bool" where
  "is_digit c \<longleftrightarrow> 48 \<le> (of_char c :: nat) \<and> (of_char c :: nat) \<le> 57"

definition digit_val :: "char \<Rightarrow> nat" where
  "digit_val c = of_char c - 48"

definition digit_char :: "nat \<Rightarrow> char" where
  "digit_char d = char_of (d + 48)"

definition is_space :: "char \<Rightarrow> bool" where
  "is_space c \<longleftrightarrow> (of_char c :: nat) = 32 \<or> 9 \<le> (of_char c :: nat) \<and> (of_char c :: nat) \<le> 13"

text \<open>Code equations that compare characters instead of their codes.\<close>

lemma char_eq_iff_code: "c = d \<longleftrightarrow> (of_char c :: nat) = of_char d"
  by (metis char_of_char)

lemma is_space_code [code]:
  "is_space c \<longleftrightarrow> c = CHR 0x20 \<or> c = CHR 0x09 \<or> c = CHR 0x0A \<or> c = CHR 0x0B \<or> c = CHR 0x0C \<or> c = CHR 0x0D"
  unfolding is_space_def char_eq_iff_code[of c] by auto

lemma is_digit_code [code]:
  "is_digit c \<longleftrightarrow> c = CHR ''0'' \<or> c = CHR ''1'' \<or> c = CHR ''2'' \<or> c = CHR ''3'' \<or> c = CHR ''4'' \<or> c = CHR ''5'' \<or>
     c = CHR ''6'' \<or> c = CHR ''7'' \<or> c = CHR ''8'' \<or> c = CHR ''9''"
  unfolding is_digit_def char_eq_iff_code[of c] by simp arith

definition strip :: "string \<Rightarrow> string" where
  "strip s = rev (dropWhile is_space (rev (dropWhile is_space s)))"

fun digits_acc :: "nat \<Rightarrow> string \<Rightarrow> nat option" where
  "digits_acc acc [] = Some acc"
| "digits_acc acc [c] = (if is_digit c then Some (10 * acc + digit_val c) else None)"
| "digits_acc acc (c # d # cs) =
     (if is_digit c then digits_acc (10 * acc + digit_val c) (d # cs)
      else if c = CHR ''_'' \<and> is_digit d then digits_acc (10 * acc + digit_val d) cs
      else None)"

definition nat_of_string :: "string \<Rightarrow> nat option" where
  "nat_of_string s =
     (case s of [] \<Rightarrow> None
      | c # cs \<Rightarrow> if is_digit c then digits_acc (digit_val c) cs else None)"

definition int_of_string :: "string \<Rightarrow> int res" where
  "int_of_string s =
     (case strip s of
        [] \<Rightarrow> Inl ValueError
      | c # cs \<Rightarrow>
          (case (if c = CHR ''+'' then map_option int (nat_of_string cs)
                 else if c = CHR ''-'' then map_option (\<lambda>n. - int n) (nat_of_string cs)
                 else map_option int (nat_of_string (c # cs)))
           of None \<Rightarrow> Inl ValueError | Some i \<Rightarrow> Inr i))"

fun str_nat :: "nat \<Rightarrow> string" where
  "str_nat n = (if n < 10 then [digit_char n] else str_nat (n div 10) @ [digit_char (n mod 10)])"

declare str_nat.simps [simp del]

definition str_int :: "int \<Rightarrow> string" where
  "str_int i = (if i < 0 then CHR ''-'' # str_nat (nat (- i)) else str_nat (nat i))"

lemma digit_char_digit [simp]: "d < 10 \<Longrightarrow> is_digit (digit_char d)"
  by (simp add: is_digit_def digit_char_def)

lemma digit_val_char [simp]: "d < 10 \<Longrightarrow> digit_val (digit_char d) = d"
  by (simp add: digit_val_def digit_char_def)

lemma digits_acc_snoc:
  assumes "digits_acc acc s = Some n" and "is_digit c"
  shows "digits_acc acc (s @ [c]) = Some (10 * n + digit_val c)"
  using assms
proof (induction acc s rule: digits_acc.induct)
  case (3 acc a b cs)
  then show ?case by (cases cs) (auto split: if_splits)
qed (auto split: if_splits)

lemma nat_of_string_snoc:
  "nat_of_string s = Some n \<Longrightarrow> is_digit c \<Longrightarrow> nat_of_string (s @ [c]) = Some (10 * n + digit_val c)"
  by (auto simp: nat_of_string_def digits_acc_snoc split: list.splits if_splits)

lemma nat_of_string_str_nat [py_simps]: "nat_of_string (str_nat n) = Some n"
proof (induction n rule: str_nat.induct)
  case (1 n)
  show ?case
  proof (cases "n < 10")
    case True
    then show ?thesis by (simp add: str_nat.simps[of n] nat_of_string_def)
  next
    case False
    with 1 have "nat_of_string (str_nat (n div 10)) = Some (n div 10)" by simp
    with False show ?thesis
      by (simp add: str_nat.simps[of n] nat_of_string_snoc)
  qed
qed

lemma str_nat_digits: "c \<in> set (str_nat n) \<Longrightarrow> is_digit c"
proof (induction n rule: str_nat.induct)
  case (1 n)
  then show ?case by (cases "n < 10") (auto simp: str_nat.simps[of n])
qed

lemma str_nat_nonempty [simp]: "str_nat n \<noteq> []"
  by (simp add: str_nat.simps[of n])

lemma digit_not_space [simp]: "is_digit c \<Longrightarrow> \<not> is_space c"
  by (auto simp: is_digit_def is_space_def)

lemma strip_no_space:
  assumes "\<forall>c \<in> set s. \<not> is_space c" shows "strip s = s"
proof -
  have "dropWhile is_space t = t" if "\<forall>c \<in> set t. \<not> is_space c" for t
    using that by (cases t) auto
  from this[of s] this[of "rev s"] assms show ?thesis by (simp add: strip_def)
qed

lemma not_digit_signs [simp]: "\<not> is_digit CHR ''+''" "\<not> is_digit CHR ''-''"
  "\<not> is_space CHR ''-''"
  by (simp_all add: is_digit_def is_space_def)

lemma int_of_string_str_int [py_simps]: "int_of_string (str_int i) = Inr i"
proof -
  have ns: "\<forall>c \<in> set (str_int i). \<not> is_space c"
    by (auto simp: str_int_def dest: str_nat_digits split: if_splits)
  show ?thesis
  proof (cases "i < 0")
    case True
    then show ?thesis
      using strip_no_space[OF ns] by (simp add: int_of_string_def str_int_def py_simps)
  next
    case False
    obtain c cs where c: "str_nat (nat i) = c # cs"
      by (cases "str_nat (nat i)") auto
    then have "is_digit c" using str_nat_digits[of c "nat i"] by simp
    then have "c \<noteq> CHR ''+''" "c \<noteq> CHR ''-''" by auto
    moreover have "nat_of_string (c # cs) = Some (nat i)"
      using nat_of_string_str_nat[of "nat i"] c by simp
    moreover have "strip (str_int i) = c # cs"
      using strip_no_space[OF ns] False c by (simp add: str_int_def)
    ultimately show ?thesis using False by (simp add: int_of_string_def)
  qed
qed

lemma str_int_chars: "c \<in> set (str_int i) \<Longrightarrow> is_digit c \<or> c = CHR ''-''"
  by (auto simp: str_int_def dest: str_nat_digits split: if_splits)

lemma str_int_no_sep: "CHR '','' \<notin> set (str_int i)" "CHR '':'' \<notin> set (str_int i)"
  using str_int_chars[of "CHR '',''" i] str_int_chars[of "CHR '':''" i] by (auto simp: is_digit_code)

section \<open>Lists\<close>

lemma find_SomeD: "find P xs = Some x \<Longrightarrow> x \<in> set xs \<and> P x"
  by (induction xs) (auto split: if_splits)

text \<open>\<^verbatim>\<open>xs.pop(i)\<close> for an index in range.\<close>

definition remove_nth :: "nat \<Rightarrow> 'a list \<Rightarrow> 'a list" where
  "remove_nth i xs = take i xs @ drop (Suc i) xs"

lemma mset_remove_nth: "i < length xs \<Longrightarrow> mset (remove_nth i xs) = mset xs - {#xs ! i#}"
proof -
  assume i: "i < length xs"
  have "mset xs = mset (take i xs @ xs ! i # drop (Suc i) xs)"
    using id_take_nth_drop[OF i] by simp
  then show ?thesis by (simp add: remove_nth_def)
qed

lemma length_remove_nth [simp]: "i < length xs \<Longrightarrow> length (remove_nth i xs) = length xs - 1"
  by (simp add: remove_nth_def)

lemma set_remove_nth: "set (remove_nth i xs) \<subseteq> set xs"
  by (auto simp: remove_nth_def dest: in_set_takeD in_set_dropD)

lemma remove_nth_distinct:
  assumes "distinct xs" "i < length xs"
  shows "remove_nth i xs = filter (\<lambda>y. y \<noteq> xs ! i) xs"
proof -
  have eq: "xs = take i xs @ xs ! i # drop (Suc i) xs" by (rule id_take_nth_drop[OF assms(2)])
  then have "distinct (take i xs @ xs ! i # drop (Suc i) xs)" using assms(1) by simp
  then have "xs ! i \<notin> set (take i xs)" "xs ! i \<notin> set (drop (Suc i) xs)" by auto
  then have "filter (\<lambda>y. y \<noteq> xs ! i) (take i xs) = take i xs"
    "filter (\<lambda>y. y \<noteq> xs ! i) (drop (Suc i) xs) = drop (Suc i) xs"
    by (auto simp: filter_id_conv)
  then have "filter (\<lambda>y. y \<noteq> xs ! i) (take i xs @ xs ! i # drop (Suc i) xs) = remove_nth i xs"
    by (simp add: remove_nth_def)
  with eq show ?thesis by simp
qed

lemma sum_list_update_int: "j < length xs \<Longrightarrow> sum_list (xs[j := v]) = sum_list xs + v - (xs ! j :: int)"
  by (induction xs arbitrary: j) (auto split: nat.splits)

lemma member_le_sum_int: "x \<in> set xs \<Longrightarrow> \<forall>y \<in> set xs. 0 \<le> y \<Longrightarrow> (x::int) \<le> sum_list xs"
  by (induction xs) (auto intro: order_trans add_increasing2 sum_list_nonneg)

lemma length_filter_mono: "(\<And>x. x \<in> set xs \<Longrightarrow> P x \<Longrightarrow> Q x) \<Longrightarrow> length (filter P xs) \<le> length (filter Q xs)"
  by (induction xs) (auto simp: le_Suc_eq)

lemma map_update_same: "b < length xs \<Longrightarrow> f v = f (xs ! b) \<Longrightarrow> map f (xs[b := v]) = map f xs"
  by (simp add: map_update list_update_same_conv)

text \<open>Moving elements between the rows of a table.\<close>

lemma mset_concat_update:
  "q < length qs \<Longrightarrow> mset (concat (qs[q := xs])) + mset (qs ! q) = mset (concat qs) + mset xs"
proof -
  assume q: "q < length qs"
  have 1: "qs = take q qs @ qs ! q # drop (Suc q) qs" by (rule id_take_nth_drop[OF q])
  have "qs[q := xs] = take q qs @ xs # drop (Suc q) qs" by (rule upd_conv_take_nth_drop[OF q])
  moreover have "mset (concat qs) = mset (concat (take q qs)) + mset (qs ! q) + mset (concat (drop (Suc q) qs))"
    by (subst 1) simp
  ultimately show ?thesis by simp
qed

lemma set_concat_update:
  "q < length qs \<Longrightarrow> set (qs ! q) \<subseteq> set (concat qs)" "set (concat (qs[q := xs])) \<subseteq> set (concat qs) \<union> set xs"
  using set_update_subset_insert[of qs q xs] by (auto intro: nth_mem)

lemma distinct_remove_nth: "distinct xs \<Longrightarrow> distinct (remove_nth i xs)"
  by (auto simp: remove_nth_def set_take_disj_set_drop_if_distinct)

end
