(* ===== verification/Machines.thy ===== *)
theory Machines
  imports Prelude
begin

text \<open>
  The contract most components share: operations that, from a state satisfying an invariant and
  under the operation's precondition, finish without an error and give a state that satisfies the
  invariant again. The lemmas about whole runs are proved here once; each component interprets
  the locale on its own operations.
\<close>

section \<open>Error-free operations that keep an invariant\<close>

locale safe_machine =
  fixes inv :: "'s \<Rightarrow> bool"
    and pre :: "'s \<Rightarrow> 'e \<Rightarrow> bool"
    and step :: "'s \<Rightarrow> 'e \<Rightarrow> 's res"
  assumes step_safe: "inv s \<Longrightarrow> pre s e \<Longrightarrow> \<exists>s'. step s e = Inr s' \<and> inv s'"
begin

text \<open>Every event of the run meets the precondition at the state it is applied to.\<close>

fun pre_all :: "'s \<Rightarrow> 'e list \<Rightarrow> bool" where
  "pre_all s [] = True"
| "pre_all s (e # es) = (pre s e \<and> (\<forall>s'. step s e = Inr s' \<longrightarrow> pre_all s' es))"

lemma run_safe:
  assumes "inv s" and "pre_all s es"
  shows "\<exists>s'. foldres step s es = Inr s' \<and> inv s'"
  using assms
proof (induction es arbitrary: s)
  case (Cons e es)
  from Cons.prems obtain t where t: "step s e = Inr t" "inv t"
    using step_safe by (metis pre_all.simps(2))
  with Cons.prems Cons.IH[OF t(2)] show ?case by auto
qed simp

lemma run_safe_uniform:
  assumes "inv s" and "\<And>s e. inv s \<Longrightarrow> e \<in> set es \<Longrightarrow> pre s e"
  shows "\<exists>s'. foldres step s es = Inr s' \<and> inv s'"
  using assms(1) by (rule foldres_total) (use assms(2) step_safe in blast)

lemma step_inv: "inv s \<Longrightarrow> pre s e \<Longrightarrow> step s e = Inr s' \<Longrightarrow> inv s'"
  using step_safe by fastforce

lemma no_error: "inv s \<Longrightarrow> pre s e \<Longrightarrow> step s e \<noteq> Inl err"
  using step_safe by fastforce

end

section \<open>Operations that follow an abstract specification\<close>

text \<open>The operations of a list are legal one after the other, each at the abstract state the earlier ones lead to.\<close>

fun legal_run :: "('a \<Rightarrow> 'e \<Rightarrow> bool) \<Rightarrow> ('a \<Rightarrow> 'e \<Rightarrow> 'a) \<Rightarrow> 'a \<Rightarrow> 'e list \<Rightarrow> bool" where
  "legal_run legal astep a [] = True"
| "legal_run legal astep a (e # es) = (legal a e \<and> legal_run legal astep (astep a e) es)"

locale refined_machine =
  fixes R :: "'s \<Rightarrow> 'a \<Rightarrow> bool"
    and legal :: "'a \<Rightarrow> 'e \<Rightarrow> bool"
    and step :: "'s \<Rightarrow> 'e \<Rightarrow> 's res"
    and astep :: "'a \<Rightarrow> 'e \<Rightarrow> 'a"
  assumes sim: "R s a \<Longrightarrow> legal a e \<Longrightarrow> \<exists>s'. step s e = Inr s' \<and> R s' (astep a e)"
begin

lemma run_refines:
  assumes "R s a" and "legal_run legal astep a es"
  shows "\<exists>s'. foldres step s es = Inr s' \<and> R s' (foldl astep a es)"
  using assms
proof (induction es arbitrary: s a)
  case (Cons e es)
  then obtain t where "step s e = Inr t" "R t (astep a e)" using sim by fastforce
  with Cons show ?case by auto
qed auto

end

section \<open>Loops\<close>

text \<open>A \<^verbatim>\<open>while\<close> loop whose body may stop with an error; \<open>NoReturn\<close> when the fuel is used up.\<close>

fun while_res :: "('s \<Rightarrow> bool) \<Rightarrow> ('s \<Rightarrow> 's res) \<Rightarrow> nat \<Rightarrow> 's \<Rightarrow> 's res" where
  "while_res c b 0 s = (if c s then Inl NoReturn else Inr s)"
| "while_res c b (Suc n) s = (if c s then bnd (b s) (while_res c b n) else Inr s)"

text \<open>More fuel does not change the result of a loop that ends.\<close>

lemma while_res_more:
  "while_res c b n s = Inr t \<Longrightarrow> n \<le> m \<Longrightarrow> while_res c b m s = Inr t"
proof (induction n arbitrary: s m)
  case 0
  then show ?case by (cases m) (auto split: if_splits)
next
  case (Suc n)
  then obtain k where "m = Suc k" by (cases m) auto
  with Suc show ?case by (auto simp: bnd_eq_Inr_iff split: if_splits)
qed

lemma while_res_inv:
  assumes "while_res c b n s = Inr t" and "P s" and "\<And>s s'. P s \<Longrightarrow> c s \<Longrightarrow> b s = Inr s' \<Longrightarrow> P s'"
  shows "P t \<and> \<not> c t"
  using assms
proof (induction n arbitrary: s)
  case (Suc n)
  then show ?case
    by (cases "c s") (auto simp: bnd_eq_Inr_iff)
qed (auto split: if_splits)

text \<open>A loop with an invariant under which the body never fails, and a measure that bounds the rounds.\<close>

locale terminating_loop =
  fixes inv :: "'s \<Rightarrow> bool"
    and guard :: "'s \<Rightarrow> bool"
    and body :: "'s \<Rightarrow> 's res"
    and rounds :: "'s \<Rightarrow> nat"
  assumes body_ok: "inv s \<Longrightarrow> guard s \<Longrightarrow> \<exists>s'. body s = Inr s' \<and> inv s' \<and> rounds s' < rounds s"
begin

theorem loop_ends:
  assumes "inv s" "rounds s \<le> n"
  shows "\<exists>s'. while_res guard body n s = Inr s' \<and> inv s' \<and> \<not> guard s'"
  using assms
proof (induction n arbitrary: s)
  case 0
  then show ?case using body_ok by fastforce
next
  case (Suc n)
  show ?case
  proof (cases "guard s")
    case True
    then obtain t where t: "body s = Inr t" "inv t" "rounds t < rounds s" using body_ok Suc.prems(1) by blast
    then have "rounds t \<le> n" using Suc.prems(2) by simp
    from Suc.IH[OF t(2) this] True t(1) show ?thesis by simp
  qed (use Suc.prems in simp)
qed

end

end
