(* ===== verification/Malloc.thy ===== *)
theory Malloc
  imports Machines "HOL-Library.AList"
begin

text \<open>
  The free-space manager of \<^verbatim>\<open>ostep/homework/vm-freespace/malloc.py\<close>: class \<^verbatim>\<open>malloc\<close> with its
  three search policies, five list orders and the coalescing pass, and the two main loops (random
  requests, explicit request list). Shown: no byte is ever free twice, allocated twice or lost; no
  assertion of the class can fail; what each policy returns; what freeing and coalescing leave.
  Sizes and addresses are Python integers. Draws of the random generator are the input of the
  random loop. Console output is kept as a list of events.
\<close>

section \<open>State\<close>

datatype policy = FIRST | BEST | WORST

datatype order = ADDRSORT | SIZESORT_PLUS | SIZESORT_MINUS | INSERT_FRONT | INSERT_BACK

definition policy_of :: "string \<Rightarrow> policy option" where
  "policy_of s =
     (if s = ''FIRST'' then Some FIRST else if s = ''BEST'' then Some BEST
      else if s = ''WORST'' then Some WORST else None)"

definition order_of :: "string \<Rightarrow> order option" where
  "order_of s =
     (if s = ''ADDRSORT'' then Some ADDRSORT
      else if s = ''SIZESORT+'' then Some SIZESORT_PLUS
      else if s = ''SIZESORT-'' then Some SIZESORT_MINUS
      else if s = ''INSERT-FRONT'' then Some INSERT_FRONT
      else if s = ''INSERT-BACK'' then Some INSERT_BACK else None)"

type_synonym extent = "int \<times> int" \<comment> \<open>address, size\<close>

record heap =
  hsize :: int
  headerSize :: int
  freelist :: "extent list"
  sizemap :: "int \<rightharpoonup> int"
  hpolicy :: policy
  returnPolicy :: order
  coalesce :: bool
  align :: int

definition heap_init :: "int \<Rightarrow> int \<Rightarrow> int \<Rightarrow> string \<Rightarrow> string \<Rightarrow> bool \<Rightarrow> int \<Rightarrow> heap res" where
  "heap_init sz start hdr pol ord coal al =
     (case policy_of pol of None \<Rightarrow> Inl AssertionError
      | Some p \<Rightarrow>
         (case order_of ord of None \<Rightarrow> Inl AssertionError
          | Some r \<Rightarrow>
             asserting (al = -1 \<or> al > 0)
               (Inr \<lparr>hsize = sz, headerSize = hdr, freelist = [(start, sz)],
                     sizemap = Map.empty, hpolicy = p, returnPolicy = r,
                     coalesce = coal, align = al\<rparr>)))"

section \<open>Operations\<close>

definition addToMap :: "heap \<Rightarrow> int \<Rightarrow> int \<Rightarrow> heap res" where
  "addToMap h addr sz =
     asserting (sizemap h addr = None) (Inr (h\<lparr>sizemap := (sizemap h)(addr \<mapsto> sz)\<rparr>))"

text \<open>The size that is searched for: the request rounded up to the alignment, plus the header.\<close>

definition needed :: "heap \<Rightarrow> int \<Rightarrow> int" where
  "needed h sz =
     (let sz = (if align h \<noteq> -1 then
                    (let left = sz mod align h;
                         diff = (if left \<noteq> 0 then align h - left else 0)
                     in sz + diff)
                  else sz)
      in sz + headerSize h)"

text \<open>The search loop. \<open>best\<close> is \<^verbatim>\<open>(bestIdx, bestAddr)\<close>, \<open>None\<close> while \<^verbatim>\<open>bestIdx == -1\<close>.\<close>

fun search :: "policy \<Rightarrow> int \<Rightarrow> extent list \<Rightarrow> nat \<Rightarrow> (nat \<times> int) option \<Rightarrow> int \<Rightarrow> nat
    \<Rightarrow> (nat \<times> int) option \<times> int \<times> nat" where
  "search pol sz [] i best bestSize seen = (best, bestSize, seen)"
| "search pol sz ((eaddr, esize) # rest) i best bestSize seen =
     (if esize \<ge> sz \<and> (pol = BEST \<and> esize < bestSize \<or> pol = WORST \<and> esize > bestSize \<or> pol = FIRST)
      then if pol = FIRST then (Some (i, eaddr), esize, Suc seen)
           else search pol sz rest (Suc i) (Some (i, eaddr)) esize (Suc seen)
      else search pol sz rest (Suc i) best bestSize (Suc seen))"

definition malloc :: "heap \<Rightarrow> int \<Rightarrow> ((int \<times> nat) \<times> heap) res" where
  "malloc h request =
     (let sz = needed h request;
          (best, bestSize, seen) =
            search (hpolicy h) sz (freelist h) 0 None
              (if hpolicy h = BEST then hsize h + 1 else -1) 0
      in case best of
           None \<Rightarrow> Inr ((-1, seen), h)
         | Some (bestIdx, bestAddr) \<Rightarrow>
             if bestSize > sz then
               bnd (addToMap (h\<lparr>freelist := (freelist h)[bestIdx := (bestAddr + sz, bestSize - sz)]\<rparr>)
                      bestAddr sz)
                 (\<lambda>h'. Inr ((bestAddr, seen), h'))
             else if bestSize = sz then
               bnd (addToMap (h\<lparr>freelist := remove_nth bestIdx (freelist h)\<rparr>) bestAddr sz)
                 (\<lambda>h'. Inr ((bestAddr, seen), h'))
             else Inl NameError)"

fun coalesce_loop :: "extent \<Rightarrow> extent list \<Rightarrow> extent list \<Rightarrow> extent list" where
  "coalesce_loop cur newlist [] = newlist @ [cur]"
| "coalesce_loop (caddr, csize) newlist ((eaddr, esize) # rest) =
     (if eaddr = caddr + csize then coalesce_loop (caddr, csize + esize) newlist rest
      else coalesce_loop (eaddr, esize) (newlist @ [(caddr, csize)]) rest)"

definition give_back :: "order \<Rightarrow> extent \<Rightarrow> extent list \<Rightarrow> extent list" where
  "give_back ord e fl =
     (case ord of
        INSERT_BACK \<Rightarrow> fl @ [e]
      | INSERT_FRONT \<Rightarrow> e # fl
      | ADDRSORT \<Rightarrow> sort_key fst (fl @ [e])
      | SIZESORT_PLUS \<Rightarrow> sort_key snd (fl @ [e])
      | SIZESORT_MINUS \<Rightarrow> sort_key (\<lambda>e. - snd e) (fl @ [e]))"

definition coalesce_list :: "extent list \<Rightarrow> extent list res" where
  "coalesce_list fl = (case fl of [] \<Rightarrow> Inl IndexError | e # rest \<Rightarrow> Inr (coalesce_loop e [] rest))"

definition free :: "heap \<Rightarrow> int \<Rightarrow> (int \<times> heap) res" where
  "free h addr =
     (case sizemap h addr of
        None \<Rightarrow> Inr (-1, h)
      | Some sz \<Rightarrow>
          (let fl = give_back (returnPolicy h) (addr, sz) (freelist h)
           in bnd (if coalesce h then coalesce_list fl else Inr fl)
                (\<lambda>fl'. Inr (0, h\<lparr>freelist := fl', sizemap := (sizemap h)(addr := None)\<rparr>))))"

section \<open>The main program\<close>

text \<open>What is printed, with the answers shown: an allocation with the pointer and the number of
  list elements searched, a free with its return code, the list after an operation.\<close>

datatype event =
    Alloc_out nat int int nat
  | Free_out nat int
  | Invalid_free
  | List_out "extent list"

text \<open>The program variables of the two loops: the allocator, the dictionary \<^verbatim>\<open>p\<close> from allocation
  number to pointer, the list \<^verbatim>\<open>L\<close> of live allocation numbers, the counters \<^verbatim>\<open>c\<close> and \<^verbatim>\<open>j\<close>.\<close>

record mrun =
  hp :: heap
  ptrs :: "(nat \<times> int) list"
  liveL :: "nat list"
  cnt :: nat
  jops :: nat
  out :: "event list"

text \<open>One pass of the random loop: the draws decide between \<open>Want_alloc n\<close> (the request is \<open>n\<close>)
  and \<open>Want_free d\<close> (the index into \<^verbatim>\<open>L\<close>, drawn only when \<^verbatim>\<open>p\<close> is not empty).\<close>

datatype draw = Want_alloc int | Want_free nat

fun random_step :: "mrun \<Rightarrow> draw \<Rightarrow> mrun res" where
  "random_step s (Want_alloc sz) =
     bnd (malloc (hp s) sz) (\<lambda>((ptr, n), h').
       Inr (s\<lparr>hp := h',
              ptrs := (if ptr \<noteq> -1 then AList.update (cnt s) ptr (ptrs s) else ptrs s),
              liveL := (if ptr \<noteq> -1 then liveL s @ [cnt s] else liveL s),
              cnt := Suc (cnt s), jops := Suc (jops s),
              out := out s @ [Alloc_out (cnt s) sz (ptr + headerSize (hp s)) n,
                              List_out (freelist h')]\<rparr>))"
| "random_step s (Want_free d) =
     (if ptrs s = [] then Inr s
      else bnd (list_get (liveL s) (int d)) (\<lambda>k.
           bnd (dict_get (map_of (ptrs s)) k) (\<lambda>a.
           bnd (free (hp s) a) (\<lambda>(rc, h').
             Inr (s\<lparr>hp := h', ptrs := AList.delete k (ptrs s),
                    liveL := remove_nth d (liveL s), jops := Suc (jops s),
                    out := out s @ [Free_out k rc, List_out (freelist h')]\<rparr>)))))"

fun random_loop :: "nat \<Rightarrow> mrun \<Rightarrow> draw list \<Rightarrow> mrun res" where
  "random_loop opsNum s [] = Inr s"
| "random_loop opsNum s (d # ds) =
     (if jops s < opsNum then bnd (random_step s d) (\<lambda>s'. random_loop opsNum s' ds) else Inr s)"

text \<open>One element of the explicit request list, \<^verbatim>\<open>+size\<close> or \<^verbatim>\<open>-index\<close>.\<close>

definition list_step :: "mrun \<Rightarrow> string \<Rightarrow> mrun res" where
  "list_step s op =
     (case op of
        [] \<Rightarrow> Inl IndexError
      | c # _ \<Rightarrow>
        if c = CHR ''+'' then
          bnd (list_get (split_on CHR ''+'' op) 1) (\<lambda>arg.
          bnd (int_of_string arg) (\<lambda>sz.
          bnd (malloc (hp s) sz) (\<lambda>((ptr, n), h').
            Inr (s\<lparr>hp := h',
                   ptrs := (if ptr \<noteq> -1 then AList.update (cnt s) ptr (ptrs s) else ptrs s),
                   cnt := Suc (cnt s),
                   out := out s @ [Alloc_out (cnt s) sz ptr n, List_out (freelist h')]\<rparr>))))
        else if c = CHR ''-'' then
          bnd (list_get (split_on CHR ''-'' op) 1) (\<lambda>arg.
          bnd (int_of_string arg) (\<lambda>index.
            if index \<ge> int (length (ptrs s)) then Inr (s\<lparr>out := out s @ [Invalid_free]\<rparr>)
            else bnd (if index < 0 then Inl KeyError else dict_get (map_of (ptrs s)) (nat index)) (\<lambda>a.
                 bnd (free (hp s) a) (\<lambda>(rc, h').
                   Inr (s\<lparr>hp := h',
                          out := out s @ [Free_out (nat index) rc, List_out (freelist h')]\<rparr>)))))
        else Inl NameError)"

definition list_loop :: "mrun \<Rightarrow> string \<Rightarrow> mrun res" where
  "list_loop s opsList = foldres list_step s (split_on CHR '','' opsList)"

definition mrun_init :: "heap \<Rightarrow> mrun" where
  "mrun_init h = \<lparr>hp = h, ptrs = [], liveL = [], cnt = 0, jops = 0, out = []\<rparr>"

section \<open>What a search policy selects\<close>

text \<open>Entry \<open>i\<close> is the one the policy asks for: it fits, and among the entries that fit it is the
  first (\<open>FIRST\<close>), the smallest (\<open>BEST\<close>) or the largest (\<open>WORST\<close>), the earliest one on a tie.\<close>

definition preferred :: "policy \<Rightarrow> int \<Rightarrow> int \<Rightarrow> bool" where
  "preferred pol x y = (case pol of FIRST \<Rightarrow> False | BEST \<Rightarrow> x < y | WORST \<Rightarrow> y < x)"

definition chosen :: "policy \<Rightarrow> int \<Rightarrow> extent list \<Rightarrow> nat \<Rightarrow> bool" where
  "chosen pol sz fl i \<longleftrightarrow>
     i < length fl \<and> sz \<le> snd (fl ! i) \<and>
     (\<forall>k < i. sz \<le> snd (fl ! k) \<longrightarrow> preferred pol (snd (fl ! i)) (snd (fl ! k))) \<and>
     (\<forall>k < length fl. sz \<le> snd (fl ! k) \<longrightarrow> \<not> preferred pol (snd (fl ! k)) (snd (fl ! i)))"

lemma chosen_first_fit:
  assumes "\<forall>e \<in> set pre. snd e < sz" and "sz \<le> snd e"
  shows "chosen pol sz (pre @ [e]) (length pre)"
proof -
  have "snd (pre ! k) < sz" if "k < length pre" for k
    using assms(1) that by simp
  with assms(2) show ?thesis
    by (auto simp: chosen_def nth_append less_Suc_eq preferred_def split: policy.splits dest: leD)
qed

lemma chosen_keep:
  assumes "chosen pol sz pre j" and "sz \<le> snd e \<longrightarrow> \<not> preferred pol (snd e) (snd (pre ! j))"
  shows "chosen pol sz (pre @ [e]) j"
  using assms by (auto simp: chosen_def nth_append less_Suc_eq)

lemma chosen_replace:
  assumes "chosen pol sz pre j" and "sz \<le> snd e" and "preferred pol (snd e) (snd (pre ! j))"
  shows "chosen pol sz (pre @ [e]) (length pre)"
proof -
  have "preferred pol (snd e) (snd (pre ! k))" if "k < length pre" "sz \<le> snd (pre ! k)" for k
    using assms that unfolding chosen_def preferred_def
    by (cases pol) force+
  moreover have "\<not> preferred pol x x" "\<not> (preferred pol x y \<and> preferred pol y x)" for x y
    by (auto simp: preferred_def split: policy.splits)
  ultimately show ?thesis using assms(2)
    by (auto simp: chosen_def nth_append less_Suc_eq)
qed

lemma chosen_unique:
  assumes "chosen pol sz fl i" and "chosen pol sz fl j"
  shows "i = j"
  using assms unfolding chosen_def preferred_def
  by (cases pol; cases i j rule: linorder_cases) force+

definition search_state :: "policy \<Rightarrow> int \<Rightarrow> int \<Rightarrow> extent list \<Rightarrow> (nat \<times> int) option \<Rightarrow> int \<Rightarrow> bool" where
  "search_state pol sz init pre best bs =
     (case best of
        None \<Rightarrow> bs = init \<and> (\<forall>e \<in> set pre. snd e < sz)
      | Some (j, a) \<Rightarrow> pol \<noteq> FIRST \<and> pre ! j = (a, bs) \<and> chosen pol sz pre j)"

lemma chosen_append_FIRST:
  "chosen FIRST sz xs j \<Longrightarrow> chosen FIRST sz (xs @ ys) j"
  by (simp add: chosen_def preferred_def nth_append)

lemma search_gen:
  assumes "search_state pol sz init pre best bs"
    and "\<forall>e \<in> set rest. sz \<le> snd e \<longrightarrow> (pol = BEST \<longrightarrow> snd e < init) \<and> (pol = WORST \<longrightarrow> init < snd e)"
    and "search pol sz rest (length pre) best bs (length pre) = (b', bs', c')"
  shows "case b' of
           None \<Rightarrow> (\<forall>e \<in> set (pre @ rest). snd e < sz) \<and> c' = length (pre @ rest)
         | Some (j, a) \<Rightarrow> (pre @ rest) ! j = (a, bs') \<and> chosen pol sz (pre @ rest) j \<and>
             c' = (if pol = FIRST then Suc j else length (pre @ rest))"
  using assms
proof (induction rest arbitrary: pre best bs)
  case Nil
  then show ?case by (auto simp: search_state_def split: option.splits)
next
  case (Cons e rest)
  obtain ea es where e: "e = (ea, es)" by (cases e)
  let ?take = "es \<ge> sz \<and> (pol = BEST \<and> es < bs \<or> pol = WORST \<and> es > bs \<or> pol = FIRST)"
  have IH: "case b' of
           None \<Rightarrow> (\<forall>e \<in> set (pre @ e # rest). snd e < sz) \<and> c' = length (pre @ e # rest)
         | Some (j, a) \<Rightarrow> (pre @ e # rest) ! j = (a, bs') \<and> chosen pol sz (pre @ e # rest) j \<and>
             c' = (if pol = FIRST then Suc j else length (pre @ e # rest))"
    if "search_state pol sz init (pre @ [e]) best' bs''"
      and "search pol sz rest (Suc (length pre)) best' bs'' (Suc (length pre)) = (b', bs', c')"
    for best' bs''
    using Cons.IH[OF that(1), unfolded append_assoc append_Cons append_Nil] Cons.prems(2) that(2)
    by simp
  show ?case
  proof (cases "?take")
    case take: True
    have new: "chosen pol sz (pre @ [e]) (length pre)"
      using take Cons.prems(1) chosen_first_fit[of pre sz e pol] chosen_replace[of pol sz pre _ e] e
      by (auto simp: search_state_def preferred_def split: option.splits)
    show ?thesis
    proof (cases "pol = FIRST")
      case True
      with take Cons.prems(3) e have "b' = Some (length pre, ea)" "bs' = es" "c' = Suc (length pre)"
        by auto
      moreover have "chosen pol sz (pre @ e # rest) (length pre)"
        using chosen_append_FIRST[of sz "pre @ [e]" "length pre" rest] new True by simp
      ultimately show ?thesis using True e by simp
    next
      case False
      have "search_state pol sz init (pre @ [e]) (Some (length pre, ea)) es"
        using new False e by (simp add: search_state_def)
      then show ?thesis by (rule IH) (use take False Cons.prems(3) e in simp)
    qed
  next
    case skip: False
    have "search_state pol sz init (pre @ [e]) best bs"
    proof (cases best)
      case None
      with Cons.prems(1,2) skip e show ?thesis
        by (cases pol) (auto simp: search_state_def)
    next
      case (Some ja)
      obtain j a where ja: "ja = (j, a)" by (cases ja)
      have j: "chosen pol sz pre j" "pre ! j = (a, bs)" "pol \<noteq> FIRST"
        using Cons.prems(1) Some ja by (auto simp: search_state_def)
      have "chosen pol sz (pre @ [e]) j"
        using j skip e by (intro chosen_keep) (auto simp: preferred_def split: policy.splits)
      with j Some ja show ?thesis by (auto simp: search_state_def nth_append chosen_def)
    qed
    then show ?thesis by (rule IH) (use skip Cons.prems(3) e in auto)
  qed
qed

section \<open>The heap invariant\<close>

text \<open>Byte \<open>x\<close> lies in the extent; the number of free-list entries that hold it; whether an
  allocated extent holds it.\<close>

definition covers :: "extent \<Rightarrow> int \<Rightarrow> bool" where
  "covers e x \<longleftrightarrow> fst e \<le> x \<and> x < fst e + snd e"

definition free_count :: "extent list \<Rightarrow> int \<Rightarrow> nat" where
  "free_count fl x = length (filter (\<lambda>e. covers e x) fl)"

definition alloc_at :: "(int \<rightharpoonup> int) \<Rightarrow> int \<Rightarrow> bool" where
  "alloc_at m x \<longleftrightarrow> (\<exists>a s. m a = Some s \<and> covers (a, s) x)"

text \<open>All extents are non-empty; allocated extents lie in the heap and do not overlap; every byte
  of the heap is in exactly one free-list entry or in an allocated extent, never both; no
  free-list entry leaves the heap.\<close>

definition heap_inv :: "int \<Rightarrow> heap \<Rightarrow> bool" where
  "heap_inv lo h \<longleftrightarrow>
     (\<forall>e \<in> set (freelist h). 0 < snd e) \<and>
     (\<forall>a s. sizemap h a = Some s \<longrightarrow> 0 < s \<and> lo \<le> a \<and> a + s \<le> lo + hsize h) \<and>
     (\<forall>a s b t. sizemap h a = Some s \<longrightarrow> sizemap h b = Some t \<longrightarrow> a < b \<longrightarrow> a + s \<le> b) \<and>
     (\<forall>x. free_count (freelist h) x =
        (if lo \<le> x \<and> x < lo + hsize h \<and> \<not> alloc_at (sizemap h) x then 1 else 0))"

lemma free_count_Nil [simp]: "free_count [] x = 0"
  and free_count_Cons [simp]: "free_count (e # fl) x = (if covers e x then 1 else 0) + free_count fl x"
  and free_count_append [simp]: "free_count (fl @ fl') x = free_count fl x + free_count fl' x"
  by (simp_all add: free_count_def)

lemma free_count_mset: "mset fl = mset fl' \<Longrightarrow> free_count fl x = free_count fl' x"
  unfolding free_count_def by (metis mset_filter size_mset)

lemma free_count_pick:
  assumes "i < length fl"
  shows "free_count fl x = (if covers (fl ! i) x then 1 else 0) + free_count (remove_nth i fl) x"
  using id_take_nth_drop[OF assms] free_count_append[of "take i fl" "fl ! i # drop (Suc i) fl" x]
  by (simp add: remove_nth_def)

lemma free_count_update:
  assumes "i < length fl"
  shows "free_count (fl[i := e]) x = (if covers e x then 1 else 0) + free_count (remove_nth i fl) x"
  using assms by (simp add: upd_conv_take_nth_drop remove_nth_def)

lemma free_count_pos: "e \<in> set fl \<Longrightarrow> covers e x \<Longrightarrow> 0 < free_count fl x"
  by (auto simp: free_count_def filter_empty_conv length_greater_0_conv simp del: length_greater_0_conv
      intro!: length_pos_if_in_set[of e])

lemma alloc_at_upd:
  "m a = None \<Longrightarrow> alloc_at (m(a \<mapsto> s)) x \<longleftrightarrow> covers (a, s) x \<or> alloc_at m x"
  unfolding alloc_at_def by (metis fun_upd_apply option.distinct(1) option.inject)

lemma heap_inv_free_entry:
  assumes "heap_inv lo h" and "(a, s) \<in> set (freelist h)"
  shows "0 < s" "lo \<le> a" "a + s \<le> lo + hsize h" "\<And>x. covers (a, s) x \<Longrightarrow> \<not> alloc_at (sizemap h) x"
proof -
  show s: "0 < s" using assms by (auto simp: heap_inv_def)
  have *: "lo \<le> x \<and> x < lo + hsize h \<and> \<not> alloc_at (sizemap h) x" if "covers (a, s) x" for x
    using free_count_pos[OF assms(2) that] assms(1) unfolding heap_inv_def
    by (metis less_numeral_extra(3))
  from *[of a] *[of "a + s - 1"] s show "lo \<le> a" "a + s \<le> lo + hsize h"
    by (simp_all add: covers_def)
  show "\<And>x. covers (a, s) x \<Longrightarrow> \<not> alloc_at (sizemap h) x" using * by blast
qed

lemma heap_init_inv:
  assumes "heap_init sz lo hdr pol ord coal al = Inr h" and "0 < sz"
  shows "heap_inv lo h"
  using assms
  by (auto simp: heap_init_def heap_inv_def alloc_at_def covers_def res_simps split: option.splits)

section \<open>Allocation\<close>

text \<open>The free list after the chosen entry \<open>i = (a, s)\<close> has given up \<open>sz\<close> bytes.\<close>

definition carve :: "nat \<Rightarrow> int \<Rightarrow> extent list \<Rightarrow> extent list" where
  "carve i sz fl =
     (if snd (fl ! i) > sz then fl[i := (fst (fl ! i) + sz, snd (fl ! i) - sz)] else remove_nth i fl)"

lemma search_spec:
  assumes "heap_inv lo h" and "0 < sz"
    and "search (hpolicy h) sz (freelist h) 0 None (if hpolicy h = BEST then hsize h + 1 else -1) 0
           = (b', bs', c')"
  shows "case b' of
           None \<Rightarrow> (\<forall>e \<in> set (freelist h). snd e < sz) \<and> c' = length (freelist h)
         | Some (j, a) \<Rightarrow> freelist h ! j = (a, bs') \<and> chosen (hpolicy h) sz (freelist h) j \<and>
             c' = (if hpolicy h = FIRST then Suc j else length (freelist h))"
proof -
  let ?init = "if hpolicy h = BEST then hsize h + 1 else -1"
  have "search_state (hpolicy h) sz ?init [] None ?init"
    by (simp add: search_state_def)
  moreover have "\<forall>e \<in> set (freelist h). sz \<le> snd e \<longrightarrow>
      (hpolicy h = BEST \<longrightarrow> snd e < ?init) \<and> (hpolicy h = WORST \<longrightarrow> ?init < snd e)"
    using heap_inv_free_entry[OF assms(1)] assms(2) by fastforce
  ultimately show ?thesis
    using search_gen[of "hpolicy h" sz ?init "[]" None ?init "freelist h" b' bs' c',
        unfolded append_Nil] assms(3) by simp
qed

lemma malloc_cases:
  assumes inv: "heap_inv lo h" and pos: "0 < needed h n"
  obtains (full) "\<forall>e \<in> set (freelist h). snd e < needed h n"
      "malloc h n = Inr ((-1, length (freelist h)), h)"
    | (fit) i a s where "chosen (hpolicy h) (needed h n) (freelist h) i" "freelist h ! i = (a, s)"
      "(a, s) \<in> set (freelist h)" "i < length (freelist h)" "needed h n \<le> s" "sizemap h a = None"
      "malloc h n = Inr ((a, if hpolicy h = FIRST then Suc i else length (freelist h)),
         h\<lparr>freelist := carve i (needed h n) (freelist h), sizemap := (sizemap h)(a \<mapsto> needed h n)\<rparr>)"
proof -
  let ?sz = "needed h n"
  obtain b' bs' c' where s: "search (hpolicy h) ?sz (freelist h) 0 None
      (if hpolicy h = BEST then hsize h + 1 else -1) 0 = (b', bs', c')"
    by (metis prod_cases3)
  note spec = search_spec[OF inv pos s]
  show thesis
  proof (cases b')
    case None
    with spec s show thesis by (intro full) (auto simp: malloc_def)
  next
    case (Some ja)
    obtain j a where ja: "ja = (j, a)" by (cases ja)
    from spec Some ja have j: "freelist h ! j = (a, bs')" "chosen (hpolicy h) ?sz (freelist h) j"
      "c' = (if hpolicy h = FIRST then Suc j else length (freelist h))" by auto
    then have jl: "j < length (freelist h)" and le: "?sz \<le> bs'" by (auto simp: chosen_def)
    then have mem: "(a, bs') \<in> set (freelist h)" using j(1) by (metis nth_mem)
    have "\<not> alloc_at (sizemap h) a"
      using heap_inv_free_entry[OF inv mem] by (simp add: covers_def)
    moreover have "\<forall>t. sizemap h a = Some t \<longrightarrow> 0 < t" using inv by (auto simp: heap_inv_def)
    ultimately have none: "sizemap h a = None"
      by (force simp: alloc_at_def covers_def)
    have "malloc h n = Inr ((a, if hpolicy h = FIRST then Suc j else length (freelist h)),
         h\<lparr>freelist := carve j ?sz (freelist h), sizemap := (sizemap h)(a \<mapsto> ?sz)\<rparr>)"
      using s Some ja le none j by (auto simp: malloc_def Let_def addToMap_def carve_def asserting_def)
    then show thesis by (rule fit[OF j(2) j(1) mem jl le none])
  qed
qed

lemma carve_count:
  assumes "i < length fl" "fl ! i = (a, s)" "sz \<le> s" "0 < sz"
  shows "free_count fl x = (if covers (a, sz) x then 1 else 0) + free_count (carve i sz fl) x"
  using assms free_count_pick[OF assms(1), of x] free_count_update[OF assms(1), of _ x]
  by (auto simp: carve_def covers_def)

lemma carve_pos:
  assumes "\<forall>e \<in> set fl. 0 < snd e" "i < length fl"
  shows "\<forall>e \<in> set (carve i sz fl). 0 < snd e"
  using assms
  by (auto simp: carve_def dest!: set_remove_nth[THEN subsetD] set_update_subset_insert[THEN subsetD])

lemma allocate_inv:
  assumes inv: "heap_inv lo h" and i: "i < length (freelist h)" "freelist h ! i = (a, s)"
    and sz: "0 < sz" "sz \<le> s" and none: "sizemap h a = None"
  shows "heap_inv lo (h\<lparr>freelist := carve i sz (freelist h), sizemap := (sizemap h)(a \<mapsto> sz)\<rparr>)"
proof -
  have mem: "(a, s) \<in> set (freelist h)" using i by (metis nth_mem)
  note entry = heap_inv_free_entry[OF inv mem]
  have apart: "b + t \<le> a \<or> a + sz \<le> b" if "sizemap h b = Some t" for b t
  proof (rule ccontr)
    assume "\<not> (b + t \<le> a \<or> a + sz \<le> b)"
    moreover have "0 < t" using inv that by (auto simp: heap_inv_def)
    ultimately have "covers (a, s) (max a b)" "covers (b, t) (max a b)"
      using sz by (auto simp: covers_def)
    with entry(4)[of "max a b"] that show False by (auto simp: alloc_at_def)
  qed
  have pos_t: "\<And>b t. sizemap h b = Some t \<Longrightarrow> 0 < t" using inv by (auto simp: heap_inv_def)
  let ?m = "(sizemap h)(a \<mapsto> sz)"
  have cnt: "free_count (carve i sz (freelist h)) x =
      (if lo \<le> x \<and> x < lo + hsize h \<and> \<not> alloc_at ?m x then 1 else 0)" for x
  proof -
    have "free_count (freelist h) x =
        (if lo \<le> x \<and> x < lo + hsize h \<and> \<not> alloc_at (sizemap h) x then 1 else 0)"
      using inv by (simp add: heap_inv_def)
    moreover have "lo \<le> x \<and> x < lo + hsize h \<and> \<not> alloc_at (sizemap h) x" if "covers (a, sz) x"
      using that entry(1-3) entry(4)[of x] sz by (auto simp: covers_def)
    ultimately show ?thesis
      using carve_count[OF i sz(2,1), of x] alloc_at_upd[of "sizemap h" a sz x, OF none]
      by (auto split: if_splits)
  qed
  have disj: "b + t \<le> c" if "?m b = Some t" "?m c = Some u" "b < c" for b t c u
    using that inv apart[of b t] apart[of c u] sz(1)
    unfolding heap_inv_def by (auto split: if_splits dest: pos_t)
  show ?thesis
    using inv cnt disj entry sz carve_pos[OF _ i(1), of sz] unfolding heap_inv_def
    by (auto split: if_splits)
qed

section \<open>Freeing\<close>

lemma mset_give_back: "mset (give_back ord e fl) = add_mset e (mset fl)"
  by (cases ord) (auto simp: give_back_def)

lemma coalesce_loop_count:
  assumes "0 \<le> snd c" "\<forall>e \<in> set rest. 0 \<le> snd e"
  shows "free_count (coalesce_loop c acc rest) x = free_count (acc @ c # rest) x"
  using assms by (induction c acc rest rule: coalesce_loop.induct) (auto simp: covers_def)

lemma coalesce_loop_pos:
  assumes "0 < snd c" "\<forall>e \<in> set rest. 0 < snd e" "\<forall>e \<in> set acc. 0 < snd e"
  shows "\<forall>e \<in> set (coalesce_loop c acc rest). 0 < snd e"
  using assms by (induction c acc rest rule: coalesce_loop.induct) auto

lemma coalesce_list_spec:
  assumes "fl \<noteq> []" "\<forall>e \<in> set fl. 0 < snd e"
  obtains fl' where "coalesce_list fl = Inr fl'" "\<forall>e \<in> set fl'. 0 < snd e"
    "\<And>x. free_count fl' x = free_count fl x"
proof -
  obtain e r where fl: "fl = e # r" using assms(1) by (cases fl) auto
  show thesis
  proof (rule that[of "coalesce_loop e [] r"])
    show "\<forall>e \<in> set (coalesce_loop e [] r). 0 < snd e"
      using assms fl by (intro coalesce_loop_pos) auto
    show "free_count (coalesce_loop e [] r) x = free_count fl x" for x
      using coalesce_loop_count[of e r "[]" x] assms fl by fastforce
  qed (simp add: coalesce_list_def fl)
qed

lemma free_cases:
  assumes inv: "heap_inv lo h" and a: "sizemap h a = Some s"
  obtains fl' where
    "free h a = Inr (0, h\<lparr>freelist := fl', sizemap := (sizemap h)(a := None)\<rparr>)"
    "\<forall>e \<in> set fl'. 0 < snd e"
    "\<And>x. free_count fl' x = (if covers (a, s) x then 1 else 0) + free_count (freelist h) x"
proof -
  let ?fl = "give_back (returnPolicy h) (a, s) (freelist h)"
  have ms: "mset ?fl = add_mset (a, s) (mset (freelist h))" by (rule mset_give_back)
  then have set: "set ?fl = insert (a, s) (set (freelist h))" by (metis set_mset_add_mset_insert set_mset_mset)
  have pos: "\<forall>e \<in> set ?fl. 0 < snd e" using inv a by (auto simp: set heap_inv_def)
  have ne: "?fl \<noteq> []" using set by auto
  have cnt: "free_count ?fl x = (if covers (a, s) x then 1 else 0) + free_count (freelist h) x" for x
    using free_count_mset[of ?fl "(a, s) # freelist h" x] ms by simp
  show thesis
  proof (cases "coalesce h")
    case True
    obtain fl' where fl': "coalesce_list ?fl = Inr fl'" "\<forall>e \<in> set fl'. 0 < snd e"
      "\<And>x. free_count fl' x = free_count ?fl x" by (rule coalesce_list_spec[OF ne pos]) blast
    show thesis by (rule that[of fl']) (use True fl' cnt a in \<open>auto simp: free_def\<close>)
  next
    case False
    show thesis by (rule that[of ?fl]) (use False pos cnt a in \<open>auto simp: free_def\<close>)
  qed
qed

lemma release_inv:
  assumes inv: "heap_inv lo h" and a: "sizemap h a = Some s"
    and pos: "\<forall>e \<in> set fl'. 0 < snd e"
    and cnt: "\<And>x. free_count fl' x = (if covers (a, s) x then 1 else 0) + free_count (freelist h) x"
  shows "heap_inv lo (h\<lparr>freelist := fl', sizemap := (sizemap h)(a := None)\<rparr>)"
proof -
  let ?m = "(sizemap h)(a := None)"
  have rng: "0 < s" "lo \<le> a" "a + s \<le> lo + hsize h" using inv a by (auto simp: heap_inv_def)
  have at: "alloc_at (sizemap h) x \<longleftrightarrow> covers (a, s) x \<or> alloc_at ?m x" for x
    using a unfolding alloc_at_def by (metis fun_upd_apply option.distinct(1) option.inject)
  have apart: "b + t \<le> a \<or> a + s \<le> b" if "?m b = Some t" for b t
    using that inv a unfolding heap_inv_def by (metis fun_upd_apply linorder_neqE_linordered_idom option.distinct(1))
  have "\<not> alloc_at ?m x" if "covers (a, s) x" for x
  proof
    assume "alloc_at ?m x"
    then obtain b t where "?m b = Some t" "covers (b, t) x" unfolding alloc_at_def by blast
    with apart[of b t] that show False by (auto simp: covers_def)
  qed
  then have "free_count fl' x = (if lo \<le> x \<and> x < lo + hsize h \<and> \<not> alloc_at ?m x then 1 else 0)" for x
    using inv cnt[of x] at[of x] rng unfolding heap_inv_def by (auto simp: covers_def)
  then show ?thesis using inv pos unfolding heap_inv_def by (auto split: if_splits)
qed

section \<open>Coalescing an address-ordered list\<close>

text \<open>\<open>touches\<close>-free orderings: each extent ends before the next begins (\<open>before\<close>), or strictly
  before it, with a gap (\<open>gap\<close>).\<close>

definition before :: "extent \<Rightarrow> extent \<Rightarrow> bool" where
  "before e f \<longleftrightarrow> fst e + snd e \<le> fst f"

definition gap :: "extent \<Rightarrow> extent \<Rightarrow> bool" where
  "gap e f \<longleftrightarrow> fst e + snd e < fst f"

lemma coalesce_loop_gaps:
  assumes "sorted_wrt before (c # rest)" "\<forall>e \<in> set (c # rest). 0 < snd e"
    and "sorted_wrt gap acc" "\<forall>e \<in> set acc. gap e c"
  shows "sorted_wrt gap (coalesce_loop c acc rest)"
  using assms
proof (induction c acc rest rule: coalesce_loop.induct)
  case (2 ca cs acc ea es rest)
  show ?case
  proof (cases "ea = ca + cs")
    case True
    with 2 show ?thesis by (auto simp: before_def gap_def add.assoc)
  next
    case False
    have ends: "ca + cs < ea" "0 < cs" using "2.prems" False by (auto simp: before_def)
    have "sorted_wrt gap (acc @ [(ca, cs)])" using "2.prems" by (simp add: sorted_wrt_append)
    moreover have "\<forall>e \<in> set (acc @ [(ca, cs)]). gap e (ea, es)"
      using "2.prems"(4) ends by (auto simp: gap_def)
    ultimately show ?thesis using False "2.IH"(2) "2.prems"(1,2) by simp
  qed
qed (auto simp: sorted_wrt_append)

lemma sorted_disjoint_before:
  assumes "sorted (map fst fl)" "\<forall>e \<in> set fl. 0 < snd e" "\<And>x. free_count fl x \<le> 1"
  shows "sorted_wrt before fl"
  using assms
proof (induction fl)
  case (Cons e fl)
  have "before e f" if f: "f \<in> set fl" for f
  proof (rule ccontr)
    assume "\<not> before e f"
    with Cons.prems f have "covers e (fst f)" "covers f (fst f)"
      by (auto simp: before_def covers_def)
    with free_count_pos[OF f, of "fst f"] Cons.prems(3)[of "fst f"] show False by simp
  qed
  moreover have "free_count fl x \<le> 1" for x using Cons.prems(3)[of x] by simp
  ultimately show ?case using Cons by auto
qed simp

lemma gaps_not_adjacent:
  assumes "sorted_wrt gap fl" "\<forall>e \<in> set fl. 0 < snd e" "e \<in> set fl" "f \<in> set fl"
  shows "fst f \<noteq> fst e + snd e"
proof -
  obtain i j where i: "i < length fl" "fl ! i = e" and j: "j < length fl" "fl ! j = f"
    using assms(3,4) by (metis in_set_conv_nth)
  have "0 < snd e" "0 < snd f" using assms by auto
  with i j sorted_wrt_nth_less[OF assms(1), of i j] sorted_wrt_nth_less[OF assms(1), of j i]
  show ?thesis by (cases i j rule: linorder_cases) (auto simp: gap_def)
qed

lemma free_result:
  assumes "heap_inv lo h" "free h a = Inr (rc, h')"
  shows "heap_inv lo h'" and "rc = 0 \<or> (rc = -1 \<and> h' = h \<and> sizemap h a = None)"
proof -
  have "heap_inv lo h' \<and> (rc = 0 \<or> (rc = -1 \<and> h' = h \<and> sizemap h a = None))"
  proof (cases "sizemap h a")
    case None
    with assms show ?thesis by (auto simp: free_def)
  next
    case (Some s)
    show ?thesis
      by (rule free_cases[OF assms(1) Some]) (use assms release_inv[OF assms(1) Some] in auto)
  qed
  then show "heap_inv lo h'" "rc = 0 \<or> (rc = -1 \<and> h' = h \<and> sizemap h a = None)" by auto
qed

section \<open>Properties of the allocator\<close>

text \<open>C1. Allocation is safe: on a well-formed heap a request whose padded size is positive never
  stops with a failed assertion or an undefined name, keeps the heap well formed, and either
  leaves it unchanged because no free entry is large enough, or hands out an extent all of whose
  bytes were free before and which is the only change to the allocation table.\<close>

theorem malloc_safe:
  assumes "heap_inv lo h" and "0 < needed h n"
  shows "\<exists>p seen h'. malloc h n = Inr ((p, seen), h') \<and> heap_inv lo h' \<and>
     (p = -1 \<and> h' = h \<and> (\<forall>e \<in> set (freelist h). snd e < needed h n) \<or>
      sizemap h' = (sizemap h)(p \<mapsto> needed h n) \<and> sizemap h p = None \<and>
      (\<forall>x. covers (p, needed h n) x \<longrightarrow> free_count (freelist h) x = 1 \<and> free_count (freelist h') x = 0))"
proof (rule malloc_cases[OF assms])
  fix i a s
  assume i: "i < length (freelist h)" "freelist h ! i = (a, s)" "needed h n \<le> s" "sizemap h a = None"
    and mem: "(a, s) \<in> set (freelist h)"
    and m: "malloc h n = Inr ((a, if hpolicy h = FIRST then Suc i else length (freelist h)),
         h\<lparr>freelist := carve i (needed h n) (freelist h), sizemap := (sizemap h)(a \<mapsto> needed h n)\<rparr>)"
  let ?h' = "h\<lparr>freelist := carve i (needed h n) (freelist h), sizemap := (sizemap h)(a \<mapsto> needed h n)\<rparr>"
  have inv': "heap_inv lo ?h'" by (rule allocate_inv[OF assms(1) i(1,2) assms(2) i(3,4)])
  have "free_count (freelist h) x = 1 \<and> free_count (freelist ?h') x = 0"
    if x: "covers (a, needed h n) x" for x
  proof -
    have "0 < free_count (freelist h) x"
      using free_count_pos[OF mem, of x] x i(3) by (auto simp: covers_def)
    moreover have "free_count (freelist h) x \<le> 1" using assms(1) by (simp add: heap_inv_def)
    ultimately show ?thesis using carve_count[OF i(1,2,3) assms(2), of x] x by simp
  qed
  then show ?thesis using m inv' i(4) by fastforce
qed (use assms in auto)

theorem malloc_safe_witness:
  "\<exists>h. heap_init 100 1000 4 ''BEST'' ''ADDRSORT'' True 8 = Inr h \<and> heap_inv 1000 h \<and>
     (\<exists>p seen h'. malloc h 10 = Inr ((p, seen), h') \<and> heap_inv 1000 h')"
proof -
  obtain h where h: "heap_init 100 1000 4 ''BEST'' ''ADDRSORT'' True 8 = Inr h"
    by (simp add: heap_init_def policy_of_def order_of_def)
  then have inv: "heap_inv 1000 h" by (rule heap_init_inv) simp
  have "0 < needed h 10"
    using h by (auto simp: heap_init_def policy_of_def order_of_def needed_def)
  from malloc_safe[OF inv this] h inv show ?thesis by blast
qed

text \<open>C4. The search policy. On a well-formed heap and for a positive padded size the call fails exactly when no free entry is large enough: it then answers \<open>-1\<close> after searching the
  whole list and leaves the heap alone. Otherwise it hands out the start of the one entry that the configured policy prefers (first fit, smallest fit, largest fit; earliest on
  a tie), carves the block from that entry, records it in the table, and reports as searched the whole list, or for first fit the entries up to the chosen one.\<close>

theorem malloc_policy:
  assumes "heap_inv lo h" and "0 < needed h n"
  shows "if \<exists>e \<in> set (freelist h). needed h n \<le> snd e
    then \<exists>i. chosen (hpolicy h) (needed h n) (freelist h) i \<and> (\<forall>k. chosen (hpolicy h) (needed h n) (freelist h) k \<longrightarrow> k = i) \<and>
      malloc h n = Inr ((fst (freelist h ! i), if hpolicy h = FIRST then Suc i else length (freelist h)),
        h\<lparr>freelist := carve i (needed h n) (freelist h), sizemap := (sizemap h)(fst (freelist h ! i) \<mapsto> needed h n)\<rparr>)
    else malloc h n = Inr ((-1, length (freelist h)), h)"
proof (cases rule: malloc_cases[OF assms])
  case 1
  then have "\<not> (\<exists>e \<in> set (freelist h). needed h n \<le> snd e)" by fastforce
  then show ?thesis using 1(2) by simp
next
  case (2 i a s)
  then have "\<exists>e \<in> set (freelist h). needed h n \<le> snd e" by force
  then show ?thesis using 2 chosen_unique by (auto intro!: exI[of _ i])
qed

definition sample_heap :: "policy \<Rightarrow> order \<Rightarrow> heap" where
  "sample_heap p r = \<lparr>hsize = 100, headerSize = 0, freelist = [(1000, 30), (1040, 60)],
     sizemap = [1030 \<mapsto> 10], hpolicy = p, returnPolicy = r, coalesce = True, align = -1\<rparr>"

lemma sample_heap_inv: "heap_inv 1000 (sample_heap p r)"
  by (auto simp: heap_inv_def sample_heap_def alloc_at_def covers_def)

theorem malloc_policy_witness:
  "heap_inv 1000 (sample_heap WORST ADDRSORT) \<and>
    malloc (sample_heap WORST ADDRSORT) 20 = Inr ((1040, 2), (sample_heap WORST ADDRSORT)\<lparr>freelist := [(1000, 30), (1060, 40)], sizemap := [1030 \<mapsto> 10, 1040 \<mapsto> 20]\<rparr>) \<and>
    malloc (sample_heap WORST ADDRSORT) 70 = Inr ((-1, 2), sample_heap WORST ADDRSORT)"
proof -
  let ?h = "sample_heap WORST ADDRSORT"
  have n: "needed ?h 20 = 20" "needed ?h 70 = 70" "freelist ?h = [(1000, 30), (1040, 60)]" "hpolicy ?h = WORST" "sizemap ?h = [1030 \<mapsto> 10]"
    by (simp_all add: sample_heap_def needed_def)
  have c: "chosen WORST 20 [(1000, 30), (1040, 60)] 1" by (auto simp: chosen_def less_Suc_eq numeral_2_eq_2 preferred_def)
  have "malloc ?h 20 = Inr ((1040, 2), ?h\<lparr>freelist := [(1000, 30), (1060, 40)], sizemap := [1030 \<mapsto> 10, 1040 \<mapsto> 20]\<rparr>)"
    using malloc_policy[OF sample_heap_inv, of WORST ADDRSORT 20] c unfolding n by (auto simp: carve_def)
  moreover have "malloc ?h 70 = Inr ((-1, 2), ?h)" using malloc_policy[OF sample_heap_inv, of WORST ADDRSORT 70] unfolding n by simp
  ultimately show ?thesis using sample_heap_inv by blast
qed

text \<open>C25. Freeing gives back exactly what was handed out: after a successful allocation, freeing
  the returned pointer succeeds with code 0, the allocation table is the original one, every
  byte is free as often as it was before, and the heap is well formed, for every list order and
  with or without coalescing.\<close>

theorem malloc_free_roundtrip:
  assumes "heap_inv lo h" and "0 < needed h n" and "malloc h n = Inr ((p, seen), h1)" and "p \<noteq> -1"
  shows "\<exists>h2. free h1 p = Inr (0, h2) \<and> heap_inv lo h2 \<and> sizemap h2 = sizemap h \<and>
     (\<forall>x. free_count (freelist h2) x = free_count (freelist h) x)"
proof (rule malloc_cases[OF assms(1,2)])
  fix i a s
  assume i: "i < length (freelist h)" "freelist h ! i = (a, s)" "needed h n \<le> s" "sizemap h a = None"
    and m: "malloc h n = Inr ((a, if hpolicy h = FIRST then Suc i else length (freelist h)),
         h\<lparr>freelist := carve i (needed h n) (freelist h), sizemap := (sizemap h)(a \<mapsto> needed h n)\<rparr>)"
  then have h1: "h1 = h\<lparr>freelist := carve i (needed h n) (freelist h),
      sizemap := (sizemap h)(a \<mapsto> needed h n)\<rparr>" and p: "p = a" using assms(3) by auto
  have inv1: "heap_inv lo h1" unfolding h1 by (rule allocate_inv[OF assms(1) i(1,2) assms(2) i(3,4)])
  have sz: "sizemap h1 p = Some (needed h n)" by (simp add: h1 p)
  show ?thesis
  proof (rule free_cases[OF inv1 sz])
    fix fl'
    assume f: "free h1 p = Inr (0, h1\<lparr>freelist := fl', sizemap := (sizemap h1)(p := None)\<rparr>)"
      "\<forall>e \<in> set fl'. 0 < snd e"
      "\<And>x. free_count fl' x = (if covers (p, needed h n) x then 1 else 0) + free_count (freelist h1) x"
    have "free_count fl' x = free_count (freelist h) x" for x
      using f(3)[of x] carve_count[OF i(1,2,3) assms(2), of x] by (simp add: h1 p)
    moreover have "(sizemap h1)(p := None) = sizemap h" using i(4) by (simp add: h1 p fun_upd_idem)
    ultimately show ?thesis using f release_inv[OF inv1 sz f(2,3)] by auto
  qed
qed (use assms in auto)

theorem malloc_free_roundtrip_witness:
  "\<exists>h1 h2. malloc (sample_heap BEST SIZESORT_MINUS) 20 = Inr ((1000, 2), h1) \<and>
     free h1 1000 = Inr (0, h2) \<and> sizemap h2 = [1030 \<mapsto> 10]"
proof -
  have m: "malloc (sample_heap BEST SIZESORT_MINUS) 20 = Inr ((1000, 2),
      (sample_heap BEST SIZESORT_MINUS)\<lparr>freelist := [(1020, 10), (1040, 60)],
        sizemap := [1030 \<mapsto> 10, 1000 \<mapsto> 20]\<rparr>)"
    by (simp add: malloc_def sample_heap_def needed_def addToMap_def asserting_def Let_def)
  have "0 < needed (sample_heap BEST SIZESORT_MINUS) 20" by (simp add: sample_heap_def needed_def)
  from malloc_free_roundtrip[OF sample_heap_inv this m] m show ?thesis
    by (auto simp: sample_heap_def)
qed

text \<open>C6. Complete coalescing: with the address-sorted list order and coalescing on, a successful free leaves the free list sorted by address with a used byte between any two
  entries, so that no two are adjacent in memory: every maximal run of free bytes is one entry. The bytes of the freed block are added to the free ones, and nothing else changes.\<close>

theorem free_coalesces:
  assumes "heap_inv lo h" and "returnPolicy h = ADDRSORT" and "coalesce h"
    and "free h a = Inr (0, h')"
  shows "sorted (map fst (freelist h')) \<and> sorted_wrt (\<lambda>e f. fst e + snd e < fst f) (freelist h') \<and>
    (\<forall>e \<in> set (freelist h'). \<forall>f \<in> set (freelist h'). fst f \<noteq> fst e + snd e) \<and>
    (\<exists>s. sizemap h a = Some s \<and> sizemap h' = (sizemap h)(a := None) \<and>
      (\<forall>x. free_count (freelist h') x = free_count (freelist h) x + (if covers (a, s) x then 1 else 0)))"
proof -
  obtain s where s: "sizemap h a = Some s" using assms(4) by (auto simp: free_def split: option.splits)
  let ?fl = "sort_key fst (freelist h @ [(a, s)])"
  have ms: "mset ?fl = mset ((a, s) # freelist h)" by simp
  have pos: "\<forall>e \<in> set ?fl. 0 < snd e" using assms(1) s by (auto simp: heap_inv_def)
  obtain e r where er: "?fl = e # r" by (cases ?fl) (auto simp flip: length_0_conv)
  then have fl': "freelist h' = coalesce_loop e [] r"
    using assms s by (auto simp: free_def give_back_def coalesce_list_def)
  have inv': "heap_inv lo h'" by (rule free_result(1)[OF assms(1,4)])
  have same: "free_count (freelist h') x = free_count ?fl x" for x
    using coalesce_loop_count[of e r "[]" x] pos unfolding er fl' by fastforce
  have "free_count ?fl x \<le> 1" for x unfolding same[symmetric] using inv' by (simp add: heap_inv_def)
  then have "sorted_wrt before (e # r)"
    using sorted_disjoint_before[of ?fl] pos er by (metis sorted_sort_key)
  then have "sorted_wrt gap (freelist h')"
    unfolding fl' by (rule coalesce_loop_gaps) (use pos er in auto)
  then have gaps: "sorted_wrt (\<lambda>e f. fst e + snd e < fst f) (freelist h')" by (simp add: gap_def[abs_def])
  moreover have pos': "\<forall>e \<in> set (freelist h'). 0 < snd e" using inv' by (simp add: heap_inv_def)
  ultimately have "sorted_wrt (\<lambda>e f. fst e \<le> fst f) (freelist h')" by (auto elim!: sorted_wrt_mono_rel[rotated])
  then have "sorted (map fst (freelist h'))" by (simp add: sorted_map)
  moreover have "\<forall>x. free_count (freelist h') x = free_count (freelist h) x + (if covers (a, s) x then 1 else 0)"
    unfolding same free_count_mset[OF ms] by simp
  moreover have "sizemap h' = (sizemap h)(a := None)" using assms(4) s by (auto simp: free_def Let_def res_simps)
  ultimately show ?thesis using gaps gaps_not_adjacent[OF _ pos'] s unfolding gap_def[abs_def] by blast
qed

theorem free_coalesces_witness:
  "\<exists>h'. free (sample_heap BEST ADDRSORT) 1030 = Inr (0, h') \<and> freelist h' = [(1000, 100)] \<and> sorted (map fst (freelist h')) \<and>
     (\<forall>e \<in> set (freelist h'). \<forall>f \<in> set (freelist h'). fst f \<noteq> fst e + snd e)"
proof -
  have f: "free (sample_heap BEST ADDRSORT) 1030 = Inr (0, (sample_heap BEST ADDRSORT)\<lparr>
      freelist := [(1000, 100)], sizemap := (sizemap (sample_heap BEST ADDRSORT))(1030 := None)\<rparr>)"
    by (simp add: free_def sample_heap_def give_back_def coalesce_list_def)
  from free_coalesces[OF sample_heap_inv _ _ f] show ?thesis
    using f by (simp add: sample_heap_def)
qed

section \<open>The random request loop\<close>

lemma alist_update_fresh: "k \<notin> fst ` set al \<Longrightarrow> AList.update k v al = al @ [(k, v)]"
  by (induction al) auto

lemma map_fst_delete:
  assumes "distinct (map fst al)" "d < length al"
  shows "map fst (AList.delete (map fst al ! d) al) = remove_nth d (map fst al)"
  using assms remove_nth_distinct[of "map fst al" d]
  by (simp add: AList.delete_keys removeAll_filter_not_eq eq_commute)

text \<open>The pointers the loop remembers are exactly the allocated ones, each once; every free so far
  has succeeded.\<close>

definition mrun_inv :: "int \<Rightarrow> mrun \<Rightarrow> bool" where
  "mrun_inv lo s \<longleftrightarrow>
     heap_inv lo (hp s) \<and> 0 \<le> lo \<and> 0 \<le> headerSize (hp s) \<and> (align (hp s) = -1 \<or> 0 < align (hp s)) \<and>
     map fst (ptrs s) = liveL s \<and> distinct (liveL s) \<and> (\<forall>k \<in> set (liveL s). k < cnt s) \<and>
     distinct (map snd (ptrs s)) \<and> dom (sizemap (hp s)) = snd ` set (ptrs s) \<and>
     (\<forall>k rc. Free_out k rc \<in> set (out s) \<longrightarrow> rc = 0)"

text \<open>What the draws of the loop satisfy: requests are at least 1, and the index drawn for a free is
  below the length of \<^verbatim>\<open>L\<close>.\<close>

fun draw_ok :: "mrun \<Rightarrow> draw \<Rightarrow> bool" where
  "draw_ok s (Want_alloc n) = (1 \<le> n)"
| "draw_ok s (Want_free d) = (liveL s \<noteq> [] \<longrightarrow> d < length (liveL s))"

lemma needed_pos:
  assumes "1 \<le> n" "0 \<le> headerSize h" "align h = -1 \<or> 0 < align h"
  shows "0 < needed h n"
proof (cases "align h = -1")
  case False
  with assms have "n mod align h < align h" by simp
  then have "0 < n + (align h - n mod align h) + headerSize h" "0 < n + 0 + headerSize h"
    using assms by linarith+
  then show ?thesis using False by (simp add: needed_def Let_def)
qed (use assms in \<open>simp add: needed_def\<close>)

lemma malloc_frame:
  assumes "heap_inv lo h" "0 < needed h n" "malloc h n = Inr ((p, seen), h')"
  shows "headerSize h' = headerSize h" "align h' = align h" "heap_inv lo h'"
    "(p = -1 \<and> h' = h) \<or> (lo \<le> p \<and> sizemap h p = None \<and> sizemap h' = (sizemap h)(p \<mapsto> needed h n))"
proof -
  have "headerSize h' = headerSize h \<and> align h' = align h \<and> heap_inv lo h' \<and>
    ((p = -1 \<and> h' = h) \<or> (lo \<le> p \<and> sizemap h p = None \<and> sizemap h' = (sizemap h)(p \<mapsto> needed h n)))"
  proof (rule malloc_cases[OF assms(1,2)])
    fix i a s
    assume i: "i < length (freelist h)" "freelist h ! i = (a, s)" "(a, s) \<in> set (freelist h)"
        "needed h n \<le> s" "sizemap h a = None"
      and m: "malloc h n = Inr ((a, if hpolicy h = FIRST then Suc i else length (freelist h)),
         h\<lparr>freelist := carve i (needed h n) (freelist h), sizemap := (sizemap h)(a \<mapsto> needed h n)\<rparr>)"
    then show ?thesis
      using assms(3) allocate_inv[OF assms(1) i(1,2) assms(2) i(4,5)] heap_inv_free_entry(2)[OF assms(1) i(3)]
      by auto
  qed (use assms in auto)
  then show "headerSize h' = headerSize h" "align h' = align h" "heap_inv lo h'"
    "(p = -1 \<and> h' = h) \<or> (lo \<le> p \<and> sizemap h p = None \<and> sizemap h' = (sizemap h)(p \<mapsto> needed h n))"
    by auto
qed

lemma random_alloc_safe:
  assumes inv: "mrun_inv lo s" and n: "1 \<le> n"
  shows "\<exists>s'. random_step s (Want_alloc n) = Inr s' \<and> mrun_inv lo s'"
proof -
  have hinv: "heap_inv lo (hp s)" and pos: "0 < needed (hp s) n"
    using inv n by (auto simp: mrun_inv_def intro: needed_pos)
  obtain p seen h' where m: "malloc (hp s) n = Inr ((p, seen), h')"
    using malloc_safe[OF hinv pos] by blast
  note fr = malloc_frame[OF hinv pos m]
  show ?thesis
  proof (cases "p = -1")
    case True
    with fr(4) inv have "h' = hp s" by (auto simp: mrun_inv_def)
    with True m inv show ?thesis by (auto simp: mrun_inv_def less_Suc_eq)
  next
    case False
    then have new: "sizemap (hp s) p = None" "sizemap h' = (sizemap (hp s))(p \<mapsto> needed (hp s) n)"
      using fr(4) by auto
    have "cnt s \<notin> fst ` set (ptrs s)" using inv unfolding mrun_inv_def
      by (metis list.set_map less_irrefl)
    note upd = alist_update_fresh[OF this, of p]
    have "p \<notin> snd ` set (ptrs s)" using inv new(1) by (auto simp: mrun_inv_def)
    with False m new fr inv show ?thesis
      by (auto simp: mrun_inv_def upd less_Suc_eq)
  qed
qed

lemma random_free_safe:
  assumes inv: "mrun_inv lo s" and d: "draw_ok s (Want_free d)"
  shows "\<exists>s'. random_step s (Want_free d) = Inr s' \<and> mrun_inv lo s'"
proof (cases "ptrs s = []")
  case False
  have L: "liveL s = map fst (ptrs s)" using inv by (simp add: mrun_inv_def)
  with False d have dl: "d < length (ptrs s)" by simp
  obtain k a where ka: "ptrs s ! d = (k, a)" by (cases "ptrs s ! d")
  then have mem: "(k, a) \<in> set (ptrs s)" and k: "liveL s ! d = k" using dl L by (metis nth_mem, simp)
  have dist: "distinct (map fst (ptrs s))" "distinct (map snd (ptrs s))"
    using inv by (auto simp: mrun_inv_def)
  obtain sz where sz: "sizemap (hp s) a = Some sz"
    using inv mem unfolding mrun_inv_def by (metis domD image_eqI snd_conv)
  have hinv: "heap_inv lo (hp s)" using inv by (simp add: mrun_inv_def)
  show ?thesis
  proof (rule free_cases[OF hinv sz])
    fix fl'
    assume f: "free (hp s) a = Inr (0, (hp s)\<lparr>freelist := fl', sizemap := (sizemap (hp s))(a := None)\<rparr>)"
      "\<forall>e \<in> set fl'. 0 < snd e"
      "\<And>x. free_count fl' x = (if covers (a, sz) x then 1 else 0) + free_count (freelist (hp s)) x"
    have iff: "fst x = k \<longleftrightarrow> x = (k, a)" if "x \<in> set (ptrs s)" for x
      using that mem dist(1) unfolding distinct_map inj_on_def by (metis fst_conv)
    have "set (AList.delete k (ptrs s)) = {x \<in> set (ptrs s). fst x \<noteq> k}"
      by (auto simp: AList.delete_eq)
    also have "\<dots> = set (ptrs s) - {(k, a)}" using iff by blast
    finally have "set (AList.delete k (ptrs s)) = set (ptrs s) - {(k, a)}" .
    then have "snd ` set (AList.delete k (ptrs s)) = snd ` set (ptrs s) - {a}"
      using inj_on_image_set_diff[of snd "set (ptrs s)" "set (ptrs s)" "{(k, a)}"] dist(2) mem
      by (simp add: distinct_map)
    moreover have "map fst (AList.delete k (ptrs s)) = remove_nth d (liveL s)"
      using map_fst_delete[OF dist(1) dl] L k by simp
    moreover have "distinct (map snd (AList.delete k (ptrs s)))"
      using dist(2) by (simp add: AList.delete_eq distinct_map_filter)
    moreover have "\<forall>j \<in> set (remove_nth d (liveL s)). j < cnt s"
      using inv set_remove_nth[of d "liveL s"] by (auto simp: mrun_inv_def)
    moreover have "dom ((sizemap (hp s))(a := None)) = snd ` set (ptrs s) - {a}"
      using inv by (simp add: mrun_inv_def)
    ultimately have "mrun_inv lo (s\<lparr>hp := (hp s)\<lparr>freelist := fl', sizemap := (sizemap (hp s))(a := None)\<rparr>,
        ptrs := AList.delete k (ptrs s), liveL := remove_nth d (liveL s), jops := Suc (jops s),
        out := out s @ [Free_out k 0, List_out fl']\<rparr>)"
      using inv release_inv[OF hinv sz f(2,3)] distinct_remove_nth[of "liveL s" d]
      unfolding mrun_inv_def by (intro conjI) (simp_all del: dom_fun_upd fun_upd_apply)
    moreover have "list_get (liveL s) (int d) = Inr k" using dl L k by simp
    moreover have "map_of (ptrs s) k = Some a" using mem dist(1) by simp
    ultimately show ?thesis using False f(1) by simp
  qed
qed (use inv in simp)

interpretation random_requests: safe_machine "mrun_inv lo" draw_ok random_step
proof
  fix s e
  assume "mrun_inv lo s" "draw_ok s e"
  then show "\<exists>s'. random_step s e = Inr s' \<and> mrun_inv lo s'"
    by (cases e) (simp_all only: draw_ok.simps random_alloc_safe random_free_safe)
qed

text \<open>The draws of a whole run are within range at the state they are used in.\<close>

fun draws_ok :: "nat \<Rightarrow> mrun \<Rightarrow> draw list \<Rightarrow> bool" where
  "draws_ok n s [] = True"
| "draws_ok n s (d # ds) =
     (if jops s < n then draw_ok s d \<and> (case random_step s d of Inl _ \<Rightarrow> True | Inr s' \<Rightarrow> draws_ok n s' ds)
      else True)"

lemma random_step_jops: "random_step s d = Inr s' \<Longrightarrow> jops s' \<le> Suc (jops s)"
  by (cases d) (auto simp: bnd_eq_Inr_iff split: if_splits)

lemma random_loop_inv:
  assumes "mrun_inv lo s" "draws_ok n s ds" "jops s \<le> n"
  shows "\<exists>t. random_loop n s ds = Inr t \<and> mrun_inv lo t \<and> jops t \<le> n"
  using assms
proof (induction ds arbitrary: s)
  case (Cons d ds)
  show ?case
  proof (cases "jops s < n")
    case True
    with Cons.prems(2) have d: "draw_ok s d" by simp
    obtain s' where s': "random_step s d = Inr s'" "mrun_inv lo s'"
      using random_requests.step_safe[OF Cons.prems(1) d] by blast
    moreover have "draws_ok n s' ds" using Cons.prems(2) True s'(1) by simp
    moreover have "jops s' \<le> n" using random_step_jops[OF s'(1)] True by simp
    ultimately show ?thesis using Cons.IH True by simp
  qed (use Cons.prems in simp)
qed simp

lemma mrun_init_inv:
  assumes "heap_init sz lo hdr pol ord coal al = Inr h" "0 < sz" "0 \<le> lo" "0 \<le> hdr"
  shows "mrun_inv lo (mrun_init h)"
  using heap_init_inv[OF assms(1,2)] assms
  by (auto simp: mrun_inv_def mrun_init_def heap_init_def res_simps split: option.splits)

text \<open>The random request loop: started on a fresh heap of positive size, with any sequence of
  draws in range, the loop never stops with an error, never exceeds the requested number of
  operations, every free returns 0, and at the end the pointers the program remembers are
  exactly the allocated extents, each remembered once, on a well-formed heap.\<close>

theorem random_loop_safe:
  assumes "heap_init sz lo hdr pol ord coal al = Inr h" and "0 < sz" and "0 \<le> lo" and "0 \<le> hdr"
    and "draws_ok n (mrun_init h) ds"
  shows "\<exists>s. random_loop n (mrun_init h) ds = Inr s \<and> mrun_inv lo s \<and> jops s \<le> n"
  by (rule random_loop_inv[OF mrun_init_inv[OF assms(1-4)] assms(5)]) (simp add: mrun_init_def)

definition default_heap :: heap where
  "default_heap = \<lparr>hsize = 100, headerSize = 0, freelist = [(1000, 100)], sizemap = Map.empty,
     hpolicy = BEST, returnPolicy = ADDRSORT, coalesce = False, align = -1\<rparr>"

lemma default_heap_init: "heap_init 100 1000 0 ''BEST'' ''ADDRSORT'' False (-1) = Inr default_heap"
  by (simp add: heap_init_def policy_of_def order_of_def default_heap_def)

theorem random_loop_safe_witness:
  "\<exists>s. random_loop 3 (mrun_init default_heap) [Want_alloc 3, Want_alloc 5, Want_free 0, Want_alloc 2]
       = Inr s \<and> mrun_inv 1000 s \<and> jops s \<le> 3"
proof -
  have "draws_ok 3 (mrun_init default_heap) [Want_alloc 3, Want_alloc 5, Want_free 0, Want_alloc 2]"
    by (simp add: mrun_init_def default_heap_def malloc_def needed_def addToMap_def Let_def
        asserting_def list_get_def dict_get_def free_def give_back_def)
  from random_loop_safe[OF default_heap_init _ _ _ this] show ?thesis by simp
qed

text \<open>The explicit request list checks a free against the number of successful allocations and
  not against the allocation numbers: after a failed first request, a free of the valid second
  pointer is reported as invalid and skipped, and a free of the first, which has no pointer,
  passes the check and stops with a missing key.\<close>

theorem list_free_check_wrong:
  "(\<exists>s. list_loop (mrun_init default_heap) ''+200,+10,-1'' = Inr s \<and>
      map_of (ptrs s) 1 = Some 1000 \<and> sizemap (hp s) 1000 = Some 10 \<and> last (out s) = Invalid_free) \<and>
   list_loop (mrun_init default_heap) ''+200,+10,-0'' = Inl KeyError"
proof -
  have ops: "list_loop s ''+200,+10,-1'' = foldres list_step s [''+200'', ''+10'', ''-1'']"
    "list_loop s ''+200,+10,-0'' = foldres list_step s [''+200'', ''+10'', ''-0'']" for s
    by (simp_all add: list_loop_def)
  have ints: "int_of_string ''200'' = Inr 200" "int_of_string ''10'' = Inr 10"
    "int_of_string ''1'' = Inr 1" "int_of_string ''0'' = Inr 0"
    by (simp_all add: int_of_string_def strip_def is_space_def nat_of_string_def is_digit_def
        digit_val_def)
  show ?thesis
    by (simp add: ops list_step_def list_get_def ints mrun_init_def default_heap_def malloc_def
        needed_def addToMap_def asserting_def Let_def dict_get_def)
qed

end
