(* ===== verification/Ssd.thy ===== *)
theory Ssd
  imports Machines
begin

text \<open>
  The solid-state-disk simulator of \<^verbatim>\<open>ostep/homework/file-ssd/ssd.py\<close>: class \<^verbatim>\<open>ssd\<close> (physical
  operations, the direct, ideal and log-structured write paths, the garbage collector, the logical
  interface and its statistics) and the command loop of the main program. Dictionaries are maps
  from Python integers, so a missing key is an error and an assignment to a new key creates it;
  \<open>-1\<close> marks an unmapped page as in the code. Page data are strings.
\<close>

section \<open>State\<close>

datatype ssd_kind = TYPE_DIRECT | TYPE_LOGGING | TYPE_IDEAL

datatype page_state = STATE_INVALID | STATE_ERASED | STATE_VALID

record ssd =
  ssd_type :: ssd_kind
  num_logical_pages :: int
  num_blocks :: int
  pages_per_block :: int
  block_erase_time :: int
  page_program_time :: int
  page_read_time :: int
  num_pages :: int
  state :: "int \<rightharpoonup> page_state"
  data :: "int \<rightharpoonup> string"
  current_page :: int
  current_block :: int
  gc_count :: int
  gc_current_block :: int
  gc_high_water_mark :: int
  gc_low_water_mark :: int
  gc_used_blocks :: "int \<rightharpoonup> int"
  live_count :: "int \<rightharpoonup> int"
  forward_map :: "int \<rightharpoonup> int"
  reverse_map :: "int \<rightharpoonup> int"
  physical_erase_count :: "int \<rightharpoonup> int"
  physical_read_count :: "int \<rightharpoonup> int"
  physical_write_count :: "int \<rightharpoonup> int"
  physical_erase_sum :: int
  physical_write_sum :: int
  physical_read_sum :: int
  logical_trim_sum :: int
  logical_write_sum :: int
  logical_read_sum :: int
  logical_trim_fail_sum :: int
  logical_write_fail_sum :: int
  logical_read_fail_sum :: int

text \<open>\<^verbatim>\<open>for i in range(n): d[i] = v\<close>\<close>

definition fill :: "int \<Rightarrow> int \<Rightarrow> 'v \<Rightarrow> (int \<rightharpoonup> 'v) \<Rightarrow> (int \<rightharpoonup> 'v)" where
  "fill lo hi v d = fold (\<lambda>i d. d(i \<mapsto> v)) [lo..hi - 1] d"

definition kind_of :: "string \<Rightarrow> ssd_kind option" where
  "kind_of t =
     (if t = ''direct'' then Some TYPE_DIRECT else if t = ''log'' then Some TYPE_LOGGING
      else if t = ''ideal'' then Some TYPE_IDEAL else None)"

definition ssd_init :: "string \<Rightarrow> int \<Rightarrow> int \<Rightarrow> int \<Rightarrow> int \<Rightarrow> int \<Rightarrow> int \<Rightarrow> int \<Rightarrow> int \<Rightarrow> ssd res" where
  "ssd_init t nl nb ppb et pt rt high low =
     (case kind_of t of
        None \<Rightarrow> Inl SysExit
      | Some k \<Rightarrow> Inr
         \<lparr>ssd_type = k, num_logical_pages = nl, num_blocks = nb, pages_per_block = ppb,
          block_erase_time = et, page_program_time = pt, page_read_time = rt,
          num_pages = nb * ppb,
          state = fill 0 (nb * ppb) STATE_INVALID Map.empty,
          data = fill 0 (nb * ppb) '' '' Map.empty,
          current_page = -1, current_block = 0, gc_count = 0, gc_current_block = 0,
          gc_high_water_mark = high, gc_low_water_mark = low,
          gc_used_blocks = fill 0 nb 0 Map.empty, live_count = fill 0 nb 0 Map.empty,
          forward_map = fill 0 nl (-1) Map.empty, reverse_map = fill 0 (nb * ppb) (-1) Map.empty,
          physical_erase_count = fill 0 nb 0 Map.empty, physical_read_count = fill 0 nb 0 Map.empty,
          physical_write_count = fill 0 nb 0 Map.empty,
          physical_erase_sum = 0, physical_write_sum = 0, physical_read_sum = 0,
          logical_trim_sum = 0, logical_write_sum = 0, logical_read_sum = 0,
          logical_trim_fail_sum = 0, logical_write_fail_sum = 0, logical_read_fail_sum = 0\<rparr>)"

section \<open>Physical operations\<close>

text \<open>\<^verbatim>\<open>int(page_address / self.pages_per_block)\<close>; for a non-negative page and a positive block
  size this is the floor.\<close>

definition block_of :: "ssd \<Rightarrow> int \<Rightarrow> int res" where
  "block_of s page =
     (if pages_per_block s = 0 then Inl ZeroDivisionError else Inr (page div pages_per_block s))"

text \<open>\<^verbatim>\<open>d[k] += 1\<close>\<close>

definition bump :: "(int \<rightharpoonup> int) \<Rightarrow> int \<Rightarrow> (int \<rightharpoonup> int) res" where
  "bump d k = bnd (dict_get d k) (\<lambda>n. Inr (d(k \<mapsto> n + 1)))"

definition blocks_in_use :: "ssd \<Rightarrow> int res" where
  "blocks_in_use s =
     foldres (\<lambda>used i. bnd (dict_get (gc_used_blocks s) i) (\<lambda>n. Inr (used + n))) 0 [0..num_blocks s - 1]"

definition physical_erase :: "ssd \<Rightarrow> int \<Rightarrow> ssd res" where
  "physical_erase s block_address =
     (let page_begin = block_address * pages_per_block s;
          page_end = page_begin + pages_per_block s - 1;
          s1 = s\<lparr>data := fill page_begin (page_end + 1) '' '' (data s),
                 state := fill page_begin (page_end + 1) STATE_ERASED (state s),
                 gc_used_blocks := (gc_used_blocks s)(block_address \<mapsto> 0)\<rparr>
      in bnd (bump (physical_erase_count s1) block_address) (\<lambda>c.
           Inr (s1\<lparr>physical_erase_count := c, physical_erase_sum := physical_erase_sum s1 + 1\<rparr>)))"

definition physical_program :: "ssd \<Rightarrow> int \<Rightarrow> string \<Rightarrow> ssd res" where
  "physical_program s page_address d =
     (let s1 = s\<lparr>data := (data s)(page_address \<mapsto> d),
                 state := (state s)(page_address \<mapsto> STATE_VALID)\<rparr>
      in bnd (block_of s1 page_address) (\<lambda>b.
         bnd (bump (physical_write_count s1) b) (\<lambda>c.
           Inr (s1\<lparr>physical_write_count := c, physical_write_sum := physical_write_sum s1 + 1\<rparr>))))"

definition physical_read :: "ssd \<Rightarrow> int \<Rightarrow> (string \<times> ssd) res" where
  "physical_read s page_address =
     bnd (block_of s page_address) (\<lambda>b.
     bnd (bump (physical_read_count s) b) (\<lambda>c.
     bnd (dict_get (data s) page_address) (\<lambda>d.
       Inr (d, s\<lparr>physical_read_count := c, physical_read_sum := physical_read_sum s + 1\<rparr>))))"

section \<open>The three write paths\<close>

definition read_direct :: "ssd \<Rightarrow> int \<Rightarrow> (string \<times> ssd) res" where
  "read_direct s address = physical_read s address"

text \<open>The scan of the old block: the valid pages with their data.\<close>

definition old_pages :: "ssd \<Rightarrow> int list \<Rightarrow> ((int \<times> string) list \<times> ssd) res" where
  "old_pages s pages =
     foldres (\<lambda>(old_list, s) old_page.
       bnd (dict_get (state s) old_page) (\<lambda>st.
         if st = STATE_VALID
         then bnd (physical_read s old_page) (\<lambda>(old_data, s'). Inr (old_list @ [(old_page, old_data)], s'))
         else Inr (old_list, s))) ([], s) pages"

definition write_direct :: "ssd \<Rightarrow> int \<Rightarrow> string \<Rightarrow> (string \<times> ssd) res" where
  "write_direct s page_address d =
     bnd (block_of s page_address) (\<lambda>block_address.
       let page_begin = block_address * pages_per_block s;
           page_end = page_begin + pages_per_block s - 1
       in bnd (old_pages s [page_begin..page_end]) (\<lambda>(old_list, s1).
          bnd (physical_erase s1 block_address) (\<lambda>s2.
          bnd (foldres (\<lambda>s (old_page, old_data).
                 if old_page = page_address then Inr s else physical_program s old_page old_data)
                 s2 old_list) (\<lambda>s3.
          bnd (physical_program s3 page_address d) (\<lambda>s4.
            Inr (''success'', s4\<lparr>forward_map := (forward_map s4)(page_address \<mapsto> page_address),
                                  reverse_map := (reverse_map s4)(page_address \<mapsto> page_address)\<rparr>))))))"

definition write_ideal :: "ssd \<Rightarrow> int \<Rightarrow> string \<Rightarrow> (string \<times> ssd) res" where
  "write_ideal s page_address d =
     bnd (physical_program s page_address d) (\<lambda>s1.
       Inr (''success'', s1\<lparr>forward_map := (forward_map s1)(page_address \<mapsto> page_address),
                             reverse_map := (reverse_map s1)(page_address \<mapsto> page_address)\<rparr>))"

definition is_block_free :: "ssd \<Rightarrow> int \<Rightarrow> (bool \<times> ssd) res" where
  "is_block_free s block =
     (let first_page = block * pages_per_block s
      in bnd (dict_get (state s) first_page) (\<lambda>st.
           if st = STATE_INVALID \<or> st = STATE_ERASED
           then bnd (if st = STATE_INVALID then physical_erase s block else Inr s) (\<lambda>s1.
                  Inr (True, s1\<lparr>current_block := block, current_page := first_page,
                                gc_used_blocks := (gc_used_blocks s1)(block \<mapsto> 1)\<rparr>))
           else Inr (False, s)))"

fun first_free :: "ssd \<Rightarrow> int list \<Rightarrow> (bool \<times> ssd) res" where
  "first_free s [] = Inr (False, s)"
| "first_free s (b # bs) =
     bnd (is_block_free s b) (\<lambda>(ok, s'). if ok then Inr (True, s') else first_free s' bs)"

definition get_cursor :: "ssd \<Rightarrow> (int \<times> ssd) res" where
  "get_cursor s =
     (if current_page s = -1 then
        bnd (first_free s [current_block s..num_blocks s - 1]) (\<lambda>(ok, s1).
          if ok then Inr (0, s1)
          else bnd (first_free s1 [0..current_block s1 - 1]) (\<lambda>(ok, s2).
                 if ok then Inr (0, s2) else Inr (-1, s2)))
      else Inr (0, s))"

definition update_cursor :: "ssd \<Rightarrow> ssd res" where
  "update_cursor s =
     (let cp = current_page s + 1
      in if pages_per_block s = 0 then Inl ZeroDivisionError
         else Inr (s\<lparr>current_page := (if cp mod pages_per_block s = 0 then -1 else cp)\<rparr>))"

definition write_logging :: "ssd \<Rightarrow> int \<Rightarrow> string \<Rightarrow> (string \<times> ssd) res" where
  "write_logging s page_address d =
     bnd (get_cursor s) (\<lambda>(rc, s1).
       if rc = -1
       then Inr (''failure: device full'', s1\<lparr>logical_write_fail_sum := logical_write_fail_sum s1 + 1\<rparr>)
       else bnd (dict_get (state s1) (current_page s1)) (\<lambda>st.
            asserting (st = STATE_ERASED)
            (bnd (physical_program s1 (current_page s1) d) (\<lambda>s2.
             bnd (update_cursor (s2\<lparr>forward_map := (forward_map s2)(page_address \<mapsto> current_page s2),
                                    reverse_map := (reverse_map s2)(current_page s2 \<mapsto> page_address)\<rparr>))
               (\<lambda>s3. Inr (''success'', s3))))))"

section \<open>The logical interface\<close>

definition ssd_trim :: "ssd \<Rightarrow> int \<Rightarrow> (string \<times> ssd) res" where
  "ssd_trim s address =
     (let s = s\<lparr>logical_trim_sum := logical_trim_sum s + 1\<rparr>
      in if address < 0 \<or> address \<ge> num_logical_pages s
         then Inr (''fail: illegal trim address'', s\<lparr>logical_trim_fail_sum := logical_trim_fail_sum s + 1\<rparr>)
         else bnd (dict_get (forward_map s) address) (\<lambda>p.
              if p = -1
              then Inr (''fail: uninitialized trim'', s\<lparr>logical_trim_fail_sum := logical_trim_fail_sum s + 1\<rparr>)
              else Inr (''success'', s\<lparr>forward_map := (forward_map s)(address \<mapsto> -1)\<rparr>)))"

definition ssd_read :: "ssd \<Rightarrow> int \<Rightarrow> (string \<times> ssd) res" where
  "ssd_read s address =
     (let s = s\<lparr>logical_read_sum := logical_read_sum s + 1\<rparr>
      in if address < 0 \<or> address \<ge> num_logical_pages s
         then Inr (''fail: illegal read address'', s\<lparr>logical_read_fail_sum := logical_read_fail_sum s + 1\<rparr>)
         else bnd (dict_get (forward_map s) address) (\<lambda>p.
              if p = -1
              then Inr (''fail: uninitialized read'', s\<lparr>logical_read_fail_sum := logical_read_fail_sum s + 1\<rparr>)
              else read_direct s p))"

definition ssd_write :: "ssd \<Rightarrow> int \<Rightarrow> string \<Rightarrow> (string \<times> ssd) res" where
  "ssd_write s address d =
     (let s = s\<lparr>logical_write_sum := logical_write_sum s + 1\<rparr>
      in if address < 0 \<or> address \<ge> num_logical_pages s
         then Inr (''fail: illegal write address'', s\<lparr>logical_write_fail_sum := logical_write_fail_sum s + 1\<rparr>)
         else (case ssd_type s of
                 TYPE_DIRECT \<Rightarrow> write_direct s address d
               | TYPE_IDEAL \<Rightarrow> write_ideal s address d
               | TYPE_LOGGING \<Rightarrow> write_logging s address d))"

section \<open>Garbage collection\<close>

text \<open>The pages of a block that some logical page still refers to.\<close>

definition live_pages :: "ssd \<Rightarrow> int list \<Rightarrow> int list res" where
  "live_pages s pages =
     foldres (\<lambda>live page.
       bnd (dict_get (reverse_map s) page) (\<lambda>logical_page.
         if logical_page \<noteq> -1
         then bnd (dict_get (forward_map s) logical_page) (\<lambda>p.
                Inr (if p = page then live @ [page] else live))
         else Inr live)) [] pages"

definition copy_live :: "ssd \<Rightarrow> int \<Rightarrow> ssd res" where
  "copy_live s page =
     bnd (physical_read s page) (\<lambda>(d, s1).
     bnd (dict_get (reverse_map s1) page) (\<lambda>l.
     bnd (ssd_write s1 l d) (\<lambda>(_, s2). Inr s2)))"

fun gc_blocks :: "ssd \<Rightarrow> int list \<Rightarrow> ssd res" where
  "gc_blocks s [] = Inr s"
| "gc_blocks s (block # blocks) =
     (if block = current_block s then gc_blocks s blocks
      else
        let page_start = block * pages_per_block s
        in bnd (dict_get (state s) page_start) (\<lambda>st.
           if st = STATE_ERASED then gc_blocks s blocks
           else bnd (live_pages s [page_start..page_start + pages_per_block s - 1]) (\<lambda>live.
                if int (length live) = pages_per_block s then gc_blocks s blocks
                else bnd (foldres copy_live s live) (\<lambda>s1.
                     bnd (physical_erase s1 block) (\<lambda>s2.
                     bnd (blocks_in_use s2) (\<lambda>used.
                       if used \<le> gc_low_water_mark s2
                       then Inr (s2\<lparr>gc_current_block := block, gc_count := gc_count s2 + 1\<rparr>)
                       else gc_blocks s2 blocks))))))"

definition garbage_collect :: "ssd \<Rightarrow> ssd res" where
  "garbage_collect s =
     gc_blocks s ([gc_current_block s..num_blocks s - 1] @ [0..gc_current_block s - 1])"

definition upkeep :: "ssd \<Rightarrow> ssd res" where
  "upkeep s = bnd (blocks_in_use s) (\<lambda>used.
     if used \<ge> gc_high_water_mark s then garbage_collect s else Inr s)"

section \<open>The command loop\<close>

text \<open>One command string, \<^verbatim>\<open>r10\<close>, \<^verbatim>\<open>w80:b\<close> or \<^verbatim>\<open>t5\<close>, with the result it prints; other first
  characters are skipped. After every command comes \<^verbatim>\<open>upkeep\<close>; an empty command ends the run.\<close>

definition do_cmd :: "ssd \<Rightarrow> string \<Rightarrow> (string option \<times> ssd) res" where
  "do_cmd s cmd =
     (case cmd of
        [] \<Rightarrow> Inl IndexError
      | c # _ \<Rightarrow>
        if c = CHR ''r'' then
          bnd (list_get (split_on CHR ''r'' cmd) 1) (\<lambda>a.
          bnd (int_of_string a) (\<lambda>address.
          bnd (ssd_read s address) (\<lambda>(d, s'). Inr (Some d, s'))))
        else if c = CHR ''w'' then
          (let parts = split_on CHR '':'' cmd
           in bnd (list_get parts 0) (\<lambda>p0.
              bnd (list_get (split_on CHR ''w'' p0) 1) (\<lambda>a.
              bnd (int_of_string a) (\<lambda>address.
              bnd (list_get parts 1) (\<lambda>d.
              bnd (ssd_write s address d) (\<lambda>(rc, s'). Inr (Some rc, s')))))))
        else if c = CHR ''t'' then
          bnd (list_get (split_on CHR ''t'' cmd) 1) (\<lambda>a.
          bnd (int_of_string a) (\<lambda>address.
          bnd (ssd_trim s address) (\<lambda>(rc, s'). Inr (Some rc, s'))))
        else Inr (None, s))"

fun cmd_loop :: "ssd \<Rightarrow> string list \<Rightarrow> string list \<Rightarrow> (string list \<times> ssd) res" where
  "cmd_loop s out [] = Inr (out, s)"
| "cmd_loop s out (cmd # cmds) =
     (if cmd = [] then Inr (out, s)
      else bnd (do_cmd s cmd) (\<lambda>(r, s1).
           bnd (upkeep s1) (\<lambda>s2.
             cmd_loop s2 (case r of None \<Rightarrow> out | Some t \<Rightarrow> out @ [t]) cmds)))"

text \<open>The times that \<^verbatim>\<open>stats\<close> prints, for the whole-microsecond times of the command line.\<close>

definition total_time :: "ssd \<Rightarrow> int" where
  "total_time s = physical_erase_sum s * block_erase_time s + physical_write_sum s * page_program_time s
     + physical_read_sum s * page_read_time s"

end
