(* ===== verification/Ssd_Log.thy ===== *)
theory Ssd_Log
  imports Ssd
begin

text \<open>
  Correctness of the log-structured write path and of the garbage collector of \<^verbatim>\<open>ssd.py\<close>: a
  structural invariant under which no operation stops with an error, the mapping invariant between
  the forward and reverse maps, and what happens to the logical contents of the device.
\<close>

section \<open>Well-formed devices\<close>

lemma fill_apply: "fill lo hi v d k = (if lo \<le> k \<and> k < hi then Some v else d k)"
proof -
  have "fold (\<lambda>i d. d(i \<mapsto> v)) xs d k = (if k \<in> set xs then Some v else d k)" for xs
    by (induction xs arbitrary: d) auto
  then show ?thesis by (auto simp: fill_def)
qed

lemma dom_fill: "dom (fill lo hi v d) = {lo..<hi} \<union> dom d"
  by (auto simp: fill_apply split: if_splits)

definition ssd_wf :: "ssd \<Rightarrow> bool" where
  "ssd_wf s \<longleftrightarrow>
     0 < pages_per_block s \<and> 0 < num_blocks s \<and> num_pages s = num_blocks s * pages_per_block s \<and>
     dom (state s) = {0..<num_pages s} \<and> dom (data s) = {0..<num_pages s} \<and>
     dom (reverse_map s) = {0..<num_pages s} \<and> dom (forward_map s) = {0..<num_logical_pages s} \<and>
     dom (physical_erase_count s) = {0..<num_blocks s} \<and> dom (physical_read_count s) = {0..<num_blocks s} \<and>
     dom (physical_write_count s) = {0..<num_blocks s} \<and> dom (gc_used_blocks s) = {0..<num_blocks s}"

lemma in_block_iff:
  assumes "0 < P" shows "b * P \<le> p \<and> p < b * P + P \<longleftrightarrow> p div P = (b :: int)"
proof
  assume "b * P \<le> p \<and> p < b * P + P"
  then show "p div P = b"
    by (intro int_div_pos_eq[of p P b "p - b * P"]) (auto simp: algebra_simps)
next
  assume "p div P = b"
  then have "b * P + p mod P = p" using div_mult_mod_eq[of p P] by metis
  then show "b * P \<le> p \<and> p < b * P + P"
    using pos_mod_bound[OF assms, of p] pos_mod_sign[OF assms, of p] by linarith
qed

lemma page_block:
  assumes "ssd_wf s" "0 \<le> p" "p < num_pages s"
  shows "0 \<le> p div pages_per_block s" "p div pages_per_block s < num_blocks s"
proof -
  have P: "0 < pages_per_block s" using assms(1) by (simp add: ssd_wf_def)
  show "0 \<le> p div pages_per_block s" using assms(2) P by (simp add: pos_imp_zdiv_nonneg_iff)
  have "p div pages_per_block s * pages_per_block s \<le> p" using in_block_iff[OF P] by blast
  also have "p < num_blocks s * pages_per_block s" using assms by (simp add: ssd_wf_def)
  finally show "p div pages_per_block s < num_blocks s" using P by simp
qed

lemma block_pages:
  assumes "ssd_wf s" "0 \<le> b" "b < num_blocks s" "p div pages_per_block s = b"
  shows "0 \<le> p" "p < num_pages s"
proof -
  have P: "0 < pages_per_block s" using assms(1) by (simp add: ssd_wf_def)
  have bnds: "b * pages_per_block s \<le> p" "p < b * pages_per_block s + pages_per_block s"
    using in_block_iff[OF P, of b p] assms(4) by auto
  have "0 \<le> b * pages_per_block s" using assms(2) P by simp
  with bnds(1) show "0 \<le> p" by simp
  have "b * pages_per_block s + pages_per_block s = (b + 1) * pages_per_block s"
    by (simp add: algebra_simps)
  also have "\<dots> \<le> num_blocks s * pages_per_block s" using assms(3) P by (intro mult_right_mono) auto
  finally show "p < num_pages s" using assms(1) bnds(2) by (simp add: ssd_wf_def)
qed

lemma first_page_block: "0 < P \<Longrightarrow> (b * P) div P = (b :: int)"
  by simp

section \<open>Physical operations on a well-formed device\<close>

lemma bump_in: "k \<in> dom d \<Longrightarrow> \<exists>n. d k = Some n \<and> bump d k = Inr (d(k \<mapsto> n + 1))"
  by (auto simp: bump_def)

lemma physical_program_eq:
  assumes "ssd_wf s" "0 \<le> p" "p < num_pages s"
  obtains c where "physical_program s p d = Inr (s\<lparr>data := (data s)(p \<mapsto> d),
      state := (state s)(p \<mapsto> STATE_VALID), physical_write_count := c,
      physical_write_sum := physical_write_sum s + 1\<rparr>)"
    "dom c = dom (physical_write_count s)"
proof -
  have b: "p div pages_per_block s \<in> dom (physical_write_count s)"
    using page_block[OF assms] assms(1) by (simp add: ssd_wf_def)
  obtain n where n: "physical_write_count s (p div pages_per_block s) = Some n" using b by blast
  show thesis
    by (rule that[of "(physical_write_count s)(p div pages_per_block s \<mapsto> n + 1)"])
      (use assms(1) n b in \<open>auto simp: physical_program_def block_of_def bump_def ssd_wf_def\<close>)
qed

lemma physical_read_eq:
  assumes "ssd_wf s" "0 \<le> p" "p < num_pages s"
  obtains c where "physical_read s p = Inr (the (data s p), s\<lparr>physical_read_count := c,
      physical_read_sum := physical_read_sum s + 1\<rparr>)" "dom c = dom (physical_read_count s)"
proof -
  have b: "p div pages_per_block s \<in> dom (physical_read_count s)"
    using page_block[OF assms] assms(1) by (simp add: ssd_wf_def)
  obtain n where n: "physical_read_count s (p div pages_per_block s) = Some n" using b by blast
  have "p \<in> dom (data s)" using assms by (simp add: ssd_wf_def)
  then obtain v where v: "data s p = Some v" by blast
  show thesis
    by (rule that[of "(physical_read_count s)(p div pages_per_block s \<mapsto> n + 1)"])
      (use assms(1) n b v in \<open>auto simp: physical_read_def block_of_def bump_def ssd_wf_def\<close>)
qed

lemma physical_erase_eq:
  assumes "ssd_wf s" "0 \<le> b" "b < num_blocks s"
  obtains c where "physical_erase s b = Inr (s\<lparr>
      data := (\<lambda>p. if p div pages_per_block s = b then Some '' '' else data s p),
      state := (\<lambda>p. if p div pages_per_block s = b then Some STATE_ERASED else state s p),
      gc_used_blocks := (gc_used_blocks s)(b \<mapsto> 0), physical_erase_count := c,
      physical_erase_sum := physical_erase_sum s + 1\<rparr>)"
    "dom c = dom (physical_erase_count s)"
proof -
  have P: "0 < pages_per_block s" using assms by (simp add: ssd_wf_def)
  have b: "b \<in> dom (physical_erase_count s)" using assms by (simp add: ssd_wf_def)
  then obtain n where n: "physical_erase_count s b = Some n" by blast
  have fl: "fill (b * pages_per_block s) (b * pages_per_block s + pages_per_block s) v d =
      (\<lambda>p. if p div pages_per_block s = b then Some v else d p)" for v :: "'v" and d
    by (rule ext) (simp add: fill_apply in_block_iff[OF P])
  show thesis
    by (rule that[of "(physical_erase_count s)(b \<mapsto> n + 1)"])
      (use n b in \<open>auto simp: physical_erase_def Let_def bump_def fl\<close>)
qed

lemma blocks_in_use_eq:
  assumes "ssd_wf s" shows "\<exists>n. blocks_in_use s = Inr n"
proof -
  have "\<exists>t. blocks_in_use s = Inr t \<and> True"
    unfolding blocks_in_use_def
  proof (rule foldres_total)
    fix used i assume "i \<in> set [0..num_blocks s - 1]"
    then have "i \<in> dom (gc_used_blocks s)" using assms by (auto simp: ssd_wf_def)
    then show "\<exists>s'. bnd (dict_get (gc_used_blocks s) i) (\<lambda>n. Inr (used + n)) = Inr s' \<and> True" by auto
  qed simp
  then show ?thesis by blast
qed

section \<open>The structural invariant of the log\<close>

text \<open>The cursor, when set, points into the current block, everything from it to the end of the
  block is erased, and everything before it has been written. A block whose first page is not valid is uniformly in the state of that page: blocks
  are erased as a whole and filled from the front. A page that a logical page refers to has been
  erased at least once.\<close>

definition core_inv :: "ssd \<Rightarrow> bool" where
  "core_inv s \<longleftrightarrow> ssd_wf s \<and> ssd_type s = TYPE_LOGGING \<and>
     0 \<le> current_block s \<and> current_block s < num_blocks s \<and>
     0 \<le> gc_current_block s \<and> gc_current_block s < num_blocks s \<and>
     (current_page s = -1 \<or>
        current_page s div pages_per_block s = current_block s \<and>
        (current_page s = current_block s * pages_per_block s \<or>
           state s (current_block s * pages_per_block s) = Some STATE_VALID) \<and>
        (\<forall>p. current_page s \<le> p \<and> p div pages_per_block s = current_block s \<longrightarrow>
           state s p = Some STATE_ERASED)) \<and>
     (\<forall>b p. 0 \<le> b \<and> b < num_blocks s \<and> p div pages_per_block s = b \<longrightarrow>
        state s (b * pages_per_block s) \<noteq> Some STATE_VALID \<longrightarrow> state s p = state s (b * pages_per_block s)) \<and>
     (\<forall>l p. forward_map s l = Some p \<longrightarrow> p = -1 \<or> state s p \<in> {Some STATE_VALID, Some STATE_ERASED}) \<and>
     (\<forall>p l. reverse_map s p = Some l \<longrightarrow> l = -1 \<or> 0 \<le> l \<and> l < num_logical_pages s)"

text \<open>Every mapped logical page refers to a valid physical page that refers back to it.\<close>

definition map_inv :: "ssd \<Rightarrow> bool" where
  "map_inv s \<longleftrightarrow>
     (\<forall>l p. forward_map s l = Some p \<longrightarrow> p = -1 \<or> state s p = Some STATE_VALID \<and> reverse_map s p = Some l)"

definition log_inv :: "ssd \<Rightarrow> bool" where
  "log_inv s \<longleftrightarrow> core_inv s \<and> map_inv s"

text \<open>What the logical interface shows: the data of every mapped logical page.\<close>

definition contents :: "ssd \<Rightarrow> int \<rightharpoonup> string" where
  "contents s l = (case forward_map s l of None \<Rightarrow> None | Some p \<Rightarrow> if p = -1 then None else data s p)"

lemma core_wf: "core_inv s \<Longrightarrow> ssd_wf s"
  by (simp add: core_inv_def)

lemma core_block:
  assumes "core_inv s" "0 \<le> b" "b < num_blocks s" "p div pages_per_block s = b"
  shows "state s (b * pages_per_block s) \<noteq> Some STATE_VALID \<Longrightarrow> state s p = state s (b * pages_per_block s)"
  using assms unfolding core_inv_def by blast

lemma core_invI:
  assumes "ssd_wf s" "ssd_type s = TYPE_LOGGING"
    and "0 \<le> current_block s \<and> current_block s < num_blocks s"
    and "0 \<le> gc_current_block s \<and> gc_current_block s < num_blocks s"
    and "current_page s = -1 \<or>
        current_page s div pages_per_block s = current_block s \<and>
        (current_page s = current_block s * pages_per_block s \<or>
           state s (current_block s * pages_per_block s) = Some STATE_VALID) \<and>
        (\<forall>p. current_page s \<le> p \<and> p div pages_per_block s = current_block s \<longrightarrow>
           state s p = Some STATE_ERASED)"
    and "\<And>b p. 0 \<le> b \<Longrightarrow> b < num_blocks s \<Longrightarrow> p div pages_per_block s = b \<Longrightarrow>
        state s (b * pages_per_block s) \<noteq> Some STATE_VALID \<Longrightarrow> state s p = state s (b * pages_per_block s)"
    and "\<And>l p. forward_map s l = Some p \<Longrightarrow> p = -1 \<or> state s p \<in> {Some STATE_VALID, Some STATE_ERASED}"
    and "\<And>p l. reverse_map s p = Some l \<Longrightarrow> l = -1 \<or> 0 \<le> l \<and> l < num_logical_pages s"
  shows "core_inv s"
  using assms(1-5) unfolding core_inv_def by (intro conjI allI impI) (auto dest: assms(6-8))

lemma core_fwd: "core_inv s \<Longrightarrow> forward_map s l = Some p \<Longrightarrow> p = -1 \<or> state s p \<in> {Some STATE_VALID, Some STATE_ERASED}"
  unfolding core_inv_def by blast

lemma core_rev: "core_inv s \<Longrightarrow> reverse_map s p = Some l \<Longrightarrow> l = -1 \<or> 0 \<le> l \<and> l < num_logical_pages s"
  by (simp add: core_inv_def)

text \<open>The device after block \<open>b\<close>, whose first page is not valid, has become the current block.\<close>

definition opened :: "ssd \<Rightarrow> int \<Rightarrow> ssd \<Rightarrow> bool" where
  "opened s b t \<longleftrightarrow>
     t = s\<lparr>state := (\<lambda>p. if p div pages_per_block s = b then Some STATE_ERASED else state s p),
          data := data t, physical_erase_count := physical_erase_count t,
          physical_erase_sum := physical_erase_sum t, gc_used_blocks := gc_used_blocks t,
          current_block := b, current_page := b * pages_per_block s\<rparr> \<and>
     0 \<le> b \<and> b < num_blocks s \<and> state s (b * pages_per_block s) \<noteq> Some STATE_VALID \<and>
     (\<forall>p. p div pages_per_block s \<noteq> b \<longrightarrow> data t p = data s p) \<and> dom (data t) = dom (data s) \<and>
     dom (physical_erase_count t) = dom (physical_erase_count s) \<and>
     dom (gc_used_blocks t) = dom (gc_used_blocks s)"

lemma dom_block_upd:
  assumes "ssd_wf s" "0 \<le> b" "b < num_blocks s" "dom d = {0..<num_pages s}"
  shows "dom (\<lambda>p. if p div pages_per_block s = b then Some v else d p) = {0..<num_pages s}"
proof -
  have "dom (\<lambda>p. if p div pages_per_block s = b then Some v else d p) =
      {p. p div pages_per_block s = b} \<union> dom d" by (auto simp: dom_def)
  moreover have "p \<in> {0..<num_pages s}" if "p div pages_per_block s = b" for p
    using block_pages[OF assms(1-3) that] by simp
  ultimately show ?thesis using assms(4) by blast
qed

lemma is_block_free_eq:
  assumes inv: "core_inv s" and b: "0 \<le> b" "b < num_blocks s"
  shows "(state s (b * pages_per_block s) = Some STATE_VALID \<and> is_block_free s b = Inr (False, s)) \<or>
     (\<exists>t. is_block_free s b = Inr (True, t) \<and> opened s b t)"
proof -
  let ?P = "pages_per_block s"
  have wf: "ssd_wf s" and P: "0 < ?P" using inv by (auto simp: core_inv_def ssd_wf_def)
  have first: "(b * ?P) div ?P = b" using P by simp
  then have "b * ?P \<in> dom (state s)" using block_pages[OF wf b first]  wf by (simp add: ssd_wf_def)
  then obtain st where st: "state s (b * ?P) = Some st" by blast
  have used: "dom ((gc_used_blocks s)(b \<mapsto> v)) = dom (gc_used_blocks s)" for v
    using wf b by (auto simp: ssd_wf_def)
  show ?thesis
  proof (cases st)
    case STATE_INVALID
    obtain c where e: "physical_erase s b = Inr (s\<lparr>
      data := (\<lambda>p. if p div ?P = b then Some '' '' else data s p),
      state := (\<lambda>p. if p div ?P = b then Some STATE_ERASED else state s p),
      gc_used_blocks := (gc_used_blocks s)(b \<mapsto> 0), physical_erase_count := c,
      physical_erase_sum := physical_erase_sum s + 1\<rparr>)" "dom c = dom (physical_erase_count s)"
      by (rule physical_erase_eq[OF wf b])
    have "dom (\<lambda>p. if p div ?P = b then Some '' '' else data s p) = dom (data s)"
      using dom_block_upd[OF wf b, of "data s" "'' ''"]  wf by (simp add: ssd_wf_def)
    with e used STATE_INVALID st b show ?thesis
      by (simp add: is_block_free_def opened_def)
  next
    case STATE_ERASED
    then have "(\<lambda>p. if p div ?P = b then Some STATE_ERASED else state s p) = state s"
      using core_block[OF inv b] st by (auto simp: fun_eq_iff)
    with STATE_ERASED used st b show ?thesis
      by (simp add: is_block_free_def opened_def)
  next
    case STATE_VALID
    with st show ?thesis by (simp add: is_block_free_def)
  qed
qed

lemma first_free_eq:
  assumes "core_inv s" "\<forall>b \<in> set bs. 0 \<le> b \<and> b < num_blocks s"
  shows "((\<forall>b \<in> set bs. state s (b * pages_per_block s) = Some STATE_VALID) \<and> first_free s bs = Inr (False, s)) \<or>
     (\<exists>b t. b \<in> set bs \<and> first_free s bs = Inr (True, t) \<and> opened s b t)"
  using assms(2)
proof (induction bs)
  case (Cons b bs)
  then show ?case using is_block_free_eq[OF assms(1), of b] by fastforce
qed simp

lemma get_cursor_eq:
  assumes inv: "core_inv s"
  shows "(current_page s \<noteq> -1 \<and> get_cursor s = Inr (0, s)) \<or>
     (current_page s = -1 \<and> (\<exists>b t. get_cursor s = Inr (0, t) \<and> opened s b t)) \<or>
     (current_page s = -1 \<and> get_cursor s = Inr (-1, s) \<and>
        (\<forall>b. 0 \<le> b \<and> b < num_blocks s \<longrightarrow> state s (b * pages_per_block s) = Some STATE_VALID))"
proof (cases "current_page s = -1")
  case True
  have r: "0 \<le> current_block s" "current_block s < num_blocks s" using inv by (auto simp: core_inv_def)
  have l1: "\<forall>b \<in> set [current_block s..num_blocks s - 1]. 0 \<le> b \<and> b < num_blocks s"
    and l2: "\<forall>b \<in> set [0..current_block s - 1]. 0 \<le> b \<and> b < num_blocks s" using r by auto
  from first_free_eq[OF inv l1] show ?thesis
  proof
    assume a: "(\<forall>b \<in> set [current_block s..num_blocks s - 1].
        state s (b * pages_per_block s) = Some STATE_VALID) \<and>
      first_free s [current_block s..num_blocks s - 1] = Inr (False, s)"
    from first_free_eq[OF inv l2] show ?thesis
    proof
      assume "(\<forall>b \<in> set [0..current_block s - 1]. state s (b * pages_per_block s) = Some STATE_VALID) \<and>
        first_free s [0..current_block s - 1] = Inr (False, s)"
      with a True show ?thesis by (auto simp: get_cursor_def)
    next
      assume "\<exists>b t. b \<in> set [0..current_block s - 1] \<and>
        first_free s [0..current_block s - 1] = Inr (True, t) \<and> opened s b t"
      with a True show ?thesis by (fastforce simp: get_cursor_def)
    qed
  next
    assume "\<exists>b t. b \<in> set [current_block s..num_blocks s - 1] \<and>
      first_free s [current_block s..num_blocks s - 1] = Inr (True, t) \<and> opened s b t"
    with True show ?thesis by (fastforce simp: get_cursor_def)
  qed
qed (simp add: get_cursor_def)

lemma opened_frame:
  assumes "opened s b t"
  shows "ssd_type t = ssd_type s" "num_logical_pages t = num_logical_pages s" "num_blocks t = num_blocks s"
    "pages_per_block t = pages_per_block s" "num_pages t = num_pages s" "forward_map t = forward_map s"
    "reverse_map t = reverse_map s" "gc_current_block t = gc_current_block s"
    "physical_read_count t = physical_read_count s" "physical_write_count t = physical_write_count s"
    "logical_write_fail_sum t = logical_write_fail_sum s"
    "gc_high_water_mark t = gc_high_water_mark s" "gc_low_water_mark t = gc_low_water_mark s"
    "current_block t = b" "current_page t = b * pages_per_block s"
    "state t = (\<lambda>p. if p div pages_per_block s = b then Some STATE_ERASED else state s p)"
proof -
  have eq: "t = s\<lparr>state := (\<lambda>p. if p div pages_per_block s = b then Some STATE_ERASED else state s p),
          data := data t, physical_erase_count := physical_erase_count t,
          physical_erase_sum := physical_erase_sum t, gc_used_blocks := gc_used_blocks t,
          current_block := b, current_page := b * pages_per_block s\<rparr>"
    using assms unfolding opened_def by blast
  show "ssd_type t = ssd_type s" "num_logical_pages t = num_logical_pages s" "num_blocks t = num_blocks s"
    "pages_per_block t = pages_per_block s" "num_pages t = num_pages s" "forward_map t = forward_map s"
    "reverse_map t = reverse_map s" "gc_current_block t = gc_current_block s"
    "physical_read_count t = physical_read_count s" "physical_write_count t = physical_write_count s"
    "logical_write_fail_sum t = logical_write_fail_sum s"
    "gc_high_water_mark t = gc_high_water_mark s" "gc_low_water_mark t = gc_low_water_mark s"
    "current_block t = b" "current_page t = b * pages_per_block s"
    "state t = (\<lambda>p. if p div pages_per_block s = b then Some STATE_ERASED else state s p)"
    by (subst eq, simp)+
qed

lemma opened_wf:
  assumes "ssd_wf s" "opened s b t" shows "ssd_wf t"
proof -
  have "dom (state t) = {0..<num_pages s}"
    using dom_block_upd[OF assms(1), of b "state s" STATE_ERASED] assms
    unfolding opened_frame(16)[OF assms(2)] by (simp add: opened_def ssd_wf_def)
  then show ?thesis
    using assms by (simp add: ssd_wf_def opened_frame[OF assms(2)]) (simp add: opened_def)
qed

lemma opened_core:
  assumes inv: "core_inv s" and op: "opened s b t" shows "core_inv t"
proof -
  let ?P = "pages_per_block s"
  have P: "0 < ?P" and b: "0 \<le> b" "b < num_blocks s"
    using inv op by (auto simp: core_inv_def ssd_wf_def opened_def)
  have blocks: "state t p = state t (c * ?P)"
    if c: "0 \<le> c" "c < num_blocks s" "p div ?P = c" and "state t (c * ?P) \<noteq> Some STATE_VALID" for c p
    using core_block[OF inv c] that P by (cases "c = b") (simp_all add: opened_frame(16)[OF op])
  have fwd: "p = -1 \<or> state t p \<in> {Some STATE_VALID, Some STATE_ERASED}" if "forward_map s l = Some p" for l p
    using core_fwd[OF inv that] by (simp add: opened_frame(16)[OF op])
  show ?thesis
  proof (rule core_invI)
    show "ssd_wf t" by (rule opened_wf[OF core_wf[OF inv] op])
    show "ssd_type t = TYPE_LOGGING" "0 \<le> gc_current_block t \<and> gc_current_block t < num_blocks t"
      "0 \<le> current_block t \<and> current_block t < num_blocks t"
      using inv b by (simp_all add: core_inv_def opened_frame(1-15)[OF op])
    show "current_page t = -1 \<or>
        current_page t div pages_per_block t = current_block t \<and>
        (current_page t = current_block t * pages_per_block t \<or>
           state t (current_block t * pages_per_block t) = Some STATE_VALID) \<and>
        (\<forall>p. current_page t \<le> p \<and> p div pages_per_block t = current_block t \<longrightarrow>
           state t p = Some STATE_ERASED)"
      using P by (simp add: opened_frame[OF op])
  qed (use blocks fwd core_rev[OF inv] in \<open>auto simp: opened_frame(1-15)[OF op]\<close>)
qed

lemma opened_keeps_valid:
  assumes inv: "core_inv s" and op: "opened s b t" and v: "state s p = Some STATE_VALID"
  shows "state t p = Some STATE_VALID" "data t p = data s p"
proof -
  have b: "0 \<le> b" "b < num_blocks s" "state s (b * pages_per_block s) \<noteq> Some STATE_VALID"
    using op by (simp_all add: opened_def)
  have "p div pages_per_block s \<noteq> b"
    using core_block[OF inv b(1,2) _ b(3), of p] b(3) v by metis
  then show "state t p = Some STATE_VALID" "data t p = data s p"
    using op v by (simp_all add: opened_frame(16)[OF op]) (simp add: opened_def)
qed

section \<open>One log write\<close>

text \<open>\<open>logged s l d p t\<close>: \<open>t\<close> is \<open>s\<close> after logical page \<open>l\<close> with data \<open>d\<close> has been written to
  physical page \<open>p\<close>, which held no valid data before; valid pages and their data are untouched.\<close>

definition logged :: "ssd \<Rightarrow> int \<Rightarrow> string \<Rightarrow> int \<Rightarrow> ssd \<Rightarrow> bool" where
  "logged s l d p t \<longleftrightarrow>
     forward_map t = (forward_map s)(l \<mapsto> p) \<and> reverse_map t = (reverse_map s)(p \<mapsto> l) \<and>
     0 \<le> p \<and> state s p \<noteq> Some STATE_VALID \<and> state t p = Some STATE_VALID \<and> data t p = Some d \<and>
     (\<forall>q. state s q = Some STATE_VALID \<longrightarrow> state t q = Some STATE_VALID \<and> data t q = data s q) \<and>
     p div pages_per_block s = current_block t \<and>
     (current_block t = current_block s \<or>
        state s (current_block t * pages_per_block s) \<noteq> Some STATE_VALID) \<and>
     pages_per_block t = pages_per_block s \<and> num_blocks t = num_blocks s \<and>
     num_logical_pages t = num_logical_pages s \<and> gc_low_water_mark t = gc_low_water_mark s \<and>
     logical_write_fail_sum t = logical_write_fail_sum s"

lemma program_cursor:
  assumes inv: "core_inv s" and cp: "current_page s \<noteq> -1" and l: "0 \<le> l" "l < num_logical_pages s"
  shows "\<exists>t. bnd (dict_get (state s) (current_page s)) (\<lambda>st.
            asserting (st = STATE_ERASED)
            (bnd (physical_program s (current_page s) d) (\<lambda>s2.
             bnd (update_cursor (s2\<lparr>forward_map := (forward_map s2)(l \<mapsto> current_page s2),
                                    reverse_map := (reverse_map s2)(current_page s2 \<mapsto> l)\<rparr>))
               (\<lambda>s3. Inr (''success'', s3))))) = Inr (''success'', t) \<and>
          core_inv t \<and> logged s l d (current_page s) t"
proof -
  let ?P = "pages_per_block s" and ?cp = "current_page s" and ?cb = "current_block s"
  have wf: "ssd_wf s" and P: "0 < ?P" and cb: "0 \<le> ?cb" "?cb < num_blocks s"
    using inv by (auto simp: core_inv_def ssd_wf_def)
  have cur: "?cp div ?P = ?cb" "?cp = ?cb * ?P \<or> state s (?cb * ?P) = Some STATE_VALID"
    and er: "\<And>p. ?cp \<le> p \<Longrightarrow> p div ?P = ?cb \<Longrightarrow> state s p = Some STATE_ERASED"
    using inv cp unfolding core_inv_def by blast+
  have st: "state s ?cp = Some STATE_ERASED" using er[of ?cp] cur(1) by simp
  have rng: "0 \<le> ?cp" "?cp < num_pages s" using block_pages[OF wf cb cur(1)] by auto
  obtain c where pr: "physical_program s ?cp d = Inr (s\<lparr>data := (data s)(?cp \<mapsto> d),
      state := (state s)(?cp \<mapsto> STATE_VALID), physical_write_count := c,
      physical_write_sum := physical_write_sum s + 1\<rparr>)" "dom c = dom (physical_write_count s)"
    by (rule physical_program_eq[OF wf rng])
  define t where "t = s\<lparr>data := (data s)(?cp \<mapsto> d), state := (state s)(?cp \<mapsto> STATE_VALID),
      physical_write_count := c, physical_write_sum := physical_write_sum s + 1,
      forward_map := (forward_map s)(l \<mapsto> ?cp), reverse_map := (reverse_map s)(?cp \<mapsto> l),
      current_page := (if (?cp + 1) mod ?P = 0 then -1 else ?cp + 1)\<rparr>"
  have wft: "ssd_wf t" using wf pr(2) rng l by (auto simp: t_def ssd_wf_def insert_absorb)
  have next_page: "(?cp + 1) div ?P = ?cb" if "(?cp + 1) mod ?P \<noteq> 0"
  proof -
    have "?cb * ?P \<le> ?cp" "?cp < ?cb * ?P + ?P" using in_block_iff[OF P, of ?cb ?cp] cur(1) by auto
    moreover have "?cp + 1 \<noteq> ?cb * ?P + ?P" using that by auto
    ultimately show ?thesis using in_block_iff[OF P, of ?cb "?cp + 1"] by simp
  qed
  have firstV: "state t (?cb * ?P) = Some STATE_VALID" using cur(2) by (auto simp: t_def)
  have cursor: "current_page t = -1 \<or>
        current_page t div pages_per_block t = current_block t \<and>
        (current_page t = current_block t * pages_per_block t \<or>
           state t (current_block t * pages_per_block t) = Some STATE_VALID) \<and>
        (\<forall>p. current_page t \<le> p \<and> p div pages_per_block t = current_block t \<longrightarrow>
           state t p = Some STATE_ERASED)"
    using firstV next_page er by (auto simp: t_def)
  have blocks: "state t p = state t (b * pages_per_block t)"
    if b: "0 \<le> b" "b < num_blocks s" "p div ?P = b" and nv: "state t (b * pages_per_block t) \<noteq> Some STATE_VALID"
    for b p
  proof (cases "b = ?cb")
    case True
    with firstV nv show ?thesis by (simp add: t_def)
  next
    case False
    then have "p \<noteq> ?cp" "b * ?P \<noteq> ?cp" using cur(1) b(3) first_page_block[OF P, of b] by metis+
    then show ?thesis using core_block[OF inv b] nv by (simp add: t_def)
  qed
  have "core_inv t"
  proof (rule core_invI)
    show "ssd_type t = TYPE_LOGGING" "0 \<le> gc_current_block t \<and> gc_current_block t < num_blocks t"
      "0 \<le> current_block t \<and> current_block t < num_blocks t"
      using inv by (simp_all add: core_inv_def t_def)
    show "q = -1 \<or> 0 \<le> q \<and> q < num_logical_pages t" if "reverse_map t p = Some q" for p q
      using that l core_rev[OF inv, of p q] by (auto simp: t_def split: if_splits)
    show "state t p = state t (b * pages_per_block t)"
      if "0 \<le> b" "b < num_blocks t" "p div pages_per_block t = b"
        "state t (b * pages_per_block t) \<noteq> Some STATE_VALID" for b p
      using blocks[of b p] that by (simp add: t_def)
    show "q = -1 \<or> state t q \<in> {Some STATE_VALID, Some STATE_ERASED}" if "forward_map t k = Some q" for k q
      using that core_fwd[OF inv, of k q] by (auto simp: t_def split: if_splits)
  qed (rule wft cursor)+
  moreover have "logged s l d ?cp t"
    using st rng cur(1) by (auto simp: logged_def t_def)
  ultimately show ?thesis
    using st pr(1) P by (intro exI[of _ t]) (simp add: update_cursor_def t_def)
qed

lemma logged_after_open:
  assumes inv: "core_inv s" and op: "opened s b t" and lg: "logged t l d p u"
  shows "logged s l d p u"
proof -
  have "state s p \<noteq> Some STATE_VALID" using opened_keeps_valid(1)[OF inv op, of p] lg
    by (auto simp: logged_def)
  moreover have "\<forall>q. state s q = Some STATE_VALID \<longrightarrow> state u q = Some STATE_VALID \<and> data u q = data s q"
    using opened_keeps_valid[OF inv op] lg by (auto simp: logged_def)
  moreover have "current_block u = current_block s \<or> state s (current_block u * pages_per_block s) \<noteq> Some STATE_VALID"
  proof (cases "current_block u = b")
    case True
    then show ?thesis using op by (simp add: opened_def)
  next
    case False
    then have "state t (current_block u * pages_per_block s) \<noteq> Some STATE_VALID"
      using lg opened_frame[OF op] by (simp add: logged_def)
    then show ?thesis using opened_keeps_valid(1)[OF inv op] by blast
  qed
  ultimately show ?thesis
    using lg unfolding logged_def opened_frame(1-15)[OF op] by simp
qed

lemma write_logging_cases:
  assumes inv: "core_inv s" and l: "0 \<le> l" "l < num_logical_pages s"
  obtains (full) "current_page s = -1"
      "\<forall>b. 0 \<le> b \<and> b < num_blocks s \<longrightarrow> state s (b * pages_per_block s) = Some STATE_VALID"
      "write_logging s l d = Inr (''failure: device full'',
         s\<lparr>logical_write_fail_sum := logical_write_fail_sum s + 1\<rparr>)"
    | (ok) p t where "write_logging s l d = Inr (''success'', t)" "core_inv t" "logged s l d p t"
proof -
  consider (cur) "current_page s \<noteq> -1" "get_cursor s = Inr (0, s)"
    | (op) b t where "get_cursor s = Inr (0, t)" "opened s b t"
    | (none) "current_page s = -1" "get_cursor s = Inr (-1, s)"
        "\<forall>b. 0 \<le> b \<and> b < num_blocks s \<longrightarrow> state s (b * pages_per_block s) = Some STATE_VALID"
    using get_cursor_eq[OF inv] by blast
  then show thesis
  proof cases
    case cur
    from program_cursor[OF inv cur(1) l, of d] cur(2) show thesis
      by (auto simp: write_logging_def intro: ok)
  next
    case op
    have l': "l < num_logical_pages t" using l opened_frame[OF op(2)] by simp
    have "0 \<le> current_page t" using op(2) inv opened_frame(15)[OF op(2)]
      by (simp add: opened_def core_inv_def ssd_wf_def)
    then have "current_page t \<noteq> -1" by simp
    from program_cursor[OF opened_core[OF inv op(2)] this l(1) l', of d] op show thesis
      by (auto simp: write_logging_def intro: ok logged_after_open[OF inv op(2)])
  next
    case none
    then show thesis by (intro full) (auto simp: write_logging_def)
  qed
qed

lemma core_inv_counters:
  "core_inv (s\<lparr>logical_write_sum := n\<rparr>) = core_inv s"
  "core_inv (s\<lparr>logical_write_fail_sum := n\<rparr>) = core_inv s"
  "map_inv (s\<lparr>logical_write_sum := n\<rparr>) = map_inv s"
  "map_inv (s\<lparr>logical_write_fail_sum := n\<rparr>) = map_inv s"
  "contents (s\<lparr>logical_write_sum := n\<rparr>) = contents s"
  "contents (s\<lparr>logical_write_fail_sum := n\<rparr>) = contents s"
  "logged (s\<lparr>logical_write_sum := n\<rparr>) l d p t = logged s l d p t"
  by (simp_all add: core_inv_def ssd_wf_def map_inv_def contents_def fun_eq_iff logged_def
      split: option.split)

lemma log_write_cases:
  assumes inv: "core_inv s" and l: "0 \<le> l" "l < num_logical_pages s"
  obtains (full) t where "ssd_write s l d = Inr (''failure: device full'', t)" "core_inv t"
      "t = s\<lparr>logical_write_sum := logical_write_sum s + 1,
            logical_write_fail_sum := logical_write_fail_sum s + 1\<rparr>"
    | (ok) p t where "ssd_write s l d = Inr (''success'', t)" "core_inv t" "logged s l d p t"
proof -
  let ?s = "s\<lparr>logical_write_sum := logical_write_sum s + 1\<rparr>"
  have inv': "core_inv ?s" and l': "l < num_logical_pages ?s"
    using inv l by (simp_all add: core_inv_counters)
  have w: "ssd_write s l d = write_logging ?s l d"
    using inv l by (simp add: ssd_write_def core_inv_def)
  show thesis
  proof (rule write_logging_cases[OF inv' l(1) l', of d])
    assume "write_logging ?s l d = Inr (''failure: device full'',
         ?s\<lparr>logical_write_fail_sum := logical_write_fail_sum ?s + 1\<rparr>)"
    with w inv show thesis by (intro full) (auto simp: core_inv_counters)
  next
    fix p t assume "write_logging ?s l d = Inr (''success'', t)" "core_inv t" "logged ?s l d p t"
    with w show thesis by (intro ok) (auto simp: core_inv_counters)
  qed
qed

lemma logged_map_inv:
  assumes "map_inv s" "logged s l d p t"
  shows "map_inv t" "contents t = (contents s)(l \<mapsto> d)"
proof -
  have old: "q = -1 \<or> state s q = Some STATE_VALID \<and> reverse_map s q = Some k \<and> q \<noteq> p \<and> data t q = data s q"
    if "forward_map s k = Some q" for k q
    using assms that unfolding map_inv_def logged_def by metis
  have lg: "forward_map t = (forward_map s)(l \<mapsto> p)" "reverse_map t = (reverse_map s)(p \<mapsto> l)" "0 \<le> p"
    "state t p = Some STATE_VALID" "data t p = Some d"
    "\<And>q. state s q = Some STATE_VALID \<Longrightarrow> state t q = Some STATE_VALID"
    using assms(2) by (simp_all add: logged_def)
  have "q = -1 \<or> state t q = Some STATE_VALID \<and> reverse_map t q = Some k"
    if "forward_map t k = Some q" for k q
    using that old[of k q] lg by (cases "k = l") auto
  then show "map_inv t" by (simp add: map_inv_def)
  have "contents t k = ((contents s)(l \<mapsto> d)) k" for k
    using old[of k] lg by (cases "k = l") (auto simp: contents_def split: option.split)
  then show "contents t = (contents s)(l \<mapsto> d)" by (rule ext)
qed

lemma log_write_inv:
  assumes inv: "log_inv s" and l: "0 \<le> l" "l < num_logical_pages s"
  shows "\<exists>rc t. ssd_write s l d = Inr (rc, t) \<and> log_inv t \<and>
     (rc = ''success'' \<and> contents t = (contents s)(l \<mapsto> d) \<or>
      rc = ''failure: device full'' \<and> contents t = contents s)"
proof -
  have core: "core_inv s" and mp: "map_inv s" using inv by (auto simp: log_inv_def)
  show ?thesis
  proof (rule log_write_cases[OF core l, of d])
    fix p t assume "ssd_write s l d = Inr (''success'', t)" "core_inv t" "logged s l d p t"
    then show ?thesis using logged_map_inv[OF mp] by (auto simp: log_inv_def)
  next
    fix t assume "ssd_write s l d = Inr (''failure: device full'', t)" "core_inv t"
      "t = s\<lparr>logical_write_sum := logical_write_sum s + 1,
            logical_write_fail_sum := logical_write_fail_sum s + 1\<rparr>"
    then show ?thesis using mp by (auto simp: log_inv_def core_inv_counters)
  qed
qed

section \<open>Garbage collection\<close>

definition is_live :: "ssd \<Rightarrow> int \<Rightarrow> bool" where
  "is_live s p \<longleftrightarrow> (\<exists>l. reverse_map s p = Some l \<and> l \<noteq> -1 \<and> forward_map s l = Some p)"

lemma live_pages_eq:
  assumes inv: "core_inv s" and pages: "\<forall>p \<in> set pages. 0 \<le> p \<and> p < num_pages s"
  shows "live_pages s pages = Inr (filter (is_live s) pages)"
proof -
  let ?f = "\<lambda>live page.
       bnd (dict_get (reverse_map s) page) (\<lambda>logical_page.
         if logical_page \<noteq> -1
         then bnd (dict_get (forward_map s) logical_page) (\<lambda>p.
                Inr (if p = page then live @ [page] else live))
         else Inr live)"
  have step: "?f acc p = Inr (acc @ (if is_live s p then [p] else []))" if "0 \<le> p" "p < num_pages s" for acc p
  proof -
    have "p \<in> dom (reverse_map s)" using core_wf[OF inv] that by (simp add: ssd_wf_def)
    then obtain l where l: "reverse_map s p = Some l" by blast
    show ?thesis
    proof (cases "l = -1")
      case False
      then have "l \<in> dom (forward_map s)" using core_rev[OF inv l] core_wf[OF inv] by (simp add: ssd_wf_def)
      then obtain q where "forward_map s l = Some q" by blast
      with l False show ?thesis by (auto simp: is_live_def)
    qed (use l in \<open>auto simp: is_live_def\<close>)
  qed
  have "foldres ?f acc pages = Inr (acc @ filter (is_live s) pages)" for acc
    using pages by (induction pages arbitrary: acc) (simp_all add: step)
  then show ?thesis by (simp add: live_pages_def)
qed

lemma read_counters:
  "logged (s\<lparr>physical_read_count := c, physical_read_sum := n\<rparr>) l d p t = logged s l d p t"
  by (simp add: logged_def)

lemma core_inv_frame:
  assumes "core_inv s" "ssd_wf t" "ssd_type t = ssd_type s" "current_block t = current_block s"
    "num_blocks t = num_blocks s" "current_page t = current_page s" "pages_per_block t = pages_per_block s"
    "state t = state s" "forward_map t = forward_map s" "reverse_map t = reverse_map s"
    "num_logical_pages t = num_logical_pages s" "0 \<le> gc_current_block t" "gc_current_block t < num_blocks s"
  shows "core_inv t"
  unfolding core_inv_def assms(3-11) using assms(1,2,12,13) unfolding core_inv_def by blast

lemma core_read_count:
  assumes "core_inv s" "dom c = dom (physical_read_count s)"
  shows "core_inv (s\<lparr>physical_read_count := c, physical_read_sum := n\<rparr>)"
proof (rule core_inv_frame[OF assms(1)])
  show "ssd_wf (s\<lparr>physical_read_count := c, physical_read_sum := n\<rparr>)"
    using core_wf[OF assms(1)] assms(2) by (simp add: ssd_wf_def)
qed (use assms(1) in \<open>simp_all add: core_inv_def\<close>)

text \<open>What a failed write leaves: only counters change.\<close>

definition same_store :: "ssd \<Rightarrow> ssd \<Rightarrow> bool" where
  "same_store s t \<longleftrightarrow> forward_map t = forward_map s \<and> reverse_map t = reverse_map s \<and> state t = state s \<and>
     data t = data s \<and> current_block t = current_block s \<and> pages_per_block t = pages_per_block s \<and>
     num_blocks t = num_blocks s \<and> num_logical_pages t = num_logical_pages s \<and>
     gc_low_water_mark t = gc_low_water_mark s"

lemma copy_live_cases:
  assumes inv: "core_inv s" and p: "0 \<le> p" "p < num_pages s" and l: "reverse_map s p = Some l"
  obtains (fail) t where "copy_live s p = Inr t" "core_inv t" "same_store s t"
      "logical_write_fail_sum t = logical_write_fail_sum s + 1"
    | (ok) q t where "copy_live s p = Inr t" "core_inv t" "logged s l (the (data s p)) q t" "l \<noteq> -1"
proof -
  obtain c where rd: "physical_read s p = Inr (the (data s p), s\<lparr>physical_read_count := c,
      physical_read_sum := physical_read_sum s + 1\<rparr>)" and c: "dom c = dom (physical_read_count s)"
    by (rule physical_read_eq[OF core_wf[OF inv] p])
  let ?s = "s\<lparr>physical_read_count := c, physical_read_sum := physical_read_sum s + 1\<rparr>"
  have inv': "core_inv ?s" by (rule core_read_count[OF inv c])
  show thesis
  proof (cases "l = -1")
    case True
    let ?t = "?s\<lparr>logical_write_sum := logical_write_sum s + 1,
        logical_write_fail_sum := logical_write_fail_sum s + 1\<rparr>"
    have "copy_live s p = Inr ?t" using rd l True by (simp add: copy_live_def ssd_write_def)
    moreover have "core_inv ?t" using inv' by (simp add: core_inv_counters)
    ultimately show thesis by (rule fail) (simp_all add: same_store_def)
  next
    case False
    then have lr: "0 \<le> l" "l < num_logical_pages ?s" using core_rev[OF inv l] by auto
    show thesis
    proof (rule log_write_cases[OF inv' lr, of "the (data s p)"])
      fix t assume "ssd_write ?s l (the (data s p)) = Inr (''failure: device full'', t)" "core_inv t"
        "t = ?s\<lparr>logical_write_sum := logical_write_sum ?s + 1,
            logical_write_fail_sum := logical_write_fail_sum ?s + 1\<rparr>"
      then show thesis using rd l by (intro fail[of t]) (auto simp: copy_live_def same_store_def)
    next
      fix q t assume "ssd_write ?s l (the (data s p)) = Inr (''success'', t)" "core_inv t"
        "logged ?s l (the (data s p)) q t"
      then show thesis using rd l False by (intro ok[of t q]) (auto simp: copy_live_def read_counters)
    qed
  qed
qed

text \<open>The logical pages that refer into block \<open>b\<close>.\<close>

definition refs :: "ssd \<Rightarrow> int \<Rightarrow> int set" where
  "refs s b = {l. \<exists>p. forward_map s l = Some p \<and> p \<noteq> -1 \<and> p div pages_per_block s = b}"

text \<open>The effect of copying pages out of block \<open>b\<close>: without a failed write, the contents are kept
  and the logical pages of the copied pages no longer refer into \<open>b\<close>.\<close>

definition moved :: "int \<Rightarrow> int list \<Rightarrow> ssd \<Rightarrow> ssd \<Rightarrow> bool" where
  "moved b ps s t \<longleftrightarrow>
     core_inv t \<and> current_block t \<noteq> b \<and> state t (b * pages_per_block s) = Some STATE_VALID \<and>
     pages_per_block t = pages_per_block s \<and> num_blocks t = num_blocks s \<and>
     num_logical_pages t = num_logical_pages s \<and>
     logical_write_fail_sum s \<le> logical_write_fail_sum t \<and>
     (logical_write_fail_sum t = logical_write_fail_sum s \<and> map_inv s \<longrightarrow>
        map_inv t \<and> contents t = contents s \<and> refs t b = refs s b - {l. \<exists>p \<in> set ps. reverse_map s p = Some l})"

lemma copy_live_moved:
  assumes inv: "core_inv s" and b: "current_block s \<noteq> b" "state s (b * pages_per_block s) = Some STATE_VALID"
    and p: "0 \<le> p" "p < num_pages s" "p div pages_per_block s = b" "is_live s p"
  shows "\<exists>t. copy_live s p = Inr t \<and> moved b [p] s t \<and> num_pages t = num_pages s \<and>
     (\<forall>q. q \<noteq> p \<and> q div pages_per_block s = b \<and> is_live s q \<longrightarrow> is_live t q \<and> reverse_map t q = reverse_map s q)"
proof -
  obtain l where l: "reverse_map s p = Some l" "l \<noteq> -1" "forward_map s l = Some p"
    using p(4) by (auto simp: is_live_def)
  show ?thesis
  proof (rule copy_live_cases[OF inv p(1,2) l(1)])
    fix t assume t: "copy_live s p = Inr t" "core_inv t" "same_store s t"
      "logical_write_fail_sum t = logical_write_fail_sum s + 1"
    have "num_pages t = num_pages s"
      using core_wf[OF inv] core_wf[OF t(2)] t(3) by (simp add: ssd_wf_def same_store_def)
    then show ?thesis using t b by (auto simp: moved_def same_store_def is_live_def)
  next
    fix q t assume t: "copy_live s p = Inr t" "core_inv t" "logged s l (the (data s p)) q t"
    note lg = t(3)[unfolded logged_def]
    have cb: "current_block t \<noteq> b" using lg b by metis
    have q: "q div pages_per_block s \<noteq> b" using lg cb by simp
    have np: "num_pages t = num_pages s"
      using core_wf[OF inv] core_wf[OF t(2)] lg by (simp add: ssd_wf_def)
    have "contents s l = data s p" using l p(1) by (simp add: contents_def)
    moreover have "p \<in> dom (data s)" using core_wf[OF inv] p by (simp add: ssd_wf_def)
    ultimately have same: "(contents s)(l \<mapsto> the (data s p)) = contents s" by (auto simp: fun_eq_iff)
    have "refs t b = refs s b - {l}" using lg q by (auto simp: refs_def)
    then have "moved b [p] s t"
      using t(2) lg cb b l(1) logged_map_inv[OF _ t(3)] same by (auto simp: moved_def)
    moreover have "is_live t r \<and> reverse_map t r = reverse_map s r"
      if r: "r \<noteq> p" "r div pages_per_block s = b" "is_live s r" for r
    proof -
      have "r \<noteq> q" using r(2) q by auto
      obtain k where k: "reverse_map s r = Some k" "k \<noteq> -1" "forward_map s k = Some r"
        using r(3) by (auto simp: is_live_def)
      then have "k \<noteq> l" using l(3) r(1) by auto
      then show ?thesis using k \<open>r \<noteq> q\<close> lg by (simp add: is_live_def)
    qed
    ultimately show ?thesis using t(1) np by blast
  qed
qed

lemma moved_trans:
  assumes "moved b ps s t" "moved b qs t u" "\<forall>q \<in> set qs. reverse_map t q = reverse_map s q"
  shows "moved b (ps @ qs) s u"
proof -
  have "map_inv u \<and> contents u = contents s \<and>
      refs u b = refs s b - {l. \<exists>p \<in> set (ps @ qs). reverse_map s p = Some l}"
    if "logical_write_fail_sum u = logical_write_fail_sum s" "map_inv s"
  proof -
    have eq: "logical_write_fail_sum t = logical_write_fail_sum s"
      "logical_write_fail_sum u = logical_write_fail_sum t"
      using assms(1,2) that(1) by (auto simp: moved_def)
    have st: "map_inv t" "contents t = contents s"
        "refs t b = refs s b - {l. \<exists>p \<in> set ps. reverse_map s p = Some l}"
      using assms(1) eq(1) that(2) by (simp_all add: moved_def)
    have tu: "map_inv u" "contents u = contents t"
        "refs u b = refs t b - {l. \<exists>p \<in> set qs. reverse_map t p = Some l}"
      using assms(2) eq(2) st(1) by (simp_all add: moved_def)
    show ?thesis using st tu assms(3) by auto
  qed
  then show ?thesis using assms(1,2) by (simp add: moved_def)
qed

lemma copy_all_moved:
  assumes "core_inv s" "current_block s \<noteq> b" "state s (b * pages_per_block s) = Some STATE_VALID"
    and "distinct ps"
    and "\<forall>p \<in> set ps. 0 \<le> p \<and> p < num_pages s \<and> p div pages_per_block s = b \<and> is_live s p"
  shows "\<exists>t. foldres copy_live s ps = Inr t \<and> moved b ps s t"
  using assms
proof (induction ps arbitrary: s)
  case Nil
  then show ?case by (simp add: moved_def)
next
  case (Cons p ps)
  obtain t where t: "copy_live s p = Inr t" "moved b [p] s t" "num_pages t = num_pages s"
    and keep: "\<forall>q. q \<noteq> p \<and> q div pages_per_block s = b \<and> is_live s q \<longrightarrow> is_live t q \<and> reverse_map t q = reverse_map s q"
    using copy_live_moved[OF Cons.prems(1-3), of p] Cons.prems(5) by auto
  have mv: "core_inv t" "current_block t \<noteq> b" "state t (b * pages_per_block t) = Some STATE_VALID"
    "pages_per_block t = pages_per_block s"
    using t(2) by (simp_all add: moved_def)
  have "\<forall>q \<in> set ps. 0 \<le> q \<and> q < num_pages t \<and> q div pages_per_block t = b \<and> is_live t q"
    using Cons.prems(4,5) keep t(3) mv(4) by auto
  from Cons.IH[OF mv(1-3) _ this] Cons.prems(4)
  obtain u where u: "foldres copy_live t ps = Inr u" "moved b ps t u" by auto
  have "moved b ([p] @ ps) s u"
    by (rule moved_trans[OF t(2) u(2)]) (use Cons.prems(4,5) keep in auto)
  then show ?case using t(1) u(1) by simp
qed

lemma erase_core:
  assumes inv: "core_inv s" and b: "0 \<le> b" "b < num_blocks s" "b \<noteq> current_block s"
  obtains t where "physical_erase s b = Inr t" "core_inv t" "num_blocks t = num_blocks s"
    "num_logical_pages t = num_logical_pages s" "logical_write_fail_sum t = logical_write_fail_sum s"
    "map_inv s \<and> refs s b = {} \<Longrightarrow> map_inv t \<and> contents t = contents s"
proof -
  let ?P = "pages_per_block s"
  have wf: "ssd_wf s" by (rule core_wf[OF inv])
  have P: "0 < ?P" using wf by (simp add: ssd_wf_def)
  obtain c where e: "physical_erase s b = Inr (s\<lparr>
      data := (\<lambda>p. if p div ?P = b then Some '' '' else data s p),
      state := (\<lambda>p. if p div ?P = b then Some STATE_ERASED else state s p),
      gc_used_blocks := (gc_used_blocks s)(b \<mapsto> 0), physical_erase_count := c,
      physical_erase_sum := physical_erase_sum s + 1\<rparr>)" and c: "dom c = dom (physical_erase_count s)"
    by (rule physical_erase_eq[OF wf b(1,2)])
  define t where "t = s\<lparr>data := (\<lambda>p. if p div ?P = b then Some '' '' else data s p),
      state := (\<lambda>p. if p div ?P = b then Some STATE_ERASED else state s p),
      gc_used_blocks := (gc_used_blocks s)(b \<mapsto> 0), physical_erase_count := c,
      physical_erase_sum := physical_erase_sum s + 1\<rparr>"
  have "dom (state t) = {0..<num_pages s}" "dom (data t) = {0..<num_pages s}"
    using dom_block_upd[OF wf b(1,2), of "state s" STATE_ERASED]
      dom_block_upd[OF wf b(1,2), of "data s" "'' ''"] wf by (simp_all add: t_def ssd_wf_def)
  then have wft: "ssd_wf t" using wf c b by (auto simp: t_def ssd_wf_def)
  have "core_inv t"
  proof (rule core_invI)
    show "ssd_type t = TYPE_LOGGING" "0 \<le> current_block t \<and> current_block t < num_blocks t"
      "0 \<le> gc_current_block t \<and> gc_current_block t < num_blocks t"
      using inv by (simp_all add: core_inv_def t_def)
    have "current_page s = -1 \<or>
        current_page s div ?P = current_block s \<and>
        (current_page s = current_block s * ?P \<or> state s (current_block s * ?P) = Some STATE_VALID) \<and>
        (\<forall>p. current_page s \<le> p \<and> p div ?P = current_block s \<longrightarrow> state s p = Some STATE_ERASED)"
      using inv unfolding core_inv_def by blast
    then show "current_page t = -1 \<or>
        current_page t div pages_per_block t = current_block t \<and>
        (current_page t = current_block t * pages_per_block t \<or>
           state t (current_block t * pages_per_block t) = Some STATE_VALID) \<and>
        (\<forall>p. current_page t \<le> p \<and> p div pages_per_block t = current_block t \<longrightarrow>
           state t p = Some STATE_ERASED)"
      using b(3) P by (auto simp: t_def)
    show "state t p = state t (d * pages_per_block t)"
      if "0 \<le> d" "d < num_blocks t" "p div pages_per_block t = d"
        "state t (d * pages_per_block t) \<noteq> Some STATE_VALID" for d p
      using core_block[OF inv, of d p] that P by (cases "d = b") (auto simp: t_def)
    show "p = -1 \<or> state t p \<in> {Some STATE_VALID, Some STATE_ERASED}" if "forward_map t l = Some p" for l p
      using core_fwd[OF inv, of l p] that by (auto simp: t_def)
    show "l = -1 \<or> 0 \<le> l \<and> l < num_logical_pages t" if "reverse_map t p = Some l" for p l
      using core_rev[OF inv, of p l] that by (simp add: t_def)
  qed (rule wft)
  moreover have "map_inv t \<and> contents t = contents s" if "map_inv s \<and> refs s b = {}"
  proof -
    have off: "p = -1 \<or> p div ?P \<noteq> b" if "forward_map s l = Some p" for l p
      using \<open>map_inv s \<and> refs s b = {}\<close> that by (auto simp: refs_def)
    have "map_inv t" using off that by (auto simp: map_inv_def t_def)
    moreover have "contents t l = contents s l" for l
      using off[of l] by (auto simp: contents_def t_def split: option.split)
    ultimately show ?thesis by auto
  qed
  ultimately show thesis using e by (intro that[of t]) (simp_all add: t_def)
qed

text \<open>The effect of a collection: never an error, and without a failed write the contents are kept.\<close>

definition collected :: "ssd \<Rightarrow> ssd \<Rightarrow> bool" where
  "collected s t \<longleftrightarrow> core_inv t \<and> num_blocks t = num_blocks s \<and>
     num_logical_pages t = num_logical_pages s \<and>
     logical_write_fail_sum s \<le> logical_write_fail_sum t \<and>
     (logical_write_fail_sum t = logical_write_fail_sum s \<and> map_inv s \<longrightarrow> map_inv t \<and> contents t = contents s)"

lemma collected_refl: "core_inv s \<Longrightarrow> collected s s"
  by (simp add: collected_def)

lemma collected_trans: "collected s t \<Longrightarrow> collected t u \<Longrightarrow> collected s u"
  unfolding collected_def by auto

lemma fwd_key:
  assumes "core_inv s" "forward_map s l = Some p" shows "l \<noteq> -1"
proof -
  have "l \<in> dom (forward_map s)" using assms(2) by auto
  then show ?thesis using core_wf[OF assms(1)] by (auto simp: ssd_wf_def)
qed

lemma clean_block:
  assumes inv: "core_inv s" and b: "0 \<le> b" "b < num_blocks s" "b \<noteq> current_block s"
    and st: "state s (b * pages_per_block s) \<noteq> Some STATE_ERASED"
  shows "\<exists>t u. foldres copy_live s (filter (is_live s) [b * pages_per_block s..b * pages_per_block s + pages_per_block s - 1])
       = Inr t \<and> physical_erase t b = Inr u \<and> collected s u"
proof -
  let ?P = "pages_per_block s"
  let ?ps = "filter (is_live s) [b * ?P..b * ?P + ?P - 1]"
  have P: "0 < ?P" using inv by (simp add: core_inv_def ssd_wf_def)
  have mem: "p \<in> set ?ps \<longleftrightarrow> p div ?P = b \<and> is_live s p" for p
    using in_block_iff[OF P, of b p] by auto
  have rng: "0 \<le> p \<and> p < num_pages s" if "p div ?P = b" for p
    using block_pages[OF core_wf[OF inv] b(1,2) that] by simp
  have "\<exists>t. foldres copy_live s ?ps = Inr t \<and> core_inv t \<and> current_block t \<noteq> b \<and> num_blocks t = num_blocks s \<and>
      num_logical_pages t = num_logical_pages s \<and> logical_write_fail_sum s \<le> logical_write_fail_sum t \<and>
      (logical_write_fail_sum t = logical_write_fail_sum s \<and> map_inv s \<longrightarrow>
         map_inv t \<and> contents t = contents s \<and> refs t b = {})"
  proof (cases "?ps = []")
    case True
    have "refs s b = {}" if "map_inv s"
    proof -
      have "is_live s p" if "forward_map s l = Some p" "p \<noteq> -1" for l p
        using that \<open>map_inv s\<close> fwd_key[OF inv that(1)] unfolding is_live_def map_inv_def by blast
      moreover have "\<not> is_live s p" if "p div ?P = b" for p using mem[of p] that unfolding True by simp
      ultimately show ?thesis unfolding refs_def by blast
    qed
    with True inv b show ?thesis by auto
  next
    case False
    then obtain p where p: "p \<in> set ?ps" by (metis list.set_intros(1) neq_Nil_conv)
    then obtain l where l: "forward_map s l = Some p" "p \<noteq> -1"
      using rng[of p] mem by (auto simp: is_live_def)
    then have "state s p \<noteq> Some STATE_INVALID" using core_fwd[OF inv, of l p] by auto
    moreover have "\<exists>x. state s (b * ?P) = Some x"
      using rng[of "b * ?P"] P core_wf[OF inv] by (auto simp: ssd_wf_def dom_def)
    ultimately have first: "state s (b * ?P) = Some STATE_VALID"
      using core_block[OF inv b(1,2), of p] p mem st by (metis page_state.exhaust)
    have "\<forall>p \<in> set ?ps. 0 \<le> p \<and> p < num_pages s \<and> p div ?P = b \<and> is_live s p"
      using mem rng by blast
    moreover have "distinct ?ps" by simp
    ultimately obtain t where t: "foldres copy_live s ?ps = Inr t" "moved b ?ps s t"
      using copy_all_moved[OF inv b(3)[symmetric] first] by blast
    have "refs s b \<subseteq> {l. \<exists>p \<in> set ?ps. reverse_map s p = Some l}" if "map_inv s"
    proof
      fix l assume "l \<in> refs s b"
      then obtain p where p: "forward_map s l = Some p" "p \<noteq> -1" "p div ?P = b" by (auto simp: refs_def)
      then have "reverse_map s p = Some l" using that by (auto simp: map_inv_def)
      with fwd_key[OF inv p(1)] p have "p \<in> set ?ps" unfolding mem is_live_def by blast
      then show "l \<in> {l. \<exists>p \<in> set ?ps. reverse_map s p = Some l}" using \<open>reverse_map s p = Some l\<close> by blast
    qed
    then show ?thesis using t by (auto simp: moved_def)
  qed
  then obtain t where t: "foldres copy_live s ?ps = Inr t" "core_inv t" "current_block t \<noteq> b"
      "num_blocks t = num_blocks s" "num_logical_pages t = num_logical_pages s"
      "logical_write_fail_sum s \<le> logical_write_fail_sum t"
      "logical_write_fail_sum t = logical_write_fail_sum s \<and> map_inv s \<longrightarrow>
         map_inv t \<and> contents t = contents s \<and> refs t b = {}" by blast
  have "b < num_blocks t" "b \<noteq> current_block t" using b t by auto
  from erase_core[OF t(2) b(1) this] obtain u where u: "physical_erase t b = Inr u" "core_inv u"
    "num_blocks u = num_blocks t" "num_logical_pages u = num_logical_pages t"
    "logical_write_fail_sum u = logical_write_fail_sum t"
    "map_inv t \<and> refs t b = {} \<Longrightarrow> map_inv u \<and> contents u = contents t" by metis
  have "collected s u" using t u by (auto simp: collected_def)
  with t(1) u(1) show ?thesis by blast
qed

lemma gc_fields:
  "map_inv (s\<lparr>gc_current_block := b, gc_count := n\<rparr>) = map_inv s"
  "contents (s\<lparr>gc_current_block := b, gc_count := n\<rparr>) = contents s"
  by (simp_all add: map_inv_def contents_def fun_eq_iff split: option.split)

lemma gc_blocks_collected:
  assumes "core_inv s" "\<forall>b \<in> set bs. 0 \<le> b \<and> b < num_blocks s"
  shows "\<exists>t. gc_blocks s bs = Inr t \<and> collected s t"
  using assms
proof (induction bs arbitrary: s)
  case Nil
  then show ?case by (simp add: collected_refl)
next
  case (Cons b bs)
  have IH: "\<exists>t. gc_blocks u bs = Inr t \<and> collected s t" if "collected s u" for u
  proof -
    have "core_inv u" "\<forall>b \<in> set bs. 0 \<le> b \<and> b < num_blocks u"
      using that Cons.prems(2) by (auto simp: collected_def)
    from Cons.IH[OF this] that show ?thesis by (blast intro: collected_trans)
  qed
  let ?P = "pages_per_block s"
  have b: "0 \<le> b" "b < num_blocks s" using Cons.prems(2) by auto
  have P: "0 < ?P" using Cons.prems(1) by (simp add: core_inv_def ssd_wf_def)
  note wf = core_wf[OF Cons.prems(1)]
  have "b * ?P \<in> dom (state s)"
    using block_pages[OF wf b first_page_block[OF P]] wf by (simp add: ssd_wf_def)
  then obtain st where st: "state s (b * ?P) = Some st" by blast
  show ?case
  proof (cases "b = current_block s \<or> st = STATE_ERASED")
    case True
    with IH[OF collected_refl[OF Cons.prems(1)]] st show ?thesis by auto
  next
    case False
    let ?pages = "[b * ?P..b * ?P + ?P - 1]"
    have "\<forall>p \<in> set ?pages. 0 \<le> p \<and> p < num_pages s"
    proof
      fix p assume "p \<in> set ?pages"
      then have "p div ?P = b" using in_block_iff[OF P, of b p] by auto
      from block_pages[OF wf b this] show "0 \<le> p \<and> p < num_pages s" by simp
    qed
    note lp = live_pages_eq[OF Cons.prems(1) this]
    show ?thesis
    proof (cases "int (length (filter (is_live s) ?pages)) = ?P")
      case True
      with False IH[OF collected_refl[OF Cons.prems(1)]] st lp show ?thesis by (simp add: Let_def)
    next
      case part: False
      obtain t u where tu: "foldres copy_live s (filter (is_live s) ?pages) = Inr t"
        "physical_erase t b = Inr u" "collected s u"
        using clean_block[OF Cons.prems(1) b] False st by auto
      have "core_inv u" using tu(3) by (simp add: collected_def)
      then obtain n where n: "blocks_in_use u = Inr n" using blocks_in_use_eq[OF core_wf] by blast
      have "collected s (u\<lparr>gc_current_block := b, gc_count := gc_count u + 1\<rparr>)"
      proof -
        have "core_inv (u\<lparr>gc_current_block := b, gc_count := gc_count u + 1\<rparr>)"
        proof (rule core_inv_frame[OF \<open>core_inv u\<close>])
          show "ssd_wf (u\<lparr>gc_current_block := b, gc_count := gc_count u + 1\<rparr>)"
            using core_wf[OF \<open>core_inv u\<close>] by (simp add: ssd_wf_def)
        qed (use b tu(3) in \<open>simp_all add: collected_def\<close>)
        then show ?thesis using tu(3) by (simp add: collected_def gc_fields)
      qed
      with False part st lp tu n IH[OF tu(3)] show ?thesis by (simp add: Let_def)
    qed
  qed
qed

lemma upkeep_collected:
  assumes "core_inv s" shows "\<exists>t. upkeep s = Inr t \<and> collected s t"
proof -
  obtain n where n: "blocks_in_use s = Inr n" using blocks_in_use_eq[OF core_wf[OF assms]] by blast
  have "0 \<le> gc_current_block s" "gc_current_block s < num_blocks s"
    using assms by (simp_all add: core_inv_def)
  then have "\<forall>b \<in> set ([gc_current_block s..num_blocks s - 1] @ [0..gc_current_block s - 1]).
      0 \<le> b \<and> b < num_blocks s" by auto
  from gc_blocks_collected[OF assms this] n collected_refl[OF assms] show ?thesis
    by (auto simp: upkeep_def garbage_collect_def)
qed

end
