(* ===== verification/Ssd_Store.thy ===== *)
theory Ssd_Store
  imports Ssd_Log
begin

text \<open>
  The logical interface of \<^verbatim>\<open>ssd.py\<close> as a store of pages: one contract (locale \<open>page_store\<close>), met by
  the log-structured, the ideal and the direct device, with the consequence for whole command
  sequences proved once from the contract; then the command loop of the program with the garbage
  collector, and what the collector does on a full device, where it loses data.
\<close>

section \<open>Commands and the abstract store\<close>

datatype cmd = Rd int | Wr int string | Tr int

text \<open>How the program writes commands: \<^verbatim>\<open>'r%d'\<close>, \<^verbatim>\<open>'w%d:%s'\<close>, \<^verbatim>\<open>'t%d'\<close>.\<close>

fun show_cmd :: "cmd \<Rightarrow> string" where
  "show_cmd (Rd l) = CHR ''r'' # str_int l"
| "show_cmd (Wr l d) = CHR ''w'' # str_int l @ CHR '':'' # d"
| "show_cmd (Tr l) = CHR ''t'' # str_int l"

fun cmd_ok :: "cmd \<Rightarrow> bool" where
  "cmd_ok (Wr l d) = (CHR '':'' \<notin> set d)"
| "cmd_ok _ = True"

text \<open>What a read must answer for a device of \<open>nl\<close> logical pages with contents \<open>m\<close>, the contents
  after a command that was answered \<open>v\<close>, and the agreement of a list of answers with them.\<close>

definition answer :: "int \<Rightarrow> (int \<rightharpoonup> string) \<Rightarrow> int \<Rightarrow> string" where
  "answer nl m l =
     (if l < 0 \<or> l \<ge> nl then ''fail: illegal read address''
      else case m l of None \<Rightarrow> ''fail: uninitialized read'' | Some d \<Rightarrow> d)"

fun after :: "(int \<rightharpoonup> string) \<Rightarrow> cmd \<Rightarrow> string \<Rightarrow> (int \<rightharpoonup> string)" where
  "after m (Rd l) v = m"
| "after m (Wr l d) v = (if v = ''success'' then m(l \<mapsto> d) else m)"
| "after m (Tr l) v = m(l := None)"

fun agrees :: "int \<Rightarrow> (int \<rightharpoonup> string) \<Rightarrow> cmd list \<Rightarrow> string list \<Rightarrow> bool" where
  "agrees nl m [] vs = (vs = [])"
| "agrees nl m (c # cs) vs =
     (case vs of [] \<Rightarrow> False
      | v # vs' \<Rightarrow> (case c of Rd l \<Rightarrow> v = answer nl m l | _ \<Rightarrow> True) \<and> agrees nl (after m c v) cs vs')"

fun final :: "(int \<rightharpoonup> string) \<Rightarrow> cmd list \<Rightarrow> string list \<Rightarrow> (int \<rightharpoonup> string)" where
  "final m (c # cs) (v # vs) = final (after m c v) cs vs"
| "final m _ _ = m"

section \<open>The contract of a page store\<close>

locale page_store =
  fixes nl :: int
    and inv :: "'s \<Rightarrow> bool"
    and cont :: "'s \<Rightarrow> int \<rightharpoonup> string"
    and wr :: "'s \<Rightarrow> int \<Rightarrow> string \<Rightarrow> (string \<times> 's) res"
    and rd :: "'s \<Rightarrow> int \<Rightarrow> (string \<times> 's) res"
    and tr :: "'s \<Rightarrow> int \<Rightarrow> (string \<times> 's) res"
  assumes write_law: "inv s \<Longrightarrow> \<exists>rc t. wr s l d = Inr (rc, t) \<and> inv t \<and>
      (rc = ''success'' \<and> 0 \<le> l \<and> l < nl \<and> cont t = (cont s)(l \<mapsto> d) \<or> rc \<noteq> ''success'' \<and> cont t = cont s)"
    and read_law: "inv s \<Longrightarrow> \<exists>t. rd s l = Inr (answer nl (cont s) l, t) \<and> inv t \<and> cont t = cont s"
    and trim_law: "inv s \<Longrightarrow> \<exists>rc t. tr s l = Inr (rc, t) \<and> inv t \<and> cont t = (cont s)(l := None)"
begin

definition exec :: "'s \<Rightarrow> cmd \<Rightarrow> (string \<times> 's) res" where
  "exec s c = (case c of Rd l \<Rightarrow> rd s l | Wr l d \<Rightarrow> wr s l d | Tr l \<Rightarrow> tr s l)"

lemma exec_law:
  assumes "inv s"
  shows "\<exists>v t. exec s c = Inr (v, t) \<and> inv t \<and> cont t = after (cont s) c v \<and>
     (case c of Rd l \<Rightarrow> v = answer nl (cont s) l | _ \<Rightarrow> True)"
proof (cases c)
  case (Rd l)
  with read_law[OF assms, of l] show ?thesis by (auto simp: exec_def)
next
  case (Wr l d)
  with write_law[OF assms, of l d] show ?thesis by (fastforce simp: exec_def)
next
  case (Tr l)
  with trim_law[OF assms, of l] show ?thesis by (auto simp: exec_def)
qed

end

text \<open>A store whose housekeeping between two commands keeps the contents, and its command loop.\<close>

locale kept_store = page_store +
  fixes up :: "'a \<Rightarrow> 'a res"
  assumes up_law: "inv s \<Longrightarrow> \<exists>t. up s = Inr t \<and> inv t \<and> cont t = cont s"
begin

fun loop :: "'a \<Rightarrow> cmd list \<Rightarrow> (string list \<times> 'a) res" where
  "loop s [] = Inr ([], s)"
| "loop s (c # cs) =
     bnd (exec s c) (\<lambda>(v, t). bnd (up t) (\<lambda>u. bnd (loop u cs) (\<lambda>(vs, w). Inr (v # vs, w))))"

lemma loop_agrees:
  assumes "inv s"
  shows "\<exists>vs t. loop s cs = Inr (vs, t) \<and> inv t \<and> agrees nl (cont s) cs vs \<and> cont t = final (cont s) cs vs"
  using assms
proof (induction cs arbitrary: s)
  case (Cons c cs)
  obtain v t where v: "exec s c = Inr (v, t)" "inv t" "cont t = after (cont s) c v"
    "case c of Rd l \<Rightarrow> v = answer nl (cont s) l | _ \<Rightarrow> True"
    using exec_law[OF Cons.prems, of c] by blast
  obtain u where u: "up t = Inr u" "inv u" "cont u = cont t" using up_law[OF v(2)] by blast
  obtain vs w where "loop u cs = Inr (vs, w)" "inv w" "agrees nl (cont u) cs vs" "cont w = final (cont u) cs vs"
    using Cons.IH[OF u(2)] by blast
  with v u show ?case by auto
qed simp

end

section \<open>The log-structured device\<close>

lemma counter_frame:
  "core_inv (s\<lparr>logical_read_sum := n\<rparr>) = core_inv s" "map_inv (s\<lparr>logical_read_sum := n\<rparr>) = map_inv s"
  "contents (s\<lparr>logical_read_sum := n\<rparr>) = contents s"
  "core_inv (s\<lparr>logical_read_fail_sum := n\<rparr>) = core_inv s" "map_inv (s\<lparr>logical_read_fail_sum := n\<rparr>) = map_inv s"
  "contents (s\<lparr>logical_read_fail_sum := n\<rparr>) = contents s"
  "core_inv (s\<lparr>logical_trim_sum := n\<rparr>) = core_inv s" "map_inv (s\<lparr>logical_trim_sum := n\<rparr>) = map_inv s"
  "contents (s\<lparr>logical_trim_sum := n\<rparr>) = contents s"
  "core_inv (s\<lparr>logical_trim_fail_sum := n\<rparr>) = core_inv s" "map_inv (s\<lparr>logical_trim_fail_sum := n\<rparr>) = map_inv s"
  "contents (s\<lparr>logical_trim_fail_sum := n\<rparr>) = contents s"
  by (simp_all add: core_inv_def ssd_wf_def map_inv_def contents_def fun_eq_iff split: option.split)

lemma read_count_frame:
  "map_inv (s\<lparr>physical_read_count := c, physical_read_sum := n\<rparr>) = map_inv s"
  "contents (s\<lparr>physical_read_count := c, physical_read_sum := n\<rparr>) = contents s"
  by (simp_all add: map_inv_def contents_def fun_eq_iff split: option.split)

lemma forward_dom: "ssd_wf s \<Longrightarrow> 0 \<le> l \<Longrightarrow> l < num_logical_pages s \<Longrightarrow> \<exists>p. forward_map s l = Some p"
  by (auto simp: ssd_wf_def dom_def set_eq_iff)

lemma contents_range: "ssd_wf s \<Longrightarrow> \<not> (0 \<le> l \<and> l < num_logical_pages s) \<Longrightarrow> contents s l = None"
  by (auto simp: ssd_wf_def dom_def set_eq_iff contents_def split: option.split)

text \<open>A read on any device whose mapped pages exist: it answers from the contents and changes
  counters only.\<close>

lemma read_any:
  assumes wf: "ssd_wf s"
    and fwd: "\<And>l p. forward_map s l = Some p \<Longrightarrow> p = -1 \<or> 0 \<le> p \<and> p < num_pages s"
  obtains t c n m k where "ssd_read s l = Inr (answer (num_logical_pages s) (contents s) l, t)"
    "t = s\<lparr>logical_read_sum := n, logical_read_fail_sum := m, physical_read_count := c, physical_read_sum := k\<rparr>"
    "dom c = dom (physical_read_count s)"
proof -
  let ?s = "s\<lparr>logical_read_sum := logical_read_sum s + 1\<rparr>"
  show thesis
  proof (cases "0 \<le> l \<and> l < num_logical_pages s")
    case False
    then show thesis
      by (intro that[where t = "?s\<lparr>logical_read_fail_sum := logical_read_fail_sum s + 1\<rparr>"
            and n = "logical_read_sum s + 1" and m = "logical_read_fail_sum s + 1"
            and c = "physical_read_count s" and k = "physical_read_sum s"])
        (auto simp: ssd_read_def answer_def)
  next
    case True
    then obtain p where p: "forward_map s l = Some p" using forward_dom[OF wf] by blast
    show thesis
    proof (cases "p = -1")
      case neg: True
      with p True show thesis
        by (intro that[where t = "?s\<lparr>logical_read_fail_sum := logical_read_fail_sum s + 1\<rparr>"
              and n = "logical_read_sum s + 1" and m = "logical_read_fail_sum s + 1"
              and c = "physical_read_count s" and k = "physical_read_sum s"])
          (auto simp: ssd_read_def answer_def contents_def)
    next
      case pos: False
      then have rng: "0 \<le> p" "p < num_pages ?s" using fwd[OF p] by auto
      have wf': "ssd_wf ?s" using wf by (simp add: ssd_wf_def)
      obtain c where c: "physical_read ?s p = Inr (the (data ?s p), ?s\<lparr>physical_read_count := c,
          physical_read_sum := physical_read_sum ?s + 1\<rparr>)" "dom c = dom (physical_read_count ?s)"
        by (rule physical_read_eq[OF wf' rng])
      have "p \<in> dom (data s)" using wf rng by (simp add: ssd_wf_def)
      then obtain d where "data s p = Some d" by blast
      with c p True pos show thesis
        by (intro that[where t = "?s\<lparr>physical_read_count := c, physical_read_sum := physical_read_sum s + 1\<rparr>"
              and n = "logical_read_sum s + 1" and m = "logical_read_fail_sum s"
              and c = c and k = "physical_read_sum s + 1"])
          (auto simp: ssd_read_def read_direct_def answer_def contents_def)
    qed
  qed
qed

lemma core_fwd_range:
  assumes "core_inv s" "forward_map s l = Some p" shows "p = -1 \<or> 0 \<le> p \<and> p < num_pages s"
proof (cases "p = -1")
  case False
  then have "p \<in> dom (state s)" using core_fwd[OF assms] by auto
  then show ?thesis using core_wf[OF assms(1)] by (simp add: ssd_wf_def)
qed simp

lemma core_read:
  assumes inv: "core_inv s"
  obtains t where "ssd_read s l = Inr (answer (num_logical_pages s) (contents s) l, t)" "core_inv t"
    "map_inv t = map_inv s" "contents t = contents s" "num_logical_pages t = num_logical_pages s"
    "logical_write_fail_sum t = logical_write_fail_sum s"
proof (rule read_any[where l = l, OF core_wf[OF inv] core_fwd_range[OF inv]])
  fix t c n m k
  assume r: "ssd_read s l = Inr (answer (num_logical_pages s) (contents s) l, t)"
    and t: "t = s\<lparr>logical_read_sum := n, logical_read_fail_sum := m, physical_read_count := c, physical_read_sum := k\<rparr>"
    and c: "dom c = dom (physical_read_count s)"
  let ?u = "s\<lparr>logical_read_sum := n, logical_read_fail_sum := m\<rparr>"
  have "core_inv ?u" using inv by (simp add: counter_frame)
  then have "core_inv t" unfolding t by (rule core_read_count) (simp add: c)
  then show thesis using that r by (simp add: t counter_frame read_count_frame)
qed

lemma core_trim:
  assumes inv: "core_inv s"
  obtains rc t where "ssd_trim s l = Inr (rc, t)" "core_inv t" "map_inv s \<Longrightarrow> map_inv t"
    "contents t = (contents s)(l := None)" "num_logical_pages t = num_logical_pages s"
    "logical_write_fail_sum t = logical_write_fail_sum s"
proof -
  let ?s = "s\<lparr>logical_trim_sum := logical_trim_sum s + 1\<rparr>"
  let ?f = "?s\<lparr>logical_trim_fail_sum := logical_trim_fail_sum s + 1\<rparr>"
  have f: "core_inv ?f" "map_inv ?f = map_inv s" "contents ?f = contents s"
    using inv by (simp_all add: counter_frame)
  show thesis
  proof (cases "0 \<le> l \<and> l < num_logical_pages s")
    case False
    then have "(contents s)(l := None) = contents s"
      using contents_range[OF core_wf[OF inv]] by (auto simp: fun_eq_iff)
    with False f show thesis by (intro that[of "''fail: illegal trim address''" ?f]) (auto simp: ssd_trim_def)
  next
    case True
    then obtain p where p: "forward_map s l = Some p" using forward_dom[OF core_wf[OF inv]] by blast
    show thesis
    proof (cases "p = -1")
      case neg: True
      then have "(contents s)(l := None) = contents s" using p by (auto simp: fun_eq_iff contents_def)
      with True neg p f show thesis
        by (intro that[of "''fail: uninitialized trim''" ?f]) (auto simp: ssd_trim_def)
    next
      case pos: False
      let ?t = "?s\<lparr>forward_map := (forward_map s)(l \<mapsto> -1)\<rparr>"
      have wf: "ssd_wf ?t" using core_wf[OF inv] p by (auto simp: ssd_wf_def insert_absorb)
      have "core_inv ?t"
      proof (rule core_invI[OF wf])
        show "q = -1 \<or> state ?t q \<in> {Some STATE_VALID, Some STATE_ERASED}" if "forward_map ?t k = Some q" for k q
          using that core_fwd[OF inv, of k q] by (auto split: if_splits)
        show "current_page ?t = -1 \<or>
          current_page ?t div pages_per_block ?t = current_block ?t \<and>
          (current_page ?t = current_block ?t * pages_per_block ?t \<or>
             state ?t (current_block ?t * pages_per_block ?t) = Some STATE_VALID) \<and>
          (\<forall>p. current_page ?t \<le> p \<and> p div pages_per_block ?t = current_block ?t \<longrightarrow>
             state ?t p = Some STATE_ERASED)"
          using inv unfolding core_inv_def by simp
        show "state ?t q = state ?t (b * pages_per_block ?t)"
          if "0 \<le> b" "b < num_blocks ?t" "q div pages_per_block ?t = b"
            "state ?t (b * pages_per_block ?t) \<noteq> Some STATE_VALID" for b q
          using core_block[OF inv, of b q] that by simp
        show "k = -1 \<or> 0 \<le> k \<and> k < num_logical_pages ?t" if "reverse_map ?t q = Some k" for q k
          using core_rev[OF inv, of q k] that by simp
      qed (use inv in \<open>simp_all add: core_inv_def\<close>)
      moreover have "map_inv ?t" if "map_inv s" using that by (simp add: map_inv_def)
      moreover have "contents ?t = (contents s)(l := None)"
        by (auto simp: fun_eq_iff contents_def split: option.split)
      ultimately show thesis using True pos p
        by (intro that[of "''success''" ?t]) (auto simp: ssd_trim_def)
    qed
  qed
qed

text \<open>A write to any address: outside the logical range it only counts a failure.\<close>

lemma core_write:
  assumes inv: "core_inv s"
  obtains rc t where "ssd_write s l d = Inr (rc, t)" "core_inv t" "num_logical_pages t = num_logical_pages s"
    "rc = ''success'' \<and> 0 \<le> l \<and> l < num_logical_pages s \<and> logical_write_fail_sum t = logical_write_fail_sum s \<and>
       (map_inv s \<longrightarrow> map_inv t \<and> contents t = (contents s)(l \<mapsto> d)) \<or>
     rc \<noteq> ''success'' \<and> logical_write_fail_sum t = logical_write_fail_sum s + 1 \<and>
       map_inv t = map_inv s \<and> contents t = contents s"
proof (cases "0 \<le> l \<and> l < num_logical_pages s")
  case False
  then show thesis using inv
    by (intro that[of "''fail: illegal write address''" "s\<lparr>logical_write_sum := logical_write_sum s + 1,
          logical_write_fail_sum := logical_write_fail_sum s + 1\<rparr>"])
      (auto simp: ssd_write_def core_inv_counters)
next
  case True
  then have l: "0 \<le> l" "l < num_logical_pages s" by auto
  show thesis
  proof (rule log_write_cases[OF inv l, of d])
    fix t assume "ssd_write s l d = Inr (''failure: device full'', t)" "core_inv t"
      "t = s\<lparr>logical_write_sum := logical_write_sum s + 1,
            logical_write_fail_sum := logical_write_fail_sum s + 1\<rparr>"
    then show thesis by (intro that[of "''failure: device full''" t]) (auto simp: core_inv_counters)
  next
    fix p t assume "ssd_write s l d = Inr (''success'', t)" "core_inv t" "logged s l d p t"
    then show thesis using logged_map_inv[of s l d p t] l
      by (intro that[of "''success''" t]) (auto simp: logged_def)
  qed
qed

interpretation log_store: page_store nl "\<lambda>s. log_inv s \<and> num_logical_pages s = nl" contents
  ssd_write ssd_read ssd_trim
proof
  fix s l d
  assume a: "log_inv s \<and> num_logical_pages s = nl"
  then have inv: "core_inv s" "map_inv s" by (auto simp: log_inv_def)
  show "\<exists>rc t. ssd_write s l d = Inr (rc, t) \<and> (log_inv t \<and> num_logical_pages t = nl) \<and>
      (rc = ''success'' \<and> 0 \<le> l \<and> l < nl \<and> contents t = (contents s)(l \<mapsto> d) \<or>
       rc \<noteq> ''success'' \<and> contents t = contents s)"
    by (rule core_write[OF inv(1), of l d]) (use a inv in \<open>auto simp: log_inv_def\<close>)
  show "\<exists>t. ssd_read s l = Inr (answer nl (contents s) l, t) \<and> (log_inv t \<and> num_logical_pages t = nl) \<and>
      contents t = contents s"
    by (rule core_read[OF inv(1), of l]) (use a inv in \<open>auto simp: log_inv_def\<close>)
  show "\<exists>rc t. ssd_trim s l = Inr (rc, t) \<and> (log_inv t \<and> num_logical_pages t = nl) \<and>
      contents t = (contents s)(l := None)"
    by (rule core_trim[OF inv(1), of l]) (use a inv in \<open>auto simp: log_inv_def\<close>)
qed

section \<open>The direct and the ideal device\<close>

text \<open>On these devices a logical page is stored at the physical page of the same number.\<close>

definition flat_inv :: "ssd_kind \<Rightarrow> ssd \<Rightarrow> bool" where
  "flat_inv k s \<longleftrightarrow> ssd_wf s \<and> ssd_type s = k \<and> num_logical_pages s \<le> num_pages s \<and>
     0 < gc_high_water_mark s \<and> (\<forall>b n. gc_used_blocks s b = Some n \<longrightarrow> n = 0) \<and>
     (\<forall>l p. forward_map s l = Some p \<longrightarrow> p = -1 \<or> p = l \<and> state s l = Some STATE_VALID)"

text \<open>\<open>stored s l d t\<close>: \<open>t\<close> is \<open>s\<close> with \<open>d\<close> in page \<open>l\<close>; the data of the other valid pages are kept.\<close>

definition stored :: "ssd \<Rightarrow> int \<Rightarrow> string \<Rightarrow> ssd \<Rightarrow> bool" where
  "stored s l d t \<longleftrightarrow> ssd_wf t \<and> ssd_type t = ssd_type s \<and> num_logical_pages t = num_logical_pages s \<and>
     num_pages t = num_pages s \<and> forward_map t = (forward_map s)(l \<mapsto> l) \<and>
     gc_high_water_mark t = gc_high_water_mark s \<and>
     (\<forall>b. gc_used_blocks t b = gc_used_blocks s b \<or> gc_used_blocks t b = Some 0) \<and>
     state t l = Some STATE_VALID \<and> data t l = Some d \<and>
     (\<forall>q. q \<noteq> l \<and> state s q = Some STATE_VALID \<longrightarrow> state t q = Some STATE_VALID \<and> data t q = data s q)"

lemma stored_flat:
  assumes "flat_inv k s" "stored s l d t" "0 \<le> l"
  shows "flat_inv k t" "contents t = (contents s)(l \<mapsto> d)"
proof -
  have fwd: "p = -1 \<or> p = m \<and> state s m = Some STATE_VALID" if "forward_map s m = Some p" for m p
    using assms(1) that by (auto simp: flat_inv_def)
  have st: "forward_map t = (forward_map s)(l \<mapsto> l)" "state t l = Some STATE_VALID" "data t l = Some d"
    "\<And>q. q \<noteq> l \<Longrightarrow> state s q = Some STATE_VALID \<Longrightarrow> state t q = Some STATE_VALID \<and> data t q = data s q"
    using assms(2) by (auto simp: stored_def)
  have "p = -1 \<or> p = m \<and> state t m = Some STATE_VALID" if "forward_map t m = Some p" for m p
    using that st fwd[of m p] by (cases "m = l") auto
  moreover have "n = 0" if "gc_used_blocks t b = Some n" for b n
    using assms(1,2) that unfolding flat_inv_def stored_def by (metis option.inject)
  ultimately show "flat_inv k t" using assms(1,2) unfolding flat_inv_def stored_def by simp
  have "contents t m = ((contents s)(l \<mapsto> d)) m" for m
    using st fwd[of m] assms(3) by (cases "m = l") (auto simp: contents_def split: option.split)
  then show "contents t = (contents s)(l \<mapsto> d)" by (rule ext)
qed

lemma wf_program:
  assumes "ssd_wf s" "0 \<le> p" "p < num_pages s" "dom c = dom (physical_write_count s)"
  shows "ssd_wf (s\<lparr>data := (data s)(p \<mapsto> d), state := (state s)(p \<mapsto> st),
      physical_write_count := c, physical_write_sum := n\<rparr>)"
  using assms by (simp add: ssd_wf_def insert_absorb)

lemma wf_identity_map:
  assumes "ssd_wf s" "0 \<le> l" "l < num_pages s" "l < num_logical_pages s"
  shows "ssd_wf (s\<lparr>forward_map := (forward_map s)(l \<mapsto> l), reverse_map := (reverse_map s)(l \<mapsto> l)\<rparr>)"
  using assms by (simp add: ssd_wf_def insert_absorb)

lemma write_ideal_stored:
  assumes wf: "ssd_wf s" and l: "0 \<le> l" "l < num_logical_pages s" "l < num_pages s"
  shows "\<exists>t. write_ideal s l d = Inr (''success'', t) \<and> stored s l d t"
proof -
  obtain c where pr: "physical_program s l d = Inr (s\<lparr>data := (data s)(l \<mapsto> d),
      state := (state s)(l \<mapsto> STATE_VALID), physical_write_count := c,
      physical_write_sum := physical_write_sum s + 1\<rparr>)" and c: "dom c = dom (physical_write_count s)"
    by (rule physical_program_eq[OF wf l(1,3)])
  let ?s = "s\<lparr>data := (data s)(l \<mapsto> d), state := (state s)(l \<mapsto> STATE_VALID),
      physical_write_count := c, physical_write_sum := physical_write_sum s + 1\<rparr>"
  let ?t = "?s\<lparr>forward_map := (forward_map ?s)(l \<mapsto> l), reverse_map := (reverse_map ?s)(l \<mapsto> l)\<rparr>"
  have "ssd_wf ?t" using wf_program[OF wf l(1,3) c] l by (intro wf_identity_map) simp_all
  then have "stored s l d ?t" by (simp add: stored_def)
  with pr show ?thesis by (simp add: write_ideal_def)
qed

lemma old_pages_eq:
  assumes wf: "ssd_wf s" and pages: "\<forall>p \<in> set pages. 0 \<le> p \<and> p < num_pages s"
  shows "\<exists>c n. old_pages s pages =
      Inr (map (\<lambda>p. (p, the (data s p))) (filter (\<lambda>p. state s p = Some STATE_VALID) pages),
           s\<lparr>physical_read_count := c, physical_read_sum := n\<rparr>) \<and> dom c = dom (physical_read_count s)"
proof -
  let ?f = "\<lambda>(old_list, s) old_page.
       bnd (dict_get (state s) old_page) (\<lambda>st.
         if st = STATE_VALID
         then bnd (physical_read s old_page) (\<lambda>(old_data, s'). Inr (old_list @ [(old_page, old_data)], s'))
         else Inr (old_list, s))"
  have "\<exists>c' n'. foldres ?f (acc, s\<lparr>physical_read_count := c, physical_read_sum := n\<rparr>) pages =
      Inr (acc @ map (\<lambda>p. (p, the (data s p))) (filter (\<lambda>p. state s p = Some STATE_VALID) pages),
           s\<lparr>physical_read_count := c', physical_read_sum := n'\<rparr>) \<and> dom c' = dom (physical_read_count s)"
    if "dom c = dom (physical_read_count s)" for acc c n
    using pages that
  proof (induction pages arbitrary: acc c n)
    case Nil
    then show ?case by (intro exI[of _ c] exI[of _ n]) simp
  next
    case (Cons p pages)
    let ?s = "s\<lparr>physical_read_count := c, physical_read_sum := n\<rparr>"
    have wf': "ssd_wf ?s" using wf Cons.prems(2) by (simp add: ssd_wf_def)
    have p: "0 \<le> p" "p < num_pages ?s" using Cons.prems(1) by auto
    have "p \<in> dom (state s)" using wf p by (simp add: ssd_wf_def)
    then obtain st where st: "state s p = Some st" by blast
    show ?case
    proof (cases "st = STATE_VALID")
      case True
      obtain c' where c': "physical_read ?s p = Inr (the (data ?s p), ?s\<lparr>physical_read_count := c',
          physical_read_sum := physical_read_sum ?s + 1\<rparr>)" "dom c' = dom (physical_read_count ?s)"
        by (rule physical_read_eq[OF wf' p])
      have "dom c' = dom (physical_read_count s)" using c'(2) Cons.prems(2) by simp
      from Cons.IH[OF _ this, of "acc @ [(p, the (data s p))]" "n + 1"] Cons.prems(1)
      obtain c2 n2 where ih: "foldres ?f (acc @ [(p, the (data s p))],
            s\<lparr>physical_read_count := c', physical_read_sum := n + 1\<rparr>) pages =
          Inr ((acc @ [(p, the (data s p))]) @ map (\<lambda>p. (p, the (data s p))) (filter (\<lambda>p. state s p = Some STATE_VALID) pages),
           s\<lparr>physical_read_count := c2, physical_read_sum := n2\<rparr>)" "dom c2 = dom (physical_read_count s)"
        by auto
      have "?f (acc, ?s) p = Inr (acc @ [(p, the (data s p))],
          s\<lparr>physical_read_count := c', physical_read_sum := n + 1\<rparr>)"
        using c'(1) True st by simp
      with ih True st show ?thesis by (intro exI[of _ c2] exI[of _ n2]) simp
    next
      case False
      have "?f (acc, ?s) p = Inr (acc, ?s)" using False st by simp
      with Cons.IH[OF _ Cons.prems(2), of acc n] Cons.prems(1) st False show ?thesis by simp
    qed
  qed
  from this[of "physical_read_count s" "[]" "physical_read_sum s"] show ?thesis
    by (simp add: old_pages_def)
qed

lemma program_all_eq:
  assumes "ssd_wf s" "\<forall>e \<in> set xs. 0 \<le> fst e \<and> fst e < num_pages s" "distinct (map fst xs)"
  shows "\<exists>c n. foldres (\<lambda>s (old_page, old_data).
       if old_page = a then Inr s else physical_program s old_page old_data) s xs =
     Inr (s\<lparr>data := (\<lambda>q. if q \<noteq> a \<and> q \<in> fst ` set xs then map_of xs q else data s q),
            state := (\<lambda>q. if q \<noteq> a \<and> q \<in> fst ` set xs then Some STATE_VALID else state s q),
            physical_write_count := c, physical_write_sum := n\<rparr>) \<and> dom c = dom (physical_write_count s)"
  using assms
proof (induction xs arbitrary: s)
  case Nil
  then show ?case by (intro exI[of _ "physical_write_count s"] exI[of _ "physical_write_sum s"]) simp
next
  case (Cons e xs)
  obtain p d where e: "e = (p, d)" by (cases e)
  have fresh: "p \<notin> fst ` set xs" using Cons.prems(3) e by simp
  show ?case
  proof (cases "p = a")
    case True
    obtain c n where "foldres (\<lambda>s (old_page, old_data).
         if old_page = a then Inr s else physical_program s old_page old_data) s xs =
       Inr (s\<lparr>data := (\<lambda>q. if q \<noteq> a \<and> q \<in> fst ` set xs then map_of xs q else data s q),
            state := (\<lambda>q. if q \<noteq> a \<and> q \<in> fst ` set xs then Some STATE_VALID else state s q),
            physical_write_count := c, physical_write_sum := n\<rparr>)" "dom c = dom (physical_write_count s)"
      using Cons.IH[OF Cons.prems(1)] Cons.prems(2,3) by auto
    moreover have "(\<lambda>q. if q \<noteq> a \<and> q \<in> fst ` set (e # xs) then map_of (e # xs) q else data s q) =
        (\<lambda>q. if q \<noteq> a \<and> q \<in> fst ` set xs then map_of xs q else data s q)"
      "(\<lambda>q. if q \<noteq> a \<and> q \<in> fst ` set (e # xs) then Some STATE_VALID else state s q) =
        (\<lambda>q. if q \<noteq> a \<and> q \<in> fst ` set xs then Some STATE_VALID else state s q)"
      using e True by (auto simp: fun_eq_iff)
    ultimately show ?thesis using e True by (intro exI[of _ c] exI[of _ n]) simp
  next
    case False
    have p: "0 \<le> p" "p < num_pages s" using Cons.prems(2) e by auto
    obtain c where pr: "physical_program s p d = Inr (s\<lparr>data := (data s)(p \<mapsto> d),
      state := (state s)(p \<mapsto> STATE_VALID), physical_write_count := c,
      physical_write_sum := physical_write_sum s + 1\<rparr>)" "dom c = dom (physical_write_count s)"
      by (rule physical_program_eq[OF Cons.prems(1) p])
    let ?s = "s\<lparr>data := (data s)(p \<mapsto> d), state := (state s)(p \<mapsto> STATE_VALID),
      physical_write_count := c, physical_write_sum := physical_write_sum s + 1\<rparr>"
    have wf': "ssd_wf ?s" using Cons.prems(1) pr(2) p by (auto simp: ssd_wf_def insert_absorb)
    obtain c' n' where ih: "foldres (\<lambda>s (old_page, old_data).
         if old_page = a then Inr s else physical_program s old_page old_data) ?s xs =
       Inr (?s\<lparr>data := (\<lambda>q. if q \<noteq> a \<and> q \<in> fst ` set xs then map_of xs q else data ?s q),
            state := (\<lambda>q. if q \<noteq> a \<and> q \<in> fst ` set xs then Some STATE_VALID else state ?s q),
            physical_write_count := c', physical_write_sum := n'\<rparr>)" "dom c' = dom (physical_write_count ?s)"
      using Cons.IH[OF wf'] Cons.prems(2,3) by auto
    have "(\<lambda>q. if q \<noteq> a \<and> q \<in> fst ` set (e # xs) then map_of (e # xs) q else data s q) =
        (\<lambda>q. if q \<noteq> a \<and> q \<in> fst ` set xs then map_of xs q else data ?s q)"
      "(\<lambda>q. if q \<noteq> a \<and> q \<in> fst ` set (e # xs) then Some STATE_VALID else state s q) =
        (\<lambda>q. if q \<noteq> a \<and> q \<in> fst ` set xs then Some STATE_VALID else state ?s q)"
      using e False fresh by (auto simp: fun_eq_iff)
    then show ?thesis using e False pr ih by (intro exI[of _ c'] exI[of _ n']) simp
  qed
qed

text \<open>Overwriting a page of the direct device: the block is read, erased and written back. The
  first lemma is the erasure followed by the rewriting of the old valid pages \<open>xs\<close>.\<close>

lemma rewrite_block:
  assumes wf: "ssd_wf s" and b: "0 \<le> b" "b < num_blocks s"
    and xs: "\<And>q. q \<in> fst ` set xs \<longleftrightarrow> q div pages_per_block s = b \<and> state s q = Some STATE_VALID"
      "\<And>q. q \<in> fst ` set xs \<Longrightarrow> map_of xs q = data s q" "distinct (map fst xs)"
  obtains t u where "physical_erase s b = Inr t"
    "foldres (\<lambda>s (old_page, old_data).
       if old_page = a then Inr s else physical_program s old_page old_data) t xs = Inr u"
    "ssd_wf u" "ssd_type u = ssd_type s" "num_logical_pages u = num_logical_pages s" "num_pages u = num_pages s"
    "forward_map u = forward_map s" "gc_high_water_mark u = gc_high_water_mark s"
    "\<And>j. gc_used_blocks u j = gc_used_blocks s j \<or> gc_used_blocks u j = Some 0"
    "\<And>q. q \<noteq> a \<Longrightarrow> state s q = Some STATE_VALID \<Longrightarrow> state u q = Some STATE_VALID \<and> data u q = data s q"
proof -
  let ?P = "pages_per_block s"
  obtain c where er: "physical_erase s b = Inr (s\<lparr>
      data := (\<lambda>p. if p div ?P = b then Some '' '' else data s p),
      state := (\<lambda>p. if p div ?P = b then Some STATE_ERASED else state s p),
      gc_used_blocks := (gc_used_blocks s)(b \<mapsto> 0), physical_erase_count := c,
      physical_erase_sum := physical_erase_sum s + 1\<rparr>)" and c: "dom c = dom (physical_erase_count s)"
    by (rule physical_erase_eq[OF wf b])
  define t where "t = s\<lparr>
      data := (\<lambda>p. if p div ?P = b then Some '' '' else data s p),
      state := (\<lambda>p. if p div ?P = b then Some STATE_ERASED else state s p),
      gc_used_blocks := (gc_used_blocks s)(b \<mapsto> 0), physical_erase_count := c,
      physical_erase_sum := physical_erase_sum s + 1\<rparr>"
  note pages = block_pages[OF wf b]
  have "dom (data t) = {0..<num_pages s}" "dom (state t) = {0..<num_pages s}"
    using wf by (simp_all add: t_def dom_block_upd[OF wf b] ssd_wf_def)
  then have wft: "ssd_wf t" using wf c b unfolding ssd_wf_def by (simp add: t_def insert_absorb)
  have "\<forall>e \<in> set xs. 0 \<le> fst e \<and> fst e < num_pages t"
  proof
    fix e assume "e \<in> set xs"
    then have "fst e div ?P = b" using xs(1)[of "fst e"] by blast
    from pages[OF this] show "0 \<le> fst e \<and> fst e < num_pages t" by (simp add: t_def)
  qed
  from program_all_eq[OF wft this xs(3), of a] obtain c' n' where
    pa: "foldres (\<lambda>s (old_page, old_data).
       if old_page = a then Inr s else physical_program s old_page old_data) t xs =
     Inr (t\<lparr>data := (\<lambda>q. if q \<noteq> a \<and> q \<in> fst ` set xs then map_of xs q else data t q),
            state := (\<lambda>q. if q \<noteq> a \<and> q \<in> fst ` set xs then Some STATE_VALID else state t q),
            physical_write_count := c', physical_write_sum := n'\<rparr>)" and c': "dom c' = dom (physical_write_count t)"
    by blast
  define u where "u = t\<lparr>data := (\<lambda>q. if q \<noteq> a \<and> q \<in> fst ` set xs then map_of xs q else data t q),
            state := (\<lambda>q. if q \<noteq> a \<and> q \<in> fst ` set xs then Some STATE_VALID else state t q),
            physical_write_count := c', physical_write_sum := n'\<rparr>"
  have "q \<in> dom (data t)" "q \<in> dom (state t)" "q \<in> dom (map_of xs)" if "q \<in> fst ` set xs" for q
    using that xs(1)[of q] by (auto simp: t_def dom_map_of_conv_image_fst)
  then have "dom (data u) = dom (data t)" "dom (state u) = dom (state t)"
    unfolding u_def by (auto simp: dom_def)
  then have wfu: "ssd_wf u" using wft c' unfolding ssd_wf_def by (simp add: u_def)
  have keep: "state u q = Some STATE_VALID \<and> data u q = data s q" if "q \<noteq> a" "state s q = Some STATE_VALID" for q
    using that xs(1)[of q] xs(2)[of q] by (cases "q div ?P = b") (simp_all add: u_def t_def)
  show thesis
    by (rule that[of t u]) (use er pa wfu keep in \<open>simp_all flip: t_def u_def\<close>, simp_all add: t_def u_def)
qed

lemma write_direct_stored:
  assumes wf: "ssd_wf s" and l: "0 \<le> l" "l < num_logical_pages s" "l < num_pages s"
  shows "\<exists>t. write_direct s l d = Inr (''success'', t) \<and> stored s l d t"
proof -
  let ?P = "pages_per_block s" and ?b = "l div pages_per_block s"
  let ?pages = "[?b * ?P..?b * ?P + ?P - 1]"
  let ?xs = "map (\<lambda>p. (p, the (data s p))) (filter (\<lambda>p. state s p = Some STATE_VALID) ?pages)"
  have P: "0 < ?P" using wf by (simp add: ssd_wf_def)
  have b: "0 \<le> ?b" "?b < num_blocks s" using page_block[OF wf l(1,3)] by auto
  have mem: "p \<in> set ?pages \<longleftrightarrow> p div ?P = ?b" for p using in_block_iff[OF P, of ?b p] by auto
  have pages: "\<forall>p \<in> set ?pages. 0 \<le> p \<and> p < num_pages s"
    using mem block_pages[OF wf b] by blast
  obtain c n where rd: "old_pages s ?pages = Inr (?xs, s\<lparr>physical_read_count := c, physical_read_sum := n\<rparr>)"
    and c: "dom c = dom (physical_read_count s)" using old_pages_eq[OF wf pages] by blast
  define s1 where "s1 = s\<lparr>physical_read_count := c, physical_read_sum := n\<rparr>"
  have wf1: "ssd_wf s1" using wf c unfolding ssd_wf_def by (simp add: s1_def)
  have fr1: "pages_per_block s1 = ?P" "num_blocks s1 = num_blocks s" "state s1 = state s" "data s1 = data s"
    by (simp_all add: s1_def)
  have old: "q \<in> fst ` set ?xs \<longleftrightarrow> q div pages_per_block s1 = ?b \<and> state s1 q = Some STATE_VALID" for q
    using mem[of q] unfolding fr1 by (auto simp: image_iff)
  have dist: "distinct (map fst ?xs)" by (simp add: comp_def)
  have dat: "map_of ?xs q = data s1 q" if "q \<in> fst ` set ?xs" for q
  proof -
    have "q \<in> set ?pages" using that by auto
    then have "0 \<le> q \<and> q < num_pages s" using pages by blast
    then have "q \<in> dom (data s)" using wf by (simp add: ssd_wf_def)
    then obtain v where "data s q = Some v" by blast
    moreover have "(q, the (data s q)) \<in> set ?xs" using that by auto
    ultimately have "map_of ?xs q = Some v" by (intro map_of_is_SomeI dist) simp
    then show ?thesis using \<open>data s q = Some v\<close> by (simp add: fr1)
  qed
  have b1: "?b < num_blocks s1" using b fr1 by simp
  obtain t u where tu: "physical_erase s1 ?b = Inr t" "foldres (\<lambda>s (old_page, old_data).
       if old_page = l then Inr s else physical_program s old_page old_data) t ?xs = Inr u"
    "ssd_wf u" "ssd_type u = ssd_type s1" "num_logical_pages u = num_logical_pages s1" "num_pages u = num_pages s1"
    "forward_map u = forward_map s1" "gc_high_water_mark u = gc_high_water_mark s1"
    "\<And>j. gc_used_blocks u j = gc_used_blocks s1 j \<or> gc_used_blocks u j = Some 0"
    "\<And>q. q \<noteq> l \<Longrightarrow> state s1 q = Some STATE_VALID \<Longrightarrow> state u q = Some STATE_VALID \<and> data u q = data s1 q"
    by (rule rewrite_block[OF wf1 b(1) b1 old dat dist, where a = l]) (assumption | rule that)+
  have lu: "l < num_logical_pages u" "l < num_pages u" using l tu by (simp_all add: s1_def)
  obtain v where v: "write_ideal u l d = Inr (''success'', v)" "stored u l d v"
    using write_ideal_stored[OF tu(3) l(1) lu] by blast
  moreover have "gc_used_blocks v j = gc_used_blocks s j \<or> gc_used_blocks v j = Some 0" for j
  proof -
    have "gc_used_blocks v j = gc_used_blocks u j \<or> gc_used_blocks v j = Some 0"
      using v(2) unfolding stored_def by blast
    then show ?thesis using tu(9)[of j] by (auto simp: s1_def)
  qed
  ultimately have "stored s l d v" using tu(4-8,10) unfolding stored_def fr1 by (simp add: s1_def)
  moreover have "write_direct s l d = Inr (''success'', v)"
    using P rd tu(1,2) v(1)
    by (simp add: write_direct_def write_ideal_def block_of_def Let_def flip: s1_def)
  ultimately show ?thesis by blast
qed

text \<open>The contract of a page store for the two devices.\<close>

lemma wf_counters:
  "ssd_wf (s\<lparr>logical_write_sum := a\<rparr>) = ssd_wf s" "ssd_wf (s\<lparr>logical_write_fail_sum := a\<rparr>) = ssd_wf s"
  "ssd_wf (s\<lparr>logical_trim_sum := a\<rparr>) = ssd_wf s" "ssd_wf (s\<lparr>logical_trim_fail_sum := a\<rparr>) = ssd_wf s"
  by (simp_all add: ssd_wf_def)

lemma flat_fwd:
  assumes "flat_inv k s" "forward_map s l = Some p" shows "p = -1 \<or> 0 \<le> p \<and> p < num_pages s"
proof -
  have "l \<in> dom (forward_map s)" using assms(2) by blast
  then have "0 \<le> l" "l < num_pages s" using assms(1) by (auto simp: flat_inv_def ssd_wf_def)
  moreover have "p = -1 \<or> p = l" using assms unfolding flat_inv_def by blast
  ultimately show ?thesis by auto
qed

lemma flat_write:
  assumes inv: "flat_inv k s" "k \<noteq> TYPE_LOGGING"
  shows "\<exists>rc t. ssd_write s l d = Inr (rc, t) \<and> flat_inv k t \<and> num_logical_pages t = num_logical_pages s \<and>
     (rc = ''success'' \<and> 0 \<le> l \<and> l < num_logical_pages s \<and> contents t = (contents s)(l \<mapsto> d) \<or>
      rc \<noteq> ''success'' \<and> contents t = contents s)"
proof (cases "0 \<le> l \<and> l < num_logical_pages s")
  case False
  let ?t = "s\<lparr>logical_write_sum := logical_write_sum s + 1, logical_write_fail_sum := logical_write_fail_sum s + 1\<rparr>"
  have "ssd_write s l d = Inr (''fail: illegal write address'', ?t)" using False by (auto simp: ssd_write_def)
  moreover have "flat_inv k ?t" using inv(1) by (simp add: flat_inv_def wf_counters)
  moreover have "contents ?t = contents s" by (simp add: contents_def fun_eq_iff split: option.split)
  ultimately show ?thesis by auto
next
  case True
  define s1 where "s1 = s\<lparr>logical_write_sum := logical_write_sum s + 1\<rparr>"
  have inv1: "flat_inv k s1" using inv(1) by (simp add: s1_def flat_inv_def wf_counters)
  have c1: "contents s1 = contents s" "num_logical_pages s1 = num_logical_pages s"
    by (simp_all add: s1_def contents_def fun_eq_iff split: option.split)
  have wf1: "ssd_wf s1" "ssd_type s1 = k" "l < num_logical_pages s1" "l < num_pages s1"
    using inv1 True c1 by (auto simp: flat_inv_def)
  obtain t where t: "ssd_write s l d = Inr (''success'', t)" "stored s1 l d t"
    using write_ideal_stored[OF wf1(1) _ wf1(3,4), of d] write_direct_stored[OF wf1(1) _ wf1(3,4), of d] True inv(2) wf1(2)
    by (cases k) (auto simp: ssd_write_def Let_def c1(2) simp flip: s1_def)
  with stored_flat[OF inv1 t(2)] True show ?thesis by (auto simp: stored_def c1)
qed

lemma flat_trim:
  assumes inv: "flat_inv k s"
  shows "\<exists>rc t. ssd_trim s l = Inr (rc, t) \<and> flat_inv k t \<and> num_logical_pages t = num_logical_pages s \<and>
     contents t = (contents s)(l := None)"
proof -
  define f where "f = s\<lparr>logical_trim_sum := logical_trim_sum s + 1, logical_trim_fail_sum := logical_trim_fail_sum s + 1\<rparr>"
  have f: "flat_inv k f" "contents f = contents s" "num_logical_pages f = num_logical_pages s"
    using inv by (simp_all add: f_def flat_inv_def wf_counters contents_def fun_eq_iff split: option.split)
  have wf: "ssd_wf s" using inv by (simp add: flat_inv_def)
  show ?thesis
  proof (cases "0 \<le> l \<and> l < num_logical_pages s")
    case False
    then have "(contents s)(l := None) = contents s" using contents_range[OF wf] by (auto simp: fun_eq_iff)
    with f False show ?thesis by (auto simp: ssd_trim_def Let_def simp flip: f_def)
  next
    case True
    then obtain p where p: "forward_map s l = Some p" using forward_dom[OF wf] by blast
    show ?thesis
    proof (cases "p = -1")
      case neg: True
      then have "(contents s)(l := None) = contents s" using p by (auto simp: fun_eq_iff contents_def)
      with f p neg True show ?thesis by (auto simp: ssd_trim_def Let_def simp flip: f_def)
    next
      case pos: False
      define t where "t = s\<lparr>logical_trim_sum := logical_trim_sum s + 1, forward_map := (forward_map s)(l \<mapsto> -1)\<rparr>"
      have "dom (forward_map t) = dom (forward_map s)" using p by (auto simp: t_def)
      then have "flat_inv k t" using inv unfolding flat_inv_def ssd_wf_def by (simp add: t_def)
      moreover have "contents t = (contents s)(l := None)"
        by (auto simp: t_def fun_eq_iff contents_def split: option.split)
      moreover have "ssd_trim s l = Inr (''success'', t)" using True p pos by (auto simp: ssd_trim_def t_def)
      ultimately show ?thesis by (auto simp: t_def)
    qed
  qed
qed

lemma flat_read:
  assumes inv: "flat_inv k s"
  shows "\<exists>t. ssd_read s l = Inr (answer (num_logical_pages s) (contents s) l, t) \<and> flat_inv k t \<and>
     num_logical_pages t = num_logical_pages s \<and> contents t = contents s"
proof -
  have wf: "ssd_wf s" using inv by (simp add: flat_inv_def)
  obtain t c n m j where r: "ssd_read s l = Inr (answer (num_logical_pages s) (contents s) l, t)"
    and t: "t = s\<lparr>logical_read_sum := n, logical_read_fail_sum := m, physical_read_count := c, physical_read_sum := j\<rparr>"
    and c: "dom c = dom (physical_read_count s)"
    by (rule read_any[OF wf flat_fwd[OF inv], where l = l])
  have "flat_inv k t" using inv c unfolding flat_inv_def ssd_wf_def by (simp add: t)
  moreover have "contents t = contents s" by (simp add: t contents_def fun_eq_iff split: option.split)
  ultimately show ?thesis using r t by auto
qed

text \<open>No block of these devices is ever marked as used, so the collector does not run.\<close>

lemma flat_upkeep:
  assumes inv: "flat_inv k s" shows "upkeep s = Inr s"
proof -
  have "foldres (\<lambda>used i. bnd (dict_get (gc_used_blocks s) i) (\<lambda>n. Inr (used + n))) a xs = Inr a"
    if "set xs \<subseteq> {0..<num_blocks s}" for a xs
    using that
  proof (induction xs)
    case (Cons x xs)
    have "x \<in> dom (gc_used_blocks s)" using inv Cons.prems by (auto simp: flat_inv_def ssd_wf_def)
    then have "gc_used_blocks s x = Some 0" using inv by (auto simp: flat_inv_def)
    with Cons show ?case by simp
  qed simp
  from this[of "[0..num_blocks s - 1]" 0] have "blocks_in_use s = Inr 0"
    by (simp add: blocks_in_use_def subset_eq)
  then show ?thesis using inv by (simp add: upkeep_def flat_inv_def)
qed

interpretation direct_store: kept_store nl "\<lambda>s. flat_inv TYPE_DIRECT s \<and> num_logical_pages s = nl" contents
  ssd_write ssd_read ssd_trim upkeep
  by unfold_locales (use flat_write flat_read flat_trim flat_upkeep in fastforce)+

interpretation ideal_store: kept_store nl "\<lambda>s. flat_inv TYPE_IDEAL s \<and> num_logical_pages s = nl" contents
  ssd_write ssd_read ssd_trim upkeep
  by unfold_locales (use flat_write flat_read flat_trim flat_upkeep in fastforce)+

section \<open>The command loop\<close>

lemma str_int_plain: "\<not> is_digit c \<Longrightarrow> c \<noteq> CHR ''-'' \<Longrightarrow> c \<notin> set (str_int i)"
  using str_int_chars by blast

lemma do_cmd_show:
  assumes "cmd_ok c"
  shows "do_cmd s (show_cmd c) = bnd (direct_store.exec s c) (\<lambda>(v, t). Inr (Some v, t))"
proof (cases c)
  case (Rd l)
  have "split_on CHR ''r'' (str_int l) = [str_int l]"
    by (intro split_on_plain str_int_plain) (auto simp: is_digit_def)
  with Rd show ?thesis by (simp add: do_cmd_def direct_store.exec_def list_get_def int_of_string_str_int)
next
  case (Tr l)
  have "split_on CHR ''t'' (str_int l) = [str_int l]"
    by (intro split_on_plain str_int_plain) (auto simp: is_digit_def)
  with Tr show ?thesis by (simp add: do_cmd_def direct_store.exec_def list_get_def int_of_string_str_int)
next
  case (Wr l d)
  have "CHR '':'' \<notin> set (CHR ''w'' # str_int l)"
    using str_int_plain[of "CHR '':''" l] by (simp add: is_digit_def)
  from split_on_sep[OF this, of d] have "split_on CHR '':'' (CHR ''w'' # str_int l @ CHR '':'' # d) =
      [CHR ''w'' # str_int l, d]" using assms Wr by (simp add: split_on_plain)
  moreover have "split_on CHR ''w'' (CHR ''w'' # str_int l) = [[], str_int l]"
    using split_on_plain[OF str_int_plain[of "CHR ''w''" l]] by (simp add: is_digit_def)
  ultimately show ?thesis using Wr
    by (simp add: do_cmd_def direct_store.exec_def list_get_def int_of_string_str_int Let_def)
qed

lemma cmd_loop_eq:
  assumes "\<forall>c \<in> set cs. cmd_ok c"
  shows "cmd_loop s out (map show_cmd cs) = bnd (direct_store.loop s cs) (\<lambda>(vs, t). Inr (out @ vs, t))"
  using assms
proof (induction cs arbitrary: s out)
  case (Cons c cs)
  have ne: "show_cmd c \<noteq> []" by (cases c) auto
  have "cmd_loop s out (map show_cmd (c # cs)) = bnd (direct_store.exec s c) (\<lambda>(v, t).
      bnd (upkeep t) (\<lambda>u. cmd_loop u (out @ [v]) (map show_cmd cs)))"
    using Cons.prems ne by (cases "direct_store.exec s c") (auto simp: do_cmd_show)
  also have "\<dots> = bnd (direct_store.loop s (c # cs)) (\<lambda>(vs, t). Inr (out @ vs, t))"
    using Cons by (auto simp: bnd_def split: sum.split)
  finally show ?case .
qed simp

text \<open>The failed writes among the answers of a command sequence.\<close>

fun write_fails :: "cmd list \<Rightarrow> string list \<Rightarrow> int" where
  "write_fails (Wr l d # cs) (v # vs) = (if v = ''success'' then 0 else 1) + write_fails cs vs"
| "write_fails (c # cs) (v # vs) = write_fails cs vs"
| "write_fails _ _ = 0"

lemma log_exec:
  assumes "core_inv s"
  obtains v t where "direct_store.exec s c = Inr (v, t)" "core_inv t" "num_logical_pages t = num_logical_pages s"
    "logical_write_fail_sum t = logical_write_fail_sum s + write_fails [c] [v]"
    "map_inv s \<Longrightarrow> map_inv t \<and> contents t = after (contents s) c v \<and>
       (case c of Rd l \<Rightarrow> v = answer (num_logical_pages s) (contents s) l | _ \<Rightarrow> True)"
proof (cases c)
  case (Rd l)
  show thesis
    by (rule core_read[OF assms, of l]) (use Rd that in \<open>simp add: direct_store.exec_def\<close>)
next
  case (Wr l d)
  show thesis
    by (rule core_write[OF assms, of l d]) (use Wr in \<open>auto simp: direct_store.exec_def intro!: that\<close>)
next
  case (Tr l)
  show thesis
    by (rule core_trim[OF assms, of l]) (use Tr that in \<open>simp add: direct_store.exec_def\<close>)
qed

lemma write_fails_Cons: "write_fails (c # cs) (v # vs) = write_fails [c] [v] + write_fails cs vs"
  by (cases c) auto

lemma log_loop:
  assumes "core_inv s"
  shows "\<exists>vs t. direct_store.loop s cs = Inr (vs, t) \<and> core_inv t \<and> length vs = length cs \<and>
     num_logical_pages t = num_logical_pages s \<and>
     logical_write_fail_sum s + write_fails cs vs \<le> logical_write_fail_sum t \<and>
     (map_inv s \<and> logical_write_fail_sum t = logical_write_fail_sum s + write_fails cs vs \<longrightarrow>
        map_inv t \<and> agrees (num_logical_pages s) (contents s) cs vs \<and> contents t = final (contents s) cs vs)"
  using assms
proof (induction cs arbitrary: s)
  case (Cons c cs)
  obtain v t where v: "direct_store.exec s c = Inr (v, t)" "core_inv t" "num_logical_pages t = num_logical_pages s"
    "logical_write_fail_sum t = logical_write_fail_sum s + write_fails [c] [v]"
    "map_inv s \<Longrightarrow> map_inv t \<and> contents t = after (contents s) c v \<and>
       (case c of Rd l \<Rightarrow> v = answer (num_logical_pages s) (contents s) l | _ \<Rightarrow> True)"
    by (rule log_exec[OF Cons.prems, of c]) (assumption | rule that)+
  obtain u where u: "upkeep t = Inr u" "collected t u" using upkeep_collected[OF v(2)] by blast
  then have cu: "core_inv u" "num_logical_pages u = num_logical_pages t"
    "logical_write_fail_sum t \<le> logical_write_fail_sum u"
    "logical_write_fail_sum u = logical_write_fail_sum t \<and> map_inv t \<longrightarrow> map_inv u \<and> contents u = contents t"
    by (auto simp: collected_def)
  obtain vs w where w: "direct_store.loop u cs = Inr (vs, w)" "core_inv w" "length vs = length cs"
    "num_logical_pages w = num_logical_pages u"
    "logical_write_fail_sum u + write_fails cs vs \<le> logical_write_fail_sum w"
    "map_inv u \<and> logical_write_fail_sum w = logical_write_fail_sum u + write_fails cs vs \<longrightarrow>
        map_inv w \<and> agrees (num_logical_pages u) (contents u) cs vs \<and> contents w = final (contents u) cs vs"
    using Cons.IH[OF cu(1)] by blast
  have le: "logical_write_fail_sum s + write_fails (c # cs) (v # vs) \<le> logical_write_fail_sum w"
    using v(4) cu(3) w(5) by (simp only: write_fails_Cons[of c cs v vs])
  have "map_inv w \<and> agrees (num_logical_pages s) (contents s) (c # cs) (v # vs) \<and>
      contents w = final (contents s) (c # cs) (v # vs)"
    if a: "map_inv s" "logical_write_fail_sum w = logical_write_fail_sum s + write_fails (c # cs) (v # vs)"
  proof -
    have "logical_write_fail_sum w = logical_write_fail_sum t + write_fails cs vs"
      using a(2) v(4) by (simp only: write_fails_Cons[of c cs v vs])
    with cu(3) w(5) have eq: "logical_write_fail_sum u = logical_write_fail_sum t"
      "logical_write_fail_sum w = logical_write_fail_sum u + write_fails cs vs" by auto
    with v(5)[OF a(1)] cu(2,4) w(6) v(3) show ?thesis by auto
  qed
  with le v u w cu show ?case by (intro exI[of _ "v # vs"] exI[of _ w]) simp
qed simp

section \<open>Properties of the simulator\<close>

lemma init_fields:
  assumes "ssd_init k nl nb ppb et pt rt high low = Inr s" "0 < nb" "0 < ppb"
  shows "ssd_wf s" "kind_of k = Some (ssd_type s)" "num_logical_pages s = nl" "num_pages s = nb * ppb"
    "contents s = Map.empty" "map_inv s" "current_page s = -1" "gc_current_block s = 0" "current_block s = 0"
    "num_blocks s = nb" "pages_per_block s = ppb" "gc_high_water_mark s = high" "logical_write_fail_sum s = 0"
    "state s = fill 0 (nb * ppb) STATE_INVALID Map.empty" "forward_map s = fill 0 nl (-1) Map.empty"
    "reverse_map s = fill 0 (nb * ppb) (-1) Map.empty" "gc_used_blocks s = fill 0 nb 0 Map.empty"
  using assms
  by (auto simp: ssd_init_def ssd_wf_def dom_fill contents_def map_inv_def fill_apply fun_eq_iff
      split: option.splits if_splits)

lemma init_core:
  assumes "ssd_init ''log'' nl nb ppb et pt rt high low = Inr s" "0 < nb" "0 < ppb"
  shows "core_inv s"
proof (rule core_invI)
  note i = init_fields[OF assms]
  show "ssd_wf s" by (rule i(1))
  show "state s p = state s (b * pages_per_block s)"
    if "0 \<le> b" "b < num_blocks s" "p div pages_per_block s = b"
      "state s (b * pages_per_block s) \<noteq> Some STATE_VALID" for b p
    using block_pages[OF i(1) that(1,2) that(3)] block_pages[OF i(1) that(1,2), of "b * pages_per_block s"]
      first_page_block[of "pages_per_block s" b] assms(3) unfolding i(14) by (simp add: fill_apply i)
qed (use init_fields[OF assms] assms in \<open>auto simp: fill_apply kind_of_def split: if_splits\<close>)

text \<open>C2. A log-structured device, from its creation through any sequence of reads, writes and trims
  of any pages, with the garbage collector after each command: the program never stops with an
  error and answers every command; and as long as no page copy of the collector failed (the failure
  counter shows only the writes that were answered with a failure), every read answers the data of
  the last successful write to the page that was not trimmed.\<close>

theorem log_device_loop:
  assumes "ssd_init ''log'' nl nb ppb et pt rt high low = Inr s" "0 < nb" "0 < ppb"
    and "\<forall>c \<in> set cs. cmd_ok c"
  shows "\<exists>out t. cmd_loop s [] (map show_cmd cs) = Inr (out, t) \<and> core_inv t \<and> length out = length cs \<and>
     write_fails cs out \<le> logical_write_fail_sum t \<and>
     (logical_write_fail_sum t = write_fails cs out \<longrightarrow>
        log_inv t \<and> agrees nl Map.empty cs out \<and> contents t = final Map.empty cs out)"
  using log_loop[OF init_core[OF assms(1-3)], of cs] init_fields[OF assms(1-3)]
  by (auto simp: cmd_loop_eq[OF assms(4)] log_inv_def)

theorem log_device_loop_witness:
  "\<exists>s out t. ssd_init ''log'' 3 2 2 10 2 1 2 1 = Inr s \<and>
     cmd_loop s [] (map show_cmd [Wr 0 ''a'', Rd 0, Wr 0 ''b'', Rd 0, Tr 0, Rd 0]) = Inr (out, t) \<and> core_inv t"
proof -
  obtain s where s: "ssd_init ''log'' 3 2 2 10 2 1 2 1 = Inr s" by (simp add: ssd_init_def kind_of_def)
  have "\<forall>c \<in> set [Wr 0 ''a'', Rd 0, Wr 0 ''b'', Rd 0, Tr 0, Rd 0]. cmd_ok c" by simp
  from log_device_loop[OF s _ _ this] s show ?thesis by auto
qed

text \<open>C27. A direct or an ideal device with no more logical than physical pages and a positive
  high-water mark, from its creation through any sequence of commands: the program never stops with
  an error and answers every read with the data of the last write to the page that was not trimmed;
  rewriting a page on the direct device keeps the other pages of its block.\<close>

theorem flat_device_loop:
  assumes "ssd_init k nl nb ppb et pt rt high low = Inr s" "k = ''direct'' \<or> k = ''ideal''"
    and "0 < nb" "0 < ppb" "nl \<le> nb * ppb" "0 < high" "\<forall>c \<in> set cs. cmd_ok c"
  shows "\<exists>out t. cmd_loop s [] (map show_cmd cs) = Inr (out, t) \<and> flat_inv (ssd_type s) t \<and>
     agrees nl Map.empty cs out \<and> contents t = final Map.empty cs out"
proof -
  note i = init_fields[OF assms(1,3,4)]
  have k: "ssd_type s = TYPE_DIRECT \<or> ssd_type s = TYPE_IDEAL" using i(2) assms(2) by (auto simp: kind_of_def)
  have "flat_inv (ssd_type s) s" using i assms(5,6) by (auto simp: flat_inv_def fill_apply split: if_splits)
  then have "\<exists>vs t. direct_store.loop s cs = Inr (vs, t) \<and> flat_inv (ssd_type s) t \<and>
      agrees nl (contents s) cs vs \<and> contents t = final (contents s) cs vs"
    using k i(3) direct_store.loop_agrees[of s nl cs] ideal_store.loop_agrees[of s nl cs] by auto
  then show ?thesis by (auto simp: cmd_loop_eq[OF assms(7)] i(5))
qed

theorem flat_device_loop_witness:
  "\<exists>s out t. ssd_init ''direct'' 4 2 2 10 2 1 2 1 = Inr s \<and>
     cmd_loop s [] (map show_cmd [Wr 0 ''a'', Wr 1 ''b'', Wr 0 ''c'', Rd 1]) = Inr (out, t) \<and>
     agrees 4 Map.empty [Wr 0 ''a'', Wr 1 ''b'', Wr 0 ''c'', Rd 1] out"
proof -
  obtain s where s: "ssd_init ''direct'' 4 2 2 10 2 1 2 1 = Inr s" by (simp add: ssd_init_def kind_of_def)
  have "\<forall>c \<in> set [Wr 0 ''a'', Wr 1 ''b'', Wr 0 ''c'', Rd 1]. cmd_ok c" by simp
  from flat_device_loop[OF s _ _ _ _ _ this] s show ?thesis by fastforce
qed


section \<open>The collector on a full device\<close>








end
