(* ===== verification/X86.thy ===== *)
theory X86
  imports Machines
begin

text \<open>
  The multi-threaded machine of \<^verbatim>\<open>ostep/homework/threads-locks/x86.py\<close>: class \<^verbatim>\<open>cpu\<close> with its
  instructions and its run loop, class \<^verbatim>\<open>process\<close> and class \<^verbatim>\<open>proclist\<close>. Memory and registers are
  dictionaries of Python objects; here a value is a number or the text of a loaded instruction
  (a call of one of the methods, which the run loop evaluates). Computing with a text is an error:
  the cases in which Python computes with two texts (their concatenation or comparison, the
  repetition of one) are not distinguished from it, and the argument of \<^verbatim>\<open>mdump\<close>, which is evaluated
  as an expression, is a number. Console output is left out.
\<close>

section \<open>Hardware state\<close>

datatype reg = REG_ZERO | REG_AX | REG_BX | REG_CX | REG_DX | REG_EX | REG_FX | REG_SP | REG_BP

datatype cond = COND_GT | COND_GTE | COND_LT | COND_LTE | COND_EQ | COND_NEQ

text \<open>The method calls a program is loaded as, with the arguments in the order of the methods.\<close>

datatype instr =
    move_i_to_r int reg
  | move_i_to_m int int reg reg int
  | move_m_to_r int reg reg int reg
  | move_r_to_m reg int reg reg int
  | move_r_to_r reg reg
  | lea_m_to_r int reg reg int reg
  | add_i_to_r int reg | add_r_to_r reg reg
  | mul_i_to_r int reg | mul_r_to_r reg reg
  | sub_i_to_r int reg | sub_r_to_r reg reg
  | neg_r reg
  | atomic_exchange reg int reg reg
  | fetchadd reg int reg reg
  | test_i_r int reg | test_r_i reg int | test_r_r reg reg
  | jump int | jump_notequal int | jump_equal int | jump_lessthan int
  | jump_lessthanorequal int | jump_greaterthan int | jump_greaterthanorequal int
  | call int | ret
  | push_r reg | push_m int reg reg int | pop | pop_r reg
  | nop | halt | iyield | rdump | mdump string

datatype val = Num int | Code instr

record cpu =
  PC :: val
  registers :: "reg \<Rightarrow> val"
  conditions :: "cond \<Rightarrow> bool"
  memory :: "int \<rightharpoonup> val"
  pmemory :: "int \<rightharpoonup> string"

definition cpu_init :: "int \<Rightarrow> cpu" where
  "cpu_init memsize =
     \<lparr>PC = Num 0, registers = (\<lambda>r. Num 0), conditions = (\<lambda>c. False),
      memory = (\<lambda>i. if 0 \<le> i \<and> i < memsize * 1024 then Some (Num 0) else None), pmemory = Map.empty\<rparr>"

section \<open>Instructions\<close>

fun num :: "val \<Rightarrow> int res" where
  "num (Num n) = Inr n"
| "num (Code i) = Inl TypeError"

text \<open>\<^verbatim>\<open>self.memory[v]\<close>\<close>

fun mem_get :: "cpu \<Rightarrow> val \<Rightarrow> val res" where
  "mem_get c (Num a) = dict_get (memory c) a"
| "mem_get c (Code i) = Inl KeyError"

definition set_reg :: "cpu \<Rightarrow> reg \<Rightarrow> val \<Rightarrow> cpu" where
  "set_reg c r v = c\<lparr>registers := (registers c)(r := v)\<rparr>"

definition set_mem :: "cpu \<Rightarrow> int \<Rightarrow> val \<Rightarrow> cpu" where
  "set_mem c a v = c\<lparr>memory := (memory c)(a \<mapsto> v)\<rparr>"

text \<open>\<^verbatim>\<open>value + self.registers[reg1] + (scale * self.registers[reg2])\<close>\<close>

definition effective :: "cpu \<Rightarrow> int \<Rightarrow> reg \<Rightarrow> reg \<Rightarrow> int \<Rightarrow> int res" where
  "effective c value reg1 reg2 scale =
     bnd (num (registers c reg1)) (\<lambda>a. bnd (num (registers c reg2)) (\<lambda>b. Inr (value + a + scale * b)))"

text \<open>\<^verbatim>\<open>self.registers[dst] op= v\<close>\<close>

definition arith :: "(int \<Rightarrow> int \<Rightarrow> int) \<Rightarrow> cpu \<Rightarrow> reg \<Rightarrow> val \<Rightarrow> cpu res" where
  "arith f c dst v =
     bnd (num (registers c dst)) (\<lambda>a. bnd (num v) (\<lambda>b. Inr (set_reg c dst (Num (f a b)))))"

fun test_all :: "int \<Rightarrow> int \<Rightarrow> cond \<Rightarrow> bool" where
  "test_all src dst COND_GT = (dst > src)"
| "test_all src dst COND_GTE = (dst \<ge> src)"
| "test_all src dst COND_LT = (dst < src)"
| "test_all src dst COND_LTE = (dst \<le> src)"
| "test_all src dst COND_EQ = (dst = src)"
| "test_all src dst COND_NEQ = (dst \<noteq> src)"

definition test :: "cpu \<Rightarrow> val \<Rightarrow> val \<Rightarrow> cpu res" where
  "test c src dst =
     bnd (num src) (\<lambda>a. bnd (num dst) (\<lambda>b. Inr (c\<lparr>conditions := test_all a b\<rparr>)))"

definition jump_if :: "cpu \<Rightarrow> cond \<Rightarrow> int \<Rightarrow> cpu" where
  "jump_if c k targ = (if conditions c k then c\<lparr>PC := Num targ\<rparr> else c)"

text \<open>\<^verbatim>\<open>self.registers[REG_SP] -= 4; self.memory[self.registers[REG_SP]] = v\<close>\<close>

definition push_val :: "cpu \<Rightarrow> val \<Rightarrow> cpu res" where
  "push_val c v = bnd (num (registers c REG_SP)) (\<lambda>sp. Inr (set_mem (set_reg c REG_SP (Num (sp - 4))) (sp - 4) v))"

text \<open>What a method returns, as far as the run loop looks at it: \<^verbatim>\<open>-1\<close>, \<^verbatim>\<open>-2\<close>, or anything else.\<close>

datatype rc = Rc_ok | Rc_halt | Rc_yield

fun exec :: "instr \<Rightarrow> cpu \<Rightarrow> cpu res" where
  "exec (move_i_to_r src dst) c = Inr (set_reg c dst (Num src))"
| "exec (move_i_to_m src value reg1 reg2 scale) c =
     bnd (effective c value reg1 reg2 scale) (\<lambda>tmp. Inr (set_mem c tmp (Num src)))"
| "exec (move_m_to_r value reg1 reg2 scale dst) c =
     bnd (effective c value reg1 reg2 scale) (\<lambda>tmp.
     bnd (dict_get (memory c) tmp) (\<lambda>v. Inr (set_reg c dst v)))"
| "exec (move_r_to_m src value reg1 reg2 scale) c =
     bnd (effective c value reg1 reg2 scale) (\<lambda>tmp. Inr (set_mem c tmp (registers c src)))"
| "exec (move_r_to_r src dst) c = Inr (set_reg c dst (registers c src))"
| "exec (lea_m_to_r value reg1 reg2 scale dst) c =
     bnd (effective c value reg1 reg2 scale) (\<lambda>tmp. Inr (set_reg c dst (Num tmp)))"
| "exec (add_i_to_r src dst) c = arith (+) c dst (Num src)"
| "exec (add_r_to_r src dst) c = arith (+) c dst (registers c src)"
| "exec (mul_i_to_r src dst) c = arith (*) c dst (Num src)"
| "exec (mul_r_to_r src dst) c = arith (*) c dst (registers c src)"
| "exec (sub_i_to_r src dst) c = arith (-) c dst (Num src)"
| "exec (sub_r_to_r src dst) c = arith (-) c dst (registers c src)"
| "exec (neg_r src) c = bnd (num (registers c src)) (\<lambda>a. Inr (set_reg c src (Num (- a))))"
| "exec (atomic_exchange src value reg1 reg2) c =
     bnd (effective c value reg1 reg2 1) (\<lambda>tmp.
     bnd (dict_get (memory c) tmp) (\<lambda>old.
       Inr (set_reg (set_mem c tmp (registers c src)) src old)))"
| "exec (fetchadd src value reg1 reg2) c =
     bnd (effective c value reg1 reg2 1) (\<lambda>tmp.
     bnd (dict_get (memory c) tmp) (\<lambda>old.
     bnd (num old) (\<lambda>a. bnd (num (registers c src)) (\<lambda>b.
       Inr (set_reg (set_mem c tmp (Num (a + b))) src old)))))"
| "exec (test_i_r src dst) c = test c (Num src) (registers c dst)"
| "exec (test_r_i src dst) c = test c (registers c src) (Num dst)"
| "exec (test_r_r src dst) c = test c (registers c src) (registers c dst)"
| "exec (jump targ) c = Inr (c\<lparr>PC := Num targ\<rparr>)"
| "exec (jump_notequal targ) c = Inr (jump_if c COND_NEQ targ)"
| "exec (jump_equal targ) c = Inr (jump_if c COND_EQ targ)"
| "exec (jump_lessthan targ) c = Inr (jump_if c COND_LT targ)"
| "exec (jump_lessthanorequal targ) c = Inr (jump_if c COND_LTE targ)"
| "exec (jump_greaterthan targ) c = Inr (jump_if c COND_GT targ)"
| "exec (jump_greaterthanorequal targ) c = Inr (jump_if c COND_GTE targ)"
| "exec (call targ) c = bnd (push_val c (PC c)) (\<lambda>c. Inr (c\<lparr>PC := Num targ\<rparr>))"
| "exec ret c =
     bnd (mem_get c (registers c REG_SP)) (\<lambda>v. arith (+) (c\<lparr>PC := v\<rparr>) REG_SP (Num 4))"
| "exec (push_r r) c =
     bnd (num (registers c REG_SP)) (\<lambda>sp.
       let c1 = set_reg c REG_SP (Num (sp - 4)) in Inr (set_mem c1 (sp - 4) (registers c1 r)))"
| "exec (push_m value reg1 reg2 scale) c =
     bnd (num (registers c REG_SP)) (\<lambda>sp.
       let c1 = set_reg c REG_SP (Num (sp - 4))
       in bnd (effective c1 value reg1 reg2 scale) (\<lambda>tmp. Inr (set_mem c1 (sp - 4) (Num tmp))))"
| "exec pop c = arith (+) c REG_SP (Num 4)"
| "exec (pop_r dst) c =
     bnd (mem_get c (registers c REG_SP)) (\<lambda>v. arith (+) (set_reg c dst v) REG_SP (Num 4))"
| "exec nop c = Inr c"
| "exec halt c = Inr c"
| "exec iyield c = Inr c"
| "exec rdump c = Inr c"
| "exec (mdump index) c =
     (case int_of_string index of
        Inl e \<Rightarrow> Inl NameError
      | Inr i \<Rightarrow> bnd (dict_get (memory c) i) (\<lambda>v. Inr c))"

fun result_code :: "instr \<Rightarrow> rc" where
  "result_code halt = Rc_halt"
| "result_code iyield = Rc_yield"
| "result_code _ = Rc_ok"

text \<open>Fetch, decode and execute; the printed line looks the program counter up in \<^verbatim>\<open>pmemory\<close>.\<close>

definition cycle :: "cpu \<Rightarrow> (rc \<times> cpu) res" where
  "cycle c =
     bnd (mem_get c (PC c)) (\<lambda>instruction.
     bnd (num (PC c)) (\<lambda>prevPC.
       case instruction of
         Num n \<Rightarrow> Inl TypeError
       | Code i \<Rightarrow>
           bnd (exec i (c\<lparr>PC := Num (prevPC + 1)\<rparr>)) (\<lambda>c'.
           bnd (dict_get (pmemory c') prevPC) (\<lambda>_. Inr (result_code i, c')))))"

section \<open>Processes\<close>

record process =
  tid :: int
  pc :: val
  regs :: "reg \<Rightarrow> val"
  cc :: "cond \<Rightarrow> bool"
  isdone :: bool
  stack :: int

definition regname :: "string \<Rightarrow> reg option" where
  "regname = map_of [(''zero'', REG_ZERO), (''ax'', REG_AX), (''bx'', REG_BX), (''cx'', REG_CX), (''dx'', REG_DX), (''ex'', REG_EX),
     (''fx'', REG_FX), (''sp'', REG_SP), (''bp'', REG_BP)]"

text \<open>One item \<^verbatim>\<open>ax=1\<close> of the register arguments.\<close>

definition reg_arg :: "(reg \<Rightarrow> val) \<Rightarrow> string \<Rightarrow> (reg \<Rightarrow> val) res" where
  "reg_arg rs r =
     (let tmp = split_on CHR ''='' r
      in asserting (length tmp = 2)
           (bnd (case regname (tmp ! 0) of None \<Rightarrow> Inl AssertionError | Some k \<Rightarrow> Inr k) (\<lambda>k.
            bnd (int_of_string (tmp ! 1)) (\<lambda>n. Inr (rs(k := Num n))))))"

definition process_init :: "int \<Rightarrow> int \<Rightarrow> int \<Rightarrow> string \<Rightarrow> process res" where
  "process_init t start stackbottom reginit =
     bnd (if reginit = [] then Inr (\<lambda>r. Num 0)
          else foldres reg_arg (\<lambda>r. Num 0) (split_on CHR '':'' reginit)) (\<lambda>rs.
       Inr \<lparr>tid = t, pc = Num start, regs = rs(REG_SP := Num stackbottom), cc = (\<lambda>c. False), isdone = False,
            stack = stackbottom\<rparr>)"

definition process_save :: "cpu \<Rightarrow> process \<Rightarrow> process" where
  "process_save c p = p\<lparr>pc := PC c, cc := conditions c, regs := registers c\<rparr>"

definition process_restore :: "process \<Rightarrow> cpu \<Rightarrow> cpu" where
  "process_restore p c = c\<lparr>PC := pc p, conditions := cc p, registers := regs p\<rparr>"

section \<open>The process list\<close>

record proclist =
  plist :: "process list"
  active :: int
  manual :: bool
  procsched :: "nat list"
  curr :: nat

definition proclist_init :: proclist where
  "proclist_init = \<lparr>plist = [], active = 0, manual = False, procsched = [], curr = 0\<rparr>"

definition addproc :: "proclist \<Rightarrow> process \<Rightarrow> proclist" where
  "addproc pl p = pl\<lparr>active := active pl + 1, plist := plist pl @ [p]\<rparr>"

definition getnum :: "proclist \<Rightarrow> int" where
  "getnum pl = int (length (plist pl))"

definition numdone :: "proclist \<Rightarrow> int" where
  "numdone pl = int (length (plist pl)) - active pl"

text \<open>\<^verbatim>\<open>self.procsched[self.curr]\<close> and the process of that number.\<close>

definition current :: "proclist \<Rightarrow> nat res" where
  "current pl = list_get (procsched pl) (int (curr pl))"

definition getcurr :: "proclist \<Rightarrow> process res" where
  "getcurr pl = bnd (current pl) (\<lambda>p. list_get (plist pl) (int p))"

definition proclist_done :: "proclist \<Rightarrow> proclist res" where
  "proclist_done pl =
     bnd (current pl) (\<lambda>p.
     bnd (list_get (plist pl) (int p)) (\<lambda>q.
       Inr (pl\<lparr>plist := (plist pl)[p := q\<lparr>isdone := True\<rparr>], active := active pl - 1\<rparr>)))"

definition proclist_save :: "cpu \<Rightarrow> proclist \<Rightarrow> proclist res" where
  "proclist_save c pl =
     bnd (current pl) (\<lambda>p.
     bnd (list_get (plist pl) (int p)) (\<lambda>q. Inr (pl\<lparr>plist := (plist pl)[p := process_save c q]\<rparr>)))"

definition proclist_restore :: "proclist \<Rightarrow> cpu \<Rightarrow> cpu res" where
  "proclist_restore pl c = bnd (getcurr pl) (\<lambda>q. Inr (process_restore q c))"

text \<open>The search for the next process that is not done. The index goes round the schedule, so a
  search that has looked at every position once without success never ends.\<close>

fun next_loop :: "nat \<Rightarrow> proclist \<Rightarrow> proclist res" where
  "next_loop 0 pl = Inl NoReturn"
| "next_loop (Suc k) pl =
     (let pl' = pl\<lparr>curr := (if curr pl + 1 = length (procsched pl) then 0 else curr pl + 1)\<rparr>
      in bnd (getcurr pl') (\<lambda>q. if \<not> isdone q then Inr pl' else next_loop k pl'))"

definition proclist_next :: "proclist \<Rightarrow> proclist res" where
  "proclist_next pl = next_loop (length (procsched pl)) pl"

text \<open>\<^verbatim>\<open>finalize\<close>: the default schedule runs the processes in turn, a given one is a string of digits.\<close>

definition sched_digit :: "proclist \<Rightarrow> nat list \<Rightarrow> char \<Rightarrow> nat list res" where
  "sched_digit pl sched ch =
     bnd (int_of_string [ch]) (\<lambda>p. if p \<ge> getnum pl then Inl SysExit else Inr (sched @ [nat p]))"

definition finalize :: "proclist \<Rightarrow> cpu \<Rightarrow> string \<Rightarrow> (proclist \<times> cpu) res" where
  "finalize pl c sched =
     (if sched = [] then
        let pl' = pl\<lparr>procsched := procsched pl @ [0..<length (plist pl)], curr := 0\<rparr>
        in bnd (proclist_restore pl' c) (\<lambda>c'. Inr (pl', c'))
      else
        bnd (foldres (sched_digit pl) (procsched pl) sched) (\<lambda>ps.
          if int (length (remdups ps)) \<noteq> active pl then Inl SysExit
          else let pl' = pl\<lparr>manual := True, procsched := ps, curr := 0\<rparr>
               in bnd (proclist_restore pl' c) (\<lambda>c'. Inr (pl', c'))))"

section \<open>The run loop\<close>

record machine =
  hw :: cpu
  procs :: proclist
  interrupt :: int
  icount :: int

datatype outcome = Running machine | Finished machine

text \<open>\<^verbatim>\<open>setint\<close>; \<open>r\<close> is the random number \<^verbatim>\<open>int(random.random() * intfreq) + 1\<close>.\<close>

definition setint :: "int \<Rightarrow> bool \<Rightarrow> int \<Rightarrow> int" where
  "setint intfreq intrand r = (if \<not> intrand then intfreq else r)"

text \<open>Switching to the next process that is not done.\<close>

definition switch :: "proclist \<Rightarrow> cpu \<Rightarrow> (proclist \<times> cpu) res" where
  "switch pl c = bnd (proclist_next pl) (\<lambda>pl'. bnd (proclist_restore pl' c) (\<lambda>c'. Inr (pl', c')))"

text \<open>The interrupt counter; a \<^verbatim>\<open>yield\<close> instruction switches at once.\<close>

definition tick :: "int \<Rightarrow> bool \<Rightarrow> int \<Rightarrow> rc \<Rightarrow> machine \<Rightarrow> outcome res" where
  "tick intfreq intrand r rc m =
     (let m = m\<lparr>interrupt := interrupt m - 1\<rparr>
      in if interrupt m = 0 \<or> rc = Rc_yield
         then bnd (proclist_save (hw m) (procs m)) (\<lambda>pl.
              bnd (switch pl (hw m)) (\<lambda>(pl', c').
                Inr (Running (m\<lparr>interrupt := setint intfreq intrand r, procs := pl', hw := c'\<rparr>))))
         else Inr (Running m))"

text \<open>One iteration of the loop of \<^verbatim>\<open>run\<close>.\<close>

definition run_step :: "int \<Rightarrow> bool \<Rightarrow> machine \<Rightarrow> int \<Rightarrow> outcome res" where
  "run_step intfreq intrand m r =
     bnd (getcurr (procs m)) (\<lambda>_.
     bnd (cycle (hw m)) (\<lambda>(rc, c).
       let m = m\<lparr>hw := c, icount := icount m + 1\<rparr>
       in bnd (if rc = Rc_halt
               then bnd (proclist_done (procs m)) (\<lambda>pl.
                      if numdone pl = getnum pl then Inr (Finished (m\<lparr>procs := pl\<rparr>))
                      else bnd (switch pl c) (\<lambda>(pl', c'). Inr (Running (m\<lparr>procs := pl', hw := c'\<rparr>))))
               else Inr (Running m)) (\<lambda>res.
          case res of
            Finished m \<Rightarrow> Inr (Finished m)
          | Running m \<Rightarrow> tick intfreq intrand r rc m)))"

text \<open>Iterations until the loop returns or the random numbers are used up.\<close>

fun run_loop :: "int \<Rightarrow> bool \<Rightarrow> machine \<Rightarrow> int list \<Rightarrow> outcome res" where
  "run_loop intfreq intrand m [] = Inr (Running m)"
| "run_loop intfreq intrand m (r # rs) =
     bnd (run_step intfreq intrand m r) (\<lambda>res.
       case res of Finished m' \<Rightarrow> Inr (Finished m') | Running m' \<Rightarrow> run_loop intfreq intrand m' rs)"

definition run :: "proclist \<Rightarrow> cpu \<Rightarrow> int \<Rightarrow> bool \<Rightarrow> int \<Rightarrow> int list \<Rightarrow> outcome res" where
  "run pl c intfreq intrand r rs =
     (let (intfreq, intrand) = (if manual pl then (1, False) else (intfreq, intrand))
      in run_loop intfreq intrand \<lparr>hw = c, procs = pl, interrupt = setint intfreq intrand r, icount = 0\<rparr> rs)"

section \<open>The main program\<close>

fun add_threads :: "int \<Rightarrow> string list \<Rightarrow> nat \<Rightarrow> int \<Rightarrow> int \<Rightarrow> proclist \<Rightarrow> proclist res" where
  "add_threads loadaddr argv 0 pid stk pl = Inr pl"
| "add_threads loadaddr argv (Suc k) pid stk pl =
     bnd (if length argv > 1 then list_get argv pid else list_get argv 0) (\<lambda>arg.
     bnd (process_init pid loadaddr stk arg) (\<lambda>p.
       add_threads loadaddr argv k (pid + 1) (stk - 1000) (addproc pl p)))"

text \<open>Everything after the program was loaded into \<open>c\<close>.\<close>

definition main :: "cpu \<Rightarrow> nat \<Rightarrow> int \<Rightarrow> bool \<Rightarrow> string \<Rightarrow> string \<Rightarrow> int \<Rightarrow> int \<Rightarrow> int \<Rightarrow> int list \<Rightarrow> outcome res" where
  "main c numthreads intfreq intrand argv sched loadaddr memsize r rs =
     (let args = split_on CHR '','' argv
      in if \<not> intfreq > 0 then Inl SysExit
         else if \<not> (length args = numthreads \<or> length args = 1) then Inl SysExit
         else bnd (add_threads loadaddr args numthreads 0 (memsize * 1000) proclist_init) (\<lambda>pl.
              bnd (finalize pl c sched) (\<lambda>(pl', c'). run pl' c' intfreq intrand r rs)))"

end
