(* ===== verification/X86_Interleave.thy ===== *)
theory X86_Interleave
  imports X86
begin

text \<open>
  The run loop of the machine as an interleaving of its threads. The abstract state has one shared
  memory and one context per thread; a step executes one instruction of some thread that has not
  halted. The detailed loop, with its saved and restored registers, its interrupt counter, and its
  schedule, makes exactly such steps; a property of all interleavings is therefore a property of
  every run.
\<close>

section \<open>Threads over a shared memory\<close>

record thread =
  tpc :: val
  tregs :: "reg \<Rightarrow> val"
  tcc :: "cond \<Rightarrow> bool"

record shared =
  smem :: "int \<rightharpoonup> val"
  spmem :: "int \<rightharpoonup> string"
  ctx :: "nat \<Rightarrow> thread"
  alive :: "nat set"

definition dead_thread :: thread where
  "dead_thread = \<lparr>tpc = Num 0, tregs = (\<lambda>r. Num 0), tcc = (\<lambda>c. False)\<rparr>"

definition cpu_thread :: "cpu \<Rightarrow> thread" where
  "cpu_thread c = \<lparr>tpc = PC c, tregs = registers c, tcc = conditions c\<rparr>"

definition process_thread :: "process \<Rightarrow> thread" where
  "process_thread p = \<lparr>tpc = pc p, tregs = regs p, tcc = cc p\<rparr>"

text \<open>The hardware as thread \<open>i\<close> sees it, and the state after the thread has run to \<open>c\<close>.\<close>

definition view :: "shared \<Rightarrow> nat \<Rightarrow> cpu" where
  "view s i = \<lparr>PC = tpc (ctx s i), registers = tregs (ctx s i), conditions = tcc (ctx s i),
     memory = smem s, pmemory = spmem s\<rparr>"

definition advance :: "shared \<Rightarrow> nat \<Rightarrow> rc \<Rightarrow> cpu \<Rightarrow> shared" where
  "advance s i rc c = \<lparr>smem = memory c, spmem = pmemory c,
     ctx = (ctx s)(i := if rc = Rc_halt then dead_thread else cpu_thread c),
     alive = (if rc = Rc_halt then alive s - {i} else alive s)\<rparr>"

inductive istep :: "shared \<Rightarrow> shared \<Rightarrow> bool" where
  thread_step: "i \<in> alive s \<Longrightarrow> cycle (view s i) = Inr (rc, c) \<Longrightarrow> istep s (advance s i rc c)"

inductive_cases istepE: "istep s t"

section \<open>The machine as such a state\<close>

definition cur :: "proclist \<Rightarrow> nat" where
  "cur pl = procsched pl ! curr pl"

definition live :: "proclist \<Rightarrow> nat set" where
  "live pl = {i. i < length (plist pl) \<and> \<not> isdone (plist pl ! i)}"

definition absm :: "cpu \<Rightarrow> proclist \<Rightarrow> shared" where
  "absm c pl = \<lparr>smem = memory c, spmem = pmemory c,
     ctx = (\<lambda>i. if i \<notin> live pl then dead_thread
                else if i = cur pl then cpu_thread c else process_thread (plist pl ! i)),
     alive = live pl\<rparr>"

text \<open>Every process is in the schedule, the current index is in range, and \<^verbatim>\<open>active\<close> counts the
  processes that are not done.\<close>

definition sched_ok :: "proclist \<Rightarrow> bool" where
  "sched_ok pl \<longleftrightarrow> curr pl < length (procsched pl) \<and> set (procsched pl) = {0..<length (plist pl)} \<and>
     active pl = int (card (live pl))"

lemma finite_live [simp]: "finite (live pl)"
  by (simp add: live_def)

lemma cur_lt: "sched_ok pl \<Longrightarrow> cur pl < length (plist pl)"
  unfolding sched_ok_def cur_def using nth_mem by fastforce

lemma current_eq: "sched_ok pl \<Longrightarrow> current pl = Inr (cur pl)"
  by (simp add: current_def cur_def sched_ok_def)

lemma getcurr_eq: "sched_ok pl \<Longrightarrow> getcurr pl = Inr (plist pl ! cur pl)"
  by (simp add: getcurr_def current_eq cur_lt)

lemma sched_ok_curr: "sched_ok pl \<Longrightarrow> k < length (procsched pl) \<Longrightarrow> sched_ok (pl\<lparr>curr := k\<rparr>)"
  by (simp add: sched_ok_def live_def)

section \<open>The search for the next process\<close>

lemma next_loop_finds:
  assumes "sched_ok pl" "j < k" "procsched pl ! ((curr pl + 1 + j) mod length (procsched pl)) \<in> live pl"
  shows "\<exists>n. next_loop k pl = Inr (pl\<lparr>curr := n\<rparr>) \<and> n < length (procsched pl) \<and> procsched pl ! n \<in> live pl"
  using assms
proof (induction k arbitrary: pl j)
  case (Suc k)
  let ?L = "length (procsched pl)"
  have c: "curr pl < ?L" using Suc.prems(1) by (simp add: sched_ok_def)
  define n where "n = (if curr pl + 1 = ?L then 0 else curr pl + 1)"
  have n: "n < ?L" "n = (curr pl + 1) mod ?L" using c by (auto simp: n_def)
  have ok: "sched_ok (pl\<lparr>curr := n\<rparr>)" by (rule sched_ok_curr[OF Suc.prems(1) n(1)])
  have cur: "cur (pl\<lparr>curr := n\<rparr>) = procsched pl ! n" by (simp add: cur_def)
  then have lt: "procsched pl ! n < length (plist pl)" using cur_lt[OF ok] by simp
  have unf: "next_loop (Suc k) pl = bnd (getcurr (pl\<lparr>curr := n\<rparr>)) (\<lambda>q.
      if \<not> isdone q then Inr (pl\<lparr>curr := n\<rparr>) else next_loop k (pl\<lparr>curr := n\<rparr>))"
    by (simp only: next_loop.simps n_def Let_def)
  show ?case
  proof (cases "procsched pl ! n \<in> live pl")
    case True
    then have "\<not> isdone (plist pl ! (procsched pl ! n))" by (simp add: live_def)
    with getcurr_eq[OF ok] cur True n(1) show ?thesis unfolding unf by auto
  next
    case False
    then have d: "isdone (plist pl ! (procsched pl ! n))" using lt by (simp add: live_def)
    have "j \<noteq> 0" using Suc.prems(3) False n(2) by (cases j) auto
    then obtain j' where j: "j = Suc j'" by (cases j) auto
    have "(curr pl + 1 + j) mod ?L = (n + 1 + j') mod ?L"
      unfolding n(2) j by (metis add.assoc mod_add_left_eq plus_1_eq_Suc)
    then have "procsched (pl\<lparr>curr := n\<rparr>) ! ((curr (pl\<lparr>curr := n\<rparr>) + 1 + j') mod length (procsched (pl\<lparr>curr := n\<rparr>)))
        \<in> live (pl\<lparr>curr := n\<rparr>)" using Suc.prems(3) by (simp add: live_def)
    from Suc.IH[OF ok _ this] Suc.prems(2) j obtain n' where
      "next_loop k (pl\<lparr>curr := n\<rparr>) = Inr (pl\<lparr>curr := n'\<rparr>)" "n' < ?L" "procsched pl ! n' \<in> live pl"
      by (auto simp: live_def)
    with getcurr_eq[OF ok] cur d show ?thesis unfolding unf by auto
  qed
qed simp

lemma proclist_next_finds:
  assumes "sched_ok pl" "live pl \<noteq> {}"
  shows "\<exists>n. proclist_next pl = Inr (pl\<lparr>curr := n\<rparr>) \<and> n < length (procsched pl) \<and> procsched pl ! n \<in> live pl"
proof -
  let ?L = "length (procsched pl)"
  obtain i where i: "i \<in> live pl" using assms(2) by blast
  then have "i \<in> set (procsched pl)" using assms(1) by (auto simp: sched_ok_def live_def)
  then obtain p where p: "p < ?L" "procsched pl ! p = i" by (auto simp: in_set_conv_nth)
  have c: "curr pl < ?L" using assms(1) by (simp add: sched_ok_def)
  define j where "j = (if p \<le> curr pl then p + ?L - curr pl - 1 else p - curr pl - 1)"
  have "j < ?L" using p c by (auto simp: j_def)
  moreover have "(curr pl + 1 + j) mod ?L = p"
  proof (cases "p \<le> curr pl")
    case True
    then have "curr pl + 1 + j = p + ?L" using c p by (simp add: j_def)
    then show ?thesis using p by simp
  next
    case False
    then have "curr pl + 1 + j = p" by (simp add: j_def)
    then show ?thesis using p by simp
  qed
  ultimately show ?thesis using next_loop_finds[OF assms(1), of j ?L] p i by (simp add: proclist_next_def)
qed

lemma switch_eq:
  assumes "sched_ok pl" "live pl \<noteq> {}"
  obtains n where "switch pl c = Inr (pl\<lparr>curr := n\<rparr>, process_restore (plist pl ! (procsched pl ! n)) c)"
    "n < length (procsched pl)" "procsched pl ! n \<in> live pl" "sched_ok (pl\<lparr>curr := n\<rparr>)"
proof -
  obtain n where n: "proclist_next pl = Inr (pl\<lparr>curr := n\<rparr>)" "n < length (procsched pl)"
    "procsched pl ! n \<in> live pl" using proclist_next_finds[OF assms] by blast
  have ok: "sched_ok (pl\<lparr>curr := n\<rparr>)" by (rule sched_ok_curr[OF assms(1) n(2)])
  have "switch pl c = Inr (pl\<lparr>curr := n\<rparr>, process_restore (plist pl ! (procsched pl ! n)) c)"
    using n(1) getcurr_eq[OF ok] by (simp add: switch_def proclist_restore_def cur_def)
  with n ok that show thesis by blast
qed

section \<open>Saving and restoring\<close>

lemma restore_save: "process_restore (process_save c p) c = c"
  by (simp add: process_restore_def process_save_def)

lemma restore_thread: "cpu_thread (process_restore p c) = process_thread p"
  by (simp add: cpu_thread_def process_restore_def process_thread_def)

lemma save_thread: "process_thread (process_save c p) = cpu_thread c"
  by (simp add: cpu_thread_def process_save_def process_thread_def)

lemma restore_frame: "memory (process_restore p c) = memory c" "pmemory (process_restore p c) = pmemory c"
  by (simp_all add: process_restore_def)

text \<open>Saving the current process and restoring another changes no thread.\<close>

lemma save_eq:
  assumes "sched_ok pl"
  shows "proclist_save c pl = Inr (pl\<lparr>plist := (plist pl)[cur pl := process_save c (plist pl ! cur pl)]\<rparr>)"
  using assms by (simp add: proclist_save_def current_eq cur_lt)

lemma live_save: "live (pl\<lparr>plist := (plist pl)[i := process_save c (plist pl ! i)]\<rparr>) = live pl"
  by (cases "i < length (plist pl)") (auto simp: live_def process_save_def nth_list_update split: if_splits)

lemma sched_ok_save: "sched_ok pl \<Longrightarrow> sched_ok (pl\<lparr>plist := (plist pl)[i := process_save c (plist pl ! i)]\<rparr>)"
  unfolding sched_ok_def live_save by simp

lemma absm_switch:
  assumes ok: "sched_ok pl" and alive: "procsched pl ! n \<in> live pl" and c: "process_thread (plist pl ! cur pl) = cpu_thread c \<or> cur pl \<notin> live pl"
  shows "absm (process_restore (plist pl ! (procsched pl ! n)) c) (pl\<lparr>curr := n\<rparr>) = absm c pl"
proof -
  have "live (pl\<lparr>curr := n\<rparr>) = live pl" by (simp add: live_def)
  then show ?thesis using c unfolding absm_def
    by (auto simp: restore_frame restore_thread cur_def fun_eq_iff)
qed

lemma absm_save:
  assumes "sched_ok pl"
  shows "absm c (pl\<lparr>plist := (plist pl)[cur pl := process_save c (plist pl ! cur pl)]\<rparr>) = absm c pl"
  using cur_lt[OF assms] unfolding absm_def live_save by (auto simp: fun_eq_iff cur_def)

text \<open>The interrupt: save, choose the next process, restore.\<close>

lemma interrupt_eq:
  assumes "sched_ok pl" "live pl \<noteq> {}"
  obtains pl' c' where "bnd (proclist_save c pl) (\<lambda>pl. switch pl c) = Inr (pl', c')"
    "sched_ok pl'" "cur pl' \<in> live pl'" "absm c' pl' = absm c pl"
proof -
  let ?p = "pl\<lparr>plist := (plist pl)[cur pl := process_save c (plist pl ! cur pl)]\<rparr>"
  have ok: "sched_ok ?p" by (rule sched_ok_save[OF assms(1)])
  have lv: "live ?p = live pl" by (rule live_save)
  obtain n where n: "switch ?p c = Inr (?p\<lparr>curr := n\<rparr>, process_restore (plist ?p ! (procsched ?p ! n)) c)"
    "n < length (procsched ?p)" "procsched ?p ! n \<in> live ?p" "sched_ok (?p\<lparr>curr := n\<rparr>)"
    using switch_eq[OF ok] assms(2) lv by metis
  have cur: "cur ?p = cur pl" by (simp add: cur_def)
  have "process_thread (plist ?p ! cur ?p) = cpu_thread c"
    unfolding cur using cur_lt[OF assms(1)] by (simp add: save_thread)
  then have a: "absm (process_restore (plist ?p ! (procsched ?p ! n)) c) (?p\<lparr>curr := n\<rparr>) = absm c pl"
    using absm_switch[OF ok n(3), of c] absm_save[OF assms(1), of c] by simp
  have "cur (?p\<lparr>curr := n\<rparr>) \<in> live (?p\<lparr>curr := n\<rparr>)" using n(3) by (simp add: cur_def live_def)
  moreover have "bnd (proclist_save c pl) (\<lambda>pl. switch pl c) =
      Inr (?p\<lparr>curr := n\<rparr>, process_restore (plist ?p ! (procsched ?p ! n)) c)"
    using n(1) by (simp add: save_eq[OF assms(1)])
  ultimately show thesis using n(4) a by (intro that)
qed

section \<open>One iteration of the run loop\<close>

text \<open>The state of a running machine: the schedule is sound and the current process is not done.\<close>

definition machine_ok :: "machine \<Rightarrow> bool" where
  "machine_ok m \<longleftrightarrow> sched_ok (procs m) \<and> cur (procs m) \<in> live (procs m)"

abbreviation threads :: "machine \<Rightarrow> shared" where
  "threads m \<equiv> absm (hw m) (procs m)"

lemma view_current: "cur pl \<in> live pl \<Longrightarrow> view (absm c pl) (cur pl) = c"
  by (simp add: view_def absm_def cpu_thread_def)

lemma absm_running: "cur pl \<in> live pl \<Longrightarrow> rc \<noteq> Rc_halt \<Longrightarrow> absm c' pl = advance (absm c pl) (cur pl) rc c'"
  by (auto simp: absm_def advance_def fun_eq_iff)

lemma done_eq:
  assumes "sched_ok pl" "cur pl \<in> live pl"
  defines "pl' \<equiv> pl\<lparr>plist := (plist pl)[cur pl := (plist pl ! cur pl)\<lparr>isdone := True\<rparr>], active := active pl - 1\<rparr>"
  shows "proclist_done pl = Inr pl'" "live pl' = live pl - {cur pl}" "sched_ok pl'" "cur pl' = cur pl"
    "absm c' pl' = advance (absm c pl) (cur pl) Rc_halt c'"
proof -
  have lt: "cur pl < length (plist pl)" by (rule cur_lt[OF assms(1)])
  show "proclist_done pl = Inr pl'" by (simp add: proclist_done_def current_eq[OF assms(1)] lt pl'_def)
  show cur: "cur pl' = cur pl" by (simp add: cur_def pl'_def)
  show lv: "live pl' = live pl - {cur pl}"
    using lt by (auto simp: live_def pl'_def nth_list_update split: if_splits)
  have "card (live pl') = card (live pl) - 1" "card (live pl) > 0"
    unfolding lv using assms(2) by (auto simp: card_gt_0_iff)
  then show "sched_ok pl'" using assms(1) by (simp add: sched_ok_def pl'_def)
  have "plist pl' ! i = plist pl ! i" if "i \<noteq> cur pl" for i using that by (simp add: pl'_def)
  then show "absm c' pl' = advance (absm c pl) (cur pl) Rc_halt c'"
    unfolding absm_def advance_def by (auto simp: lv cur fun_eq_iff)
qed

lemma interrupt_step:
  assumes ok: "machine_ok m"
  shows "\<exists>m'. bnd (proclist_save (hw m) (procs m)) (\<lambda>pl. bnd (switch pl (hw m)) (\<lambda>(pl', c').
       Inr (Running (m\<lparr>interrupt := v, procs := pl', hw := c'\<rparr>)))) = Inr (Running m') \<and>
     machine_ok m' \<and> threads m' = threads m"
proof -
  have a: "sched_ok (procs m)" "live (procs m) \<noteq> {}" using ok by (auto simp: machine_ok_def)
  obtain pl' c' where i: "bnd (proclist_save (hw m) (procs m)) (\<lambda>pl. switch pl (hw m)) = Inr (pl', c')"
    "sched_ok pl'" "cur pl' \<in> live pl'" "absm c' pl' = absm (hw m) (procs m)"
    by (rule interrupt_eq[OF a])
  let ?m = "m\<lparr>interrupt := v, procs := pl', hw := c'\<rparr>"
  have "bnd (proclist_save (hw m) (procs m)) (\<lambda>pl. bnd (switch pl (hw m)) (\<lambda>(pl', c').
       Inr (Running (m\<lparr>interrupt := v, procs := pl', hw := c'\<rparr>)))) =
     bnd (bnd (proclist_save (hw m) (procs m)) (\<lambda>pl. switch pl (hw m))) (\<lambda>(pl', c').
       Inr (Running (m\<lparr>interrupt := v, procs := pl', hw := c'\<rparr>)))" by (simp add: bnd_assoc)
  also have "\<dots> = Inr (Running ?m)" by (simp add: i(1))
  finally show ?thesis using i by (intro exI[of _ ?m]) (simp add: machine_ok_def)
qed

lemma tick_step:
  assumes "machine_ok m"
  shows "\<exists>m'. tick f b r rc m = Inr (Running m') \<and> machine_ok m' \<and> threads m' = threads m"
proof -
  let ?m = "m\<lparr>interrupt := interrupt m - 1\<rparr>"
  have "machine_ok ?m" "threads ?m = threads m" using assms by (simp_all add: machine_ok_def)
  with interrupt_step[of ?m "setint f b r"] show ?thesis by (auto simp: tick_def Let_def)
qed

lemma run_step_cases:
  assumes ok: "machine_ok m"
  shows "(\<exists>e. run_step f b m r = Inl e \<and> cycle (view (threads m) (cur (procs m))) = Inl e) \<or>
     (\<exists>rc c. cycle (view (threads m) (cur (procs m))) = Inr (rc, c) \<and>
       ((\<exists>m'. run_step f b m r = Inr (Running m') \<and> machine_ok m' \<and>
            threads m' = advance (threads m) (cur (procs m)) rc c) \<or>
        (\<exists>m'. run_step f b m r = Inr (Finished m') \<and> alive (threads m') = {} \<and>
            threads m' = advance (threads m) (cur (procs m)) rc c)))"
proof -
  let ?pl = "procs m"
  have s: "sched_ok ?pl" and lv: "cur ?pl \<in> live ?pl" using ok by (auto simp: machine_ok_def)
  have v: "view (threads m) (cur ?pl) = hw m" by (rule view_current[OF lv])
  show ?thesis
  proof (cases "cycle (hw m)")
    case (Inl e)
    then show ?thesis by (simp add: run_step_def getcurr_eq[OF s] v)
  next
    case (Inr x)
    then obtain rc c where cy: "cycle (hw m) = Inr (rc, c)" by (cases x) auto
    let ?m = "m\<lparr>hw := c, icount := icount m + 1\<rparr>"
    show ?thesis
    proof (cases "rc = Rc_halt")
      case False
      have "machine_ok ?m" using ok by (simp add: machine_ok_def)
      from tick_step[OF this, of f b r rc] absm_running[OF lv False] cy False show ?thesis
        by (auto simp: run_step_def getcurr_eq[OF s] v Let_def)
    next
      case True
      note d = done_eq[OF s lv]
      let ?d = "?pl\<lparr>plist := (plist ?pl)[cur ?pl := (plist ?pl ! cur ?pl)\<lparr>isdone := True\<rparr>], active := active ?pl - 1\<rparr>"
      have fin: "numdone ?d = getnum ?d \<longleftrightarrow> live ?d = {}"
        using d(3) by (auto simp: numdone_def getnum_def sched_ok_def)
      show ?thesis
      proof (cases "live ?d = {}")
        case e: True
        have "run_step f b m r = Inr (Finished (?m\<lparr>procs := ?d\<rparr>))"
          using cy True d(1) fin e by (simp add: run_step_def getcurr_eq[OF s] Let_def)
        moreover have "alive (absm c ?d) = {}" using e by (simp add: absm_def)
        ultimately show ?thesis using cy True d(5) by (auto simp: v)
      next
        case ne: False
        obtain n where n: "switch ?d c = Inr (?d\<lparr>curr := n\<rparr>, process_restore (plist ?d ! (procsched ?d ! n)) c)"
          "n < length (procsched ?d)" "procsched ?d ! n \<in> live ?d" "sched_ok (?d\<lparr>curr := n\<rparr>)"
          by (rule switch_eq[OF d(3) ne])
        let ?m1 = "?m\<lparr>procs := ?d\<lparr>curr := n\<rparr>, hw := process_restore (plist ?d ! (procsched ?d ! n)) c\<rparr>"
        have "cur ?d \<notin> live ?d" unfolding d(2) d(4) by simp
        then have t: "threads ?m1 = absm c ?d" using absm_switch[OF d(3) n(3), of c] by simp
        have "live (?d\<lparr>curr := n\<rparr>) = live ?d" by (simp add: live_def)
        then have "machine_ok ?m1" using n(3,4) by (simp add: machine_ok_def cur_def)
        from tick_step[OF this, of f b r rc] obtain m' where "run_step f b m r = Inr (Running m')" "machine_ok m'"
            "threads m' = threads ?m1"
          using cy True d(1) fin ne n(1) by (auto simp: run_step_def getcurr_eq[OF s] Let_def)
        then show ?thesis using cy True d(5) t by (auto simp: v)
      qed
    qed
  qed
qed

section \<open>Whole runs\<close>

text \<open>Where a run of the loop can be after some iterations, in terms of the interleaving.\<close>

definition run_result :: "shared \<Rightarrow> outcome res \<Rightarrow> bool" where
  "run_result s res \<longleftrightarrow>
     (case res of
        Inl e \<Rightarrow> \<exists>t. istep\<^sup>*\<^sup>* s t \<and> (\<exists>i \<in> alive t. cycle (view t i) = Inl e)
      | Inr (Running m) \<Rightarrow> machine_ok m \<and> istep\<^sup>*\<^sup>* s (threads m)
      | Inr (Finished m) \<Rightarrow> istep\<^sup>*\<^sup>* s (threads m) \<and> alive (threads m) = {})"

lemma run_result_step: "istep s t \<Longrightarrow> run_result t res \<Longrightarrow> run_result s res"
  by (auto simp: run_result_def intro: converse_rtranclp_into_rtranclp split: sum.splits outcome.splits)

lemma run_loop_result:
  assumes "machine_ok m" shows "run_result (threads m) (run_loop f b m rs)"
  using assms
proof (induction rs arbitrary: m)
  case Nil
  then show ?case by (simp add: run_result_def)
next
  case (Cons r rs)
  have cur: "cur (procs m) \<in> alive (threads m)" using Cons.prems by (simp add: machine_ok_def absm_def)
  from run_step_cases[OF Cons.prems, of f b r] show ?case
  proof (elim disjE exE conjE)
    fix e assume "run_step f b m r = Inl e" "cycle (view (threads m) (cur (procs m))) = Inl e"
    with cur show ?thesis by (auto simp: run_result_def)
  next
    fix rc c m' assume c: "cycle (view (threads m) (cur (procs m))) = Inr (rc, c)"
      and s: "run_step f b m r = Inr (Running m')" "machine_ok m'"
        "threads m' = advance (threads m) (cur (procs m)) rc c"
    have "istep (threads m) (threads m')" unfolding s(3) by (rule thread_step[OF cur c])
    from run_result_step[OF this Cons.IH[OF s(2)]] s(1) show ?thesis by simp
  next
    fix rc c m' assume c: "cycle (view (threads m) (cur (procs m))) = Inr (rc, c)"
      and s: "run_step f b m r = Inr (Finished m')" "alive (threads m') = {}"
        "threads m' = advance (threads m) (cur (procs m)) rc c"
    have "istep (threads m) (threads m')" unfolding s(3) by (rule thread_step[OF cur c])
    with s(1,2) show ?thesis by (auto simp: run_result_def)
  qed
qed

section \<open>Starting the threads\<close>

lemma process_init_fields:
  assumes "process_init t a stk arg = Inr p" shows "\<not> isdone p" "pc p = Num a" "cc p = (\<lambda>c. False)"
  using assms by (auto simp: process_init_def res_simps)

lemma add_threads_fields:
  assumes "add_threads a argv k i stk pl = Inr pl'" "\<forall>p \<in> set (plist pl). \<not> isdone p"
    "active pl = int (length (plist pl))"
  shows "length (plist pl') = length (plist pl) + k \<and> active pl' = int (length (plist pl')) \<and>
     procsched pl' = procsched pl \<and> (\<forall>p \<in> set (plist pl'). \<not> isdone p)"
  using assms
proof (induction k arbitrary: i stk pl)
  case (Suc k)
  from Suc.prems(1) obtain arg p where p: "process_init i a stk arg = Inr p"
    and rec: "add_threads a argv k (i + 1) (stk - 1000) (addproc pl p) = Inr pl'" by (auto simp: res_simps)
  have 1: "\<forall>q \<in> set (plist (addproc pl p)). \<not> isdone q"
    using Suc.prems(2) process_init_fields(1)[OF p] by (auto simp: addproc_def)
  have 2: "active (addproc pl p) = int (length (plist (addproc pl p)))"
    using Suc.prems(3) by (simp add: addproc_def)
  from Suc.IH[OF rec 1 2] show ?case by (simp add: addproc_def)
qed simp

lemma sched_digits:
  assumes "foldres (sched_digit pl) ps cs = Inr ps'" "\<forall>p \<in> set ps. p < length (plist pl)"
  shows "(\<forall>p \<in> set ps'. p < length (plist pl)) \<and> length ps' = length ps + length cs"
  using assms
proof (induction cs arbitrary: ps)
  case (Cons c cs)
  from Cons.prems(1) obtain qs where qs: "sched_digit pl ps c = Inr qs" "foldres (sched_digit pl) qs cs = Inr ps'"
    by (auto simp: bnd_eq_Inr_iff)
  from qs(1) obtain i where "int_of_string [c] = Inr i" "i < getnum pl" "qs = ps @ [nat i]"
    by (auto simp: sched_digit_def bnd_eq_Inr_iff split: if_splits)
  with qs(2) have i: "int_of_string [c] = Inr i" "i < getnum pl"
    "foldres (sched_digit pl) (ps @ [nat i]) cs = Inr ps'" by simp_all
  have "0 \<le> i" using i(1)
    by (auto simp: int_of_string_def strip_def nat_of_string_def split: list.splits option.splits if_splits)
  then have "\<forall>p \<in> set (ps @ [nat i]). p < length (plist pl)" using i(2) Cons.prems(2) by (auto simp: getnum_def)
  from Cons.IH[OF i(3) this] show ?case by simp
qed simp

text \<open>The threads before the first instruction.\<close>

definition boot :: "cpu \<Rightarrow> proclist \<Rightarrow> shared" where
  "boot c pl = \<lparr>smem = memory c, spmem = pmemory c,
     ctx = (\<lambda>i. if i < length (plist pl) then process_thread (plist pl ! i) else dead_thread),
     alive = {0..<length (plist pl)}\<rparr>"

lemma boot_ok:
  assumes pl: "add_threads a argv n 0 stk proclist_init = Inr pl" and fin: "finalize pl c sched = Inr (pl', c')"
  shows "sched_ok pl' \<and> cur pl' \<in> live pl' \<and> absm c' pl' = boot c pl"
proof -
  have f: "length (plist pl) = n" "active pl = int n" "procsched pl = []" "\<forall>p \<in> set (plist pl). \<not> isdone p"
    using add_threads_fields[OF pl] by (auto simp: proclist_init_def)
  have lv: "live pl'' = {0..<n}" if "plist pl'' = plist pl" for pl''
    using f that by (auto simp: live_def)
  have "plist pl' = plist pl \<and> active pl' = active pl \<and> set (procsched pl') = {0..<n} \<and> curr pl' = 0 \<and>
      proclist_restore pl' c = Inr c'"
  proof (cases "sched = []")
    case True
    define p where "p = pl\<lparr>procsched := [0..<n], curr := 0\<rparr>"
    have "bnd (proclist_restore p c) (\<lambda>c'. Inr (p, c')) = Inr (pl', c')"
      using fin True f by (simp add: finalize_def p_def Let_def)
    then have "pl' = p" "proclist_restore p c = Inr c'" by (auto simp: bnd_eq_Inr_iff)
    then show ?thesis by (simp add: p_def)
  next
    case False
    obtain ps where ps: "foldres (sched_digit pl) [] sched = Inr ps"
      using fin False f by (auto simp: finalize_def bnd_eq_Inr_iff)
    define p where "p = pl\<lparr>manual := True, procsched := ps, curr := 0\<rparr>"
    have len: "int (length (remdups ps)) = int n"
      using fin False f ps by (simp add: finalize_def split: if_splits)
    then have "bnd (proclist_restore p c) (\<lambda>c'. Inr (p, c')) = Inr (pl', c')"
      using fin False f ps by (simp add: finalize_def p_def Let_def)
    then have p: "pl' = p" "proclist_restore p c = Inr c'" by (auto simp: bnd_eq_Inr_iff)
    have "set ps \<subseteq> {0..<n}" using sched_digits[OF ps] f(1) by auto
    moreover have "card (set ps) = n" using len by (simp add: length_remdups_card_conv)
    ultimately have "set ps = {0..<n}" by (intro card_subset_eq) auto
    with p show ?thesis by (simp add: p_def)
  qed
  then have ps: "plist pl' = plist pl" "active pl' = active pl" "set (procsched pl') = {0..<n}" "curr pl' = 0"
    "proclist_restore pl' c = Inr c'" by auto
  have "procsched pl' \<noteq> []"
    using ps(4,5) by (auto simp: proclist_restore_def getcurr_def current_def list_get_def bnd_eq_Inr_iff)
  then have ok: "sched_ok pl'" using ps f lv[OF ps(1)] by (simp add: sched_ok_def)
  have cur: "cur pl' \<in> live pl'" using cur_lt[OF ok] lv[OF ps(1)] ps(1) f by simp
  have c': "c' = process_restore (plist pl' ! cur pl') c"
    using ps(5) getcurr_eq[OF ok] by (simp add: proclist_restore_def)
  have "(\<lambda>i. if i \<notin> live pl' then dead_thread else if i = cur pl' then cpu_thread c'
        else process_thread (plist pl' ! i)) =
      (\<lambda>i. if i < n then process_thread (plist pl ! i) else dead_thread)"
    unfolding lv[OF ps(1)] c' restore_thread by (rule ext) (simp add: ps(1))
  then have "absm c' pl' = boot c pl"
    unfolding absm_def boot_def by (simp add: lv[OF ps(1)] f(1) c' restore_frame)
  with ok cur show ?thesis by blast
qed

text \<open>C3. Every run is an interleaving of the threads: started on any program, with any number of
  threads, any register arguments, any schedule, any interrupt frequency and any random numbers, the
  loop is after any number of iterations in a state that the threads reach by executing one
  instruction at a time on the shared memory, each with its own registers; it returns only when every
  thread has halted; and it stops with an error only where the next instruction of some thread that
  has not halted gives that error. The search for the next thread always ends.\<close>

theorem run_interleaves:
  assumes "add_threads a argv n 0 stk proclist_init = Inr pl" "finalize pl c sched = Inr (pl', c')"
  shows "run_result (boot c pl) (run pl' c' intfreq intrand r rs)"
proof -
  obtain f b where fb: "run pl' c' intfreq intrand r rs =
      run_loop f b \<lparr>hw = c', procs = pl', interrupt = setint f b r, icount = 0\<rparr> rs"
    by (cases "manual pl'") (auto simp: run_def)
  let ?m = "\<lparr>hw = c', procs = pl', interrupt = setint f b r, icount = 0\<rparr>"
  have "machine_ok ?m" "threads ?m = boot c pl" using boot_ok[OF assms] by (auto simp: machine_ok_def)
  with run_loop_result[of ?m f b rs] show ?thesis by (simp add: fb)
qed

theorem run_interleaves_witness:
  "\<exists>pl pl' c'. add_threads 1000 [[]] 2 0 128000 proclist_init = Inr pl \<and> finalize pl (cpu_init 128) [] = Inr (pl', c') \<and>
     run_result (boot (cpu_init 128) pl) (run pl' c' 1 False 1 [1, 1])"
proof -
  obtain pl where pl: "add_threads 1000 [[]] 2 0 128000 proclist_init = Inr pl"
    by (simp add: eval_nat_numeral process_init_def list_get_def)
  then have "length (plist pl) = 2" "procsched pl = []"
    using add_threads_fields[OF pl] by (auto simp: proclist_init_def)
  then obtain pl' c' where f: "finalize pl (cpu_init 128) [] = Inr (pl', c')"
    by (simp add: finalize_def proclist_restore_def getcurr_def current_def list_get_def upt_rec Let_def)
  from run_interleaves[OF pl f, of 1 False 1 "[1, 1]"] pl f show ?thesis by blast
qed

section \<open>Programs that are safe under every interleaving\<close>

locale safe_program =
  fixes I :: "shared \<Rightarrow> bool"
  assumes safe_step: "I s \<Longrightarrow> i \<in> alive s \<Longrightarrow> \<exists>rc c. cycle (view s i) = Inr (rc, c) \<and> I (advance s i rc c)"
begin

lemma istep_inv: "istep s t \<Longrightarrow> I s \<Longrightarrow> I t"
  by (erule istepE) (use safe_step in fastforce)

lemma reach_inv:
  assumes "istep\<^sup>*\<^sup>* s t" "I s" shows "I t"
  using assms by (induction rule: rtranclp_induct) (auto intro: istep_inv)

lemma run_safe:
  assumes "run_result s res" "I s"
  shows "\<exists>out. res = Inr out \<and> (case out of Running m \<Rightarrow> machine_ok m \<and> I (threads m)
     | Finished m \<Rightarrow> I (threads m) \<and> alive (threads m) = {})"
proof (cases res)
  case (Inl e)
  then obtain t i where "istep\<^sup>*\<^sup>* s t" "i \<in> alive t" "cycle (view t i) = Inl e"
    using assms(1) by (auto simp: run_result_def)
  with safe_step[OF reach_inv[OF _ assms(2)], of t i] show ?thesis by auto
next
  case (Inr out)
  with assms show ?thesis by (cases out) (auto simp: run_result_def intro: reach_inv)
qed

end

end
