(* ===== verification/X86_Locks.thy ===== *)
theory X86_Locks
  imports X86_Interleave
begin

text \<open>
  The lock programs that come with the simulator, as the assembler loads them, run by any number of
  threads under any schedule: mutual exclusion and the final value of the shared counter.
\<close>

section \<open>Code in memory\<close>

definition code_at :: "int \<Rightarrow> instr list \<Rightarrow> (int \<rightharpoonup> val) \<Rightarrow> (int \<rightharpoonup> string) \<Rightarrow> bool" where
  "code_at a prog mem pm \<longleftrightarrow>
     (\<forall>k < length prog. mem (a + int k) = Some (Code (prog ! k)) \<and> pm (a + int k) \<noteq> None)"

section \<open>Locks with one flag word\<close>

text \<open>
  A program in which a critical section guarded by the word at 100 increments the counter at 104.
  For a thread with context \<open>t\<close> while the counter is \<open>n\<close>: \<open>tok n t\<close> is what holds of its registers,
  \<open>crit t\<close> says that it has the lock, \<open>rest t\<close> is how many increments it has still to make. The
  assumption describes one instruction of one thread.
\<close>

definition thread_cpu :: "thread \<Rightarrow> (int \<rightharpoonup> val) \<Rightarrow> (int \<rightharpoonup> string) \<Rightarrow> cpu" where
  "thread_cpu t mem pm = \<lparr>PC = tpc t, registers = tregs t, conditions = tcc t, memory = mem, pmemory = pm\<rparr>"

lemma view_thread_cpu: "view s i = thread_cpu (ctx s i) (smem s) (spmem s)"
  by (simp add: view_def thread_cpu_def)

lemma exec_pmemory: "exec i c = Inr c' \<Longrightarrow> pmemory c' = pmemory c"
  by (cases i) (auto simp: res_simps set_reg_def set_mem_def arith_def test_def jump_if_def push_val_def Let_def
      split: if_splits sum.splits)

text \<open>Executing the instruction at the program counter.\<close>

lemma cycle_code:
  assumes "code_at 1000 prog mem pm" "tpc t = Num (1000 + int k)" "k < length prog"
  shows "cycle (thread_cpu t mem pm) =
     bnd (exec (prog ! k) (thread_cpu (t\<lparr>tpc := Num (1001 + int k)\<rparr>) mem pm)) (\<lambda>c. Inr (result_code (prog ! k), c))"
proof -
  obtain p where m: "mem (1000 + int k) = Some (Code (prog ! k))" "pm (1000 + int k) = Some p"
    using assms(1,3) by (auto simp: code_at_def)
  show ?thesis
  proof (cases "exec (prog ! k) (thread_cpu (t\<lparr>tpc := Num (1001 + int k)\<rparr>) mem pm)")
    case (Inl e)
    with m assms(2) show ?thesis by (simp add: cycle_def thread_cpu_def add.commute)
  next
    case (Inr c)
    with exec_pmemory[OF Inr] m assms(2) show ?thesis by (simp add: cycle_def thread_cpu_def add.commute)
  qed
qed

lemmas exec_simps = set_reg_def set_mem_def effective_def arith_def test_def jump_if_def thread_cpu_def
  cpu_thread_def

locale flag_lock =
  fixes prog :: "instr list"
    and tok :: "int \<Rightarrow> thread \<Rightarrow> bool"
    and crit :: "thread \<Rightarrow> bool"
    and rest :: "thread \<Rightarrow> int"
  assumes outside: "tok n t \<Longrightarrow> \<not> crit t \<Longrightarrow> tok n' t"
    and instruction: "tok n t \<Longrightarrow> code_at 1000 prog mem pm \<Longrightarrow> mem 100 = Some (Num l) \<Longrightarrow> mem 104 = Some (Num n) \<Longrightarrow>
      l = 0 \<or> l = 1 \<Longrightarrow> (crit t \<Longrightarrow> l = 1) \<Longrightarrow>
      \<exists>rc c l' n'. cycle (thread_cpu t mem pm) = Inr (rc, c) \<and> pmemory c = pm \<and>
        memory c 100 = Some (Num l') \<and> memory c 104 = Some (Num n') \<and>
        (\<forall>a. a \<noteq> 100 \<and> a \<noteq> 104 \<longrightarrow> memory c a = mem a) \<and>
        (if rc = Rc_halt then l' = l \<and> n' = n \<and> rest t = 0 \<and> \<not> crit t
         else tok n' (cpu_thread c) \<and> (n' = n \<or> crit t) \<and> n' + rest (cpu_thread c) = n + rest t \<and>
           (crit (cpu_thread c) = crit t \<and> l' = l \<or>
            \<not> crit t \<and> crit (cpu_thread c) \<and> l = 0 \<and> l' = 1 \<or>
            crit t \<and> \<not> crit (cpu_thread c) \<and> l' = 0))"
begin

definition lock_inv :: "int \<Rightarrow> shared \<Rightarrow> bool" where
  "lock_inv N s \<longleftrightarrow> code_at 1000 prog (smem s) (spmem s) \<and> finite (alive s) \<and>
     (\<exists>l n. smem s 100 = Some (Num l) \<and> smem s 104 = Some (Num n) \<and> (\<forall>i \<in> alive s. tok n (ctx s i)) \<and>
        n + (\<Sum>i \<in> alive s. rest (ctx s i)) = N \<and>
        (l = 0 \<and> (\<forall>i \<in> alive s. \<not> crit (ctx s i)) \<or>
         l = 1 \<and> (\<exists>j \<in> alive s. \<forall>i \<in> alive s. crit (ctx s i) \<longleftrightarrow> i = j)))"

lemma code_kept:
  assumes "code_at 1000 prog mem pm" "\<forall>a. a \<noteq> 100 \<and> a \<noteq> 104 \<longrightarrow> mem' a = mem a"
  shows "code_at 1000 prog mem' pm"
  using assms by (simp add: code_at_def)

lemma lock_step:
  assumes inv: "lock_inv N s" and i: "i \<in> alive s"
  shows "\<exists>rc c. cycle (view s i) = Inr (rc, c) \<and> lock_inv N (advance s i rc c)"
proof -
  obtain l n where code: "code_at 1000 prog (smem s) (spmem s)" and fin: "finite (alive s)"
    and l: "smem s 100 = Some (Num l)" and n: "smem s 104 = Some (Num n)"
    and tok: "\<And>j. j \<in> alive s \<Longrightarrow> tok n (ctx s j)" and sum: "n + (\<Sum>j \<in> alive s. rest (ctx s j)) = N"
    and lk: "l = 0 \<and> (\<forall>i \<in> alive s. \<not> crit (ctx s i)) \<or>
         l = 1 \<and> (\<exists>j \<in> alive s. \<forall>i \<in> alive s. crit (ctx s i) \<longleftrightarrow> i = j)"
    using inv unfolding lock_inv_def by blast
  have lr: "l = 0 \<or> l = 1" "crit (ctx s i) \<Longrightarrow> l = 1" using lk i by auto
  let ?t = "ctx s i"
  from instruction[OF tok[OF i] code l n lr] obtain rc c l' n' where
    cy: "cycle (view s i) = Inr (rc, c)" "pmemory c = spmem s"
    and mem: "memory c 100 = Some (Num l')" "memory c 104 = Some (Num n')"
      "\<forall>a. a \<noteq> 100 \<and> a \<noteq> 104 \<longrightarrow> memory c a = smem s a"
    and st: "if rc = Rc_halt then l' = l \<and> n' = n \<and> rest ?t = 0 \<and> \<not> crit ?t
         else tok n' (cpu_thread c) \<and> (n' = n \<or> crit ?t) \<and> n' + rest (cpu_thread c) = n + rest ?t \<and>
           (crit (cpu_thread c) = crit ?t \<and> l' = l \<or>
            \<not> crit ?t \<and> crit (cpu_thread c) \<and> l = 0 \<and> l' = 1 \<or>
            crit ?t \<and> \<not> crit (cpu_thread c) \<and> l' = 0)"
    unfolding view_thread_cpu by blast
  have code': "code_at 1000 prog (memory c) (pmemory c)" using code_kept[OF code mem(3)] cy(2) by simp
  have split: "(\<Sum>j \<in> alive s. rest (ctx s j)) = rest ?t + (\<Sum>j \<in> alive s - {i}. rest (ctx s j))"
    by (rule sum.remove[OF fin i])
  show ?thesis
  proof (cases "rc = Rc_halt")
    case True
    let ?s = "advance s i rc c"
    have "alive ?s = alive s - {i}" "\<And>j. j \<noteq> i \<Longrightarrow> ctx ?s j = ctx s j" "smem ?s = memory c" "spmem ?s = pmemory c"
      using True by (simp_all add: advance_def)
    moreover have "l' = l" "n' = n" "rest ?t = 0" "\<not> crit ?t" using st True by auto
    ultimately have "lock_inv N ?s"
      using code' fin mem tok sum split lk unfolding lock_inv_def by auto
    with cy(1) show ?thesis by blast
  next
    case False
    let ?s = "advance s i rc c" and ?t' = "cpu_thread c"
    have f: "alive ?s = alive s" "smem ?s = memory c" "spmem ?s = pmemory c" "ctx ?s i = ?t'"
      and other: "\<And>j. j \<noteq> i \<Longrightarrow> ctx ?s j = ctx s j"
      using False by (simp_all add: advance_def)
    have st': "tok n' ?t'" "n' = n \<or> crit ?t" "n' + rest ?t' = n + rest ?t"
      "crit ?t' = crit ?t \<and> l' = l \<or> \<not> crit ?t \<and> crit ?t' \<and> l = 0 \<and> l' = 1 \<or> crit ?t \<and> \<not> crit ?t' \<and> l' = 0"
      using st False by auto
    have alone: "\<not> crit (ctx s j)" if "crit ?t" "j \<in> alive s" "j \<noteq> i" for j using lk i that by auto
    have "tok n' (ctx ?s j)" if "j \<in> alive s" for j
      using st'(1,2) that tok[OF that] outside[OF tok[OF that], of n'] alone[of j] other[of j] f(4)
      by (cases "j = i") auto
    moreover have "(\<Sum>j \<in> alive s. rest (ctx ?s j)) = rest ?t' + (\<Sum>j \<in> alive s - {i}. rest (ctx s j))"
      using sum.remove[OF fin i, of "\<lambda>j. rest (ctx ?s j)"] f(4) other by simp
    moreover have "l' = 0 \<and> (\<forall>j \<in> alive s. \<not> crit (ctx ?s j)) \<or>
        l' = 1 \<and> (\<exists>h \<in> alive s. \<forall>j \<in> alive s. crit (ctx ?s j) \<longleftrightarrow> j = h)"
      using st'(4)
    proof (elim disjE)
      assume a: "crit ?t' = crit ?t \<and> l' = l"
      have "crit (ctx ?s j) = crit (ctx s j)" for j using a f(4) other[of j] by (cases "j = i") auto
      with a lk show ?thesis by simp
    next
      assume a: "\<not> crit ?t \<and> crit ?t' \<and> l = 0 \<and> l' = 1"
      have "crit (ctx ?s j) \<longleftrightarrow> j = i" if "j \<in> alive s" for j
        using a lk that f(4) other[of j] by (cases "j = i") auto
      with a i show ?thesis by blast
    next
      assume a: "crit ?t \<and> \<not> crit ?t' \<and> l' = 0"
      have "\<not> crit (ctx ?s j)" if "j \<in> alive s" for j
        using a alone[of j] that f(4) other[of j] by (cases "j = i") auto
      with a show ?thesis by blast
    qed
    ultimately have "lock_inv N ?s"
      using code' fin mem(1,2) st'(3) sum split unfolding lock_inv_def f by auto
    with cy(1) show ?thesis by blast
  qed
qed

lemma exclusive:
  "lock_inv N s \<Longrightarrow> i \<in> alive s \<Longrightarrow> j \<in> alive s \<Longrightarrow> crit (ctx s i) \<Longrightarrow> crit (ctx s j) \<Longrightarrow> i = j"
  unfolding lock_inv_def by (elim conjE exE disjE bexE) auto

lemma complete: "lock_inv N s \<Longrightarrow> alive s = {} \<Longrightarrow> smem s 104 = Some (Num N)"
  by (auto simp: lock_inv_def)

end

sublocale flag_lock \<subseteq> safe_program "lock_inv N" for N
  by unfold_locales (rule lock_step)

section \<open>The test-and-set lock\<close>

definition test_and_set :: "instr list" where
  "test_and_set =
    [move_i_to_r 1 REG_AX, atomic_exchange REG_AX 100 REG_ZERO REG_ZERO, test_i_r 0 REG_AX, jump_notequal 1000,
     move_m_to_r 104 REG_ZERO REG_ZERO 1 REG_AX, add_i_to_r 1 REG_AX, move_r_to_m REG_AX 104 REG_ZERO REG_ZERO 1,
     move_i_to_m 0 100 REG_ZERO REG_ZERO 1, sub_i_to_r 1 REG_BX, test_i_r 0 REG_BX, jump_greaterthan 1000, halt]"

definition regnum :: "thread \<Rightarrow> reg \<Rightarrow> int" where
  "regnum t r = (case tregs t r of Num n \<Rightarrow> n | Code i \<Rightarrow> 0)"

definition tas_ok :: "int \<Rightarrow> thread \<Rightarrow> bool" where
  "tas_ok n t \<longleftrightarrow> tregs t REG_ZERO = Num 0 \<and> (\<exists>b. tregs t REG_BX = Num b \<and>
     (tpc t = Num 1000 \<or> tpc t = Num 1001 \<and> tregs t REG_AX = Num 1 \<or>
      tpc t = Num 1002 \<and> (tregs t REG_AX = Num 0 \<or> tregs t REG_AX = Num 1) \<or> tpc t = Num 1003 \<or> tpc t = Num 1004 \<or>
      tpc t = Num 1005 \<and> tregs t REG_AX = Num n \<or> tpc t = Num 1006 \<and> tregs t REG_AX = Num (n + 1) \<or>
      tpc t = Num 1007 \<or> tpc t = Num 1008 \<or> tpc t = Num 1009 \<or>
      tpc t = Num 1010 \<and> tcc t COND_GT = (0 < b) \<or> tpc t = Num 1011 \<and> b \<le> 0))"

definition tas_crit :: "thread \<Rightarrow> bool" where
  "tas_crit t \<longleftrightarrow> tpc t \<in> {Num 1004, Num 1005, Num 1006, Num 1007} \<or>
     tpc t = Num 1002 \<and> tregs t REG_AX = Num 0 \<or> tpc t = Num 1003 \<and> \<not> tcc t COND_NEQ"

definition tas_rest :: "thread \<Rightarrow> int" where
  "tas_rest t =
     (if tpc t \<in> {Num 1007, Num 1008} then max 0 (regnum t REG_BX - 1)
      else if tpc t \<in> {Num 1009, Num 1010, Num 1011} then max 0 (regnum t REG_BX)
      else max 1 (regnum t REG_BX))"

interpretation test_and_set_lock: flag_lock test_and_set tas_ok tas_crit tas_rest
proof
  fix n n' t assume "tas_ok n t" "\<not> tas_crit t"
  then show "tas_ok n' t" by (auto simp: tas_ok_def tas_crit_def)
next
  fix n t mem pm l
  assume ok: "tas_ok n t" and code: "code_at 1000 test_and_set mem pm" and l: "mem 100 = Some (Num l)"
    and n: "mem 104 = Some (Num n)" and l01: "l = 0 \<or> l = 1" and cr: "tas_crit t \<Longrightarrow> l = 1"
  let ?post = "\<lambda>rc c l' n'. cycle (thread_cpu t mem pm) = Inr (rc, c) \<and> pmemory c = pm \<and>
        memory c 100 = Some (Num l') \<and> memory c 104 = Some (Num n') \<and>
        (\<forall>a. a \<noteq> 100 \<and> a \<noteq> 104 \<longrightarrow> memory c a = mem a) \<and>
        (if rc = Rc_halt then l' = l \<and> n' = n \<and> tas_rest t = 0 \<and> \<not> tas_crit t
         else tas_ok n' (cpu_thread c) \<and> (n' = n \<or> tas_crit t) \<and> n' + tas_rest (cpu_thread c) = n + tas_rest t \<and>
           (tas_crit (cpu_thread c) = tas_crit t \<and> l' = l \<or>
            \<not> tas_crit t \<and> tas_crit (cpu_thread c) \<and> l = 0 \<and> l' = 1 \<or>
            tas_crit t \<and> \<not> tas_crit (cpu_thread c) \<and> l' = 0))"
  note defs = test_and_set_def exec_simps tas_ok_def tas_crit_def tas_rest_def regnum_def
  obtain b where z: "tregs t REG_ZERO = Num 0" and b: "tregs t REG_BX = Num b"
    and pc: "tpc t = Num 1000 \<or> tpc t = Num 1001 \<and> tregs t REG_AX = Num 1 \<or>
      tpc t = Num 1002 \<and> (tregs t REG_AX = Num 0 \<or> tregs t REG_AX = Num 1) \<or> tpc t = Num 1003 \<or> tpc t = Num 1004 \<or>
      tpc t = Num 1005 \<and> tregs t REG_AX = Num n \<or> tpc t = Num 1006 \<and> tregs t REG_AX = Num (n + 1) \<or>
      tpc t = Num 1007 \<or> tpc t = Num 1008 \<or> tpc t = Num 1009 \<or>
      tpc t = Num 1010 \<and> tcc t COND_GT = (0 < b) \<or> tpc t = Num 1011 \<and> b \<le> 0"
    using ok unfolding tas_ok_def by blast
  from pc show "\<exists>rc c l' n'. ?post rc c l' n'"
  proof (elim disjE conjE)
    assume "tpc t = Num 1000"
    with cycle_code[OF code, of t 0] z b l n cr show ?thesis by (simp add: defs)
  next
    assume "tpc t = Num 1001" "tregs t REG_AX = Num 1"
    with cycle_code[OF code, of t 1] z b l n cr l01 show ?thesis by (auto simp: defs)
  next
    assume "tpc t = Num 1002" "tregs t REG_AX = Num 0"
    with cycle_code[OF code, of t 2] z b l n cr show ?thesis by (simp add: defs)
  next
    assume "tpc t = Num 1002" "tregs t REG_AX = Num 1"
    with cycle_code[OF code, of t 2] z b l n cr show ?thesis by (simp add: defs)
  next
    assume "tpc t = Num 1003"
    with cycle_code[OF code, of t 3] z b l n cr show ?thesis by (simp add: defs)
  next
    assume "tpc t = Num 1004"
    with cycle_code[OF code, of t 4] z b l n cr show ?thesis by (simp add: defs)
  next
    assume "tpc t = Num 1005" "tregs t REG_AX = Num n"
    with cycle_code[OF code, of t 5] z b l n cr show ?thesis by (simp add: defs)
  next
    assume "tpc t = Num 1006" "tregs t REG_AX = Num (n + 1)"
    with cycle_code[OF code, of t 6] z b l n cr show ?thesis by (simp add: defs)
  next
    assume "tpc t = Num 1007"
    with cycle_code[OF code, of t 7] z b l n cr show ?thesis by (simp add: defs)
  next
    assume "tpc t = Num 1008"
    with cycle_code[OF code, of t 8] z b l n cr show ?thesis by (simp add: defs)
  next
    assume "tpc t = Num 1009"
    with cycle_code[OF code, of t 9] z b l n cr show ?thesis by (simp add: defs)
  next
    assume "tpc t = Num 1010" "tcc t COND_GT = (0 < b)"
    with cycle_code[OF code, of t 10] z b l n cr show ?thesis by (simp add: defs)
  next
    assume "tpc t = Num 1011" "b \<le> 0"
    with cycle_code[OF code, of t 11] z b l n cr show ?thesis by (simp add: defs)
  qed
qed

section \<open>The ticket lock\<close>

definition ticket :: "instr list" where
  "ticket =
    [move_i_to_r 1 REG_AX, fetchadd REG_AX 100 REG_ZERO REG_ZERO, move_m_to_r 104 REG_ZERO REG_ZERO 1 REG_CX,
     test_r_r REG_CX REG_AX, jump_notequal 1002, move_m_to_r 108 REG_ZERO REG_ZERO 1 REG_AX, add_i_to_r 1 REG_AX,
     move_r_to_m REG_AX 108 REG_ZERO REG_ZERO 1, move_i_to_r 1 REG_AX, fetchadd REG_AX 104 REG_ZERO REG_ZERO,
     sub_i_to_r 1 REG_BX, test_i_r 0 REG_BX, jump_greaterthan 1000, halt]"

text \<open>The ticket a thread holds while the lock serves \<open>s\<close>: the one it drew while it waits, and \<open>s\<close>
  itself in the critical section, where the register is used for the counter.\<close>

definition tkt_crit :: "thread \<Rightarrow> bool" where
  "tkt_crit t \<longleftrightarrow> tpc t \<in> {Num 1005, Num 1006, Num 1007, Num 1008, Num 1009}"

definition tkt_held :: "int \<Rightarrow> thread \<Rightarrow> int option" where
  "tkt_held s t =
     (if tpc t \<in> {Num 1002, Num 1003, Num 1004} then Some (regnum t REG_AX)
      else if tkt_crit t then Some s else None)"

definition tkt_ok :: "int \<Rightarrow> int \<Rightarrow> thread \<Rightarrow> bool" where
  "tkt_ok s n t \<longleftrightarrow> tregs t REG_ZERO = Num 0 \<and> (\<exists>b. tregs t REG_BX = Num b \<and>
     (tpc t = Num 1000 \<or> tpc t = Num 1001 \<and> tregs t REG_AX = Num 1 \<or>
      tpc t = Num 1002 \<and> (\<exists>k. tregs t REG_AX = Num k) \<or>
      tpc t = Num 1003 \<and> (\<exists>k c. tregs t REG_AX = Num k \<and> tregs t REG_CX = Num c \<and> c \<le> s) \<or>
      tpc t = Num 1004 \<and> (\<exists>k. tregs t REG_AX = Num k \<and> (\<not> tcc t COND_NEQ \<longrightarrow> k = s)) \<or>
      tpc t = Num 1005 \<or> tpc t = Num 1006 \<and> tregs t REG_AX = Num n \<or> tpc t = Num 1007 \<and> tregs t REG_AX = Num (n + 1) \<or>
      tpc t = Num 1008 \<or> tpc t = Num 1009 \<and> tregs t REG_AX = Num 1 \<or> tpc t = Num 1010 \<or> tpc t = Num 1011 \<or>
      tpc t = Num 1012 \<and> tcc t COND_GT = (0 < b) \<or> tpc t = Num 1013 \<and> b \<le> 0))"

definition tkt_rest :: "thread \<Rightarrow> int" where
  "tkt_rest t =
     (if tpc t \<in> {Num 1008, Num 1009, Num 1010} then max 0 (regnum t REG_BX - 1)
      else if tpc t \<in> {Num 1011, Num 1012, Num 1013} then max 0 (regnum t REG_BX)
      else max 1 (regnum t REG_BX))"

lemma ticket_instruction:
  assumes ok: "tkt_ok s n t" and code: "code_at 1000 ticket mem pm" and k: "mem 100 = Some (Num k)"
    and s: "mem 104 = Some (Num s)" and n: "mem 108 = Some (Num n)"
    and h: "\<And>j. tkt_held s t = Some j \<Longrightarrow> s \<le> j"
  shows "\<exists>rc c k' s' n'. cycle (thread_cpu t mem pm) = Inr (rc, c) \<and> pmemory c = pm \<and>
     memory c 100 = Some (Num k') \<and> memory c 104 = Some (Num s') \<and> memory c 108 = Some (Num n') \<and>
     (\<forall>a. a \<noteq> 100 \<and> a \<noteq> 104 \<and> a \<noteq> 108 \<longrightarrow> memory c a = mem a) \<and>
     (if rc = Rc_halt then k' = k \<and> s' = s \<and> n' = n \<and> tkt_rest t = 0 \<and> tkt_held s t = None
      else tkt_ok s' n' (cpu_thread c) \<and> n' + tkt_rest (cpu_thread c) = n + tkt_rest t \<and>
        (k' = k \<and> s' = s \<and> tkt_held s (cpu_thread c) = tkt_held s t \<and> (n' = n \<or> tkt_held s t = Some s \<and> tkt_crit t) \<or>
         k' = k + 1 \<and> s' = s \<and> n' = n \<and> tkt_held s t = None \<and> tkt_held s (cpu_thread c) = Some k \<or>
         k' = k \<and> s' = s + 1 \<and> n' = n \<and> tkt_held s t = Some s \<and> tkt_held s' (cpu_thread c) = None))"
proof -
  let ?post = "\<lambda>rc c k' s' n'. cycle (thread_cpu t mem pm) = Inr (rc, c) \<and> pmemory c = pm \<and>
     memory c 100 = Some (Num k') \<and> memory c 104 = Some (Num s') \<and> memory c 108 = Some (Num n') \<and>
     (\<forall>a. a \<noteq> 100 \<and> a \<noteq> 104 \<and> a \<noteq> 108 \<longrightarrow> memory c a = mem a) \<and>
     (if rc = Rc_halt then k' = k \<and> s' = s \<and> n' = n \<and> tkt_rest t = 0 \<and> tkt_held s t = None
      else tkt_ok s' n' (cpu_thread c) \<and> n' + tkt_rest (cpu_thread c) = n + tkt_rest t \<and>
        (k' = k \<and> s' = s \<and> tkt_held s (cpu_thread c) = tkt_held s t \<and> (n' = n \<or> tkt_held s t = Some s \<and> tkt_crit t) \<or>
         k' = k + 1 \<and> s' = s \<and> n' = n \<and> tkt_held s t = None \<and> tkt_held s (cpu_thread c) = Some k \<or>
         k' = k \<and> s' = s + 1 \<and> n' = n \<and> tkt_held s t = Some s \<and> tkt_held s' (cpu_thread c) = None))"
  note defs = ticket_def exec_simps tkt_ok_def tkt_crit_def tkt_held_def tkt_rest_def regnum_def
  obtain b where z: "tregs t REG_ZERO = Num 0" and b: "tregs t REG_BX = Num b"
    and pc: "tpc t = Num 1000 \<or> tpc t = Num 1001 \<and> tregs t REG_AX = Num 1 \<or>
      tpc t = Num 1002 \<and> (\<exists>k. tregs t REG_AX = Num k) \<or>
      tpc t = Num 1003 \<and> (\<exists>k c. tregs t REG_AX = Num k \<and> tregs t REG_CX = Num c \<and> c \<le> s) \<or>
      tpc t = Num 1004 \<and> (\<exists>k. tregs t REG_AX = Num k \<and> (\<not> tcc t COND_NEQ \<longrightarrow> k = s)) \<or>
      tpc t = Num 1005 \<or> tpc t = Num 1006 \<and> tregs t REG_AX = Num n \<or> tpc t = Num 1007 \<and> tregs t REG_AX = Num (n + 1) \<or>
      tpc t = Num 1008 \<or> tpc t = Num 1009 \<and> tregs t REG_AX = Num 1 \<or> tpc t = Num 1010 \<or> tpc t = Num 1011 \<or>
      tpc t = Num 1012 \<and> tcc t COND_GT = (0 < b) \<or> tpc t = Num 1013 \<and> b \<le> 0"
    using ok unfolding tkt_ok_def by blast
  note mem = z b k s n
  from pc show "\<exists>rc c k' s' n'. ?post rc c k' s' n'"
  proof (elim disjE conjE exE)
    assume "tpc t = Num 1000"
    with cycle_code[OF code, of t 0] mem show ?thesis by (simp add: defs)
  next
    assume "tpc t = Num 1001" "tregs t REG_AX = Num 1"
    with cycle_code[OF code, of t 1] mem show ?thesis by (simp add: defs)
  next
    fix j assume "tpc t = Num 1002" "tregs t REG_AX = Num j"
    with cycle_code[OF code, of t 2] mem show ?thesis by (simp add: defs)
  next
    fix j c assume "tpc t = Num 1003" "tregs t REG_AX = Num j" "tregs t REG_CX = Num c" "c \<le> s"
    with cycle_code[OF code, of t 3] mem h[of j] show ?thesis by (simp add: defs)
  next
    fix j assume "tpc t = Num 1004" "tregs t REG_AX = Num j" "\<not> tcc t COND_NEQ \<longrightarrow> j = s"
    with cycle_code[OF code, of t 4] mem show ?thesis by (simp add: defs)
  next
    assume "tpc t = Num 1005"
    with cycle_code[OF code, of t 5] mem show ?thesis by (simp add: defs)
  next
    assume "tpc t = Num 1006" "tregs t REG_AX = Num n"
    with cycle_code[OF code, of t 6] mem show ?thesis by (simp add: defs)
  next
    assume "tpc t = Num 1007" "tregs t REG_AX = Num (n + 1)"
    with cycle_code[OF code, of t 7] mem show ?thesis by (simp add: defs)
  next
    assume "tpc t = Num 1008"
    with cycle_code[OF code, of t 8] mem show ?thesis by (simp add: defs)
  next
    assume "tpc t = Num 1009" "tregs t REG_AX = Num 1"
    with cycle_code[OF code, of t 9] mem show ?thesis by (simp add: defs)
  next
    assume "tpc t = Num 1010"
    with cycle_code[OF code, of t 10] mem show ?thesis by (simp add: defs)
  next
    assume "tpc t = Num 1011"
    with cycle_code[OF code, of t 11] mem show ?thesis by (simp add: defs)
  next
    assume "tpc t = Num 1012" "tcc t COND_GT = (0 < b)"
    with cycle_code[OF code, of t 12] mem show ?thesis by (simp add: defs)
  next
    assume "tpc t = Num 1013" "b \<le> 0"
    with cycle_code[OF code, of t 13] mem show ?thesis by (simp add: defs)
  qed
qed

text \<open>A thread that does not hold the ticket being served is not affected by the one that does.\<close>

lemma tkt_other:
  assumes "tkt_ok s n u" "tkt_held s u \<noteq> Some s" "s \<le> s'"
  shows "tkt_ok s' n' u" "tkt_held s' u = tkt_held s u"
  using assms by (auto simp: tkt_ok_def tkt_held_def tkt_crit_def regnum_def)

definition ticket_inv :: "int \<Rightarrow> shared \<Rightarrow> bool" where
  "ticket_inv N st \<longleftrightarrow> code_at 1000 ticket (smem st) (spmem st) \<and> finite (alive st) \<and>
     (\<exists>k s n. smem st 100 = Some (Num k) \<and> smem st 104 = Some (Num s) \<and> smem st 108 = Some (Num n) \<and> s \<le> k \<and>
        (\<forall>i \<in> alive st. tkt_ok s n (ctx st i) \<and> (\<forall>j. tkt_held s (ctx st i) = Some j \<longrightarrow> s \<le> j \<and> j < k)) \<and>
        (\<forall>i \<in> alive st. \<forall>j \<in> alive st. i \<noteq> j \<longrightarrow> tkt_held s (ctx st i) \<noteq> None \<longrightarrow>
           tkt_held s (ctx st i) \<noteq> tkt_held s (ctx st j)) \<and>
        n + (\<Sum>i \<in> alive st. tkt_rest (ctx st i)) = N)"

lemma ticket_step:
  assumes inv: "ticket_inv N st" and i: "i \<in> alive st"
  shows "\<exists>rc c. cycle (view st i) = Inr (rc, c) \<and> ticket_inv N (advance st i rc c)"
proof -
  obtain k s n where code: "code_at 1000 ticket (smem st) (spmem st)" and fin: "finite (alive st)"
    and k: "smem st 100 = Some (Num k)" and s: "smem st 104 = Some (Num s)" and n: "smem st 108 = Some (Num n)"
    and ok: "\<And>j. j \<in> alive st \<Longrightarrow> tkt_ok s n (ctx st j)"
    and held: "\<And>j h. j \<in> alive st \<Longrightarrow> tkt_held s (ctx st j) = Some h \<Longrightarrow> s \<le> h \<and> h < k"
    and dist: "\<And>i j. i \<in> alive st \<Longrightarrow> j \<in> alive st \<Longrightarrow> i \<noteq> j \<Longrightarrow> tkt_held s (ctx st i) \<noteq> None \<Longrightarrow>
           tkt_held s (ctx st i) \<noteq> tkt_held s (ctx st j)"
    and sum: "n + (\<Sum>i \<in> alive st. tkt_rest (ctx st i)) = N" and sk: "s \<le> k"
    using inv unfolding ticket_inv_def by blast
  let ?t = "ctx st i"
  have hi: "\<And>j. tkt_held s ?t = Some j \<Longrightarrow> s \<le> j" using held[OF i] by blast
  from ticket_instruction[OF ok[OF i] code k s n hi] obtain rc c k' s' n' where
    cy: "cycle (view st i) = Inr (rc, c)" "pmemory c = spmem st"
    and mem: "memory c 100 = Some (Num k')" "memory c 104 = Some (Num s')" "memory c 108 = Some (Num n')"
      "\<forall>a. a \<noteq> 100 \<and> a \<noteq> 104 \<and> a \<noteq> 108 \<longrightarrow> memory c a = smem st a"
    and res: "if rc = Rc_halt then k' = k \<and> s' = s \<and> n' = n \<and> tkt_rest ?t = 0 \<and> tkt_held s ?t = None
      else tkt_ok s' n' (cpu_thread c) \<and> n' + tkt_rest (cpu_thread c) = n + tkt_rest ?t \<and>
        (k' = k \<and> s' = s \<and> tkt_held s (cpu_thread c) = tkt_held s ?t \<and> (n' = n \<or> tkt_held s ?t = Some s \<and> tkt_crit ?t) \<or>
         k' = k + 1 \<and> s' = s \<and> n' = n \<and> tkt_held s ?t = None \<and> tkt_held s (cpu_thread c) = Some k \<or>
         k' = k \<and> s' = s + 1 \<and> n' = n \<and> tkt_held s ?t = Some s \<and> tkt_held s' (cpu_thread c) = None)"
    unfolding view_thread_cpu by blast
  have code': "code_at 1000 ticket (memory c) (pmemory c)"
    using code mem(4) cy(2) by (simp add: code_at_def)
  have split: "(\<Sum>j \<in> alive st. tkt_rest (ctx st j)) = tkt_rest ?t + (\<Sum>j \<in> alive st - {i}. tkt_rest (ctx st j))"
    by (rule sum.remove[OF fin i])
  let ?s = "advance st i rc c"
  have other: "ctx ?s j = ctx st j" if "j \<noteq> i" for j using that by (simp add: advance_def)
  have fr: "smem ?s = memory c" "spmem ?s = pmemory c" by (simp_all add: advance_def)
  have "ticket_inv N ?s"
  proof (cases "rc = Rc_halt")
    case True
    have al: "alive ?s = alive st - {i}" using True by (simp add: advance_def)
    have v: "k' = k" "s' = s" "n' = n" "tkt_rest ?t = 0" using res True by auto
    have "tkt_ok s n (ctx ?s j)" "\<And>h. tkt_held s (ctx ?s j) = Some h \<Longrightarrow> s \<le> h \<and> h < k" if "j \<in> alive st - {i}" for j
      using that ok[of j] held[of j] other[of j] by auto
    moreover have "tkt_held s (ctx ?s a) \<noteq> tkt_held s (ctx ?s b)"
      if "a \<in> alive st - {i}" "b \<in> alive st - {i}" "a \<noteq> b" "tkt_held s (ctx ?s a) \<noteq> None" for a b
      using that dist[of a b] other[of a] other[of b] by auto
    moreover have "(\<Sum>j \<in> alive st - {i}. tkt_rest (ctx ?s j)) = (\<Sum>j \<in> alive st - {i}. tkt_rest (ctx st j))"
      using other by (intro sum.cong) auto
    ultimately show ?thesis
      using code' fin mem(1-3) sum split v sk unfolding ticket_inv_def al fr by auto
  next
    case False
    let ?t' = "cpu_thread c"
    have al: "alive ?s = alive st" and self: "ctx ?s i = ?t'" using False by (simp_all add: advance_def)
    have ok': "tkt_ok s' n' ?t'" "n' + tkt_rest ?t' = n + tkt_rest ?t" using res False by auto
    have "(\<Sum>j \<in> alive st. tkt_rest (ctx ?s j)) = tkt_rest ?t' + (\<Sum>j \<in> alive st - {i}. tkt_rest (ctx ?s j))"
      using sum.remove[OF fin i, of "\<lambda>j. tkt_rest (ctx ?s j)"] self by simp
    moreover have "(\<Sum>j \<in> alive st - {i}. tkt_rest (ctx ?s j)) = (\<Sum>j \<in> alive st - {i}. tkt_rest (ctx st j))"
      using other by (intro sum.cong) auto
    ultimately have sum': "n' + (\<Sum>j \<in> alive st. tkt_rest (ctx ?s j)) = N" using sum split ok'(2) by simp
    have cs: "k' = k \<and> s' = s \<and> tkt_held s ?t' = tkt_held s ?t \<and> (n' = n \<or> tkt_held s ?t = Some s \<and> tkt_crit ?t) \<or>
         k' = k + 1 \<and> s' = s \<and> n' = n \<and> tkt_held s ?t = None \<and> tkt_held s ?t' = Some k \<or>
         k' = k \<and> s' = s + 1 \<and> n' = n \<and> tkt_held s ?t = Some s \<and> tkt_held s' ?t' = None"
      using res False by auto
    have oth: "tkt_ok s' n' (ctx st j) \<and> tkt_held s' (ctx st j) = tkt_held s (ctx st j)" if "j \<in> alive st" "j \<noteq> i" for j
    proof (cases "tkt_held s ?t = Some s")
      case True
      then have "tkt_held s (ctx st j) \<noteq> Some s" using dist[OF i that(1)] that(2) by auto
      then show ?thesis using tkt_other(1)[OF ok[OF that(1)], of s' n'] tkt_other(2)[OF ok[OF that(1)], of s'] cs by auto
    next
      case False
      then have "s' = s" "n' = n" using cs by auto
      then show ?thesis using ok[OF that(1)] by simp
    qed
    have upper: "h < k'" if "j \<in> alive st" "tkt_held s (ctx st j) = Some h" for j h
      using held[OF that] cs by auto
    have low: "s' \<le> h" if "j \<in> alive st" "j \<noteq> i" "tkt_held s (ctx st j) = Some h" for j h
    proof -
      have "h \<noteq> s" if "s' = s + 1" using cs that dist[OF i \<open>j \<in> alive st\<close>] \<open>j \<noteq> i\<close> \<open>tkt_held s (ctx st j) = Some h\<close> by auto
      then show ?thesis using held[OF that(1,3)] cs by auto
    qed
    have self_held: "s' \<le> h \<and> h < k'" if "tkt_held s' ?t' = Some h" for h
      using that cs held[OF i, of h] held[OF i, of s] sk by auto
    have each: "tkt_ok s' n' (ctx ?s j)" "\<And>h. tkt_held s' (ctx ?s j) = Some h \<Longrightarrow> s' \<le> h \<and> h < k'"
      if "j \<in> alive st" for j
      using that oth[OF that] upper[OF that] low[OF that] self_held ok'(1) self other[of j] by (cases "j = i"; auto)+
    have new: "tkt_held s' ?t' \<noteq> tkt_held s (ctx st j)" if "j \<in> alive st" "j \<noteq> i" "tkt_held s' ?t' \<noteq> None" for j
      using cs that dist[OF i that(1)] held[OF that(1), of k] by auto
    have "tkt_held s' (ctx ?s a) \<noteq> tkt_held s' (ctx ?s b)"
      if "a \<in> alive st" "b \<in> alive st" "a \<noteq> b" "tkt_held s' (ctx ?s a) \<noteq> None" for a b
    proof -
      consider "a = i" | "b = i" | "a \<noteq> i" "b \<noteq> i" by blast
      then show ?thesis
      proof cases
        case 1
        then show ?thesis using that new[of b] oth[of b] self other[of b] by auto
      next
        case 2
        then show ?thesis using that new[of a] oth[of a] self other[of a] by auto
      next
        case 3
        then show ?thesis using that dist[of a b] oth[of a] oth[of b] other[of a] other[of b] by auto
      qed
    qed
    moreover have "s' \<le> k'" using cs sk held[OF i, of s] by auto
    ultimately show ?thesis using code' fin mem(1-3) each sum' unfolding ticket_inv_def al fr by blast
  qed
  with cy(1) show ?thesis by blast
qed

lemma ticket_exclusive:
  assumes "ticket_inv N s" "i \<in> alive s" "j \<in> alive s" "tkt_crit (ctx s i)" "tkt_crit (ctx s j)"
  shows "i = j"
proof -
  have "tkt_held v (ctx s i) = Some v" "tkt_held v (ctx s j) = Some v" for v
    using assms(4,5) by (auto simp: tkt_held_def tkt_crit_def)
  with assms(1-3) show ?thesis unfolding ticket_inv_def by fastforce
qed

lemma ticket_complete: "ticket_inv N s \<Longrightarrow> alive s = {} \<Longrightarrow> smem s 108 = Some (Num N)"
  by (auto simp: ticket_inv_def)

interpretation ticket_lock: safe_program "ticket_inv N" for N
  by unfold_locales (rule ticket_step)

section \<open>Peterson's algorithm\<close>

text \<open>The flags of the two threads are at 100 and 104, the turn is at 108, the counter at 112; thread
  \<open>i\<close> has its number in \<^verbatim>\<open>bx\<close>.\<close>

definition peterson :: "instr list" where
  "peterson =
    [lea_m_to_r 100 REG_ZERO REG_ZERO 1 REG_FX, move_r_to_r REG_BX REG_CX, neg_r REG_CX, add_i_to_r 1 REG_CX,
     move_i_to_m 1 0 REG_FX REG_BX 4, move_r_to_m REG_CX 108 REG_ZERO REG_ZERO 1,
     move_m_to_r 0 REG_FX REG_CX 4 REG_AX, test_i_r 1 REG_AX, jump_notequal 1012,
     move_m_to_r 108 REG_ZERO REG_ZERO 1 REG_AX, test_r_r REG_CX REG_AX, jump_equal 1006,
     move_m_to_r 112 REG_ZERO REG_ZERO 1 REG_AX, add_i_to_r 1 REG_AX, move_r_to_m REG_AX 112 REG_ZERO REG_ZERO 1,
     move_i_to_m 0 0 REG_FX REG_BX 4, move_r_to_m REG_CX 108 REG_ZERO REG_ZERO 1, halt]"

text \<open>\<open>pet_crit\<close>: the thread is in the critical section or has seen what lets it in; \<open>pet_asked\<close>: it
  has given the turn away and not yet lowered its flag; \<open>pet_flag\<close>: the value of its flag.\<close>

definition pet_crit :: "int \<Rightarrow> thread \<Rightarrow> bool" where
  "pet_crit me t \<longleftrightarrow> tpc t \<in> {Num 1012, Num 1013, Num 1014, Num 1015} \<or>
     tpc t = Num 1007 \<and> tregs t REG_AX \<noteq> Num 1 \<or> tpc t = Num 1008 \<and> tcc t COND_NEQ \<or>
     tpc t = Num 1010 \<and> tregs t REG_AX \<noteq> Num (1 - me) \<or> tpc t = Num 1011 \<and> \<not> tcc t COND_EQ"

definition pet_asked :: "thread \<Rightarrow> bool" where
  "pet_asked t \<longleftrightarrow> tpc t \<in> {Num 1006, Num 1007, Num 1008, Num 1009, Num 1010, Num 1011, Num 1012, Num 1013, Num 1014, Num 1015}"

definition pet_flag :: "thread \<Rightarrow> int" where
  "pet_flag t = (if tpc t = Num 1005 \<or> pet_asked t then 1 else 0)"

definition pet_rest :: "thread \<Rightarrow> int" where
  "pet_rest t = (if tpc t \<in> {Num 1015, Num 1016, Num 1017} \<or> t = dead_thread then 0 else 1)"

text \<open>The locations at which the registers are set up, with what \<^verbatim>\<open>ax\<close> holds at some of them.\<close>

definition pet_at :: "int \<Rightarrow> thread \<Rightarrow> bool" where
  "pet_at n t \<longleftrightarrow>
     tpc t = Num 1004 \<or> tpc t = Num 1005 \<or> tpc t = Num 1006 \<or>
     tpc t = Num 1007 \<and> (\<exists>a. tregs t REG_AX = Num a) \<or> tpc t = Num 1008 \<or> tpc t = Num 1009 \<or>
     tpc t = Num 1010 \<and> (\<exists>a. tregs t REG_AX = Num a) \<or> tpc t = Num 1011 \<or> tpc t = Num 1012 \<or>
     tpc t = Num 1013 \<and> tregs t REG_AX = Num n \<or> tpc t = Num 1014 \<and> tregs t REG_AX = Num (n + 1) \<or>
     tpc t = Num 1015 \<or> tpc t = Num 1016 \<or> tpc t = Num 1017"

definition pet_ok :: "int \<Rightarrow> int \<Rightarrow> thread \<Rightarrow> bool" where
  "pet_ok me n t \<longleftrightarrow> tregs t REG_ZERO = Num 0 \<and> tregs t REG_BX = Num me \<and>
     (tpc t = Num 1000 \<or> tregs t REG_FX = Num 100 \<and>
       (tpc t = Num 1001 \<or> tpc t = Num 1002 \<and> tregs t REG_CX = Num me \<or> tpc t = Num 1003 \<and> tregs t REG_CX = Num (- me) \<or>
        tregs t REG_CX = Num (1 - me) \<and> pet_at n t))"

definition pet_next :: "rc \<Rightarrow> cpu \<Rightarrow> thread" where
  "pet_next rc c = (if rc = Rc_halt then dead_thread else cpu_thread c)"

text \<open>One instruction of the thread numbered \<open>me\<close> while the other's flag is \<open>g\<close>, the turn is \<open>v\<close> and
  the counter is \<open>n\<close>.\<close>

definition pet_effect :: "int \<Rightarrow> int \<Rightarrow> int \<Rightarrow> int \<Rightarrow> thread \<Rightarrow> thread \<Rightarrow> int \<Rightarrow> int \<Rightarrow> bool" where
  "pet_effect me g v n t t' v' n' \<longleftrightarrow>
     n' + pet_rest t' = n + pet_rest t \<and> (n' = n \<or> pet_crit me t) \<and>
     (v' = v \<or> v' = 1 - me \<and> \<not> pet_crit me t') \<and>
     (pet_crit me t' \<longrightarrow> pet_crit me t \<or> g = 0 \<or> v \<noteq> 1 - me \<and> pet_asked t) \<and>
     (pet_asked t' \<longrightarrow> pet_asked t \<or> v' = 1 - me)"

lemma peterson_instruction:
  assumes ok: "pet_ok me n t" and code: "code_at 1000 peterson mem pm" and me: "me = 0 \<or> me = 1"
    and f: "mem (100 + 4 * me) = Some (Num (pet_flag t))" and g: "mem (100 + 4 * (1 - me)) = Some (Num g)" "g = 0 \<or> g = 1"
    and v: "mem 108 = Some (Num v)" and n: "mem 112 = Some (Num n)"
  shows "\<exists>rc c v' n'. cycle (thread_cpu t mem pm) = Inr (rc, c) \<and> pmemory c = pm \<and>
     memory c (100 + 4 * me) = Some (Num (pet_flag (pet_next rc c))) \<and> memory c (100 + 4 * (1 - me)) = Some (Num g) \<and>
     memory c 108 = Some (Num v') \<and> memory c 112 = Some (Num n') \<and>
     (\<forall>a. a \<noteq> 100 \<and> a \<noteq> 104 \<and> a \<noteq> 108 \<and> a \<noteq> 112 \<longrightarrow> memory c a = mem a) \<and>
     (rc \<noteq> Rc_halt \<longrightarrow> pet_ok me n' (cpu_thread c)) \<and> pet_effect me g v n t (pet_next rc c) v' n'"
proof -
  let ?post = "\<lambda>rc c v' n'. cycle (thread_cpu t mem pm) = Inr (rc, c) \<and> pmemory c = pm \<and>
     memory c (100 + 4 * me) = Some (Num (pet_flag (pet_next rc c))) \<and> memory c (100 + 4 * (1 - me)) = Some (Num g) \<and>
     memory c 108 = Some (Num v') \<and> memory c 112 = Some (Num n') \<and>
     (\<forall>a. a \<noteq> 100 \<and> a \<noteq> 104 \<and> a \<noteq> 108 \<and> a \<noteq> 112 \<longrightarrow> memory c a = mem a) \<and>
     (rc \<noteq> Rc_halt \<longrightarrow> pet_ok me n' (cpu_thread c)) \<and> pet_effect me g v n t (pet_next rc c) v' n'"
  note defs = peterson_def exec_simps pet_ok_def pet_at_def pet_crit_def pet_asked_def pet_flag_def pet_rest_def
    pet_effect_def pet_next_def dead_thread_def
  have z: "tregs t REG_ZERO = Num 0" and b: "tregs t REG_BX = Num me"
    and pc: "tpc t = Num 1000 \<or> tregs t REG_FX = Num 100 \<and>
       (tpc t = Num 1001 \<or> tpc t = Num 1002 \<and> tregs t REG_CX = Num me \<or> tpc t = Num 1003 \<and> tregs t REG_CX = Num (- me) \<or>
        tregs t REG_CX = Num (1 - me) \<and> pet_at n t)"
    using ok unfolding pet_ok_def by auto
  note mem = z b f g v n
  from pc show "\<exists>rc c v' n'. ?post rc c v' n'"
  proof (elim disjE conjE)
    assume "tpc t = Num 1000"
    with cycle_code[OF code, of t 0] mem me show ?thesis by (auto simp: defs)
  next
    assume "tpc t = Num 1001" "tregs t REG_FX = Num 100"
    with cycle_code[OF code, of t 1] mem me show ?thesis by (auto simp: defs)
  next
    assume "tpc t = Num 1002" "tregs t REG_FX = Num 100" "tregs t REG_CX = Num me"
    with cycle_code[OF code, of t 2] mem me show ?thesis by (auto simp: defs)
  next
    assume "tpc t = Num 1003" "tregs t REG_FX = Num 100" "tregs t REG_CX = Num (- me)"
    with cycle_code[OF code, of t 3] mem me show ?thesis by (auto simp: defs)
  next
    assume fx: "tregs t REG_FX = Num 100" "tregs t REG_CX = Num (1 - me)" and at: "pet_at n t"
    note mem = mem fx
    from at[unfolded pet_at_def] show ?thesis
    proof (elim disjE conjE exE)
      assume "tpc t = Num 1004"
      with cycle_code[OF code, of t 4] mem me show ?thesis by (auto simp: defs)
    next
      assume "tpc t = Num 1005"
      with cycle_code[OF code, of t 5] mem me show ?thesis by (auto simp: defs)
    next
      assume "tpc t = Num 1006"
      with cycle_code[OF code, of t 6] mem me show ?thesis by (auto simp: defs)
    next
      fix a assume "tpc t = Num 1007" "tregs t REG_AX = Num a"
      with cycle_code[OF code, of t 7] mem me show ?thesis by (auto simp: defs)
    next
      assume "tpc t = Num 1008"
      with cycle_code[OF code, of t 8] mem me show ?thesis by (auto simp: defs)
    next
      assume "tpc t = Num 1009"
      with cycle_code[OF code, of t 9] mem me show ?thesis by (auto simp: defs)
    next
      fix a assume "tpc t = Num 1010" "tregs t REG_AX = Num a"
      with cycle_code[OF code, of t 10] mem me show ?thesis by (auto simp: defs)
    next
      assume "tpc t = Num 1011"
      with cycle_code[OF code, of t 11] mem me show ?thesis by (auto simp: defs)
    next
      assume "tpc t = Num 1012"
      with cycle_code[OF code, of t 12] mem me show ?thesis by (auto simp: defs)
    next
      assume "tpc t = Num 1013" "tregs t REG_AX = Num n"
      with cycle_code[OF code, of t 13] mem me show ?thesis by (auto simp: defs)
    next
      assume "tpc t = Num 1014" "tregs t REG_AX = Num (n + 1)"
      with cycle_code[OF code, of t 14] mem me show ?thesis by (auto simp: defs)
    next
      assume "tpc t = Num 1015"
      with cycle_code[OF code, of t 15] mem me show ?thesis by (auto simp: defs)
    next
      assume "tpc t = Num 1016"
      with cycle_code[OF code, of t 16] mem me show ?thesis by (auto simp: defs)
    next
      assume "tpc t = Num 1017"
      with cycle_code[OF code, of t 17] mem me show ?thesis by (auto simp: defs)
    qed
  qed
qed

definition pet_prio :: "int \<Rightarrow> int \<Rightarrow> thread \<Rightarrow> thread \<Rightarrow> bool" where
  "pet_prio me v t u \<longleftrightarrow> (pet_crit me t \<longrightarrow> \<not> pet_asked u \<or> v = me \<and> \<not> pet_crit (1 - me) u)"

lemma pet_crit_asked: "pet_crit me t \<Longrightarrow> pet_asked t"
  by (auto simp: pet_crit_def pet_asked_def)

lemma pet_asked_flag: "pet_asked t \<Longrightarrow> pet_flag t = 1"
  by (simp add: pet_flag_def)

text \<open>A step of one thread keeps both priorities.\<close>

lemma pet_prio_step:
  assumes "pet_prio me v t u" "pet_prio (1 - me) v u t" "pet_effect me (pet_flag u) v n t t' v' n'"
    and "v = 0 \<or> v = 1" "me = 0 \<or> me = 1"
  shows "pet_prio me v' t' u" "pet_prio (1 - me) v' u t'"
  using assms pet_crit_asked[of me t] pet_crit_asked[of "1 - me" u] pet_asked_flag[of u]
  unfolding pet_prio_def pet_effect_def by auto

text \<open>Outside the critical section the counter may change.\<close>

lemma pet_ok_other: "pet_ok me n u \<Longrightarrow> \<not> pet_crit me u \<Longrightarrow> pet_ok me n' u"
  by (auto simp: pet_ok_def pet_at_def pet_crit_def)

definition pet_good :: "nat set \<Rightarrow> nat \<Rightarrow> int \<Rightarrow> thread \<Rightarrow> bool" where
  "pet_good al i n t \<longleftrightarrow> (if i \<in> al then pet_ok (int i) n t else t = dead_thread)"

definition peterson_inv :: "shared \<Rightarrow> bool" where
  "peterson_inv st \<longleftrightarrow> code_at 1000 peterson (smem st) (spmem st) \<and> alive st \<subseteq> {0, 1} \<and>
     (\<exists>v n. smem st 100 = Some (Num (pet_flag (ctx st 0))) \<and> smem st 104 = Some (Num (pet_flag (ctx st 1))) \<and>
        smem st 108 = Some (Num v) \<and> (v = 0 \<or> v = 1) \<and> smem st 112 = Some (Num n) \<and>
        pet_good (alive st) 0 n (ctx st 0) \<and> pet_good (alive st) 1 n (ctx st 1) \<and>
        pet_prio 0 v (ctx st 0) (ctx st 1) \<and> pet_prio 1 v (ctx st 1) (ctx st 0) \<and>
        n + pet_rest (ctx st 0) + pet_rest (ctx st 1) = 2)"

lemma dead_not_crit: "\<not> pet_crit me dead_thread" "\<not> pet_asked dead_thread" "pet_flag dead_thread = 0"
  "pet_rest dead_thread = 0"
  by (simp_all add: pet_crit_def pet_asked_def pet_flag_def pet_rest_def dead_thread_def)

text \<open>The other thread after a step of thread \<open>me\<close>.\<close>

lemma pet_other_good:
  assumes "pet_good al j n u" "pet_prio me v t u" "pet_prio (1 - me) v u t" "pet_effect me g v n t t' v' n'"
    and "int j = 1 - me" "j \<in> al' \<longleftrightarrow> j \<in> al"
  shows "pet_good al' j n' u"
proof (cases "n' = n")
  case False
  then have "pet_crit me t" using assms(4) by (auto simp: pet_effect_def)
  then have "\<not> pet_crit (1 - me) u"
    using assms(2) pet_crit_asked[of "1 - me" u] by (auto simp: pet_prio_def)
  then show ?thesis using assms(1,5,6) pet_ok_other[of "1 - me" n u n'] by (auto simp: pet_good_def)
qed (use assms in \<open>auto simp: pet_good_def\<close>)

lemma flag_01: "pet_flag t = 0 \<or> pet_flag t = 1"
  by (simp add: pet_flag_def)

lemma code_kept4:
  assumes "code_at 1000 prog mem pm" "\<forall>a. a \<noteq> 100 \<and> a \<noteq> 104 \<and> a \<noteq> 108 \<and> a \<noteq> 112 \<longrightarrow> mem' a = mem a"
  shows "code_at 1000 prog mem' pm"
  using assms by (simp add: code_at_def)

lemma peterson_step:
  assumes inv: "peterson_inv st" and i: "i \<in> alive st"
  shows "\<exists>rc c. cycle (view st i) = Inr (rc, c) \<and> peterson_inv (advance st i rc c)"
proof -
  obtain v n where code: "code_at 1000 peterson (smem st) (spmem st)" and al: "alive st \<subseteq> {0, 1}"
    and f: "smem st 100 = Some (Num (pet_flag (ctx st 0)))" "smem st 104 = Some (Num (pet_flag (ctx st 1)))"
    and v: "smem st 108 = Some (Num v)" "v = 0 \<or> v = 1" and n: "smem st 112 = Some (Num n)"
    and good: "pet_good (alive st) 0 n (ctx st 0)" "pet_good (alive st) 1 n (ctx st 1)"
    and prio: "pet_prio 0 v (ctx st 0) (ctx st 1)" "pet_prio 1 v (ctx st 1) (ctx st 0)"
    and sum: "n + pet_rest (ctx st 0) + pet_rest (ctx st 1) = 2"
    using inv unfolding peterson_inv_def by blast
  define j where "j = 1 - i"
  have ij: "i = 0 \<and> j = 1 \<or> i = 1 \<and> j = 0" using i al by (auto simp: j_def)
  let ?me = "int i" and ?t = "ctx st i" and ?u = "ctx st j"
  have ok: "pet_ok ?me n ?t" using i good ij by (auto simp: pet_good_def)
  have me: "?me = 0 \<or> ?me = 1" using ij by auto
  have fm: "smem st (100 + 4 * ?me) = Some (Num (pet_flag ?t))" "smem st (100 + 4 * (1 - ?me)) = Some (Num (pet_flag ?u))"
    using f ij by auto
  from peterson_instruction[OF ok code me fm flag_01 v(1) n] obtain rc c v' n' where
    cy: "cycle (view st i) = Inr (rc, c)" "pmemory c = spmem st"
    and mem: "memory c (100 + 4 * ?me) = Some (Num (pet_flag (pet_next rc c)))"
      "memory c (100 + 4 * (1 - ?me)) = Some (Num (pet_flag ?u))"
      "memory c 108 = Some (Num v')" "memory c 112 = Some (Num n')"
      "\<forall>a. a \<noteq> 100 \<and> a \<noteq> 104 \<and> a \<noteq> 108 \<and> a \<noteq> 112 \<longrightarrow> memory c a = smem st a"
    and ok': "rc \<noteq> Rc_halt \<longrightarrow> pet_ok ?me n' (cpu_thread c)" and eff: "pet_effect ?me (pet_flag ?u) v n ?t (pet_next rc c) v' n'"
    unfolding view_thread_cpu by blast
  let ?s = "advance st i rc c" and ?t' = "pet_next rc c"
  have fr: "smem ?s = memory c" "spmem ?s = pmemory c" "ctx ?s i = ?t'" "ctx ?s j = ?u"
    "alive ?s = (if rc = Rc_halt then alive st - {i} else alive st)"
    using ij by (auto simp: advance_def pet_next_def)
  have p: "pet_prio ?me v ?t ?u" "pet_prio (1 - ?me) v ?u ?t" using prio ij by auto
  have gj: "pet_good (alive st) j n ?u" using good ij by auto
  have gj': "pet_good (alive ?s) j n' ?u"
    by (rule pet_other_good[OF gj p eff]) (use ij fr(5) in auto)
  have gi': "pet_good (alive ?s) i n' ?t'"
    using ok' i fr(5) by (simp add: pet_good_def pet_next_def)
  have pr: "pet_prio ?me v' ?t' ?u" "pet_prio (1 - ?me) v' ?u ?t'"
    by (rule pet_prio_step[OF p eff v(2) me])+
  have sv: "n' + pet_rest ?t' + pet_rest ?u = 2" "v' = 0 \<or> v' = 1"
    using eff sum ij v(2) by (auto simp: pet_effect_def)
  have al': "alive ?s \<subseteq> {0, 1}" using al fr(5) by auto
  have code': "code_at 1000 peterson (smem ?s) (spmem ?s)"
    using code_kept4[OF code mem(5)] cy(2) by (simp add: fr)
  from ij have "peterson_inv ?s"
  proof (elim disjE conjE)
    assume "i = 0" "j = 1"
    with gj' gi' pr sv mem(1-4) fr(1-4) have "smem ?s 100 = Some (Num (pet_flag (ctx ?s 0))) \<and>
        smem ?s 104 = Some (Num (pet_flag (ctx ?s 1))) \<and> smem ?s 108 = Some (Num v') \<and> (v' = 0 \<or> v' = 1) \<and>
        smem ?s 112 = Some (Num n') \<and> pet_good (alive ?s) 0 n' (ctx ?s 0) \<and> pet_good (alive ?s) 1 n' (ctx ?s 1) \<and>
        pet_prio 0 v' (ctx ?s 0) (ctx ?s 1) \<and> pet_prio 1 v' (ctx ?s 1) (ctx ?s 0) \<and>
        n' + pet_rest (ctx ?s 0) + pet_rest (ctx ?s 1) = 2" by simp
    with al' code' show ?thesis unfolding peterson_inv_def by blast
  next
    assume "i = 1" "j = 0"
    with gj' gi' pr sv mem(1-4) fr(1-4) have "smem ?s 100 = Some (Num (pet_flag (ctx ?s 0))) \<and>
        smem ?s 104 = Some (Num (pet_flag (ctx ?s 1))) \<and> smem ?s 108 = Some (Num v') \<and> (v' = 0 \<or> v' = 1) \<and>
        smem ?s 112 = Some (Num n') \<and> pet_good (alive ?s) 0 n' (ctx ?s 0) \<and> pet_good (alive ?s) 1 n' (ctx ?s 1) \<and>
        pet_prio 0 v' (ctx ?s 0) (ctx ?s 1) \<and> pet_prio 1 v' (ctx ?s 1) (ctx ?s 0) \<and>
        n' + pet_rest (ctx ?s 0) + pet_rest (ctx ?s 1) = 2" by simp
    with al' code' show ?thesis unfolding peterson_inv_def by blast
  qed
  with cy(1) show ?thesis by blast
qed

lemma peterson_exclusive:
  assumes "peterson_inv s" shows "\<not> (pet_crit 0 (ctx s 0) \<and> pet_crit 1 (ctx s 1))"
  using assms pet_crit_asked[of 1 "ctx s 1"] by (auto simp: peterson_inv_def pet_prio_def)

lemma peterson_complete: "peterson_inv s \<Longrightarrow> alive s = {} \<Longrightarrow> smem s 112 = Some (Num 2)"
  by (auto simp: peterson_inv_def pet_good_def dead_not_crit)

interpretation peterson_lock: safe_program peterson_inv
  by unfold_locales (rule peterson_step)

end
