(* ===== verification/X86_Load.thy ===== *)
theory X86_Load
  imports X86
begin

text \<open>
  The assembler of \<^verbatim>\<open>threads-locks/x86.py\<close>: the argument parser \<^verbatim>\<open>getarg\<close> with its helpers, and
  \<^verbatim>\<open>load\<close>, which reads a program in two passes. A source file is the list of its lines. The strings
  \<^verbatim>\<open>'%d,%d,%d,%d'\<close> in which the code passes a memory operand from \<^verbatim>\<open>getarg\<close> to its callers are the
  four components of \<open>Mem\<close>.
\<close>

section \<open>String operations\<close>

definition rstrip :: "string \<Rightarrow> string" where
  "rstrip s = rev (dropWhile is_space (rev s))"

text \<open>\<^verbatim>\<open>s.split()\<close>\<close>

fun words_acc :: "string \<Rightarrow> string \<Rightarrow> string list" where
  "words_acc w [] = (if w = [] then [] else [rev w])"
| "words_acc w (c # s) =
     (if is_space c then (if w = [] then words_acc [] s else rev w # words_acc [] s)
      else words_acc (c # w) s)"

definition words :: "string \<Rightarrow> string list" where
  "words s = words_acc [] s"

text \<open>\<^verbatim>\<open>s.split(None, 1)\<close>\<close>

definition split_word :: "string \<Rightarrow> string list" where
  "split_word s =
     (let t = dropWhile is_space s;
          w = takeWhile (\<lambda>c. \<not> is_space c) t;
          rest = dropWhile is_space (dropWhile (\<lambda>c. \<not> is_space c) t)
      in if t = [] then [] else if rest = [] then [w] else [w, rest])"

text \<open>\<^verbatim>\<open>s.split(c, 1)\<close>\<close>

definition split_once :: "char \<Rightarrow> string \<Rightarrow> string list" where
  "split_once c s =
     (case dropWhile (\<lambda>x. x \<noteq> c) s of [] \<Rightarrow> [s] | _ # t \<Rightarrow> [takeWhile (\<lambda>x. x \<noteq> c) s, t])"

text \<open>\<^verbatim>\<open>s.split(sep)\<close> for a separator of several characters.\<close>

function split_str_acc :: "string \<Rightarrow> string \<Rightarrow> string \<Rightarrow> string list" where
  "split_str_acc sep w [] = [rev w]"
| "split_str_acc sep w (c # s) =
     (if sep \<noteq> [] \<and> take (length sep) (c # s) = sep
      then rev w # split_str_acc sep [] (drop (length sep) (c # s))
      else split_str_acc sep (c # w) s)"
  by pat_completeness auto

termination by (relation "measure (\<lambda>(sep, w, s). length s)") (auto simp: neq_Nil_conv)

definition split_str :: "string \<Rightarrow> string \<Rightarrow> string list" where
  "split_str sep s = split_str_acc sep [] s"

text \<open>\<^verbatim>\<open>s.replace(' \t', '')\<close>\<close>

fun drop_space_tab :: "string \<Rightarrow> string" where
  "drop_space_tab (a # b # s) =
     (if a = CHR '' '' \<and> b = CHR 0x09 then drop_space_tab s else a # drop_space_tab (b # s))"
| "drop_space_tab s = s"

definition isdigit :: "string \<Rightarrow> bool" where
  "isdigit s \<longleftrightarrow> s \<noteq> [] \<and> (\<forall>c \<in> set s. is_digit c)"

definition is_alpha :: "char \<Rightarrow> bool" where
  "is_alpha c \<longleftrightarrow> (let n = (of_char c :: nat) in 65 \<le> n \<and> n \<le> 90 \<or> 97 \<le> n \<and> n \<le> 122)"

definition zassert :: "bool \<Rightarrow> 'a res \<Rightarrow> 'a res" where
  "zassert c m = (if c then m else Inl SysExit)"

declare zassert_def [code_unfold]

section \<open>Arguments\<close>

datatype arg = Imm int | Register reg | Label string | Mem int reg reg int

definition register_translate :: "string \<Rightarrow> reg res" where
  "register_translate r = (case regname r of Some k \<Rightarrow> Inr k | None \<Rightarrow> Inl SysExit)"

definition getregname :: "string \<Rightarrow> string res" where
  "getregname r =
     (let t = strip r
      in if t = [] then Inr ''zero''
         else zassert (hd t = CHR ''%'') (bnd (list_get (split_on CHR ''%'' r) 1) (\<lambda>n. Inr (strip n))))"

text \<open>The operand in parentheses: up to two registers and a scale.\<close>

definition getindex :: "int \<Rightarrow> string list \<Rightarrow> arg res" where
  "getindex value t =
     (if length t = 1 then
        bnd (getregname (t ! 0)) (\<lambda>n. bnd (register_translate n) (\<lambda>r. Inr (Mem value r REG_ZERO 1)))
      else if length t = 2 then
        bnd (getregname (t ! 0)) (\<lambda>n1. bnd (getregname (t ! 1)) (\<lambda>n2.
        bnd (register_translate n1) (\<lambda>r1. bnd (register_translate n2) (\<lambda>r2. Inr (Mem value r1 r2 1)))))
      else if length t = 3 then
        bnd (getregname (t ! 0)) (\<lambda>n1. bnd (getregname (t ! 1)) (\<lambda>n2.
        bnd (int_of_string (t ! 2)) (\<lambda>scale.
        bnd (register_translate n1) (\<lambda>r1. bnd (register_translate n2) (\<lambda>r2. Inr (Mem value r1 r2 scale))))))
      else Inl SysExit)"

definition getimm :: "string \<Rightarrow> arg res" where
  "getimm value =
     (case value of
        [] \<Rightarrow> Inl IndexError
      | c # cs \<Rightarrow>
          (let (neg, value) = (if c = CHR ''-'' then (-1, cs) else (1, value))
           in zassert (isdigit value) (bnd (int_of_string value) (\<lambda>n. Inr (Imm (neg * n))))))"

definition getmem :: "string \<Rightarrow> arg res" where
  "getmem tmp =
     (let (neg, tmp) = (if hd tmp = CHR ''-'' then (-1, tl tmp) else (1, tmp));
          s = split_on CHR ''('' tmp
      in if length s = 1 then bnd (int_of_string tmp) (\<lambda>n. Inr (Mem (neg * n) REG_ZERO REG_ZERO 1))
         else if length s = 2 then
           bnd (if hd tmp \<noteq> CHR ''(''
                then zassert (isdigit (strip (s ! 0))) (bnd (int_of_string (s ! 0)) (\<lambda>n. Inr (neg * n)))
                else Inr 0) (\<lambda>value.
             getindex value (split_str ''__BREAK__'' (hd (split_on CHR '')'' (s ! 1)))))
         else Inl SysExit)"

definition getarg :: "(string \<rightharpoonup> int) \<Rightarrow> string \<Rightarrow> arg res" where
  "getarg vars a =
     (let tmp = drop_space_tab (map (\<lambda>c. if c = CHR '','' then CHR '' '' else c) a)
      in case tmp of
           [] \<Rightarrow> Inl IndexError
         | c # _ \<Rightarrow>
           if c = CHR ''$'' then bnd (list_get (split_on CHR ''$'' tmp) 1) getimm
           else if c = CHR ''%'' then
             bnd (list_get (split_on CHR ''%'' tmp) 1) (\<lambda>n. bnd (register_translate n) (\<lambda>r. Inr (Register r)))
           else if c = CHR ''.'' then Inr (Label tmp)
           else if is_alpha c \<and> \<not> is_digit c then
             (case vars tmp of None \<Rightarrow> Inl SysExit | Some v \<Rightarrow> Inr (Mem v REG_ZERO REG_ZERO 1))
           else if is_digit c \<or> c = CHR ''-'' \<or> c = CHR ''('' then getmem tmp
           else Inl TypeError)"

fun removecommas :: "bool \<Rightarrow> string \<Rightarrow> string \<Rightarrow> string res" where
  "removecommas inparen outargs [] = zassert (\<not> inparen) (Inr outargs)"
| "removecommas inparen outargs (c # inargs) =
     (if c = CHR ''('' then zassert (\<not> inparen) (removecommas True (outargs @ [c]) inargs)
      else if c = CHR '')'' then zassert inparen (removecommas False (outargs @ [c]) inargs)
      else if inparen \<and> c = CHR '','' then removecommas inparen (outargs @ ''__BREAK__'') inargs
      else removecommas inparen (outargs @ [c]) inargs)"

section \<open>Instructions\<close>

text \<open>Two arguments separated by the first comma, as all instructions but \<^verbatim>\<open>mov\<close> read them.\<close>

definition two_args :: "(string \<rightharpoonup> int) \<Rightarrow> string list \<Rightarrow> (arg \<times> arg) res" where
  "two_args vars tmp =
     bnd (list_get tmp 1) (\<lambda>args.
       let rtmp = split_once CHR '','' args
       in zassert (length tmp = 2 \<and> length rtmp = 2)
            (bnd (getarg vars (strip (rtmp ! 0))) (\<lambda>src.
             bnd (getarg vars (strip (rtmp ! 1))) (\<lambda>dst. Inr (src, dst)))))"

definition parse_mov :: "(string \<rightharpoonup> int) \<Rightarrow> string list \<Rightarrow> instr res" where
  "parse_mov vars tmp =
     bnd (list_get tmp 1) (\<lambda>args.
     bnd (removecommas False [] args) (\<lambda>outargs.
       let rtmp = split_on CHR '','' outargs
       in zassert (length rtmp = 2)
            (bnd (getarg vars (strip (rtmp ! 0))) (\<lambda>src.
             bnd (getarg vars (strip (rtmp ! 1))) (\<lambda>dst.
               case (src, dst) of
                 (Imm n, Register r) \<Rightarrow> Inr (move_i_to_r n r)
               | (Mem v r1 r2 sc, Register r) \<Rightarrow> Inr (move_m_to_r v r1 r2 sc r)
               | (Register r, Mem v r1 r2 sc) \<Rightarrow> Inr (move_r_to_m r v r1 r2 sc)
               | (Register r, Register r') \<Rightarrow> Inr (move_r_to_r r r')
               | (Imm n, Mem v r1 r2 sc) \<Rightarrow> Inr (move_i_to_m n v r1 r2 sc)
               | _ \<Rightarrow> Inl SysExit)))))"

definition parse_arith :: "(string \<rightharpoonup> int) \<Rightarrow> string list \<Rightarrow> (int \<Rightarrow> reg \<Rightarrow> instr) \<Rightarrow> (reg \<Rightarrow> reg \<Rightarrow> instr) \<Rightarrow> instr res" where
  "parse_arith vars tmp imm reg =
     bnd (two_args vars tmp) (\<lambda>a.
       case a of
         (Imm n, Register r) \<Rightarrow> Inr (imm n r)
       | (Register r, Register r') \<Rightarrow> Inr (reg r r')
       | _ \<Rightarrow> Inl SysExit)"

text \<open>\<^verbatim>\<open>fetchadd\<close> and \<^verbatim>\<open>xchg\<close>: the destination is taken apart before the types are looked at.\<close>

definition parse_atomic :: "(string \<rightharpoonup> int) \<Rightarrow> string list \<Rightarrow> (reg \<Rightarrow> int \<Rightarrow> reg \<Rightarrow> reg \<Rightarrow> instr) \<Rightarrow> instr res" where
  "parse_atomic vars tmp mk =
     bnd (two_args vars tmp) (\<lambda>(src, dst).
       case dst of
         Mem v r1 r2 sc \<Rightarrow> (case src of Register r \<Rightarrow> Inr (mk r v r1 r2) | _ \<Rightarrow> Inl SysExit)
       | Label l \<Rightarrow> Inl AssertionError
       | _ \<Rightarrow> Inl AttributeError)"

definition parse_test :: "(string \<rightharpoonup> int) \<Rightarrow> string list \<Rightarrow> instr res" where
  "parse_test vars tmp =
     bnd (two_args vars tmp) (\<lambda>a.
       case a of
         (Imm n, Register r) \<Rightarrow> Inr (test_i_r n r)
       | (Register r, Register r') \<Rightarrow> Inr (test_r_r r r')
       | (Register r, Imm n) \<Rightarrow> Inr (test_r_i r n)
       | _ \<Rightarrow> Inl SysExit)"

definition parse_lea :: "(string \<rightharpoonup> int) \<Rightarrow> string list \<Rightarrow> instr res" where
  "parse_lea vars tmp =
     bnd (two_args vars tmp) (\<lambda>a.
       case a of (Mem v r1 r2 sc, Register r) \<Rightarrow> Inr (lea_m_to_r v r1 r2 sc r) | _ \<Rightarrow> Inl SysExit)"

definition one_arg :: "(string \<rightharpoonup> int) \<Rightarrow> string list \<Rightarrow> arg res" where
  "one_arg vars tmp = bnd (list_get tmp 1) (\<lambda>a. getarg vars (strip a))"

definition parse_neg :: "(string \<rightharpoonup> int) \<Rightarrow> string list \<Rightarrow> instr res" where
  "parse_neg vars tmp =
     zassert (length tmp = 2)
       (bnd (one_arg vars tmp) (\<lambda>a. case a of Register r \<Rightarrow> Inr (neg_r r) | _ \<Rightarrow> Inl SysExit))"

definition parse_pop :: "(string \<rightharpoonup> int) \<Rightarrow> string list \<Rightarrow> instr res" where
  "parse_pop vars tmp =
     (if length tmp = 1 then Inr pop
      else if length tmp = 2 then
        bnd (one_arg vars tmp) (\<lambda>a. case a of Register r \<Rightarrow> Inr (pop_r r) | _ \<Rightarrow> Inl SysExit)
      else Inl SysExit)"

definition parse_push :: "(string \<rightharpoonup> int) \<Rightarrow> string list \<Rightarrow> instr res" where
  "parse_push vars tmp =
     bnd (one_arg vars tmp) (\<lambda>a.
       case a of
         Register r \<Rightarrow> Inr (push_r r)
       | Mem v r1 r2 sc \<Rightarrow> Inr (push_m v r1 r2 sc)
       | _ \<Rightarrow> Inl SysExit)"

text \<open>\<^verbatim>\<open>call\<close> and the jumps: a label, which must have been defined.\<close>

definition parse_target :: "(string \<rightharpoonup> int) \<Rightarrow> (string \<rightharpoonup> int) \<Rightarrow> string list \<Rightarrow> (int \<Rightarrow> instr) \<Rightarrow> instr res" where
  "parse_target vars labels tmp mk =
     bnd (one_arg vars tmp) (\<lambda>a.
       case a of Label l \<Rightarrow> bnd (dict_get labels l) (\<lambda>targ. Inr (mk targ)) | _ \<Rightarrow> Inl SysExit)"

definition parse_instr :: "(string \<rightharpoonup> int) \<Rightarrow> (string \<rightharpoonup> int) \<Rightarrow> string \<Rightarrow> instr res" where
  "parse_instr vars labels cline =
     (let tmp = split_word cline; opcode = hd tmp
      in if opcode = ''mov'' then parse_mov vars tmp
         else if opcode = ''lea'' then parse_lea vars tmp
         else if opcode = ''neg'' then parse_neg vars tmp
         else if opcode = ''pop'' then parse_pop vars tmp
         else if opcode = ''push'' then parse_push vars tmp
         else if opcode = ''call'' then parse_target vars labels tmp call
         else if opcode = ''ret'' then asserting (length tmp = 1) (Inr ret)
         else if opcode = ''mul'' then parse_arith vars tmp mul_i_to_r mul_r_to_r
         else if opcode = ''add'' then parse_arith vars tmp add_i_to_r add_r_to_r
         else if opcode = ''sub'' then parse_arith vars tmp sub_i_to_r sub_r_to_r
         else if opcode = ''fetchadd'' then parse_atomic vars tmp fetchadd
         else if opcode = ''xchg'' then parse_atomic vars tmp atomic_exchange
         else if opcode = ''test'' then parse_test vars tmp
         else if opcode = ''j'' then parse_target vars labels tmp jump
         else if opcode = ''jne'' then parse_target vars labels tmp jump_notequal
         else if opcode = ''je'' then parse_target vars labels tmp jump_equal
         else if opcode = ''jlt'' then parse_target vars labels tmp jump_lessthan
         else if opcode = ''jlte'' then parse_target vars labels tmp jump_lessthanorequal
         else if opcode = ''jgt'' then parse_target vars labels tmp jump_greaterthan
         else if opcode = ''jgte'' then parse_target vars labels tmp jump_greaterthanorequal
         else if opcode = ''nop'' then Inr nop
         else if opcode = ''halt'' then Inr halt
         else if opcode = ''yield'' then Inr iyield
         else if opcode = ''rdump'' then Inr rdump
         else if opcode = ''mdump'' then bnd (list_get tmp 1) (\<lambda>a. Inr (mdump a))
         else Inl SysExit)"

section \<open>The two passes\<close>

text \<open>The line without its comment and without trailing blanks (before the comment they stay).\<close>

definition clean_line :: "string \<Rightarrow> string res" where
  "clean_line line =
     (let cline = rstrip line; ctmp = split_on CHR ''#'' cline
      in asserting (length ctmp = 1 \<or> length ctmp = 2)
           (Inr (if length ctmp = 2 then ctmp ! 0 else cline)))"

text \<open>The dictionaries \<^verbatim>\<open>vars\<close> and \<^verbatim>\<open>labels\<close> are association lists, the latest entry first.\<close>

record symtab =
  sym_vars :: "(string \<times> int) list"
  sym_labels :: "(string \<times> int) list"
  sym_data :: int
  sym_pc :: int

text \<open>First pass: addresses of the variables and labels. The check for a repeated variable looks at
  the word \<^verbatim>\<open>.var\<close> itself.\<close>

definition pass1_line :: "int \<Rightarrow> symtab \<Rightarrow> string \<Rightarrow> symtab res" where
  "pass1_line loadaddr t line =
     bnd (clean_line line) (\<lambda>cline.
       case words cline of
         [] \<Rightarrow> Inr t
       | w # ws \<Rightarrow>
           if w = ''.var'' then
             asserting (length ws = 1 \<or> length ws = 2)
              (asserting (map_of (sym_vars t) w = None)
                (bnd (if length ws = 2 then int_of_string (ws ! 1) else Inr 1) (\<lambda>mul.
                   let t' = t\<lparr>sym_vars := (ws ! 0, sym_data t) # sym_vars t, sym_data := sym_data t + 4 * mul\<rparr>
                   in zassert (sym_data t' < loadaddr) (Inr t'))))
           else if hd w = CHR ''.'' then
             asserting (ws = []) (Inr (t\<lparr>sym_labels := (w, sym_pc t) # sym_labels t\<rparr>))
           else Inr (t\<lparr>sym_pc := sym_pc t + 1\<rparr>))"

text \<open>Second pass: the instructions in order, each with its address and its text.\<close>

definition pass2_line :: "symtab \<Rightarrow> int \<times> (int \<times> instr \<times> string) list \<Rightarrow> string
    \<Rightarrow> (int \<times> (int \<times> instr \<times> string) list) res" where
  "pass2_line t st line =
     bnd (clean_line line) (\<lambda>cline.
       if words cline = [] \<or> hd cline = CHR ''.'' then Inr st
       else bnd (parse_instr (map_of (sym_vars t)) (map_of (sym_labels t)) cline) (\<lambda>i.
              case st of (p, xs) \<Rightarrow> Inr (p + 1, xs @ [(p, i, strip cline)])))"

definition assemble :: "string list \<Rightarrow> int \<Rightarrow> (int \<times> instr \<times> string) list res" where
  "assemble lines loadaddr =
     bnd (foldres (pass1_line loadaddr) \<lparr>sym_vars = [], sym_labels = [], sym_data = 100, sym_pc = loadaddr\<rparr> lines) (\<lambda>t.
     bnd (foldres (pass2_line t) (loadaddr, []) lines) (\<lambda>(_, xs). Inr xs))"

text \<open>\<^verbatim>\<open>self.memory[pc] = ...\<close> and \<^verbatim>\<open>self.pmemory[pc] = cline.strip()\<close>\<close>

definition store :: "cpu \<Rightarrow> (int \<times> instr \<times> string) list \<Rightarrow> cpu" where
  "store c xs =
     fold (\<lambda>(p, i, t) c. c\<lparr>memory := (memory c)(p \<mapsto> Code i), pmemory := (pmemory c)(p \<mapsto> t)\<rparr>) xs c"

definition load :: "cpu \<Rightarrow> string list \<Rightarrow> int \<Rightarrow> cpu res" where
  "load c lines loadaddr = bnd (assemble lines loadaddr) (\<lambda>xs. Inr (store c xs))"

end
