(* ===== verification/X86_Programs.thy ===== *)
theory X86_Programs
  imports X86_Locks X86_Load
begin

text \<open>
  The lock programs that come with the simulator (\<^verbatim>\<open>threads-locks/test-and-set.s\<close>, \<^verbatim>\<open>ticket.s\<close>,
  \<^verbatim>\<open>peterson.s\<close>) from their source lines to the results of their runs: what the assembler puts
  into memory for them, and what holds in every state of every run.
\<close>

section \<open>Sources and loaded code\<close>

definition tab :: string where "tab = [CHR 0x09]"

definition test_and_set_s :: "string list" where
  "test_and_set_s =
    [''.var mutex'', ''.var count'', [], ''.main'', ''.top'' @ tab, [], ''.acquire'',
     ''mov  $1, %ax        '',
     ''xchg %ax, mutex     # atomic swap of 1 and mutex'',
     ''test $0, %ax        # if we get 0 back: lock is free!'',
     ''jne  .acquire       # if not, try again'', [],
     ''# critical section'',
     ''mov  count, %ax     # get the value at the address'',
     ''add  $1, %ax        # increment it'',
     ''mov  %ax, count     # store it back'', [],
     ''# release lock'',
     ''mov  $0, mutex'', [],
     ''# see if we're still looping'',
     ''sub  $1, %bx'', ''test $0, %bx'', ''jgt .top'' @ tab, [], ''halt'']"

definition ticket_s :: "string list" where
  "ticket_s =
    [''.var ticket'', ''.var turn'', ''.var count'', [], ''.main'', ''.top'' @ tab, [], ''.acquire'',
     ''mov $1, %ax'',
     ''fetchadd %ax, ticket  # grab a ticket '',
     ''.tryagain'',
     ''mov turn, %cx         # check if it's your turn '',
     ''test %cx, %ax'', ''jne .tryagain'', [],
     ''# critical section'',
     ''mov  count, %ax       # get the value at the address'',
     ''add  $1, %ax          # increment it'',
     ''mov  %ax, count       # store it back'', [],
     ''# release lock'',
     ''mov $1, %ax'', ''fetchadd %ax, turn'', [],
     ''# see if we're still looping'',
     ''sub  $1, %bx'', ''test $0, %bx'', ''jgt .top'' @ tab, [], ''halt'']"

definition peterson_s :: "string list" where
  "peterson_s =
    [''# array of 2 integers (each size 4 bytes)'', ''# load address of flag into fx register'',
     ''# access flag[] with 0(%fx,%index,4)'', ''# where %index is a register holding 0 or 1'',
     ''# index reg contains 0 -> flag[0], if 1->flag[1]'', ''.var flag   2     '', [],
     ''# global turn variable'', ''.var turn'', [], ''# global count'', ''.var count'', [], ''.main'', [],
     ''# put address of flag into fx'', ''lea flag, %fx'', [],
     ''# assume thread ID is in bx (0 or 1, scale by 4 to get proper flag address)'',
     ''mov %bx, %cx   # bx: self, now copies to cx'', ''neg %cx        # cx: - self'',
     ''add $1, %cx    # cx: 1 - self'', [], ''.acquire'',
     ''mov $1, 0(%fx,%bx,4)    # flag[self] = 1'', ''mov %cx, turn           # turn       = 1 - self'', [],
     ''.spin1'', ''mov 0(%fx,%cx,4), %ax   # flag[1-self]'', ''test $1, %ax            '',
     ''jne .fini               # if flag[1-self] != 1, skip past loop to .fini'', [],
     ''.spin2                  # just labeled for fun, not needed'', ''mov turn, %ax'',
     ''test %cx, %ax           # compare 'turn' and '1 - self'' @ [CHR 0x27],
     ''je .spin1               # if turn==1-self, go back and start spin again'', [],
     ''# fall out of spin'', ''.fini'', [], ''# do critical section now'', ''mov count, %ax'', ''add $1, %ax'',
     ''mov %ax, count'', [], ''.release'', ''mov $0, 0(%fx,%bx,4)    # flag[self] = 0'', [], [],
     ''# end case: make sure it's other's turn'', ''mov %cx, turn           # turn       = 1 - self'', ''halt'', []]"

lemma test_and_set_assembles:
  "assemble test_and_set_s 1000 = Inr (zip [1000..1011] (zip test_and_set
     [''mov  $1, %ax'', ''xchg %ax, mutex'', ''test $0, %ax'', ''jne  .acquire'', ''mov  count, %ax'', ''add  $1, %ax'',
      ''mov  %ax, count'', ''mov  $0, mutex'', ''sub  $1, %bx'', ''test $0, %bx'', ''jgt .top'', ''halt'']))"
  by code_simp

lemma ticket_assembles:
  "assemble ticket_s 1000 = Inr (zip [1000..1013] (zip ticket
     [''mov $1, %ax'', ''fetchadd %ax, ticket'', ''mov turn, %cx'', ''test %cx, %ax'', ''jne .tryagain'', ''mov  count, %ax'',
      ''add  $1, %ax'', ''mov  %ax, count'', ''mov $1, %ax'', ''fetchadd %ax, turn'', ''sub  $1, %bx'', ''test $0, %bx'',
      ''jgt .top'', ''halt'']))"
  by code_simp

lemma peterson_assembles:
  "assemble peterson_s 1000 = Inr (zip [1000..1017] (zip peterson
     [''lea flag, %fx'', ''mov %bx, %cx'', ''neg %cx'', ''add $1, %cx'', ''mov $1, 0(%fx,%bx,4)'', ''mov %cx, turn'',
      ''mov 0(%fx,%cx,4), %ax'', ''test $1, %ax'', ''jne .fini'', ''mov turn, %ax'', ''test %cx, %ax'', ''je .spin1'',
      ''mov count, %ax'', ''add $1, %ax'', ''mov %ax, count'', ''mov $0, 0(%fx,%bx,4)'', ''mov %cx, turn'', ''halt'']))"
  by code_simp

section \<open>From loading to the first instruction\<close>

lemma store_snoc: "store c (xs @ [(p, i, t)]) =
    (store c xs)\<lparr>memory := (memory (store c xs))(p \<mapsto> Code i), pmemory := (pmemory (store c xs))(p \<mapsto> t)\<rparr>"
  by (simp add: store_def)

lemma store_code:
  assumes "length texts = length prog"
  shows "code_at a prog (memory (store c (zip [a..a + int (length prog) - 1] (zip prog texts))))
           (pmemory (store c (zip [a..a + int (length prog) - 1] (zip prog texts)))) \<and>
     (\<forall>p. p < a \<or> p \<ge> a + int (length prog) \<longrightarrow>
        memory (store c (zip [a..a + int (length prog) - 1] (zip prog texts))) p = memory c p)"
  using assms
proof (induction prog arbitrary: texts rule: rev_induct)
  case Nil
  then show ?case by (simp add: code_at_def store_def)
next
  case (snoc i prog)
  then obtain ts t where ts: "texts = ts @ [t]" "length ts = length prog" by (cases texts rule: rev_cases) auto
  let ?n = "int (length prog)"
  have "[a..a + int (length (prog @ [i])) - 1] = [a..a + ?n - 1] @ [a + ?n]"
    using upto_rec2[of a "a + ?n"] by (simp add: algebra_simps)
  then have z: "zip [a..a + int (length (prog @ [i])) - 1] (zip (prog @ [i]) texts) =
      zip [a..a + ?n - 1] (zip prog ts) @ [(a + ?n, i, t)]" using ts by simp
  from snoc.IH[OF ts(2)] show ?case unfolding z store_snoc
    by (auto simp: code_at_def nth_append less_Suc_eq)
qed

lemma add_threads_regs:
  assumes "add_threads a argv k i stk pl = Inr pl'"
    "\<forall>p \<in> set (plist pl). pc p = Num a \<and> (\<forall>r. \<exists>n. regs p r = Num n)"
  shows "\<forall>p \<in> set (plist pl'). pc p = Num a \<and> (\<forall>r. \<exists>n. regs p r = Num n)"
  using assms
proof (induction k arbitrary: i stk pl)
  case (Suc k)
  from Suc.prems(1) obtain arg p where p: "process_init i a stk arg = Inr p"
    and rec: "add_threads a argv k (i + 1) (stk - 1000) (addproc pl p) = Inr pl'" by (auto simp: res_simps)
  have nums: "\<forall>r. \<exists>n. rs' r = Num n" if "foldres reg_arg rs xs = Inr rs'" "\<forall>r. \<exists>n. rs r = Num n" for rs rs' xs
    by (rule foldres_inv[where P = "\<lambda>rs. \<forall>r. \<exists>n. rs r = Num n", OF that]) (auto simp: reg_arg_def Let_def res_simps split: option.splits)
  have "\<forall>r. \<exists>n. regs p r = Num n"
    using p nums[where rs = "\<lambda>r. Num 0"] by (auto simp: process_init_def bnd_eq_Inr_iff split: if_splits)
  then have "\<forall>q \<in> set (plist (addproc pl p)). pc q = Num a \<and> (\<forall>r. \<exists>n. regs q r = Num n)"
    using Suc.prems(2) process_init_fields(2)[OF p] by (auto simp: addproc_def)
  from Suc.IH[OF rec this] show ?case .
qed simp

text \<open>A thread before its first instruction: at the load address, with numbers in its registers.\<close>

lemma boot_threads:
  assumes "add_threads 1000 argv n 0 stk proclist_init = Inr pl" "\<forall>p \<in> set (plist pl). regs p REG_ZERO = Num 0"
  shows "alive (boot c pl) = {0..<n}" "length (plist pl) = n"
    "i < n \<Longrightarrow> ctx (boot c pl) i = process_thread (plist pl ! i)"
    "i < n \<Longrightarrow> tpc (process_thread (plist pl ! i)) = Num 1000 \<and> tregs (process_thread (plist pl ! i)) REG_ZERO = Num 0 \<and>
      (\<forall>r. \<exists>k. tregs (process_thread (plist pl ! i)) r = Num k)"
proof -
  show len: "length (plist pl) = n" using add_threads_fields[OF assms(1)] by (simp add: proclist_init_def)
  show "alive (boot c pl) = {0..<n}" using len by (simp add: boot_def)
  show "i < n \<Longrightarrow> ctx (boot c pl) i = process_thread (plist pl ! i)" using len by (simp add: boot_def)
  show "i < n \<Longrightarrow> tpc (process_thread (plist pl ! i)) = Num 1000 \<and> tregs (process_thread (plist pl ! i)) REG_ZERO = Num 0 \<and>
      (\<forall>r. \<exists>k. tregs (process_thread (plist pl ! i)) r = Num k)"
    using add_threads_regs[OF assms(1)] assms(2) len by (auto simp: proclist_init_def process_thread_def)
qed

definition increments :: "proclist \<Rightarrow> int" where
  "increments pl = (\<Sum>i < length (plist pl). max 1 (regnum (process_thread (plist pl ! i)) REG_BX))"

text \<open>The threads of a state whose program counter lies between two addresses.\<close>

definition inside :: "int \<Rightarrow> int \<Rightarrow> shared \<Rightarrow> nat set" where
  "inside lo hi s = {i \<in> alive s. \<exists>p. tpc (ctx s i) = Num p \<and> lo \<le> p \<and> p \<le> hi}"

definition at_most_one :: "nat set \<Rightarrow> bool" where
  "at_most_one A \<longleftrightarrow> (\<forall>i \<in> A. \<forall>j \<in> A. i = j)"

lemma insideE:
  assumes "i \<in> inside lo hi s"
  obtains p where "i \<in> alive s" "tpc (ctx s i) = Num p" "p \<in> set [lo..hi]"
  using assms by (auto simp: inside_def)

lemma at_most_oneI:
  "(\<And>i j. i \<in> A \<Longrightarrow> j \<in> A \<Longrightarrow> i = j) \<Longrightarrow> at_most_one A"
  by (simp add: at_most_one_def)

lemma test_and_set_boot:
  assumes "load (cpu_init 128) test_and_set_s 1000 = Inr c" "add_threads 1000 argv n 0 stk proclist_init = Inr pl"
    "\<forall>p \<in> set (plist pl). regs p REG_ZERO = Num 0"
  shows "test_and_set_lock.lock_inv (increments pl) (boot c pl)"
proof -
  note b = boot_threads[OF assms(2,3)]
  have c: "code_at 1000 test_and_set (memory c) (pmemory c)" "memory c 100 = Some (Num 0)" "memory c 104 = Some (Num 0)"
    using assms(1) store_code[of "[''mov  $1, %ax'', ''xchg %ax, mutex'', ''test $0, %ax'', ''jne  .acquire'', ''mov  count, %ax'',
      ''add  $1, %ax'', ''mov  %ax, count'', ''mov  $0, mutex'', ''sub  $1, %bx'', ''test $0, %bx'', ''jgt .top'', ''halt'']"
      test_and_set 1000 "cpu_init 128"]
    by (auto simp: load_def test_and_set_assembles cpu_init_def test_and_set_def)
  have "tas_ok 0 (process_thread (plist pl ! i))" "\<not> tas_crit (process_thread (plist pl ! i))"
    "tas_rest (process_thread (plist pl ! i)) = max 1 (regnum (process_thread (plist pl ! i)) REG_BX)" if "i < n" for i
    using b(4)[OF that] by (auto simp: tas_ok_def tas_crit_def tas_rest_def)
  then show ?thesis using c b(1,2,3) unfolding test_and_set_lock.lock_inv_def
    by (auto simp: boot_def increments_def lessThan_atLeast0)
qed

text \<open>C5. The test-and-set lock (\<^verbatim>\<open>test-and-set.s\<close>): loaded by the assembler and run by any number of
  threads with any numbers of iterations in \<^verbatim>\<open>bx\<close>, under any schedule, interrupt frequency and random
  numbers, the machine never stops with an error, at most one thread is between the acquisition and
  the release of the lock, and when the run returns the counter is the sum of all iterations: no
  increment is lost.\<close>

theorem test_and_set_correct:
  assumes "load (cpu_init 128) test_and_set_s 1000 = Inr c" "add_threads 1000 argv n 0 128000 proclist_init = Inr pl"
    and "\<forall>p \<in> set (plist pl). regs p REG_ZERO = Num 0" "finalize pl c sched = Inr (pl', c')"
  shows "\<exists>out. run pl' c' intfreq intrand r rs = Inr out \<and>
     (case out of
        Running m \<Rightarrow> at_most_one (inside 1004 1007 (threads m))
      | Finished m \<Rightarrow> memory (hw m) 104 = Some (Num (increments pl)))"
proof -
  obtain out where out: "run pl' c' intfreq intrand r rs = Inr out"
    "case out of Running m \<Rightarrow> machine_ok m \<and> test_and_set_lock.lock_inv (increments pl) (threads m)
       | Finished m \<Rightarrow> test_and_set_lock.lock_inv (increments pl) (threads m) \<and> alive (threads m) = {}"
    using test_and_set_lock.run_safe[OF run_interleaves[OF assms(2,4)] test_and_set_boot[OF assms(1-3)]] by blast
  show ?thesis
  proof (cases out)
    case (Running m)
    have "tas_crit (ctx (threads m) i)" if "i \<in> inside 1004 1007 (threads m)" for i
      by (rule insideE[OF that]) (auto simp: tas_crit_def upto_rec1)
    then have "at_most_one (inside 1004 1007 (threads m))"
      using out(2) Running test_and_set_lock.exclusive[of "increments pl" "threads m"] by (auto intro!: at_most_oneI elim: insideE)
    with out(1) Running show ?thesis by simp
  next
    case (Finished m)
    with out test_and_set_lock.complete[of "increments pl" "threads m"] show ?thesis by (auto simp: absm_def)
  qed
qed

text \<open>Two threads for the witnesses.\<close>

lemma two_threads:
  obtains pl where "add_threads 1000 [''bx=2''] 2 0 128000 proclist_init = Inr pl"
    "\<forall>p \<in> set (plist pl). regs p REG_ZERO = Num 0" "increments pl = 4" "length (plist pl) = 2" "procsched pl = []"
  by (simp add: eval_nat_numeral process_init_def list_get_def reg_arg_def regname_def addproc_def proclist_init_def
      int_of_string_def strip_def is_space_code is_digit_code nat_of_string_def digit_val_def
      increments_def regnum_def process_thread_def)

lemma finalize_two:
  assumes "length (plist pl) = 2" "procsched pl = []" obtains pl' c' where "finalize pl c [] = Inr (pl', c')"
  using assms by (simp add: finalize_def proclist_restore_def getcurr_def current_def list_get_def upt_rec Let_def)

theorem test_and_set_correct_witness:
  "\<exists>c pl pl' c' out. load (cpu_init 128) test_and_set_s 1000 = Inr c \<and>
     add_threads 1000 [''bx=2''] 2 0 128000 proclist_init = Inr pl \<and> finalize pl c [] = Inr (pl', c') \<and>
     run pl' c' 3 False 1 [1, 1, 1] = Inr out \<and> increments pl = 4"
proof -
  obtain c where c: "load (cpu_init 128) test_and_set_s 1000 = Inr c" by (simp add: load_def test_and_set_assembles)
  obtain pl where pl: "add_threads 1000 [''bx=2''] 2 0 128000 proclist_init = Inr pl"
    "\<forall>p \<in> set (plist pl). regs p REG_ZERO = Num 0" "increments pl = 4" "length (plist pl) = 2" "procsched pl = []"
    by (rule two_threads)
  obtain pl' c' where f: "finalize pl c [] = Inr (pl', c')" by (rule finalize_two[OF pl(4,5)])
  from test_and_set_correct[OF c pl(1,2) f, of 3 False 1 "[1, 1, 1]"] c pl f show ?thesis by blast
qed

text \<open>The ticket lock.\<close>

lemma ticket_boot:
  assumes "load (cpu_init 128) ticket_s 1000 = Inr c" "add_threads 1000 argv n 0 stk proclist_init = Inr pl"
    "\<forall>p \<in> set (plist pl). regs p REG_ZERO = Num 0"
  shows "ticket_inv (increments pl) (boot c pl)"
proof -
  note b = boot_threads[OF assms(2,3)]
  have c: "code_at 1000 ticket (memory c) (pmemory c)" "memory c 100 = Some (Num 0)" "memory c 104 = Some (Num 0)"
    "memory c 108 = Some (Num 0)"
    using assms(1) store_code[of "[''mov $1, %ax'', ''fetchadd %ax, ticket'', ''mov turn, %cx'', ''test %cx, %ax'',
      ''jne .tryagain'', ''mov  count, %ax'', ''add  $1, %ax'', ''mov  %ax, count'', ''mov $1, %ax'', ''fetchadd %ax, turn'',
      ''sub  $1, %bx'', ''test $0, %bx'', ''jgt .top'', ''halt'']" ticket 1000 "cpu_init 128"]
    by (auto simp: load_def ticket_assembles cpu_init_def ticket_def)
  have "tkt_ok 0 0 (process_thread (plist pl ! i))" "tkt_held 0 (process_thread (plist pl ! i)) = None"
    "tkt_rest (process_thread (plist pl ! i)) = max 1 (regnum (process_thread (plist pl ! i)) REG_BX)" if "i < n" for i
    using b(4)[OF that] by (auto simp: tkt_ok_def tkt_held_def tkt_crit_def tkt_rest_def)
  then show ?thesis using c b(1,2,3) unfolding ticket_inv_def
    by (auto simp: boot_def increments_def lessThan_atLeast0)
qed

text \<open>C8. The ticket lock (\<^verbatim>\<open>ticket.s\<close>), under the same conditions: no error, mutual exclusion between
  the acquisition and the release, and no lost increment.\<close>

theorem ticket_correct:
  assumes "load (cpu_init 128) ticket_s 1000 = Inr c" "add_threads 1000 argv n 0 128000 proclist_init = Inr pl"
    and "\<forall>p \<in> set (plist pl). regs p REG_ZERO = Num 0" "finalize pl c sched = Inr (pl', c')"
  shows "\<exists>out. run pl' c' intfreq intrand r rs = Inr out \<and>
     (case out of
        Running m \<Rightarrow> at_most_one (inside 1005 1009 (threads m))
      | Finished m \<Rightarrow> memory (hw m) 108 = Some (Num (increments pl)))"
proof -
  obtain out where out: "run pl' c' intfreq intrand r rs = Inr out"
    "case out of Running m \<Rightarrow> machine_ok m \<and> ticket_inv (increments pl) (threads m)
       | Finished m \<Rightarrow> ticket_inv (increments pl) (threads m) \<and> alive (threads m) = {}"
    using ticket_lock.run_safe[OF run_interleaves[OF assms(2,4)] ticket_boot[OF assms(1-3)]] by blast
  show ?thesis
  proof (cases out)
    case (Running m)
    have "tkt_crit (ctx (threads m) i)" if "i \<in> inside 1005 1009 (threads m)" for i
      by (rule insideE[OF that]) (auto simp: tkt_crit_def upto_rec1)
    then have "at_most_one (inside 1005 1009 (threads m))"
      using out(2) Running ticket_exclusive[of "increments pl" "threads m"] by (auto intro!: at_most_oneI elim: insideE)
    with out(1) Running show ?thesis by simp
  next
    case (Finished m)
    with out ticket_complete[of "increments pl" "threads m"] show ?thesis by (auto simp: absm_def)
  qed
qed

theorem ticket_correct_witness:
  "\<exists>c pl pl' c' out. load (cpu_init 128) ticket_s 1000 = Inr c \<and>
     add_threads 1000 [''bx=2''] 2 0 128000 proclist_init = Inr pl \<and> finalize pl c [] = Inr (pl', c') \<and>
     run pl' c' 3 False 1 [1, 1, 1] = Inr out \<and> increments pl = 4"
proof -
  obtain c where c: "load (cpu_init 128) ticket_s 1000 = Inr c" by (simp add: load_def ticket_assembles)
  obtain pl where pl: "add_threads 1000 [''bx=2''] 2 0 128000 proclist_init = Inr pl"
    "\<forall>p \<in> set (plist pl). regs p REG_ZERO = Num 0" "increments pl = 4" "length (plist pl) = 2" "procsched pl = []"
    by (rule two_threads)
  obtain pl' c' where f: "finalize pl c [] = Inr (pl', c')" by (rule finalize_two[OF pl(4,5)])
  from ticket_correct[OF c pl(1,2) f, of 3 False 1 "[1, 1, 1]"] c pl f show ?thesis by blast
qed

text \<open>Peterson's algorithm.\<close>

lemma peterson_threads:
  assumes "add_threads 1000 [''bx=0'', ''bx=1''] 2 0 stk proclist_init = Inr pl"
  shows "\<exists>p q. plist pl = [p, q] \<and> pc p = Num 1000 \<and> pc q = Num 1000 \<and> regs p REG_ZERO = Num 0 \<and> regs q REG_ZERO = Num 0 \<and>
     regs p REG_BX = Num 0 \<and> regs q REG_BX = Num 1"
  using assms
  by (auto simp: eval_nat_numeral process_init_def list_get_def reg_arg_def regname_def addproc_def proclist_init_def
      int_of_string_def strip_def is_space_code is_digit_code nat_of_string_def digit_val_def)

lemma peterson_boot:
  assumes "load (cpu_init 128) peterson_s 1000 = Inr c" "add_threads 1000 [''bx=0'', ''bx=1''] 2 0 stk proclist_init = Inr pl"
  shows "peterson_inv (boot c pl)"
proof -
  obtain p q where pq: "plist pl = [p, q]" "pc p = Num 1000" "pc q = Num 1000" "regs p REG_ZERO = Num 0" "regs q REG_ZERO = Num 0"
    "regs p REG_BX = Num 0" "regs q REG_BX = Num 1" using peterson_threads[OF assms(2)] by blast
  have c: "code_at 1000 peterson (memory c) (pmemory c)" "memory c 100 = Some (Num 0)" "memory c 104 = Some (Num 0)"
    "memory c 108 = Some (Num 0)" "memory c 112 = Some (Num 0)"
    using assms(1) store_code[of "[''lea flag, %fx'', ''mov %bx, %cx'', ''neg %cx'', ''add $1, %cx'', ''mov $1, 0(%fx,%bx,4)'',
      ''mov %cx, turn'', ''mov 0(%fx,%cx,4), %ax'', ''test $1, %ax'', ''jne .fini'', ''mov turn, %ax'', ''test %cx, %ax'',
      ''je .spin1'', ''mov count, %ax'', ''add $1, %ax'', ''mov %ax, count'', ''mov $0, 0(%fx,%bx,4)'', ''mov %cx, turn'',
      ''halt'']" peterson 1000 "cpu_init 128"]
    by (auto simp: load_def peterson_assembles cpu_init_def peterson_def)
  then show ?thesis using pq unfolding peterson_inv_def
    by (simp add: boot_def process_thread_def pet_good_def pet_ok_def pet_flag_def pet_asked_def pet_prio_def pet_crit_def
        pet_rest_def dead_thread_def atLeast0_lessThan_Suc numeral_2_eq_2)
qed

text \<open>C10. Peterson's algorithm (\<^verbatim>\<open>peterson.s\<close>), which uses plain loads and stores only: run by the threads
  0 and 1 under any schedule, interrupt frequency and random numbers, the machine never stops with an
  error, the two threads are never both in the critical section, and when the run returns both
  increments have been made.\<close>

theorem peterson_correct:
  assumes "load (cpu_init 128) peterson_s 1000 = Inr c"
    and "add_threads 1000 [''bx=0'', ''bx=1''] 2 0 128000 proclist_init = Inr pl" "finalize pl c sched = Inr (pl', c')"
  shows "\<exists>out. run pl' c' intfreq intrand r rs = Inr out \<and>
     (case out of
        Running m \<Rightarrow> at_most_one (inside 1012 1015 (threads m))
      | Finished m \<Rightarrow> memory (hw m) 112 = Some (Num 2))"
proof -
  obtain out where out: "run pl' c' intfreq intrand r rs = Inr out"
    "case out of Running m \<Rightarrow> machine_ok m \<and> peterson_inv (threads m)
       | Finished m \<Rightarrow> peterson_inv (threads m) \<and> alive (threads m) = {}"
    using peterson_lock.run_safe[OF run_interleaves[OF assms(2,3)] peterson_boot[OF assms(1,2)]] by blast
  show ?thesis
  proof (cases out)
    case (Running m)
    then have inv: "peterson_inv (threads m)" using out(2) by simp
    have "(i = 0 \<or> i = 1) \<and> pet_crit (int i) (ctx (threads m) i)" if "i \<in> inside 1012 1015 (threads m)" for i
      by (rule insideE[OF that]) (use inv in \<open>auto simp: pet_crit_def upto_rec1 peterson_inv_def\<close>)
    then have "at_most_one (inside 1012 1015 (threads m))"
      using peterson_exclusive[OF inv] by (intro at_most_oneI) (metis of_nat_0 of_nat_1)
    with out(1) Running show ?thesis by simp
  next
    case (Finished m)
    with out peterson_complete[of "threads m"] show ?thesis by (auto simp: absm_def)
  qed
qed

theorem peterson_correct_witness:
  "\<exists>c pl pl' c' out. load (cpu_init 128) peterson_s 1000 = Inr c \<and>
     add_threads 1000 [''bx=0'', ''bx=1''] 2 0 128000 proclist_init = Inr pl \<and> finalize pl c [] = Inr (pl', c') \<and>
     run pl' c' 3 False 1 [1, 1, 1] = Inr out"
proof -
  obtain c where c: "load (cpu_init 128) peterson_s 1000 = Inr c" by (simp add: load_def peterson_assembles)
  obtain pl where pl: "add_threads 1000 [''bx=0'', ''bx=1''] 2 0 128000 proclist_init = Inr pl"
    by (simp add: eval_nat_numeral process_init_def list_get_def reg_arg_def regname_def
        int_of_string_def strip_def is_space_code is_digit_code nat_of_string_def digit_val_def)
  have "length (plist pl) = 2" "procsched pl = []"
    using add_threads_fields[OF pl] by (auto simp: proclist_init_def)
  then obtain pl' c' where f: "finalize pl c [] = Inr (pl', c')" by (rule finalize_two)
  from peterson_correct[OF c pl f, of 3 False 1 "[1, 1, 1]"] c pl f show ?thesis by blast
qed

section \<open>A lock that does not work\<close>

definition flag_s :: "string list" where
  "flag_s =
    [''.var flag'', ''.var count'', [], ''.main'', ''.top'', [], ''.acquire'',
     ''mov  flag, %ax      # get flag'',
     ''test $0, %ax        # if we get 0 back: lock is free!'',
     ''jne  .acquire       # if not, try again'',
     ''mov  $1, flag       # store 1 into flag'', [],
     ''# critical section'',
     ''mov  count, %ax     # get the value at the address'',
     ''add  $1, %ax        # increment it'',
     ''mov  %ax, count     # store it back'', [],
     ''# release lock'',
     ''mov  $0, flag       # clear the flag now'', [],
     ''# see if we're still looping'',
     ''sub  $1, %bx'', ''test $0, %bx'', ''jgt .top'' @ tab, [], ''halt'', []]"

lemma flag_assembles:
  "assemble flag_s 1000 = Inr
     [(1000, move_m_to_r 100 REG_ZERO REG_ZERO 1 REG_AX, ''mov  flag, %ax''), (1001, test_i_r 0 REG_AX, ''test $0, %ax''),
      (1002, jump_notequal 1000, ''jne  .acquire''), (1003, move_i_to_m 1 100 REG_ZERO REG_ZERO 1, ''mov  $1, flag''),
      (1004, move_m_to_r 104 REG_ZERO REG_ZERO 1 REG_AX, ''mov  count, %ax''), (1005, add_i_to_r 1 REG_AX, ''add  $1, %ax''),
      (1006, move_r_to_m REG_AX 104 REG_ZERO REG_ZERO 1, ''mov  %ax, count''),
      (1007, move_i_to_m 0 100 REG_ZERO REG_ZERO 1, ''mov  $0, flag''), (1008, sub_i_to_r 1 REG_BX, ''sub  $1, %bx''),
      (1009, test_i_r 0 REG_BX, ''test $0, %bx''), (1010, jump_greaterthan 1000, ''jgt .top''), (1011, halt, ''halt'')]"
  by code_simp

lemma bnd_weak_cong: "m = m' \<Longrightarrow> bnd m f = bnd m' f"
  by simp

lemmas machine_simps = main_def process_init_def list_get_def reg_arg_def regname_def addproc_def proclist_init_def
  int_of_string_def strip_def is_space_code is_digit_code nat_of_string_def digit_val_def finalize_def
  proclist_restore_def getcurr_def current_def run_def setint_def process_restore_def process_save_def
  run_step_def cycle_def tick_def switch_def proclist_save_def proclist_next_def proclist_done_def numdone_def getnum_def
  set_reg_def set_mem_def effective_def arith_def test_def jump_if_def dict_get_def Let_def

lemmas machine_congs = bnd_weak_cong let_weak_cong outcome.case_cong_weak sum.case_cong_weak prod.case_cong_weak
  option.case_cong_weak list.case_cong_weak val.case_cong_weak

text \<open>The lock of \<^verbatim>\<open>flag.s\<close> is not one: with two threads, one iteration each and an interrupt every
  three instructions, both threads find the flag clear, and the run returns with the counter at 1
  after two increments.\<close>

theorem flag_loses_increment:
  "(case load (cpu_init 128) flag_s 1000 of Inl e \<Rightarrow> False
    | Inr c \<Rightarrow> (case main c 2 3 False ''bx=1'' [] 1000 128 3 (replicate 24 3) of
         Inr (Finished m) \<Rightarrow> memory (hw m) 104 = Some (Num 1) | _ \<Rightarrow> False))"
  by (simp add: load_def flag_assembles store_def cpu_init_def machine_simps eval_nat_numeral cong: machine_congs)

end
