(* ===== verification/Raid.thy ===== *)
theory Raid
  imports Machines
begin

text \<open>
  The RAID simulator of \<^verbatim>\<open>ostep/homework/file-raid/raid.py\<close>: class \<^verbatim>\<open>disk\<close>, class \<^verbatim>\<open>raid\<close> with the
  block maps of levels 0, 1, 4 and 5 (left-symmetric and left-asymmetric), the small-write logic, and
  the request loop. The calls of \<^verbatim>\<open>doSingleRead\<close> and \<^verbatim>\<open>doSingleWrite\<close> are recorded in order in \<open>phys\<close>
  (the lines the program prints). Times are in tenths of a millisecond, so that the constants 10 and
  0.1 are whole numbers; the rounding of the program's floating-point sums is not modelled.
\<close>

section \<open>A disk\<close>

record rdisk =
  currAddr :: int
  countIO :: int
  countSeq :: int
  countNseq :: int
  countRand :: int
  utilTime :: int

definition seekTime :: int where "seekTime = 100"
definition xferTime :: int where "xferTime = 1"
definition numTracks :: int where "numTracks = 100"
definition blocksPerTrack :: int where "blocksPerTrack = 100"
definition blocksPerDisk :: int where "blocksPerDisk = numTracks * blocksPerTrack"

definition disk_init :: rdisk where
  "disk_init = \<lparr>currAddr = -10000, countIO = 0, countSeq = 0, countNseq = 0, countRand = 0, utilTime = 0\<rparr>"

definition disk_enqueue :: "rdisk \<Rightarrow> int \<Rightarrow> rdisk res" where
  "disk_enqueue d addr =
     asserting (addr < blocksPerDisk)
      (bnd (int_div (currAddr d) numTracks) (\<lambda>currTrack.
       bnd (int_div addr numTracks) (\<lambda>newTrack.
         let d = d\<lparr>countIO := countIO d + 1\<rparr>;
             diff = addr - currAddr d;
             diff = (if diff < 0 then - diff else diff);
             d = (if currTrack = newTrack \<or> diff < blocksPerTrack
                  then (if diff = 1 then d\<lparr>countSeq := countSeq d + 1\<rparr> else d\<lparr>countNseq := countNseq d + 1\<rparr>)
                         \<lparr>utilTime := utilTime d + diff * xferTime\<rparr>
                  else d\<lparr>countRand := countRand d + 1, utilTime := utilTime d + (seekTime + xferTime)\<rparr>)
         in Inr (d\<lparr>currAddr := addr\<rparr>))))"

section \<open>The array\<close>

definition BLOCKSIZE :: int where "BLOCKSIZE = 4096"

text \<open>\<^verbatim>\<open>convert\<close>: a size with an optional unit.\<close>

definition convert :: "string \<Rightarrow> int res" where
  "convert sz =
     (if sz = [] then Inl IndexError
      else let lastchar = last sz; scaled = (\<lambda>m. bnd (int_of_string (butlast sz)) (\<lambda>n. Inr (n * m)))
      in if lastchar = CHR ''k'' \<or> lastchar = CHR ''K'' then scaled 1024
         else if lastchar = CHR ''m'' \<or> lastchar = CHR ''M'' then scaled (1024 * 1024)
         else if lastchar = CHR ''g'' \<or> lastchar = CHR ''G'' then scaled (1024 * 1024 * 1024)
         else int_of_string sz)"

text \<open>The fields no request changes come first.\<close>

record geometry =
  chunkSize :: int
  numDisks :: int
  raidLevel :: int
  raid5type :: string
  blocksInStripe :: int
  pdisk :: int

record raid = geometry +
  disks :: "rdisk list"
  phys :: "(bool \<times> int \<times> int) list" \<comment> \<open>is it a write, disk, offset\<close>

definition raid_init :: "string \<Rightarrow> int \<Rightarrow> int \<Rightarrow> string \<Rightarrow> raid res" where
  "raid_init chunk nd level r5 =
     bnd (convert chunk) (\<lambda>chunkBytes.
     bnd (int_div chunkBytes BLOCKSIZE) (\<lambda>c.
       if chunkBytes mod BLOCKSIZE \<noteq> 0 then Inl SysExit
       else if level = 1 \<and> nd mod 2 \<noteq> 0 then Inl SysExit
       else Inr \<lparr>chunkSize = c, numDisks = nd, raidLevel = level, raid5type = r5,
                 blocksInStripe = (if level = 4 \<or> level = 5 then (nd - 1) * c else 0),
                 pdisk = (if level = 4 then nd - 1 else -1),
                 disks = map (\<lambda>_. disk_init) [0..nd - 1], phys = []\<rparr>))"

text \<open>\<^verbatim>\<open>doSingleRead\<close> (\<open>w\<close> false) and \<^verbatim>\<open>doSingleWrite\<close> (\<open>w\<close> true)\<close>

definition doSingle :: "bool \<Rightarrow> raid \<Rightarrow> int \<Rightarrow> int \<Rightarrow> raid res" where
  "doSingle w r dsk off =
     bnd (list_get (disks r) dsk) (\<lambda>d.
     bnd (disk_enqueue d off) (\<lambda>d'.
       let i = nat (if dsk < 0 then dsk + int (length (disks r)) else dsk)
       in Inr (r\<lparr>disks := (disks r)[i := d'], phys := phys r @ [(w, dsk, off)]\<rparr>)))"

section \<open>Block maps\<close>

definition bmap0 :: "raid \<Rightarrow> int \<Rightarrow> (int \<times> int) res" where
  "bmap0 r bnum =
     bnd (int_div bnum (chunkSize r)) (\<lambda>cnum.
     bnd (int_mod bnum (chunkSize r)) (\<lambda>coff.
     bnd (int_mod cnum (numDisks r)) (\<lambda>d.
     bnd (int_div cnum (numDisks r)) (\<lambda>row. Inr (d, row * chunkSize r + coff)))))"

definition bmap1 :: "raid \<Rightarrow> int \<Rightarrow> (int \<times> int \<times> int) res" where
  "bmap1 r bnum =
     bnd (int_div bnum (chunkSize r)) (\<lambda>cnum.
     bnd (int_mod bnum (chunkSize r)) (\<lambda>coff.
     bnd (int_div (numDisks r) 2) (\<lambda>half.
     bnd (int_mod cnum half) (\<lambda>c.
     bnd (int_div cnum half) (\<lambda>row. Inr (2 * c, 2 * c + 1, row * chunkSize r + coff))))))"

definition bmap4 :: "raid \<Rightarrow> int \<Rightarrow> (int \<times> int) res" where
  "bmap4 r bnum =
     bnd (int_div bnum (chunkSize r)) (\<lambda>cnum.
     bnd (int_mod bnum (chunkSize r)) (\<lambda>coff.
     bnd (int_mod cnum (numDisks r - 1)) (\<lambda>d.
     bnd (int_div cnum (numDisks r - 1)) (\<lambda>row. Inr (d, row * chunkSize r + coff)))))"

definition pmap4 :: "raid \<Rightarrow> int \<Rightarrow> int res" where
  "pmap4 r snum = Inr (pdisk r)"

definition bmap5_full :: "raid \<Rightarrow> int \<Rightarrow> (int \<times> int \<times> int) res" where
  "bmap5_full r bnum =
     bnd (int_div bnum (chunkSize r)) (\<lambda>cnum.
     bnd (int_mod bnum (chunkSize r)) (\<lambda>coff.
     bnd (int_div cnum (numDisks r - 1)) (\<lambda>ddsk.
     bnd (int_mod cnum (numDisks r - 1)) (\<lambda>dsk.
     bnd (int_mod ddsk (numDisks r)) (\<lambda>col.
       let doff = ddsk * chunkSize r + coff; pd = numDisks r - 1 - col
       in bnd (if raid5type r = ''LA'' then Inr (if dsk \<ge> pd then dsk + 1 else dsk)
               else if raid5type r = ''LS'' then int_mod (dsk - col) (numDisks r)
               else Inl SysExit) (\<lambda>dsk. asserting (dsk \<noteq> pd) (Inr (dsk, pd, doff))))))))"

definition bmap5 :: "raid \<Rightarrow> int \<Rightarrow> (int \<times> int) res" where
  "bmap5 r bnum = bnd (bmap5_full r bnum) (\<lambda>(dsk, pd, off). Inr (dsk, off))"

definition pmap5 :: "raid \<Rightarrow> int \<Rightarrow> int res" where
  "pmap5 r snum = bnd (bmap5_full r (snum * blocksInStripe r)) (\<lambda>(dsk, pd, off). Inr pd)"

section \<open>Requests\<close>

definition enqueue0 :: "raid \<Rightarrow> int \<Rightarrow> int \<Rightarrow> bool \<Rightarrow> raid res" where
  "enqueue0 r addr sz isWrite =
     foldres (\<lambda>r b. bnd (bmap0 r b) (\<lambda>(dsk, off). doSingle isWrite r dsk off)) r [addr..addr + sz - 1]"

definition enqueue1 :: "raid \<Rightarrow> int \<Rightarrow> int \<Rightarrow> bool \<Rightarrow> raid res" where
  "enqueue1 r addr sz isWrite =
     foldres (\<lambda>r b. bnd (bmap1 r b) (\<lambda>(disk1, disk2, off).
       if isWrite then bnd (doSingle True r disk1 off) (\<lambda>r. doSingle True r disk2 off)
       else if off mod 2 = 0 then doSingle False r disk1 off
       else doSingle False r disk2 off)) r [addr..addr + sz - 1]"

text \<open>The blocks \<open>voffs\<close> one after the other, collecting the offsets they are at.\<close>

definition do_blocks :: "(raid \<Rightarrow> int \<Rightarrow> (int \<times> int) res) \<Rightarrow> bool \<Rightarrow> raid \<Rightarrow> int list \<Rightarrow> (raid \<times> int list) res" where
  "do_blocks bmap w r voffs =
     foldres (\<lambda>(r, offList) voff.
       bnd (bmap r voff) (\<lambda>(dsk, off).
       bnd (doSingle w r dsk off) (\<lambda>r.
         Inr (r, if off \<in> set offList then offList else offList @ [off])))) (r, []) voffs"

definition do_parity :: "bool \<Rightarrow> raid \<Rightarrow> int \<Rightarrow> int list \<Rightarrow> raid res" where
  "do_parity w r pd offList = foldres (\<lambda>r off. doSingle w r pd off) r offList"

definition doPartialWrite :: "(raid \<Rightarrow> int \<Rightarrow> (int \<times> int) res) \<Rightarrow> (raid \<Rightarrow> int \<Rightarrow> int res) \<Rightarrow> raid \<Rightarrow> int \<Rightarrow> int \<Rightarrow> int \<Rightarrow> raid res" where
  "doPartialWrite bmap pmap r stripe lo hi =
     (let numWrites = hi - lo
      in bnd (pmap r stripe) (\<lambda>pd.
         bnd (if numWrites + 1 \<le> blocksInStripe r - numWrites
              then bnd (do_blocks bmap False r [lo..hi - 1]) (\<lambda>(r, offList). do_parity False r pd offList)
              else let stripeBegin = stripe * blocksInStripe r; stripeEnd = stripeBegin + blocksInStripe r
                   in bnd (do_blocks bmap False r [stripeBegin..lo - 1]) (\<lambda>(r, _).
                      bnd (do_blocks bmap False r [hi..stripeEnd - 1]) (\<lambda>(r, _). Inr r))) (\<lambda>r.
         bnd (do_blocks bmap True r [lo..hi - 1]) (\<lambda>(r, offList). do_parity True r pd offList))))"

definition stripe_step :: "(raid \<Rightarrow> int \<Rightarrow> (int \<times> int) res) \<Rightarrow> (raid \<Rightarrow> int \<Rightarrow> int res) \<Rightarrow> raid \<times> int \<times> int \<Rightarrow> int
    \<Rightarrow> (raid \<times> int \<times> int) res" where
  "stripe_step bmap pmap st stripe =
     (case st of (r, left, lo) \<Rightarrow>
        let endOfStripe = stripe * blocksInStripe r + blocksInStripe r;
            hi = (if left \<ge> blocksInStripe r then lo + blocksInStripe r else lo + left);
            hi = (if hi \<ge> endOfStripe then endOfStripe else hi)
        in bnd (doPartialWrite bmap pmap r stripe lo hi) (\<lambda>r. Inr (r, left - (hi - lo), hi)))"

definition enqueue45 :: "raid \<Rightarrow> int \<Rightarrow> int \<Rightarrow> bool \<Rightarrow> raid res" where
  "enqueue45 r addr sz isWrite =
     (let (bmap, pmap) = (if raidLevel r = 4 then (bmap4, pmap4) else (bmap5, pmap5))
      in if \<not> isWrite then bnd (do_blocks bmap False r [addr..addr + sz - 1]) (\<lambda>(r, _). Inr r)
         else bnd (int_div addr (blocksInStripe r)) (\<lambda>initStripe.
              bnd (int_div (addr + sz - 1) (blocksInStripe r)) (\<lambda>finalStripe.
              bnd (foldres (stripe_step bmap pmap) (r, sz, addr) [initStripe..finalStripe]) (\<lambda>(r, _). Inr r))))"

definition raid_enqueue :: "raid \<Rightarrow> int \<Rightarrow> int \<Rightarrow> bool \<Rightarrow> raid res" where
  "raid_enqueue r addr sz isWrite =
     (if raidLevel r = 0 then enqueue0 r addr sz isWrite
      else if raidLevel r = 1 then enqueue1 r addr sz isWrite
      else if raidLevel r = 4 \<or> raidLevel r = 5 then enqueue45 r addr sz isWrite
      else Inr r)"

text \<open>The completion time: the time of the busiest disk.\<close>

definition raid_go :: "raid \<Rightarrow> int" where
  "raid_go r = fold (\<lambda>d tmax. if utilTime d > tmax then utilTime d else tmax) (disks r) 0"

section \<open>The main program\<close>

datatype workload = Sequential | Random

definition workload_of :: "string \<Rightarrow> workload res" where
  "workload_of w =
     (if w = ''seq'' \<or> w = ''s'' \<or> w = ''sequential'' then Inr Sequential
      else if w = ''rand'' \<or> w = ''r'' \<or> w = ''random'' then Inr Random else Inl SysExit)"

text \<open>One request; a draw is the random block number and whether the request is a write.\<close>

definition request_step :: "workload \<Rightarrow> int \<Rightarrow> raid \<times> int \<Rightarrow> int \<times> bool \<Rightarrow> (raid \<times> int) res" where
  "request_step wl sz st draw =
     (case (st, draw) of ((r, off), (rnd, isWrite)) \<Rightarrow>
        let (blk, off) = (case wl of Sequential \<Rightarrow> (off, off + sz) | Random \<Rightarrow> (rnd, off))
        in bnd (raid_enqueue r blk sz isWrite) (\<lambda>r. Inr (r, off)))"

definition raid_main :: "string \<Rightarrow> string \<Rightarrow> int \<Rightarrow> int \<Rightarrow> string \<Rightarrow> string \<Rightarrow> (int \<times> bool) list \<Rightarrow> (raid \<times> int) res" where
  "raid_main reqSize wl level nd r5 chunk draws =
     bnd (convert reqSize) (\<lambda>bytes.
       if bytes mod BLOCKSIZE \<noteq> 0 then Inl SysExit
       else bnd (int_div bytes BLOCKSIZE) (\<lambda>sz.
            bnd (workload_of wl) (\<lambda>w.
            asserting (level = 0 \<or> level = 1 \<or> level = 4 \<or> level = 5)
             (if level \<noteq> 0 \<and> nd < 2 then Inl SysExit
              else if level = 5 \<and> r5 \<noteq> ''LA'' \<and> r5 \<noteq> ''LS'' then Inl SysExit
              else bnd (raid_init chunk nd level r5) (\<lambda>r.
                   bnd (foldres (request_step w sz) (r, 0) draws) (\<lambda>(r, _). Inr (r, raid_go r)))))))"

section \<open>Geometry\<close>

abbreviation geom :: "raid \<Rightarrow> geometry" where "geom r \<equiv> geometry.truncate r"

lemma geom_sel [simp]:
  "chunkSize (geom r) = chunkSize r" "numDisks (geom r) = numDisks r" "raidLevel (geom r) = raidLevel r"
  "raid5type (geom r) = raid5type r" "blocksInStripe (geom r) = blocksInStripe r" "pdisk (geom r) = pdisk r"
  by (simp_all add: geometry.truncate_def)

lemma geom_upd [simp]: "geom (r\<lparr>disks := ds\<rparr>) = geom r" "geom (r\<lparr>phys := p\<rparr>) = geom r"
  by (simp_all add: geometry.truncate_def)

definition wf_geom :: "geometry \<Rightarrow> bool" where
  "wf_geom g \<longleftrightarrow> 0 < chunkSize g \<and> 0 < numDisks g \<and>
     (raidLevel g = 0 \<or> raidLevel g = 1 \<and> even (numDisks g) \<or>
      raidLevel g = 4 \<and> 2 \<le> numDisks g \<and> pdisk g = numDisks g - 1 \<and>
        blocksInStripe g = (numDisks g - 1) * chunkSize g \<or>
      raidLevel g = 5 \<and> 2 \<le> numDisks g \<and> (raid5type g = ''LA'' \<or> raid5type g = ''LS'') \<and>
        blocksInStripe g = (numDisks g - 1) * chunkSize g)"

definition wf_raid :: "raid \<Rightarrow> bool" where
  "wf_raid r \<longleftrightarrow> wf_geom (geom r) \<and> numDisks r = int (length (disks r))"

text \<open>The disk of a column of a row, and the parity disk of a row.\<close>

definition parity_disk :: "geometry \<Rightarrow> int \<Rightarrow> int" where
  "parity_disk g row = (if raidLevel g = 4 then numDisks g - 1 else numDisks g - 1 - row mod numDisks g)"

definition data_disk :: "geometry \<Rightarrow> int \<Rightarrow> int \<Rightarrow> int" where
  "data_disk g row col =
     (if raidLevel g = 1 then 2 * col
      else if raidLevel g \<noteq> 5 then col
      else if raid5type g = ''LA'' then (if col \<ge> parity_disk g row then col + 1 else col)
      else (col - row mod numDisks g) mod numDisks g)"

definition row_width :: "geometry \<Rightarrow> int" where
  "row_width g = (if raidLevel g = 0 then numDisks g else if raidLevel g = 1 then numDisks g div 2 else numDisks g - 1)"

definition data_loc :: "geometry \<Rightarrow> int \<Rightarrow> int \<times> int" where
  "data_loc g b =
     (let c = b div chunkSize g; row = c div row_width g
      in (data_disk g row (c mod row_width g), row * chunkSize g + b mod chunkSize g))"

definition parity_loc :: "geometry \<Rightarrow> int \<Rightarrow> int \<times> int" where
  "parity_loc g b = (parity_disk g (b div blocksInStripe g), snd (data_loc g b))"

text \<open>The disks that hold data in a row (of a mirrored pair, the first disk).\<close>

definition data_disks :: "geometry \<Rightarrow> int \<Rightarrow> int set" where
  "data_disks g row =
     (if raidLevel g = 0 then {0..<numDisks g}
      else if raidLevel g = 1 then {d. 0 \<le> d \<and> d < numDisks g \<and> even d}
      else {0..<numDisks g} - {parity_disk g row})"

section \<open>Striping\<close>

text \<open>
  What the block maps have in common: the chunks go round the array row by row, and in each row
  \<open>place\<close> says on which disk a column is. The laws are that the columns of a row fill the disks that
  hold data in that row, each once, and that the map of the code computes this position.
\<close>

locale striped =
  fixes ok :: "geometry \<Rightarrow> bool"
    and width :: "geometry \<Rightarrow> int"
    and place :: "geometry \<Rightarrow> int \<Rightarrow> int \<Rightarrow> int"
    and home :: "geometry \<Rightarrow> int \<Rightarrow> int set"
    and bmap :: "raid \<Rightarrow> int \<Rightarrow> (int \<times> int) res"
  assumes chunk_pos: "ok g \<Longrightarrow> 0 < chunkSize g" and width_pos: "ok g \<Longrightarrow> 0 < width g"
    and home_range: "ok g \<Longrightarrow> home g row \<subseteq> {0..<numDisks g}"
    and place_bij: "ok g \<Longrightarrow> 0 \<le> row \<Longrightarrow> bij_betw (place g row) {0..<width g} (home g row)"
    and bmap_place: "ok (geom r) \<Longrightarrow> 0 \<le> b \<Longrightarrow> row = b div chunkSize r div width (geom r) \<Longrightarrow>
      bmap r b = Inr (place (geom r) row (b div chunkSize r mod width (geom r)), row * chunkSize r + b mod chunkSize r)"
begin

definition locate :: "geometry \<Rightarrow> int \<Rightarrow> int \<times> int" where
  "locate g b = (let row = b div chunkSize g div width g
     in (place g row (b div chunkSize g mod width g), row * chunkSize g + b mod chunkSize g))"

lemma bmap_locate: "ok (geom r) \<Longrightarrow> 0 \<le> b \<Longrightarrow> bmap r b = Inr (locate (geom r) b)"
  using bmap_place by (simp add: locate_def Let_def)

lemma row_nonneg: "ok g \<Longrightarrow> 0 \<le> b \<Longrightarrow> 0 \<le> b div chunkSize g div width g"
  using chunk_pos width_pos by (simp add: pos_imp_zdiv_nonneg_iff)

lemma off_row: "ok g \<Longrightarrow> snd (locate g b) div chunkSize g = b div chunkSize g div width g"
  using chunk_pos[of g] by (simp add: locate_def Let_def)

lemma off_mod: "ok g \<Longrightarrow> snd (locate g b) mod chunkSize g = b mod chunkSize g"
  using chunk_pos[of g] by (simp add: locate_def Let_def)

lemma locate_home: "ok g \<Longrightarrow> 0 \<le> b \<Longrightarrow> fst (locate g b) \<in> home g (snd (locate g b) div chunkSize g)"
  using bij_betwE[OF place_bij[OF _ row_nonneg, of g g b]] width_pos[of g]
  by (simp only: off_row) (simp add: locate_def Let_def)

lemma off_nonneg: "ok g \<Longrightarrow> 0 \<le> b \<Longrightarrow> 0 \<le> snd (locate g b)"
  using chunk_pos[of g] row_nonneg[of g b] by (simp add: locate_def Let_def)

lemma locate_inj:
  assumes ok: "ok g" and "0 \<le> b" "0 \<le> b'" and eq: "locate g b = locate g b'"
  shows "b = b'"
proof -
  let ?c = "chunkSize g" and ?w = "width g"
  have row: "b div ?c div ?w = b' div ?c div ?w" using eq off_row[OF ok] by metis
  have mod: "b mod ?c = b' mod ?c" using eq off_mod[OF ok] by metis
  have "place g (b div ?c div ?w) (b div ?c mod ?w) = place g (b div ?c div ?w) (b' div ?c mod ?w)"
    using eq row by (simp add: locate_def Let_def)
  then have "b div ?c mod ?w = b' div ?c mod ?w"
    using place_bij[OF ok row_nonneg[OF ok assms(2)]] width_pos[OF ok] by (auto simp: bij_betw_def inj_on_def)
  then have "b div ?c = b' div ?c" using row by (metis div_mult_mod_eq)
  with mod show ?thesis by (metis div_mult_mod_eq)
qed

lemma locate_onto:
  assumes ok: "ok g" and "0 \<le> off" "d \<in> home g (off div chunkSize g)"
  obtains b where "0 \<le> b" "locate g b = (d, off)"
proof -
  let ?c = "chunkSize g" and ?w = "width g"
  note pos = chunk_pos[OF ok] width_pos[OF ok]
  have row: "0 \<le> off div ?c" using assms(2) pos by (simp add: pos_imp_zdiv_nonneg_iff)
  obtain c where c: "0 \<le> c" "c < ?w" "place g (off div ?c) c = d"
    using bij_betw_imp_surj_on[OF place_bij[OF ok row]] assms(3) by (metis atLeastLessThan_iff imageE)
  let ?b = "(off div ?c * ?w + c) * ?c + off mod ?c"
  have 1: "?b div ?c = off div ?c * ?w + c" using pos by simp
  have 2: "(off div ?c * ?w + c) div ?w = off div ?c" "(off div ?c * ?w + c) mod ?w = c"
    using c pos by simp_all
  have "locate g ?b = (d, off)" unfolding locate_def 1 2 using c pos by simp
  moreover have "0 \<le> ?b" using row c pos by simp
  ultimately show ?thesis using that by blast
qed

theorem locate_bij:
  assumes "ok g"
  shows "bij_betw (locate g) {0..} {(d, off). 0 \<le> off \<and> d \<in> home g (off div chunkSize g)}" (is "bij_betw _ _ ?R")
proof (rule bij_betw_imageI)
  show "inj_on (locate g) {0..}" by (rule inj_onI) (auto intro: locate_inj[OF assms])
  have "x \<in> locate g ` {0..}" if "x \<in> ?R" for x
    using that locate_onto[OF assms, of "snd x" "fst x"] by (metis (no_types, lifting) atLeast_iff image_eqI
      case_prodE mem_Collect_eq prod.sel)
  then show "locate g ` {0..} = ?R"
    by (auto simp: off_nonneg[OF assms] locate_home[OF assms] case_prod_unfold)
qed

text \<open>The row of a block is its stripe.\<close>

lemma row_eq_stripe: "ok g \<Longrightarrow> 0 \<le> b \<Longrightarrow> b div chunkSize g div width g = b div (width g * chunkSize g)"
  using width_pos[of g] by (simp add: zdiv_zmult2_eq mult.commute[of "width g"])

lemma off_bound:
  assumes "ok g" "0 \<le> b" "b < n * (width g * chunkSize g)"
  shows "snd (locate g b) < n * chunkSize g"
proof -
  have "b div (width g * chunkSize g) < n"
    using assms chunk_pos width_pos by (simp add: zdiv_less_iff)
  then show ?thesis
    using chunk_pos[OF assms(1)] row_eq_stripe[OF assms(1,2)] off_row[OF assms(1), of b] by (simp flip: zdiv_less_iff)
qed

lemma disk_range: "ok g \<Longrightarrow> 0 \<le> b \<Longrightarrow> 0 \<le> fst (locate g b) \<and> fst (locate g b) < numDisks g"
  using locate_home[of g b] home_range by fastforce

lemma request_off:
  assumes "ok g" "0 \<le> addr" "addr \<le> b" "b < stop"
    and "((stop - 1) div (width g * chunkSize g) + 1) * chunkSize g \<le> blocksPerDisk"
  shows "snd (locate g b) < blocksPerDisk"
proof -
  have wc: "0 < width g * chunkSize g" using chunk_pos width_pos assms(1) by simp
  have "b div (width g * chunkSize g) \<le> (stop - 1) div (width g * chunkSize g)" using assms(4) wc by (intro zdiv_mono1) auto
  then have "b div (width g * chunkSize g) < (stop - 1) div (width g * chunkSize g) + 1" by simp
  then have "b < ((stop - 1) div (width g * chunkSize g) + 1) * (width g * chunkSize g)"
    by (simp only: zdiv_less_iff[OF wc])
  from off_bound[OF assms(1) _ this] assms show ?thesis by simp
qed

end

section \<open>The block maps\<close>

lemma rotate_bij: "0 < n \<Longrightarrow> bij_betw (\<lambda>c. (c - k) mod n) {0..<n} {0..<n::int}"
proof -
  assume n: "0 < n"
  have "inj_on (\<lambda>c. (c - k) mod n) {0..<n}"
  proof (rule inj_onI)
    fix a b :: int
    assume *: "a \<in> {0..<n}" "b \<in> {0..<n}" "(a - k) mod n = (b - k) mod n"
    then have "((a - k) + k) mod n = ((b - k) + k) mod n" by (metis mod_add_left_eq)
    with * show "a = b" by simp
  qed
  moreover have "(\<lambda>c. (c - k) mod n) ` {0..<n} \<subseteq> {0..<n}" using n by auto
  ultimately show ?thesis by (simp add: bij_betw_def endo_inj_surj)
qed

lemma parity_disk_range: "wf_geom g \<Longrightarrow> 0 \<le> parity_disk g row \<and> parity_disk g row < numDisks g"
proof -
  assume "wf_geom g"
  then have "0 < numDisks g" by (simp add: wf_geom_def)
  then have "0 \<le> row mod numDisks g" "row mod numDisks g < numDisks g" by simp_all
  with \<open>0 < numDisks g\<close> show ?thesis by (simp add: parity_disk_def)
qed

lemma data_disk_bij:
  assumes g: "wf_geom g" "0 \<le> row"
  shows "bij_betw (data_disk g row) {0..<row_width g} (data_disks g row)"
proof -
  let ?n = "numDisks g"
  consider "raidLevel g = 0" | "raidLevel g = 1" "even ?n" | "raidLevel g = 4" "2 \<le> ?n"
    | "raidLevel g = 5" "2 \<le> ?n" "raid5type g = ''LA''" | "raidLevel g = 5" "2 \<le> ?n" "raid5type g = ''LS''"
    using g by (auto simp: wf_geom_def)
  then show ?thesis
  proof cases
    case 2
    then have "data_disks g row = (\<lambda>c. 2 * c) ` {0..<?n div 2}"
      by (auto simp: data_disks_def image_iff elim!: evenE)
    with 2 show ?thesis by (simp add: bij_betw_def inj_on_def row_width_def data_disk_def)
  next
    case 3
    then have "data_disks g row = {0..<?n - 1}" by (auto simp: data_disks_def parity_disk_def)
    with 3 show ?thesis by (simp add: bij_betw_def inj_on_def row_width_def data_disk_def)
  next
    case 4
    let ?p = "parity_disk g row"
    have p: "0 \<le> ?p" "?p < ?n" using parity_disk_range[OF g(1)] by simp_all
    have "(\<lambda>c. if c \<ge> ?p then c + 1 else c) ` {0..<?n - 1} = {0..<?n} - {?p}" (is "?f ` _ = ?R")
    proof
      show "?R \<subseteq> ?f ` {0..<?n - 1}"
      proof
        fix d assume "d \<in> ?R"
        then have "d = ?f (if d > ?p then d - 1 else d)" "(if d > ?p then d - 1 else d) \<in> {0..<?n - 1}"
          using p by auto
        then show "d \<in> ?f ` {0..<?n - 1}" by blast
      qed
    qed (use p in auto)
    moreover have "inj_on ?f {0..<?n - 1}" by (auto simp: inj_on_def split: if_splits)
    moreover have "data_disk g row = ?f" using 4 by (auto simp: data_disk_def)
    moreover have "row_width g = ?n - 1" "data_disks g row = ?R" using 4 by (simp_all add: row_width_def data_disks_def)
    ultimately show ?thesis by (simp only: bij_betw_def)
  next
    case 5
    let ?k = "row mod ?n"
    have k: "0 \<le> ?k" "?k < ?n" using 5 by simp_all
    have "(?n - 1 - ?k) mod ?n = ?n - 1 - ?k" using k by (intro mod_pos_pos_trivial) auto
    then have 1: "bij_betw (\<lambda>c. (c - ?k) mod ?n) {?n - 1} {parity_disk g row}"
      using 5 by (simp add: parity_disk_def bij_betw_def)
    have 2: "bij_betw (\<lambda>c. (c - ?k) mod ?n) {0..<?n} {0..<?n}" using 5 by (simp add: rotate_bij)
    have "bij_betw (\<lambda>c. (c - ?k) mod ?n) ({0..<?n} - {?n - 1}) ({0..<?n} - {parity_disk g row})"
      using bij_betw_DiffI[OF 2 1] parity_disk_range[OF g(1)] 5 by simp
    moreover have "{0..<?n} - {?n - 1} = {0..<?n - 1}" by auto
    moreover have "data_disk g row = (\<lambda>c. (c - ?k) mod ?n)" using 5 by (auto simp: data_disk_def)
    ultimately show ?thesis using 5 by (simp add: row_width_def data_disks_def)
  qed (simp add: bij_betw_def inj_on_def row_width_def data_disks_def data_disk_def image_def)
qed

lemma wf_chunk_pos: "wf_geom g \<Longrightarrow> 0 < chunkSize g"
  by (simp add: wf_geom_def)

lemma row_width_pos: "wf_geom g \<Longrightarrow> 0 < row_width g"
  by (auto simp: wf_geom_def row_width_def)

lemma data_disks_range: "data_disks g row \<subseteq> {0..<numDisks g}"
  by (auto simp: data_disks_def)

lemma bmap0_place:
  assumes "wf_geom (geom r)" "raidLevel r = 0" "0 \<le> b" "row = b div chunkSize r div row_width (geom r)"
  shows "bmap0 r b = Inr (data_disk (geom r) row (b div chunkSize r mod row_width (geom r)), row * chunkSize r + b mod chunkSize r)"
  using assms by (simp add: bmap0_def wf_geom_def data_disk_def row_width_def pos_imp_zdiv_nonneg_iff)

lemma bmap4_place:
  assumes "wf_geom (geom r)" "raidLevel r = 4" "0 \<le> b" "row = b div chunkSize r div row_width (geom r)"
  shows "bmap4 r b = Inr (data_disk (geom r) row (b div chunkSize r mod row_width (geom r)), row * chunkSize r + b mod chunkSize r)"
  using assms by (simp add: bmap4_def wf_geom_def data_disk_def row_width_def pos_imp_zdiv_nonneg_iff)

lemma bmap1_place:
  assumes "wf_geom (geom r)" "raidLevel r = 1" "0 \<le> b" "row = b div chunkSize r div row_width (geom r)"
  shows "bmap1 r b = (let d = data_disk (geom r) row (b div chunkSize r mod row_width (geom r))
    in Inr (d, d + 1, row * chunkSize r + b mod chunkSize r))"
proof -
  have "0 < numDisks r div 2" using assms by (auto simp: wf_geom_def)
  then show ?thesis
    using assms by (simp add: bmap1_def wf_geom_def data_disk_def row_width_def pos_imp_zdiv_nonneg_iff Let_def)
qed

text \<open>The assertion \<^verbatim>\<open>disk != pdisk\<close> always holds: the data disks of a row are the others.\<close>

lemma bmap5_full_place:
  assumes g: "wf_geom (geom r)" "raidLevel r = 5" and b: "0 \<le> b"
    and row: "row = b div chunkSize r div row_width (geom r)"
  shows "bmap5_full r b = Inr (data_disk (geom r) row (b div chunkSize r mod row_width (geom r)),
           parity_disk (geom r) row, row * chunkSize r + b mod chunkSize r)"
proof -
  let ?g = "geom r" and ?c = "b div chunkSize r mod row_width (geom r)"
  have n: "2 \<le> numDisks r" "0 < chunkSize r" "raid5type r = ''LA'' \<or> raid5type r = ''LS''"
    using g by (auto simp: wf_geom_def)
  have row0: "0 \<le> row" using b n row_width_pos[OF g(1)] by (simp add: row pos_imp_zdiv_nonneg_iff)
  have "data_disk ?g row ?c \<in> data_disks ?g row"
    using bij_betwE[OF data_disk_bij[OF g(1) row0]] row_width_pos[OF g(1)] by simp
  then have "data_disk ?g row ?c \<noteq> parity_disk ?g row" using g by (simp add: data_disks_def)
  then show ?thesis
    using b n g(2) row by (auto simp: bmap5_full_def data_disk_def parity_disk_def row_width_def asserting_def
        pos_imp_zdiv_nonneg_iff)
qed

interpretation raid0: striped "\<lambda>g. wf_geom g \<and> raidLevel g = 0" row_width data_disk data_disks bmap0
  by unfold_locales (use data_disk_bij data_disks_range bmap0_place row_width_pos in \<open>auto simp: wf_geom_def\<close>)

interpretation raid1: striped "\<lambda>g. wf_geom g \<and> raidLevel g = 1" row_width data_disk data_disks
  "\<lambda>r b. bnd (bmap1 r b) (\<lambda>(d1, d2, off). Inr (d1, off))"
  by unfold_locales (use data_disk_bij data_disks_range bmap1_place row_width_pos in \<open>auto simp: wf_geom_def Let_def\<close>)

section \<open>Physical operations\<close>

text \<open>\<open>issued r tr r'\<close>: the disks did the operations \<open>tr\<close>, in this order, and nothing else changed.
  The counters of each disk agree with the operations sent to it.\<close>

definition counted :: "raid \<Rightarrow> bool" where
  "counted r \<longleftrightarrow> (\<forall>i < length (disks r). let d = disks r ! i in
     countIO d = int (length (filter (\<lambda>(w, k, off). k = int i) (phys r))) \<and>
     countIO d = countSeq d + countNseq d + countRand d \<and> 0 \<le> utilTime d)"

definition issued :: "raid \<Rightarrow> (bool \<times> int \<times> int) list \<Rightarrow> raid \<Rightarrow> bool" where
  "issued r tr r' \<longleftrightarrow> phys r' = phys r @ tr \<and> geom r' = geom r \<and> length (disks r') = length (disks r) \<and>
     (counted r \<longrightarrow> counted r')"

definition reachable_io :: "geometry \<Rightarrow> bool \<times> int \<times> int \<Rightarrow> bool" where
  "reachable_io g io = (case io of (w, d, off) \<Rightarrow> 0 \<le> d \<and> d < numDisks g \<and> off < blocksPerDisk)"

lemma issued_refl [simp]: "issued r [] r"
  by (simp add: issued_def)

lemma issued_trans: "issued r t1 r1 \<Longrightarrow> issued r1 t2 r2 \<Longrightarrow> issued r (t1 @ t2) r2"
  by (simp add: issued_def)

lemma issued_wf: "issued r tr r' \<Longrightarrow> wf_raid r \<Longrightarrow> wf_raid r'"
  unfolding issued_def wf_raid_def by (metis geom_sel(2))

lemma disk_enqueue_ok:
  assumes "addr < blocksPerDisk"
  obtains d' where "disk_enqueue d addr = Inr d'" "countIO d' = countIO d + 1" "currAddr d' = addr"
    "countSeq d' + countNseq d' + countRand d' = countSeq d + countNseq d + countRand d + 1"
    "utilTime d \<le> utilTime d'"
  using assms by (simp add: disk_enqueue_def int_div_def numTracks_def Let_def seekTime_def xferTime_def split: if_splits)

lemma doSingle_ok:
  assumes wf: "wf_raid r" and io: "reachable_io (geom r) (w, d, off)"
  obtains r' where "doSingle w r d off = Inr r'" "issued r [(w, d, off)] r'"
proof -
  have d: "0 \<le> d" "nat d < length (disks r)" "off < blocksPerDisk"
    using wf io by (auto simp: wf_raid_def reachable_io_def)
  obtain k where k: "disk_enqueue (disks r ! nat d) off = Inr k" "countIO k = countIO (disks r ! nat d) + 1"
    "countSeq k + countNseq k + countRand k = countSeq (disks r ! nat d) + countNseq (disks r ! nat d) + countRand (disks r ! nat d) + 1"
    "utilTime (disks r ! nat d) \<le> utilTime k"
    using disk_enqueue_ok[OF d(3)] by metis
  let ?r = "r\<lparr>disks := (disks r)[nat d := k], phys := phys r @ [(w, d, off)]\<rparr>"
  have "list_get (disks r) d = Inr (disks r ! nat d)" using list_get_nat[OF d(2)] d(1) by simp
  then have "doSingle w r d off = Inr ?r" using k(1) d(1) by (simp add: doSingle_def)
  moreover have "counted ?r" if "counted r"
    using that k d by (auto simp: counted_def Let_def nth_list_update)
  then have "issued r [(w, d, off)] ?r" by (simp add: issued_def)
  ultimately show ?thesis using that by blast
qed

text \<open>A loop that issues one group of operations per round.\<close>

lemma foldres_issued:
  assumes "P r" and "\<And>r x. P r \<Longrightarrow> x \<in> set xs \<Longrightarrow> \<exists>r'. f r x = Inr r' \<and> issued r (g x) r' \<and> P r'"
  shows "\<exists>r'. foldres f r xs = Inr r' \<and> issued r (concat (map g xs)) r' \<and> P r'"
  using assms
proof (induction xs arbitrary: r)
  case (Cons x xs)
  obtain r1 where r1: "f r x = Inr r1" "issued r (g x) r1" "P r1" using Cons.prems by (meson list.set_intros(1))
  obtain r2 where "foldres f r1 xs = Inr r2" "issued r1 (concat (map g xs)) r2" "P r2"
    using Cons.IH[OF r1(3)] Cons.prems(2) by (meson list.set_intros(2))
  with r1 show ?case using issued_trans by (auto simp: exI)
qed simp

text \<open>No location is read after it has been overwritten: what is read is the old content.\<close>

fun fresh_reads :: "(bool \<times> 'l) list \<Rightarrow> bool" where
  "fresh_reads [] = True"
| "fresh_reads ((w, l) # tr) = ((w \<longrightarrow> (False, l) \<notin> set tr) \<and> fresh_reads tr)"

definition writes_of :: "(bool \<times> 'l) list \<Rightarrow> 'l list" where
  "writes_of tr = map snd (filter fst tr)"

lemma fresh_reads_append:
  "fresh_reads (xs @ ys) \<longleftrightarrow> fresh_reads xs \<and> fresh_reads ys \<and> (\<forall>l. (True, l) \<in> set xs \<longrightarrow> (False, l) \<notin> set ys)"
  by (induction xs rule: fresh_reads.induct) auto

lemma fresh_reads_reads_writes: "fresh_reads (map (Pair False) rs @ map (Pair True) ws)"
proof -
  have "fresh_reads (map (Pair False) rs)" by (induction rs) auto
  moreover have "fresh_reads (map (Pair True) ws)" by (induction ws) auto
  ultimately show ?thesis by (auto simp: fresh_reads_append)
qed

lemma fresh_reads_concat:
  assumes "\<And>x. x \<in> set xs \<Longrightarrow> fresh_reads (f x)" and "distinct xs"
    and "\<And>x w l. x \<in> set xs \<Longrightarrow> (w, l) \<in> set (f x) \<Longrightarrow> key l = x"
  shows "fresh_reads (concat (map f xs))"
  using assms
proof (induction xs)
  case (Cons x xs)
  have "key l = x" if "(True, l) \<in> set (f x)" for l using Cons.prems(3) that by simp
  moreover have "key l \<in> set xs" if "(False, l) \<in> set (concat (map f xs))" for l
    using that Cons.prems(3) by fastforce
  moreover have "fresh_reads (concat (map f xs))" using Cons.IH Cons.prems by simp
  ultimately show ?case using Cons.prems(1,2) by (fastforce simp: fresh_reads_append)
qed simp

lemma distinct_concat_key:
  assumes "\<And>x. x \<in> set xs \<Longrightarrow> distinct (f x)" and "distinct xs"
    and "\<And>x l. x \<in> set xs \<Longrightarrow> l \<in> set (f x) \<Longrightarrow> key l = x"
  shows "distinct (concat (map f xs))"
  using assms
proof (induction xs)
  case (Cons x xs)
  have "set (f x) \<inter> set (concat (map f xs)) = {}"
  proof (rule ccontr)
    assume "set (f x) \<inter> set (concat (map f xs)) \<noteq> {}"
    then obtain l y where "l \<in> set (f x)" "y \<in> set xs" "l \<in> set (f y)" by auto
    then show False using Cons.prems(2) Cons.prems(3)[of x l] Cons.prems(3)[of y l] by auto
  qed
  then show ?case using Cons by simp
qed simp

section \<open>Arrays with parity\<close>

text \<open>Levels 4 and 5: one more disk per row, which holds no data of that row.\<close>

locale parity_array = striped +
  fixes pmap :: "raid \<Rightarrow> int \<Rightarrow> int res"
    and parity :: "geometry \<Rightarrow> int \<Rightarrow> int"
  assumes ok_wf: "ok g \<Longrightarrow> wf_geom g"
    and stripe_size: "ok g \<Longrightarrow> blocksInStripe g = width g * chunkSize g"
    and parity_range: "ok g \<Longrightarrow> 0 \<le> parity g row \<and> parity g row < numDisks g"
    and parity_apart: "ok g \<Longrightarrow> parity g row \<notin> home g row"
    and pmap_parity: "ok (geom r) \<Longrightarrow> 0 \<le> s \<Longrightarrow> pmap r s = Inr (parity (geom r) s)"
begin

definition ready :: "geometry \<Rightarrow> raid \<Rightarrow> bool" where
  "ready g r \<longleftrightarrow> ok g \<and> geom r = g \<and> wf_raid r"

lemma issued_ready: "ready g r \<Longrightarrow> issued r tr r' \<Longrightarrow> ready g r'"
  using issued_wf by (auto simp: ready_def issued_def)

lemma stripe_pos: "ok g \<Longrightarrow> 0 < blocksInStripe g"
  using stripe_size chunk_pos width_pos by simp

definition fits :: "geometry \<Rightarrow> int \<Rightarrow> bool" where
  "fits g b \<longleftrightarrow> 0 \<le> b \<and> snd (locate g b) < blocksPerDisk"

text \<open>The distinct offsets of some blocks, in the order the code collects them.\<close>

definition offsets :: "geometry \<Rightarrow> int list \<Rightarrow> int list" where
  "offsets g bs = fold (\<lambda>b l. if snd (locate g b) \<in> set l then l else l @ [snd (locate g b)]) bs []"

lemma offsets_props: "set (offsets g bs) = (snd \<circ> locate g) ` set bs \<and> distinct (offsets g bs)"
proof -
  have "set (fold (\<lambda>b l. if snd (locate g b) \<in> set l then l else l @ [snd (locate g b)]) bs l) = set l \<union> (snd \<circ> locate g) ` set bs \<and>
      distinct (fold (\<lambda>b l. if snd (locate g b) \<in> set l then l else l @ [snd (locate g b)]) bs l)" if "distinct l" for l
    using that by (induction bs arbitrary: l) (auto simp: insert_absorb)
  from this[of "[]"] show ?thesis by (simp add: offsets_def)
qed

lemma do_blocks_gen:
  assumes "ready g r" and "\<forall>b \<in> set bs. fits g b"
  shows "\<exists>r'. foldres (\<lambda>(r, offList) voff.
       bnd (bmap r voff) (\<lambda>(dsk, off).
       bnd (doSingle w r dsk off) (\<lambda>r.
         Inr (r, if off \<in> set offList then offList else offList @ [off])))) (r, l) bs =
     Inr (r', fold (\<lambda>b l. if snd (locate g b) \<in> set l then l else l @ [snd (locate g b)]) bs l) \<and>
     issued r (map (\<lambda>b. (w, locate g b)) bs) r'"
  using assms
proof (induction bs arbitrary: r l)
  case (Cons b bs)
  have bs: "\<forall>b \<in> set bs. fits g b" using Cons.prems(2) by simp
  have b: "fits g b" and ok: "ok g" "geom r = g" "wf_raid r" using Cons.prems by (auto simp: ready_def)
  obtain d off where l: "locate g b = (d, off)" by (cases "locate g b")
  have "reachable_io (geom r) (w, d, off)"
    using b ok(2) disk_range[OF ok(1), of b] l by (simp add: reachable_io_def fits_def)
  then obtain r1 where r1: "doSingle w r d off = Inr r1" "issued r [(w, d, off)] r1"
    using doSingle_ok[OF ok(3)] by metis
  have bm: "bmap r b = Inr (d, off)" using bmap_locate[of r b] ok b l by (simp add: fits_def)
  obtain r2 where r2: "foldres (\<lambda>(r, offList) voff.
       bnd (bmap r voff) (\<lambda>(dsk, off).
       bnd (doSingle w r dsk off) (\<lambda>r.
         Inr (r, if off \<in> set offList then offList else offList @ [off])))) (r1, if off \<in> set l then l else l @ [off]) bs =
     Inr (r2, fold (\<lambda>b l. if snd (locate g b) \<in> set l then l else l @ [snd (locate g b)]) bs (if off \<in> set l then l else l @ [off]))"
     "issued r1 (map (\<lambda>b. (w, locate g b)) bs) r2"
    using Cons.IH[OF issued_ready[OF Cons.prems(1) r1(2)] bs] by blast
  show ?case
    by (rule exI[of _ r2]) (use r1 r2 bm l issued_trans[OF r1(2) r2(2)] in simp)
qed simp

lemma do_blocks_ok:
  assumes "ready g r" and "\<forall>b \<in> set bs. fits g b"
  obtains r' where "do_blocks bmap w r bs = Inr (r', offsets g bs)" "issued r (map (\<lambda>b. (w, locate g b)) bs) r'"
  using do_blocks_gen[OF assms] unfolding do_blocks_def offsets_def by blast

lemma do_parity_ok:
  assumes "ready g r" and "0 \<le> p" "p < numDisks g" and "\<forall>off \<in> set offs. off < blocksPerDisk"
  obtains r' where "do_parity w r p offs = Inr r'" "issued r (map (\<lambda>off. (w, p, off)) offs) r'"
proof -
  have "\<exists>r'. foldres (\<lambda>r off. doSingle w r p off) r offs = Inr r' \<and>
      issued r (concat (map (\<lambda>off. [(w, p, off)]) offs)) r' \<and> ready g r'"
  proof (rule foldres_issued[where P = "ready g", OF assms(1)])
    fix r off assume r: "ready g r" and off: "off \<in> set offs"
    have "reachable_io (geom r) (w, p, off)" "wf_raid r"
      using r off assms by (auto simp: reachable_io_def ready_def)
    then obtain r1 where "doSingle w r p off = Inr r1" "issued r [(w, p, off)] r1" using doSingle_ok by metis
    then show "\<exists>r'. doSingle w r p off = Inr r' \<and> issued r [(w, p, off)] r' \<and> ready g r'"
      using issued_ready[OF r] by blast
  qed
  moreover have "concat (map (\<lambda>off. [(w, p, off)]) offs) = map (\<lambda>off. (w, p, off)) offs" by (induction offs) auto
  ultimately show ?thesis using that by (auto simp: do_parity_def)
qed

text \<open>The operations of the write of the blocks \<open>lo..<hi\<close> of stripe \<open>s\<close>: what is read to compute the
  new parity, and what is written.\<close>

definition stripe_reads :: "geometry \<Rightarrow> int \<Rightarrow> int \<Rightarrow> int \<Rightarrow> (int \<times> int) list" where
  "stripe_reads g s lo hi =
     (if hi - lo + 1 \<le> blocksInStripe g - (hi - lo)
      then map (locate g) [lo..hi - 1] @ map (Pair (parity g s)) (offsets g [lo..hi - 1])
      else map (locate g) ([s * blocksInStripe g..lo - 1] @ [hi..s * blocksInStripe g + blocksInStripe g - 1]))"

definition stripe_writes :: "geometry \<Rightarrow> int \<Rightarrow> int \<Rightarrow> int \<Rightarrow> (int \<times> int) list" where
  "stripe_writes g s lo hi = map (locate g) [lo..hi - 1] @ map (Pair (parity g s)) (offsets g [lo..hi - 1])"

definition stripe_ios :: "geometry \<Rightarrow> int \<Rightarrow> int \<Rightarrow> int \<Rightarrow> (bool \<times> int \<times> int) list" where
  "stripe_ios g s lo hi = map (Pair False) (stripe_reads g s lo hi) @ map (Pair True) (stripe_writes g s lo hi)"

definition in_stripe :: "geometry \<Rightarrow> int \<Rightarrow> int \<Rightarrow> bool" where
  "in_stripe g s b \<longleftrightarrow> s * blocksInStripe g \<le> b \<and> b < s * blocksInStripe g + blocksInStripe g"

lemma in_stripe_iff: "ok g \<Longrightarrow> in_stripe g s b \<longleftrightarrow> b div blocksInStripe g = s"
  using stripe_pos[of g] zdiv_less_iff[of "blocksInStripe g" b "s + 1"] zdiv_ge_iff[of "blocksInStripe g" s b]
  by (auto simp: in_stripe_def distrib_right)

lemma stripe_fits:
  assumes "ok g" "0 \<le> s" "in_stripe g s b" "(s + 1) * chunkSize g \<le> blocksPerDisk"
  shows "fits g b"
proof -
  have "0 \<le> s * blocksInStripe g" using assms(1,2) stripe_pos[of g] by simp
  then have b: "0 \<le> b" "b < (s + 1) * (width g * chunkSize g)"
    using assms(3) stripe_size[OF assms(1)] by (auto simp: in_stripe_def distrib_right)
  show ?thesis using off_bound[OF assms(1) b] b assms(4) by (simp add: fits_def)
qed

lemma doPartialWrite_ok:
  assumes r: "ready g r" and s: "0 \<le> s" "(s + 1) * chunkSize g \<le> blocksPerDisk"
    and lo: "s * blocksInStripe g \<le> lo" and hi: "hi \<le> s * blocksInStripe g + blocksInStripe g" and le: "lo \<le> hi"
  obtains r' where "doPartialWrite bmap pmap r s lo hi = Inr r'" "issued r (stripe_ios g s lo hi) r'"
proof -
  let ?B = "blocksInStripe g" and ?p = "parity g s"
  have ok: "ok g" "geom r = g" using r by (auto simp: ready_def)
  have B: "blocksInStripe r = ?B" using ok(2) geom_sel(5) by metis
  have p: "0 \<le> ?p" "?p < numDisks g" using parity_range[OF ok(1)] by auto
  have pm: "pmap r s = Inr ?p" using pmap_parity[of r s] ok s by simp
  have fit: "fits g b" if "in_stripe g s b" for b using stripe_fits[OF ok(1) s(1) that s(2)] .
  have f1: "\<forall>b \<in> set [lo..hi - 1]. fits g b" using fit lo hi by (auto simp: in_stripe_def)
  have f2: "\<forall>b \<in> set [s * ?B..lo - 1]. fits g b" using fit le hi by (auto simp: in_stripe_def)
  have f3: "\<forall>b \<in> set [hi..s * ?B + ?B - 1]. fits g b" using fit lo le by (auto simp: in_stripe_def)
  have offs: "\<forall>off \<in> set (offsets g [lo..hi - 1]). off < blocksPerDisk"
    using f1 offsets_props[of g "[lo..hi - 1]"] by (auto simp: fits_def)
  have blocks_parity: "\<exists>r'. bnd (do_blocks bmap w r [lo..hi - 1]) (\<lambda>(r, offList). do_parity w r ?p offList) = Inr r' \<and>
      issued r (map (\<lambda>b. (w, locate g b)) [lo..hi - 1] @ map (\<lambda>off. (w, ?p, off)) (offsets g [lo..hi - 1])) r'"
    if r: "ready g r" for w r
  proof -
    obtain r1 where r1: "do_blocks bmap w r [lo..hi - 1] = Inr (r1, offsets g [lo..hi - 1])"
      "issued r (map (\<lambda>b. (w, locate g b)) [lo..hi - 1]) r1" using do_blocks_ok[OF r f1] .
    obtain r2 where "do_parity w r1 ?p (offsets g [lo..hi - 1]) = Inr r2"
      "issued r1 (map (\<lambda>off. (w, ?p, off)) (offsets g [lo..hi - 1])) r2"
      using do_parity_ok[OF issued_ready[OF r r1(2)] p offs] .
    then show ?thesis using r1 issued_trans by auto
  qed
  have "\<exists>r'. (if hi - lo + 1 \<le> blocksInStripe r - (hi - lo)
              then bnd (do_blocks bmap False r [lo..hi - 1]) (\<lambda>(r, offList). do_parity False r ?p offList)
              else let stripeBegin = s * blocksInStripe r; stripeEnd = stripeBegin + blocksInStripe r
                   in bnd (do_blocks bmap False r [stripeBegin..lo - 1]) (\<lambda>(r, _).
                      bnd (do_blocks bmap False r [hi..stripeEnd - 1]) (\<lambda>(r, _). Inr r))) = Inr r' \<and>
      issued r (map (Pair False) (stripe_reads g s lo hi)) r'"
  proof (cases "hi - lo + 1 \<le> ?B - (hi - lo)")
    case True
    then show ?thesis using blocks_parity[OF r, of False] by (simp add: B stripe_reads_def comp_def)
  next
    case False
    obtain r1 o1 where r1: "do_blocks bmap False r [s * ?B..lo - 1] = Inr (r1, o1)"
      "issued r (map (\<lambda>b. (False, locate g b)) [s * ?B..lo - 1]) r1" using do_blocks_ok[OF r f2] .
    obtain r2 o2 where r2: "do_blocks bmap False r1 [hi..s * ?B + ?B - 1] = Inr (r2, o2)"
      "issued r1 (map (\<lambda>b. (False, locate g b)) [hi..s * ?B + ?B - 1]) r2"
      using do_blocks_ok[OF issued_ready[OF r r1(2)] f3] .
    show ?thesis using False r1 r2 issued_trans[OF r1(2) r2(2)] by (simp add: B stripe_reads_def comp_def)
  qed
  then obtain r1 where r1: "(if hi - lo + 1 \<le> blocksInStripe r - (hi - lo)
              then bnd (do_blocks bmap False r [lo..hi - 1]) (\<lambda>(r, offList). do_parity False r ?p offList)
              else let stripeBegin = s * blocksInStripe r; stripeEnd = stripeBegin + blocksInStripe r
                   in bnd (do_blocks bmap False r [stripeBegin..lo - 1]) (\<lambda>(r, _).
                      bnd (do_blocks bmap False r [hi..stripeEnd - 1]) (\<lambda>(r, _). Inr r))) = Inr r1"
      "issued r (map (Pair False) (stripe_reads g s lo hi)) r1" by blast
  obtain r2 where r2: "bnd (do_blocks bmap True r1 [lo..hi - 1]) (\<lambda>(r, offList). do_parity True r ?p offList) = Inr r2"
      "issued r1 (map (Pair True) (stripe_writes g s lo hi)) r2"
    using blocks_parity[OF issued_ready[OF r r1(2)], of True] by (auto simp: stripe_writes_def comp_def)
  show ?thesis
  proof (rule that)
    show "doPartialWrite bmap pmap r s lo hi = Inr r2"
      unfolding doPartialWrite_def Let_def[of "hi - lo"] pm bnd_simps r1(1) by (rule r2(1))
    show "issued r (stripe_ios g s lo hi) r2" using issued_trans[OF r1(2) r2(2)] by (simp add: stripe_ios_def)
  qed
qed

definition write_ios :: "geometry \<Rightarrow> int \<Rightarrow> int \<Rightarrow> (bool \<times> int \<times> int) list" where
  "write_ios g addr stop = concat (map (\<lambda>s. stripe_ios g s (max addr (s * blocksInStripe g))
     (min stop (s * blocksInStripe g + blocksInStripe g))) [addr div blocksInStripe g..(stop - 1) div blocksInStripe g])"

lemma stripe_step_ok:
  assumes r: "ready g r" and s: "0 \<le> s" "(s + 1) * chunkSize g \<le> blocksPerDisk"
    and lo: "in_stripe g s lo" "lo < stop"
    and hi: "hi = min stop (s * blocksInStripe g + blocksInStripe g)"
  shows "\<exists>r'. stripe_step bmap pmap (r, stop - lo, lo) s = Inr (r', stop - hi, hi) \<and> issued r (stripe_ios g s lo hi) r'"
proof -
  have "lo \<le> hi" "s * blocksInStripe g \<le> lo" "hi \<le> s * blocksInStripe g + blocksInStripe g"
    using lo hi by (auto simp: in_stripe_def)
  then obtain r' where r': "doPartialWrite bmap pmap r s lo hi = Inr r'" "issued r (stripe_ios g s lo hi) r'"
    using doPartialWrite_ok[OF r s] by blast
  have B: "blocksInStripe r = blocksInStripe g" using r geom_sel(5) unfolding ready_def by metis
  have e: "(if (if stop - lo \<ge> blocksInStripe g then lo + blocksInStripe g else lo + (stop - lo)) \<ge> s * blocksInStripe g + blocksInStripe g
     then s * blocksInStripe g + blocksInStripe g
     else if stop - lo \<ge> blocksInStripe g then lo + blocksInStripe g else lo + (stop - lo)) = hi"
    using lo hi by (auto simp: in_stripe_def)
  show ?thesis unfolding stripe_step_def prod.case B Let_def e r'(1) bnd_simps using r'(2) by auto
qed

lemma stripes_ok:
  assumes "ready g r" and "0 \<le> s" "\<forall>t. t \<le> f \<longrightarrow> (t + 1) * chunkSize g \<le> blocksPerDisk"
    and "addr < stop" "addr div blocksInStripe g \<le> s" "f = (stop - 1) div blocksInStripe g"
  shows "\<exists>r' x. foldres (stripe_step bmap pmap) (r, stop - max addr (s * blocksInStripe g), max addr (s * blocksInStripe g)) [s..f] = Inr (r', x) \<and>
     issued r (concat (map (\<lambda>s. stripe_ios g s (max addr (s * blocksInStripe g))
       (min stop (s * blocksInStripe g + blocksInStripe g))) [s..f])) r'"
  using assms
proof (induction "nat (f + 1 - s)" arbitrary: s r)
  case 0
  then show ?case by simp
next
  case (Suc n)
  let ?B = "blocksInStripe g" and ?lo = "\<lambda>s. max addr (s * blocksInStripe g)"
  let ?hi = "min stop (s * ?B + ?B)"
  have ok: "ok g" using Suc.prems(1) by (simp add: ready_def)
  note B = stripe_pos[OF ok]
  have sf: "s \<le> f" using Suc.hyps(2) by simp
  have "addr < s * ?B + ?B" using Suc.prems(5) B zdiv_less_iff[of ?B addr "s + 1"] by (simp add: distrib_right)
  then have lo: "in_stripe g s (?lo s)" using B by (simp add: in_stripe_def)
  have "s * ?B \<le> stop - 1" using sf Suc.prems(6) B by (simp add: zdiv_ge_iff)
  then have lt: "?lo s < stop" using Suc.prems(4) by simp
  obtain r1 where r1: "stripe_step bmap pmap (r, stop - ?lo s, ?lo s) s = Inr (r1, stop - ?hi, ?hi)"
    "issued r (stripe_ios g s (?lo s) ?hi) r1"
    using stripe_step_ok[OF Suc.prems(1,2) _ lo lt refl] Suc.prems(3) sf by blast
  have next_lo: "?hi = ?lo (s + 1)" if "s < f"
  proof -
    have "(s + 1) * ?B \<le> stop - 1" using that Suc.prems(6) zdiv_ge_iff[OF B, of "s + 1" "stop - 1"] by simp
    then show ?thesis using \<open>addr < s * ?B + ?B\<close> by (simp add: distrib_right)
  qed
  show ?case
  proof (cases "s < f")
    case True
    obtain r2 x where r2: "foldres (stripe_step bmap pmap) (r1, stop - ?lo (s + 1), ?lo (s + 1)) [s + 1..f] = Inr (r2, x)"
      "issued r1 (concat (map (\<lambda>s. stripe_ios g s (?lo s) (min stop (s * ?B + ?B))) [s + 1..f])) r2"
    proof -
      have "n = nat (f + 1 - (s + 1))" using Suc.hyps(2) sf by linarith
      from Suc.hyps(1)[OF this issued_ready[OF Suc.prems(1) r1(2)] _ Suc.prems(3,4) _ Suc.prems(6)] Suc.prems(2,5) that
      show ?thesis by force
    qed
    show ?thesis using r1 r2 next_lo[OF True] issued_trans[OF r1(2) r2(2)] sf by (simp add: upto_rec1)
  next
    case False
    with sf have "[s..f] = [s]" by (simp add: upto_rec1)
    with r1 show ?thesis by simp
  qed
qed

lemma write_ok:
  assumes "ready g r" and "0 \<le> addr" "addr < stop"
    and "((stop - 1) div blocksInStripe g + 1) * chunkSize g \<le> blocksPerDisk"
  shows "\<exists>r' x. foldres (stripe_step bmap pmap) (r, stop - addr, addr)
       [addr div blocksInStripe g..(stop - 1) div blocksInStripe g] = Inr (r', x) \<and> issued r (write_ios g addr stop) r'"
proof -
  have ok: "ok g" using assms(1) by (simp add: ready_def)
  have "(t + 1) * chunkSize g \<le> blocksPerDisk" if "t \<le> (stop - 1) div blocksInStripe g" for t
  proof -
    have "(t + 1) * chunkSize g \<le> ((stop - 1) div blocksInStripe g + 1) * chunkSize g"
      using that chunk_pos[OF ok] by (intro mult_right_mono) auto
    with assms(4) show ?thesis by simp
  qed
  moreover have "max addr (addr div blocksInStripe g * blocksInStripe g) = addr"
    using div_mult_mod_eq[of addr "blocksInStripe g"] pos_mod_sign[OF stripe_pos[OF ok], of addr] by linarith
  moreover have "0 \<le> addr div blocksInStripe g" using assms(2) stripe_pos[OF ok] by (simp add: pos_imp_zdiv_nonneg_iff)
  ultimately show ?thesis
    using stripes_ok[OF assms(1), of "addr div blocksInStripe g" "(stop - 1) div blocksInStripe g" addr stop] assms(3)
    by (simp add: write_ios_def)
qed

text \<open>Every operation on stripe \<open>s\<close> is at an offset of row \<open>s\<close>.\<close>

lemma locate_stripe: "ok g \<Longrightarrow> 0 \<le> b \<Longrightarrow> snd (locate g b) div chunkSize g = b div blocksInStripe g"
  by (simp add: off_row row_eq_stripe stripe_size)

lemma same_offset_stripe:
  "ok g \<Longrightarrow> 0 \<le> b \<Longrightarrow> 0 \<le> b' \<Longrightarrow> snd (locate g b) = snd (locate g b') \<Longrightarrow> b div blocksInStripe g = b' div blocksInStripe g"
  using locate_stripe by metis

lemma stripe_ios_row:
  assumes ok: "ok g" and s: "0 \<le> s" and lo: "s * blocksInStripe g \<le> lo" "lo \<le> hi" and hi: "hi \<le> s * blocksInStripe g + blocksInStripe g"
    and l: "l \<in> set (stripe_reads g s lo hi) \<union> set (stripe_writes g s lo hi)"
  shows "snd l div chunkSize g = s"
proof -
  have row: "snd (locate g b) div chunkSize g = s" if "s * blocksInStripe g \<le> b" "b < s * blocksInStripe g + blocksInStripe g" for b
  proof -
    have "0 \<le> s * blocksInStripe g" using stripe_pos[OF ok] s by simp
    then show ?thesis using that locate_stripe[OF ok, of b] in_stripe_iff[OF ok, of s b] by (simp add: in_stripe_def)
  qed
  have "l \<in> locate g ` {s * blocksInStripe g..<s * blocksInStripe g + blocksInStripe g} \<or>
        l \<in> Pair (parity g s) ` (snd \<circ> locate g) ` {s * blocksInStripe g..<s * blocksInStripe g + blocksInStripe g}"
    using l lo hi offsets_props[of g "[lo..hi - 1]"]
    by (fastforce simp: stripe_reads_def stripe_writes_def split: if_splits)
  then show ?thesis using row by auto
qed

lemma stripe_writes_distinct:
  assumes ok: "ok g" and s: "0 \<le> s" and lo: "s * blocksInStripe g \<le> lo" "lo \<le> hi" and hi: "hi \<le> s * blocksInStripe g + blocksInStripe g"
  shows "distinct (stripe_writes g s lo hi)"
proof -
  have "0 \<le> s * blocksInStripe g" using stripe_pos[OF ok] s by simp
  then have pos: "0 \<le> b" if "lo \<le> b" for b using lo that by linarith
  have "inj_on (locate g) {lo..hi - 1}" by (rule inj_onI) (auto intro: locate_inj[OF ok] pos)
  then have d: "distinct (map (locate g) [lo..hi - 1])" by (simp add: distinct_map)
  have "fst (locate g b) \<noteq> parity g s" if "lo \<le> b" "b \<le> hi - 1" for b
  proof -
    have "b div blocksInStripe g = s" using that lo hi in_stripe_iff[OF ok, of s b] by (simp add: in_stripe_def)
    then show ?thesis
      using locate_home[OF ok pos[OF that(1)]] locate_stripe[OF ok pos[OF that(1)]] parity_apart[OF ok, of s] by auto
  qed
  then have "set (map (locate g) [lo..hi - 1]) \<inter> set (map (Pair (parity g s)) (offsets g [lo..hi - 1])) = {}" by (auto simp: image_iff) (metis fst_conv)
  with d show ?thesis
    using offsets_props[of g "[lo..hi - 1]"] by (simp add: stripe_writes_def distinct_map inj_on_def)
qed

text \<open>The stripes of a request, each with its part of the request.\<close>

lemma part_bounds:
  assumes ok: "ok g" and "0 \<le> addr" "addr < stop"
    and s: "s \<in> set [addr div blocksInStripe g..(stop - 1) div blocksInStripe g]"
    and lo: "lo = max addr (s * blocksInStripe g)" and hi: "hi = min stop (s * blocksInStripe g + blocksInStripe g)"
  shows "0 \<le> s" "s * blocksInStripe g \<le> lo" "lo \<le> hi" "hi \<le> s * blocksInStripe g + blocksInStripe g"
proof -
  note B = stripe_pos[OF ok]
  have "0 \<le> addr div blocksInStripe g" using assms(2) B by (simp add: pos_imp_zdiv_nonneg_iff)
  then show "0 \<le> s" using s by simp
  have "s * blocksInStripe g \<le> stop - 1" using s B by (simp add: zdiv_ge_iff)
  moreover have "addr < s * blocksInStripe g + blocksInStripe g"
    using s zdiv_less_iff[OF B, of addr "s + 1"] by (simp add: distrib_right)
  ultimately show "lo \<le> hi" using lo hi assms(3) B by simp
qed (use lo hi in simp_all)

lemma block_part:
  assumes ok: "ok g" and b: "addr \<le> b" "b < stop" and s: "s = b div blocksInStripe g"
  shows "s \<in> set [addr div blocksInStripe g..(stop - 1) div blocksInStripe g]"
    "max addr (s * blocksInStripe g) \<le> b" "b < min stop (s * blocksInStripe g + blocksInStripe g)"
  using b s stripe_pos[OF ok] in_stripe_iff[OF ok, of s b] by (auto simp: in_stripe_def intro!: zdiv_mono1)

lemma write_ios_fresh: 
  assumes "ok g" "0 \<le> addr" "addr < stop"
  shows "fresh_reads (write_ios g addr stop)"
  unfolding write_ios_def
proof (rule fresh_reads_concat[where key = "\<lambda>l. snd l div chunkSize g"])
  fix s w l assume s: "s \<in> set [addr div blocksInStripe g..(stop - 1) div blocksInStripe g]"
    and l: "(w, l) \<in> set (stripe_ios g s (max addr (s * blocksInStripe g)) (min stop (s * blocksInStripe g + blocksInStripe g)))"
  show "snd l div chunkSize g = s"
    by (rule stripe_ios_row[OF assms(1) part_bounds[OF assms s refl refl]]) (use l in \<open>auto simp: stripe_ios_def\<close>)
qed (auto simp: stripe_ios_def fresh_reads_reads_writes)

lemma writes_of_stripe: "writes_of (stripe_ios g s lo hi) = stripe_writes g s lo hi"
  by (simp add: writes_of_def stripe_ios_def filter_map comp_def)

lemma writes_of_write_ios: "writes_of (write_ios g addr stop) =
    concat (map (\<lambda>s. stripe_writes g s (max addr (s * blocksInStripe g)) (min stop (s * blocksInStripe g + blocksInStripe g)))
      [addr div blocksInStripe g..(stop - 1) div blocksInStripe g])"
  unfolding write_ios_def writes_of_def filter_concat map_concat map_map
  by (simp add: comp_def flip: writes_of_stripe writes_of_def)

lemma write_ios_distinct:
  assumes "ok g" "0 \<le> addr" "addr < stop"
  shows "distinct (writes_of (write_ios g addr stop))"
  unfolding writes_of_write_ios
proof (rule distinct_concat_key[where key = "\<lambda>l. snd l div chunkSize g"])
  fix s l assume s: "s \<in> set [addr div blocksInStripe g..(stop - 1) div blocksInStripe g]"
    and l: "l \<in> set (stripe_writes g s (max addr (s * blocksInStripe g)) (min stop (s * blocksInStripe g + blocksInStripe g)))"
  show "snd l div chunkSize g = s"
    by (rule stripe_ios_row[OF assms(1) part_bounds[OF assms s refl refl]]) (use l in auto)
qed (use stripe_writes_distinct[OF assms(1) part_bounds[OF assms _ refl refl]] in simp_all)

definition ploc :: "geometry \<Rightarrow> int \<Rightarrow> int \<times> int" where
  "ploc g b = (parity g (b div blocksInStripe g), snd (locate g b))"

lemma stripe_writes_set:
  assumes "ok g" "s * blocksInStripe g \<le> lo" "hi \<le> s * blocksInStripe g + blocksInStripe g"
  shows "set (stripe_writes g s lo hi) = locate g ` {lo..<hi} \<union> ploc g ` {lo..<hi}"
proof -
  have "ploc g b = (parity g s, snd (locate g b))" if "b \<in> {lo..<hi}" for b
    using that assms in_stripe_iff[OF assms(1), of s b] by (simp add: ploc_def in_stripe_def)
  then have "ploc g ` {lo..<hi} = Pair (parity g s) ` (snd \<circ> locate g) ` {lo..<hi}" by (auto simp: image_iff)
  moreover have "set [lo..hi - 1] = {lo..<hi}" by auto
  ultimately show ?thesis using offsets_props[of g "[lo..hi - 1]"] by (simp add: stripe_writes_def)
qed

lemma write_ios_set:
  assumes "ok g" "0 \<le> addr" "addr < stop"
  shows "set (writes_of (write_ios g addr stop)) = locate g ` {addr..<stop} \<union> ploc g ` {addr..<stop}"
proof -
  let ?S = "set [addr div blocksInStripe g..(stop - 1) div blocksInStripe g]"
  let ?R = "\<lambda>s. {max addr (s * blocksInStripe g)..<min stop (s * blocksInStripe g + blocksInStripe g)}"
  have "set (writes_of (write_ios g addr stop)) = (\<Union>s\<in>?S. locate g ` ?R s \<union> ploc g ` ?R s)"
    unfolding writes_of_write_ios set_concat set_map image_image
    using stripe_writes_set[OF assms(1) part_bounds(2,4)[OF assms _ refl refl]] by (intro SUP_cong refl) simp
  also have "\<dots> = locate g ` (\<Union>s\<in>?S. ?R s) \<union> ploc g ` (\<Union>s\<in>?S. ?R s)"
    by (simp only: image_UN UN_Un_distrib)
  also have "(\<Union>s\<in>?S. ?R s) = {addr..<stop}"
  proof
    show "{addr..<stop} \<subseteq> (\<Union>s\<in>?S. ?R s)"
    proof
      fix b assume "b \<in> {addr..<stop}"
      then have "addr \<le> b" "b < stop" by simp_all
      from block_part[OF assms(1) this refl] show "b \<in> (\<Union>s\<in>?S. ?R s)"
        by (intro UN_I[of "b div blocksInStripe g"]) simp_all
    qed
  qed auto
  finally show ?thesis .
qed

text \<open>What the controller must have read to compute the new parity of block \<open>b\<close>: the old parity and
  the old content of the blocks it replaces, or the content of all the blocks it keeps.\<close>

lemma write_ios_recover:
  assumes ok: "ok g" "0 \<le> addr" "addr < stop" and b: "addr \<le> b" "b < stop"
  defines "R \<equiv> {l. (False, l) \<in> set (write_ios g addr stop)}"
    and "same \<equiv> {b'. 0 \<le> b' \<and> snd (locate g b') = snd (locate g b)}"
  shows "ploc g b \<in> R \<and> locate g ` (same \<inter> {addr..<stop}) \<subseteq> R \<or> locate g ` (same - {addr..<stop}) \<subseteq> R"
proof -
  define s where "s = b div blocksInStripe g"
  define lo where "lo = max addr (s * blocksInStripe g)"
  define hi where "hi = min stop (s * blocksInStripe g + blocksInStripe g)"
  note sb = block_part[OF ok(1) b s_def]
  have "set (stripe_ios g s lo hi) \<subseteq> set (write_ios g addr stop)"
    unfolding write_ios_def lo_def hi_def set_concat set_map using sb(1) by blast
  then have R: "set (stripe_reads g s lo hi) \<subseteq> R" by (auto simp: R_def stripe_ios_def)
  have same: "in_stripe g s b'" if "b' \<in> same" for b'
    using that same_offset_stripe[OF ok(1), of b' b] b ok in_stripe_iff[OF ok(1)] by (simp add: same_def s_def)
  show ?thesis
  proof (cases "hi - lo + 1 \<le> blocksInStripe g - (hi - lo)")
    case True
    have "b \<in> set [lo..hi - 1]" using sb by (simp add: lo_def hi_def)
    then have "ploc g b \<in> set (stripe_reads g s lo hi)"
      using True offsets_props[of g "[lo..hi - 1]"] by (auto simp: stripe_reads_def ploc_def s_def)
    moreover have "locate g ` (same \<inter> {addr..<stop}) \<subseteq> set (stripe_reads g s lo hi)"
      using True same by (fastforce simp: stripe_reads_def in_stripe_def lo_def hi_def)
    ultimately show ?thesis using R by blast
  next
    case False
    then have "locate g ` (same - {addr..<stop}) \<subseteq> set (stripe_reads g s lo hi)"
      using same by (fastforce simp: stripe_reads_def in_stripe_def lo_def hi_def)
    then show ?thesis using R by blast
  qed
qed

end

lemma parity_geom: "wf_geom g \<Longrightarrow> raidLevel g = 4 \<or> raidLevel g = 5 \<Longrightarrow>
    blocksInStripe g = row_width g * chunkSize g \<and> parity_disk g row \<notin> data_disks g row"
  by (auto simp: wf_geom_def row_width_def data_disks_def)

lemma stripe_row:
  assumes "wf_geom (geom r)" "raidLevel r = 5" "0 \<le> s" "row = s * blocksInStripe r div chunkSize r div row_width (geom r)"
  shows "row = s"
proof -
  have "0 < chunkSize r" using assms by (simp add: wf_geom_def)
  then show ?thesis using assms row_width_pos[OF assms(1)] parity_geom[OF assms(1)] by (simp flip: mult.assoc)
qed

lemma pmap5_parity: "wf_geom (geom r) \<Longrightarrow> raidLevel r = 5 \<Longrightarrow> 0 \<le> s \<Longrightarrow> pmap5 r s = Inr (parity_disk (geom r) s)"
proof -
  assume *: "wf_geom (geom r)" "raidLevel r = 5" "0 \<le> s"
  have "0 \<le> blocksInStripe r" using * parity_geom[of "geom r"] row_width_pos[of "geom r"] by (simp add: wf_geom_def)
  then have "0 \<le> s * blocksInStripe r" using * by simp
  from bmap5_full_place[OF *(1,2) this refl] stripe_row[OF * refl] show ?thesis by (simp add: pmap5_def)
qed

interpretation raid4: parity_array "\<lambda>g. wf_geom g \<and> raidLevel g = 4" row_width data_disk data_disks bmap4 pmap4 parity_disk
proof unfold_locales
  fix r s assume "wf_geom (geom r) \<and> raidLevel (geom r) = 4"
  then show "pmap4 r s = Inr (parity_disk (geom r) s)" by (auto simp: pmap4_def parity_disk_def wf_geom_def)
qed (simp_all add: wf_chunk_pos row_width_pos data_disks_range data_disk_bij bmap4_place parity_geom parity_disk_range)

interpretation raid5: parity_array "\<lambda>g. wf_geom g \<and> raidLevel g = 5" row_width data_disk data_disks bmap5 pmap5 parity_disk
proof unfold_locales
  fix r b row assume "wf_geom (geom r) \<and> raidLevel (geom r) = 5" "0 \<le> b" "row = b div chunkSize r div row_width (geom r)"
  then show "bmap5 r b = Inr (data_disk (geom r) row (b div chunkSize r mod row_width (geom r)), row * chunkSize r + b mod chunkSize r)"
    using bmap5_full_place[of r b row] by (simp add: bmap5_def)
qed (simp_all add: wf_chunk_pos row_width_pos data_disks_range data_disk_bij pmap5_parity parity_geom parity_disk_range)

lemma locate_data_loc [simp]:
  "raid0.locate = data_loc" "raid1.locate = data_loc" "raid4.locate = data_loc" "raid5.locate = data_loc"
  by (intro ext; simp add: raid0.locate_def raid1.locate_def raid4.locate_def raid5.locate_def data_loc_def Let_def)+

lemma ploc_parity_loc [simp]: "raid4.ploc = parity_loc" "raid5.ploc = parity_loc"
  by (intro ext; simp add: raid4.ploc_def raid5.ploc_def parity_loc_def)+

section \<open>Requests end without an error\<close>

definition request_fits :: "geometry \<Rightarrow> int \<Rightarrow> int \<Rightarrow> bool" where
  "request_fits g addr sz \<longleftrightarrow> 0 \<le> addr \<and> 0 < sz \<and>
     ((addr + sz - 1) div (row_width g * chunkSize g) + 1) * chunkSize g \<le> blocksPerDisk"

lemma request_io:
  assumes "wf_geom g" "request_fits g addr sz" "b \<in> set [addr..addr + sz - 1]"
  shows "reachable_io g (w, data_loc g b)" "0 \<le> b"
proof -
  show b: "0 \<le> b" using assms by (simp add: request_fits_def)
  have *: "addr \<le> b" "b < addr + sz" "0 \<le> addr"
      "((addr + sz - 1) div (row_width g * chunkSize g) + 1) * chunkSize g \<le> blocksPerDisk"
    using assms by (auto simp: request_fits_def)
  consider "raidLevel g = 0" | "raidLevel g = 1" | "raidLevel g = 4" | "raidLevel g = 5"
    using assms(1) by (auto simp: wf_geom_def)
  then show "reachable_io g (w, data_loc g b)"
    using raid0.disk_range[of g b] raid1.disk_range[of g b] raid4.disk_range[of g b] raid5.disk_range[of g b]
      raid0.request_off[of g addr b "addr + sz"] raid1.request_off[of g addr b "addr + sz"]
      raid4.request_off[of g addr b "addr + sz"] raid5.request_off[of g addr b "addr + sz"] assms(1) b *
    by cases (simp_all add: reachable_io_def case_prod_unfold)
qed

text \<open>The operations of levels 0 and 1, and of reads.\<close>

definition mirror_ios :: "geometry \<Rightarrow> bool \<Rightarrow> int \<Rightarrow> (bool \<times> int \<times> int) list" where
  "mirror_ios g w b =
     (let (d, off) = data_loc g b
      in if w then [(True, d, off), (True, d + 1, off)] else [(False, if even off then d else d + 1, off)])"

lemma issued_geom: "issued r tr r' \<Longrightarrow> geom r' = geom r"
  by (simp add: issued_def)

lemma enqueue0_ok:
  assumes "wf_raid r" "raidLevel r = 0" "request_fits (geom r) addr sz"
  shows "\<exists>r'. enqueue0 r addr sz w = Inr r' \<and> issued r (map (\<lambda>b. (w, data_loc (geom r) b)) [addr..addr + sz - 1]) r'"
proof -
  let ?P = "\<lambda>q. wf_raid q \<and> geom q = geom r"
  have "\<exists>r'. enqueue0 r addr sz w = Inr r' \<and>
      issued r (concat (map (\<lambda>b. [(w, data_loc (geom r) b)]) [addr..addr + sz - 1])) r' \<and> ?P r'"
    unfolding enqueue0_def
  proof (rule foldres_issued)
    fix q b assume q: "?P q" and b: "b \<in> set [addr..addr + sz - 1]"
    have wf: "wf_geom (geom r)" "wf_raid q" using q assms(1) by (simp_all add: wf_raid_def)
    obtain d off where l: "data_loc (geom r) b = (d, off)" by fastforce
    have "bmap0 q b = Inr (d, off)"
      using raid0.bmap_locate[of q b] q wf assms(2) request_io(2)[OF wf(1) assms(3) b] l
      by (metis geom_sel(3) locate_data_loc(1))
    moreover obtain q' where "doSingle w q d off = Inr q'" "issued q [(w, d, off)] q'"
      using doSingle_ok[OF wf(2)] request_io(1)[OF wf(1) assms(3) b, of w] l q by metis
    ultimately show "\<exists>q'. bnd (bmap0 q b) (\<lambda>(dsk, off). doSingle w q dsk off) = Inr q' \<and> issued q [(w, data_loc (geom r) b)] q' \<and> ?P q'"
      using issued_wf[OF _ wf(2)] issued_geom q l by auto
  qed (use assms in simp)
  then show ?thesis by (auto simp: concat_map_singleton)
qed

lemma enqueue1_ok:
  assumes "wf_raid r" "raidLevel r = 1" "request_fits (geom r) addr sz"
  shows "\<exists>r'. enqueue1 r addr sz w = Inr r' \<and> issued r (concat (map (mirror_ios (geom r) w) [addr..addr + sz - 1])) r'"
proof -
  let ?P = "\<lambda>q. wf_raid q \<and> geom q = geom r"
  have "\<exists>r'. enqueue1 r addr sz w = Inr r' \<and>
      issued r (concat (map (mirror_ios (geom r) w) [addr..addr + sz - 1])) r' \<and> ?P r'"
    unfolding enqueue1_def
  proof (rule foldres_issued)
    fix q b assume q: "?P q" and b: "b \<in> set [addr..addr + sz - 1]"
    have wf: "wf_geom (geom r)" "wf_raid q" using q assms(1) by (simp_all add: wf_raid_def)
    obtain d off where l: "data_loc (geom r) b = (d, off)" by fastforce
    have b0: "0 \<le> b" using request_io(2)[OF wf(1) assms(3) b] .
    have bm: "bmap1 q b = Inr (d, d + 1, off)"
      using bmap1_place[of q b, OF _ _ b0 refl] q wf assms(2) l by (auto simp: data_loc_def Let_def) (metis geom_sel(1,3))+
    have d: "even d" "d < numDisks r" "0 \<le> d" "even (numDisks r)" "off < blocksPerDisk"
      using raid1.locate_home[of "geom r" b] request_io(1)[OF wf(1) assms(3) b, of True] wf(1) assms(2) b0 l
      by (auto simp: data_disks_def reachable_io_def wf_geom_def)
    then have "d + 1 < numDisks r" by presburger
    then have io: "reachable_io (geom q) (w', d, off)" "reachable_io (geom q) (w', d + 1, off)" for w'
      using d q by (auto simp: reachable_io_def)
    obtain q1 where q1: "doSingle True q d off = Inr q1" "issued q [(True, d, off)] q1" using doSingle_ok[OF wf(2) io(1)] .
    obtain q2 where q2: "doSingle True q1 (d + 1) off = Inr q2" "issued q1 [(True, d + 1, off)] q2"
      using doSingle_ok[OF issued_wf[OF q1(2) wf(2)], of True "d + 1" off] io(2)[of True] issued_geom[OF q1(2)] by metis
    have io3: "reachable_io (geom q) (False, if even off then d else d + 1, off)" using io by simp
    obtain q3 where q3: "doSingle False q (if even off then d else d + 1) off = Inr q3"
      "issued q [(False, if even off then d else d + 1, off)] q3"
      using doSingle_ok[OF wf(2) io3] .
    have "\<exists>q'. bnd (bmap1 q b) (\<lambda>(disk1, disk2, off).
        if w then bnd (doSingle True q disk1 off) (\<lambda>r. doSingle True r disk2 off)
        else if off mod 2 = 0 then doSingle False q disk1 off else doSingle False q disk2 off) = Inr q' \<and>
      issued q (mirror_ios (geom r) w b) q'"
    proof (cases w)
      case True
      then show ?thesis using bm q1 q2 issued_trans[OF q1(2) q2(2)] l by (auto simp: mirror_ios_def)
    next
      case False
      then show ?thesis using bm q3 l by (auto simp: mirror_ios_def even_iff_mod_2_eq_zero split: if_splits)
    qed
    then show "\<exists>q'. bnd (bmap1 q b) (\<lambda>(disk1, disk2, off).
        if w then bnd (doSingle True q disk1 off) (\<lambda>r. doSingle True r disk2 off)
        else if off mod 2 = 0 then doSingle False q disk1 off else doSingle False q disk2 off) = Inr q' \<and>
      issued q (mirror_ios (geom r) w b) q' \<and> ?P q'"
      using issued_wf[OF _ wf(2)] issued_geom q by auto
  qed (use assms in simp)
  then show ?thesis by blast
qed

lemma enqueue45_read_ok:
  assumes "wf_raid r" "raidLevel r = 4 \<or> raidLevel r = 5" "request_fits (geom r) addr sz"
  shows "\<exists>r'. enqueue45 r addr sz False = Inr r' \<and> issued r (map (\<lambda>b. (False, data_loc (geom r) b)) [addr..addr + sz - 1]) r'"
proof -
  let ?bs = "[addr..addr + sz - 1]" and ?g = "geom r"
  have wf: "wf_geom ?g" using assms(1) by (simp add: wf_raid_def)
  have fit: "\<forall>b \<in> set ?bs. 0 \<le> b \<and> snd (data_loc ?g b) < blocksPerDisk"
    using request_io[OF wf assms(3)] by (auto simp: reachable_io_def case_prod_unfold)
  from assms(2) show ?thesis
  proof
    assume l: "raidLevel r = 4"
    obtain r' where "do_blocks bmap4 False r ?bs = Inr (r', raid4.offsets ?g ?bs)"
        "issued r (map (\<lambda>b. (False, data_loc ?g b)) ?bs) r'"
      using raid4.do_blocks_ok[of ?g r ?bs False] assms(1) wf l fit by (auto simp: raid4.ready_def raid4.fits_def)
    with l show ?thesis by (simp add: enqueue45_def)
  next
    assume l: "raidLevel r = 5"
    obtain r' where "do_blocks bmap5 False r ?bs = Inr (r', raid5.offsets ?g ?bs)"
        "issued r (map (\<lambda>b. (False, data_loc ?g b)) ?bs) r'"
      using raid5.do_blocks_ok[of ?g r ?bs False] assms(1) wf l fit by (auto simp: raid5.ready_def raid5.fits_def)
    with l show ?thesis by (simp add: enqueue45_def)
  qed
qed

text \<open>What a write of the blocks \<open>addr..<stop\<close> on a level with parity must do.\<close>

definition parity_write :: "geometry \<Rightarrow> int \<Rightarrow> int \<Rightarrow> (bool \<times> int \<times> int) list \<Rightarrow> bool" where
  "parity_write g addr stop tr \<longleftrightarrow>
     set (writes_of tr) = data_loc g ` {addr..<stop} \<union> parity_loc g ` {addr..<stop} \<and>
     distinct (writes_of tr) \<and> fresh_reads tr \<and>
     (\<forall>b \<in> {addr..<stop}.
        let R = {l. (False, l) \<in> set tr};
            same = {b'. 0 \<le> b' \<and> snd (data_loc g b') = snd (data_loc g b)}
        in parity_loc g b \<in> R \<and> data_loc g ` (same \<inter> {addr..<stop}) \<subseteq> R \<or> data_loc g ` (same - {addr..<stop}) \<subseteq> R)"

lemma enqueue45_write_ok:
  assumes "wf_raid r" "raidLevel r = 4 \<or> raidLevel r = 5" "request_fits (geom r) addr sz"
  shows "\<exists>r' tr. enqueue45 r addr sz True = Inr r' \<and> issued r tr r' \<and> parity_write (geom r) addr (addr + sz) tr"
proof -
  let ?g = "geom r" and ?stop = "addr + sz"
  have wf: "wf_geom ?g" using assms(1) by (simp add: wf_raid_def)
  have B: "blocksInStripe r = row_width ?g * chunkSize r" "0 < blocksInStripe r"
    using parity_geom[OF wf] assms(2) wf_chunk_pos[OF wf] row_width_pos[OF wf] by auto
  have a: "0 \<le> addr" "addr < ?stop" "((?stop - 1) div blocksInStripe ?g + 1) * chunkSize ?g \<le> blocksPerDisk"
    using assms(3) B by (auto simp: request_fits_def)
  have d: "int_div addr (blocksInStripe r) = Inr (addr div blocksInStripe r)"
    "int_div (?stop - 1) (blocksInStripe r) = Inr ((?stop - 1) div blocksInStripe r)" using a B by simp_all
  from assms(2) show ?thesis
  proof
    assume l: "raidLevel r = 4"
    then have ok: "wf_geom ?g \<and> raidLevel ?g = 4" using wf by simp
    obtain r' x where *: "foldres (stripe_step bmap4 pmap4) (r, sz, addr) [addr div blocksInStripe r..(?stop - 1) div blocksInStripe r] = Inr (r', x)"
      "issued r (raid4.write_ios ?g addr ?stop) r'"
      using raid4.write_ok[of ?g r addr ?stop] a ok assms(1) by (auto simp: raid4.ready_def)
    have "parity_write ?g addr ?stop (raid4.write_ios ?g addr ?stop)"
      using raid4.write_ios_set[OF ok a(1,2)] raid4.write_ios_distinct[OF ok a(1,2)] raid4.write_ios_fresh[OF ok a(1,2)]
        raid4.write_ios_recover[OF ok a(1,2)] by (simp add: parity_write_def Let_def)
    with * l d show ?thesis by (auto simp: enqueue45_def)
  next
    assume l: "raidLevel r = 5"
    then have ok: "wf_geom ?g \<and> raidLevel ?g = 5" using wf by simp
    obtain r' x where *: "foldres (stripe_step bmap5 pmap5) (r, sz, addr) [addr div blocksInStripe r..(?stop - 1) div blocksInStripe r] = Inr (r', x)"
      "issued r (raid5.write_ios ?g addr ?stop) r'"
      using raid5.write_ok[of ?g r addr ?stop] a ok assms(1) by (auto simp: raid5.ready_def)
    have "parity_write ?g addr ?stop (raid5.write_ios ?g addr ?stop)"
      using raid5.write_ios_set[OF ok a(1,2)] raid5.write_ios_distinct[OF ok a(1,2)] raid5.write_ios_fresh[OF ok a(1,2)]
        raid5.write_ios_recover[OF ok a(1,2)] by (simp add: parity_write_def Let_def)
    with * l d show ?thesis by (auto simp: enqueue45_def)
  qed
qed

text \<open>Every request that fits is served, and the array is as good as before.\<close>

lemma raid_enqueue_ok:
  assumes "wf_raid r" "request_fits (geom r) addr sz"
  shows "\<exists>r' tr. raid_enqueue r addr sz w = Inr r' \<and> issued r tr r'"
proof -
  consider "raidLevel r = 0" | "raidLevel r = 1" | "raidLevel r = 4 \<or> raidLevel r = 5"
    using assms(1) by (auto simp: wf_geom_def wf_raid_def)
  then show ?thesis
  proof cases
    case 3
    then show ?thesis
      using enqueue45_read_ok[OF assms(1) 3 assms(2)] enqueue45_write_ok[OF assms(1) 3 assms(2)]
      by (cases w) (auto simp: raid_enqueue_def)
  next
    case 1
    then show ?thesis using enqueue0_ok[OF assms(1) 1 assms(2), of w] by (auto simp: raid_enqueue_def)
  next
    case 2
    then show ?thesis using enqueue1_ok[OF assms(1) 2 assms(2), of w] by (auto simp: raid_enqueue_def)
  qed
qed

interpretation array: safe_machine "\<lambda>r. wf_raid r \<and> counted r \<and> geom r = g"
  "\<lambda>r (addr, sz, w). request_fits g addr sz" "\<lambda>r (addr, sz, w). raid_enqueue r addr sz w" for g
proof unfold_locales
  fix r :: raid and e :: "int \<times> int \<times> bool"
  obtain addr sz w where e: "e = (addr, sz, w)" by (cases e)
  assume "wf_raid r \<and> counted r \<and> geom r = g" "case e of (addr, sz, w) \<Rightarrow> request_fits g addr sz"
  then show "\<exists>s'. (case e of (addr, sz, w) \<Rightarrow> raid_enqueue r addr sz w) = Inr s' \<and> wf_raid s' \<and> counted s' \<and> geom s' = g"
    using raid_enqueue_ok[of r addr sz w] issued_wf[of r] by (auto simp: e issued_def)
qed

text \<open>The requests of a run, without the array they are sent to.\<close>

fun requests :: "workload \<Rightarrow> int \<Rightarrow> int \<Rightarrow> (int \<times> bool) list \<Rightarrow> (int \<times> int \<times> bool) list" where
  "requests wl sz off [] = []"
| "requests Sequential sz off ((rnd, w) # ds) = (off, sz, w) # requests Sequential sz (off + sz) ds"
| "requests Random sz off ((rnd, w) # ds) = (rnd, sz, w) # requests Random sz off ds"

lemma request_loop:
  "bnd (foldres (request_step wl sz) (r, off) ds) (\<lambda>(r, _). Inr (r, raid_go r)) =
   bnd (foldres (\<lambda>r (addr, sz, w). raid_enqueue r addr sz w) r (requests wl sz off ds)) (\<lambda>r. Inr (r, raid_go r))"
proof (induction wl sz off ds arbitrary: r rule: requests.induct)
  case (2 sz off rnd w ds)
  then show ?case by (cases "raid_enqueue r off sz w") (simp_all add: request_step_def)
next
  case (3 sz off rnd w ds)
  then show ?case by (cases "raid_enqueue r rnd sz w") (simp_all add: request_step_def)
qed simp

lemma raid_init_wf:
  assumes "raid_init chunk nd level r5 = Inr r" "0 < chunkSize r" "0 < nd" "level \<in> {0, 1, 4, 5}"
    "level \<noteq> 0 \<Longrightarrow> 2 \<le> nd" "level = 5 \<Longrightarrow> r5 = ''LA'' \<or> r5 = ''LS''"
  shows "wf_raid r \<and> counted r \<and> phys r = []"
proof -
  from assms(1) obtain c where r: "r = \<lparr>chunkSize = c, numDisks = nd, raidLevel = level, raid5type = r5,
                 blocksInStripe = (if level = 4 \<or> level = 5 then (nd - 1) * c else 0),
                 pdisk = (if level = 4 then nd - 1 else -1),
                 disks = map (\<lambda>_. disk_init) [0..nd - 1], phys = []\<rparr>" and l: "level = 1 \<longrightarrow> even nd"
    by (auto simp: raid_init_def bnd_eq_Inr_iff even_iff_mod_2_eq_zero split: if_splits)
  have "wf_raid r" using assms l by (auto simp: r wf_raid_def wf_geom_def)
  moreover have "counted r" by (simp add: r counted_def disk_init_def)
  ultimately show ?thesis by (simp add: r)
qed

lemma raid_go_max:
  assumes "\<forall>d \<in> set (disks r). 0 \<le> utilTime d"
  shows "raid_go r = Max (insert 0 (utilTime ` set (disks r)))"
proof -
  have "fold (\<lambda>d tmax. if utilTime d > tmax then utilTime d else tmax) ds t = Max (insert t (utilTime ` set ds))" for ds t
  proof (induction ds arbitrary: t)
    case (Cons d ds)
    have "Max (insert t (insert (utilTime d) (utilTime ` set ds))) =
        Max (insert (max t (utilTime d)) (utilTime ` set ds))"
      by (cases "ds = []") (auto simp: max.assoc)
    with Cons show ?case by (simp add: max_def)
  qed simp
  then show ?thesis by (simp add: raid_go_def)
qed

text \<open>An array of four disks for the examples.\<close>

definition example_raid :: "int \<Rightarrow> raid" where
  "example_raid level = \<lparr>chunkSize = 2, numDisks = 4, raidLevel = level, raid5type = ''LS'', blocksInStripe = 6,
     pdisk = 3, disks = replicate 4 disk_init, phys = []\<rparr>"

lemma example_raid_wf: "wf_raid (example_raid 1)" "wf_raid (example_raid 4)" "wf_raid (example_raid 5)"
  by (simp_all add: example_raid_def wf_raid_def wf_geom_def)

section \<open>Properties\<close>

text \<open>C18. The block maps of all four levels place the logical blocks one-to-one on the whole data space:
  every position of a disk that is not a parity position (level 5: the rotating one; level 1: the
  second disk of a pair is the mirror) holds exactly one logical block, in both parity layouts of level 5,
  and the assertion of \<^verbatim>\<open>__bmap5\<close> never fails.\<close>

theorem block_maps_bijective:
  assumes "wf_raid r"
  shows "bij_betw (data_loc (geom r)) {0..} {(d, off). 0 \<le> off \<and> d \<in> data_disks (geom r) (off div chunkSize r)} \<and>
    (\<forall>b \<ge> 0. let (d, off) = data_loc (geom r) b in
       (raidLevel r = 0 \<longrightarrow> bmap0 r b = Inr (d, off)) \<and> (raidLevel r = 1 \<longrightarrow> bmap1 r b = Inr (d, d + 1, off)) \<and>
       (raidLevel r = 4 \<longrightarrow> bmap4 r b = Inr (d, off)) \<and>
       (raidLevel r = 5 \<longrightarrow> bmap5_full r b = Inr (d, parity_disk (geom r) (off div chunkSize r), off)))"
proof (intro conjI allI impI)
  have wf: "wf_geom (geom r)" using assms by (simp add: wf_raid_def)
  have l: "raidLevel r = 0 \<or> raidLevel r = 1 \<or> raidLevel r = 4 \<or> raidLevel r = 5" using wf by (auto simp: wf_geom_def)
  then show "bij_betw (data_loc (geom r)) {0..} {(d, off). 0 \<le> off \<and> d \<in> data_disks (geom r) (off div chunkSize r)}"
    using raid0.locate_bij[of "geom r"] raid1.locate_bij[of "geom r"] raid4.locate_bij[of "geom r"]
      raid5.locate_bij[of "geom r"] wf by auto
  fix b :: int assume b: "0 \<le> b"
  have row: "(b div chunkSize r div row_width (geom r) * chunkSize r + b mod chunkSize r) div chunkSize r =
      b div chunkSize r div row_width (geom r)" using wf_chunk_pos[OF wf] by simp
  show "let (d, off) = data_loc (geom r) b in
       (raidLevel r = 0 \<longrightarrow> bmap0 r b = Inr (d, off)) \<and> (raidLevel r = 1 \<longrightarrow> bmap1 r b = Inr (d, d + 1, off)) \<and>
       (raidLevel r = 4 \<longrightarrow> bmap4 r b = Inr (d, off)) \<and>
       (raidLevel r = 5 \<longrightarrow> bmap5_full r b = Inr (d, parity_disk (geom r) (off div chunkSize r), off))"
    using bmap0_place[OF wf _ b refl] bmap1_place[OF wf _ b refl] bmap4_place[OF wf _ b refl] bmap5_full_place[OF wf _ b refl]
    by (simp add: data_loc_def Let_def row)
qed

theorem block_maps_bijective_witness:
  "bij_betw (data_loc (geom (example_raid 5))) {0..} {(d, off). 0 \<le> off \<and> d \<in> data_disks (geom (example_raid 5)) (off div 2)}"
  using block_maps_bijective[of "example_raid 5"] example_raid_wf(3) by (simp add: example_raid_def)

text \<open>C11. A write on a level with parity is served by the disks as it must be: it writes each data block of the
  request and each parity block that protects one of them, exactly once and nothing else; it reads nothing
  it has already overwritten; and what it reads is enough to compute each new parity block: the old
  parity with the old contents that are replaced, or all the blocks of the same row that are kept.\<close>

theorem raid_parity_write:
  assumes "wf_raid r" "raidLevel r = 4 \<or> raidLevel r = 5" "request_fits (geom r) addr sz"
  shows "\<exists>r' tr. raid_enqueue r addr sz True = Inr r' \<and> phys r' = phys r @ tr \<and> parity_write (geom r) addr (addr + sz) tr"
  using enqueue45_write_ok[OF assms] assms(2) by (auto simp: raid_enqueue_def issued_def)

theorem raid_parity_write_witness:
  "\<exists>r' tr. raid_enqueue (example_raid 5) 3 8 True = Inr r' \<and> phys r' = tr \<and> parity_write (geom (example_raid 5)) 3 11 tr"
  using raid_parity_write[of "example_raid 5" 3 8] example_raid_wf(3)
  by (simp add: example_raid_def request_fits_def row_width_def blocksPerDisk_def numTracks_def blocksPerTrack_def)

text \<open>On a mirrored array a write puts every block on both disks of its pair, and a read takes each block from
  one of the two.\<close>

theorem raid_mirrored:
  assumes "wf_raid r" "raidLevel r = 1" "request_fits (geom r) addr sz"
  shows "\<exists>r'. raid_enqueue r addr sz w = Inr r' \<and>
    phys r' = phys r @ concat (map (\<lambda>b. let (d, off) = data_loc (geom r) b
      in if w then [(True, d, off), (True, d + 1, off)] else [(False, if even off then d else d + 1, off)]) [addr..addr + sz - 1])"
  using enqueue1_ok[OF assms, of w] assms(2) by (auto simp: raid_enqueue_def issued_def mirror_ios_def[abs_def])

theorem raid_mirrored_witness:
  "\<exists>r'. raid_enqueue (example_raid 1) 3 2 True = Inr r' \<and>
    phys r' = [(True, 2, 1), (True, 3, 1), (True, 0, 2), (True, 1, 2)]"
  using raid_mirrored[of "example_raid 1" 3 2 True] example_raid_wf(1)
  by (simp add: example_raid_def request_fits_def row_width_def blocksPerDisk_def numTracks_def blocksPerTrack_def
      data_loc_def data_disk_def upto_rec1)

text \<open>A whole run on requests that fit on the array ends without an error; the counters of each disk equal the
  number of operations sent to it, and the time reported is that of the busiest disk.\<close>

theorem raid_main_accounts:
  assumes "convert reqSize = Inr bytes" "bytes mod BLOCKSIZE = 0" "workload_of wl = Inr w"
    and "raid_init chunk nd level r5 = Inr r" "0 < chunkSize r" "0 < nd" "level \<in> {0, 1, 4, 5}"
    and "level \<noteq> 0 \<longrightarrow> 2 \<le> nd" "level = 5 \<longrightarrow> r5 = ''LA'' \<or> r5 = ''LS''"
    and "\<forall>(addr, sz, w) \<in> set (requests w (bytes div BLOCKSIZE) 0 draws). request_fits (geom r) addr sz" "0 \<le> bytes"
  shows "\<exists>r' t. raid_main reqSize wl level nd r5 chunk draws = Inr (r', t) \<and> counted r' \<and>
    t = Max (insert 0 (utilTime ` set (disks r')))"
proof -
  have wf: "wf_raid r \<and> counted r \<and> geom r = geom r" using raid_init_wf[OF assms(4-7)] assms(8,9) by blast
  obtain r' where r': "foldres (\<lambda>r (addr, sz, w). raid_enqueue r addr sz w) r (requests w (bytes div BLOCKSIZE) 0 draws) = Inr r'"
    "counted r'"
    using array.run_safe_uniform[OF wf, of "requests w (bytes div BLOCKSIZE) 0 draws"] assms(10) by fastforce
  have t: "\<forall>d \<in> set (disks r'). 0 \<le> utilTime d" using r'(2) by (auto simp: counted_def Let_def in_set_conv_nth)
  have sz: "int_div bytes BLOCKSIZE = Inr (bytes div BLOCKSIZE)" using assms(11) by (simp add: BLOCKSIZE_def)
  have c: "\<not> (level \<noteq> 0 \<and> nd < 2)" "\<not> (level = 5 \<and> r5 \<noteq> ''LA'' \<and> r5 \<noteq> ''LS'')" using assms(8,9) by auto
  have lv: "level = 0 \<or> level = 1 \<or> level = 4 \<or> level = 5" using assms(7) by simp
  have "raid_main reqSize wl level nd r5 chunk draws = Inr (r', raid_go r')"
    using assms(1-4) lv c sz r'(1) request_loop[of w "bytes div BLOCKSIZE" r 0 draws]
    by (simp only: raid_main_def asserting_def bnd_simps if_True if_False simp_thms)
  then show ?thesis using r'(2) raid_go_max[OF t] by simp
qed

lemma init_example: "raid_init ''8k'' 4 5 ''LS'' = Inr ((example_raid 5)\<lparr>pdisk := -1\<rparr>)"
  by (simp add: raid_init_def convert_def int_of_string_def strip_def nat_of_string_def is_space_code is_digit_code
      digit_val_def BLOCKSIZE_def example_raid_def upto_rec1 numeral_eq_Suc)

theorem raid_main_accounts_witness:
  "\<exists>r' t. raid_main ''16k'' ''seq'' 5 4 ''LS'' ''8k'' [(0, True), (0, False), (0, True)] = Inr (r', t) \<and> counted r' \<and>
    t = Max (insert 0 (utilTime ` set (disks r')))"
proof (rule raid_main_accounts)
  show "convert ''16k'' = Inr 16384" by code_simp
  show "workload_of ''seq'' = Inr Sequential" by (simp add: workload_of_def)
  show "raid_init ''8k'' 4 5 ''LS'' = Inr ((example_raid 5)\<lparr>pdisk := -1\<rparr>)" by (rule init_example)
qed (simp_all add: BLOCKSIZE_def example_raid_def request_fits_def row_width_def blocksPerDisk_def numTracks_def blocksPerTrack_def)

end
