(* ===== verification/Mlfq.thy ===== *)
theory Mlfq
  imports Machines
begin

text \<open>
  The multi-level feedback queue of \<^verbatim>\<open>ostep/homework/cpu-sched-mlfq/mlfq.py\<close>: the parsing of the queue
  and job descriptions, the scheduling loop and the final statistics. Dictionaries with keys
  \<open>0..<n\<close> are lists. \<^verbatim>\<open>ioDone\<close> is the list of its events in the order they were appended, each with
  its time: the entry of a time is the sublist of the events of that time. Ticks are recorded in
  \<open>ticked\<close> (the lines \<^verbatim>\<open>Run JOB\<close> the program prints).
\<close>

section \<open>State\<close>

record mjob =
  currPri :: nat
  ticksLeft :: int
  allotLeft :: int
  startTime :: int
  runTime :: int
  timeLeft :: int
  ioFreq :: int
  doingIO :: bool
  firstRun :: int
  endTime :: "int option"

record mconf =
  quantum :: "int list"
  allotment :: "int list"
  boost :: int
  ioTime :: int
  stay :: bool
  iobump :: bool

datatype io_type = JOB_BEGINS | IO_DONE

record mlfq =
  queue :: "nat list list"
  job :: "mjob list"
  ioDone :: "(int \<times> nat \<times> io_type) list"
  currTime :: int
  finishedJobs :: nat
  ticked :: "(int \<times> nat \<times> nat) list" \<comment> \<open>time, job, queue of each tick\<close>

abbreviation numQueues :: "mconf \<Rightarrow> nat" where "numQueues cf \<equiv> length (quantum cf)"

definition hiQueue :: "mconf \<Rightarrow> nat" where "hiQueue cf = numQueues cf - 1"

section \<open>Options\<close>

text \<open>A list of numbers, the first for the highest queue; without one, the same number for each queue.\<close>

fun ints_of :: "string list \<Rightarrow> int list res" where
  "ints_of [] = Inr []"
| "ints_of (t # ts) = bnd (int_of_string t) (\<lambda>i. bnd (ints_of ts) (\<lambda>is. Inr (i # is)))"

definition quantum_of :: "string \<Rightarrow> int \<Rightarrow> int \<Rightarrow> int list res" where
  "quantum_of quantumList nq q =
     (if quantumList \<noteq> [] then bnd (ints_of (split_on CHR '','' quantumList)) (\<lambda>qs. Inr (rev qs))
      else Inr (replicate (nat nq) q))"

text \<open>The allotment of every queue but the lowest has to be positive, and is checked as it is read.\<close>

fun allotments :: "string list \<Rightarrow> int list res" where
  "allotments [] = Inr []"
| "allotments (t # ts) =
     bnd (int_of_string t) (\<lambda>i.
       if ts \<noteq> [] \<and> i \<le> 0 then Inl SysExit else bnd (allotments ts) (\<lambda>is. Inr (i # is)))"

definition allotment_of :: "string \<Rightarrow> nat \<Rightarrow> int \<Rightarrow> int list res" where
  "allotment_of allotmentList nq a =
     (if allotmentList \<noteq> []
      then let ts = split_on CHR '','' allotmentList
           in if length ts \<noteq> nq then Inl SysExit else bnd (allotments ts) (\<lambda>as. Inr (rev as))
      else Inr (replicate nq a))"

definition new_job :: "mconf \<Rightarrow> int \<Rightarrow> int \<Rightarrow> int \<Rightarrow> mjob res" where
  "new_job cf start run io =
     (if numQueues cf = 0 then Inl KeyError
      else Inr \<lparr>currPri = hiQueue cf, ticksLeft = quantum cf ! hiQueue cf, allotLeft = allotment cf ! hiQueue cf,
             startTime = start, runTime = run, timeLeft = run, ioFreq = io, doingIO = False, firstRun = -1, endTime = None\<rparr>)"

definition mlfq_init :: "mconf \<Rightarrow> mlfq" where
  "mlfq_init cf = \<lparr>queue = replicate (numQueues cf) [], job = [], ioDone = [], currTime = 0, finishedJobs = 0, ticked = []\<rparr>"

definition add_job :: "mconf \<Rightarrow> mlfq \<Rightarrow> int \<times> int \<times> int \<Rightarrow> mlfq res" where
  "add_job cf s spec =
     (case spec of (start, run, io) \<Rightarrow>
        bnd (new_job cf start run io) (\<lambda>j.
          Inr (s\<lparr>job := job s @ [j], ioDone := ioDone s @ [(start, length (job s), JOB_BEGINS)]\<rparr>)))"

text \<open>A job of the option \<^verbatim>\<open>jlist\<close>; the jobs drawn at random are given as numbers.\<close>

definition job_spec :: "string \<Rightarrow> (int \<times> int \<times> int) res" where
  "job_spec j =
     (case split_on CHR '','' j of
        [a, b, c] \<Rightarrow> bnd (int_of_string a) (\<lambda>a. bnd (int_of_string b) (\<lambda>b. bnd (int_of_string c) (\<lambda>c. Inr (a, b, c))))
      | _ \<Rightarrow> Inl SysExit)"

definition load_jobs :: "mconf \<Rightarrow> string \<Rightarrow> (int \<times> int) list \<Rightarrow> mlfq res" where
  "load_jobs cf jlist draws =
     (if jlist \<noteq> [] then foldres (\<lambda>s j. bnd (job_spec j) (add_job cf s)) (mlfq_init cf) (split_on CHR '':'' jlist)
      else foldres (\<lambda>s (run, io). add_job cf s (0, run, io)) (mlfq_init cf) draws)"

section \<open>One round of the loop\<close>

fun find_from :: "nat list list \<Rightarrow> nat \<Rightarrow> nat option" where
  "find_from qs 0 = (if qs ! 0 \<noteq> [] then Some 0 else None)"
| "find_from qs (Suc q) = (if qs ! Suc q \<noteq> [] then Some (Suc q) else find_from qs q)"

definition FindQueue :: "mconf \<Rightarrow> mlfq \<Rightarrow> nat option" where
  "FindQueue cf s = find_from (queue s) (hiQueue cf)"

text \<open>The priority boost: the waiting jobs of the lower queues go to the highest one.\<close>

definition boost_queues :: "mconf \<Rightarrow> mjob list \<Rightarrow> nat list list \<Rightarrow> nat list list" where
  "boost_queues cf js qs =
     fold (\<lambda>q qs. qs[hiQueue cf := qs ! hiQueue cf @ filter (\<lambda>j. \<not> doingIO (js ! j)) (qs ! q), q := []])
       [0..<numQueues cf - 1] qs"

definition boost_jobs :: "mconf \<Rightarrow> mjob list \<Rightarrow> mjob list" where
  "boost_jobs cf js =
     map (\<lambda>j. if timeLeft j > 0 then j\<lparr>currPri := hiQueue cf, ticksLeft := allotment cf ! hiQueue cf\<rparr> else j) js"

definition boost_step :: "mconf \<Rightarrow> mlfq \<Rightarrow> mlfq" where
  "boost_step cf s =
     (if boost cf > 0 \<and> currTime s \<noteq> 0 \<and> currTime s mod boost cf = 0
      then s\<lparr>queue := boost_queues cf (job s) (queue s), job := boost_jobs cf (job s)\<rparr> else s)"

definition io_step :: "mconf \<Rightarrow> mlfq \<Rightarrow> nat \<times> io_type \<Rightarrow> mlfq res" where
  "io_step cf s e =
     (case e of (j, ty) \<Rightarrow>
        bnd (key_get (job s) j) (\<lambda>b.
        bnd (key_get (queue s) (currPri b)) (\<lambda>q.
          Inr (s\<lparr>job := (job s)[j := b\<lparr>doingIO := False\<rparr>],
                 queue := (queue s)[currPri b := if \<not> iobump cf \<or> ty = JOB_BEGINS then q @ [j] else j # q]\<rparr>))))"

definition events_at :: "mlfq \<Rightarrow> int \<Rightarrow> (nat \<times> io_type) list" where
  "events_at s t = map snd (filter (\<lambda>(t', e). t' = t) (ioDone s))"

definition io_steps :: "mconf \<Rightarrow> mlfq \<Rightarrow> mlfq res" where
  "io_steps cf s = foldres (io_step cf) s (events_at s (currTime s))"

text \<open>The end of a quantum; \<open>issued\<close> says that the job has just started an I/O and is not in the queue.\<close>

definition quantum_end :: "mconf \<Rightarrow> mlfq \<Rightarrow> nat \<Rightarrow> nat \<Rightarrow> bool \<Rightarrow> mlfq" where
  "quantum_end cf s cj cq issued =
     (let s = (if issued then s else s\<lparr>queue := (queue s)[cq := tl (queue s ! cq)]\<rparr>);
          b = (job s ! cj)\<lparr>allotLeft := allotLeft (job s ! cj) - 1\<rparr>;
          append = (\<lambda>q s. if issued then s else s\<lparr>queue := (queue s)[q := queue s ! q @ [cj]]\<rparr>)
      in if allotLeft b = 0
         then if cq > 0
              then append (cq - 1) (s\<lparr>job := (job s)[cj := b\<lparr>currPri := cq - 1, ticksLeft := quantum cf ! (cq - 1),
                                                       allotLeft := allotment cf ! (cq - 1)\<rparr>]\<rparr>)
              else append cq (s\<lparr>job := (job s)[cj := b\<lparr>ticksLeft := quantum cf ! cq, allotLeft := allotment cf ! cq\<rparr>]\<rparr>)
         else append cq (s\<lparr>job := (job s)[cj := b\<lparr>ticksLeft := quantum cf ! cq\<rparr>]\<rparr>))"

definition issue_io :: "mconf \<Rightarrow> mlfq \<Rightarrow> nat \<Rightarrow> nat \<Rightarrow> mlfq" where
  "issue_io cf s cj cq =
     (let b = (job s ! cj)\<lparr>doingIO := True\<rparr>;
          b = (if stay cf then b\<lparr>ticksLeft := quantum cf ! cq, allotLeft := allotment cf ! cq\<rparr> else b)
      in s\<lparr>queue := (queue s)[cq := tl (queue s ! cq)], job := (job s)[cj := b],
           ioDone := ioDone s @ [(currTime s + ioTime cf, cj, IO_DONE)]\<rparr>)"

text \<open>Run the job \<open>cj\<close> at the head of queue \<open>cq\<close> for one tick. The variables \<open>ticksLeft\<close> and \<open>timeLeft\<close> of the
  loop are read before the I/O can reset them.\<close>

definition run_job :: "mconf \<Rightarrow> mlfq \<Rightarrow> nat \<Rightarrow> nat \<Rightarrow> mlfq res" where
  "run_job cf s cj cq =
     bnd (key_get (job s) cj) (\<lambda>b.
       if currPri b \<noteq> cq then Inl SysExit
       else
         let b = b\<lparr>timeLeft := timeLeft b - 1, ticksLeft := ticksLeft b - 1\<rparr>;
             b = (if firstRun b = -1 then b\<lparr>firstRun := currTime s\<rparr> else b);
             ticks = ticksLeft b; left = timeLeft b;
             s = s\<lparr>job := (job s)[cj := b], ticked := ticked s @ [(currTime s, cj, cq)]\<rparr>
         in if left < 0 then Inl SysExit
            else let s = s\<lparr>currTime := currTime s + 1\<rparr>
                 in if left = 0
                    then Inr (s\<lparr>finishedJobs := finishedJobs s + 1, job := (job s)[cj := b\<lparr>endTime := Some (currTime s)\<rparr>],
                                queue := (queue s)[cq := tl (queue s ! cq)]\<rparr>)
                    else let issued = (ioFreq b > 0 \<and> (runTime b - left) mod ioFreq b = 0);
                             s = (if issued then issue_io cf s cj cq else s)
                         in Inr (if ticks = 0 then quantum_end cf s cj cq issued else s))"

definition mlfq_step :: "mconf \<Rightarrow> mlfq \<Rightarrow> mlfq res" where
  "mlfq_step cf s =
     bnd (io_steps cf (boost_step cf s)) (\<lambda>s.
       case FindQueue cf s of
         None \<Rightarrow> Inr (s\<lparr>currTime := currTime s + 1\<rparr>)
       | Some cq \<Rightarrow> run_job cf s (hd (queue s ! cq)) cq)"

definition mlfq_unfinished :: "mlfq \<Rightarrow> bool" where
  "mlfq_unfinished s \<longleftrightarrow> finishedJobs s < length (job s)"

definition mlfq_run :: "mconf \<Rightarrow> nat \<Rightarrow> mlfq \<Rightarrow> mlfq res" where
  "mlfq_run cf n s = while_res mlfq_unfinished (mlfq_step cf) n s"

section \<open>Statistics\<close>

definition job_stats :: "mjob \<Rightarrow> (int \<times> int) res" where
  "job_stats b = (case endTime b of None \<Rightarrow> Inl KeyError | Some e \<Rightarrow> Inr (firstRun b - startTime b, e - startTime b))"

definition mlfq_stats :: "mlfq \<Rightarrow> (int \<times> int) res" where
  "mlfq_stats s = foldres (\<lambda>(r, t) b. bnd (job_stats b) (\<lambda>(r', t'). Inr (r + r', t + t'))) (0, 0) (job s)"

section \<open>What a tick does\<close>

text \<open>The four ways a tick of a job can end.\<close>

datatype outcome = Finished | Blocked | Requeued | Kept

definition effect :: "mconf \<Rightarrow> mlfq \<Rightarrow> nat \<Rightarrow> nat \<Rightarrow> mlfq \<Rightarrow> mjob \<Rightarrow> outcome \<Rightarrow> bool" where
  "effect cf s cj cq s' b' oc \<longleftrightarrow>
     (let b = job s ! cj; qs = (queue s)[cq := tl (queue s ! cq)] in
      currTime s' = currTime s + 1 \<and> ticked s' = ticked s @ [(currTime s, cj, cq)] \<and> job s' = (job s)[cj := b'] \<and>
      startTime b' = startTime b \<and> runTime b' = runTime b \<and> timeLeft b' = timeLeft b - 1 \<and>
      firstRun b' = (if firstRun b = -1 then currTime s else firstRun b) \<and> currPri b' \<le> cq \<and>
      endTime b' = (if oc = Finished then Some (currTime s + 1) else endTime b) \<and>
      finishedJobs s' = finishedJobs s + (if oc = Finished then 1 else 0) \<and>
      (oc = Finished \<longleftrightarrow> timeLeft b = 1) \<and> (oc = Requeued \<or> oc = Kept \<longrightarrow> doingIO b' = doingIO b) \<and>
      (oc = Kept \<longrightarrow> currPri b' = cq) \<and>
      ioDone s' = ioDone s @ (if oc = Blocked then [(currTime s + 1 + ioTime cf, cj, IO_DONE)] else []) \<and>
      queue s' = (if oc = Kept then queue s else if oc = Requeued then qs[currPri b' := qs ! currPri b' @ [cj]] else qs))"

lemma run_job_effect:
  assumes "cj < length (job s)" "currPri (job s ! cj) = cq" "0 < timeLeft (job s ! cj)" "cq < length (queue s)"
  shows "\<exists>s' b' oc. run_job cf s cj cq = Inr s' \<and> effect cf s cj cq s' b' oc"
proof -
  define b where "b = (let b = job s ! cj; b = b\<lparr>timeLeft := timeLeft b - 1, ticksLeft := ticksLeft b - 1\<rparr>
    in if firstRun b = -1 then b\<lparr>firstRun := currTime s\<rparr> else b)"
  define s1 where "s1 = s\<lparr>job := (job s)[cj := b], ticked := ticked s @ [(currTime s, cj, cq)], currTime := currTime s + 1\<rparr>"
  define io where "io = (ioFreq b > 0 \<and> (runTime b - timeLeft b) mod ioFreq b = 0)"
  have s1: "job s1 ! cj = b" "queue s1 = queue s" "currTime s1 = currTime s + 1" "ioDone s1 = ioDone s"
    "ticked s1 = ticked s @ [(currTime s, cj, cq)]" "finishedJobs s1 = finishedJobs s" "job s1 = (job s)[cj := b]"
    using assms(1) by (simp_all add: s1_def)
  have b: "startTime b = startTime (job s ! cj)" "runTime b = runTime (job s ! cj)" "timeLeft b = timeLeft (job s ! cj) - 1"
    "firstRun b = (if firstRun (job s ! cj) = -1 then currTime s else firstRun (job s ! cj))" "currPri b = cq"
    "endTime b = endTime (job s ! cj)" "doingIO b = doingIO (job s ! cj)"
    using assms(2) by (simp_all add: b_def Let_def)
  have run: "run_job cf s cj cq = (if timeLeft b = 0
      then Inr (s1\<lparr>finishedJobs := finishedJobs s + 1, job := (job s)[cj := b\<lparr>endTime := Some (currTime s + 1)\<rparr>],
                   queue := (queue s)[cq := tl (queue s ! cq)]\<rparr>)
      else let s2 = (if io then issue_io cf s1 cj cq else s1)
           in Inr (if ticksLeft b = 0 then quantum_end cf s2 cj cq io else s2))"
    using assms by (simp add: run_job_def s1_def b_def io_def Let_def)
  consider (f) "timeLeft b = 0" | (io) "timeLeft b \<noteq> 0" "io" | (q) "timeLeft b \<noteq> 0" "\<not> io" "ticksLeft b = 0"
    | (k) "timeLeft b \<noteq> 0" "\<not> io" "ticksLeft b \<noteq> 0" by blast
  then show ?thesis
  proof cases
    case f
    then show ?thesis using run b s1
      by (intro exI[of _ "s1\<lparr>finishedJobs := finishedJobs s + 1, job := (job s)[cj := b\<lparr>endTime := Some (currTime s + 1)\<rparr>],
            queue := (queue s)[cq := tl (queue s ! cq)]\<rparr>"] exI[of _ "b\<lparr>endTime := Some (currTime s + 1)\<rparr>"] exI[of _ Finished])
        (simp add: effect_def Let_def)
  next
    case io
    let ?s2 = "issue_io cf s1 cj cq"
    let ?s3 = "if ticksLeft b = 0 then quantum_end cf ?s2 cj cq True else ?s2"
    have "effect cf s cj cq ?s3 (job ?s3 ! cj) Blocked"
      using io b s1 assms by (auto simp: effect_def Let_def issue_io_def quantum_end_def)
    moreover have "run_job cf s cj cq = Inr ?s3" using run io by simp
    ultimately show ?thesis by blast
  next
    case q
    let ?s3 = "quantum_end cf s1 cj cq False"
    have "effect cf s cj cq ?s3 (job ?s3 ! cj) Requeued"
      using q b s1 assms by (auto simp: effect_def Let_def quantum_end_def)
    then show ?thesis using run q by (auto simp: Let_def)
  next
    case k
    have "effect cf s cj cq s1 b Kept" using k b s1 assms by (simp add: effect_def Let_def)
    then show ?thesis using run k by (auto simp: Let_def)
  qed
qed

section \<open>Where the jobs are\<close>

definition pending :: "int \<Rightarrow> mlfq \<Rightarrow> nat list" where
  "pending T s = map (fst \<circ> snd) (filter (\<lambda>(t, e). T \<le> t) (ioDone s))"

definition unfinished :: "mjob list \<Rightarrow> nat list" where
  "unfinished js = filter (\<lambda>j. 0 < timeLeft (js ! j)) [0..<length js]"

text \<open>Every unfinished job is in exactly one place, once: in the queue of its priority, in the list \<open>R\<close> of
  jobs that are about to enter their queue, or in one event at time \<open>T\<close> or later.\<close>

definition placed :: "mconf \<Rightarrow> int \<Rightarrow> nat list \<Rightarrow> mlfq \<Rightarrow> bool" where
  "placed cf T R s \<longleftrightarrow>
     0 < numQueues cf \<and> length (allotment cf) = numQueues cf \<and> 0 \<le> ioTime cf \<and> length (queue s) = numQueues cf \<and>
     mset (concat (queue s)) + mset R + mset (pending T s) = mset (unfinished (job s)) \<and>
     (\<forall>q < numQueues cf. \<forall>j \<in> set (queue s ! q). currPri (job s ! j) = q \<and> \<not> doingIO (job s ! j)) \<and>
     (\<forall>b \<in> set (job s). currPri b < numQueues cf \<and> 0 \<le> timeLeft b) \<and>
     finishedJobs s + length (unfinished (job s)) = length (job s)"

lemma set_unfinished: "j \<in> set (unfinished js) \<longleftrightarrow> j < length js \<and> 0 < timeLeft (js ! j)"
  by (auto simp: unfinished_def)

lemma placed_members:
  assumes "placed cf T R s"
  shows "\<forall>j \<in> set (concat (queue s)) \<union> set R \<union> set (pending T s). j < length (job s) \<and> 0 < timeLeft (job s ! j)"
    "distinct (concat (queue s) @ R @ pending T s)"
proof -
  have *: "mset (concat (queue s) @ R @ pending T s) = mset (unfinished (job s))" using assms by (simp add: placed_def add.assoc)
  from mset_eq_setD[OF *] show "\<forall>j \<in> set (concat (queue s)) \<union> set R \<union> set (pending T s). j < length (job s) \<and> 0 < timeLeft (job s ! j)"
    using set_unfinished by auto
  have "distinct (unfinished (job s))" by (simp add: unfinished_def)
  then show "distinct (concat (queue s) @ R @ pending T s)" using mset_eq_imp_distinct_iff[OF *] by simp
qed

lemma mset_unfinished: "mset (unfinished js) = mset_set {j. j < length js \<and> 0 < timeLeft (js ! j)}"
proof -
  have "distinct (unfinished js)" by (simp add: unfinished_def)
  moreover have "set (unfinished js) = {j. j < length js \<and> 0 < timeLeft (js ! j)}" by (auto simp: set_unfinished)
  ultimately show ?thesis by (metis mset_set_set)
qed

lemma unfinished_update:
  assumes "cj < length js" "0 < timeLeft (js ! cj)"
  shows "mset (unfinished js) = mset (unfinished (js[cj := b])) + (if 0 < timeLeft b then {#} else {#cj#})"
proof -
  let ?A = "{j. j < length js \<and> 0 < timeLeft (js ! j)}"
  have "{j. j < length (js[cj := b]) \<and> 0 < timeLeft (js[cj := b] ! j)} = (if 0 < timeLeft b then ?A else ?A - {cj})"
    using assms by (auto simp: nth_list_update split: if_splits)
  moreover have "mset_set ?A = mset_set (?A - {cj}) + {#cj#}" using assms by (subst mset_set.remove[of _ cj]) auto
  ultimately show ?thesis by (simp add: mset_unfinished)
qed

lemma unfinished_same:
  assumes "length js' = length js" "\<And>j. j < length js \<Longrightarrow> timeLeft (js' ! j) = timeLeft (js ! j)"
  shows "unfinished js' = unfinished js"
  unfolding unfinished_def using assms by (auto intro: filter_cong)

text \<open>The boost.\<close>

lemma boost_queues_props:
  assumes n: "length qs = numQueues cf" "0 < numQueues cf" and io: "\<forall>j \<in> set (concat qs). \<not> doingIO (js ! j)"
  shows "length (boost_queues cf js qs) = numQueues cf \<and> mset (concat (boost_queues cf js qs)) = mset (concat qs) \<and>
    (\<forall>q < hiQueue cf. boost_queues cf js qs ! q = [])"
proof -
  let ?hi = "hiQueue cf"
  let ?step = "\<lambda>q qs. qs[?hi := qs ! ?hi @ filter (\<lambda>j. \<not> doingIO (js ! j)) (qs ! q), q := []]"
  have "length (fold ?step [0..<k] qs) = numQueues cf \<and> mset (concat (fold ?step [0..<k] qs)) = mset (concat qs) \<and>
      (\<forall>q < k. fold ?step [0..<k] qs ! q = [])" if "k \<le> ?hi" for k
    using that
  proof (induction k)
    case (Suc k)
    define r where "r = fold ?step [0..<k] qs"
    have r: "length r = numQueues cf" "mset (concat r) = mset (concat qs)" "\<forall>q < k. r ! q = []"
      using Suc by (simp_all add: r_def)
    have k: "k < length r" "?hi < length r" "k \<noteq> ?hi" using Suc.prems n r(1) by (simp_all add: hiQueue_def)
    have "set (r ! k) \<subseteq> set (concat qs)" using mset_eq_setD[OF r(2)] k(1) by auto
    then have "filter (\<lambda>j. \<not> doingIO (js ! j)) (r ! k) = r ! k" using io by (auto simp: filter_id_conv)
    then have "fold ?step [0..<Suc k] qs = r[?hi := r ! ?hi @ r ! k, k := []]" by (simp add: r_def)
    moreover have "mset (concat (r[?hi := r ! ?hi @ r ! k, k := []])) = mset (concat r)"
      using mset_concat_update[of ?hi r "r ! ?hi @ r ! k"] mset_concat_update[of k "r[?hi := r ! ?hi @ r ! k]" "[]"] k by simp
    moreover have "r[?hi := r ! ?hi @ r ! k, k := []] ! q = []" if "q < Suc k" for q
      using that r(3) k Suc.prems by (auto simp: less_Suc_eq nth_list_update)
    ultimately show ?case using r k by simp
  qed (use n in simp)
  from this[of ?hi] show ?thesis by (simp add: boost_queues_def hiQueue_def)
qed

lemma boost_jobs_nth: "j < length js \<Longrightarrow> boost_jobs cf js ! j =
    (if timeLeft (js ! j) > 0 then (js ! j)\<lparr>currPri := hiQueue cf, ticksLeft := allotment cf ! hiQueue cf\<rparr> else js ! j)"
  by (simp add: boost_jobs_def)

lemma placed_boost:
  assumes p: "placed cf T [] s"
  shows "placed cf T [] (boost_step cf s)"
proof (cases "boost cf > 0 \<and> currTime s \<noteq> 0 \<and> currTime s mod boost cf = 0")
  case True
  let ?s = "s\<lparr>queue := boost_queues cf (job s) (queue s), job := boost_jobs cf (job s)\<rparr>"
  have mem: "\<forall>j \<in> set (concat (queue s)). \<not> doingIO (job s ! j)"
    using p by (auto simp: placed_def in_set_conv_nth[of _ "queue s"])
  have q: "length (queue ?s) = numQueues cf" "mset (concat (queue ?s)) = mset (concat (queue s))"
      "\<forall>q < hiQueue cf. queue ?s ! q = []"
    using boost_queues_props[of "queue s" cf "job s"] p mem by (auto simp: placed_def)
  have u: "unfinished (job ?s) = unfinished (job s)"
    by (rule unfinished_same) (auto simp: boost_jobs_def)
  have "currPri (job ?s ! j) = q \<and> \<not> doingIO (job ?s ! j)" if "q < numQueues cf" "j \<in> set (queue ?s ! q)" for q j
  proof -
    have "q = hiQueue cf" using that q(3) by (cases "q < hiQueue cf") (auto simp: hiQueue_def)
    moreover have j: "j \<in> set (concat (queue s))" using that q(1) mset_eq_setD[OF q(2)] by auto
    moreover have "j < length (job s)" "0 < timeLeft (job s ! j)" "\<not> doingIO (job s ! j)"
      using placed_members(1)[OF p] mem j by blast+
    ultimately show ?thesis by (simp add: boost_jobs_nth)
  qed
  moreover have "\<forall>b \<in> set (job ?s). currPri b < numQueues cf \<and> 0 \<le> timeLeft b"
    using p by (auto simp: boost_jobs_def placed_def hiQueue_def)
  ultimately have "placed cf T [] ?s" using p q u by (simp add: placed_def pending_def boost_jobs_def)
  with True show ?thesis by (simp add: boost_step_def)
next
  case False
  with p show ?thesis by (auto simp: boost_step_def)
qed

text \<open>The events of the current time.\<close>

lemma pending_split:
  "mset (pending T s) = mset (map fst (events_at s T)) + mset (pending (T + 1) s)"
proof -
  have "mset (map (fst \<circ> snd) (filter (\<lambda>(t, e). T \<le> t) es)) =
      mset (map (fst \<circ> snd) (filter (\<lambda>(t', e). t' = T) es)) + mset (map (fst \<circ> snd) (filter (\<lambda>(t, e). T + 1 \<le> t) es))"
    for es :: "(int \<times> nat \<times> io_type) list"
    by (induction es) auto
  then show ?thesis by (simp add: pending_def events_at_def)
qed

lemma placed_events: "placed cf T [] s \<Longrightarrow> placed cf (T + 1) (map fst (events_at s T)) s"
  by (simp add: placed_def pending_split[of T] add.assoc)

lemma placed_io_step:
  assumes p: "placed cf T (j # R) s"
  shows "\<exists>s'. io_step cf s (j, ty) = Inr s' \<and> placed cf T R s' \<and> currTime s' = currTime s \<and> ioDone s' = ioDone s"
proof -
  let ?b = "job s ! j"
  have j: "j < length (job s)" "0 < timeLeft ?b" using placed_members(1)[OF p] by auto
  have q: "currPri ?b < length (queue s)" using p j by (simp add: placed_def)
  define xs where "xs = (if \<not> iobump cf \<or> ty = JOB_BEGINS then queue s ! currPri ?b @ [j] else j # queue s ! currPri ?b)"
  have xs: "mset xs = mset (queue s ! currPri ?b) + {#j#}" by (simp add: xs_def)
  let ?s = "s\<lparr>job := (job s)[j := ?b\<lparr>doingIO := False\<rparr>], queue := (queue s)[currPri ?b := xs]\<rparr>"
  have "io_step cf s (j, ty) = Inr ?s" using j q by (simp add: io_step_def xs_def)
  moreover have "mset (concat (queue ?s)) = mset (concat (queue s)) + {#j#}"
    using mset_concat_update[OF q, of xs] xs by simp
  moreover have "unfinished (job ?s) = unfinished (job s)"
    by (rule unfinished_same) (use j in \<open>auto simp: nth_list_update\<close>)
  moreover have "currPri (job ?s ! k) = q' \<and> \<not> doingIO (job ?s ! k)"
    if "q' < numQueues cf" "k \<in> set (queue ?s ! q')" for q' k
  proof (cases "k = j")
    case True
    have "j \<notin> set (concat (queue s))" using placed_members(2)[OF p] by auto
    moreover have "queue s ! q' \<in> set (queue s)" using that(1) p by (simp add: placed_def)
    ultimately have "j \<notin> set (queue s ! q')" by auto
    then have "q' = currPri ?b" using that(2) True q by (cases "q' = currPri ?b") simp_all
    then show ?thesis using True j by simp
  next
    case False
    then have "k \<in> set (queue s ! q')" using that p q by (auto simp: placed_def xs_def nth_list_update split: if_splits)
    then show ?thesis using False that(1) p by (auto simp: placed_def)
  qed
  moreover have "\<forall>b \<in> set (job ?s). currPri b < numQueues cf \<and> 0 \<le> timeLeft b"
    using p j by (auto simp: placed_def dest!: set_update_subset_insert[THEN subsetD])
  ultimately show ?thesis using p by (intro exI[of _ ?s]) (simp add: placed_def pending_def)
qed

lemma placed_io_steps:
  assumes "placed cf T (map fst es) s"
  shows "\<exists>s'. foldres (io_step cf) s es = Inr s' \<and> placed cf T [] s' \<and> currTime s' = currTime s \<and> ioDone s' = ioDone s"
  using assms
proof (induction es arbitrary: s)
  case (Cons e es)
  obtain j ty where e: "e = (j, ty)" by (cases e)
  obtain t where t: "io_step cf s (j, ty) = Inr t" "placed cf T (map fst es) t" "currTime t = currTime s" "ioDone t = ioDone s"
    using placed_io_step[of cf T j "map fst es" s ty] Cons.prems by (auto simp: e)
  from Cons.IH[OF t(2)] t show ?case by (simp add: e)
qed simp

text \<open>The tick.\<close>

lemma find_from_Some:
  "find_from qs q = Some k \<Longrightarrow> k \<le> q \<and> qs ! k \<noteq> [] \<and> (\<forall>q'. k < q' \<and> q' \<le> q \<longrightarrow> qs ! q' = [])"
  by (induction q) (auto split: if_splits simp: le_Suc_eq)

lemma find_from_None: "find_from qs q = None \<Longrightarrow> \<forall>k \<le> q. qs ! k = []"
  by (induction q) (auto split: if_splits simp: le_Suc_eq)

lemma FindQueue_placed:
  assumes p: "placed cf T R s" and f: "FindQueue cf s = Some cq"
  obtains cj rest where "queue s ! cq = cj # rest" "cq < length (queue s)" "cj < length (job s)"
    "currPri (job s ! cj) = cq" "0 < timeLeft (job s ! cj)" "\<not> doingIO (job s ! cj)"
proof -
  have "hiQueue cf < length (queue s)" using p by (simp only: placed_def hiQueue_def) linarith
  then have q: "cq < length (queue s)" "queue s ! cq \<noteq> []"
    using find_from_Some[of "queue s" "hiQueue cf" cq] f by (auto simp: FindQueue_def)
  then obtain cj rest where c: "queue s ! cq = cj # rest" by (cases "queue s ! cq") auto
  then have "cj \<in> set (queue s ! cq)" by simp
  moreover from this have "cj \<in> set (concat (queue s))" using q(1) by auto
  ultimately show ?thesis
    using that[OF c q(1)] placed_members(1)[OF p] p q(1) by (auto simp: placed_def)
qed

lemma pending_run:
  assumes "effect cf s cj cq s' b' oc" "0 \<le> ioTime cf"
  shows "pending (currTime s + 1) s' = pending (currTime s + 1) s @ (if oc = Blocked then [cj] else [])"
  using assms by (simp add: effect_def Let_def pending_def)

lemma queue_run:
  assumes e: "effect cf s cj cq s' b' oc" and q: "queue s ! cq = cj # rest" "cq < length (queue s)"
  shows "mset (concat (queue s)) = mset (concat (queue s')) + (if oc = Finished \<or> oc = Blocked then {#cj#} else {#})"
proof -
  let ?qs = "(queue s)[cq := rest]"
  have pop: "mset (concat (queue s)) = mset (concat ?qs) + {#cj#}"
    using mset_concat_update[OF q(2), of rest] q(1) by simp
  have b: "currPri b' < length ?qs" using e q(2) by (simp add: effect_def Let_def)
  show ?thesis
    using e q pop mset_concat_update[OF b, of "?qs ! currPri b' @ [cj]"]
    by (cases oc) (simp_all add: effect_def Let_def)
qed

lemma queue_run_mem:
  assumes e: "effect cf s cj cq s' b' oc" and q: "queue s ! cq = cj # rest" "cq < length (queue s)"
    and d: "distinct (concat (queue s))"
    and k: "q' < length (queue s)" "k \<in> set (queue s' ! q')"
  shows "k = cj \<and> (oc = Requeued \<or> oc = Kept) \<and> q' = currPri b' \<or> k \<noteq> cj \<and> k \<in> set (queue s ! q')"
proof -
  have only: "q'' = cq" if "cj \<in> set (queue s ! q'')" "q'' < length (queue s)" for q''
  proof (rule ccontr)
    assume "q'' \<noteq> cq"
    have "mset (concat ((queue s)[cq := []])) + mset (queue s ! cq) = mset (concat (queue s))"
      using mset_concat_update[OF q(2), of "[]"] by simp
    moreover have "cj \<in> set (concat ((queue s)[cq := []]))" using that \<open>q'' \<noteq> cq\<close>
      by (metis length_list_update nth_list_update_neq nth_mem set_concat UN_I)
    ultimately have "2 \<le> count (mset (concat (queue s))) cj" using q(1)
      by (metis One_nat_def Suc_1 Suc_leI add_mono_thms_linordered_semiring(1) count_greater_zero_iff count_union list.set_intros(1) set_mset_mset
          plus_1_eq_Suc)
    then show False using d distinct_count_atmost_1[of "concat (queue s)"] by (auto split: if_splits)
  qed
  have rest: "cj \<notin> set rest" using d q
    by (metis distinct.simps(2) distinct_concat_iff nth_mem)
  show ?thesis
    using e q k only[of q'] rest by (cases oc) (auto simp: effect_def Let_def nth_list_update split: if_splits)
qed

lemma placed_run:
  assumes p: "placed cf (currTime s + 1) [] s" and q: "queue s ! cq = cj # rest" "cq < length (queue s)"
    and cj: "cj < length (job s)" "0 < timeLeft (job s ! cj)" "\<not> doingIO (job s ! cj)"
    and e: "effect cf s cj cq s' b' oc"
  shows "placed cf (currTime s + 1) [] s'"
proof -
  have io: "0 \<le> ioTime cf" using p by (simp add: placed_def)
  have e': "job s' = (job s)[cj := b']" "timeLeft b' = timeLeft (job s ! cj) - 1" "oc = Finished \<longleftrightarrow> timeLeft (job s ! cj) = 1"
      "currPri b' \<le> cq" "length (queue s') = length (queue s)" "finishedJobs s' = finishedJobs s + (if oc = Finished then 1 else 0)"
      "oc = Requeued \<or> oc = Kept \<longrightarrow> doingIO b' = doingIO (job s ! cj)"
    using e by (simp_all add: effect_def Let_def)
  have u: "mset (unfinished (job s)) = mset (unfinished (job s')) + (if oc = Finished then {#cj#} else {#})"
    using unfinished_update[OF cj(1,2), of b'] e'(2,3) cj(2) by (auto simp: e'(1))
  have "mset (concat (queue s)) + mset (pending (currTime s + 1) s) = mset (unfinished (job s))"
    using p by (simp add: placed_def)
  then have m: "mset (concat (queue s')) + mset [] + mset (pending (currTime s + 1) s') = mset (unfinished (job s'))"
    using queue_run[OF e q] pending_run[OF e io] u by (cases oc) auto
  have d: "distinct (concat (queue s))" using placed_members(2)[OF p] by simp
  have "currPri (job s' ! k) = q' \<and> \<not> doingIO (job s' ! k)" if "q' < numQueues cf" "k \<in> set (queue s' ! q')" for q' k
  proof -
    have q': "q' < length (queue s)" using that(1) p by (simp add: placed_def)
    from queue_run_mem[OF e q d q' that(2)] show ?thesis
      using p that(1) cj e'(1,7) by (auto simp: placed_def)
  qed
  moreover have "\<forall>b \<in> set (job s'). currPri b < numQueues cf \<and> 0 \<le> timeLeft b"
    using p cj q e'(1,2,4) by (auto simp: placed_def dest!: set_update_subset_insert[THEN subsetD])
  moreover have "finishedJobs s' + length (unfinished (job s')) = length (job s')"
    using p arg_cong[OF u, of size] e'(1,6) by (simp add: placed_def split: if_splits)
  ultimately show ?thesis using p m e'(5) by (simp add: placed_def)
qed

section \<open>Times\<close>

text \<open>The history of a job: when it started, the ticks it ticked, and that it never ticked before its start.\<close>

definition history :: "int \<Rightarrow> (int \<times> nat \<times> nat) list \<Rightarrow> nat \<Rightarrow> mjob \<Rightarrow> bool" where
  "history now tk j b \<longleftrightarrow>
     0 \<le> startTime b \<and> 0 < runTime b \<and> timeLeft b \<le> runTime b \<and>
     (firstRun b = -1 \<longleftrightarrow> timeLeft b = runTime b) \<and>
     (timeLeft b < runTime b \<longrightarrow> startTime b \<le> firstRun b \<and> firstRun b < now) \<and>
     (timeLeft b = 0 \<longrightarrow> (\<exists>e. endTime b = Some e \<and> startTime b + runTime b \<le> e \<and> e \<le> now \<and> firstRun b < e)) \<and>
     int (length (filter (\<lambda>(t, k, q). k = j) tk)) = runTime b - timeLeft b"

text \<open>The earliest time at which a job can be where it is.\<close>

definition due :: "mjob \<Rightarrow> int" where
  "due b = startTime b + (runTime b - timeLeft b)"

definition timed :: "int \<Rightarrow> nat list \<Rightarrow> mlfq \<Rightarrow> bool" where
  "timed T R s \<longleftrightarrow>
     (\<forall>j < length (job s). history (currTime s) (ticked s) j (job s ! j)) \<and>
     (\<forall>j \<in> set (concat (queue s)) \<union> set R. j < length (job s) \<longrightarrow> due (job s ! j) \<le> currTime s) \<and>
     (\<forall>(t, j, ty) \<in> set (ioDone s). j < length (job s) \<longrightarrow> T \<le> t \<longrightarrow> due (job s ! j) \<le> t)"

text \<open>What the history is about does not change outside a tick.\<close>

lemma timed_cong:
  assumes "timed T R s" "length (job s') = length (job s)"
    and "\<And>j. j < length (job s) \<Longrightarrow> startTime (job s' ! j) = startTime (job s ! j) \<and> runTime (job s' ! j) = runTime (job s ! j) \<and>
      timeLeft (job s' ! j) = timeLeft (job s ! j) \<and> firstRun (job s' ! j) = firstRun (job s ! j) \<and> endTime (job s' ! j) = endTime (job s ! j)"
    and "\<And>j. j < length (job s) \<Longrightarrow> j \<in> set (concat (queue s')) \<union> set R' \<Longrightarrow> j \<in> set (concat (queue s)) \<union> set R \<or>
      (\<exists>ty. (currTime s, j, ty) \<in> set (ioDone s) \<and> T \<le> currTime s)"
    and "currTime s' = currTime s" "ioDone s' = ioDone s" "ticked s' = ticked s" "T \<le> T'"
  shows "timed T' R' s'"
proof -
  have due: "due (job s' ! j) = due (job s ! j)" if "j < length (job s)" for j using assms(3)[OF that] by (simp add: due_def)
  have "due (job s ! j) \<le> currTime s" if "j < length (job s)" "j \<in> set (concat (queue s')) \<union> set R'" for j
    using assms(4)[OF that] assms(1) that(1) by (auto simp: timed_def)
  moreover have "history (currTime s') (ticked s') j (job s' ! j)" if "j < length (job s)" for j
    using assms(1) that assms(3)[OF that] assms(5,7) by (simp add: timed_def history_def)
  moreover have "\<forall>(t, j, ty) \<in> set (ioDone s'). j < length (job s) \<longrightarrow> T' \<le> t \<longrightarrow> due (job s ! j) \<le> t"
    using assms(1,6,8) by (fastforce simp: timed_def)
  ultimately show ?thesis using assms(2,5) due by (fastforce simp: timed_def)
qed

lemma timed_boost:
  assumes p: "placed cf T [] s" and t: "timed T [] s"
  shows "timed T [] (boost_step cf s)"
proof (cases "boost cf > 0 \<and> currTime s \<noteq> 0 \<and> currTime s mod boost cf = 0")
  case True
  have mem: "\<forall>j \<in> set (concat (queue s)). \<not> doingIO (job s ! j)"
    using p by (auto simp: placed_def in_set_conv_nth[of _ "queue s"])
  have "mset (concat (boost_queues cf (job s) (queue s))) = mset (concat (queue s))"
    using boost_queues_props[of "queue s" cf "job s"] p mem by (auto simp: placed_def)
  from mset_eq_setD[OF this] True show ?thesis
    by (intro timed_cong[OF t]) (auto simp: boost_step_def boost_jobs_def)
qed (use t in \<open>auto simp: boost_step_def\<close>)

lemma timed_events: "timed (currTime s) [] s \<Longrightarrow> timed (currTime s + 1) (map fst (events_at s (currTime s))) s"
  by (rule timed_cong) (auto simp: events_at_def)

lemma timed_io_step:
  assumes "timed T (j # R) s" "io_step cf s (j, ty) = Inr s'"
  shows "timed T R s'"
proof (rule timed_cong[OF assms(1)])
  fix k assume "k \<in> set (concat (queue s')) \<union> set R"
  moreover have "set (concat (queue s')) \<subseteq> set (concat (queue s)) \<union> {j}"
    using assms(2) set_concat_update(1)[of "currPri (job s ! j)" "queue s"] set_concat_update(2)[of "queue s" "currPri (job s ! j)"]
    by (fastforce simp: io_step_def bnd_eq_Inr_iff key_get_eq_Inr_iff split: if_splits)
  ultimately show "k \<in> set (concat (queue s)) \<union> set (j # R) \<or> (\<exists>ty. (currTime s, k, ty) \<in> set (ioDone s) \<and> T \<le> currTime s)"
    by auto
qed (use assms(2) in \<open>auto simp: io_step_def bnd_eq_Inr_iff key_get_eq_Inr_iff nth_list_update\<close>)

lemma timed_io_steps:
  "timed T (map fst es) s \<Longrightarrow> foldres (io_step cf) s es = Inr s' \<Longrightarrow> timed T [] s'"
proof (induction es arbitrary: s)
  case (Cons e es)
  from Cons.prems(2) obtain t where t: "io_step cf s e = Inr t" "foldres (io_step cf) t es = Inr s'"
    by (auto simp: bnd_eq_Inr_iff)
  have "timed T (map fst es) t" using timed_io_step[of T "fst e" "map fst es" s cf "snd e" t] Cons.prems(1) t(1) by simp
  from Cons.IH[OF this t(2)] show ?case .
qed simp

lemma timed_idle: "timed (currTime s + 1) [] s \<Longrightarrow> timed (currTime s + 1) [] (s\<lparr>currTime := currTime s + 1\<rparr>)"
  by (fastforce simp: timed_def history_def)

lemma timed_run:
  assumes t: "timed (currTime s + 1) [] s" and p: "placed cf (currTime s + 1) [] s"
    and q: "queue s ! cq = cj # rest" "cq < length (queue s)"
    and cj: "cj < length (job s)" "0 < timeLeft (job s ! cj)"
    and e: "effect cf s cj cq s' b' oc"
  shows "timed (currTime s + 1) [] s'"
proof -
  have io: "0 \<le> ioTime cf" using p by (simp add: placed_def)
  have e': "job s' = (job s)[cj := b']" "currTime s' = currTime s + 1" "ticked s' = ticked s @ [(currTime s, cj, cq)]"
      "ioDone s' = ioDone s @ (if oc = Blocked then [(currTime s + 1 + ioTime cf, cj, IO_DONE)] else [])"
    using e by (simp_all add: effect_def Let_def)
  have mem: "cj \<in> set (concat (queue s))" using q by (metis list.set_intros(1) nth_mem set_concat UN_I)
  have due: "due (job s ! cj) \<le> currTime s" using t mem cj unfolding timed_def by blast
  have h: "history (currTime s) (ticked s) cj (job s ! cj)" using t cj by (simp add: timed_def)
  have due': "due b' = due (job s ! cj) + 1" using e by (simp add: effect_def Let_def due_def)
  have f: "startTime b' = startTime (job s ! cj)" "runTime b' = runTime (job s ! cj)" "timeLeft b' = timeLeft (job s ! cj) - 1"
      "firstRun b' = (if firstRun (job s ! cj) = -1 then currTime s else firstRun (job s ! cj))"
      "timeLeft (job s ! cj) = 1 \<longrightarrow> endTime b' = Some (currTime s + 1)"
    using e by (auto simp: effect_def Let_def)
  have "history (currTime s') (ticked s') cj b'"
    using h cj(2) due unfolding history_def f(1-4) e'(2,3) due_def by (simp add: f(5)) auto
  moreover have "history (currTime s') (ticked s') j (job s ! j)" if "j < length (job s)" "j \<noteq> cj" for j
    using t that e' by (fastforce simp: timed_def history_def)
  ultimately have "\<forall>j < length (job s'). history (currTime s') (ticked s') j (job s' ! j)"
    using e'(1) cj by (simp add: nth_list_update)
  moreover have "set (concat (queue s')) \<subseteq> set (concat (queue s))"
    using arg_cong[OF queue_run[OF e q], of set_mset] by (auto split: if_splits)
  then have "due (job s ! j) \<le> currTime s" if "j \<in> set (concat (queue s'))" "j < length (job s')" for j
    using t e'(1) that unfolding timed_def by auto
  then have "due (job s' ! j) \<le> currTime s'" if "j \<in> set (concat (queue s'))" "j < length (job s')" for j
    using e'(1,2) due due' that cj(1) by (cases "j = cj") fastforce+
  then have "\<forall>j \<in> set (concat (queue s')). j < length (job s') \<longrightarrow> due (job s' ! j) \<le> currTime s'" by blast
  moreover have "cj \<notin> set (pending (currTime s + 1) s)" using placed_members(2)[OF p] mem by auto
  then have "(t', cj, ty) \<notin> set (ioDone s)" if "currTime s + 1 \<le> t'" for t' ty
    using that by (force simp: pending_def)
  then have "due (job s' ! j) \<le> t'" if "(t', j, ty) \<in> set (ioDone s')" "j < length (job s')" "currTime s + 1 \<le> t'" for t' j ty
  proof (cases "(t', j, ty) \<in> set (ioDone s)")
    case True
    then have "j \<noteq> cj" using \<open>\<And>t' ty. currTime s + 1 \<le> t' \<Longrightarrow> (t', cj, ty) \<notin> set (ioDone s)\<close> that(3) by blast
    then have "job s' ! j = job s ! j" by (simp add: e'(1))
    moreover have "due (job s ! j) \<le> t'" using t True that(2,3) unfolding timed_def by (fastforce simp: e'(1))
    ultimately show ?thesis by simp
  next
    case False
    then have "j = cj" "t' = currTime s + 1 + ioTime cf" using that(1) e'(4) by (auto split: if_splits)
    then show ?thesis using due due' io cj(1) by (simp add: e'(1))
  qed
  ultimately show ?thesis by (auto simp: timed_def)
qed

section \<open>The loop ends\<close>

definition horizon :: "mlfq \<Rightarrow> int" where
  "horizon s = fold max (map fst (ioDone s)) 0"

text \<open>Rounds that are left: one per tick a job needs, and between two of them no more than the I/O time or
  the time to the last event known.\<close>

definition rounds :: "mconf \<Rightarrow> mlfq \<Rightarrow> nat" where
  "rounds cf s = nat (sum_list (map timeLeft (job s)) * (ioTime cf + 2)) + nat (horizon s - currTime s)"

lemma horizon_Max: "horizon s = Max (insert 0 (fst ` set (ioDone s)))"
proof -
  have "fold max xs a = Max (insert a (set xs))" for xs :: "int list" and a
  proof (induction xs arbitrary: a)
    case (Cons x xs)
    then show ?case by (cases "xs = []") (simp_all add: Max_insert2 max.commute max.left_commute)
  qed simp
  then show ?thesis by (simp add: horizon_def)
qed

lemma horizon_event: "(t, j, ty) \<in> set (ioDone s) \<Longrightarrow> t \<le> horizon s"
  by (force simp: horizon_Max intro: Max_ge)

lemma horizon_append: "ioDone s' = ioDone s @ [(t, j, ty)] \<Longrightarrow> horizon s' = max (horizon s) t"
  by (simp add: horizon_def max.commute)

lemma horizon_cong: "ioDone s' = ioDone s \<Longrightarrow> horizon s' = horizon s"
  by (simp add: horizon_def)

lemma sum_timeLeft_update:
  "j < length js \<Longrightarrow> sum_list (map timeLeft (js[j := b])) = sum_list (map timeLeft js) + timeLeft b - timeLeft (js ! j)"
  by (simp add: map_update sum_list_update_int)

lemma rounds_idle:
  assumes p: "placed cf (currTime s + 1) [] s" and f: "FindQueue cf s = None" and u: "mlfq_unfinished s"
  shows "rounds cf (s\<lparr>currTime := currTime s + 1\<rparr>) < rounds cf s"
proof -
  have "\<forall>q < length (queue s). queue s ! q = []"
    using find_from_None[OF f[unfolded FindQueue_def]] p by (auto simp: placed_def hiQueue_def)
  then have C: "concat (queue s) = []" by (auto simp: concat_eq_Nil_conv in_set_conv_nth)
  have m: "mset (concat (queue s)) + mset (pending (currTime s + 1) s) = mset (unfinished (job s))"
    using p by (simp add: placed_def)
  have "unfinished (job s) \<noteq> []" using p u by (auto simp: placed_def mlfq_unfinished_def)
  with m[unfolded C] have "pending (currTime s + 1) s \<noteq> []" by auto
  then obtain x where "x \<in> set (pending (currTime s + 1) s)" by fastforce
  then obtain t j ty where "(t, j, ty) \<in> set (ioDone s)" "currTime s + 1 \<le> t"
    by (auto simp: pending_def)
  then have "currTime s < horizon s" using horizon_event by fastforce
  moreover have "horizon (s\<lparr>currTime := currTime s + 1\<rparr>) = horizon s" by (simp add: horizon_def)
  ultimately show ?thesis by (simp add: rounds_def)
qed

lemma rounds_run:
  assumes p: "placed cf T [] s" and cj: "cj < length (job s)" "0 < timeLeft (job s ! cj)" and e: "effect cf s cj cq s' b' oc"
  shows "rounds cf s' < rounds cf s"
proof -
  define S where "S = sum_list (map timeLeft (job s))"
  have io: "0 \<le> ioTime cf" using p by (simp add: placed_def)
  have S': "sum_list (map timeLeft (job s')) = S - 1"
    using e cj sum_timeLeft_update[OF cj(1), of b'] by (simp add: effect_def Let_def S_def)
  have "timeLeft (job s ! cj) \<le> S"
    unfolding S_def by (rule member_le_sum_int) (use p cj in \<open>auto simp: placed_def\<close>)
  then have S: "0 < S" using cj(2) by simp
  have "horizon s' \<le> max (horizon s) (currTime s + 1 + ioTime cf)"
    using e horizon_append[of s' s] horizon_cong[of s' s] by (cases "oc = Blocked") (auto simp: effect_def Let_def)
  moreover have "currTime s' = currTime s + 1" using e by (simp add: effect_def Let_def)
  ultimately have "nat (horizon s' - currTime s') \<le> nat (horizon s - currTime s) + nat (ioTime cf)" using io by linarith
  moreover have "S * (ioTime cf + 2) = (S - 1) * (ioTime cf + 2) + (ioTime cf + 2)" by (simp add: algebra_simps)
  then have "nat (S * (ioTime cf + 2)) = nat ((S - 1) * (ioTime cf + 2)) + nat (ioTime cf + 2)"
    using S io by (simp only: nat_add_distrib mult_nonneg_nonneg)
  ultimately show ?thesis using io S' by (simp add: rounds_def S_def)
qed

definition mlfq_inv :: "mconf \<Rightarrow> mlfq \<Rightarrow> bool" where
  "mlfq_inv cf s \<longleftrightarrow> placed cf (currTime s) [] s \<and> timed (currTime s) [] s"

lemma boost_same [simp]: "currTime (boost_step cf s) = currTime s" "ioDone (boost_step cf s) = ioDone s"
  "length (job (boost_step cf s)) = length (job s)" "finishedJobs (boost_step cf s) = finishedJobs s"
  "map timeLeft (job (boost_step cf s)) = map timeLeft (job s)"
  "map startTime (job (boost_step cf s)) = map startTime (job s)" "map runTime (job (boost_step cf s)) = map runTime (job s)"
  by (auto simp: boost_step_def boost_jobs_def)

lemma io_steps_same:
  "foldres (io_step cf) s es = Inr s' \<Longrightarrow> length (job s') = length (job s) \<and> finishedJobs s' = finishedJobs s \<and>
     map timeLeft (job s') = map timeLeft (job s) \<and> map startTime (job s') = map startTime (job s) \<and>
     map runTime (job s') = map runTime (job s)"
proof (induction es arbitrary: s)
  case (Cons e es)
  from Cons.prems obtain t where t: "io_step cf s e = Inr t" "foldres (io_step cf) t es = Inr s'"
    by (auto simp: bnd_eq_Inr_iff)
  have "length (job t) = length (job s) \<and> finishedJobs t = finishedJobs s \<and> map timeLeft (job t) = map timeLeft (job s) \<and>
      map startTime (job t) = map startTime (job s) \<and> map runTime (job t) = map runTime (job s)"
    using t(1) by (auto simp: io_step_def bnd_eq_Inr_iff key_get_eq_Inr_iff map_update list_update_same_conv split: prod.splits)
  with Cons.IH[OF t(2)] show ?case by simp
qed simp

text \<open>The state in which the next job is chosen.\<close>

lemma ready_state:
  assumes "mlfq_inv cf s"
  obtains t where "io_steps cf (boost_step cf s) = Inr t" "placed cf (currTime t + 1) [] t" "timed (currTime t + 1) [] t"
    "currTime t = currTime s" "rounds cf t = rounds cf s" "mlfq_unfinished t = mlfq_unfinished s"
    "map startTime (job t) = map startTime (job s)" "map runTime (job t) = map runTime (job s)"
proof -
  let ?b = "boost_step cf s" and ?es = "events_at (boost_step cf s) (currTime s)"
  have p: "placed cf (currTime s + 1) (map fst ?es) ?b"
    using assms placed_events[OF placed_boost] by (simp add: mlfq_inv_def)
  have "timed (currTime ?b + 1) (map fst (events_at ?b (currTime ?b))) ?b"
    by (rule timed_events) (use assms timed_boost in \<open>simp add: mlfq_inv_def\<close>)
  then have t: "timed (currTime s + 1) (map fst ?es) ?b" by simp
  obtain u where u: "foldres (io_step cf) ?b ?es = Inr u" "placed cf (currTime s + 1) [] u" "currTime u = currTime s" "ioDone u = ioDone s"
    using placed_io_steps[OF p] by auto
  have "rounds cf u = rounds cf s"
    using io_steps_same[OF u(1)] u(3,4) by (simp add: rounds_def horizon_def)
  moreover have "mlfq_unfinished u = mlfq_unfinished s" using io_steps_same[OF u(1)] by (simp add: mlfq_unfinished_def)
  ultimately show ?thesis
    using that[of u] u timed_io_steps[OF t u(1)] io_steps_same[OF u(1)] by (simp add: io_steps_def)
qed

lemma mlfq_step_ok:
  assumes "mlfq_inv cf s" "mlfq_unfinished s"
  shows "\<exists>s'. mlfq_step cf s = Inr s' \<and> mlfq_inv cf s' \<and> rounds cf s' < rounds cf s \<and>
    map startTime (job s') = map startTime (job s) \<and> map runTime (job s') = map runTime (job s)"
proof -
  obtain t where t: "io_steps cf (boost_step cf s) = Inr t" "placed cf (currTime t + 1) [] t" "timed (currTime t + 1) [] t"
    "rounds cf t = rounds cf s" "mlfq_unfinished t"
    "map startTime (job t) = map startTime (job s)" "map runTime (job t) = map runTime (job s)"
    using ready_state[OF assms(1)] assms(2) by metis
  show ?thesis
  proof (cases "FindQueue cf t")
    case None
    let ?s = "t\<lparr>currTime := currTime t + 1\<rparr>"
    have "placed cf (currTime t + 1) [] ?s" using t(2) by (simp add: placed_def pending_def)
    then have "mlfq_inv cf ?s" using timed_idle[OF t(3)] by (simp add: mlfq_inv_def)
    then show ?thesis using t(1,4,6,7) None rounds_idle[OF t(2) None t(5)] by (simp add: mlfq_step_def)
  next
    case (Some cq)
    obtain cj rest where c: "queue t ! cq = cj # rest" "cq < length (queue t)" "cj < length (job t)"
      "currPri (job t ! cj) = cq" "0 < timeLeft (job t ! cj)" "\<not> doingIO (job t ! cj)"
      using FindQueue_placed[OF t(2) Some] .
    obtain s' b' oc where r: "run_job cf t cj cq = Inr s'" "effect cf t cj cq s' b' oc"
      using run_job_effect[OF c(3,4,5,2)] by blast
    have now: "currTime s' = currTime t + 1" using r(2) by (simp add: effect_def Let_def)
    have "mlfq_inv cf s'"
      using placed_run[OF t(2) c(1,2,3,5,6) r(2)] timed_run[OF t(3,2) c(1,2,3,5) r(2)] now by (simp add: mlfq_inv_def)
    moreover have "mlfq_step cf s = Inr s'" using t(1) Some c(1) r(1) by (simp add: mlfq_step_def)
    moreover have "map startTime (job s') = map startTime (job t)" "map runTime (job s') = map runTime (job t)"
      using r(2) c(3) by (simp_all add: effect_def Let_def map_update list_update_same_conv)
    ultimately show ?thesis using rounds_run[OF t(2) c(3,5) r(2)] t(4,6,7) by simp
  qed
qed

text \<open>\<open>A\<close> and \<open>B\<close> are the start and run times of the workload.\<close>

interpretation scheduler: terminating_loop
  "\<lambda>s. mlfq_inv cf s \<and> map startTime (job s) = A \<and> map runTime (job s) = B" mlfq_unfinished "mlfq_step cf" "rounds cf" for cf A B
  by unfold_locales (use mlfq_step_ok in force)

section \<open>Loading\<close>

definition valid_conf :: "mconf \<Rightarrow> bool" where
  "valid_conf cf \<longleftrightarrow> 0 < numQueues cf \<and> length (allotment cf) = numQueues cf \<and> 0 \<le> ioTime cf"

text \<open>A workload: start times, run times (positive) and I/O frequencies.\<close>

definition load_specs :: "mconf \<Rightarrow> (int \<times> int \<times> int) list \<Rightarrow> mlfq res" where
  "load_specs cf specs = foldres (add_job cf) (mlfq_init cf) specs"

definition valid_specs :: "(int \<times> int \<times> int) list \<Rightarrow> bool" where
  "valid_specs specs \<longleftrightarrow> (\<forall>(start, run, io) \<in> set specs. 0 \<le> start \<and> 0 < run)"

lemma unfinished_append: "unfinished (js @ [b]) = unfinished js @ (if 0 < timeLeft b then [length js] else [])"
  by (auto simp: unfinished_def nth_append intro: filter_cong)

lemma add_job_inv:
  assumes cf: "valid_conf cf" and s: "mlfq_inv cf s" "currTime s = 0" "ticked s = []" "finishedJobs s = 0"
    and spec: "0 \<le> start" "0 < run"
  shows "\<exists>s'. add_job cf s (start, run, io) = Inr s' \<and> mlfq_inv cf s' \<and> currTime s' = 0 \<and> ticked s' = [] \<and> finishedJobs s' = 0 \<and>
    map startTime (job s') = map startTime (job s) @ [start] \<and> map runTime (job s') = map runTime (job s) @ [run]"
proof -
  define b where "b = \<lparr>currPri = hiQueue cf, ticksLeft = quantum cf ! hiQueue cf, allotLeft = allotment cf ! hiQueue cf,
    startTime = start, runTime = run, timeLeft = run, ioFreq = io, doingIO = False, firstRun = -1, endTime = None\<rparr>"
  let ?s = "s\<lparr>job := job s @ [b], ioDone := ioDone s @ [(start, length (job s), JOB_BEGINS)]\<rparr>"
  have add: "add_job cf s (start, run, io) = Inr ?s"
    using cf by (simp add: add_job_def new_job_def valid_conf_def b_def)
  have p: "placed cf 0 [] s" and t: "timed 0 [] s" using s by (simp_all add: mlfq_inv_def)
  have hi: "hiQueue cf < numQueues cf" using cf by (simp only: valid_conf_def hiQueue_def) linarith
  have mem: "j < length (job s)" if "q < numQueues cf" "j \<in> set (queue s ! q)" for q j
  proof -
    have "j \<in> set (concat (queue s))" using that set_concat_update(1)[of q "queue s"] p by (auto simp: placed_def)
    then show ?thesis using placed_members(1)[OF p] by blast
  qed
  have "pending 0 ?s = pending 0 s @ [length (job s)]" using spec by (simp add: pending_def)
  moreover have "unfinished (job ?s) = unfinished (job s) @ [length (job s)]" using spec by (simp add: unfinished_append b_def)
  moreover have "\<forall>q < numQueues cf. \<forall>j \<in> set (queue ?s ! q). currPri (job ?s ! j) = q \<and> \<not> doingIO (job ?s ! j)"
    using p mem by (simp add: placed_def nth_append)
  moreover have "\<forall>c \<in> set (job ?s). currPri c < numQueues cf \<and> 0 \<le> timeLeft c"
    using p spec hi by (simp add: placed_def b_def)
  ultimately have "placed cf 0 [] ?s" using p by (simp add: placed_def)
  moreover have "timed 0 [] ?s"
  proof -
    have "history 0 [] j ((job s @ [b]) ! j)" if "j < length (job s @ [b])" for j
    proof (cases "j < length (job s)")
      case True
      then have "history (currTime s) (ticked s) j (job s ! j)" using t unfolding timed_def by blast
      then show ?thesis using True s(2,3) by (simp add: nth_append)
    next
      case False
      then show ?thesis using that spec by (simp add: nth_append history_def b_def)
    qed
    moreover have "due ((job s @ [b]) ! j) \<le> 0" if "j \<in> set (concat (queue s))" for j
    proof -
      have "j < length (job s)" using that placed_members(1)[OF p] by blast
      moreover from this have "due (job s ! j) \<le> 0" using t that s(2) unfolding timed_def by auto
      ultimately show ?thesis by (simp add: nth_append)
    qed
    moreover have ev: "due ((job s @ [b]) ! j) \<le> t'"
      if "(t', j, ty) \<in> set (ioDone s @ [(start, length (job s), JOB_BEGINS)])" "0 \<le> t'" for t' j ty
    proof (cases "(t', j, ty) \<in> set (ioDone s)")
      case True
      then have "j \<in> set (pending 0 s)" using that(2) by (force simp: pending_def)
      then have "j < length (job s)" using placed_members(1)[OF p] by blast
      moreover from this have "due (job s ! j) \<le> t'" using t True that(2) unfolding timed_def by fastforce
      ultimately show ?thesis by (simp add: nth_append)
    next
      case False
      then show ?thesis using that(1) by (simp add: due_def b_def)
    qed
    moreover have "\<forall>(t', j, ty) \<in> set (ioDone ?s). j < length (job ?s) \<longrightarrow> 0 \<le> t' \<longrightarrow> due (job ?s ! j) \<le> t'"
      using ev by fastforce
    ultimately show ?thesis using s(2,3) unfolding timed_def by simp
  qed
  ultimately show ?thesis using add s by (simp add: mlfq_inv_def b_def)
qed

lemma load_specs_ok:
  assumes "valid_conf cf" "valid_specs specs"
  shows "\<exists>s. load_specs cf specs = Inr s \<and> mlfq_inv cf s \<and> finishedJobs s = 0 \<and>
    map startTime (job s) = map fst specs \<and> map runTime (job s) = map (fst \<circ> snd) specs"
proof -
  have "\<exists>t. foldres (add_job cf) s specs = Inr t \<and> mlfq_inv cf t \<and> finishedJobs t = 0 \<and>
      map startTime (job t) = map startTime (job s) @ map fst specs \<and> map runTime (job t) = map runTime (job s) @ map (fst \<circ> snd) specs"
    if "mlfq_inv cf s" "currTime s = 0" "ticked s = []" "finishedJobs s = 0" for s
    using that assms(2)
  proof (induction specs arbitrary: s)
    case (Cons sp specs)
    obtain start run io where sp: "sp = (start, run, io)" by (cases sp)
    obtain u where u: "add_job cf s sp = Inr u" "mlfq_inv cf u" "currTime u = 0" "ticked u = []" "finishedJobs u = 0"
      "map startTime (job u) = map startTime (job s) @ [start]" "map runTime (job u) = map runTime (job s) @ [run]"
      using add_job_inv[OF assms(1) Cons.prems(1-4), of start run io] Cons.prems(5) by (auto simp: sp valid_specs_def)
    have "valid_specs specs" using Cons.prems(5) by (simp add: valid_specs_def)
    from Cons.IH[OF u(2-5) this] u(1,6,7) show ?case by (auto simp: sp)
  qed simp
  moreover have "mlfq_inv cf (mlfq_init cf)"
  proof -
    have "concat (replicate n []) = []" for n by (induction n) auto
    then show ?thesis using assms(1)
      by (simp add: mlfq_inv_def placed_def timed_def mlfq_init_def valid_conf_def pending_def unfinished_def)
  qed
  ultimately show ?thesis by (fastforce simp: load_specs_def mlfq_init_def)
qed

text \<open>A workload written the way the option \<^verbatim>\<open>-l\<close> takes it.\<close>

definition show_spec :: "int \<times> int \<times> int \<Rightarrow> string" where
  "show_spec sp = (case sp of (a, b, c) \<Rightarrow> join_with CHR '','' [str_int a, str_int b, str_int c])"

lemma job_spec_show: "job_spec (show_spec sp) = Inr sp"
proof -
  obtain a b c where sp: "sp = (a, b, c)" by (cases sp)
  have "split_on CHR '','' (show_spec sp) = [str_int a, str_int b, str_int c]"
    unfolding show_spec_def sp prod.case by (rule split_join) (auto simp: str_int_no_sep)
  then show ?thesis by (simp add: job_spec_def sp int_of_string_str_int)
qed

lemma load_jobs_show:
  assumes "specs \<noteq> []"
  shows "load_jobs cf (join_with CHR '':'' (map show_spec specs)) draws = load_specs cf specs"
proof -
  have "show_spec sp \<noteq> []" "CHR '':'' \<notin> set (show_spec sp)" for sp
    by (auto simp: show_spec_def str_int_no_sep split: prod.splits)
  then have split: "split_on CHR '':'' (join_with CHR '':'' (map show_spec specs)) = map show_spec specs"
    and ne: "join_with CHR '':'' (map show_spec specs) \<noteq> []"
    using assms by (auto intro!: split_join simp: neq_Nil_conv) (metis join_with.simps(2,3) append_is_Nil_conv list.exhaust)+
  have "foldres (\<lambda>s j. bnd (job_spec j) (add_job cf s)) s (map show_spec specs) = foldres (add_job cf) s specs" for s
    by (induction specs arbitrary: s) (auto simp: job_spec_show)
  then show ?thesis using split ne by (simp add: load_jobs_def load_specs_def)
qed

section \<open>Properties\<close>

text \<open>C9. For every configuration with at least one queue and every list of jobs (as the option takes it) with a positive run time, the
  scheduler ends, after at most \<open>rounds\<close> rounds of the loop, with every job finished: neither of the two
  internal checks ever aborts, no dictionary access fails, each job gets exactly the ticks it asked for, none before its
  start, so that its turnaround is at least its run time and its response time is not negative.\<close>

theorem mlfq_completes:
  assumes "valid_conf cf" "valid_specs specs" "specs \<noteq> []"
  shows "\<exists>s0. load_jobs cf (join_with CHR '':'' (map show_spec specs)) draws = Inr s0 \<and> (\<forall>n \<ge> rounds cf s0. \<exists>s. mlfq_run cf n s0 = Inr s \<and>
    length (job s) = length specs \<and>
    (\<forall>j < length specs. \<forall>start run io. specs ! j = (start, run, io) \<longrightarrow>
       int (length (filter (\<lambda>(t, k, q). k = j) (ticked s))) = run \<and>
       (\<exists>e. endTime (job s ! j) = Some e \<and> run \<le> e - start \<and> start \<le> firstRun (job s ! j) \<and> firstRun (job s ! j) < e)))"
proof -
  obtain s0 where s0: "load_specs cf specs = Inr s0" "mlfq_inv cf s0" "map startTime (job s0) = map fst specs"
      "map runTime (job s0) = map (fst \<circ> snd) specs"
    using load_specs_ok[OF assms(1,2)] by blast
  show ?thesis
  proof (rule exI[of _ s0], intro conjI allI impI)
    fix n assume n: "rounds cf s0 \<le> n"
    obtain s where s: "mlfq_run cf n s0 = Inr s" "mlfq_inv cf s" "map startTime (job s) = map fst specs"
        "map runTime (job s) = map (fst \<circ> snd) specs" "\<not> mlfq_unfinished s"
      using scheduler.loop_ends[of cf s0 "map fst specs" "map (fst \<circ> snd) specs" n] s0(2-4) n by (auto simp: mlfq_run_def)
    have len: "length (job s) = length specs" using arg_cong[OF s(3), of length] by simp
    have "finishedJobs s + length (unfinished (job s)) = length (job s)" using s(2) by (simp add: mlfq_inv_def placed_def)
    then have "unfinished (job s) = []" using s(5) by (simp add: mlfq_unfinished_def flip: length_0_conv)
    then have left: "timeLeft (job s ! j) = 0" if "j < length (job s)" for j
    proof -
      have "0 \<le> timeLeft (job s ! j)" using s(2) nth_mem[OF that] by (simp add: mlfq_inv_def placed_def)
      moreover have "\<not> 0 < timeLeft (job s ! j)" using that \<open>unfinished (job s) = []\<close> set_unfinished[of j "job s"] by auto
      ultimately show ?thesis by simp
    qed
    have h: "history (currTime s) (ticked s) j (job s ! j)" if "j < length (job s)" for j
      using s(2) that by (simp add: mlfq_inv_def timed_def)
    have "int (length (filter (\<lambda>(t, k, q). k = j) (ticked s))) = run \<and>
       (\<exists>e. endTime (job s ! j) = Some e \<and> run \<le> e - start \<and> start \<le> firstRun (job s ! j) \<and> firstRun (job s ! j) < e)"
      if "j < length specs" "specs ! j = (start, run, io)" for j start run io
    proof -
      have "startTime (job s ! j) = start" "runTime (job s ! j) = run"
        using that len arg_cong[OF s(3), of "\<lambda>l. l ! j"] arg_cong[OF s(4), of "\<lambda>l. l ! j"] by simp_all
      with h[of j] left[of j] that(1) len show ?thesis by (auto simp: history_def)
    qed
    then show "\<exists>s. mlfq_run cf n s0 = Inr s \<and> length (job s) = length specs \<and>
      (\<forall>j < length specs. \<forall>start run io. specs ! j = (start, run, io) \<longrightarrow>
       int (length (filter (\<lambda>(t, k, q). k = j) (ticked s))) = run \<and>
       (\<exists>e. endTime (job s ! j) = Some e \<and> run \<le> e - start \<and> start \<le> firstRun (job s ! j) \<and> firstRun (job s ! j) < e))"
      using s(1) len by blast
  qed (use s0(1) load_jobs_show[OF assms(3)] in simp)
qed

theorem mlfq_completes_witness:
  "\<exists>s0. load_jobs \<lparr>quantum = [30, 20, 10], allotment = [1, 1, 1], boost = 40, ioTime = 5, stay = True, iobump = True\<rparr>
        ''0,12,3:4,9,0'' [] = Inr s0 \<and>
    (\<exists>n s. mlfq_run \<lparr>quantum = [30, 20, 10], allotment = [1, 1, 1], boost = 40, ioTime = 5, stay = True, iobump = True\<rparr> n s0 = Inr s \<and>
       (\<exists>e. endTime (job s ! 0) = Some e \<and> 12 \<le> e) \<and> (\<exists>e. endTime (job s ! 1) = Some e \<and> 9 \<le> e - 4))"
proof -
  let ?cf = "\<lparr>quantum = [30, 20, 10], allotment = [1, 1, 1], boost = 40, ioTime = 5, stay = True, iobump = True\<rparr>"
  let ?sp = "[(0, 12, 3), (4, 9, 0)] :: (int \<times> int \<times> int) list"
  have j: "join_with CHR '':'' (map show_spec ?sp) = ''0,12,3:4,9,0''" by code_simp
  have "valid_conf ?cf" "valid_specs ?sp" "?sp \<noteq> []" by (simp_all add: valid_conf_def valid_specs_def)
  from mlfq_completes[OF this, of "[]", unfolded j] obtain s0 where s0: "load_jobs ?cf ''0,12,3:4,9,0'' [] = Inr s0"
    "\<forall>n \<ge> rounds ?cf s0. \<exists>s. mlfq_run ?cf n s0 = Inr s \<and> length (job s) = length ?sp \<and>
      (\<forall>j < length ?sp. \<forall>start run io. ?sp ! j = (start, run, io) \<longrightarrow>
       int (length (filter (\<lambda>(t, k, q). k = j) (ticked s))) = run \<and>
       (\<exists>e. endTime (job s ! j) = Some e \<and> run \<le> e - start \<and> start \<le> firstRun (job s ! j) \<and> firstRun (job s ! j) < e))" by blast
  then obtain s where s: "mlfq_run ?cf (rounds ?cf s0) s0 = Inr s"
      "\<forall>j < length ?sp. \<forall>start run io. ?sp ! j = (start, run, io) \<longrightarrow>
       int (length (filter (\<lambda>(t, k, q). k = j) (ticked s))) = run \<and>
       (\<exists>e. endTime (job s ! j) = Some e \<and> run \<le> e - start \<and> start \<le> firstRun (job s ! j) \<and> firstRun (job s ! j) < e)" by blast
  have "\<exists>e. endTime (job s ! 0) = Some e \<and> 12 \<le> e" "\<exists>e. endTime (job s ! 1) = Some e \<and> 9 \<le> e - 4"
    using s(2)[rule_format, of 0 0 12 3] s(2)[rule_format, of 1 4 9 0] by auto
  with s0(1) s(1) show ?thesis by auto
qed

text \<open>C22. The scheduler is work-conserving and obeys the priorities: a round runs no job only if no job is ready once the
  boost and the events of the moment are done, and otherwise it runs for one tick the first job of the highest queue that is
  not empty; no job that is ready has a higher priority.\<close>

theorem mlfq_highest_first:
  assumes "mlfq_inv cf s" "mlfq_unfinished s"
  shows "\<exists>t s'. io_steps cf (boost_step cf s) = Inr t \<and> mlfq_step cf s = Inr s' \<and> currTime s' = currTime s + 1 \<and>
    (if concat (queue t) = [] then ticked s' = ticked t
     else \<exists>cq cj. ticked s' = ticked t @ [(currTime s, cj, cq)] \<and> cj = hd (queue t ! cq) \<and>
       currPri (job t ! cj) = cq \<and> (\<forall>j \<in> set (concat (queue t)). currPri (job t ! j) \<le> cq))"
proof -
  obtain t where t: "io_steps cf (boost_step cf s) = Inr t" "placed cf (currTime t + 1) [] t" "currTime t = currTime s"
    using ready_state[OF assms(1)] by metis
  have n: "length (queue t) = numQueues cf" "0 < numQueues cf" using t(2) by (simp_all add: placed_def)
  then have hi: "q < length (queue t) \<longleftrightarrow> q \<le> hiQueue cf" for q unfolding hiQueue_def by linarith
  show ?thesis
  proof (cases "FindQueue cf t")
    case None
    then have "\<forall>q < length (queue t). queue t ! q = []" using find_from_None[OF None[unfolded FindQueue_def]] hi by blast
    then have "concat (queue t) = []" by (auto simp: concat_eq_Nil_conv in_set_conv_nth)
    then show ?thesis using t None by (simp add: mlfq_step_def)
  next
    case (Some cq)
    obtain cj rest where c: "queue t ! cq = cj # rest" "cq < length (queue t)" "cj < length (job t)"
      "currPri (job t ! cj) = cq" "0 < timeLeft (job t ! cj)"
      using FindQueue_placed[OF t(2) Some] .
    obtain s' b' oc where r: "run_job cf t cj cq = Inr s'" "effect cf t cj cq s' b' oc"
      using run_job_effect[OF c(3,4,5,2)] by blast
    have "currPri (job t ! j) \<le> cq" if j: "j \<in> set (concat (queue t))" for j
    proof -
      obtain q where q: "q < length (queue t)" "j \<in> set (queue t ! q)" using j by (auto simp: in_set_conv_nth[of _ "queue t"])
      then have "currPri (job t ! j) = q" using t(2) by (simp add: placed_def)
      moreover have "\<not> cq < q" using find_from_Some[OF Some[unfolded FindQueue_def]] hi q by fastforce
      ultimately show ?thesis by simp
    qed
    moreover have "concat (queue t) \<noteq> []" using c(1,2) by (metis concat_eq_Nil_conv list.distinct(1) nth_mem)
    moreover have "mlfq_step cf s = Inr s'" using t(1) Some c(1) r(1) by (simp add: mlfq_step_def)
    moreover have "currTime s' = currTime s + 1" "ticked s' = ticked t @ [(currTime s, cj, cq)]"
      using r(2) t(3) by (simp_all add: effect_def Let_def)
    ultimately show ?thesis using t(1) c(1,4) by (intro exI[of _ t] exI[of _ s']) auto
  qed
qed

definition boost_conf :: mconf where
  "boost_conf = \<lparr>quantum = [10, 10], allotment = [1, 1], boost = 4, ioTime = 5, stay = False, iobump = False\<rparr>"

theorem mlfq_highest_first_witness:
  "\<exists>s0 t s'. load_specs boost_conf [(0, 8, 0), (0, 8, 0)] = Inr s0 \<and> io_steps boost_conf (boost_step boost_conf s0) = Inr t \<and>
     mlfq_step boost_conf s0 = Inr s' \<and> currTime s' = currTime s0 + 1"
proof -
  have v: "valid_conf boost_conf" "valid_specs [(0, 8, 0), (0, 8, 0)]" by (simp_all add: valid_conf_def valid_specs_def boost_conf_def)
  obtain s0 where s0: "load_specs boost_conf [(0, 8, 0), (0, 8, 0)] = Inr s0" "mlfq_inv boost_conf s0" "finishedJobs s0 = 0"
    "map startTime (job s0) = map fst [(0, 8, 0), (0, 8, 0 :: int)]"
    using load_specs_ok[OF v] by auto
  have "mlfq_unfinished s0" using s0(3) arg_cong[OF s0(4), of length] by (simp add: mlfq_unfinished_def)
  from mlfq_highest_first[OF s0(2) this] s0(1) show ?thesis by metis
qed

text \<open>The boost gives a job the number of its allotments instead of a quantum: with quantum 10, allotment 1 and a boost at
  time 4, the job that has run four ticks gets one more tick at the highest priority and is then sent to the lower queue.\<close>

theorem boost_cuts_quantum:
  "bnd (load_specs boost_conf [(0, 8, 0), (0, 8, 0)]) (\<lambda>s. bnd (mlfq_run boost_conf 20 s)
     (\<lambda>s. Inr (take 8 (map (\<lambda>(t, j, q). (j, q)) (ticked s))))) =
   Inr [(0, 1), (0, 1), (0, 1), (0, 1), (0, 1), (1, 1), (0, 0), (0, 0)]"
  by code_simp

end
