(* ===== verification/Paging_Policy.thy ===== *)
theory Paging_Policy
  imports Machines
begin

text \<open>
  The page-replacement simulator of \<^verbatim>\<open>ostep/homework/vm-beyondphys-policy/paging-policy.py\<close>: the list of pages
  in memory, the seven replacement policies and the counters. The random numbers of \<^verbatim>\<open>RAND\<close> and \<^verbatim>\<open>CLOCK\<close> are the
  list \<open>draws\<close>: a draw is the index \<^verbatim>\<open>int(random.random() * count)\<close>, so less than the number of pages in memory.
\<close>

section \<open>The simulator\<close>

datatype policy = FIFO | LRU | MRU | OPT | UNOPT | RAND | CLOCK

definition policy_of :: "string \<Rightarrow> policy res" where
  "policy_of s =
     (if s = ''FIFO'' then Inr FIFO else if s = ''LRU'' then Inr LRU else if s = ''MRU'' then Inr MRU
      else if s = ''OPT'' then Inr OPT else if s = ''RAND'' then Inr RAND else if s = ''UNOPT'' then Inr UNOPT
      else if s = ''CLOCK'' then Inr CLOCK else Inl SysExit)"

record pager =
  memory :: "int list"
  pcount :: nat
  hits :: nat
  miss :: nat
  refs :: "int \<rightharpoonup> int"
  draws :: "nat list"
  addrIndex :: nat

definition pager_init :: "nat list \<Rightarrow> pager" where
  "pager_init ds = \<lparr>memory = [], pcount = 0, hits = 0, miss = 0, refs = Map.empty, draws = ds, addrIndex = 0\<rparr>"

text \<open>The options \<^verbatim>\<open>-a\<close> and \<^verbatim>\<open>-f\<close>: a list of page numbers.\<close>

fun addr_list :: "string list \<Rightarrow> int list res" where
  "addr_list [] = Inr []"
| "addr_list (t # ts) = bnd (int_of_string t) (\<lambda>n. bnd (addr_list ts) (\<lambda>ns. Inr (n # ns)))"

text \<open>\<^verbatim>\<open>memory.pop(i)\<close>\<close>

definition pop_at :: "int \<Rightarrow> int list \<Rightarrow> (int \<times> int list) res" where
  "pop_at i xs =
     (let k = i + (if i < 0 then int (length xs) else 0)
      in if k < 0 \<or> int (length xs) \<le> k then Inl IndexError
         else Inr (xs ! nat k, remove_nth (nat k) xs))"

text \<open>When a page is referenced next: the index in the list of addresses, its length if never.\<close>

fun when_referenced :: "int \<Rightarrow> nat \<Rightarrow> int list \<Rightarrow> nat" where
  "when_referenced page i [] = i"
| "when_referenced page i (a # as) = (if page = a then i else when_referenced page (Suc i) as)"

definition opt_scan :: "int list \<Rightarrow> nat \<Rightarrow> int list \<Rightarrow> int \<times> int" where
  "opt_scan addrs i mem =
     fold (\<lambda>(idx, page) (maxReplace, replaceIdx).
        let w = int (when_referenced page (Suc i) (drop (Suc i) addrs))
        in if w \<ge> maxReplace then (w, int idx) else (maxReplace, replaceIdx)) (enumerate 0 mem) (-1, -1)"

definition unopt_scan :: "int list \<Rightarrow> nat \<Rightarrow> int list \<Rightarrow> int \<times> int" where
  "unopt_scan addrs i mem =
     fold (\<lambda>(idx, page) (minReplace, replaceIdx).
        let w = int (when_referenced page (Suc i) (drop (Suc i) addrs))
        in if w < minReplace then (w, int idx) else (minReplace, replaceIdx)) (enumerate 0 mem) (int (length addrs) + 1, -1)"

text \<open>The loop of \<^verbatim>\<open>CLOCK\<close>: draws a page until one with reference count 0 is found.\<close>

fun clock_loop :: "int list \<Rightarrow> (int \<rightharpoonup> int) \<Rightarrow> nat list \<Rightarrow> (int \<times> (int \<rightharpoonup> int) \<times> nat list) res" where
  "clock_loop mem rf [] = Inl NoReturn"
| "clock_loop mem rf (d # ds) =
     bnd (list_get mem (int d)) (\<lambda>page.
     bnd (dict_get rf page) (\<lambda>r.
       if r \<ge> 1 then clock_loop mem (rf(page \<mapsto> r - 1)) ds else Inr (page, rf, ds)))"

text \<open>The victim of a miss with a full memory, and the state without it.\<close>

definition replace :: "policy \<Rightarrow> int list \<Rightarrow> pager \<Rightarrow> (int \<times> pager) res" where
  "replace pol addrs s =
     (let pop = (\<lambda>i s. bnd (pop_at i (memory s)) (\<lambda>(v, mem). Inr (v, s\<lparr>memory := mem\<rparr>)))
      in case pol of
           FIFO \<Rightarrow> pop 0 s
         | LRU \<Rightarrow> pop 0 s
         | MRU \<Rightarrow> pop (int (pcount s) - 1) s
         | RAND \<Rightarrow> (case draws s of [] \<Rightarrow> Inl NoReturn | d # ds \<Rightarrow> pop (int d) (s\<lparr>draws := ds\<rparr>))
         | CLOCK \<Rightarrow> bnd (clock_loop (memory s) (refs s) (draws s)) (\<lambda>(v, rf, ds).
                    Inr (v, s\<lparr>memory := remove1 v (memory s), refs := rf(v := None), draws := ds\<rparr>))
         | OPT \<Rightarrow> pop (snd (opt_scan addrs (addrIndex s) (memory s))) s
         | UNOPT \<Rightarrow> pop (snd (unopt_scan addrs (addrIndex s) (memory s))) s)"

definition touch_ref :: "int \<Rightarrow> int \<Rightarrow> (int \<rightharpoonup> int) \<Rightarrow> (int \<rightharpoonup> int)" where
  "touch_ref clockbits n rf =
     (case rf n of None \<Rightarrow> rf(n \<mapsto> 1) | Some r \<Rightarrow> rf(n \<mapsto> (if r + 1 > clockbits then clockbits else r + 1)))"

definition lookup_page :: "policy \<Rightarrow> pager \<Rightarrow> int \<Rightarrow> pager" where
  "lookup_page pol s n =
     s\<lparr>hits := hits s + 1, memory := if pol = LRU \<or> pol = MRU then remove1 n (memory s) @ [n] else memory s\<rparr>"

definition access :: "policy \<Rightarrow> int \<Rightarrow> int \<Rightarrow> int list \<Rightarrow> pager \<Rightarrow> int \<Rightarrow> pager res" where
  "access pol cachesize clockbits addrs s n =
     bnd (if n \<in> set (memory s) then Inr (lookup_page pol s n)
          else
            let s = s\<lparr>miss := miss s + 1\<rparr>
            in bnd (if int (pcount s) = cachesize then replace pol addrs s else Inr (-1, s\<lparr>pcount := pcount s + 1\<rparr>)) (\<lambda>(victim, s).
                 let s = s\<lparr>memory := memory s @ [n]\<rparr>
                 in if victim \<noteq> -1 then asserting (victim \<notin> set (memory s)) (Inr s) else Inr s)) (\<lambda>s.
       Inr (s\<lparr>refs := touch_ref clockbits n (refs s), addrIndex := addrIndex s + 1\<rparr>))"

definition pager_run :: "policy \<Rightarrow> int \<Rightarrow> int \<Rightarrow> nat list \<Rightarrow> int list \<Rightarrow> pager res" where
  "pager_run pol cachesize clockbits ds addrs = foldres (access pol cachesize clockbits addrs) (pager_init ds) addrs"

section \<open>Demand paging\<close>

text \<open>The pages of the future: the distance to the next reference.\<close>

fun nxt :: "int \<Rightarrow> int list \<Rightarrow> nat" where
  "nxt p [] = 0"
| "nxt p (x # xs) = (if p = x then 0 else Suc (nxt p xs))"

lemma when_referenced_nxt: "when_referenced p i xs = i + nxt p xs"
  by (induction xs arbitrary: i) auto

text \<open>Pages with the same distance are never referenced again.\<close>

lemma nxt_tie: "nxt p xs = nxt q xs \<Longrightarrow> p \<noteq> q \<Longrightarrow> nxt p xs = length xs"
  by (induction xs) (auto split: if_splits)

definition furthest :: "int set \<Rightarrow> int list \<Rightarrow> int \<Rightarrow> bool" where
  "furthest M xs v \<longleftrightarrow> v \<in> M \<and> (\<forall>a \<in> M. nxt a xs \<le> nxt v xs)"

definition any_page :: "int set \<Rightarrow> int list \<Rightarrow> int \<Rightarrow> bool" where
  "any_page M xs v \<longleftrightarrow> v \<in> M"

text \<open>A run of some policy that brings in a page only when it is referenced, on a memory \<open>M\<close> all of whose frames are in use: it has
  \<open>m\<close> misses. On a miss, \<open>evict\<close> says which victims are allowed. A frame that is still empty is a page that is never
  referenced.\<close>

inductive demand :: "(int set \<Rightarrow> int list \<Rightarrow> int \<Rightarrow> bool) \<Rightarrow> int set \<Rightarrow> int list \<Rightarrow> nat \<Rightarrow> bool" for evict where
  demand_nil: "demand evict M [] 0"
| demand_hit: "x \<in> M \<Longrightarrow> demand evict M xs m \<Longrightarrow> demand evict M (x # xs) m"
| demand_miss: "x \<notin> M \<Longrightarrow> evict M xs v \<Longrightarrow> demand evict (insert x (M - {v})) xs m \<Longrightarrow> demand evict M (x # xs) (Suc m)"

inductive_cases demand_nilE: "demand evict M [] m"
inductive_cases demand_consE: "demand evict M (x # xs) m"

lemma demand_missD:
  assumes "demand evict M (x # xs) n" "x \<notin> M"
  obtains v n' where "n = Suc n'" "evict M xs v" "demand evict (insert x (M - {v})) xs n'"
  using demand_consE[OF assms(1)] assms(2) by metis

lemma demand_hitD: "demand evict M (x # xs) n \<Longrightarrow> x \<in> M \<Longrightarrow> demand evict M xs n"
  by (auto elim: demand_consE)

lemma demand_mono:
  assumes "demand e M xs n" "\<And>M xs v. e M xs v \<Longrightarrow> e' M xs v"
  shows "demand e' M xs n"
  using assms(1) by induction (auto intro: demand.intros assms(2))

abbreviation belady :: "int set \<Rightarrow> int list \<Rightarrow> nat \<Rightarrow> bool" where
  "belady \<equiv> demand furthest"

lemma furthest_exists: "finite M \<Longrightarrow> M \<noteq> {} \<Longrightarrow> \<exists>v. furthest M xs v"
proof -
  assume M: "finite M" "M \<noteq> {}"
  let ?n = "Max ((\<lambda>a. nxt a xs) ` M)"
  have "?n \<in> (\<lambda>a. nxt a xs) ` M" using M by (intro Max_in) auto
  then obtain v where "v \<in> M" "nxt v xs = ?n" by auto
  then show ?thesis using M by (auto simp: furthest_def intro!: exI[of _ v])
qed

lemma belady_exists: "finite M \<Longrightarrow> M \<noteq> {} \<Longrightarrow> \<exists>m. belady M xs m"
proof (induction xs arbitrary: M)
  case (Cons x xs)
  show ?case
  proof (cases "x \<in> M")
    case True
    then show ?thesis using Cons by (meson demand_hit)
  next
    case False
    obtain v where v: "furthest M xs v" using furthest_exists Cons.prems by blast
    obtain m where "belady (insert x (M - {v})) xs m" using Cons.IH[of "insert x (M - {v})"] Cons.prems by auto
    then show ?thesis using False v by (meson demand_miss)
  qed
qed (use demand_nil in blast)

section \<open>Belady's theorem\<close>

text \<open>Exchanging one page: a memory that has the page needed earlier costs no more, and no exchange costs more than one miss.
  Both are proved together, by induction on the references to come.\<close>

definition exchangeable :: "int list \<Rightarrow> bool" where
  "exchangeable xs \<longleftrightarrow> (\<forall>A p q m n. finite A \<longrightarrow> q \<notin> A \<longrightarrow> p \<notin> A \<longrightarrow> belady (insert q A) xs m \<longrightarrow> belady (insert p A) xs n \<longrightarrow>
     (nxt q xs \<le> nxt p xs \<longrightarrow> m \<le> n) \<and> m \<le> n + 1)"

lemma exchange:
  assumes "exchangeable xs" "belady M xs m" "belady N xs n" "M = insert q A" "N = insert p A" "finite A" "q \<notin> A" "p \<notin> A"
  shows "nxt q xs \<le> nxt p xs \<Longrightarrow> m \<le> n" "m \<le> n + 1"
  using assms unfolding exchangeable_def by blast+

lemma same_memory: "exchangeable xs \<Longrightarrow> belady M xs m \<Longrightarrow> belady M xs n \<Longrightarrow> finite M \<Longrightarrow> M \<noteq> {} \<Longrightarrow> m \<le> n"
proof -
  assume *: "exchangeable xs" "belady M xs m" "belady M xs n" "finite M" "M \<noteq> {}"
  then obtain q where "q \<in> M" by blast
  then have "M = insert q (M - {q})" by blast
  from exchange(1)[OF *(1-3) this this] show "m \<le> n" using *(4) by simp
qed

text \<open>Both memories miss.\<close>

lemma exchange_miss:
  assumes e: "exchangeable xs" and A: "finite A" "q \<notin> A" "p \<notin> A" "x \<notin> A" "x \<noteq> q" "x \<noteq> p"
    and u: "furthest (insert q A) xs u" "belady (insert x (insert q A - {u})) xs m"
    and v: "furthest (insert p A) xs v" "belady (insert x (insert p A - {v})) xs n"
  shows "(nxt q xs \<le> nxt p xs \<longrightarrow> m \<le> n) \<and> m \<le> n + 1"
proof -
  have umax: "nxt a xs \<le> nxt u xs" if "a \<in> insert q A" for a using u(1) that by (auto simp: furthest_def)
  consider "u = q" "v = p" | "u = q" "v \<in> A" "v \<noteq> p" | "u \<in> A" "u \<noteq> q" "v = p" | "u \<in> A" "v = u" "u \<noteq> q" "u \<noteq> p"
    | "u \<in> A" "v \<in> A" "u \<noteq> v" "u \<noteq> q" "v \<noteq> p"
    using u(1) v(1) A by (auto simp: furthest_def)
  then show ?thesis
  proof cases
    case 1
    then have "insert x (insert q A - {u}) = insert x A" "insert x (insert p A - {v}) = insert x A" using A by auto
    then show ?thesis using same_memory[OF e] u(2) v(2) A by fastforce
  next
    case 2
    have M: "insert x (insert q A - {u}) = insert v (insert x (A - {v}))" using 2 A by auto
    have N: "insert x (insert p A - {v}) = insert p (insert x (A - {v}))" using 2 A by auto
    have "v \<notin> insert x (A - {v})" "p \<notin> insert x (A - {v})" "finite (insert x (A - {v}))" using 2 A by auto
    from exchange[OF e u(2) v(2) M N this(3,1,2)] umax[of v] 2 show ?thesis by auto
  next
    case 3
    have M: "insert x (insert q A - {u}) = insert q (insert x (A - {u}))" using 3 A by auto
    have N: "insert x (insert p A - {v}) = insert u (insert x (A - {u}))" using 3 A by auto
    have "q \<notin> insert x (A - {u})" "u \<notin> insert x (A - {u})" "finite (insert x (A - {u}))" using 3 A by auto
    from exchange(1)[OF e u(2) v(2) M N this(3,1,2)] umax[of q] show ?thesis by auto
  next
    case 4
    have M: "insert x (insert q A - {u}) = insert q (insert x (A - {u}))" using 4 A by auto
    have N: "insert x (insert p A - {v}) = insert p (insert x (A - {u}))" using 4 A by auto
    have "q \<notin> insert x (A - {u})" "p \<notin> insert x (A - {u})" "finite (insert x (A - {u}))" using 4 A by auto
    from exchange[OF e u(2) v(2) M N this(3,1,2)] show ?thesis by auto
  next
    case 5
    let ?C = "insert x (A - {u, v})"
    obtain l where l: "belady (insert p (insert v ?C)) xs l" using belady_exists[of "insert p (insert v ?C)" xs] A by auto
    have M: "insert x (insert q A - {u}) = insert q (insert v ?C)" using 5 A by auto
    have N: "insert x (insert p A - {v}) = insert u (insert p ?C)" using 5 A by auto
    have N': "insert p (insert v ?C) = insert v (insert p ?C)" by auto
    have c: "q \<notin> insert v ?C" "p \<notin> insert v ?C" "v \<notin> insert p ?C" "u \<notin> insert p ?C" "finite (insert v ?C)" "finite (insert p ?C)"
      using 5 A by auto
    note 1 = exchange[OF e u(2) l M refl c(5,1,2)]
    have "l \<le> n" using exchange(1)[OF e l v(2) N' N c(6,3,4)] umax[of v] 5 by auto
    with 1 show ?thesis by auto
  qed
qed

lemma all_exchangeable: "exchangeable xs"
proof (induction xs)
  case Nil
  show ?case by (auto simp: exchangeable_def elim!: demand_nilE)
next
  case (Cons x xs)
  show ?case unfolding exchangeable_def
  proof (intro allI impI)
    fix A p q m n
    assume A: "finite A" "q \<notin> A" "p \<notin> A" and M: "belady (insert q A) (x # xs) m" and N: "belady (insert p A) (x # xs) n"
    consider "x \<in> A" | "x \<notin> A" "x = q" "x = p" | "x \<notin> A" "x = q" "x \<noteq> p" | "x \<notin> A" "x \<noteq> q" "x = p" | "x \<notin> A" "x \<noteq> q" "x \<noteq> p" by blast
    then show "(nxt q (x # xs) \<le> nxt p (x # xs) \<longrightarrow> m \<le> n) \<and> m \<le> n + 1"
    proof cases
      case 1
      then have "belady (insert q A) xs m" "belady (insert p A) xs n" using demand_hitD[OF M] demand_hitD[OF N] by simp_all
      from exchange[OF Cons.IH this refl refl A] 1 A show ?thesis by auto
    next
      case 2
      then have "belady (insert q A) xs m" "belady (insert p A) xs n" using demand_hitD[OF M] demand_hitD[OF N] by simp_all
      from exchange[OF Cons.IH this refl refl A] 2 show ?thesis by auto
    next
      case 3
      have M': "belady (insert q A) xs m" using demand_hitD[OF M] 3 by simp
      obtain v n' where v: "n = Suc n'" "furthest (insert p A) xs v" "belady (insert x (insert p A - {v})) xs n'"
        using demand_missD[OF N] 3 by (metis insert_iff)
      have "m \<le> n' + 1"
      proof (cases "v = p")
        case True
        then have "insert x (insert p A - {v}) = insert q A" using 3 A by auto
        then show ?thesis using same_memory[OF Cons.IH M'] v(3) A by fastforce
      next
        case False
        then have "v \<in> A" using v(2) by (auto simp: furthest_def)
        have 1: "insert q A = insert v (insert x (A - {v}))" "insert x (insert p A - {v}) = insert p (insert x (A - {v}))"
          using 3 False \<open>v \<in> A\<close> by auto
        have 2: "finite (insert x (A - {v}))" "v \<notin> insert x (A - {v})" "p \<notin> insert x (A - {v})" using 3 A \<open>v \<in> A\<close> by auto
        show ?thesis using exchange(2)[OF Cons.IH M' v(3) 1 2] .
      qed
      then show ?thesis using v(1) by simp
    next
      case 4
      have N': "belady (insert p A) xs n" using demand_hitD[OF N] 4 by simp
      obtain u m' where u: "m = Suc m'" "furthest (insert q A) xs u" "belady (insert x (insert q A - {u})) xs m'"
        using demand_missD[OF M] 4 by (metis insert_iff)
      have "m' \<le> n"
      proof (cases "u = q")
        case True
        then have "insert x (insert q A - {u}) = insert p A" using 4 A by auto
        then show ?thesis using same_memory[OF Cons.IH _ N'] u(3) A by fastforce
      next
        case False
        then have "u \<in> A" "nxt q xs \<le> nxt u xs" using u(2) by (auto simp: furthest_def)
        have 1: "insert x (insert q A - {u}) = insert q (insert x (A - {u}))" "insert p A = insert u (insert x (A - {u}))"
          using 4 False \<open>u \<in> A\<close> by auto
        have 2: "finite (insert x (A - {u}))" "q \<notin> insert x (A - {u})" "u \<notin> insert x (A - {u})" using 4 A \<open>u \<in> A\<close> by auto
        show ?thesis using exchange(1)[OF Cons.IH u(3) N' 1 2] \<open>nxt q xs \<le> nxt u xs\<close> by simp
      qed
      then show ?thesis using u(1) 4 by simp
    next
      case 5
      obtain u m' where u: "m = Suc m'" "furthest (insert q A) xs u" "belady (insert x (insert q A - {u})) xs m'"
        using demand_missD[OF M] 5 by (metis insert_iff)
      obtain v n' where v: "n = Suc n'" "furthest (insert p A) xs v" "belady (insert x (insert p A - {v})) xs n'"
        using demand_missD[OF N] 5 by (metis insert_iff)
      from exchange_miss[OF Cons.IH A 5 u(2,3) v(2,3)] u(1) v(1) 5 show ?thesis by auto
    qed
  qed
qed

theorem furthest_optimal:
  assumes "demand any_page M xs n" "belady M xs m" "finite M" "M \<noteq> {}"
  shows "m \<le> n"
  using assms
proof (induction M xs n arbitrary: m rule: demand.induct)
  case (demand_miss x M xs v n)
  obtain u m' where u: "m = Suc m'" "furthest M xs u" "belady (insert x (M - {u})) xs m'"
    using demand_missD[OF demand_miss.prems(1) demand_miss.hyps(1)] .
  obtain l where l: "belady (insert x (M - {v})) xs l" using belady_exists[of "insert x (M - {v})" xs] demand_miss.prems by auto
  have "l \<le> n" using demand_miss.IH[OF l] demand_miss.prems by simp
  moreover have "m' \<le> l"
  proof (cases "u = v")
    case True
    then show ?thesis using same_memory[OF all_exchangeable u(3)] l demand_miss.prems by auto
  next
    case False
    let ?C = "insert x (M - {u, v})"
    have "v \<in> M" "nxt v xs \<le> nxt u xs" "u \<in> M" using u(2) demand_miss.hyps(2) by (auto simp: furthest_def any_page_def)
    then have 1: "insert x (M - {u}) = insert v ?C" "insert x (M - {v}) = insert u ?C" using False by auto
    have 2: "finite ?C" "v \<notin> ?C" "u \<notin> ?C" using demand_miss \<open>v \<in> M\<close> \<open>u \<in> M\<close> by auto
    show ?thesis using exchange(1)[OF all_exchangeable u(3) l 1 2] \<open>nxt v xs \<le> nxt u xs\<close> by simp
  qed
  ultimately show ?case using u(1) by simp
qed (auto elim: demand_nilE dest: demand_hitD)

section \<open>One access\<close>

definition ref_range :: "int \<Rightarrow> (int \<rightharpoonup> int) \<Rightarrow> bool" where
  "ref_range cb rf \<longleftrightarrow> (\<forall>p r. rf p = Some r \<longrightarrow> 0 \<le> r \<and> r \<le> max 1 cb)"

definition pinv :: "nat \<Rightarrow> int \<Rightarrow> pager \<Rightarrow> bool" where
  "pinv k cb s \<longleftrightarrow> distinct (memory s) \<and> pcount s = length (memory s) \<and> length (memory s) \<le> k \<and>
     set (memory s) \<subseteq> dom (refs s) \<and> ref_range cb (refs s)"

text \<open>A victim the code may choose, with the rest of the state.\<close>

definition chosen :: "policy \<Rightarrow> int list \<Rightarrow> pager \<Rightarrow> int \<Rightarrow> pager \<Rightarrow> bool" where
  "chosen pol xs s v t \<longleftrightarrow> v \<in> set (memory s) \<and> memory t = remove1 v (memory s) \<and> pcount t = pcount s \<and>
     hits t = hits s \<and> miss t = miss s \<and> addrIndex t = addrIndex s \<and> (pol = OPT \<longrightarrow> furthest (set (memory s)) xs v)"

lemma pop_at_ok:
  assumes "distinct xs" "pop_at i xs = Inr (v, ys)"
  shows "v \<in> set xs \<and> ys = remove1 v xs"
proof -
  define k where "k = nat (i + (if i < 0 then int (length xs) else 0))"
  have k: "k < length xs" "v = xs ! k" "ys = remove_nth k xs"
    using assms(2) by (auto simp: pop_at_def Let_def k_def split: if_splits)
  have "remove_nth k xs = filter (\<lambda>y. y \<noteq> xs ! k) xs" by (rule remove_nth_distinct[OF assms(1) k(1)])
  also have "\<dots> = remove1 (xs ! k) xs" using assms(1) by (simp add: distinct_remove1_removeAll removeAll_filter_not_eq) metis
  finally show ?thesis using k by simp
qed

lemma opt_scan_max:
  assumes "mem \<noteq> []"
  shows "\<exists>k < length mem. snd (opt_scan addrs i mem) = int k \<and>
    (\<forall>p \<in> set mem. nxt p (drop (Suc i) addrs) \<le> nxt (mem ! k) (drop (Suc i) addrs))"
proof -
  let ?w = "\<lambda>p. int (when_referenced p (Suc i) (drop (Suc i) addrs))"
  let ?f = "\<lambda>(idx, page) (mx, r). if ?w page \<ge> mx then (?w page, int idx) else (mx, r)"
  have gen: "ps \<noteq> [] \<longrightarrow> (case fold ?f (enumerate 0 ps) (-1, -1) of (mx, r) \<Rightarrow>
      (\<forall>p \<in> set ps. ?w p \<le> mx) \<and> (\<exists>k < length ps. r = int k \<and> mx = ?w (ps ! k)))" for ps
  proof (induction ps rule: rev_induct)
    case (snoc p ps)
    obtain mx r where mr: "fold ?f (enumerate 0 ps) (-1, -1) = (mx, r)" by fastforce
    have step: "fold ?f (enumerate 0 (ps @ [p])) (-1, -1) = (if ?w p \<ge> mx then (?w p, int (length ps)) else (mx, r))"
      by (simp add: enumerate_append_eq mr)
    show ?case
    proof (cases "ps = []")
      case True
      then show ?thesis using mr step by simp
    next
      case False
      then have IH: "\<forall>p \<in> set ps. ?w p \<le> mx" "\<exists>k < length ps. r = int k \<and> mx = ?w (ps ! k)" using snoc.IH mr by auto
      show ?thesis
      proof (cases "?w p \<ge> mx")
        case True
        then show ?thesis using step IH(1) by (auto intro!: exI[of _ "length ps"])
      next
        case wp: False
        obtain k where "k < length ps" "r = int k" "mx = ?w (ps ! k)" using IH(2) by blast
        then show ?thesis using step IH(1) wp by (auto simp: nth_append intro!: exI[of _ k])
      qed
    qed
  qed simp
  obtain mx r where mr: "fold ?f (enumerate 0 mem) (-1, -1) = (mx, r)" by fastforce
  have os: "opt_scan addrs i mem = (mx, r)" using mr by (simp add: opt_scan_def Let_def)
  obtain k where "k < length mem" "r = int k" "mx = ?w (mem ! k)" "\<forall>p \<in> set mem. ?w p \<le> mx" using gen[of mem] mr assms by auto
  then show ?thesis using os by (auto simp: when_referenced_nxt intro!: exI[of _ k])
qed

lemma clock_loop_ok:
  assumes "clock_loop mem rf ds = Inr (v, rf', ds')" "set mem \<subseteq> dom rf" "ref_range cb rf"
  shows "v \<in> set mem \<and> set mem \<subseteq> dom rf' \<and> ref_range cb rf'"
  using assms
proof (induction mem rf ds rule: clock_loop.induct)
  case (2 mem rf d ds)
  from "2.prems"(1) obtain page r where p: "list_get mem (int d) = Inr page" "rf page = Some r"
    by (auto simp: bnd_eq_Inr_iff dict_get_eq_Inr_iff)
  then have mem: "page \<in> set mem" by (auto simp: list_get_def split: if_splits)
  show ?case
  proof (cases "r \<ge> 1")
    case True
    have "set mem \<subseteq> dom (rf(page \<mapsto> r - 1))" using "2.prems"(2) by auto
    moreover have "ref_range cb (rf(page \<mapsto> r - 1))" using "2.prems"(3) True p(2) by (fastforce simp: ref_range_def)
    moreover have "clock_loop mem (rf(page \<mapsto> r - 1)) ds = Inr (v, rf', ds')" using "2.prems"(1) p True by simp
    ultimately show ?thesis using "2.IH"[OF True] by blast
  next
    case False
    then show ?thesis using "2.prems" p mem by auto
  qed
qed simp

lemma replace_chosen:
  assumes inv: "pinv k cb s" and r: "replace pol addrs s = Inr (v, t)"
  shows "chosen pol (drop (Suc (addrIndex s)) addrs) s v t \<and> set (memory t) \<subseteq> dom (refs t) \<and> ref_range cb (refs t)"
proof -
  have d: "distinct (memory s)" and ref: "set (memory s) \<subseteq> dom (refs s)" "ref_range cb (refs s)"
    using inv by (simp_all add: pinv_def)
  have pop: "v \<in> set (memory s) \<and> t = s'\<lparr>memory := remove1 v (memory s)\<rparr>"
    if "bnd (pop_at i (memory s')) (\<lambda>(v, mem). Inr (v, s'\<lparr>memory := mem\<rparr>)) = Inr (v, t)" "memory s' = memory s" for i s'
    using that d by (auto simp: bnd_eq_Inr_iff dest!: pop_at_ok)
  have sub: "set (remove1 v (memory s)) \<subseteq> dom (refs s)" using ref(1) by (meson set_remove1_subset subset_trans)
  have popped: ?thesis if "bnd (pop_at i (memory s)) (\<lambda>(v, mem). Inr (v, s\<lparr>memory := mem\<rparr>)) = Inr (v, t)" "pol \<noteq> OPT" for i
    using pop[OF that(1)] that(2) sub ref(2) by (auto simp: chosen_def)
  show ?thesis
  proof (cases pol)
    case FIFO
    then show ?thesis using r by (intro popped[of 0]) (simp_all add: replace_def)
  next
    case LRU
    then show ?thesis using r by (intro popped[of 0]) (simp_all add: replace_def)
  next
    case MRU
    then show ?thesis using r by (intro popped[of "int (pcount s) - 1"]) (simp_all add: replace_def)
  next
    case UNOPT
    then show ?thesis using r by (intro popped[of "snd (unopt_scan addrs (addrIndex s) (memory s))"]) (simp_all add: replace_def)
  next
    case RAND
    then obtain x ds where "draws s = x # ds"
      and "bnd (pop_at (int x) (memory (s\<lparr>draws := ds\<rparr>))) (\<lambda>(v, mem). Inr (v, s\<lparr>draws := ds, memory := mem\<rparr>)) = Inr (v, t)"
      using r by (auto simp: replace_def split: list.splits)
    with pop[of "int x" "s\<lparr>draws := ds\<rparr>"] RAND sub ref(2) show ?thesis by (auto simp: chosen_def)
  next
    case CLOCK
    then obtain rf ds where c: "clock_loop (memory s) (refs s) (draws s) = Inr (v, rf, ds)"
      and t: "t = s\<lparr>memory := remove1 v (memory s), refs := rf(v := None), draws := ds\<rparr>"
      using r by (auto simp: replace_def bnd_eq_Inr_iff)
    from clock_loop_ok[OF c ref] show ?thesis using CLOCK d by (auto simp: chosen_def t ref_range_def)
  next
    case OPT
    have ne: "memory s \<noteq> []" using r OPT by (auto simp: replace_def bnd_eq_Inr_iff pop_at_def Let_def split: if_splits)
    obtain j where j: "j < length (memory s)" "snd (opt_scan addrs (addrIndex s) (memory s)) = int j"
      "\<forall>p \<in> set (memory s). nxt p (drop (Suc (addrIndex s)) addrs) \<le> nxt (memory s ! j) (drop (Suc (addrIndex s)) addrs)"
      using opt_scan_max[OF ne] by blast
    have "v = memory s ! j" using r OPT j by (auto simp: replace_def bnd_eq_Inr_iff pop_at_def Let_def)
    then have "furthest (set (memory s)) (drop (Suc (addrIndex s)) addrs) v" using j by (simp add: furthest_def)
    then show ?thesis using pop[of "int j" s] r OPT j(2) sub ref(2) by (auto simp: chosen_def replace_def)
  qed
qed

lemma touch_ref_ok:
  "0 \<le> cb \<Longrightarrow> ref_range cb rf \<Longrightarrow> ref_range cb (touch_ref cb n rf) \<and> dom (touch_ref cb n rf) = insert n (dom rf)"
  by (auto simp: ref_range_def touch_ref_def dom_def split: option.splits if_splits)

definition accessed :: "policy \<Rightarrow> nat \<Rightarrow> int list \<Rightarrow> pager \<Rightarrow> int \<Rightarrow> pager \<Rightarrow> bool" where
  "accessed pol k addrs s n t \<longleftrightarrow> addrIndex t = Suc (addrIndex s) \<and>
    (if n \<in> set (memory s) then memory t = memory (lookup_page pol s n) \<and> miss t = miss s \<and> hits t = hits s + 1
     else miss t = miss s + 1 \<and> hits t = hits s \<and>
       (if length (memory s) < k then memory t = memory s @ [n]
        else \<exists>v. v \<in> set (memory s) \<and> memory t = remove1 v (memory s) @ [n] \<and>
          (pol = OPT \<longrightarrow> furthest (set (memory s)) (drop (Suc (addrIndex s)) addrs) v)))"

lemma access_accessed:
  assumes inv: "pinv k cb s" and a: "access pol (int k) cb addrs s n = Inr t" and cb: "0 \<le> cb"
  shows "pinv k cb t \<and> accessed pol k addrs s n t"
proof -
  have d: "distinct (memory s)" "pcount s = length (memory s)" "length (memory s) \<le> k"
    and ref: "set (memory s) \<subseteq> dom (refs s)" "ref_range cb (refs s)" using inv by (simp_all add: pinv_def)
  consider (hit) "n \<in> set (memory s)" | (fill) "n \<notin> set (memory s)" "length (memory s) < k"
    | (full) "n \<notin> set (memory s)" "length (memory s) = k" using d by linarith
  then show ?thesis
  proof cases
    case hit
    have "distinct (remove1 n (memory s) @ [n])" "set (remove1 n (memory s) @ [n]) = set (memory s)"
      "length (remove1 n (memory s) @ [n]) = length (memory s)"
      using d hit length_pos_if_in_set[OF hit] by (auto simp: length_remove1)
    moreover have "t = (lookup_page pol s n)\<lparr>refs := touch_ref cb n (refs s), addrIndex := addrIndex s + 1\<rparr>"
      using a hit by (simp add: access_def lookup_page_def)
    moreover have "set (memory s) \<subseteq> dom (touch_ref cb n (refs s))" "ref_range cb (touch_ref cb n (refs s))"
      using touch_ref_ok[OF cb ref(2), of n] ref(1) by blast+
    ultimately show ?thesis using hit d by (simp add: pinv_def accessed_def lookup_page_def)
  next
    case fill
    have "set (memory s @ [n]) \<subseteq> dom (touch_ref cb n (refs s))" "ref_range cb (touch_ref cb n (refs s))"
      using touch_ref_ok[OF cb ref(2), of n] ref(1) by auto
    moreover have "t = s\<lparr>miss := miss s + 1, pcount := pcount s + 1, memory := memory s @ [n], refs := touch_ref cb n (refs s),
        addrIndex := addrIndex s + 1\<rparr>"
      using a fill d by (simp add: access_def)
    ultimately show ?thesis using fill d by (simp add: pinv_def accessed_def)
  next
    case full
    let ?s = "s\<lparr>miss := miss s + 1\<rparr>"
    have "pinv k cb ?s" using inv by (simp add: pinv_def)
    moreover obtain v u where u: "replace pol addrs ?s = Inr (v, u)"
      "t = u\<lparr>memory := memory u @ [n], refs := touch_ref cb n (refs u), addrIndex := addrIndex u + 1\<rparr>"
      using a full d(2) by (auto simp: access_def bnd_eq_Inr_iff asserting_eq_Inr_iff Let_def split: if_splits)
    ultimately have c: "chosen pol (drop (Suc (addrIndex s)) addrs) ?s v u" "set (memory u) \<subseteq> dom (refs u)" "ref_range cb (refs u)"
      using replace_chosen by force+
    have "length (remove1 v (memory s)) = k - 1" "0 < k" using c(1) full by (auto simp: chosen_def length_remove1 length_pos_if_in_set)
    moreover have "set (memory u @ [n]) \<subseteq> dom (touch_ref cb n (refs u))" "ref_range cb (touch_ref cb n (refs u))"
      using touch_ref_ok[OF cb c(3), of n] c(2) by auto
    ultimately show ?thesis
      using c(1) d full unfolding u(2) by (simp add: pinv_def accessed_def chosen_def) blast
  qed
qed

section \<open>A run is a run of demand paging\<close>

definition victim_of :: "policy \<Rightarrow> int set \<Rightarrow> int list \<Rightarrow> int \<Rightarrow> bool" where
  "victim_of pol = (if pol = OPT then furthest else any_page)"

lemma nxt_le: "nxt p xs \<le> length xs"
  by (induction xs) auto

lemma nxt_absent: "p \<notin> set xs \<Longrightarrow> nxt p xs = length xs"
  by (induction xs) auto

lemma absent_victim: "d \<in> M \<Longrightarrow> d \<notin> set xs \<Longrightarrow> victim_of pol M xs d"
  by (simp add: victim_of_def furthest_def any_page_def nxt_absent nxt_le)

lemma run_demand:
  assumes "foldres (access pol (int k) cb addrs) s xs = Inr t" "pinv k cb s" "0 \<le> cb"
    and "addrs = pre @ xs" "addrIndex s = length pre"
    and "finite D" "card D + length (memory s) = k" "D \<inter> set (xs @ memory s) = {}"
  shows "demand (victim_of pol) (set (memory s) \<union> D) xs (miss t - miss s) \<and> miss s \<le> miss t \<and>
    hits t + miss t = hits s + miss s + length xs"
  using assms
proof (induction xs arbitrary: s D pre)
  case Nil
  then show ?case by (simp add: demand_nil)
next
  case (Cons n xs)
  obtain u where u: "access pol (int k) cb addrs s n = Inr u" "foldres (access pol (int k) cb addrs) u xs = Inr t"
    using Cons.prems(1) by (auto simp: bnd_eq_Inr_iff)
  have acc: "pinv k cb u" "accessed pol k addrs s n u" using access_accessed[OF Cons.prems(2) u(1) Cons.prems(3)] by auto
  have pre: "addrs = (pre @ [n]) @ xs" "addrIndex u = length (pre @ [n])" "drop (Suc (addrIndex s)) addrs = xs"
    using Cons.prems(4,5) acc(2) by (auto simp: accessed_def)
  have d: "distinct (memory s)" "distinct (memory u)" using Cons.prems(2) acc(1) by (simp_all add: pinv_def)
  note IH = Cons.IH[OF u(2) acc(1) Cons.prems(3) pre(1,2)]
  consider (hit) "n \<in> set (memory s)" | (fill) "n \<notin> set (memory s)" "length (memory s) < k" | (full) "n \<notin> set (memory s)" "\<not> length (memory s) < k"
    by blast
  then show ?case
  proof cases
    case hit
    then have h: "set (memory u) = set (memory s)" "miss u = miss s" "hits u = hits s + 1"
      using acc(2) d(1) by (auto simp: accessed_def lookup_page_def)
    then have "length (memory u) = length (memory s)" using d by (metis distinct_card)
    then show ?thesis using IH[of D] Cons.prems(6-8) hit h by (auto intro: demand_hit)
  next
    case fill
    then have f: "memory u = memory s @ [n]" "miss u = miss s + 1" "hits u = hits s" using acc(2) by (auto simp: accessed_def)
    have "D \<noteq> {}" using fill Cons.prems(7) by auto
    then obtain e where e: "e \<in> D" by blast
    have e': "e \<notin> set xs" "e \<notin> set (memory s)" "e \<noteq> n" using e Cons.prems(8) by auto
    have c: "card (D - {e}) + length (memory u) = k" using e Cons.prems(6,7) f(1) card_Suc_Diff1[of D e] by simp
    have "set (memory u) \<union> (D - {e}) = insert n (set (memory s) \<union> D - {e})" using f(1) e' by auto
    moreover have "demand (victim_of pol) (set (memory u) \<union> (D - {e})) xs (miss t - miss u) \<and> miss u \<le> miss t \<and>
        hits t + miss t = hits u + miss u + length xs"
      using IH[of "D - {e}"] c Cons.prems(6,8) f(1) by auto
    moreover have "n \<notin> set (memory s) \<union> D" using fill(1) Cons.prems(8) by auto
    moreover have "victim_of pol (set (memory s) \<union> D) xs e" by (rule absent_victim) (use e e' in auto)
    ultimately show ?thesis using f(2,3) demand_miss[of n "set (memory s) \<union> D" "victim_of pol" xs e "miss t - miss u"]
      by (simp add: Suc_diff_Suc)
  next
    case full
    then obtain v where v: "v \<in> set (memory s)" "memory u = remove1 v (memory s) @ [n]" "miss u = miss s + 1" "hits u = hits s"
      "pol = OPT \<longrightarrow> furthest (set (memory s)) xs v" using acc(2) pre(3) by (auto simp: accessed_def)
    have D: "D = {}" using full Cons.prems(6,7) by auto
    have "set (memory u) = insert n (set (memory s) - {v})" using v(2) d(1) by auto
    moreover have "length (memory u) = k" using v(1,2) full Cons.prems(7) length_pos_if_in_set[OF v(1)] D by (simp add: length_remove1)
    then have "demand (victim_of pol) (set (memory u)) xs (miss t - miss u) \<and> miss u \<le> miss t \<and>
        hits t + miss t = hits u + miss u + length xs"
      using IH[of "{}"] by simp
    moreover have "victim_of pol (set (memory s)) xs v" using v(1,5) by (simp add: victim_of_def any_page_def)
    ultimately show ?thesis
      using D full(1) v(3,4) demand_miss[of n "set (memory s)" "victim_of pol" xs v "miss t - miss u"] by (simp add: Suc_diff_Suc)
  qed
qed

lemma pinv_init [simp]: "pinv k cb (pager_init ds)"
  by (simp add: pinv_def pager_init_def ref_range_def)

lemma pager_demand:
  assumes "pager_run pol (int k) cb ds addrs = Inr t" "0 \<le> cb"
    and "finite D" "card D = k" "D \<inter> set addrs = {}"
  shows "demand (victim_of pol) D addrs (miss t)" "hits t + miss t = length addrs"
  using run_demand[of pol k cb addrs "pager_init ds" addrs t "[]" D] assms
  by (auto simp: pager_run_def) (simp_all add: pager_init_def)

section \<open>No access fails\<close>

lemma unopt_scan_range:
  assumes "mem \<noteq> []" "i < length addrs"
  shows "\<exists>k < length mem. snd (unopt_scan addrs i mem) = int k"
proof -
  let ?w = "\<lambda>p. int (when_referenced p (Suc i) (drop (Suc i) addrs))"
  let ?f = "\<lambda>(idx, page) (mn, r). if ?w page < mn then (?w page, int idx) else (mn, r)"
  let ?z = "(int (length addrs) + 1, -1)"
  have w: "?w p < int (length addrs) + 1" for p
    using nxt_le[of p "drop (Suc i) addrs"] assms(2) by (simp add: when_referenced_nxt)
  have gen: "ps \<noteq> [] \<longrightarrow> (\<exists>k < length ps. snd (fold ?f (enumerate 0 ps) ?z) = int k)" for ps
  proof (induction ps rule: rev_induct)
    case (snoc p ps)
    show ?case
    proof (cases "ps = []")
      case True
      then show ?thesis using w by simp
    next
      case False
      then obtain k where "k < length ps" "snd (fold ?f (enumerate 0 ps) ?z) = int k" using snoc.IH by blast
      then show ?thesis
        by (cases "fold ?f (enumerate 0 ps) ?z") (auto simp: enumerate_append_eq intro: exI[of _ k] exI[of _ "length ps"])
    qed
  qed simp
  from gen[of mem] assms(1) show ?thesis by (simp add: unopt_scan_def Let_def)
qed

lemma pop_at_in: "j < length xs \<Longrightarrow> pop_at (int j) xs = Inr (xs ! j, remove_nth j xs)"
  by (simp add: pop_at_def)

text \<open>What the reference counts of the pages in memory add up to bounds the draws \<^verbatim>\<open>CLOCK\<close> needs.\<close>

definition weight :: "int list \<Rightarrow> (int \<rightharpoonup> int) \<Rightarrow> nat" where
  "weight mem rf = sum_list (map (\<lambda>p. nat (the (rf p))) mem)"

lemma weight_dec:
  assumes "distinct mem" "page \<in> set mem" "rf page = Some r" "1 \<le> r"
  shows "weight mem (rf(page \<mapsto> r - 1)) + 1 = weight mem rf"
  using assms
proof (induction mem)
  case (Cons p mem)
  show ?case
  proof (cases "p = page")
    case True
    then have "weight mem (rf(page \<mapsto> r - 1)) = weight mem rf"
      using Cons.prems(1) unfolding weight_def by (intro arg_cong[of _ _ sum_list] map_cong) auto
    moreover have "weight (p # mem) (rf(page \<mapsto> r - 1)) = nat (r - 1) + weight mem (rf(page \<mapsto> r - 1))"
      using True by (simp add: weight_def)
    moreover have "weight (p # mem) rf = nat r + weight mem rf" using True Cons.prems(3) by (simp add: weight_def)
    ultimately show ?thesis using Cons.prems(4) by linarith
  next
    case False
    with Cons show ?thesis by (simp add: weight_def)
  qed
qed simp

lemma weight_le:
  assumes "ref_range cb rf" "set mem \<subseteq> dom rf"
  shows "weight mem rf \<le> length mem * nat (max 1 cb)"
  using assms(2)
proof (induction mem)
  case (Cons p mem)
  obtain r where "rf p = Some r" using Cons.prems by auto
  moreover from this have "r \<le> max 1 cb" using assms(1) unfolding ref_range_def by blast
  ultimately have "nat (the (rf p)) \<le> nat (max 1 cb)" by (simp add: nat_mono)
  then show ?case using Cons by (simp add: weight_def)
qed (simp add: weight_def)

lemma clock_loop_total:
  assumes "distinct mem" "set mem \<subseteq> dom rf" "\<forall>d \<in> set ds. d < length mem" "weight mem rf < length ds"
  shows "\<exists>v rf' ds'. clock_loop mem rf ds = Inr (v, rf', ds') \<and> set ds' \<subseteq> set ds \<and> length ds \<le> length ds' + weight mem rf + 1"
  using assms
proof (induction mem rf ds rule: clock_loop.induct)
  case (2 mem rf d ds)
  let ?p = "mem ! d"
  have p: "list_get mem (int d) = Inr ?p" "?p \<in> set mem" using "2.prems"(3) by simp_all
  then obtain r where r: "rf ?p = Some r" using "2.prems"(2) by blast
  show ?case
  proof (cases "r \<ge> 1")
    case True
    have w: "weight mem (rf(?p \<mapsto> r - 1)) + 1 = weight mem rf" using weight_dec[of mem ?p rf r] "2.prems"(1) p(2) r True by blast
    have "\<exists>v rf' ds'. clock_loop mem (rf(?p \<mapsto> r - 1)) ds = Inr (v, rf', ds') \<and> set ds' \<subseteq> set ds \<and>
        length ds \<le> length ds' + weight mem (rf(?p \<mapsto> r - 1)) + 1"
    proof (rule "2.IH"[OF True "2.prems"(1)])
      show "set mem \<subseteq> dom (rf(?p \<mapsto> r - 1))" using "2.prems"(2) by auto
      show "weight mem (rf(?p \<mapsto> r - 1)) < length ds" using w "2.prems"(4) by simp
    qed (use "2.prems"(3) in simp)
    then obtain v rf' ds' where "clock_loop mem (rf(?p \<mapsto> r - 1)) ds = Inr (v, rf', ds')" "set ds' \<subseteq> set ds"
        "length ds \<le> length ds' + weight mem (rf(?p \<mapsto> r - 1)) + 1" by blast
    then show ?thesis using p r True w by (auto simp: dict_get_def)
  next
    case False
    then show ?thesis using p r by (auto simp: dict_get_def)
  qed
qed simp

text \<open>Enough random numbers for \<open>m\<close> accesses.\<close>

definition enough :: "policy \<Rightarrow> nat \<Rightarrow> int \<Rightarrow> nat \<Rightarrow> nat list \<Rightarrow> bool" where
  "enough pol k cb m ds \<longleftrightarrow> (pol = RAND \<or> pol = CLOCK \<longrightarrow> (\<forall>d \<in> set ds. d < k)) \<and>
     (if pol = RAND then m \<le> length ds else if pol = CLOCK then m * (k * nat (max 1 cb) + 1) \<le> length ds else True)"

lemma replace_total:
  assumes inv: "pinv k cb s" and full: "length (memory s) = k" "0 < k" and i: "addrIndex s < length addrs"
    and e: "enough pol k cb (Suc m) (draws s)"
  shows "\<exists>v t. replace pol addrs s = Inr (v, t) \<and> enough pol k cb m (draws t)"
proof -
  have d: "distinct (memory s)" "set (memory s) \<subseteq> dom (refs s)" "ref_range cb (refs s)" "pcount s = k"
    using inv full by (simp_all add: pinv_def)
  have ne: "memory s \<noteq> []" using full by auto
  have e': "enough pol k cb m (draws s)" using e by (auto simp: enough_def)
  have pop: "\<exists>v t. bnd (pop_at (int j) (memory s)) (\<lambda>(v, mem). Inr (v, s\<lparr>memory := mem\<rparr>)) = Inr (v, t) \<and> enough pol k cb m (draws t)"
    if "j < k" for j
    using that full e' by (simp add: pop_at_in)
  show ?thesis
  proof (cases pol)
    case FIFO
    then show ?thesis using pop[of 0] full by (simp add: replace_def)
  next
    case LRU
    then show ?thesis using pop[of 0] full by (simp add: replace_def)
  next
    case MRU
    then show ?thesis using pop[of "k - 1"] full d(4) by (simp add: replace_def of_nat_diff)
  next
    case OPT
    then show ?thesis using pop opt_scan_max[OF ne, of addrs "addrIndex s"] full(1) by (auto simp: replace_def)
  next
    case UNOPT
    then show ?thesis using pop unopt_scan_range[OF ne i] full(1) by (auto simp: replace_def)
  next
    case RAND
    then obtain x ds where "draws s = x # ds" using e by (cases "draws s") (auto simp: enough_def)
    then show ?thesis using e RAND full by (simp add: replace_def enough_def pop_at_in)
  next
    case CLOCK
    have "weight (memory s) (refs s) \<le> k * nat (max 1 cb)" using weight_le[OF d(3,2)] full by simp
    moreover have l: "Suc m * (k * nat (max 1 cb) + 1) \<le> length (draws s)" "\<forall>x \<in> set (draws s). x < k" using e CLOCK by (auto simp: enough_def)
    ultimately have "weight (memory s) (refs s) < length (draws s)" by simp
    then obtain v rf ds where c: "clock_loop (memory s) (refs s) (draws s) = Inr (v, rf, ds)" "set ds \<subseteq> set (draws s)"
        "length (draws s) \<le> length ds + weight (memory s) (refs s) + 1"
      using clock_loop_total[OF d(1,2)] l(2) full(1) by metis
    have "m * (k * nat (max 1 cb) + 1) \<le> length ds" using c(3) l(1) \<open>weight (memory s) (refs s) \<le> k * nat (max 1 cb)\<close> by simp
    then have "enough pol k cb m ds" using CLOCK c(2) l(2) by (auto simp: enough_def)
    then show ?thesis using CLOCK c(1) by (simp add: replace_def)
  qed
qed

lemma access_total:
  assumes inv: "pinv k cb s" and k: "0 < k" "0 \<le> cb" and i: "addrIndex s < length addrs" and e: "enough pol k cb (Suc m) (draws s)"
  shows "\<exists>t. access pol (int k) cb addrs s n = Inr t \<and> enough pol k cb m (draws t)"
proof -
  have e': "enough pol k cb m (draws s)" using e by (auto simp: enough_def)
  have d: "pcount s = length (memory s)" "length (memory s) \<le> k" "distinct (memory s)" using inv by (simp_all add: pinv_def)
  consider (hit) "n \<in> set (memory s)" | (fill) "n \<notin> set (memory s)" "length (memory s) \<noteq> k" | (full) "n \<notin> set (memory s)" "length (memory s) = k"
    by blast
  then show ?thesis
  proof cases
    case hit
    then show ?thesis using e' by (simp add: access_def lookup_page_def)
  next
    case fill
    then show ?thesis using e' d by (simp add: access_def)
  next
    case full
    let ?s = "s\<lparr>miss := miss s + 1\<rparr>"
    have inv': "pinv k cb ?s" using inv by (simp add: pinv_def)
    obtain v u where u: "replace pol addrs ?s = Inr (v, u)" "enough pol k cb m (draws u)"
      using replace_total[OF inv', of addrs pol m] full k i e by auto
    then have "chosen pol (drop (Suc (addrIndex s)) addrs) ?s v u" using replace_chosen[OF inv'] by fastforce
    then have "v \<notin> set (memory u @ [n])" using d full by (auto simp: chosen_def)
    then show ?thesis using u full d by (simp add: access_def asserting_def Let_def)
  qed
qed

lemma run_total:
  assumes "pinv k cb s" "0 < k" "0 \<le> cb" "addrIndex s + length xs = length addrs" "enough pol k cb (length xs) (draws s)"
  shows "\<exists>t. foldres (access pol (int k) cb addrs) s xs = Inr t"
  using assms
proof (induction xs arbitrary: s)
  case (Cons n xs)
  obtain u where u: "access pol (int k) cb addrs s n = Inr u" "enough pol k cb (length xs) (draws u)"
    using access_total[OF Cons.prems(1-3), of addrs pol "length xs" n] Cons.prems(4,5) by auto
  have "pinv k cb u" "addrIndex u = Suc (addrIndex s)"
    using access_accessed[OF Cons.prems(1) u(1) Cons.prems(3)] by (auto simp: accessed_def)
  then obtain t where "foldres (access pol (int k) cb addrs) u xs = Inr t" using Cons.IH[of u] Cons.prems u(2) by auto
  then show ?case using u(1) by simp
qed simp

section \<open>Least recently used\<close>

text \<open>All pages referenced so far, the most recent last, and the last \<open>k\<close> of a list.\<close>

definition recency :: "int list \<Rightarrow> int list" where
  "recency xs = fold (\<lambda>n l. remove1 n l @ [n]) xs []"

definition lastn :: "nat \<Rightarrow> 'a list \<Rightarrow> 'a list" where
  "lastn k l = drop (length l - k) l"

lemma recency_snoc: "recency (xs @ [n]) = remove1 n (recency xs) @ [n]"
  by (simp add: recency_def)

lemma recency_distinct: "distinct (recency xs) \<and> set (recency xs) = set xs"
proof (induction xs rule: rev_induct)
  case Nil
  show ?case by (simp add: recency_def)
qed (auto simp: recency_snoc)

lemma lastn_split: "length ys \<le> k \<Longrightarrow> xs \<noteq> [] \<longrightarrow> length ys = k \<Longrightarrow> lastn k (xs @ ys) = ys"
  by (auto simp: lastn_def)

lemma replace_lru:
  assumes "memory s \<noteq> []"
  shows "replace LRU addrs s = Inr (hd (memory s), s\<lparr>memory := tl (memory s)\<rparr>)"
  using assms by (cases "memory s") (simp_all add: replace_def pop_at_def remove_nth_def)

text \<open>The memory is the end of the recency list.\<close>

lemma access_lru:
  assumes inv: "pinv k cb s" and k: "0 < k" and m: "memory s = lastn k (recency xs)" and a: "access LRU (int k) cb addrs s n = Inr t"
  shows "memory t = lastn k (recency (xs @ [n])) \<and> miss t = miss s + (if n \<in> set (lastn k (recency xs)) then 0 else 1)"
proof -
  define old where "old = take (length (recency xs) - k) (recency xs)"
  have split: "recency xs = old @ memory s" by (simp add: old_def m lastn_def)
  have d: "distinct (old @ memory s)" using recency_distinct[of xs] split by simp
  have len: "length (memory s) \<le> k" "old \<noteq> [] \<longrightarrow> length (memory s) = k" by (auto simp: m lastn_def old_def)
  have pc: "pcount s = length (memory s)" using inv by (simp add: pinv_def)
  have rec: "recency (xs @ [n]) = remove1 n (old @ memory s) @ [n]" by (simp add: recency_snoc split)
  consider (hit) "n \<in> set (memory s)" | (fill) "n \<notin> set (memory s)" "length (memory s) \<noteq> k" | (full) "n \<notin> set (memory s)" "length (memory s) = k"
    by blast
  then show ?thesis
  proof cases
    case hit
    then have "remove1 n (old @ memory s) = old @ remove1 n (memory s)" using d by (auto simp: remove1_append)
    moreover have "length (remove1 n (memory s) @ [n]) = length (memory s)"
      using hit length_pos_if_in_set[OF hit] by (simp add: length_remove1)
    then have "lastn k (old @ remove1 n (memory s) @ [n]) = remove1 n (memory s) @ [n]"
      using len by (intro lastn_split) auto
    ultimately show ?thesis using a hit m by (auto simp: access_def lookup_page_def rec)
  next
    case fill
    then have "old = []" using len by blast
    moreover have "lastn k (memory s @ [n]) = memory s @ [n]" using fill len lastn_split[of "memory s @ [n]" k "[]"] by simp
    ultimately show ?thesis using a fill m pc by (auto simp: access_def rec remove1_idem)
  next
    case full
    then have ne: "memory s \<noteq> []" using k by auto
    have h: "hd (memory s) \<notin> set (tl (memory s) @ [n])" using d full ne by (cases "memory s") auto
    have "remove1 n (old @ memory s) = remove1 n old @ memory s" using full by (auto simp: remove1_append remove1_idem)
    moreover have split': "remove1 n old @ memory s @ [n] = (remove1 n old @ [hd (memory s)]) @ (tl (memory s) @ [n])" using ne by simp
    have "lastn k (remove1 n old @ memory s @ [n]) = tl (memory s) @ [n]"
      unfolding split' using full ne k by (intro lastn_split) auto
    ultimately have "lastn k (recency (xs @ [n])) = tl (memory s) @ [n]" by (simp add: rec)
    moreover obtain v u where u: "replace LRU addrs (s\<lparr>miss := miss s + 1\<rparr>) = Inr (v, u)"
      "t = u\<lparr>memory := memory u @ [n], refs := touch_ref cb n (refs u), addrIndex := addrIndex u + 1\<rparr>"
      using a full pc by (auto simp: access_def bnd_eq_Inr_iff asserting_eq_Inr_iff Let_def split: if_splits)
    moreover have "u = s\<lparr>miss := miss s + 1, memory := tl (memory s)\<rparr>"
      using u(1) replace_lru[of "s\<lparr>miss := miss s + 1\<rparr>" addrs] ne by simp
    ultimately show ?thesis using full(1) m by simp
  qed
qed

lemma run_lru:
  assumes "foldres (access LRU (int k) cb addrs) s ys = Inr t" "pinv k cb s" "0 < k" "0 \<le> cb" "memory s = lastn k (recency xs)"
  shows "memory t = lastn k (recency (xs @ ys)) \<and>
    miss t = miss s + length (filter (\<lambda>i. ys ! i \<notin> set (lastn k (recency (xs @ take i ys)))) [0..<length ys])"
  using assms
proof (induction ys arbitrary: s xs)
  case (Cons n ys)
  obtain u where u: "access LRU (int k) cb addrs s n = Inr u" "foldres (access LRU (int k) cb addrs) u ys = Inr t"
    using Cons.prems(1) by (auto simp: bnd_eq_Inr_iff)
  have p: "pinv k cb u" using access_accessed[OF Cons.prems(2) u(1) Cons.prems(4)] by simp
  note l = access_lru[OF Cons.prems(2,3,5) u(1)]
  have "[0..<length (n # ys)] = 0 # map Suc [0..<length ys]" by (simp add: upt_conv_Cons map_Suc_upt del: upt_Suc)
  then show ?case using Cons.IH[OF u(2) p Cons.prems(3,4)] l by (auto simp: filter_map comp_def)
qed simp

section \<open>Properties\<close>

text \<open>C7. Belady's theorem for the code: on every list of references and every positive cache size the policy \<^verbatim>\<open>OPT\<close> runs to the end
  and has no more misses than any run of any policy of the program on the same references, whatever the random numbers.\<close>

theorem opt_is_optimal:
  assumes "0 < k" "0 \<le> cb"
  shows "\<exists>s. pager_run OPT (int k) cb ds addrs = Inr s \<and>
    (\<forall>pol cb' ds' t. 0 \<le> cb' \<and> pager_run pol (int k) cb' ds' addrs = Inr t \<longrightarrow> miss s \<le> miss t)"
proof -
  have "infinite (- set addrs)" by (simp add: Compl_eq_Diff_UNIV)
  then obtain D where D: "D \<subseteq> - set addrs" "card D = k" "finite D" using infinite_arbitrarily_large by metis
  then have D': "D \<inter> set addrs = {}" "D \<noteq> {}" using assms(1) by auto
  obtain s where s: "pager_run OPT (int k) cb ds addrs = Inr s"
    using run_total[OF pinv_init assms, of ds addrs addrs OPT] by (auto simp: pager_run_def pager_init_def enough_def)
  have "miss s \<le> miss t" if "0 \<le> cb'" "pager_run pol (int k) cb' ds' addrs = Inr t" for pol cb' ds' t
  proof -
    have "demand (victim_of pol) D addrs (miss t)" by (rule pager_demand[OF that(2,1) D(3,2) D'(1)])
    then have "demand any_page D addrs (miss t)"
    proof (rule demand_mono)
      show "victim_of pol M xs v \<Longrightarrow> any_page M xs v" for M xs v by (auto simp: victim_of_def furthest_def any_page_def split: if_splits)
    qed
    moreover have "belady D addrs (miss s)" using pager_demand(1)[OF s assms(2) D(3,2) D'(1)] by (simp add: victim_of_def)
    ultimately show ?thesis using furthest_optimal D(3) D'(2) by blast
  qed
  then show ?thesis using s by blast
qed

theorem opt_is_optimal_witness:
  "\<exists>s. pager_run OPT 3 2 [] [1, 2, 3, 4, 1, 2, 5, 1, 2, 3, 4, 5] = Inr s \<and>
    (\<forall>pol cb' ds' t. 0 \<le> cb' \<and> pager_run pol 3 cb' ds' [1, 2, 3, 4, 1, 2, 5, 1, 2, 3, 4, 5] = Inr t \<longrightarrow> miss s \<le> miss t)"
  using opt_is_optimal[of 3 2 "[]" "[1, 2, 3, 4, 1, 2, 5, 1, 2, 3, 4, 5]"] by simp

text \<open>C23. Every policy runs to the end on every list of references, given enough random numbers: no index error, no missing reference
  count, the assertion that the victim has left the memory holds, and every reference is counted once as a hit or a miss.
  \<^verbatim>\<open>CLOCK\<close> needs no more than one draw per reference count in memory and one for the victim, for each access.\<close>

theorem pager_total:
  assumes "0 < k" "0 \<le> cb" "enough pol k cb (length addrs) ds"
  shows "\<exists>s. pager_run pol (int k) cb ds addrs = Inr s \<and> hits s + miss s = length addrs"
proof -
  have "infinite (- set addrs)" by (simp add: Compl_eq_Diff_UNIV)
  then obtain D where D: "D \<subseteq> - set addrs" "card D = k" "finite D" using infinite_arbitrarily_large by metis
  obtain s where s: "pager_run pol (int k) cb ds addrs = Inr s"
    using run_total[OF pinv_init assms(1,2), of ds addrs addrs pol] assms(3) by (auto simp: pager_run_def pager_init_def)
  then show ?thesis using pager_demand(2)[OF s assms(2) D(3,2)] D(1) by blast
qed

theorem pager_total_witness:
  "\<exists>s. pager_run CLOCK 2 1 [0, 1, 0, 1, 0, 1, 0, 1, 0] [7, 8, 9] = Inr s \<and> hits s + miss s = 3"
  using pager_total[of 2 1 CLOCK "[7, 8, 9]" "[0, 1, 0, 1, 0, 1, 0, 1, 0]"] by (simp add: enough_def numeral_eq_Suc)

text \<open>C24. Under \<^verbatim>\<open>LRU\<close> the memory always holds the last \<open>k\<close> pages in the order of their last reference, so that a reference misses
  exactly if the page is not among them; a larger cache never has more misses.\<close>

theorem lru_stack:
  assumes "0 < k" "k \<le> l" "0 \<le> cb"
  shows "\<exists>s t. pager_run LRU (int k) cb ds addrs = Inr s \<and> pager_run LRU (int l) cb ds addrs = Inr t \<and>
    memory s = lastn k (recency addrs) \<and> memory t = lastn l (recency addrs) \<and> miss t \<le> miss s"
proof -
  let ?m = "\<lambda>k. length (filter (\<lambda>i. addrs ! i \<notin> set (lastn k (recency (take i addrs)))) [0..<length addrs])"
  have run: "\<exists>s. pager_run LRU (int k) cb ds addrs = Inr s \<and> memory s = lastn k (recency addrs) \<and> miss s = ?m k" if k: "0 < k" for k
  proof -
    obtain s where s: "pager_run LRU (int k) cb ds addrs = Inr s"
      using run_total[OF pinv_init k assms(3), of ds addrs addrs LRU] by (auto simp: pager_run_def pager_init_def enough_def)
    have "memory (pager_init ds) = lastn k (recency [])" "miss (pager_init ds) = 0"
      by (simp_all add: pager_init_def lastn_def recency_def)
    with run_lru[OF s[unfolded pager_run_def] pinv_init k assms(3), of "[]"] s show ?thesis by simp
  qed
  have sub: "set (lastn k xs) \<subseteq> set (lastn l xs)" for xs :: "int list"
    unfolding lastn_def using assms(2) by (intro set_drop_subset_set_drop) auto
  have "?m l \<le> ?m k" by (rule length_filter_mono) (use sub in blast)
  moreover have "0 < l" using assms by simp
  ultimately show ?thesis using run[OF assms(1)] run[of l] by auto
qed

theorem lru_stack_witness:
  "\<exists>s t. pager_run LRU 3 2 [] [1, 2, 3, 4, 1] = Inr s \<and> pager_run LRU 4 2 [] [1, 2, 3, 4, 1] = Inr t \<and> miss t \<le> miss s"
  using lru_stack[of 3 4 2 "[]" "[1, 2, 3, 4, 1]"] by auto

text \<open>\<^verbatim>\<open>FIFO\<close> does not have this property: with four pages of cache instead of three it has ten misses instead of nine.\<close>

theorem fifo_anomaly:
  "bnd (pager_run FIFO 3 2 [] [1, 2, 3, 4, 1, 2, 5, 1, 2, 3, 4, 5]) (\<lambda>s. Inr (miss s)) = Inr 9 \<and>
   bnd (pager_run FIFO 4 2 [] [1, 2, 3, 4, 1, 2, 5, 1, 2, 3, 4, 5]) (\<lambda>s. Inr (miss s)) = Inr 10"
  by code_simp

end
