(* ===== verification/Vsfs.thy ===== *)
theory Vsfs
  imports Machines
begin

text \<open>
  The very simple file system of \<^verbatim>\<open>ostep/homework/file-implementation/vsfs.py\<close>: bitmaps, blocks, inodes, the class \<^verbatim>\<open>fs\<close> with
  its operations (create, link, unlink, append) and the workload loop. A random number is the numerator \<open>k\<close> of
  \<^verbatim>\<open>random.random()\<close>, which is \<open>k / 2^53\<close>; the loop takes the list of the numbers drawn.
\<close>

section \<open>Bitmaps\<close>

record bitmap =
  bmap :: "bool list"
  numAllocated :: int

definition bitmap_init :: "nat \<Rightarrow> bitmap" where
  "bitmap_init sz = \<lparr>bmap = replicate sz False, numAllocated = 0\<rparr>"

text \<open>The first bit that is not set, \<open>n\<close> counting the bits before the list.\<close>

fun first_clear :: "nat \<Rightarrow> bool list \<Rightarrow> nat option" where
  "first_clear n [] = None"
| "first_clear n (b # bs) = (if b then first_clear (Suc n) bs else Some n)"

text \<open>\<open>None\<close> is the result \<^verbatim>\<open>-1\<close>.\<close>

definition bitmap_alloc :: "bitmap \<Rightarrow> (nat \<times> bitmap) option" where
  "bitmap_alloc m =
     (case first_clear 0 (bmap m) of
        None \<Rightarrow> None
      | Some num \<Rightarrow> Some (num, \<lparr>bmap = (bmap m)[num := True], numAllocated = numAllocated m + 1\<rparr>))"

definition bitmap_free :: "bitmap \<Rightarrow> nat \<Rightarrow> bitmap res" where
  "bitmap_free m num =
     bnd (list_get (bmap m) (int num)) (\<lambda>b. asserting b
       (Inr \<lparr>bmap = (bmap m)[num := False], numAllocated = numAllocated m - 1\<rparr>))"

definition bitmap_mark :: "bitmap \<Rightarrow> nat \<Rightarrow> bitmap res" where
  "bitmap_mark m num =
     bnd (list_get (bmap m) (int num)) (\<lambda>b. asserting (\<not> b)
       (Inr \<lparr>bmap = (bmap m)[num := True], numAllocated = numAllocated m + 1\<rparr>))"

definition numFree :: "bitmap \<Rightarrow> int" where
  "numFree m = int (length (bmap m)) - numAllocated m"

section \<open>Blocks and inodes\<close>

datatype ftype = FREE | DIR | FIL

record blk =
  ftype :: ftype
  dirUsed :: int
  dirList :: "(string \<times> nat) list"
  fdata :: string

definition maxUsed :: int where "maxUsed = 32"

definition block_init :: blk where
  "block_init = \<lparr>ftype = FREE, dirUsed = 0, dirList = [], fdata = []\<rparr>"

definition block_setType :: "blk \<Rightarrow> ftype \<Rightarrow> blk res" where
  "block_setType b t = asserting (ftype b = FREE) (Inr (b\<lparr>ftype := t\<rparr>))"

definition addData :: "blk \<Rightarrow> string \<Rightarrow> blk res" where
  "addData b d = asserting (ftype b = FIL) (Inr (b\<lparr>fdata := d\<rparr>))"

definition getFreeEntries :: "blk \<Rightarrow> int res" where
  "getFreeEntries b = asserting (ftype b = DIR) (Inr (maxUsed - dirUsed b))"

definition addDirEntry :: "blk \<Rightarrow> string \<Rightarrow> nat \<Rightarrow> blk res" where
  "addDirEntry b name inum =
     asserting (ftype b = DIR)
      (let b = b\<lparr>dirList := dirList b @ [(name, inum)], dirUsed := dirUsed b + 1\<rparr>
       in asserting (dirUsed b \<le> maxUsed) (Inr b))"

text \<open>Removes the first entry with the name.\<close>

fun remove_entry :: "string \<Rightarrow> (string \<times> nat) list \<Rightarrow> (string \<times> nat) list option" where
  "remove_entry n [] = None"
| "remove_entry n (e # es) = (if fst e = n then Some es else map_option (Cons e) (remove_entry n es))"

definition delDirEntry :: "blk \<Rightarrow> string \<Rightarrow> blk res" where
  "delDirEntry b name =
     asserting (ftype b = DIR)
      (let dname = last (split_on CHR ''/'' name)
       in case remove_entry dname (dirList b) of
            None \<Rightarrow> Inl AssertionError
          | Some es \<Rightarrow> Inr (b\<lparr>dirList := es, dirUsed := dirUsed b - 1\<rparr>))"

definition dirEntryExists :: "blk \<Rightarrow> string \<Rightarrow> bool res" where
  "dirEntryExists b name = asserting (ftype b = DIR) (Inr (name \<in> fst ` set (dirList b)))"

definition block_free :: "blk \<Rightarrow> blk res" where
  "block_free b =
     asserting (ftype b \<noteq> FREE)
      (if ftype b = DIR then asserting (dirUsed b = 2) (Inr (b\<lparr>dirUsed := 0, fdata := [], ftype := FREE\<rparr>))
       else Inr (b\<lparr>fdata := [], ftype := FREE\<rparr>))"

record inod =
  itype :: ftype
  iaddr :: int
  refCnt :: int

definition inode_init :: inod where "inode_init = \<lparr>itype = FREE, iaddr = -1, refCnt = 1\<rparr>"

definition setAll :: "ftype \<Rightarrow> int \<Rightarrow> int \<Rightarrow> inod" where
  "setAll t a r = \<lparr>itype = t, iaddr = a, refCnt = r\<rparr>"

definition inode_free :: "inod \<Rightarrow> inod" where
  "inode_free i = i\<lparr>itype := FREE, iaddr := -1\<rparr>"

definition getSize :: "inod \<Rightarrow> int" where
  "getSize i = (if iaddr i = -1 then 0 else 1)"

section \<open>The file system\<close>

record fs =
  ibitmap :: bitmap
  inodes :: "inod list"
  dbitmap :: bitmap
  blocks :: "blk list"
  files :: "string list"
  dirs :: "string list"
  nameToInum :: "string \<rightharpoonup> nat"

text \<open>\<^verbatim>\<open>self.data[a]\<close> and \<^verbatim>\<open>self.inodes[i]\<close>, and what an operation on the object there leaves.\<close>

definition on_block :: "fs \<Rightarrow> int \<Rightarrow> (blk \<Rightarrow> blk res) \<Rightarrow> fs res" where
  "on_block s a f =
     bnd (list_get (blocks s) a) (\<lambda>b. bnd (f b) (\<lambda>b'.
       Inr (s\<lparr>blocks := (blocks s)[nat (if a < 0 then a + int (length (blocks s)) else a) := b']\<rparr>)))"

definition on_inode :: "fs \<Rightarrow> nat \<Rightarrow> (inod \<Rightarrow> inod) \<Rightarrow> fs res" where
  "on_inode s i f = bnd (list_get (inodes s) (int i)) (\<lambda>n. Inr (s\<lparr>inodes := (inodes s)[i := f n]\<rparr>))"

definition fs_init :: "nat \<Rightarrow> nat \<Rightarrow> fs res" where
  "fs_init numInodes numData =
     bnd (bitmap_mark (bitmap_init numInodes) 0) (\<lambda>ib.
     bnd (on_inode \<lparr>ibitmap = ib, inodes = replicate numInodes inode_init, dbitmap = bitmap_init numData,
              blocks = replicate numData block_init, files = [], dirs = [''/''], nameToInum = [''/'' \<mapsto> 0]\<rparr> 0
            (\<lambda>_. setAll DIR 0 2)) (\<lambda>s.
     bnd (bitmap_mark (dbitmap s) 0) (\<lambda>db.
     bnd (on_block (s\<lparr>dbitmap := db\<rparr>) 0 (\<lambda>b. block_setType b DIR)) (\<lambda>s.
     bnd (on_block s 0 (\<lambda>b. addDirEntry b ''.'' 0)) (\<lambda>s.
     on_block s 0 (\<lambda>b. addDirEntry b ''..'' 0))))))"

definition inodeAlloc :: "fs \<Rightarrow> (nat \<times> fs) option" where
  "inodeAlloc s = map_option (\<lambda>(n, m). (n, s\<lparr>ibitmap := m\<rparr>)) (bitmap_alloc (ibitmap s))"

definition inodeFree :: "fs \<Rightarrow> nat \<Rightarrow> fs res" where
  "inodeFree s inum = bnd (bitmap_free (ibitmap s) inum) (\<lambda>m. on_inode (s\<lparr>ibitmap := m\<rparr>) inum inode_free)"

definition dataAlloc :: "fs \<Rightarrow> (nat \<times> fs) option" where
  "dataAlloc s = map_option (\<lambda>(n, m). (n, s\<lparr>dbitmap := m\<rparr>)) (bitmap_alloc (dbitmap s))"

definition dataFree :: "fs \<Rightarrow> int \<Rightarrow> fs res" where
  "dataFree s bnum = bnd (bitmap_free (dbitmap s) (nat bnum)) (\<lambda>m. on_block (s\<lparr>dbitmap := m\<rparr>) bnum block_free)"

definition getParent :: "string \<Rightarrow> string" where
  "getParent name =
     (let tmp = split_on CHR ''/'' name
      in if length tmp = 2 then ''/''
         else concat (map (\<lambda>t. CHR ''/'' # t) (butlast (tl tmp))))"

definition deleteFile :: "fs \<Rightarrow> string \<Rightarrow> fs res" where
  "deleteFile s tfile =
     bnd (dict_get (nameToInum s) tfile) (\<lambda>inum.
     bnd (list_get (inodes s) (int inum)) (\<lambda>n.
     bnd (if refCnt n = 1
          then bnd (if iaddr n \<noteq> -1 then dataFree s (iaddr n) else Inr s) (\<lambda>s. inodeFree s inum)
          else on_inode s inum (\<lambda>n. n\<lparr>refCnt := refCnt n - 1\<rparr>)) (\<lambda>s.
     bnd (dict_get (nameToInum s) (getParent tfile)) (\<lambda>pinum.
     bnd (list_get (inodes s) (int pinum)) (\<lambda>p.
     bnd (if itype n = DIR then on_inode s pinum (\<lambda>n. n\<lparr>refCnt := refCnt n - 1\<rparr>) else Inr s) (\<lambda>s.
     bnd (on_block s (iaddr p) (\<lambda>b. delDirEntry b tfile)) (\<lambda>s.
       if tfile \<in> set (files s) then Inr (s\<lparr>files := remove1 tfile (files s)\<rparr>) else Inl ValueError)))))))"

text \<open>\<open>None\<close> is the result \<^verbatim>\<open>-1\<close> of an operation that fails.\<close>

definition createLink :: "fs \<Rightarrow> string \<Rightarrow> string \<Rightarrow> string \<Rightarrow> (nat option \<times> fs) res" where
  "createLink s target newfile parent =
     bnd (dict_get (nameToInum s) parent) (\<lambda>parentInum.
     bnd (list_get (inodes s) (int parentInum)) (\<lambda>p.
     bnd (list_get (blocks s) (iaddr p)) (\<lambda>pb.
     bnd (getFreeEntries pb) (\<lambda>k. if k \<le> 0 then Inr (None, s)
       else bnd (dirEntryExists pb newfile) (\<lambda>ex. if ex then Inr (None, s)
       else bnd (dict_get (nameToInum s) target) (\<lambda>tinum.
            bnd (on_inode s tinum (\<lambda>n. n\<lparr>refCnt := refCnt n + 1\<rparr>)) (\<lambda>s.
            bnd (on_block s (iaddr p) (\<lambda>b. addDirEntry b (last (split_on CHR ''/'' newfile)) tinum)) (\<lambda>s.
              Inr (Some tinum, s)))))))))"

definition createFile :: "fs \<Rightarrow> string \<Rightarrow> string \<Rightarrow> ftype \<Rightarrow> (nat option \<times> fs) res" where
  "createFile s parent newfile ft =
     bnd (dict_get (nameToInum s) parent) (\<lambda>parentInum.
     bnd (list_get (inodes s) (int parentInum)) (\<lambda>p.
     bnd (list_get (blocks s) (iaddr p)) (\<lambda>pb.
     bnd (getFreeEntries pb) (\<lambda>k. if k \<le> 0 then Inr (None, s)
       else bnd (dirEntryExists pb newfile) (\<lambda>ex. if ex then Inr (None, s)
       else case inodeAlloc s of
              None \<Rightarrow> Inr (None, s)
            | Some (inum, s) \<Rightarrow>
                if ft = DIR
                then (case dataAlloc s of
                        None \<Rightarrow> bnd (inodeFree s inum) (\<lambda>s. Inr (None, s))
                      | Some (fblock, s) \<Rightarrow>
                          bnd (on_block s (int fblock) (\<lambda>b. block_setType b DIR)) (\<lambda>s.
                          bnd (on_block s (int fblock) (\<lambda>b. addDirEntry b ''.'' inum)) (\<lambda>s.
                          bnd (on_block s (int fblock) (\<lambda>b. addDirEntry b ''..'' parentInum)) (\<lambda>s.
                          bnd (on_inode s inum (\<lambda>_. setAll DIR (int fblock) 2)) (\<lambda>s.
                          bnd (on_inode s parentInum (\<lambda>n. n\<lparr>refCnt := refCnt n + 1\<rparr>)) (\<lambda>s.
                          bnd (on_block s (iaddr p) (\<lambda>b. addDirEntry b newfile inum)) (\<lambda>s. Inr (Some inum, s))))))))
                else bnd (on_inode s inum (\<lambda>_. setAll ft (-1) 1)) (\<lambda>s.
                     bnd (on_block s (iaddr p) (\<lambda>b. addDirEntry b newfile inum)) (\<lambda>s. Inr (Some inum, s))))))))"

definition writeFile :: "fs \<Rightarrow> string \<Rightarrow> string \<Rightarrow> (bool \<times> fs) res" where
  "writeFile s tfile d =
     bnd (dict_get (nameToInum s) tfile) (\<lambda>inum.
     bnd (list_get (inodes s) (int inum)) (\<lambda>n.
       if getSize n = 1 then Inr (False, s)
       else case dataAlloc s of
              None \<Rightarrow> Inr (False, s)
            | Some (fblock, s) \<Rightarrow>
                bnd (on_block s (int fblock) (\<lambda>b. block_setType b FIL)) (\<lambda>s.
                bnd (on_block s (int fblock) (\<lambda>b. addData b d)) (\<lambda>s.
                bnd (on_inode s inum (\<lambda>n. n\<lparr>iaddr := int fblock\<rparr>)) (\<lambda>s. Inr (True, s))))))"

section \<open>The workload\<close>

definition pick :: "int \<Rightarrow> 'a list \<Rightarrow> 'a res" where
  "pick k xs = list_get xs (scaled k (int (length xs)))"

definition name_letters :: string where
  "name_letters = ''abcdefghjkmnopqrstuvwxyz''"

definition makeName :: "int \<Rightarrow> string res" where
  "makeName k = bnd (pick k name_letters) (\<lambda>c. Inr [c])"

definition fullName :: "string \<Rightarrow> string \<Rightarrow> string" where
  "fullName parent nfile = (if parent = ''/'' then parent @ nfile else parent @ ''/'' @ nfile)"

definition doDelete :: "fs \<Rightarrow> int \<Rightarrow> (bool \<times> fs) res" where
  "doDelete s r =
     (if files s = [] then Inr (False, s)
      else bnd (pick r (files s)) (\<lambda>dfile. bnd (deleteFile s dfile) (\<lambda>s. Inr (True, s))))"

definition doLink :: "fs \<Rightarrow> int \<Rightarrow> int \<Rightarrow> int \<Rightarrow> (bool \<times> fs) res" where
  "doLink s r1 r2 r3 =
     (if files s = [] then Inr (False, s)
      else bnd (pick r1 (dirs s)) (\<lambda>parent.
           bnd (makeName r2) (\<lambda>nfile.
           bnd (pick r3 (files s)) (\<lambda>target.
           bnd (createLink s target nfile parent) (\<lambda>(inum, s).
             case inum of
               None \<Rightarrow> Inr (False, s)
             | Some i \<Rightarrow> Inr (True, s\<lparr>files := files s @ [fullName parent nfile],
                                    nameToInum := (nameToInum s)(fullName parent nfile \<mapsto> i)\<rparr>))))))"

definition doCreate :: "fs \<Rightarrow> ftype \<Rightarrow> int \<Rightarrow> int \<Rightarrow> (bool \<times> fs) res" where
  "doCreate s ft r1 r2 =
     bnd (pick r1 (dirs s)) (\<lambda>parent.
     bnd (makeName r2) (\<lambda>nfile.
     bnd (createFile s parent nfile ft) (\<lambda>(inum, s).
       case inum of
         None \<Rightarrow> Inr (False, s)
       | Some i \<Rightarrow>
           let s = (if ft = DIR then s\<lparr>dirs := dirs s @ [fullName parent nfile]\<rparr>
                    else s\<lparr>files := files s @ [fullName parent nfile]\<rparr>)
           in Inr (True, s\<lparr>nameToInum := (nameToInum s)(fullName parent nfile \<mapsto> i)\<rparr>))))"

definition doAppend :: "fs \<Rightarrow> int \<Rightarrow> int \<Rightarrow> (bool \<times> fs) res" where
  "doAppend s r1 r2 =
     (if files s = [] then Inr (False, s)
      else bnd (pick r1 (files s)) (\<lambda>afile. writeFile s afile [char_of (97 + r2 * 26 div 2 ^ 53)]))"

datatype fsop = OAppend int int | ODelete int | OLink int int int | OCreate bool int int \<comment> \<open>is it a directory\<close>

definition do_op :: "fs \<Rightarrow> fsop \<Rightarrow> (bool \<times> fs) res" where
  "do_op s p =
     (case p of OAppend r1 r2 \<Rightarrow> doAppend s r1 r2 | ODelete r \<Rightarrow> doDelete s r | OLink r1 r2 r3 \<Rightarrow> doLink s r1 r2 r3
      | OCreate d r1 r2 \<Rightarrow> doCreate s (if d then DIR else FIL) r1 r2)"

text \<open>The next operation and the numbers it draws (none where there is no file to pick); the first number is compared with
  \<^verbatim>\<open>0.3\<close>, \<^verbatim>\<open>0.5\<close>, \<^verbatim>\<open>0.7\<close>, and for a creation the second with \<^verbatim>\<open>0.75\<close>, as the nearest doubles. \<open>None\<close>: the list of numbers is used up.\<close>

definition next_op :: "fs \<Rightarrow> int list \<Rightarrow> (fsop \<times> int list) option" where
  "next_op s rs =
     (case rs of
        [] \<Rightarrow> None
      | r # rs \<Rightarrow>
          if 2 * r < 5404319552844595
          then if files s = [] then Some (OAppend 0 0, rs) else (case rs of a # b # rs \<Rightarrow> Some (OAppend a b, rs) | _ \<Rightarrow> None)
          else if 2 * r < 2 ^ 53
          then if files s = [] then Some (ODelete 0, rs) else (case rs of a # rs \<Rightarrow> Some (ODelete a, rs) | _ \<Rightarrow> None)
          else if r < 6305039478318694
          then if files s = [] then Some (OLink 0 0 0, rs) else (case rs of a # b # c # rs \<Rightarrow> Some (OLink a b c, rs) | _ \<Rightarrow> None)
          else (case rs of q # a # b # rs \<Rightarrow> Some (OCreate (3 * 2 ^ 53 \<le> 4 * q) a b, rs) | _ \<Rightarrow> None))"

lemma next_op_shorter: "next_op s rs = Some (p, rs') \<Longrightarrow> length rs' < length rs"
  by (auto simp: next_op_def split: list.splits if_splits)

text \<open>\<open>n\<close> requests: operations are tried until one succeeds.\<close>

function fs_run :: "nat \<Rightarrow> fs \<Rightarrow> int list \<Rightarrow> fs res" where
  "fs_run n s rs =
     (if n = 0 then Inr s
      else case next_op s rs of
             None \<Rightarrow> Inl NoReturn
           | Some (p, rs') \<Rightarrow>
               bnd (do_op s p) (\<lambda>(rc, s).
                 if numFree (ibitmap s) = 0 then Inl SysExit
                 else if numFree (dbitmap s) = 0 then Inl SysExit
                 else fs_run (if rc then n - 1 else n) s rs'))"
  by pat_completeness auto
termination by (relation "measure (\<lambda>(n, s, rs). length rs)") (auto dest: next_op_shorter)

declare fs_run.simps [simp del]

section \<open>Bitmaps that agree with their table\<close>

definition bits_ok :: "bitmap \<Rightarrow> bool list \<Rightarrow> bool" where
  "bits_ok m used \<longleftrightarrow> bmap m = used \<and> numAllocated m = int (length (filter id used))"

lemma first_clear_Some: "first_clear n bs = Some k \<Longrightarrow> n \<le> k \<and> k - n < length bs \<and> \<not> bs ! (k - n)"
  by (induction n bs rule: first_clear.induct) (auto split: if_splits simp: nth_Cons' Suc_diff_le less_Suc_eq_le dest: Suc_leD)

lemma first_clear_None: "first_clear n bs = None \<Longrightarrow> \<forall>b \<in> set bs. b"
  by (induction n bs rule: first_clear.induct) (auto split: if_splits)

lemma length_filter_update:
  "k < length bs \<Longrightarrow> int (length (filter id (bs[k := b]))) = int (length (filter id bs)) + of_bool b - of_bool (bs ! k)"
proof (induction bs arbitrary: k)
  case (Cons a bs)
  then show ?case using Cons.IH[of "k - 1"] by (cases k) auto
qed simp

lemma bitmap_alloc_ok:
  assumes "bits_ok m used" "bitmap_alloc m = Some (k, m')"
  shows "k < length used \<and> \<not> used ! k \<and> bits_ok m' (used[k := True])"
  using assms first_clear_Some[of 0 "bmap m" k]
  by (auto simp: bitmap_alloc_def bits_ok_def length_filter_update split: option.splits)

lemma bitmap_free_ok:
  assumes "bits_ok m used" "k < length used" "used ! k"
  shows "\<exists>m'. bitmap_free m k = Inr m' \<and> bits_ok m' (used[k := False])"
  using assms by (simp add: bitmap_free_def bits_ok_def length_filter_update)

text \<open>Giving a bit back undoes its allocation.\<close>

lemma bitmap_alloc_free:
  assumes "bits_ok m used" "bitmap_alloc m = Some (k, m')"
  shows "bitmap_free m' k = Inr m"
proof -
  have k: "k < length (bmap m)" "\<not> bmap m ! k" "m' = \<lparr>bmap = (bmap m)[k := True], numAllocated = numAllocated m + 1\<rparr>"
    using bitmap_alloc_ok[OF assms] assms by (auto simp: bits_ok_def bitmap_alloc_def split: option.splits)
  then have "(bmap m)[k := False] = bmap m" by (simp add: list_update_same_conv)
  with k show ?thesis by (simp add: bitmap_free_def)
qed

section \<open>Paths\<close>

definition simple :: "string \<Rightarrow> bool" where
  "simple n \<longleftrightarrow> n \<noteq> [] \<and> CHR ''/'' \<notin> set n \<and> n \<noteq> ''.'' \<and> n \<noteq> ''..''"

definition path :: "string list \<Rightarrow> string" where
  "path cs = (if cs = [] then ''/'' else concat (map (Cons CHR ''/'') cs))"

lemma split_path:
  assumes "cs \<noteq> []" "\<forall>c \<in> set cs. CHR ''/'' \<notin> set c"
  shows "split_on CHR ''/'' (path cs) = [] # cs"
proof -
  have "concat (map (Cons CHR ''/'') cs) = join_with CHR ''/'' ([] # cs)" using assms(1)
    by (induction cs rule: join_with.induct) auto
  then show ?thesis using assms split_join[of "[] # cs" "CHR ''/''"] by (simp add: path_def)
qed

lemma fullName_path: "\<forall>c \<in> set cs. simple c \<Longrightarrow> fullName (path cs) n = path (cs @ [n])"
proof (cases cs)
  case (Cons c ds)
  assume "\<forall>c \<in> set cs. simple c"
  then have "path cs \<noteq> ''/''" using Cons by (auto simp: path_def simple_def)
  then show ?thesis using Cons by (simp add: fullName_def path_def)
qed (simp add: fullName_def path_def)

lemma path_inj:
  assumes "path cs = path ds" "\<forall>c \<in> set cs. simple c" "\<forall>c \<in> set ds. simple c"
  shows "cs = ds"
proof -
  have ne: "path as \<noteq> ''/''" if "as \<noteq> []" "\<forall>c \<in> set as. simple c" for as
    using that by (cases as) (auto simp: path_def simple_def)
  show ?thesis
  proof (cases "cs = [] \<or> ds = []")
    case True
    then show ?thesis using assms ne[of cs] ne[of ds] by (auto simp: path_def split: if_splits)
  next
    case False
    then have "[] # cs = [] # ds"
      using assms(1) split_path[of cs] split_path[of ds] assms(2,3) unfolding simple_def by metis
    then show ?thesis by simp
  qed
qed

lemma getParent_path:
  assumes "\<forall>c \<in> set (cs @ [n]). simple c"
  shows "getParent (path (cs @ [n])) = path cs" "last (split_on CHR ''/'' (path (cs @ [n]))) = n"
proof -
  have s: "split_on CHR ''/'' (path (cs @ [n])) = [] # cs @ [n]" using assms by (intro split_path) (auto simp: simple_def)
  then show "last (split_on CHR ''/'' (path (cs @ [n]))) = n" by simp
  show "getParent (path (cs @ [n])) = path cs" using s by (auto simp: getParent_def path_def)
qed

section \<open>Consistency\<close>

text \<open>The inodes and the blocks agree on who owns what: no block is shared and none is lost.\<close>

definition owns :: "ftype list \<Rightarrow> int list \<Rightarrow> ftype list \<Rightarrow> bool" where
  "owns ts as fts \<longleftrightarrow> length as = length ts \<and>
     (\<forall>i < length ts. ts ! i = FREE \<longrightarrow> as ! i = -1) \<and>
     (\<forall>i < length ts. as ! i \<noteq> -1 \<or> ts ! i = DIR \<longrightarrow> (\<exists>b < length fts. as ! i = int b \<and> fts ! b = ts ! i)) \<and>
     (\<forall>i < length ts. \<forall>j < length ts. as ! i = as ! j \<longrightarrow> as ! i \<noteq> -1 \<longrightarrow> i = j) \<and>
     (\<forall>b < length fts. fts ! b \<noteq> FREE \<longrightarrow> (\<exists>i < length ts. as ! i = int b))"

definition addr_ok :: "inod list \<Rightarrow> blk list \<Rightarrow> bool" where
  "addr_ok ns bs \<longleftrightarrow> owns (map itype ns) (map iaddr ns) (map ftype bs)"

lemma addr_okD:
  assumes "addr_ok ns bs" "i < length ns"
  shows "itype (ns ! i) = FREE \<Longrightarrow> iaddr (ns ! i) = -1"
    "iaddr (ns ! i) \<noteq> -1 \<or> itype (ns ! i) = DIR \<Longrightarrow> \<exists>b < length bs. iaddr (ns ! i) = int b \<and> ftype (bs ! b) = itype (ns ! i)"
    "j < length ns \<Longrightarrow> iaddr (ns ! i) = iaddr (ns ! j) \<Longrightarrow> iaddr (ns ! i) \<noteq> -1 \<Longrightarrow> i = j"
proof -
  have o: "owns (map itype ns) (map iaddr ns) (map ftype bs)" using assms(1) by (simp add: addr_ok_def)
  show "itype (ns ! i) = FREE \<Longrightarrow> iaddr (ns ! i) = -1" using o assms(2) by (simp add: owns_def)
  show "j < length ns \<Longrightarrow> iaddr (ns ! i) = iaddr (ns ! j) \<Longrightarrow> iaddr (ns ! i) \<noteq> -1 \<Longrightarrow> i = j" using o assms(2) by (simp add: owns_def)
  assume "iaddr (ns ! i) \<noteq> -1 \<or> itype (ns ! i) = DIR"
  then obtain b where "b < length (map ftype bs)" "map iaddr ns ! i = int b" "map ftype bs ! b = map itype ns ! i"
    using o assms(2) unfolding owns_def by (metis length_map nth_map)
  then show "\<exists>b < length bs. iaddr (ns ! i) = int b \<and> ftype (bs ! b) = itype (ns ! i)" using assms(2) by auto
qed

definition block_ok :: "blk \<Rightarrow> bool" where
  "block_ok b \<longleftrightarrow> (if ftype b = DIR then dirUsed b = int (length (dirList b)) \<and> dirUsed b \<le> maxUsed \<and> distinct (map fst (dirList b))
     else dirList b = [] \<and> dirUsed b = 0)"

text \<open>All directory entries, and the reference counts: how often an inode is named.\<close>

definition entries :: "blk list \<Rightarrow> (string \<times> nat) multiset" where
  "entries bs = mset (concat (map dirList bs))"

definition refs :: "blk list \<Rightarrow> nat \<Rightarrow> nat" where
  "refs bs i = size (filter_mset (\<lambda>e. snd e = i) (entries bs))"

definition refs_ok :: "inod list \<Rightarrow> blk list \<Rightarrow> bool" where
  "refs_ok ns bs \<longleftrightarrow> (\<forall>e \<in># entries bs. snd e < length ns) \<and>
     (\<forall>i < length ns. if itype (ns ! i) = FREE then refs bs i = 0 else refCnt (ns ! i) = int (refs bs i))"

text \<open>The directory \<open>d\<close> is inode \<open>i\<close>, with block \<open>b\<close>.\<close>

definition dir_at :: "fs \<Rightarrow> string \<Rightarrow> nat \<Rightarrow> nat \<Rightarrow> bool" where
  "dir_at s d i b \<longleftrightarrow> nameToInum s d = Some i \<and> i < length (inodes s) \<and> itype (inodes s ! i) = DIR \<and>
     iaddr (inodes s ! i) = int b \<and> b < length (blocks s) \<and> ftype (blocks s ! b) = DIR"

definition file_at :: "fs \<Rightarrow> string \<Rightarrow> nat \<Rightarrow> bool" where
  "file_at s f i \<longleftrightarrow> nameToInum s f = Some i \<and> i < length (inodes s) \<and> itype (inodes s ! i) = FIL"

text \<open>The names: files and directories are paths, each has its entry in the directory above it, and every entry of a
  directory other than the two dots is a name.\<close>

definition located :: "fs \<Rightarrow> string \<Rightarrow> bool" where
  "located s x \<longleftrightarrow> (\<exists>cs. x = path cs \<and> (\<forall>c \<in> set cs. simple c) \<and>
     (cs \<noteq> [] \<longrightarrow> path (butlast cs) \<in> set (dirs s) \<and>
       (\<forall>i b. dir_at s (path (butlast cs)) i b \<longrightarrow> (last cs, the (nameToInum s x)) \<in> set (dirList (blocks s ! b)))))"

definition listed :: "fs \<Rightarrow> string \<Rightarrow> bool" where
  "listed s d \<longleftrightarrow> (\<forall>i b n t. dir_at s d i b \<longrightarrow> (n, t) \<in> set (dirList (blocks s ! b)) \<longrightarrow> n \<noteq> ''.'' \<longrightarrow> n \<noteq> ''..'' \<longrightarrow>
     simple n \<and> fullName d n \<in> set (files s @ dirs s) \<and> nameToInum s (fullName d n) = Some t)"

definition names_ok :: "fs \<Rightarrow> bool" where
  "names_ok s \<longleftrightarrow>
     distinct (files s @ dirs s) \<and> ''/'' \<in> set (dirs s) \<and>
     (\<forall>d \<in> set (dirs s). \<exists>i b. dir_at s d i b) \<and> (\<forall>f \<in> set (files s). \<exists>i. file_at s f i) \<and>
     (\<forall>d \<in> set (dirs s). \<forall>e \<in> set (dirs s). nameToInum s d = nameToInum s e \<longrightarrow> d = e) \<and>
     (\<forall>x \<in> set (files s @ dirs s). located s x) \<and> (\<forall>d \<in> set (dirs s). listed s d)"

text \<open>A file is freed with its last name: its count is the number of its names.\<close>

definition names_of :: "fs \<Rightarrow> nat \<Rightarrow> string list" where
  "names_of s i = filter (\<lambda>f. nameToInum s f = Some i) (files s)"

definition links_ok :: "fs \<Rightarrow> bool" where
  "links_ok s \<longleftrightarrow> (\<forall>i < length (inodes s). itype (inodes s ! i) = FIL \<longrightarrow> refCnt (inodes s ! i) = int (length (names_of s i)))"

definition fs_ok :: "fs \<Rightarrow> bool" where
  "fs_ok s \<longleftrightarrow>
     bits_ok (ibitmap s) (map (\<lambda>n. itype n \<noteq> FREE) (inodes s)) \<and>
     bits_ok (dbitmap s) (map (\<lambda>b. ftype b \<noteq> FREE) (blocks s)) \<and>
     addr_ok (inodes s) (blocks s) \<and> (\<forall>b \<in> set (blocks s). block_ok b) \<and> refs_ok (inodes s) (blocks s) \<and> names_ok s \<and>
     links_ok s"

lemma dir_at_unique: "dir_at s d i b \<Longrightarrow> dir_at s d j c \<Longrightarrow> i = j \<and> b = c"
  by (auto simp: dir_at_def)

text \<open>Two directories have different blocks.\<close>

lemma dir_at_apart:
  assumes "fs_ok s" "d \<in> set (dirs s)" "e \<in> set (dirs s)" "d \<noteq> e" "dir_at s d i b" "dir_at s e j c"
  shows "b \<noteq> c \<and> i \<noteq> j"
proof -
  have "i \<noteq> j" using assms by (auto simp: fs_ok_def names_ok_def dir_at_def)
  moreover have "iaddr (inodes s ! i) = int b" "iaddr (inodes s ! j) = int c" "i < length (inodes s)" "j < length (inodes s)"
    using assms by (auto simp: dir_at_def)
  moreover have "addr_ok (inodes s) (blocks s)" using assms(1) by (simp add: fs_ok_def)
  ultimately show ?thesis using addr_okD(3)[of "inodes s" "blocks s" i j] by auto
qed

section \<open>Entering a name in a directory\<close>

abbreviation enter :: "blk \<Rightarrow> string \<Rightarrow> nat \<Rightarrow> blk" where
  "enter b n i \<equiv> b\<lparr>dirList := dirList b @ [(n, i)], dirUsed := dirUsed b + 1\<rparr>"

lemma addDirEntry_ok: "ftype b = DIR \<Longrightarrow> dirUsed b < maxUsed \<Longrightarrow> addDirEntry b n i = Inr (enter b n i)"
  by (simp add: addDirEntry_def asserting_def)

lemma on_block_ok: "b < length (blocks s) \<Longrightarrow> f (blocks s ! b) = Inr v \<Longrightarrow> on_block s (int b) f = Inr (s\<lparr>blocks := (blocks s)[b := v]\<rparr>)"
  by (simp add: on_block_def)

lemma on_inode_ok: "i < length (inodes s) \<Longrightarrow> on_inode s i f = Inr (s\<lparr>inodes := (inodes s)[i := f (inodes s ! i)]\<rparr>)"
  by (simp add: on_inode_def)

lemma entries_update:
  "b < length bs \<Longrightarrow> entries (bs[b := v]) + mset (dirList (bs ! b)) = entries bs + mset (dirList v)"
  using mset_concat_update[of b "map dirList bs" "dirList v"] by (simp add: entries_def map_update)

lemma entries_enter:
  assumes "b < length bs"
  shows "entries (bs[b := enter (bs ! b) n i]) = entries bs + {#(n, i)#}"
  using entries_update[OF assms, of "enter (bs ! b) n i"] by simp

lemma entries_same: "b < length bs \<Longrightarrow> dirList v = dirList (bs ! b) \<Longrightarrow> entries (bs[b := v]) = entries bs"
  using entries_update[of b bs v] by simp

lemma refs_enter: "b < length bs \<Longrightarrow> refs (bs[b := enter (bs ! b) n i]) k = refs bs k + (if k = i then 1 else 0)"
  by (simp add: refs_def entries_enter)

text \<open>Blocks and inodes that change nothing but their content.\<close>

lemma addr_ok_block:
  "addr_ok ns bs \<Longrightarrow> b < length bs \<Longrightarrow> ftype v = ftype (bs ! b) \<Longrightarrow> addr_ok ns (bs[b := v])"
  by (simp add: addr_ok_def map_update_same)

lemma addr_ok_inode:
  "addr_ok ns bs \<Longrightarrow> i < length ns \<Longrightarrow> itype v = itype (ns ! i) \<Longrightarrow> iaddr v = iaddr (ns ! i) \<Longrightarrow> addr_ok (ns[i := v]) bs"
  by (simp add: addr_ok_def map_update_same)

text \<open>A free inode that becomes a file without a block.\<close>

lemma addr_ok_new_file:
  assumes ok: "addr_ok ns bs" and i: "i < length ns" "itype (ns ! i) = FREE" and v: "itype v = FIL" "iaddr v = -1"
  shows "addr_ok (ns[i := v]) bs"
proof -
  have "iaddr (ns ! i) = -1" using addr_okD(1)[OF ok i(1)] i(2) by simp
  then have eq: "map iaddr (ns[i := v]) = map iaddr ns" using i v by (simp add: map_update_same)
  have a: "map iaddr ns ! i = -1" using i \<open>iaddr (ns ! i) = -1\<close> by simp
  have o: "owns (map itype ns) (map iaddr ns) (map ftype bs)" using ok by (simp add: addr_ok_def)
  have "owns ((map itype ns)[i := FIL]) (map iaddr ns) (map ftype bs)"
    unfolding owns_def length_list_update
  proof (intro conjI allI impI)
    fix k assume "k < length (map itype ns)" "(map itype ns)[i := FIL] ! k = FREE"
    then show "map iaddr ns ! k = -1" using o i by (cases "k = i") (auto simp: owns_def)
  next
    fix k assume k: "k < length (map itype ns)" "map iaddr ns ! k \<noteq> -1 \<or> (map itype ns)[i := FIL] ! k = DIR"
    then have "k \<noteq> i" using a i by auto
    then show "\<exists>b < length (map ftype bs). map iaddr ns ! k = int b \<and> map ftype bs ! b = (map itype ns)[i := FIL] ! k"
      using k o unfolding owns_def by simp
  qed (use o in \<open>simp_all add: owns_def\<close>)
  then show ?thesis using v by (simp add: addr_ok_def eq) (simp add: map_update)
qed

text \<open>A free block that becomes the block of an inode.\<close>

lemma addr_ok_new_block:
  assumes ok: "addr_ok ns bs" and i: "i < length ns" "iaddr (ns ! i) = -1" and b: "b < length bs" "ftype (bs ! b) = FREE"
    and v: "itype v \<noteq> FREE" "iaddr v = int b" "ftype w = itype v"
  shows "addr_ok (ns[i := v]) (bs[b := w])"
proof -
  let ?ts = "map itype ns" and ?as = "map iaddr ns" and ?fs = "map ftype bs"
  have o: "owns ?ts ?as ?fs" using ok by (simp add: addr_ok_def)
  have nb: "?as ! k \<noteq> int b" if k: "k < length ns" for k
  proof
    assume eq: "?as ! k = int b"
    then obtain c where "c < length bs" "iaddr (ns ! k) = int c" "ftype (bs ! c) = itype (ns ! k)"
      using addr_okD(2)[OF ok k] k by auto
    then have "itype (ns ! k) = FREE" using b(2) eq k by simp
    then show False using addr_okD(1)[OF ok k] eq k by simp
  qed
  have "owns (?ts[i := itype v]) (?as[i := int b]) (?fs[b := itype v])"
    unfolding owns_def length_list_update
  proof (intro conjI allI impI)
    fix k assume k: "k < length ?ts" "?ts[i := itype v] ! k = FREE"
    then show "?as[i := int b] ! k = -1" using o v i by (cases "k = i") (auto simp: owns_def)
  next
    fix k assume k: "k < length ?ts" "?as[i := int b] ! k \<noteq> -1 \<or> ?ts[i := itype v] ! k = DIR"
    show "\<exists>c < length ?fs. ?as[i := int b] ! k = int c \<and> ?fs[b := itype v] ! c = ?ts[i := itype v] ! k"
    proof (cases "k = i")
      case True
      then show ?thesis using b i by (intro exI[of _ b]) simp
    next
      case False
      then obtain c where c: "c < length bs" "iaddr (ns ! k) = int c" "ftype (bs ! c) = itype (ns ! k)"
        using addr_okD(2)[OF ok, of k] k by auto
      then have "c \<noteq> b" using nb[of k] k(1) by auto
      then show ?thesis using c False k(1) by (intro exI[of _ c]) simp
    qed
  next
    fix j k assume jk: "j < length ?ts" "k < length ?ts" "?as[i := int b] ! j = ?as[i := int b] ! k" "?as[i := int b] ! j \<noteq> -1"
    show "j = k"
    proof (cases "j = i \<or> k = i")
      case True
      then show ?thesis using jk nb[of j] nb[of k] i by (auto simp: nth_list_update split: if_splits)
    next
      case False
      then show ?thesis using jk o unfolding owns_def by simp
    qed
  next
    fix c assume c: "c < length ?fs" "?fs[b := itype v] ! c \<noteq> FREE"
    show "\<exists>k < length ?ts. ?as[i := int b] ! k = int c"
    proof (cases "c = b")
      case True
      then show ?thesis using i by (intro exI[of _ i]) simp
    next
      case False
      then obtain k where k: "k < length ns" "iaddr (ns ! k) = int c" using o c unfolding owns_def by auto
      then have "k \<noteq> i" using i by auto
      then show ?thesis using k by (intro exI[of _ k]) simp
    qed
  qed simp
  then show ?thesis using v by (simp add: addr_ok_def map_update)
qed

text \<open>An inode that gives its block back.\<close>

lemma addr_ok_free:
  assumes ok: "addr_ok ns bs" and i: "i < length ns" "itype v = FREE" "iaddr v = -1"
    and w: "iaddr (ns ! i) = -1 \<and> bs' = bs \<or> (\<exists>b < length bs. iaddr (ns ! i) = int b \<and> bs' = bs[b := w] \<and> ftype w = FREE)"
  shows "addr_ok (ns[i := v]) bs'"
proof -
  let ?ts = "map itype ns" and ?as = "map iaddr ns" and ?fs = "map ftype bs"
  have o: "owns ?ts ?as ?fs" using ok by (simp add: addr_ok_def)
  define fs' where "fs' = map ftype bs'"
  have len: "length fs' = length ?fs" using w by (auto simp: fs'_def)
  have other: "fs' ! c = ?fs ! c" if "c < length bs" "iaddr (ns ! i) \<noteq> int c" for c
    using w that by (auto simp: fs'_def nth_list_update)
  have own: "fs' ! c = FREE" if "c < length bs" "iaddr (ns ! i) = int c" for c
    using w that by (auto simp: fs'_def nth_list_update)
  have "owns (?ts[i := FREE]) (?as[i := -1]) fs'"
    unfolding owns_def length_list_update len
  proof (intro conjI allI impI)
    fix k assume k: "k < length ?ts" "?ts[i := FREE] ! k = FREE"
    then show "?as[i := -1] ! k = -1" using o i by (cases "k = i") (auto simp: owns_def)
  next
    fix k assume k: "k < length ?ts" "?as[i := -1] ! k \<noteq> -1 \<or> ?ts[i := FREE] ! k = DIR"
    then have ki: "k \<noteq> i" using i by auto
    then obtain c where c: "c < length bs" "iaddr (ns ! k) = int c" "ftype (bs ! c) = itype (ns ! k)"
      using addr_okD(2)[OF ok, of k] k by auto
    then have "iaddr (ns ! i) \<noteq> int c" using addr_okD(3)[OF ok i(1), of k] k(1) ki by auto
    then show "\<exists>c < length ?fs. ?as[i := -1] ! k = int c \<and> fs' ! c = ?ts[i := FREE] ! k"
      using c ki k(1) other[OF c(1)] by (intro exI[of _ c]) simp
  next
    fix j k assume jk: "j < length ?ts" "k < length ?ts" "?as[i := -1] ! j = ?as[i := -1] ! k" "?as[i := -1] ! j \<noteq> -1"
    then have "j \<noteq> i" "k \<noteq> i" using i by (auto simp: nth_list_update split: if_splits)
    then show "j = k" using jk o unfolding owns_def by simp
  next
    fix c assume c: "c < length ?fs" "fs' ! c \<noteq> FREE"
    then have ic: "iaddr (ns ! i) \<noteq> int c" using own[of c] by auto
    then obtain k where k: "k < length ns" "iaddr (ns ! k) = int c" using o c other[of c] unfolding owns_def by auto
    then have "k \<noteq> i" using ic by auto
    then show "\<exists>k < length ?ts. ?as[i := -1] ! k = int c" using k by (intro exI[of _ k]) simp
  qed simp
  then show ?thesis using i(2,3) by (simp add: addr_ok_def map_update fs'_def)
qed

section \<open>Names after an operation\<close>

text \<open>A step that keeps the directories where they are; \<open>b\<close> is the one directory block it may change.\<close>

definition same_dirs :: "fs \<Rightarrow> fs \<Rightarrow> nat \<Rightarrow> bool" where
  "same_dirs s s' b \<longleftrightarrow> (\<forall>d \<in> set (dirs s). \<forall>i c. (dir_at s' d i c \<longleftrightarrow> dir_at s d i c) \<and>
     (dir_at s d i c \<longrightarrow> nameToInum s' d = nameToInum s d \<and> (c \<noteq> b \<longrightarrow> dirList (blocks s' ! c) = dirList (blocks s ! c))))"

lemma located_mono:
  assumes "located s x" "same_dirs s s' b" "set (dirs s) \<subseteq> set (dirs s')" "nameToInum s' x = nameToInum s x"
    and "\<And>n. (n, the (nameToInum s x)) \<in> set (dirList (blocks s ! b)) \<Longrightarrow>
      (\<exists>cs. x = path (cs @ [n]) \<and> (\<forall>c \<in> set (cs @ [n]). simple c)) \<Longrightarrow> (n, the (nameToInum s x)) \<in> set (dirList (blocks s' ! b))"
  shows "located s' x"
proof -
  obtain cs where cs: "x = path cs" "\<forall>c \<in> set cs. simple c"
    "cs \<noteq> [] \<longrightarrow> path (butlast cs) \<in> set (dirs s) \<and>
       (\<forall>i b. dir_at s (path (butlast cs)) i b \<longrightarrow> (last cs, the (nameToInum s x)) \<in> set (dirList (blocks s ! b)))"
    using assms(1) by (auto simp: located_def)
  have "(last cs, the (nameToInum s' x)) \<in> set (dirList (blocks s' ! c))" if ne: "cs \<noteq> []" and at: "dir_at s' (path (butlast cs)) i c" for i c
  proof -
    have d: "path (butlast cs) \<in> set (dirs s)" using cs(3) ne by blast
    then have at': "dir_at s (path (butlast cs)) i c" using assms(2) at by (simp add: same_dirs_def)
    then have e: "(last cs, the (nameToInum s x)) \<in> set (dirList (blocks s ! c))" using cs(3) ne by blast
    show ?thesis
    proof (cases "c = b")
      case True
      have "\<exists>ds. x = path (ds @ [last cs]) \<and> (\<forall>c \<in> set (ds @ [last cs]). simple c)" using cs ne by (intro exI[of _ "butlast cs"]) simp
      then show ?thesis using assms(4,5) e True by auto
    next
      case False
      then show ?thesis using assms(2,4) d at' e unfolding same_dirs_def by metis
    qed
  qed
  moreover have "cs \<noteq> [] \<longrightarrow> path (butlast cs) \<in> set (dirs s')" using cs(3) assms(3) by blast
  ultimately show ?thesis using cs(1,2) by (auto simp: located_def)
qed

text \<open>A new file name \<open>fullName d n\<close> for inode \<open>t\<close>.\<close>

lemma names_add_file:
  assumes ok: "fs_ok s" and d: "d \<in> set (dirs s)" "dir_at s d i b" and n: "simple n" and x: "x = fullName d n" "x \<notin> set (files s @ dirs s)"
    and same: "same_dirs s s' b" and lists: "files s' = files s @ [x]" "dirs s' = dirs s" "nameToInum s' = (nameToInum s)(x \<mapsto> t)"
    and fl: "\<And>f k. f \<in> set (files s) \<Longrightarrow> file_at s f k \<Longrightarrow> file_at s' f k" and t: "file_at s' x t"
    and blk: "dirList (blocks s' ! b) = dirList (blocks s ! b) @ [(n, t)]"
  shows "names_ok s'"
proof -
  have nm: "names_ok s" using ok by (simp add: fs_ok_def)
  have xd: "x \<notin> set (dirs s)" using x by simp
  have dirs: "\<exists>i b. dir_at s' e i b" if "e \<in> set (dirs s)" for e
    using nm same that unfolding names_ok_def same_dirs_def by metis
  have old: "located s' y" if "y \<in> set (files s @ dirs s)" for y
    by (rule located_mono[where s = s and b = b]) (use nm that x same lists blk in \<open>auto simp: names_ok_def\<close>)
  have new: "located s' x"
  proof -
    have "located s d" using nm d(1) by (simp add: names_ok_def)
    then obtain ds where ds: "d = path ds" "\<forall>c \<in> set ds. simple c" unfolding located_def by blast
    have "x = path (ds @ [n])" using ds fullName_path x(1) by simp
    moreover have "(n, t) \<in> set (dirList (blocks s' ! c))" if "dir_at s' d j c" for j c
    proof -
      have "dir_at s d j c" using same that d(1) by (simp add: same_dirs_def)
      then have "c = b" using dir_at_unique d(2) by blast
      then show ?thesis using blk by simp
    qed
    ultimately show ?thesis using ds d(1) n lists by (auto simp: located_def intro!: exI[of _ "ds @ [n]"])
  qed
  have lst: "listed s' e" if e: "e \<in> set (dirs s)" for e
    unfolding listed_def
  proof (intro allI impI)
    fix j c m u assume *: "dir_at s' e j c" "(m, u) \<in> set (dirList (blocks s' ! c))" "m \<noteq> ''.''" "m \<noteq> ''..''"
    have at: "dir_at s e j c" using same *(1) e by (simp add: same_dirs_def)
    show "simple m \<and> fullName e m \<in> set (files s' @ dirs s') \<and> nameToInum s' (fullName e m) = Some u"
    proof (cases "c = b")
      case True
      then have "e = d" using dir_at_apart[OF ok e d(1) _ at d(2)] by blast
      show ?thesis
      proof (cases "(m, u) = (n, t)")
        case True
        then show ?thesis using x \<open>e = d\<close> lists n by simp
      next
        case False
        then have "(m, u) \<in> set (dirList (blocks s ! b))" using *(2) True blk by auto
        then have "simple m \<and> fullName e m \<in> set (files s @ dirs s) \<and> nameToInum s (fullName e m) = Some u"
          using nm e at True *(3,4) unfolding names_ok_def listed_def by blast
        then show ?thesis using lists x(2) by auto
      qed
    next
      case False
      then have "(m, u) \<in> set (dirList (blocks s ! c))" using *(2) same e at unfolding same_dirs_def by metis
      then have "simple m \<and> fullName e m \<in> set (files s @ dirs s) \<and> nameToInum s (fullName e m) = Some u"
        using nm e at *(3,4) unfolding names_ok_def listed_def by blast
      then show ?thesis using lists x(2) by auto
    qed
  qed
  have "\<forall>f \<in> set (files s'). \<exists>i. file_at s' f i"
  proof
    fix f assume "f \<in> set (files s')"
    then consider "f \<in> set (files s)" | "f = x" using lists by auto
    then show "\<exists>i. file_at s' f i" using nm fl t unfolding names_ok_def by cases blast+
  qed
  moreover have "\<forall>d \<in> set (dirs s'). \<forall>e \<in> set (dirs s'). nameToInum s' d = nameToInum s' e \<longrightarrow> d = e"
    using nm lists xd by (auto simp: names_ok_def)
  moreover have "distinct (files s' @ dirs s')" "''/'' \<in> set (dirs s')" using nm x lists by (auto simp: names_ok_def)
  moreover have "\<forall>x \<in> set (files s' @ dirs s'). located s' x" using old new lists by auto
  moreover have "\<forall>d \<in> set (dirs s'). \<exists>i b. dir_at s' d i b" "\<forall>d \<in> set (dirs s'). listed s' d" using dirs lst lists(2) by simp_all
  ultimately show ?thesis by (simp add: names_ok_def)
qed

text \<open>A new directory \<open>fullName d n\<close>, inode \<open>t\<close>, block \<open>c0\<close>.\<close>

lemma names_add_dir:
  assumes ok: "fs_ok s" and d: "d \<in> set (dirs s)" "dir_at s d i b" and n: "simple n" and x: "x = fullName d n" "x \<notin> set (files s @ dirs s)"
    and same: "same_dirs s s' b" and lists: "files s' = files s" "dirs s' = dirs s @ [x]" "nameToInum s' = (nameToInum s)(x \<mapsto> t)"
    and fl: "\<And>f k. f \<in> set (files s) \<Longrightarrow> file_at s f k \<Longrightarrow> file_at s' f k" and t: "dir_at s' x t c0" "\<forall>e \<in> set (dirs s). nameToInum s e \<noteq> Some t"
    and blk: "dirList (blocks s' ! b) = dirList (blocks s ! b) @ [(n, t)]" "dirList (blocks s' ! c0) = [(''.'', t), (''..'', i)]"
  shows "names_ok s'"
proof -
  have nm: "names_ok s" using ok by (simp add: fs_ok_def)
  have xd: "x \<notin> set (dirs s)" using x by simp
  have dirs: "\<exists>i b. dir_at s' e i b" if "e \<in> set (dirs s')" for e
  proof (cases "e = x")
    case False
    then have "e \<in> set (dirs s)" using that lists by auto
    then show ?thesis using nm same unfolding names_ok_def same_dirs_def by metis
  qed (use t in blast)
  have old: "located s' y" if "y \<in> set (files s @ dirs s)" for y
    by (rule located_mono[where s = s and b = b]) (use nm that x same lists blk in \<open>auto simp: names_ok_def\<close>)
  have new: "located s' x"
  proof -
    have "located s d" using nm d(1) by (simp add: names_ok_def)
    then obtain ds where ds: "d = path ds" "\<forall>c \<in> set ds. simple c" unfolding located_def by blast
    have "x = path (ds @ [n])" using ds fullName_path x(1) by simp
    moreover have "(n, t) \<in> set (dirList (blocks s' ! c))" if "dir_at s' d j c" for j c
    proof -
      have "dir_at s d j c" using same that d(1) by (simp add: same_dirs_def)
      then have "c = b" using dir_at_unique d(2) by blast
      then show ?thesis using blk by simp
    qed
    ultimately show ?thesis using ds d(1) n lists by (auto simp: located_def intro!: exI[of _ "ds @ [n]"])
  qed
  have lst: "listed s' e" if e: "e \<in> set (dirs s)" for e
    unfolding listed_def
  proof (intro allI impI)
    fix j c m u assume *: "dir_at s' e j c" "(m, u) \<in> set (dirList (blocks s' ! c))" "m \<noteq> ''.''" "m \<noteq> ''..''"
    have at: "dir_at s e j c" using same *(1) e by (simp add: same_dirs_def)
    show "simple m \<and> fullName e m \<in> set (files s' @ dirs s') \<and> nameToInum s' (fullName e m) = Some u"
    proof (cases "c = b \<and> (m, u) = (n, t)")
      case True
      then have "e = d" using dir_at_apart[OF ok e d(1) _ at d(2)] by blast
      then show ?thesis using x True lists n by simp
    next
      case False
      then have "(m, u) \<in> set (dirList (blocks s ! c))" using *(2) same e at blk(1) unfolding same_dirs_def
        by (cases "c = b") auto
      then have "simple m \<and> fullName e m \<in> set (files s @ dirs s) \<and> nameToInum s (fullName e m) = Some u"
        using nm e at *(3,4) unfolding names_ok_def listed_def by blast
      then show ?thesis using lists x(2) by auto
    qed
  qed
  have "listed s' x"
    unfolding listed_def
  proof (intro allI impI)
    fix j c m u assume *: "dir_at s' x j c" "(m, u) \<in> set (dirList (blocks s' ! c))" "m \<noteq> ''.''" "m \<noteq> ''..''"
    then have "c = c0" using dir_at_unique t(1) by blast
    then show "simple m \<and> fullName x m \<in> set (files s' @ dirs s') \<and> nameToInum s' (fullName x m) = Some u" using * blk(2) by auto
  qed
  moreover have "\<forall>f \<in> set (files s'). \<exists>i. file_at s' f i"
    using nm fl lists unfolding names_ok_def by metis
  moreover have "\<forall>d \<in> set (dirs s'). \<forall>e \<in> set (dirs s'). nameToInum s' d = nameToInum s' e \<longrightarrow> d = e"
  proof (intro ballI impI)
    fix u v assume *: "u \<in> set (dirs s')" "v \<in> set (dirs s')" "nameToInum s' u = nameToInum s' v"
    have inj: "u = v" if "u \<in> set (dirs s)" "v \<in> set (dirs s)" "nameToInum s u = nameToInum s v"
      using nm that unfolding names_ok_def by blast
    show "u = v" using * lists xd t(2) inj by (auto split: if_splits)
  qed
  moreover have "distinct (files s' @ dirs s')" "''/'' \<in> set (dirs s')" using nm x lists by (auto simp: names_ok_def)
  moreover have "\<forall>x \<in> set (files s' @ dirs s'). located s' x" using old new lists by auto
  moreover have "\<forall>d \<in> set (dirs s'). listed s' d" using lst \<open>listed s' x\<close> lists(2) by auto
  moreover have "\<forall>d \<in> set (dirs s'). \<exists>i b. dir_at s' d i b" using dirs by simp
  ultimately show ?thesis by (simp add: names_ok_def)
qed

text \<open>A file name that goes away.\<close>

lemma names_del_file:
  assumes ok: "fs_ok s" and d: "d \<in> set (dirs s)" "dir_at s d i b" and n: "simple n" and x: "x = fullName d n" "x \<in> set (files s)"
    and same: "same_dirs s s' b" and lists: "files s' = remove1 x (files s)" "dirs s' = dirs s" "nameToInum s' = nameToInum s"
    and fl: "\<And>f k. f \<in> set (files s) \<Longrightarrow> f \<noteq> x \<Longrightarrow> file_at s f k \<Longrightarrow> file_at s' f k"
    and blk: "set (dirList (blocks s' ! b)) = {e \<in> set (dirList (blocks s ! b)). fst e \<noteq> n}"
  shows "names_ok s'"
proof -
  have nm: "names_ok s" using ok by (simp add: fs_ok_def)
  have dis: "distinct (files s @ dirs s)" using nm by (simp add: names_ok_def)
  have names: "set (files s' @ dirs s') = set (files s @ dirs s) - {x}" using dis x(2) lists by auto
  have "located s d" using nm d(1) by (simp add: names_ok_def)
  then obtain ds where ds: "d = path ds" "\<forall>c \<in> set ds. simple c" unfolding located_def by blast
  have xp: "x = path (ds @ [n])" using ds fullName_path x(1) by simp
  have dirs: "\<exists>i b. dir_at s' e i b" if "e \<in> set (dirs s)" for e
    using nm same that unfolding names_ok_def same_dirs_def by metis
  have loc: "located s' y" if y: "y \<in> set (files s' @ dirs s')" for y
  proof -
    have y': "y \<in> set (files s @ dirs s)" "y \<noteq> x" using y names by auto
    have L: "located s y" using nm y'(1) by (simp add: names_ok_def)
    then obtain cs where cs: "y = path cs" "\<forall>c \<in> set cs. simple c"
      "cs \<noteq> [] \<longrightarrow> path (butlast cs) \<in> set (dirs s) \<and>
         (\<forall>i b. dir_at s (path (butlast cs)) i b \<longrightarrow> (last cs, the (nameToInum s y)) \<in> set (dirList (blocks s ! b)))"
      unfolding located_def by blast
    have "(last cs, the (nameToInum s y)) \<in> set (dirList (blocks s' ! c))" if ne: "cs \<noteq> []" and at: "dir_at s' (path (butlast cs)) j c" for j c
    proof -
      have pd: "path (butlast cs) \<in> set (dirs s)" using cs(3) ne by blast
      then have at': "dir_at s (path (butlast cs)) j c" using same at by (simp add: same_dirs_def)
      then have e: "(last cs, the (nameToInum s y)) \<in> set (dirList (blocks s ! c))" using cs(3) ne by blast
      show ?thesis
      proof (cases "c = b")
        case True
        then have pd': "path (butlast cs) = d" using dir_at_apart[OF ok pd d(1) _ at' d(2)] by blast
        have "last cs \<noteq> n"
        proof
          assume "last cs = n"
          moreover have "butlast cs = ds"
          proof (rule path_inj)
            show "path (butlast cs) = path ds" using pd' ds(1) by simp
            show "\<forall>c \<in> set (butlast cs). simple c" using cs(2) by (meson in_set_butlastD)
          qed (rule ds(2))
          ultimately have "cs = ds @ [n]" using ne by (metis append_butlast_last_id)
          then show False using cs(1) xp y'(2) by simp
        qed
        then show ?thesis using e blk True by simp
      next
        case False
        then show ?thesis using same pd at' e unfolding same_dirs_def by metis
      qed
    qed
    moreover have "cs \<noteq> [] \<longrightarrow> path (butlast cs) \<in> set (dirs s')" using cs(3) lists by simp
    ultimately show ?thesis using cs(1,2) lists(3) unfolding located_def by auto
  qed
  have lst: "listed s' e" if e: "e \<in> set (dirs s)" for e
    unfolding listed_def
  proof (intro allI impI)
    fix j c m u assume *: "dir_at s' e j c" "(m, u) \<in> set (dirList (blocks s' ! c))" "m \<noteq> ''.''" "m \<noteq> ''..''"
    have at: "dir_at s e j c" using same *(1) e by (simp add: same_dirs_def)
    have mu: "(m, u) \<in> set (dirList (blocks s ! c))" "c = b \<longrightarrow> m \<noteq> n" using *(2) same e at blk unfolding same_dirs_def
      by (cases "c = b"; auto)+
    then have f: "simple m \<and> fullName e m \<in> set (files s @ dirs s) \<and> nameToInum s (fullName e m) = Some u"
      using nm e at *(3,4) unfolding names_ok_def listed_def by blast
    have "fullName e m \<noteq> x"
    proof
      assume eq: "fullName e m = x"
      have "located s e" using nm e by (simp add: names_ok_def)
      then obtain es where es: "e = path es" "\<forall>c \<in> set es. simple c" unfolding located_def by blast
      have "path (es @ [m]) = path (ds @ [n])" using eq es fullName_path xp by simp
      moreover have "simple m" using f by blast
      ultimately have "es @ [m] = ds @ [n]" using es(2) ds(2) n by (intro path_inj) auto
      then show False using mu(2) es ds at d(2) dir_at_unique by (metis append1_eq_conv)
    qed
    then show "simple m \<and> fullName e m \<in> set (files s' @ dirs s') \<and> nameToInum s' (fullName e m) = Some u" using f names lists(3) by auto
  qed
  have "\<forall>f \<in> set (files s'). \<exists>i. file_at s' f i"
  proof
    fix f assume "f \<in> set (files s')"
    then have "f \<in> set (files s)" "f \<noteq> x" using lists(1) dis by auto
    then show "\<exists>i. file_at s' f i" using nm fl unfolding names_ok_def by metis
  qed
  moreover have "distinct (files s' @ dirs s')" "''/'' \<in> set (dirs s')" using nm lists dis by (auto simp: names_ok_def dest: notin_set_remove1)
  moreover have "\<forall>d \<in> set (dirs s'). \<forall>e \<in> set (dirs s'). nameToInum s' d = nameToInum s' e \<longrightarrow> d = e" using nm lists by (auto simp: names_ok_def)
  moreover have "\<forall>d \<in> set (dirs s'). \<exists>i b. dir_at s' d i b" "\<forall>d \<in> set (dirs s'). listed s' d" using dirs lst lists(2) by simp_all
  moreover have "\<forall>x \<in> set (files s' @ dirs s'). located s' x" using loc by blast
  ultimately show ?thesis by (simp add: names_ok_def)
qed

lemma names_same:
  assumes ok: "fs_ok s" and same: "same_dirs s s' b" "dirList (blocks s' ! b) = dirList (blocks s ! b)"
    and lists: "files s' = files s" "dirs s' = dirs s" "nameToInum s' = nameToInum s"
    and fl: "\<And>f k. f \<in> set (files s) \<Longrightarrow> file_at s f k \<Longrightarrow> file_at s' f k"
  shows "names_ok s'"
proof -
  have nm: "names_ok s" using ok by (simp add: fs_ok_def)
  have "listed s' e" if e: "e \<in> set (dirs s)" for e
    unfolding listed_def
  proof (intro allI impI)
    fix j c m u assume *: "dir_at s' e j c" "(m, u) \<in> set (dirList (blocks s' ! c))" "m \<noteq> ''.''" "m \<noteq> ''..''"
    have at: "dir_at s e j c" using same *(1) e by (simp add: same_dirs_def)
    have "(m, u) \<in> set (dirList (blocks s ! c))" using *(2) same e at unfolding same_dirs_def by (cases "c = b") auto
    then show "simple m \<and> fullName e m \<in> set (files s' @ dirs s') \<and> nameToInum s' (fullName e m) = Some u"
      using nm e at *(3,4) lists unfolding names_ok_def listed_def by auto
  qed
  moreover have "located s' y" if "y \<in> set (files s @ dirs s)" for y
    by (rule located_mono[where s = s and b = b]) (use nm that same lists in \<open>auto simp: names_ok_def\<close>)
  moreover have "\<exists>i b. dir_at s' e i b" if "e \<in> set (dirs s)" for e
    using nm same that unfolding names_ok_def same_dirs_def by metis
  moreover have "\<forall>f \<in> set (files s'). \<exists>i. file_at s' f i" using nm fl lists unfolding names_ok_def by metis
  ultimately show ?thesis using nm lists by (simp add: names_ok_def)
qed

lemma same_dirsI:
  assumes ok: "fs_ok s" and len: "length (inodes s') = length (inodes s)" "length (blocks s') = length (blocks s)"
    and nm: "\<And>d. d \<in> set (dirs s) \<Longrightarrow> nameToInum s' d = nameToInum s d"
    and ino: "\<And>i. i < length (inodes s) \<Longrightarrow> itype (inodes s ! i) = DIR \<Longrightarrow>
      itype (inodes s' ! i) = DIR \<and> iaddr (inodes s' ! i) = iaddr (inodes s ! i)"
    and blk: "\<And>c. c < length (blocks s) \<Longrightarrow> ftype (blocks s ! c) = DIR \<Longrightarrow>
      ftype (blocks s' ! c) = DIR \<and> (c \<noteq> b \<longrightarrow> dirList (blocks s' ! c) = dirList (blocks s ! c))"
  shows "same_dirs s s' b"
  unfolding same_dirs_def
proof (intro ballI allI conjI impI)
  fix d i c assume d: "d \<in> set (dirs s)"
  obtain j e where at: "dir_at s d j e" using ok d by (auto simp: fs_ok_def names_ok_def)
  then have je: "j < length (inodes s)" "e < length (blocks s)" "itype (inodes s ! j) = DIR" "ftype (blocks s ! e) = DIR" by (auto simp: dir_at_def)
  have at': "dir_at s' d j e" using at ino[OF je(1,3)] blk[OF je(2,4)] nm[OF d] len by (simp add: dir_at_def)
  show "dir_at s' d i c = dir_at s d i c" using at at' dir_at_unique by blast
  assume "dir_at s d i c"
  then have "c = e" using at dir_at_unique by blast
  show "nameToInum s' d = nameToInum s d" by (rule nm[OF d])
  show "dirList (blocks s' ! c) = dirList (blocks s ! c)" if "c \<noteq> b" using blk[OF je(2,4)] that \<open>c = e\<close> by blast
qed

lemma refs_ok_same:
  assumes "refs_ok ns bs" "entries bs' = entries bs" "length ns' = length ns"
    "\<And>i. i < length ns \<Longrightarrow> itype (ns' ! i) = FREE \<longleftrightarrow> itype (ns ! i) = FREE"
    "\<And>i. i < length ns \<Longrightarrow> itype (ns ! i) \<noteq> FREE \<Longrightarrow> refCnt (ns' ! i) = refCnt (ns ! i)"
  shows "refs_ok ns' bs'"
proof -
  have "refs bs' = refs bs" using assms(2) by (simp add: refs_def fun_eq_iff)
  then show ?thesis using assms by (simp add: refs_ok_def)
qed

section \<open>What the names mean\<close>

text \<open>The file system a user sees: files by name (two names of one file have the same number), directories, and what each
  file holds.\<close>

record view =
  vfiles :: "string \<rightharpoonup> nat"
  vdirs :: "string set"
  vdata :: "nat \<rightharpoonup> string"

definition content :: "fs \<Rightarrow> nat \<Rightarrow> string" where
  "content s i = (if iaddr (inodes s ! i) = -1 then [] else fdata (blocks s ! nat (iaddr (inodes s ! i))))"

definition view_of :: "fs \<Rightarrow> view" where
  "view_of s = \<lparr>vfiles = nameToInum s |` set (files s), vdirs = set (dirs s),
     vdata = (\<lambda>i. if i < length (inodes s) \<and> itype (inodes s ! i) = FIL then Some (content s i) else None)\<rparr>"

definition fresh :: "view \<Rightarrow> string \<Rightarrow> string \<Rightarrow> bool" where
  "fresh v d n \<longleftrightarrow> d \<in> vdirs v \<and> simple n \<and> fullName d n \<notin> dom (vfiles v) \<union> vdirs v"

inductive vstep :: "view \<Rightarrow> fsop \<Rightarrow> view \<Rightarrow> bool" where
  Create: "fresh v d n \<Longrightarrow> i \<notin> dom (vdata v) \<Longrightarrow>
    vstep v (OCreate False r1 r2) (v\<lparr>vfiles := (vfiles v)(fullName d n \<mapsto> i), vdata := (vdata v)(i \<mapsto> [])\<rparr>)"
| Mkdir: "fresh v d n \<Longrightarrow> vstep v (OCreate True r1 r2) (v\<lparr>vdirs := insert (fullName d n) (vdirs v)\<rparr>)"
| Link: "fresh v d n \<Longrightarrow> vfiles v x = Some i \<Longrightarrow> vstep v (OLink r1 r2 r3) (v\<lparr>vfiles := (vfiles v)(fullName d n \<mapsto> i)\<rparr>)"
| Append: "vfiles v x = Some i \<Longrightarrow> vdata v i = Some [] \<Longrightarrow>
    vstep v (OAppend r1 r2) (v\<lparr>vdata := (vdata v)(i \<mapsto> [char_of (97 + r2 * 26 div 2 ^ 53)])\<rparr>)"
| Unlink_last: "vfiles v x = Some i \<Longrightarrow> i \<notin> ran ((vfiles v)(x := None)) \<Longrightarrow>
    vstep v (ODelete r) (v\<lparr>vfiles := (vfiles v)(x := None), vdata := (vdata v)(i := None)\<rparr>)"
| Unlink: "vfiles v x = Some i \<Longrightarrow> i \<in> ran ((vfiles v)(x := None)) \<Longrightarrow>
    vstep v (ODelete r) (v\<lparr>vfiles := (vfiles v)(x := None)\<rparr>)"

end
