(* ===== verification/Vsfs_Ops.thy ===== *)
theory Vsfs_Ops
  imports Vsfs
begin

text \<open>
  The operations of the file system keep it consistent: each one, from a consistent state, either fails and changes
  nothing or does what its name says, and never trips an assertion of the code.
\<close>

section \<open>Allocation\<close>

lemma fs_okD:
  assumes "fs_ok s"
  shows "bits_ok (ibitmap s) (map (\<lambda>n. itype n \<noteq> FREE) (inodes s))" "bits_ok (dbitmap s) (map (\<lambda>b. ftype b \<noteq> FREE) (blocks s))"
    "addr_ok (inodes s) (blocks s)" "\<And>b. b < length (blocks s) \<Longrightarrow> block_ok (blocks s ! b)" "refs_ok (inodes s) (blocks s)"
    "names_ok s" "links_ok s"
  using assms by (simp_all add: fs_ok_def)

lemma free_block_entries: "fs_ok s \<Longrightarrow> b < length (blocks s) \<Longrightarrow> ftype (blocks s ! b) \<noteq> DIR \<Longrightarrow>
    dirList (blocks s ! b) = [] \<and> dirUsed (blocks s ! b) = 0"
  using fs_okD(4)[of s b] by (simp add: block_ok_def)

lemma dataAlloc_ok:
  assumes "fs_ok s" "dataAlloc s = Some (b, s1)"
  shows "b < length (blocks s)" "ftype (blocks s ! b) = FREE"
    "\<exists>m. s1 = s\<lparr>dbitmap := m\<rparr> \<and> bits_ok m ((map (\<lambda>b. ftype b \<noteq> FREE) (blocks s))[b := True])"
proof -
  obtain m where m: "bitmap_alloc (dbitmap s) = Some (b, m)" "s1 = s\<lparr>dbitmap := m\<rparr>" using assms(2) by (auto simp: dataAlloc_def)
  note * = bitmap_alloc_ok[OF fs_okD(2)[OF assms(1)] m(1)]
  then show "b < length (blocks s)" "ftype (blocks s ! b) = FREE" by auto
  show "\<exists>m. s1 = s\<lparr>dbitmap := m\<rparr> \<and> bits_ok m ((map (\<lambda>b. ftype b \<noteq> FREE) (blocks s))[b := True])" using m(2) * by blast
qed

lemma inodeAlloc_ok:
  assumes "fs_ok s" "inodeAlloc s = Some (i, s1)"
  shows "i < length (inodes s)" "itype (inodes s ! i) = FREE"
    "\<exists>m. s1 = s\<lparr>ibitmap := m\<rparr> \<and> bits_ok m ((map (\<lambda>n. itype n \<noteq> FREE) (inodes s))[i := True]) \<and> bitmap_free m i = Inr (ibitmap s)"
proof -
  obtain m where m: "bitmap_alloc (ibitmap s) = Some (i, m)" "s1 = s\<lparr>ibitmap := m\<rparr>" using assms(2) by (auto simp: inodeAlloc_def)
  note * = bitmap_alloc_ok[OF fs_okD(1)[OF assms(1)] m(1)]
  then show "i < length (inodes s)" "itype (inodes s ! i) = FREE" by auto
  show "\<exists>m. s1 = s\<lparr>ibitmap := m\<rparr> \<and> bits_ok m ((map (\<lambda>n. itype n \<noteq> FREE) (inodes s))[i := True]) \<and> bitmap_free m i = Inr (ibitmap s)"
    using m(2) * bitmap_alloc_free[OF fs_okD(1)[OF assms(1)] m(1)] by blast
qed

lemma file_inode: "fs_ok s \<Longrightarrow> f \<in> set (files s) \<Longrightarrow> \<exists>i. file_at s f i"
  by (simp add: fs_ok_def names_ok_def)

lemma dir_inode: "fs_ok s \<Longrightarrow> d \<in> set (dirs s) \<Longrightarrow> \<exists>i b. dir_at s d i b"
  by (simp add: fs_ok_def names_ok_def)

lemma view_eqI:
  assumes "vfiles v = nameToInum s |` set (files s)" "vdirs v = set (dirs s)"
    "\<And>i. vdata v i = (if i < length (inodes s) \<and> itype (inodes s ! i) = FIL then Some (content s i) else None)"
  shows "view_of s = v"
  using assms by (simp add: view_of_def fun_eq_iff)

section \<open>Appending\<close>

lemma writeFile_ok:
  assumes ok: "fs_ok s" and f: "f \<in> set (files s)" "file_at s f i"
  shows "\<exists>r s'. writeFile s f d = Inr (r, s') \<and> (if r then fs_ok s' \<and> vdata (view_of s) i = Some [] \<and>
      view_of s' = (view_of s)\<lparr>vdata := (vdata (view_of s))(i \<mapsto> d)\<rparr> else s' = s)"
proof -
  let ?n = "inodes s ! i"
  have i: "nameToInum s f = Some i" "i < length (inodes s)" "itype ?n = FIL" using f(2) by (auto simp: file_at_def)
  show ?thesis
  proof (cases "getSize ?n = 1 \<or> dataAlloc s = None")
    case True
    then have "writeFile s f d = Inr (False, s)" using i by (elim disjE) (simp_all add: writeFile_def)
    then show ?thesis by (intro exI[of _ False] exI[of _ s]) simp
  next
    case False
    then have a: "iaddr ?n = -1" by (simp add: getSize_def split: if_splits)
    obtain b s1 where al: "dataAlloc s = Some (b, s1)" using False by auto
    note b = dataAlloc_ok[OF ok al]
    then obtain m where m: "s1 = s\<lparr>dbitmap := m\<rparr>" "bits_ok m ((map (\<lambda>b. ftype b \<noteq> FREE) (blocks s))[b := True])" by blast
    define w where "w = (blocks s ! b)\<lparr>ftype := FIL, fdata := d\<rparr>"
    define v where "v = ?n\<lparr>iaddr := int b\<rparr>"
    define s' where "s' = s\<lparr>dbitmap := m, blocks := (blocks s)[b := w], inodes := (inodes s)[i := v]\<rparr>"
    have run: "writeFile s f d = Inr (True, s')"
      using i False al b(1,2) m(1)
      by (simp add: writeFile_def on_block_ok[where v = "(blocks s ! b)\<lparr>ftype := FIL\<rparr>"] on_block_ok[where v = w] on_inode_ok
          block_setType_def addData_def w_def v_def s'_def)
    have e: "dirList (blocks s ! b) = []" "dirUsed (blocks s ! b) = 0" using free_block_entries[OF ok b(1)] b(2) by auto
    have "bits_ok (ibitmap s') (map (\<lambda>n. itype n \<noteq> FREE) (inodes s'))" using fs_okD(1)[OF ok] i
      by (simp add: s'_def v_def map_update_same)
    moreover have "bits_ok (dbitmap s') (map (\<lambda>b. ftype b \<noteq> FREE) (blocks s'))" using m(2) by (simp add: s'_def w_def map_update)
    moreover have "addr_ok (inodes s') (blocks s')" using addr_ok_new_block[OF fs_okD(3)[OF ok] i(2) a b(1,2), of v w] i by (simp add: s'_def v_def w_def)
    moreover have "\<forall>b \<in> set (blocks s'). block_ok b"
    proof
      fix c assume "c \<in> set (blocks s')"
      then have "c = w \<or> c \<in> set (blocks s)" using set_update_subset_insert[of "blocks s" b w] by (auto simp: s'_def)
      then show "block_ok c" using ok e by (auto simp: fs_ok_def block_ok_def w_def)
    qed
    moreover have "refs_ok (inodes s') (blocks s')"
    proof (rule refs_ok_same[OF fs_okD(5)[OF ok]])
      show "entries (blocks s') = entries (blocks s)" using b(1) by (simp add: s'_def w_def entries_same)
    qed (use i in \<open>auto simp: s'_def v_def nth_list_update\<close>)
    moreover have "names_ok s'"
    proof -
      obtain j c where root: "dir_at s ''/'' j c" using ok dir_inode fs_okD(6) by (fastforce simp: names_ok_def)
      then have c: "c \<noteq> b" using b(2) by (auto simp: dir_at_def)
      show ?thesis
      proof (rule names_same[OF ok])
        show "same_dirs s s' c" by (rule same_dirsI[OF ok]) (use i b in \<open>auto simp: s'_def v_def nth_list_update\<close>)
      qed (use c i in \<open>auto simp: s'_def v_def file_at_def nth_list_update\<close>)
    qed
    moreover have "links_ok s'" using fs_okD(7)[OF ok] i by (auto simp: links_ok_def names_of_def s'_def v_def nth_list_update)
    ultimately have "fs_ok s'" by (simp add: fs_ok_def)
    moreover have "vdata (view_of s) i = Some []" using i a by (simp add: view_of_def content_def)
    moreover have "view_of s' = (view_of s)\<lparr>vdata := (vdata (view_of s))(i \<mapsto> d)\<rparr>"
    proof (rule view_eqI)
      fix k
      have "iaddr (inodes s ! k) \<noteq> int b" if "k < length (inodes s)" "itype (inodes s ! k) = FIL"
      proof
        assume "iaddr (inodes s ! k) = int b"
        then show False using addr_okD(2)[OF fs_okD(3)[OF ok] that(1)] that b by auto
      qed
      then show "vdata ((view_of s)\<lparr>vdata := (vdata (view_of s))(i \<mapsto> d)\<rparr>) k =
        (if k < length (inodes s') \<and> itype (inodes s' ! k) = FIL then Some (content s' k) else None)"
        using i b addr_okD(2)[OF fs_okD(3)[OF ok], of k] by (auto simp: view_of_def content_def s'_def v_def w_def nth_list_update)
    qed (simp_all add: s'_def view_of_def)
    ultimately show ?thesis using run by (intro exI[of _ True] exI[of _ s']) simp
  qed
qed

section \<open>Linking\<close>

lemma block_ok_enter:
  "block_ok b \<Longrightarrow> ftype b = DIR \<Longrightarrow> dirUsed b < maxUsed \<Longrightarrow> n \<notin> fst ` set (dirList b) \<Longrightarrow> block_ok (enter b n i)"
  by (auto simp: block_ok_def)

lemma blocks_ok_update: "\<forall>b \<in> set bs. block_ok b \<Longrightarrow> block_ok w \<Longrightarrow> \<forall>c \<in> set (bs[b := w]). block_ok c"
  using set_update_subset_insert[of bs b w] by auto

lemma blocks_ok_enter:
  assumes "fs_ok s" "dir_at s d i b" "dirUsed (blocks s ! b) < maxUsed" "n \<notin> fst ` set (dirList (blocks s ! b))"
  shows "\<forall>c \<in> set ((blocks s)[b := enter (blocks s ! b) n t]). block_ok c"
proof (rule blocks_ok_update)
  show "block_ok (enter (blocks s ! b) n t)" using assms by (intro block_ok_enter fs_okD(4)) (auto simp: dir_at_def)
qed (use assms in \<open>simp add: fs_ok_def\<close>)

text \<open>A name with no entry in its directory is not in use.\<close>

lemma unused_name:
  assumes ok: "fs_ok s" and d: "d \<in> set (dirs s)" "dir_at s d i b" and n: "simple n" "n \<notin> fst ` set (dirList (blocks s ! b))"
  shows "fullName d n \<notin> set (files s @ dirs s)"
proof
  assume x: "fullName d n \<in> set (files s @ dirs s)"
  have loc: "located s y" if "y \<in> set (files s @ dirs s)" for y using fs_okD(6)[OF ok] that by (simp add: names_ok_def)
  obtain ds where ds: "d = path ds" "\<forall>c \<in> set ds. simple c" using loc[of d] d(1) unfolding located_def by auto
  obtain cs where cs: "fullName d n = path cs" "\<forall>c \<in> set cs. simple c"
    "cs \<noteq> [] \<longrightarrow> (\<forall>i b. dir_at s (path (butlast cs)) i b \<longrightarrow> (last cs, the (nameToInum s (fullName d n))) \<in> set (dirList (blocks s ! b)))"
    using loc[OF x] unfolding located_def by blast
  have "path cs = path (ds @ [n])" using cs(1) ds fullName_path by simp
  then have "cs = ds @ [n]" by (rule path_inj) (use cs ds n in auto)
  then have "(n, the (nameToInum s (fullName d n))) \<in> set (dirList (blocks s ! b))" using cs(3) d(2) ds(1) by auto
  then show False using n(2) by force
qed

lemma simple_last: "simple n \<Longrightarrow> last (split_on CHR ''/'' n) = n"
  by (simp add: simple_def split_on_plain)

lemma names_of_add:
  assumes "x \<notin> set (files s)" "files s' = files s @ [x]" "nameToInum s' = (nameToInum s)(x \<mapsto> t)"
  shows "names_of s' k = names_of s k @ (if k = t then [x] else [])"
  using assms by (auto simp: names_of_def intro!: filter_cong)

lemma refs_ok_enter:
  assumes "refs_ok ns bs" "b < length bs" "t < length ns" "itype (ns ! t) \<noteq> FREE"
  shows "refs_ok (ns[t := (ns ! t)\<lparr>refCnt := refCnt (ns ! t) + 1\<rparr>]) (bs[b := enter (bs ! b) n t])"
  using assms by (auto simp: refs_ok_def refs_enter entries_enter nth_list_update)

text \<open>The state after a link.\<close>

definition linked :: "fs \<Rightarrow> nat \<Rightarrow> nat \<Rightarrow> string \<Rightarrow> fs" where
  "linked s t b n = s\<lparr>inodes := (inodes s)[t := (inodes s ! t)\<lparr>refCnt := refCnt (inodes s ! t) + 1\<rparr>],
     blocks := (blocks s)[b := enter (blocks s ! b) n t]\<rparr>"

lemma createLink_cases:
  assumes ok: "fs_ok s" and d: "dir_at s d i b" and t: "file_at s f t" and n: "simple n"
  shows "createLink s f n d =
    (if dirUsed (blocks s ! b) \<ge> maxUsed \<or> n \<in> fst ` set (dirList (blocks s ! b)) then Inr (None, s) else Inr (Some t, linked s t b n))"
  using d t n simple_last[OF n]
  by (simp add: createLink_def dir_at_def file_at_def getFreeEntries_def dirEntryExists_def on_inode_ok linked_def
      on_block_ok[where v = "enter (blocks s ! b) n t"] addDirEntry_ok)

lemma link_ok:
  assumes ok: "fs_ok s" and d: "d \<in> set (dirs s)" "dir_at s d i b" and t: "f \<in> set (files s)" "file_at s f t" and n: "simple n"
    and room: "dirUsed (blocks s ! b) < maxUsed" "n \<notin> fst ` set (dirList (blocks s ! b))"
    and x: "x = fullName d n" and s': "s' = (linked s t b n)\<lparr>files := files s @ [x], nameToInum := (nameToInum s)(x \<mapsto> t)\<rparr>"
  shows "fs_ok s'" "fresh (view_of s) d n" "view_of s' = (view_of s)\<lparr>vfiles := (vfiles (view_of s))(x \<mapsto> t)\<rparr>"
proof -
  have x': "x \<notin> set (files s @ dirs s)" using unused_name[OF ok d n room(2)] x by simp
  have b: "b < length (blocks s)" "ftype (blocks s ! b) = DIR" using d(2) by (auto simp: dir_at_def)
  have i: "nameToInum s f = Some t" "t < length (inodes s)" "itype (inodes s ! t) = FIL" using t(2) by (auto simp: file_at_def)
  have "bits_ok (ibitmap s') (map (\<lambda>n. itype n \<noteq> FREE) (inodes s'))" "bits_ok (dbitmap s') (map (\<lambda>b. ftype b \<noteq> FREE) (blocks s'))"
    using fs_okD(1,2)[OF ok] i b by (simp_all add: s' linked_def map_update_same)
  moreover have "addr_ok (inodes s') (blocks s')"
    using fs_okD(3)[OF ok] i b by (auto simp: s' linked_def intro!: addr_ok_inode addr_ok_block)
  moreover have "\<forall>b \<in> set (blocks s'). block_ok b"
    using blocks_ok_enter[OF ok d(2) room, of t] by (simp add: s' linked_def)
  moreover have "refs_ok (inodes s') (blocks s')" using refs_ok_enter[OF fs_okD(5)[OF ok] b(1) i(2)] i by (simp add: s' linked_def)
  moreover have "names_ok s'"
  proof (rule names_add_file[OF ok d n x x'])
    show "same_dirs s s' b" by (rule same_dirsI[OF ok]) (use i b x' in \<open>auto simp: s' linked_def nth_list_update\<close>)
    show "file_at s' x t" using i by (simp add: s' linked_def file_at_def)
    show "file_at s' g k" if "g \<in> set (files s)" "file_at s g k" for g k
      using that i x' by (auto simp: s' linked_def file_at_def nth_list_update)
  qed (use b in \<open>auto simp: s' linked_def\<close>)
  moreover have "links_ok s'"
  proof -
    have "names_of s' k = names_of s k @ (if k = t then [x] else [])" for k by (rule names_of_add) (use x' in \<open>auto simp: s'\<close>)
    then show ?thesis using fs_okD(7)[OF ok] i by (auto simp: links_ok_def s' linked_def nth_list_update)
  qed
  ultimately show "fs_ok s'" by (simp add: fs_ok_def)
  show "fresh (view_of s) d n" using x' x d(1) n by (auto simp: fresh_def view_of_def restrict_map_def split: if_splits)
  show "view_of s' = (view_of s)\<lparr>vfiles := (vfiles (view_of s))(x \<mapsto> t)\<rparr>"
  proof (rule view_eqI)
    show "vfiles ((view_of s)\<lparr>vfiles := (vfiles (view_of s))(x \<mapsto> t)\<rparr>) = nameToInum s' |` set (files s')"
      by (auto simp: view_of_def s' restrict_map_def fun_eq_iff)
  qed (use b i in \<open>auto simp: view_of_def s' linked_def content_def nth_list_update\<close>)
qed

section \<open>Creating\<close>

lemma refs_ok_new:
  assumes "refs_ok ns bs" "b < length bs" "t < length ns" "itype (ns ! t) = FREE" "itype v \<noteq> FREE" "refCnt v = 1"
  shows "refs_ok (ns[t := v]) (bs[b := enter (bs ! b) n t])"
  using assms by (auto simp: refs_ok_def refs_enter entries_enter nth_list_update)

definition created :: "fs \<Rightarrow> bitmap \<Rightarrow> nat \<Rightarrow> nat \<Rightarrow> string \<Rightarrow> fs" where
  "created s m t b n = s\<lparr>ibitmap := m, inodes := (inodes s)[t := setAll FIL (-1) 1], blocks := (blocks s)[b := enter (blocks s ! b) n t]\<rparr>"

definition dir_block :: "blk \<Rightarrow> nat \<Rightarrow> nat \<Rightarrow> blk" where
  "dir_block b t p = b\<lparr>ftype := DIR, dirUsed := 2, dirList := [(''.'', t), (''..'', p)]\<rparr>"

definition made :: "fs \<Rightarrow> bitmap \<Rightarrow> bitmap \<Rightarrow> nat \<Rightarrow> nat \<Rightarrow> nat \<Rightarrow> nat \<Rightarrow> string \<Rightarrow> fs" where
  "made s m md t c p b n = s\<lparr>ibitmap := m, dbitmap := md,
     inodes := (inodes s)[t := setAll DIR (int c) 2, p := (inodes s ! p)\<lparr>refCnt := refCnt (inodes s ! p) + 1\<rparr>],
     blocks := (blocks s)[c := dir_block (blocks s ! c) t p, b := enter (blocks s ! b) n t]\<rparr>"

lemma createFile_full:
  assumes "dir_at s d i b" "dirUsed (blocks s ! b) \<ge> maxUsed \<or> n \<in> fst ` set (dirList (blocks s ! b)) \<or> inodeAlloc s = None"
  shows "createFile s d n ft = Inr (None, s)"
  using assms by (auto simp: createFile_def dir_at_def getFreeEntries_def dirEntryExists_def)

lemma createFile_file:
  assumes d: "dir_at s d i b" and room: "dirUsed (blocks s ! b) < maxUsed" "n \<notin> fst ` set (dirList (blocks s ! b))"
    and al: "inodeAlloc s = Some (t, s\<lparr>ibitmap := m\<rparr>)" "t < length (inodes s)"
  shows "createFile s d n FIL = Inr (Some t, created s m t b n)"
  using assms
  by (simp add: createFile_def dir_at_def getFreeEntries_def dirEntryExists_def on_inode_ok created_def
      on_block_ok[where v = "enter (blocks s ! b) n t"] addDirEntry_ok)

text \<open>A directory that finds no block gives its inode back.\<close>

lemma createFile_no_block:
  assumes ok: "fs_ok s" and d: "dir_at s d i b" and al: "inodeAlloc s = Some (t, s1)" "dataAlloc s1 = None"
  shows "createFile s d n DIR = Inr (None, s)"
proof (cases "dirUsed (blocks s ! b) \<ge> maxUsed \<or> n \<in> fst ` set (dirList (blocks s ! b))")
  case True
  then show ?thesis using createFile_full[OF d] by blast
next
  case False
  note t = inodeAlloc_ok[OF ok al(1)]
  then obtain m where m: "s1 = s\<lparr>ibitmap := m\<rparr>" "bitmap_free m t = Inr (ibitmap s)" by blast
  have "inode_free (inodes s ! t) = inodes s ! t" using t(2) addr_okD(1)[OF fs_okD(3)[OF ok] t(1)] by (simp add: inode_free_def)
  then have "inodeFree s1 t = Inr s" using m t(1) by (simp add: inodeFree_def on_inode_ok)
  then show ?thesis using d False al by (simp add: createFile_def dir_at_def getFreeEntries_def dirEntryExists_def)
qed

lemma createFile_dir:
  assumes ok: "fs_ok s" and d: "dir_at s d p b" and room: "dirUsed (blocks s ! b) < maxUsed" "n \<notin> fst ` set (dirList (blocks s ! b))"
    and al: "inodeAlloc s = Some (t, s\<lparr>ibitmap := m\<rparr>)" "t < length (inodes s)" "itype (inodes s ! t) = FREE"
    and dal: "dataAlloc (s\<lparr>ibitmap := m\<rparr>) = Some (c, s\<lparr>ibitmap := m, dbitmap := md\<rparr>)" "c < length (blocks s)" "ftype (blocks s ! c) = FREE"
  shows "createFile s d n DIR = Inr (Some t, made s m md t c p b n)"
proof -
  let ?B = "blocks s ! c"
  have e: "dirList ?B = []" "dirUsed ?B = 0" using free_block_entries[OF ok dal(2)] dal(3) by auto
  have ne: "c \<noteq> b" "t \<noteq> p" using d dal(3) al(3) by (auto simp: dir_at_def)
  have "dir_block ?B t p = ?B\<lparr>ftype := DIR, dirList := [(''.'', t), (''..'', p)], dirUsed := 2\<rparr>" by (simp add: dir_block_def)
  then show ?thesis using assms e ne
    by (simp add: createFile_def dir_at_def getFreeEntries_def dirEntryExists_def on_inode_ok made_def block_setType_def
        on_block_ok[where v = "?B\<lparr>ftype := DIR\<rparr>"] on_block_ok[where v = "enter (?B\<lparr>ftype := DIR\<rparr>) ''.'' t"]
        on_block_ok[where v = "enter (enter (?B\<lparr>ftype := DIR\<rparr>) ''.'' t) ''..'' p"]
        on_block_ok[where v = "enter (blocks s ! b) n t"] addDirEntry_ok maxUsed_def)
qed

lemma create_ok:
  assumes ok: "fs_ok s" and d: "d \<in> set (dirs s)" "dir_at s d i b" and n: "simple n"
    and room: "dirUsed (blocks s ! b) < maxUsed" "n \<notin> fst ` set (dirList (blocks s ! b))"
    and t: "t < length (inodes s)" "itype (inodes s ! t) = FREE" "bits_ok m ((map (\<lambda>n. itype n \<noteq> FREE) (inodes s))[t := True])"
    and x: "x = fullName d n" and s': "s' = (created s m t b n)\<lparr>files := files s @ [x], nameToInum := (nameToInum s)(x \<mapsto> t)\<rparr>"
  shows "fs_ok s'" "fresh (view_of s) d n" "t \<notin> dom (vdata (view_of s))"
    "view_of s' = (view_of s)\<lparr>vfiles := (vfiles (view_of s))(x \<mapsto> t), vdata := (vdata (view_of s))(t \<mapsto> [])\<rparr>"
proof -
  have x': "x \<notin> set (files s @ dirs s)" using unused_name[OF ok d n room(2)] x by simp
  have b: "b < length (blocks s)" "ftype (blocks s ! b) = DIR" using d(2) by (auto simp: dir_at_def)
  have "bits_ok (ibitmap s') (map (\<lambda>n. itype n \<noteq> FREE) (inodes s'))" using t(3) by (simp add: s' created_def setAll_def map_update)
  moreover have "bits_ok (dbitmap s') (map (\<lambda>b. ftype b \<noteq> FREE) (blocks s'))"
    using fs_okD(2)[OF ok] b by (simp add: s' created_def map_update_same)
  moreover have "addr_ok (inodes s') (blocks s')"
    using addr_ok_block[OF addr_ok_new_file[OF fs_okD(3)[OF ok] t(1,2)] b(1)] by (simp add: s' created_def setAll_def)
  moreover have "\<forall>b \<in> set (blocks s'). block_ok b" using blocks_ok_enter[OF ok d(2) room, of t] by (simp add: s' created_def)
  moreover have "refs_ok (inodes s') (blocks s')"
    using refs_ok_new[OF fs_okD(5)[OF ok] b(1) t(1,2)] by (simp add: s' created_def setAll_def)
  moreover have files_t: "nameToInum s f \<noteq> Some t" if "f \<in> set (files s)" for f
    using file_inode[OF ok that] t(2) by (auto simp: file_at_def)
  moreover have "names_ok s'"
  proof (rule names_add_file[OF ok d n x x'])
    show "same_dirs s s' b" by (rule same_dirsI[OF ok]) (use t b x' in \<open>auto simp: s' created_def nth_list_update\<close>)
    show "file_at s' x t" using t by (simp add: s' created_def setAll_def file_at_def)
    show "file_at s' g k" if "g \<in> set (files s)" "file_at s g k" for g k
      using that t x' by (auto simp: s' created_def file_at_def nth_list_update)
  qed (use b in \<open>auto simp: s' created_def\<close>)
  moreover have "links_ok s'"
  proof -
    have "names_of s' k = names_of s k @ (if k = t then [x] else [])" for k by (rule names_of_add) (use x' in \<open>auto simp: s'\<close>)
    moreover have "names_of s t = []" using files_t by (simp add: names_of_def filter_empty_conv)
    ultimately show ?thesis using fs_okD(7)[OF ok] t by (auto simp: links_ok_def s' created_def setAll_def nth_list_update)
  qed
  ultimately show "fs_ok s'" by (simp add: fs_ok_def)
  show "fresh (view_of s) d n" using x' x d(1) n by (auto simp: fresh_def view_of_def restrict_map_def split: if_splits)
  show "t \<notin> dom (vdata (view_of s))" using t by (simp add: view_of_def dom_def)
  show "view_of s' = (view_of s)\<lparr>vfiles := (vfiles (view_of s))(x \<mapsto> t), vdata := (vdata (view_of s))(t \<mapsto> [])\<rparr>"
    by (rule view_eqI) (use b t in \<open>auto simp: view_of_def s' created_def setAll_def content_def nth_list_update restrict_map_def fun_eq_iff\<close>)
qed

lemma refs_ok_made:
  assumes ok: "refs_ok ns bs" and b: "b < length bs" "c < length bs" "c \<noteq> b" "dirList (bs ! c) = []"
    and t: "t < length ns" "itype (ns ! t) = FREE" "p < length ns" "itype (ns ! p) = DIR"
  shows "refs_ok (ns[t := setAll DIR (int c) 2, p := (ns ! p)\<lparr>refCnt := refCnt (ns ! p) + 1\<rparr>])
    (bs[c := dir_block (bs ! c) t p, b := enter (bs ! b) n t])"
proof -
  let ?bs = "bs[c := dir_block (bs ! c) t p]" and ?bs' = "bs[c := dir_block (bs ! c) t p, b := enter (bs ! b) n t]"
  have "entries ?bs = entries bs + {#(''.'', t), (''..'', p)#}"
    using entries_update[OF b(2), of "dir_block (bs ! c) t p"] b(4) by (simp add: dir_block_def)
  moreover have "entries ?bs' = entries ?bs + {#(n, t)#}" using entries_enter[of b ?bs n t] b by simp
  ultimately have e: "entries ?bs' = entries bs + {#(''.'', t), (''..'', p), (n, t)#}" by simp
  have ne: "t \<noteq> p" using t by auto
  have r: "refs ?bs' k = refs bs k + (if k = t then 2 else if k = p then 1 else 0)" for k
    unfolding refs_def e using ne by simp
  show ?thesis
    unfolding refs_ok_def
  proof (intro conjI allI impI)
    show "\<forall>f \<in># entries ?bs'. snd f < length (ns[t := setAll DIR (int c) 2, p := (ns ! p)\<lparr>refCnt := refCnt (ns ! p) + 1\<rparr>])"
      unfolding e using ok t by (auto simp: refs_ok_def)
    fix k assume "k < length (ns[t := setAll DIR (int c) 2, p := (ns ! p)\<lparr>refCnt := refCnt (ns ! p) + 1\<rparr>])"
    then show "if itype (ns[t := setAll DIR (int c) 2, p := (ns ! p)\<lparr>refCnt := refCnt (ns ! p) + 1\<rparr>] ! k) = FREE then refs ?bs' k = 0
      else refCnt (ns[t := setAll DIR (int c) 2, p := (ns ! p)\<lparr>refCnt := refCnt (ns ! p) + 1\<rparr>] ! k) = int (refs ?bs' k)"
      unfolding r using ok t ne by (auto simp: refs_ok_def setAll_def nth_list_update)
  qed
qed

lemma mkdir_ok:
  assumes ok: "fs_ok s" and d: "d \<in> set (dirs s)" "dir_at s d p b" and n: "simple n"
    and room: "dirUsed (blocks s ! b) < maxUsed" "n \<notin> fst ` set (dirList (blocks s ! b))"
    and t: "t < length (inodes s)" "itype (inodes s ! t) = FREE" "bits_ok m ((map (\<lambda>n. itype n \<noteq> FREE) (inodes s))[t := True])"
    and c: "c < length (blocks s)" "ftype (blocks s ! c) = FREE" "bits_ok md ((map (\<lambda>b. ftype b \<noteq> FREE) (blocks s))[c := True])"
    and x: "x = fullName d n" and s': "s' = (made s m md t c p b n)\<lparr>dirs := dirs s @ [x], nameToInum := (nameToInum s)(x \<mapsto> t)\<rparr>"
  shows "fs_ok s'" "fresh (view_of s) d n" "view_of s' = (view_of s)\<lparr>vdirs := insert x (vdirs (view_of s))\<rparr>"
proof -
  let ?w = "dir_block (blocks s ! c) t p"
  have x': "x \<notin> set (files s @ dirs s)" using unused_name[OF ok d n room(2)] x by simp
  have b: "b < length (blocks s)" "ftype (blocks s ! b) = DIR" "p < length (inodes s)" "itype (inodes s ! p) = DIR"
    using d(2) by (auto simp: dir_at_def)
  have ne: "c \<noteq> b" "t \<noteq> p" using b c t by auto
  have e: "dirList (blocks s ! c) = []" "dirUsed (blocks s ! c) = 0" using free_block_entries[OF ok c(1)] c(2) by auto
  have "bits_ok (ibitmap s') (map (\<lambda>n. itype n \<noteq> FREE) (inodes s'))" using t(3) b ne
    by (simp add: s' made_def setAll_def map_update_same) (simp add: map_update)
  moreover have "bits_ok (dbitmap s') (map (\<lambda>b. ftype b \<noteq> FREE) (blocks s'))" using c(3) b ne
    by (simp add: s' made_def dir_block_def map_update_same) (simp add: map_update)
  moreover have "addr_ok (inodes s') (blocks s')"
  proof -
    have "iaddr (inodes s ! t) = -1" using addr_okD(1)[OF fs_okD(3)[OF ok] t(1)] t(2) by simp
    then have A: "addr_ok ((inodes s)[t := setAll DIR (int c) 2]) ((blocks s)[c := ?w])"
      using addr_ok_new_block[OF fs_okD(3)[OF ok] t(1) _ c(1,2), of "setAll DIR (int c) 2" ?w] by (simp add: setAll_def dir_block_def)
    have "addr_ok ((inodes s)[t := setAll DIR (int c) 2]) ((blocks s)[c := ?w, b := enter (blocks s ! b) n t])"
      by (rule addr_ok_block[OF A]) (use b ne in simp_all)
    from addr_ok_inode[OF this, of p "(inodes s ! p)\<lparr>refCnt := refCnt (inodes s ! p) + 1\<rparr>"] show ?thesis
      using b ne by (simp add: s' made_def)
  qed
  moreover have "\<forall>b \<in> set (blocks s'). block_ok b"
  proof -
    have "block_ok ?w" by (simp add: block_ok_def dir_block_def maxUsed_def)
    moreover have "(blocks s)[c := ?w, b := enter (blocks s ! b) n t] = (blocks s)[b := enter (blocks s ! b) n t, c := ?w]"
      using ne by (simp add: list_update_swap)
    ultimately show ?thesis using blocks_ok_update[OF blocks_ok_enter[OF ok d(2) room, of t], of ?w c] by (simp add: s' made_def)
  qed
  moreover have "refs_ok (inodes s') (blocks s')"
    using refs_ok_made[OF fs_okD(5)[OF ok] b(1) c(1) ne(1) e(1) t(1,2) b(3,4)] by (simp add: s' made_def)
  moreover have "names_ok s'"
  proof (rule names_add_dir[OF ok d n x x'])
    show "same_dirs s s' b" by (rule same_dirsI[OF ok]) (use t b c ne x' in \<open>auto simp: s' made_def nth_list_update\<close>)
    show "dir_at s' x t c" using t c b ne by (simp add: s' made_def setAll_def dir_block_def dir_at_def)
    show "\<forall>e \<in> set (dirs s). nameToInum s e \<noteq> Some t" using dir_inode[OF ok] t(2) by (fastforce simp: dir_at_def)
    show "file_at s' g k" if "g \<in> set (files s)" "file_at s g k" for g k
      using that t b x' by (auto simp: s' made_def file_at_def nth_list_update)
  qed (use b c ne in \<open>auto simp: s' made_def dir_block_def\<close>)
  moreover have "links_ok s'"
  proof -
    have "names_of s' k = names_of s k" for k using x' by (auto simp: names_of_def s' made_def intro!: filter_cong)
    then show ?thesis using fs_okD(7)[OF ok] t b by (auto simp: links_ok_def s' made_def setAll_def nth_list_update)
  qed
  ultimately show "fs_ok s'" by (simp add: fs_ok_def)
  show "fresh (view_of s) d n" using x' x d(1) n by (auto simp: fresh_def view_of_def restrict_map_def split: if_splits)
  show "view_of s' = (view_of s)\<lparr>vdirs := insert x (vdirs (view_of s))\<rparr>"
    by (rule view_eqI) (use b t c e ne x' in
      \<open>auto simp: view_of_def s' made_def setAll_def dir_block_def content_def nth_list_update restrict_map_def fun_eq_iff\<close>)
qed

section \<open>Deleting\<close>

text \<open>The inode side of a deletion: the count goes down, and the last name takes block and inode with it.\<close>

definition dropped :: "fs \<Rightarrow> fs \<Rightarrow> nat \<Rightarrow> bool" where
  "dropped s s1 t \<longleftrightarrow>
     files s1 = files s \<and> dirs s1 = dirs s \<and> nameToInum s1 = nameToInum s \<and>
     length (inodes s1) = length (inodes s) \<and> length (blocks s1) = length (blocks s) \<and>
     bits_ok (ibitmap s1) (map (\<lambda>n. itype n \<noteq> FREE) (inodes s1)) \<and> bits_ok (dbitmap s1) (map (\<lambda>b. ftype b \<noteq> FREE) (blocks s1)) \<and>
     addr_ok (inodes s1) (blocks s1) \<and> (\<forall>b \<in> set (blocks s1). block_ok b) \<and> map dirList (blocks s1) = map dirList (blocks s) \<and>
     (\<forall>c < length (blocks s). ftype (blocks s ! c) = DIR \<longrightarrow> blocks s1 ! c = blocks s ! c) \<and>
     (\<forall>k < length (inodes s). k \<noteq> t \<longrightarrow> inodes s1 ! k = inodes s ! k \<and> (itype (inodes s ! k) = FIL \<longrightarrow> content s1 k = content s k)) \<and>
     (if refCnt (inodes s ! t) = 1 then itype (inodes s1 ! t) = FREE
      else inodes s1 ! t = (inodes s ! t)\<lparr>refCnt := refCnt (inodes s ! t) - 1\<rparr> \<and> content s1 t = content s t)"

abbreviation drop_inode :: "fs \<Rightarrow> nat \<Rightarrow> fs res" where
  "drop_inode s t \<equiv>
     (if refCnt (inodes s ! t) = 1
      then bnd (if iaddr (inodes s ! t) \<noteq> -1 then dataFree s (iaddr (inodes s ! t)) else Inr s) (\<lambda>s. inodeFree s t)
      else on_inode s t (\<lambda>n. n\<lparr>refCnt := refCnt n - 1\<rparr>))"

lemma drop_shared:
  assumes ok: "fs_ok s" and t: "t < length (inodes s)" "itype (inodes s ! t) = FIL" and r: "refCnt (inodes s ! t) \<noteq> 1"
  shows "\<exists>s1. drop_inode s t = Inr s1 \<and> dropped s s1 t"
proof -
  define s1 where "s1 = s\<lparr>inodes := (inodes s)[t := (inodes s ! t)\<lparr>refCnt := refCnt (inodes s ! t) - 1\<rparr>]\<rparr>"
  have "drop_inode s t = Inr s1" using t r by (simp add: on_inode_ok s1_def)
  moreover have "dropped s s1 t" using ok t r addr_ok_inode[OF fs_okD(3)[OF ok] t(1)]
    by (simp add: dropped_def s1_def fs_ok_def map_update_same content_def)
  ultimately show ?thesis by blast
qed

lemma drop_last:
  assumes ok: "fs_ok s" and t: "t < length (inodes s)" "itype (inodes s ! t) = FIL" and r: "refCnt (inodes s ! t) = 1"
  shows "\<exists>s1. drop_inode s t = Inr s1 \<and> dropped s s1 t"
proof -
  let ?a = "iaddr (inodes s ! t)" and ?v = "inode_free (inodes s ! t)"
  have "(map (\<lambda>n. itype n \<noteq> FREE) (inodes s)) ! t" using t by simp
  then obtain m where m: "bitmap_free (ibitmap s) t = Inr m" "bits_ok m ((map (\<lambda>n. itype n \<noteq> FREE) (inodes s))[t := False])"
    using bitmap_free_ok[OF fs_okD(1)[OF ok], of t] t(1) by auto
  show ?thesis
  proof (cases "?a = -1")
    case True
    define s1 where "s1 = s\<lparr>ibitmap := m, inodes := (inodes s)[t := ?v]\<rparr>"
    have "drop_inode s t = Inr s1" using t r m True by (simp add: inodeFree_def on_inode_ok s1_def)
    moreover have "dropped s s1 t"
      using ok t r m(2) addr_ok_free[OF fs_okD(3)[OF ok] t(1), of ?v "blocks s"] True
      by (simp add: dropped_def s1_def fs_ok_def map_update inode_free_def content_def)
    ultimately show ?thesis by blast
  next
    case False
    then obtain k where k: "k < length (blocks s)" "?a = int k" "ftype (blocks s ! k) = FIL"
      using addr_okD(2)[OF fs_okD(3)[OF ok] t(1)] t(2) by auto
    define w where "w = (blocks s ! k)\<lparr>fdata := [], ftype := FREE\<rparr>"
    have "(map (\<lambda>b. ftype b \<noteq> FREE) (blocks s)) ! k" using k by simp
    then obtain md where md: "bitmap_free (dbitmap s) k = Inr md" "bits_ok md ((map (\<lambda>b. ftype b \<noteq> FREE) (blocks s))[k := False])"
      using bitmap_free_ok[OF fs_okD(2)[OF ok], of k] k(1) by auto
    define s1 where "s1 = s\<lparr>dbitmap := md, blocks := (blocks s)[k := w], ibitmap := m, inodes := (inodes s)[t := ?v]\<rparr>"
    have run: "drop_inode s t = Inr s1" using t r m md k
      by (simp add: dataFree_def inodeFree_def on_inode_ok on_block_ok[where v = w] block_free_def w_def s1_def)
    have e: "dirList w = []" "dirUsed w = 0" "dirList (blocks s ! k) = []" using free_block_entries[OF ok k(1)] k(3) by (auto simp: w_def)
    have "addr_ok (inodes s1) (blocks s1)"
    proof -
      have "addr_ok ((inodes s)[t := ?v]) ((blocks s)[k := w])"
        by (rule addr_ok_free[OF fs_okD(3)[OF ok] t(1), where w = w], simp_all add: inode_free_def)
          (use k in \<open>intro disjI2 exI[of _ k], simp add: w_def\<close>)
      then show ?thesis by (simp add: s1_def)
    qed
    moreover have "\<forall>b \<in> set (blocks s1). block_ok b"
    proof -
      have "block_ok w" using e by (simp add: block_ok_def w_def)
      then have "\<forall>b \<in> set ((blocks s)[k := w]). block_ok b" using ok by (intro blocks_ok_update) (simp_all add: fs_ok_def)
      then show ?thesis by (simp add: s1_def)
    qed
    moreover have "content s1 j = content s j" if j: "j < length (inodes s)" "j \<noteq> t" "itype (inodes s ! j) = FIL" for j
    proof -
      have "iaddr (inodes s ! j) \<noteq> int k" using addr_okD(3)[OF fs_okD(3)[OF ok] j(1) t(1)] j(2) k(2) by auto
      then show ?thesis using j k addr_okD(2)[OF fs_okD(3)[OF ok] j(1)] by (auto simp: content_def s1_def nth_list_update)
    qed
    moreover have "bits_ok (ibitmap s1) (map (\<lambda>n. itype n \<noteq> FREE) (inodes s1))" "bits_ok (dbitmap s1) (map (\<lambda>b. ftype b \<noteq> FREE) (blocks s1))"
      using m(2) md(2) by (simp_all add: s1_def map_update inode_free_def w_def)
    moreover have "map dirList (blocks s1) = map dirList (blocks s)" using e k by (simp add: s1_def map_update_same)
    moreover have "\<forall>c < length (blocks s). ftype (blocks s ! c) = DIR \<longrightarrow> blocks s1 ! c = blocks s ! c" using k by (auto simp: s1_def nth_list_update)
    ultimately have "dropped s s1 t" using t r by (simp add: dropped_def s1_def inode_free_def)
    then show ?thesis using run by blast
  qed
qed

lemma remove_entry_ok:
  "(n, t) \<in> set es \<Longrightarrow> distinct (map fst es) \<Longrightarrow> \<exists>es'. remove_entry n es = Some es' \<and> mset es = add_mset (n, t) (mset es') \<and>
     set es' = {e \<in> set es. fst e \<noteq> n} \<and> distinct (map fst es')"
proof (induction es)
  case (Cons e es)
  show ?case
  proof (cases "fst e = n")
    case True
    then have "n \<notin> fst ` set es" using Cons.prems(2) by auto
    then have "e = (n, t)" "set es = {e \<in> set es. fst e \<noteq> n}" using Cons.prems(1) by force+
    then show ?thesis using True Cons.prems(2) by auto
  next
    case False
    then obtain es' where es': "remove_entry n es = Some es'" "mset es = add_mset (n, t) (mset es')" "set es' = {e \<in> set es. fst e \<noteq> n}"
      "distinct (map fst es')" using Cons by auto
    then show ?thesis using False Cons.prems(2) by (auto simp: image_iff)
  qed
qed simp

lemma file_entry:
  assumes ok: "fs_ok s" and f: "x \<in> set (files s)" "file_at s x t"
  obtains d n i b where "x = fullName d n" "d \<in> set (dirs s)" "dir_at s d i b" "simple n" "(n, t) \<in> set (dirList (blocks s ! b))"
    "getParent x = d" "last (split_on CHR ''/'' x) = n"
proof -
  have nm: "names_ok s" using ok by (rule fs_okD(6))
  then obtain cs where cs: "x = path cs" "\<forall>c \<in> set cs. simple c" "cs \<noteq> [] \<longrightarrow> path (butlast cs) \<in> set (dirs s) \<and>
     (\<forall>i b. dir_at s (path (butlast cs)) i b \<longrightarrow> (last cs, the (nameToInum s x)) \<in> set (dirList (blocks s ! b)))"
    using f(1) unfolding names_ok_def located_def by (metis UnI1 set_append)
  have "''/'' \<in> set (dirs s)" "set (files s) \<inter> set (dirs s) = {}" using nm by (auto simp: names_ok_def)
  then have "cs \<noteq> []" using cs(1) f(1) by (auto simp: path_def)
  then obtain ds n where ds: "cs = ds @ [n]" by (metis append_butlast_last_id)
  have dd: "path ds \<in> set (dirs s)" using cs(3) ds by simp
  then obtain i b where b: "dir_at s (path ds) i b" using dir_inode[OF ok] by blast
  have "x = fullName (path ds) n" using cs ds fullName_path[of ds n] by simp
  moreover have "(n, t) \<in> set (dirList (blocks s ! b))" using cs(3) ds b f(2) by (auto simp: file_at_def)
  ultimately show ?thesis using that[OF _ dd b] cs ds getParent_path[of ds n] by simp
qed

lemma refs_ok_drop:
  assumes ok: "refs_ok ns bs" and e: "entries bs = add_mset (n, t) (entries bs')" and len: "length ns' = length ns" "t < length ns"
    and other: "\<And>k. k < length ns \<Longrightarrow> k \<noteq> t \<Longrightarrow> ns' ! k = ns ! k"
    and t: "itype (ns ! t) = FIL" "if refCnt (ns ! t) = 1 then itype (ns' ! t) = FREE else ns' ! t = (ns ! t)\<lparr>refCnt := refCnt (ns ! t) - 1\<rparr>"
  shows "refs_ok ns' bs'"
proof -
  have r: "refs bs k = refs bs' k + (if k = t then 1 else 0)" for k unfolding refs_def e by simp
  have rt: "refCnt (ns ! t) = int (refs bs t)" using ok len(2) t(1) by (simp add: refs_ok_def)
  show ?thesis
    unfolding refs_ok_def
  proof (intro conjI allI impI)
    show "\<forall>f \<in># entries bs'. snd f < length ns'" using ok len(1) unfolding refs_ok_def e by simp
    fix k assume k: "k < length ns'"
    show "if itype (ns' ! k) = FREE then refs bs' k = 0 else refCnt (ns' ! k) = int (refs bs' k)"
    proof (cases "k = t")
      case True
      then show ?thesis using t rt r[of t] by (auto split: if_splits)
    next
      case False
      then have "if itype (ns ! k) = FREE then refs bs k = 0 else refCnt (ns ! k) = int (refs bs k)" using ok k len by (simp add: refs_ok_def)
      then show ?thesis using False other[of k] k len r[of k] by (simp split: if_splits)
    qed
  qed
qed

lemma deleted_ok:
  assumes ok: "fs_ok s" and f: "x \<in> set (files s)" "file_at s x t" and dr: "dropped s s1 t"
    and x: "x = fullName d n" "d \<in> set (dirs s)" "dir_at s d i b" "simple n"
    and w: "mset (dirList (blocks s ! b)) = add_mset (n, t) (mset (dirList w))" "ftype w = DIR" "block_ok w"
      "set (dirList w) = {e \<in> set (dirList (blocks s ! b)). fst e \<noteq> n}"
    and s': "s' = s1\<lparr>blocks := (blocks s1)[b := w], files := remove1 x (files s)\<rparr>"
  shows "fs_ok s'"
proof -
  have b: "b < length (blocks s)" "ftype (blocks s ! b) = DIR" using x(3) by (auto simp: dir_at_def)
  have t: "nameToInum s x = Some t" "t < length (inodes s)" "itype (inodes s ! t) = FIL" using f(2) by (auto simp: file_at_def)
  note D = dr[unfolded dropped_def]
  have bl: "b < length (blocks s1)" "blocks s1 ! b = blocks s ! b" using D b by auto
  have "bits_ok (ibitmap s') (map (\<lambda>n. itype n \<noteq> FREE) (inodes s'))" using D by (simp add: s')
  moreover have "bits_ok (dbitmap s') (map (\<lambda>b. ftype b \<noteq> FREE) (blocks s'))" using D bl b w(2) by (simp add: s' map_update_same)
  moreover have "addr_ok (inodes s') (blocks s')" using D bl b w(2) by (simp add: s' addr_ok_block)
  moreover have "\<forall>b \<in> set (blocks s'). block_ok b" using D w(3) blocks_ok_update[of "blocks s1" w b] by (simp add: s')
  moreover have "refs_ok (inodes s') (blocks s')"
  proof (rule refs_ok_drop[OF fs_okD(5)[OF ok] _ _ t(2)])
    have "entries (blocks s1) = entries (blocks s)" using D by (simp add: entries_def)
    then show "entries (blocks s) = add_mset (n, t) (entries (blocks s'))"
      using entries_update[OF bl(1), of w] bl(2) w(1) by (simp add: s')
  qed (use D t in \<open>simp_all add: s' split: if_splits\<close>)
  moreover have "names_ok s'"
  proof (rule names_del_file[OF ok x(2,3,4,1) f(1)])
    have dl: "dirList (blocks s1 ! c) = dirList (blocks s ! c)" if "c < length (blocks s)" for c
      using D that by (metis length_map nth_map)
    show "same_dirs s s' b"
    proof (rule same_dirsI[OF ok])
      fix k assume k: "k < length (inodes s)" "itype (inodes s ! k) = DIR"
      then have "k \<noteq> t" using t by auto
      then show "itype (inodes s' ! k) = DIR \<and> iaddr (inodes s' ! k) = iaddr (inodes s ! k)" using D k by (simp add: s')
    next
      fix c assume c: "c < length (blocks s)" "ftype (blocks s ! c) = DIR"
      then show "ftype (blocks s' ! c) = DIR \<and> (c \<noteq> b \<longrightarrow> dirList (blocks s' ! c) = dirList (blocks s ! c))"
        using D bl w(2) by (cases "c = b") (simp_all add: s')
    qed (use D in \<open>simp_all add: s'\<close>)
    fix g k assume g: "g \<in> set (files s)" "g \<noteq> x" "file_at s g k"
    then have "k = t \<Longrightarrow> refCnt (inodes s ! t) \<noteq> 1"
    proof -
      assume "k = t"
      then have "{g, x} \<subseteq> set (names_of s t)" using g f(1) t by (auto simp: names_of_def file_at_def)
      then have "card {g, x} \<le> length (names_of s t)" by (meson List.finite_set card_length card_mono order_trans)
      then show ?thesis using fs_okD(7)[OF ok] t g(2) by (simp add: links_ok_def)
    qed
    then show "file_at s' g k" using D g(3) t by (cases "k = t") (simp_all add: s' file_at_def)
  qed (use D bl w(4) in \<open>simp_all add: s'\<close>)
  moreover have "links_ok s'"
  proof -
    have "names_of s' k = (if k = t then remove1 x (names_of s k) else names_of s k)" for k
      using D t by (simp add: names_of_def s' filter_remove1 remove1_idem)
    moreover have "x \<in> set (names_of s t)" using f t by (simp add: names_of_def)
    ultimately have "int (length (names_of s' k)) = int (length (names_of s k)) - (if k = t then 1 else 0)" for k
      using length_pos_if_in_set[of x "names_of s t"] by (cases "k = t") (simp_all add: length_remove1 of_nat_diff Suc_le_eq)
    then show ?thesis using fs_okD(7)[OF ok] D t by (auto simp: links_ok_def s' split: if_splits)
  qed
  ultimately show ?thesis by (simp add: fs_ok_def)
qed

lemma deleted_view:
  assumes ok: "fs_ok s" and f: "x \<in> set (files s)" "file_at s x t" and dr: "dropped s s1 t"
    and b: "b < length (blocks s)" "ftype (blocks s ! b) = DIR"
    and s': "s' = s1\<lparr>blocks := (blocks s1)[b := w], files := remove1 x (files s)\<rparr>"
  shows "vstep (view_of s) (ODelete r) (view_of s')"
proof -
  let ?v = "view_of s"
  note D = dr[unfolded dropped_def]
  have t: "nameToInum s x = Some t" "t < length (inodes s)" "itype (inodes s ! t) = FIL" using f(2) by (auto simp: file_at_def)
  have vx: "vfiles ?v x = Some t" using t f by (simp add: view_of_def)
  have "distinct (files s)" using fs_okD(6)[OF ok] by (simp add: names_ok_def)
  then have vf: "nameToInum s' |` set (files s') = (vfiles ?v)(x := None)" using D
    by (auto simp: s' view_of_def restrict_map_def fun_eq_iff)
  have cont: "content s' k = content s1 k" if k: "k < length (inodes s)" "itype (inodes s1 ! k) = FIL" for k
  proof -
    have "iaddr (inodes s1 ! k) \<noteq> int b"
    proof
      assume eq: "iaddr (inodes s1 ! k) = int b"
      then have "ftype (blocks s1 ! b) = FIL" using addr_okD(2)[of "inodes s1" "blocks s1" k] D k by auto
      then show False using D b by simp
    qed
    then show ?thesis using addr_okD(2)[of "inodes s1" "blocks s1" k] D k by (auto simp: s' content_def)
  qed
  have ran: "t \<in> ran ((vfiles ?v)(x := None)) \<longleftrightarrow> (\<exists>g \<in> set (names_of s t). g \<noteq> x)"
    by (auto simp: ran_def view_of_def names_of_def restrict_map_def split: if_splits)
  have nx: "x \<in> set (names_of s t)" using f t by (simp add: names_of_def)
  have len: "refCnt (inodes s ! t) = int (length (names_of s t))" using fs_okD(7)[OF ok] t by (simp add: links_ok_def)
  show ?thesis
  proof (cases "refCnt (inodes s ! t) = 1")
    case True
    then obtain y where y: "names_of s t = [y]" using len by (auto simp: length_Suc_conv)
    then have "t \<notin> ran ((vfiles ?v)(x := None))" using ran nx by simp
    moreover have "view_of s' = ?v\<lparr>vfiles := (vfiles ?v)(x := None), vdata := (vdata ?v)(t := None)\<rparr>"
    proof (rule view_eqI)
      fix k
      show "vdata (?v\<lparr>vfiles := (vfiles ?v)(x := None), vdata := (vdata ?v)(t := None)\<rparr>) k =
        (if k < length (inodes s') \<and> itype (inodes s' ! k) = FIL then Some (content s' k) else None)"
        using D True t cont[of k] by (cases "k = t"; cases "k < length (inodes s)") (auto simp: view_of_def s')
    qed (use vf D in \<open>simp_all add: s' view_of_def\<close>)
    ultimately show ?thesis using Unlink_last[OF vx] by simp
  next
    case False
    have "\<exists>g \<in> set (names_of s t). g \<noteq> x"
    proof (rule ccontr)
      assume "\<not> (\<exists>g \<in> set (names_of s t). g \<noteq> x)"
      moreover have "distinct (names_of s t)" using \<open>distinct (files s)\<close> by (simp add: names_of_def)
      ultimately have "length (names_of s t) \<le> 1" by (metis distinct_card card_mono finite.intros insert_iff subsetI is_singletonI is_singleton_altdef List.finite_set empty_iff)
      moreover have "length (names_of s t) \<noteq> 0" using nx by auto
      ultimately show False using False len by simp
    qed
    then have "t \<in> ran ((vfiles ?v)(x := None))" using ran by blast
    moreover have "view_of s' = ?v\<lparr>vfiles := (vfiles ?v)(x := None)\<rparr>"
    proof (rule view_eqI)
      fix k
      show "vdata (?v\<lparr>vfiles := (vfiles ?v)(x := None)\<rparr>) k =
        (if k < length (inodes s') \<and> itype (inodes s' ! k) = FIL then Some (content s' k) else None)"
        using D False t cont[of k] by (cases "k = t"; cases "k < length (inodes s)") (auto simp: view_of_def s')
    qed (use vf D in \<open>simp_all add: s' view_of_def\<close>)
    ultimately show ?thesis using Unlink[OF vx] by simp
  qed
qed

lemma deleteFile_ok:
  assumes ok: "fs_ok s" and x: "x \<in> set (files s)"
  shows "\<exists>s'. deleteFile s x = Inr s' \<and> fs_ok s' \<and> vstep (view_of s) (ODelete r) (view_of s')"
proof -
  obtain t where f: "file_at s x t" using file_inode[OF ok x] by blast
  then have t: "nameToInum s x = Some t" "t < length (inodes s)" "itype (inodes s ! t) = FIL" by (auto simp: file_at_def)
  obtain d n i b where e: "x = fullName d n" "d \<in> set (dirs s)" "dir_at s d i b" "simple n" "(n, t) \<in> set (dirList (blocks s ! b))"
    "getParent x = d" "last (split_on CHR ''/'' x) = n" using file_entry[OF ok x f] by metis
  have b: "b < length (blocks s)" "ftype (blocks s ! b) = DIR" "nameToInum s d = Some i" "i < length (inodes s)" "i \<noteq> t"
    "iaddr (inodes s ! i) = int b" using e(3) t by (auto simp: dir_at_def)
  have "\<exists>s1. drop_inode s t = Inr s1 \<and> dropped s s1 t"
    using drop_shared[OF ok t(2,3)] drop_last[OF ok t(2,3)] by (cases "refCnt (inodes s ! t) = 1") blast+
  then obtain s1 where s1: "drop_inode s t = Inr s1" "dropped s s1 t" by blast
  have bo: "block_ok (blocks s ! b)" using fs_okD(4)[OF ok] b(1) by simp
  then obtain es where es: "remove_entry n (dirList (blocks s ! b)) = Some es" "mset (dirList (blocks s ! b)) = add_mset (n, t) (mset es)"
    "set es = {e \<in> set (dirList (blocks s ! b)). fst e \<noteq> n}" "distinct (map fst es)"
    using remove_entry_ok[OF e(5)] b(2) by (auto simp: block_ok_def)
  define w where "w = (blocks s ! b)\<lparr>dirList := es, dirUsed := dirUsed (blocks s ! b) - 1\<rparr>"
  define s' where "s' = s1\<lparr>blocks := (blocks s1)[b := w], files := remove1 x (files s)\<rparr>"
  have s1b: "b < length (blocks s1)" "blocks s1 ! b = blocks s ! b" "i < length (inodes s1)" "inodes s1 ! i = inodes s ! i"
    "nameToInum s1 = nameToInum s" "files s1 = files s" using s1(2) b by (auto simp: dropped_def)
  have "delDirEntry (blocks s ! b) x = Inr w" using b(2) e(7) es(1) by (simp add: delDirEntry_def w_def Let_def)
  then have run: "deleteFile s x = Inr s'"
    using t b(3) e(6) s1(1) s1b b(6) x by (simp add: deleteFile_def on_block_ok[where v = w] s'_def)
  have "length (dirList (blocks s ! b)) = Suc (length es)" using arg_cong[OF es(2), of size] by simp
  then have "block_ok w" using bo es(4) b(2) by (simp add: block_ok_def w_def)
  then have "fs_ok s'" using deleted_ok[OF ok x f s1(2) e(1-4), of w s'] es b(2) by (simp add: w_def s'_def)
  moreover have "vstep (view_of s) (ODelete r) (view_of s')" using deleted_view[OF ok x f s1(2) b(1,2) s'_def] by blast
  ultimately show ?thesis using run by blast
qed

section \<open>The workload\<close>

text \<open>The numbers drawn for an operation are below \<open>2^53\<close>.\<close>

fun draws_ok :: "fsop \<Rightarrow> bool" where
  "draws_ok (OAppend a b) = (drawn a \<and> drawn b)"
| "draws_ok (ODelete a) = drawn a"
| "draws_ok (OLink a b c) = (drawn a \<and> drawn b \<and> drawn c)"
| "draws_ok (OCreate _ a b) = (drawn a \<and> drawn b)"

lemma pick_in:
  assumes "drawn k" "xs \<noteq> []"
  shows "\<exists>x \<in> set xs. pick k xs = Inr x"
proof -
  let ?i = "scaled k (int (length xs))"
  have "0 \<le> ?i" "?i < int (length xs)" using scaled_range[OF assms(1), of "int (length xs)"] assms(2) by simp_all
  then have "pick k xs = Inr (xs ! nat ?i)" "nat ?i < length xs" by (simp_all add: pick_def)
  then show ?thesis by (meson nth_mem)
qed

lemma makeName_simple: "drawn k \<Longrightarrow> \<exists>n. makeName k = Inr n \<and> simple n"
proof -
  assume "drawn k"
  then obtain c where "c \<in> set name_letters" "pick k name_letters = Inr c" using pick_in[of k name_letters] by (auto simp: name_letters_def)
  moreover have "\<forall>c \<in> set name_letters. simple [c]" by (simp add: name_letters_def simple_def)
  ultimately show ?thesis by (auto simp: makeName_def)
qed

text \<open>What every operation promises: it returns, a failure changes nothing, a success keeps the file system consistent and does
  to the user's view what the operation stands for.\<close>

definition promise :: "fs \<Rightarrow> fsop \<Rightarrow> (bool \<times> fs) res \<Rightarrow> bool" where
  "promise s p m \<longleftrightarrow> (\<exists>r s'. m = Inr (r, s') \<and> (if r then fs_ok s' \<and> vstep (view_of s) p (view_of s') else s' = s))"

lemma promise_fail: "promise s p (Inr (False, s))"
  by (auto simp: promise_def)

lemma promise_success: "fs_ok s' \<Longrightarrow> vstep (view_of s) p (view_of s') \<Longrightarrow> promise s p (Inr (True, s'))"
  by (auto simp: promise_def)

lemma doAppend_ok:
  assumes ok: "fs_ok s" and d: "drawn a"
  shows "promise s (OAppend a b) (doAppend s a b)"
proof (cases "files s = []")
  case False
  let ?d = "[char_of (97 + b * 26 div 2 ^ 53)]"
  obtain f where f: "f \<in> set (files s)" "pick a (files s) = Inr f" using pick_in[OF d False] by blast
  then obtain i where i: "file_at s f i" using file_inode[OF ok] by blast
  obtain r s' where w: "writeFile s f ?d = Inr (r, s')" "if r then fs_ok s' \<and> vdata (view_of s) i = Some [] \<and>
      view_of s' = (view_of s)\<lparr>vdata := (vdata (view_of s))(i \<mapsto> ?d)\<rparr> else s' = s"
    using writeFile_ok[OF ok f(1) i] by blast
  have "vfiles (view_of s) f = Some i" using f(1) i by (simp add: view_of_def file_at_def)
  from Append[OF this, of a b] w(2) have "promise s (OAppend a b) (Inr (r, s'))" by (simp add: promise_def split: if_splits)
  then show ?thesis using False f(2) w(1) by (simp add: doAppend_def)
qed (simp add: doAppend_def promise_fail)

lemma doDelete_ok:
  assumes ok: "fs_ok s" and d: "drawn a"
  shows "promise s (ODelete a) (doDelete s a)"
proof (cases "files s = []")
  case False
  obtain f where f: "f \<in> set (files s)" "pick a (files s) = Inr f" using pick_in[OF d False] by blast
  obtain s' where "deleteFile s f = Inr s'" "fs_ok s'" "vstep (view_of s) (ODelete a) (view_of s')"
    using deleteFile_ok[OF ok f(1)] by blast
  then show ?thesis using False f(2) by (simp add: doDelete_def promise_success)
qed (simp add: doDelete_def promise_fail)

lemma dirs_nonempty: "fs_ok s \<Longrightarrow> dirs s \<noteq> []"
  by (auto simp: fs_ok_def names_ok_def)

lemma doLink_ok:
  assumes ok: "fs_ok s" and d: "drawn a" "drawn b" "drawn c"
  shows "promise s (OLink a b c) (doLink s a b c)"
proof (cases "files s = []")
  case False
  obtain p where p: "p \<in> set (dirs s)" "pick a (dirs s) = Inr p" using pick_in[OF d(1) dirs_nonempty[OF ok]] by blast
  obtain i k where dk: "dir_at s p i k" using dir_inode[OF ok p(1)] by blast
  obtain n where n: "makeName b = Inr n" "simple n" using makeName_simple[OF d(2)] by blast
  obtain f where f: "f \<in> set (files s)" "pick c (files s) = Inr f" using pick_in[OF d(3) False] by blast
  obtain t where t: "file_at s f t" using file_inode[OF ok f(1)] by blast
  let ?full = "dirUsed (blocks s ! k) \<ge> maxUsed \<or> n \<in> fst ` set (dirList (blocks s ! k))"
  note cl = createLink_cases[OF ok dk t n(2)]
  show ?thesis
  proof (cases ?full)
    case True
    then have "doLink s a b c = Inr (False, s)" using False p n f cl by (simp add: doLink_def)
    then show ?thesis by (simp add: promise_fail)
  next
    case room: False
    define s' where "s' = (linked s t k n)\<lparr>files := files s @ [fullName p n], nameToInum := (nameToInum s)(fullName p n \<mapsto> t)\<rparr>"
    have "createLink s f n p = Inr (Some t, linked s t k n)" using cl room by simp
    then have run: "doLink s a b c = Inr (True, s')" using False p n f by (simp add: doLink_def s'_def linked_def)
    have k: "dirUsed (blocks s ! k) < maxUsed" "n \<notin> fst ` set (dirList (blocks s ! k))" using room by auto
    note l = link_ok[OF ok p(1) dk f(1) t n(2) k refl s'_def]
    have "vfiles (view_of s) f = Some t" using f(1) t by (simp add: view_of_def file_at_def)
    from Link[OF l(2) this, of a b c] show ?thesis using run l(1,3) by (simp add: promise_success)
  qed
qed (simp add: doLink_def promise_fail)

lemma doCreate_file_ok:
  assumes ok: "fs_ok s" and p: "p \<in> set (dirs s)" "pick a (dirs s) = Inr p" and dk: "dir_at s p i k" and n: "makeName b = Inr n" "simple n"
  shows "promise s (OCreate False a b) (doCreate s FIL a b)"
proof (cases "dirUsed (blocks s ! k) \<ge> maxUsed \<or> n \<in> fst ` set (dirList (blocks s ! k)) \<or> inodeAlloc s = None")
  case True
  then have "doCreate s FIL a b = Inr (False, s)" using p n createFile_full[OF dk] by (simp add: doCreate_def)
  then show ?thesis by (simp add: promise_fail)
next
  case False
  then have k: "dirUsed (blocks s ! k) < maxUsed" "n \<notin> fst ` set (dirList (blocks s ! k))" by auto
  obtain t s1 where al: "inodeAlloc s = Some (t, s1)" using False by auto
  note t = inodeAlloc_ok[OF ok al]
  then obtain m where m: "s1 = s\<lparr>ibitmap := m\<rparr>" "bits_ok m ((map (\<lambda>n. itype n \<noteq> FREE) (inodes s))[t := True])" by blast
  define s' where "s' = (created s m t k n)\<lparr>files := files s @ [fullName p n], nameToInum := (nameToInum s)(fullName p n \<mapsto> t)\<rparr>"
  have "createFile s p n FIL = Inr (Some t, created s m t k n)" using createFile_file[OF dk k] al m(1) t(1) by simp
  then have run: "doCreate s FIL a b = Inr (True, s')" using p n by (simp add: doCreate_def s'_def created_def)
  note c = create_ok[OF ok p(1) dk n(2) k t(1,2) m(2) refl s'_def]
  from Create[OF c(2,3), of a b] show ?thesis using run c(1,4) by (simp add: promise_success)
qed

lemma doCreate_dir_ok:
  assumes ok: "fs_ok s" and p: "p \<in> set (dirs s)" "pick a (dirs s) = Inr p" and dk: "dir_at s p i k" and n: "makeName b = Inr n" "simple n"
  shows "promise s (OCreate True a b) (doCreate s DIR a b)"
proof (cases "dirUsed (blocks s ! k) \<ge> maxUsed \<or> n \<in> fst ` set (dirList (blocks s ! k)) \<or> inodeAlloc s = None")
  case True
  then have "doCreate s DIR a b = Inr (False, s)" using p n createFile_full[OF dk] by (simp add: doCreate_def)
  then show ?thesis by (simp add: promise_fail)
next
  case False
  then have k: "dirUsed (blocks s ! k) < maxUsed" "n \<notin> fst ` set (dirList (blocks s ! k))" by auto
  obtain t s1 where al: "inodeAlloc s = Some (t, s1)" using False by auto
  note t = inodeAlloc_ok[OF ok al]
  then obtain m where m: "s1 = s\<lparr>ibitmap := m\<rparr>" "bits_ok m ((map (\<lambda>n. itype n \<noteq> FREE) (inodes s))[t := True])" by blast
  show ?thesis
  proof (cases "dataAlloc s")
    case None
    then have "dataAlloc s1 = None" using m(1) by (simp add: dataAlloc_def)
    then have "doCreate s DIR a b = Inr (False, s)" using p n createFile_no_block[OF ok dk al] by (simp add: doCreate_def)
    then show ?thesis by (simp add: promise_fail)
  next
    case (Some cs)
    then obtain c s2 where dal: "dataAlloc s = Some (c, s2)" by (cases cs) auto
    note c = dataAlloc_ok[OF ok dal]
    then obtain md where md: "s2 = s\<lparr>dbitmap := md\<rparr>" "bits_ok md ((map (\<lambda>b. ftype b \<noteq> FREE) (blocks s))[c := True])" by blast
    have dal': "dataAlloc (s\<lparr>ibitmap := m\<rparr>) = Some (c, s\<lparr>ibitmap := m, dbitmap := md\<rparr>)" using dal md(1) by (auto simp: dataAlloc_def dest: arg_cong[where f = dbitmap])
    define s' where "s' = (made s m md t c i k n)\<lparr>dirs := dirs s @ [fullName p n], nameToInum := (nameToInum s)(fullName p n \<mapsto> t)\<rparr>"
    have "createFile s p n DIR = Inr (Some t, made s m md t c i k n)"
      using createFile_dir[OF ok dk k _ t(1,2) dal' c(1,2)] al m(1) by simp
    then have run: "doCreate s DIR a b = Inr (True, s')" using p n by (simp add: doCreate_def s'_def made_def)
    note mk = mkdir_ok[OF ok p(1) dk n(2) k t(1,2) m(2) c(1,2) md(2) refl s'_def]
    from Mkdir[OF mk(2), of a b] show ?thesis using run mk(1,3) by (simp add: promise_success)
  qed
qed

lemma do_op_ok:
  assumes ok: "fs_ok s" and d: "draws_ok p"
  shows "promise s p (do_op s p)"
proof (cases p)
  case (OCreate x a b)
  then obtain q where q: "q \<in> set (dirs s)" "pick a (dirs s) = Inr q" using d pick_in[OF _ dirs_nonempty[OF ok]] by auto
  obtain i k where dk: "dir_at s q i k" using dir_inode[OF ok q(1)] by blast
  obtain n where n: "makeName b = Inr n" "simple n" using makeName_simple[of b] d OCreate by auto
  show ?thesis using OCreate doCreate_dir_ok[OF ok q dk n] doCreate_file_ok[OF ok q dk n] by (cases x) (simp_all add: do_op_def)
qed (use ok d in \<open>auto simp: do_op_def doAppend_ok doDelete_ok doLink_ok\<close>)

interpretation workload: safe_machine fs_ok "\<lambda>_. draws_ok" "\<lambda>s p. bnd (do_op s p) (\<lambda>(_, s). Inr s)"
proof
  fix s p assume ok: "fs_ok s" and "draws_ok p"
  then obtain r s' where *: "do_op s p = Inr (r, s')" "if r then fs_ok s' \<and> vstep (view_of s) p (view_of s') else s' = s"
    using do_op_ok unfolding promise_def by blast
  then have "fs_ok s'" using ok by (cases r) simp_all
  then show "\<exists>s'. bnd (do_op s p) (\<lambda>(_, s). Inr s) = Inr s' \<and> fs_ok s'" using * by simp
qed

lemma next_op_draws:
  "next_op s rs = Some (p, rs') \<Longrightarrow> \<forall>r \<in> set rs. drawn r \<Longrightarrow> draws_ok p \<and> (\<forall>r \<in> set rs'. drawn r)"
  by (auto simp: next_op_def split: list.splits if_splits)

inductive vsteps :: "nat \<Rightarrow> view \<Rightarrow> view \<Rightarrow> bool" where
  Stop: "vsteps 0 v v"
| Step: "vstep v p w \<Longrightarrow> vsteps n w u \<Longrightarrow> vsteps (Suc n) v u"

inductive_cases vsteps_SucE: "vsteps (Suc n) v u"

definition run_promise :: "nat \<Rightarrow> fs \<Rightarrow> fs res \<Rightarrow> bool" where
  "run_promise n s m \<longleftrightarrow> (case m of Inl e \<Rightarrow> e \<in> {SysExit, NoReturn} | Inr s' \<Rightarrow> fs_ok s' \<and> vsteps n (view_of s) (view_of s'))"

lemma fs_run_ok:
  "fs_ok s \<Longrightarrow> \<forall>r \<in> set rs. drawn r \<Longrightarrow> run_promise n s (fs_run n s rs)"
proof (induction n s rs rule: fs_run.induct)
  case (1 n s rs)
  show ?case
  proof (cases "n = 0 \<or> next_op s rs = None")
    case True
    then show ?thesis using 1(2) by (cases "n = 0") (simp_all add: fs_run.simps[of n s rs] fs_run.simps[of 0 s rs] run_promise_def Stop)
  next
    case False
    then obtain p rs' where p: "next_op s rs = Some (p, rs')" by auto
    then have d: "draws_ok p" "\<forall>r \<in> set rs'. drawn r" using next_op_draws[OF p] 1(3) by auto
    obtain r s' where s': "do_op s p = Inr (r, s')" "if r then fs_ok s' \<and> vstep (view_of s) p (view_of s') else s' = s"
      using do_op_ok[OF 1(2) d(1)] unfolding promise_def by blast
    have ok': "fs_ok s'" using s'(2) 1(2) by (cases r) simp_all
    have run: "fs_run n s rs = (if numFree (ibitmap s') = 0 then Inl SysExit else if numFree (dbitmap s') = 0 then Inl SysExit
        else fs_run (if r then n - 1 else n) s' rs')" using False p s'(1) by (simp add: fs_run.simps[of n s rs])
    show ?thesis
    proof (cases "numFree (ibitmap s') = 0 \<or> numFree (dbitmap s') = 0")
      case True
      then show ?thesis using run by (auto simp: run_promise_def)
    next
      case room: False
      have "run_promise (if r then n - 1 else n) s' (fs_run (if r then n - 1 else n) s' rs')"
        by (rule 1(1)[of "(p, rs')" p rs' s' r]) (use False p room ok' d(2) in auto)
      moreover have "vsteps n (view_of s) u" if "vsteps (if r then n - 1 else n) (view_of s') u" for u
        using that s'(2) False by (cases r; cases n) (auto intro: Step)
      ultimately show ?thesis using run room by (auto simp: run_promise_def split: sum.splits)
    qed
  qed
qed

lemma fs_init_ok:
  assumes "0 < ni" "0 < nd"
  shows "\<exists>s. fs_init ni nd = Inr s \<and> fs_ok s \<and> view_of s = \<lparr>vfiles = Map.empty, vdirs = {''/''}, vdata = Map.empty\<rparr>"
proof -
  obtain a b where ab: "ni = Suc a" "nd = Suc b" using assms by (metis gr0_implies_Suc)
  define s where "s = \<lparr>ibitmap = \<lparr>bmap = True # replicate a False, numAllocated = 1\<rparr>, inodes = setAll DIR 0 2 # replicate a inode_init,
    dbitmap = \<lparr>bmap = True # replicate b False, numAllocated = 1\<rparr>, blocks = dir_block block_init 0 0 # replicate b block_init,
    files = [], dirs = [''/''], nameToInum = [''/'' \<mapsto> 0]\<rparr>"
  have "fs_init ni nd = Inr s"
    by (simp add: fs_init_def ab bitmap_mark_def bitmap_init_def list_get_def on_inode_def on_block_def block_setType_def addDirEntry_def
        asserting_def maxUsed_def s_def dir_block_def block_init_def)
  moreover have "fs_ok s"
  proof -
    have at: "dir_at s ''/'' 0 0" by (simp add: dir_at_def s_def setAll_def dir_block_def)
    have "bits_ok (ibitmap s) (map (\<lambda>n. itype n \<noteq> FREE) (inodes s))" "bits_ok (dbitmap s) (map (\<lambda>b. ftype b \<noteq> FREE) (blocks s))"
      by (simp_all add: bits_ok_def s_def setAll_def dir_block_def inode_init_def block_init_def)
    moreover have "addr_ok (inodes s) (blocks s)"
      by (auto simp: addr_ok_def owns_def s_def setAll_def dir_block_def inode_init_def block_init_def nth_Cons' split: if_splits)
    moreover have "\<forall>b \<in> set (blocks s). block_ok b" by (auto simp: s_def block_ok_def dir_block_def block_init_def maxUsed_def)
    moreover have "refs_ok (inodes s) (blocks s)"
    proof -
      have "concat (map dirList (replicate b block_init)) = []" by (auto simp: block_init_def)
      then have "entries (blocks s) = {#(''.'', 0), (''..'', 0)#}" by (simp add: entries_def s_def dir_block_def)
      then show ?thesis by (auto simp: refs_ok_def refs_def s_def setAll_def inode_init_def nth_Cons')
    qed
    moreover have "names_ok s"
    proof -
      have "located s ''/''" by (auto simp: located_def path_def intro!: exI[of _ "[]"])
      moreover have "listed s ''/''"
      proof -
        have "dirList (blocks s ! 0) = [(''.'', 0), (''..'', 0)]" by (simp add: s_def dir_block_def)
        then show ?thesis unfolding listed_def using dir_at_unique[OF at] by fastforce
      qed
      ultimately show ?thesis using at by (auto simp: names_ok_def s_def)
    qed
    moreover have "links_ok s" by (auto simp: links_ok_def s_def setAll_def inode_init_def nth_Cons')
    ultimately show ?thesis by (simp add: fs_ok_def)
  qed
  moreover have "view_of s = \<lparr>vfiles = Map.empty, vdirs = {''/''}, vdata = Map.empty\<rparr>"
    by (auto simp: view_of_def s_def setAll_def inode_init_def nth_Cons')
  ultimately show ?thesis by blast
qed

text \<open>No block is lost: as many are marked as there are inodes that have one.\<close>

lemma blocks_accounted:
  assumes ok: "fs_ok s"
  shows "numAllocated (dbitmap s) = int (card {i. i < length (inodes s) \<and> iaddr (inodes s ! i) \<noteq> -1})"
proof -
  let ?A = "{i. i < length (inodes s) \<and> iaddr (inodes s ! i) \<noteq> -1}" and ?B = "{b. b < length (blocks s) \<and> ftype (blocks s ! b) \<noteq> FREE}"
  let ?g = "\<lambda>i. nat (iaddr (inodes s ! i))"
  note ad = addr_okD[OF fs_okD(3)[OF ok]]
  have A: "\<exists>b < length (blocks s). iaddr (inodes s ! i) = int b \<and> ftype (blocks s ! b) = itype (inodes s ! i) \<and> itype (inodes s ! i) \<noteq> FREE"
    if "i \<in> ?A" for i using ad(1,2)[of i] that by auto
  have "inj_on ?g ?A"
  proof (rule inj_onI)
    fix i j assume "i \<in> ?A" "j \<in> ?A" "?g i = ?g j"
    then show "i = j" using A[of i] A[of j] ad(3)[of i j] by auto
  qed
  moreover have "?g ` ?A = ?B"
  proof
    show "?g ` ?A \<subseteq> ?B" using A by fastforce
    show "?B \<subseteq> ?g ` ?A"
    proof
      fix b assume "b \<in> ?B"
      then obtain i where "i < length (inodes s)" "iaddr (inodes s ! i) = int b"
        using fs_okD(3)[OF ok] unfolding addr_ok_def owns_def by auto
      then show "b \<in> ?g ` ?A" by (intro image_eqI[of _ _ i]) auto
    qed
  qed
  ultimately have "card ?A = card ?B" using card_image by fastforce
  moreover have "length (filter id (map (\<lambda>b. ftype b \<noteq> FREE) (blocks s))) = card ?B"
    by (simp add: filter_map length_filter_conv_card)
  ultimately show ?thesis using fs_okD(2)[OF ok] by (simp add: bits_ok_def)
qed

section \<open>Properties\<close>

text \<open>C12. The workload of the file system refines the abstract one: started on a fresh file system it stops only where the code
  stops (the inodes or blocks are used up) or for want of further random numbers; otherwise it ends in a consistent state that the user's
  view reaches by as many successful abstract operations as were requested.\<close>

theorem vsfs_refines:
  assumes "0 < numInodes" "0 < numData" "\<forall>r \<in> set rs. drawn r"
  shows "\<exists>s. fs_init numInodes numData = Inr s \<and> view_of s = \<lparr>vfiles = Map.empty, vdirs = {''/''}, vdata = Map.empty\<rparr> \<and>
    (case fs_run n s rs of Inl e \<Rightarrow> e \<in> {SysExit, NoReturn} | Inr s' \<Rightarrow> fs_ok s' \<and> vsteps n (view_of s) (view_of s'))"
proof -
  obtain s where "fs_init numInodes numData = Inr s" "fs_ok s" "view_of s = \<lparr>vfiles = Map.empty, vdirs = {''/''}, vdata = Map.empty\<rparr>"
    using fs_init_ok[OF assms(1,2)] by blast
  then show ?thesis using fs_run_ok[OF _ assms(3), of s n] by (auto simp: run_promise_def)
qed

text \<open>Two creations, a link and an append, then a file with two names holds one letter.\<close>

definition example_draws :: "int list" where
  "example_draws = (let h = 2 ^ 52; m = 2 ^ 53 - 1; l = 6000000000000000 in [m, 0, 0, 0, m, m, 0, h, l, 0, m, 0, 0, 0, h])"

definition example_end :: "fs res" where
  "example_end = bnd (fs_init 8 8) (\<lambda>s. fs_run 4 s example_draws)"

lemma example_end_files: "map_sum id (\<lambda>s. (files s, dirs s)) example_end = Inr ([''/a'', ''/z''], [''/'', ''/o''])"
  by code_simp

theorem vsfs_refines_witness:
  "\<exists>s s'. fs_init 8 8 = Inr s \<and> fs_run 4 s example_draws = Inr s' \<and> fs_ok s' \<and> vsteps 4 (view_of s) (view_of s') \<and>
     files s' = [''/a'', ''/z'']"
proof -
  have d: "\<forall>r \<in> set example_draws. drawn r" by (simp add: example_draws_def Let_def)
  obtain s where s: "fs_init 8 8 = Inr s"
    "case fs_run 4 s example_draws of Inl e \<Rightarrow> e \<in> {SysExit, NoReturn} | Inr s' \<Rightarrow> fs_ok s' \<and> vsteps 4 (view_of s) (view_of s')"
    using vsfs_refines[OF _ _ d, of 8 8 4] by auto
  then have e: "example_end = fs_run 4 s example_draws" by (simp add: example_end_def)
  then obtain s' where "fs_run 4 s example_draws = Inr s'" "files s' = [''/a'', ''/z'']"
    using example_end_files unfolding e by (cases "fs_run 4 s example_draws") simp_all
  then show ?thesis using s by auto
qed

text \<open>C28. No operation fails an assertion or an index on a consistent file system, and one that fails (no room in the directory, name
  taken, no inode, no block, file full) changes nothing, also where it has to give an inode back.\<close>

theorem vsfs_op_safe:
  assumes "fs_ok s" "draws_ok p"
  shows "\<exists>r s'. do_op s p = Inr (r, s') \<and> fs_ok s' \<and> (\<not> r \<longrightarrow> s' = s)"
proof -
  obtain r s' where *: "do_op s p = Inr (r, s')" "if r then fs_ok s' \<and> vstep (view_of s) p (view_of s') else s' = s"
    using do_op_ok[OF assms] unfolding promise_def by blast
  moreover have "fs_ok s'" "\<not> r \<longrightarrow> s' = s" using *(2) assms(1) by (cases r; simp)+
  ultimately show ?thesis by blast
qed

theorem vsfs_op_safe_witness:
  "\<exists>s s'. fs_init 3 1 = Inr s \<and> do_op s (OCreate True 0 0) = Inr (False, s') \<and> s' = s"
proof -
  obtain s where s: "fs_init 3 1 = Inr s" "fs_ok s" using fs_init_ok[of 3 1] by auto
  have "map_sum id fst (bnd (fs_init 3 1) (\<lambda>s. do_op s (OCreate True 0 0))) = Inr False" by code_simp
  then have "map_sum id fst (do_op s (OCreate True 0 0)) = Inr False" using s(1) by simp
  moreover obtain r s' where *: "do_op s (OCreate True 0 0) = Inr (r, s')" "\<not> r \<longrightarrow> s' = s" using vsfs_op_safe[OF s(2), of "OCreate True 0 0"] by auto
  ultimately show ?thesis using s(1) by auto
qed

text \<open>What each step does to the bitmaps.\<close>

lemma on_block_space: "on_block s a f = Inr s' \<Longrightarrow> files s' = files s \<and> ibitmap s' = ibitmap s \<and> dbitmap s' = dbitmap s"
  by (auto simp: on_block_def res_simps)

lemma on_inode_space: "on_inode s i f = Inr s' \<Longrightarrow> files s' = files s \<and> ibitmap s' = ibitmap s \<and> dbitmap s' = dbitmap s"
  by (auto simp: on_inode_def res_simps)

lemma inodeAlloc_space: "inodeAlloc s = Some (i, s') \<Longrightarrow> numFree (ibitmap s') = numFree (ibitmap s) - 1 \<and> dbitmap s' = dbitmap s"
  by (auto simp: inodeAlloc_def bitmap_alloc_def numFree_def split: option.splits)

lemma dataAlloc_space: "dataAlloc s = Some (i, s') \<Longrightarrow> numFree (dbitmap s') = numFree (dbitmap s) - 1 \<and> ibitmap s' = ibitmap s"
  by (auto simp: dataAlloc_def bitmap_alloc_def numFree_def split: option.splits)

lemma bitmap_free_space: "bitmap_free m k = Inr m' \<Longrightarrow> numFree m' = numFree m + 1"
  by (auto simp: bitmap_free_def numFree_def asserting_def res_simps split: if_splits)

lemma inodeFree_space: "inodeFree s i = Inr s' \<Longrightarrow> files s' = files s \<and> numFree (ibitmap s') = numFree (ibitmap s) + 1 \<and> dbitmap s' = dbitmap s"
  by (auto simp: inodeFree_def res_simps dest!: bitmap_free_space on_inode_space)

lemma dataFree_space: "dataFree s i = Inr s' \<Longrightarrow> files s' = files s \<and> numFree (dbitmap s') = numFree (dbitmap s) + 1 \<and> ibitmap s' = ibitmap s"
  by (auto simp: dataFree_def res_simps dest!: bitmap_free_space on_block_space)

lemmas space_steps = on_block_space on_inode_space inodeAlloc_space dataAlloc_space inodeFree_space dataFree_space

lemma createFile_space:
  "createFile s d n ft = Inr (Some i, s') \<Longrightarrow> numFree (ibitmap s') = numFree (ibitmap s) - 1 \<and> numFree (dbitmap s') = numFree (dbitmap s) - (if ft = DIR then 1 else 0)"
  by (auto simp: createFile_def res_simps dest!: space_steps split: if_splits option.splits)

lemma createLink_space: "createLink s f n d = Inr (r, s') \<Longrightarrow> ibitmap s' = ibitmap s \<and> dbitmap s' = dbitmap s"
  by (auto simp: createLink_def res_simps dest!: space_steps split: if_splits)

lemma writeFile_space: "writeFile s f c = Inr (True, s') \<Longrightarrow> ibitmap s' = ibitmap s \<and> numFree (dbitmap s') = numFree (dbitmap s) - 1"
  by (auto simp: writeFile_def res_simps dest!: space_steps split: if_splits option.splits)

lemma deleteFile_space:
  assumes "deleteFile s x = Inr s'" "nameToInum s x = Some i" "i < length (inodes s)"
  shows "numFree (ibitmap s') = numFree (ibitmap s) + (if refCnt (inodes s ! i) = 1 then 1 else 0) \<and>
    numFree (dbitmap s') = numFree (dbitmap s) + (if refCnt (inodes s ! i) = 1 \<and> iaddr (inodes s ! i) \<noteq> -1 then 1 else 0) \<and> files s' = remove1 x (files s)"
proof -
  have "list_get (inodes s) (int i) = Inr (inodes s ! i)" using assms(3) by simp
  then show ?thesis using assms(1,2) by (auto simp: deleteFile_def res_simps dest!: space_steps split: if_splits)
qed

text \<open>The last name of a file is the one that is left.\<close>

lemma last_name:
  assumes ok: "fs_ok s" and x: "x \<in> set (files s)"
  shows "\<exists>i. nameToInum s x = Some i \<and> i < length (inodes s) \<and> (refCnt (inodes s ! i) = 1 \<longleftrightarrow> names_of s i = [x])"
proof -
  obtain i where i: "nameToInum s x = Some i" "i < length (inodes s)" "itype (inodes s ! i) = FIL" using file_inode[OF ok x] by (auto simp: file_at_def)
  have "x \<in> set (names_of s i)" using x i(1) by (simp add: names_of_def)
  then have "length (names_of s i) = 1 \<longleftrightarrow> names_of s i = [x]" by (auto simp: length_Suc_conv)
  moreover have "refCnt (inodes s ! i) = int (length (names_of s i))" using fs_okD(7)[OF ok] i(2,3) by (simp add: links_ok_def)
  ultimately show ?thesis using i by auto
qed

text \<open>C31. Space. What an operation that succeeds takes and gives back, exactly: creating a file takes an inode, creating a directory an inode and a block, appending a block, and a link
  takes nothing; deleting a name gives back the inode, and the block if there is one, when it was the last name of the file, and nothing when it was not. After every
  successful operation on a consistent file system the inodes and blocks that are not free are those in use: those of a type, and those some inode points to.\<close>

theorem vsfs_space:
  assumes ok: "fs_ok s" "draws_ok p" and run: "do_op s p = Inr (True, s')"
  shows "(case p of
      OCreate d _ _ \<Rightarrow> numFree (ibitmap s') = numFree (ibitmap s) - 1 \<and> numFree (dbitmap s') = numFree (dbitmap s) - (if d then 1 else 0)
    | OLink _ _ _ \<Rightarrow> numFree (ibitmap s') = numFree (ibitmap s) \<and> numFree (dbitmap s') = numFree (dbitmap s)
    | OAppend _ _ \<Rightarrow> numFree (ibitmap s') = numFree (ibitmap s) \<and> numFree (dbitmap s') = numFree (dbitmap s) - 1
    | ODelete _ \<Rightarrow> \<exists>x i. x \<in> set (files s) \<and> files s' = remove1 x (files s) \<and> nameToInum s x = Some i \<and>
        numFree (ibitmap s') = numFree (ibitmap s) + (if names_of s i = [x] then 1 else 0) \<and>
        numFree (dbitmap s') = numFree (dbitmap s) + (if names_of s i = [x] \<and> iaddr (inodes s ! i) \<noteq> -1 then 1 else 0)) \<and>
    numFree (ibitmap s') = int (length (inodes s')) - int (card {i. i < length (inodes s') \<and> itype (inodes s' ! i) \<noteq> FREE}) \<and>
    numFree (dbitmap s') = int (length (blocks s')) - int (card {i. i < length (inodes s') \<and> iaddr (inodes s' ! i) \<noteq> -1})"
proof (intro conjI)
  have ok': "fs_ok s'" using do_op_ok[OF ok] run by (auto simp: promise_def)
  show "numFree (ibitmap s') = int (length (inodes s')) - int (card {i. i < length (inodes s') \<and> itype (inodes s' ! i) \<noteq> FREE})"
    using fs_okD(1)[OF ok'] by (simp add: numFree_def bits_ok_def filter_map length_filter_conv_card)
  have "length (bmap (dbitmap s')) = length (blocks s')" using fs_okD(2)[OF ok'] by (simp add: bits_ok_def)
  then show "numFree (dbitmap s') = int (length (blocks s')) - int (card {i. i < length (inodes s') \<and> iaddr (inodes s' ! i) \<noteq> -1})"
    using blocks_accounted[OF ok'] by (simp add: numFree_def)
  show "case p of
      OCreate d _ _ \<Rightarrow> numFree (ibitmap s') = numFree (ibitmap s) - 1 \<and> numFree (dbitmap s') = numFree (dbitmap s) - (if d then 1 else 0)
    | OLink _ _ _ \<Rightarrow> numFree (ibitmap s') = numFree (ibitmap s) \<and> numFree (dbitmap s') = numFree (dbitmap s)
    | OAppend _ _ \<Rightarrow> numFree (ibitmap s') = numFree (ibitmap s) \<and> numFree (dbitmap s') = numFree (dbitmap s) - 1
    | ODelete _ \<Rightarrow> \<exists>x i. x \<in> set (files s) \<and> files s' = remove1 x (files s) \<and> nameToInum s x = Some i \<and>
        numFree (ibitmap s') = numFree (ibitmap s) + (if names_of s i = [x] then 1 else 0) \<and>
        numFree (dbitmap s') = numFree (dbitmap s) + (if names_of s i = [x] \<and> iaddr (inodes s ! i) \<noteq> -1 then 1 else 0)"
  proof (cases p)
    case (ODelete a)
    then have ne: "files s \<noteq> []" using run by (auto simp: do_op_def doDelete_def)
    obtain x where x: "x \<in> set (files s)" "pick a (files s) = Inr x" using pick_in[OF _ ne, of a] ok(2) ODelete by auto
    then have del: "deleteFile s x = Inr s'" using run ODelete ne by (auto simp: do_op_def doDelete_def res_simps)
    obtain i where i: "nameToInum s x = Some i" "i < length (inodes s)" "refCnt (inodes s ! i) = 1 \<longleftrightarrow> names_of s i = [x]" using last_name[OF ok(1) x(1)] by blast
    show ?thesis using deleteFile_space[OF del i(1,2)] x(1) i unfolding ODelete fsop.case by (intro exI[of _ x] exI[of _ i]) simp
  next
    case (OCreate d a b)
    then show ?thesis using run
      by (auto simp: do_op_def doCreate_def res_simps Let_def dest!: createFile_space split: option.splits if_splits)
  next
    case (OLink a b c)
    then show ?thesis using run
      by (auto simp: do_op_def doLink_def res_simps dest!: createLink_space split: option.splits if_splits)
  next
    case (OAppend a b)
    then show ?thesis using run
      by (auto simp: do_op_def doAppend_def res_simps dest!: writeFile_space split: if_splits)
  qed
qed

theorem vsfs_space_witness:
  "\<exists>s s'. fs_init 8 8 = Inr s \<and> do_op s (OCreate True 0 0) = Inr (True, s') \<and> numFree (ibitmap s') = 6 \<and> numFree (dbitmap s') = 6"
proof -
  obtain s where s: "fs_init 8 8 = Inr s" "fs_ok s" using fs_init_ok[of 8 8] by auto
  have "map_sum id (\<lambda>s. (numFree (ibitmap s), numFree (dbitmap s))) (fs_init 8 8) = Inr (7, 7)" by code_simp
  then have f: "numFree (ibitmap s) = 7" "numFree (dbitmap s) = 7" using s(1) by simp_all
  have "map_sum id fst (bnd (fs_init 8 8) (\<lambda>s. do_op s (OCreate True 0 0))) = Inr True" by code_simp
  then obtain s' where s': "do_op s (OCreate True 0 0) = Inr (True, s')" using s(1) by (cases "do_op s (OCreate True 0 0)") auto
  show ?thesis using vsfs_space[OF s(2) _ s'] s s' f by simp
qed

end
