(* ===== verification/Process_Run.thy ===== *)
theory Process_Run
  imports Machines
begin

text \<open>
  The process-state simulator of \<^verbatim>\<open>ostep/homework/cpu-intro/process-run.py\<close>: the programs of the processes, their states
  (running, ready, waiting for an I/O, done), the two switching and the two I/O-completion behaviours, and the loop that runs
  one clock tick after the other.
\<close>

section \<open>Model\<close>

datatype pstate = RUNNING | READY | DONE | WAIT

datatype pinstr = DO_COMPUTE | DO_IO | DO_IO_DONE

record proc =
  pc :: int
  pid :: nat
  code :: "pinstr list"
  pstate :: pstate

datatype switching = SWITCH_ON_IO | SWITCH_ON_END

datatype io_done = IO_RUN_LATER | IO_RUN_IMMEDIATE

record conf =
  process_switch_behavior :: switching
  io_done_behavior :: io_done
  io_length :: int

definition new_process :: "proc list \<Rightarrow> proc list" where
  "new_process ps = ps @ [\<lparr>pc = 0, pid = length ps, code = [], pstate = READY\<rparr>]"

definition append_code :: "proc list \<Rightarrow> pinstr list \<Rightarrow> proc list" where
  "append_code ps is = (let p = last ps in butlast ps @ [p\<lparr>code := code p @ is\<rparr>])"

definition load_line :: "proc list \<Rightarrow> string \<Rightarrow> proc list res" where
  "load_line ps line =
     (case line of
        [] \<Rightarrow> Inl IndexError
      | opcode # rest \<Rightarrow>
          if opcode = CHR ''c'' then bnd (int_of_string rest) (\<lambda>num. Inr (append_code ps (replicate (nat num) DO_COMPUTE)))
          else if opcode = CHR ''i'' then Inr (append_code ps [DO_IO, DO_IO_DONE])
          else Inl SysExit)"

definition load_program :: "proc list \<Rightarrow> string \<Rightarrow> proc list res" where
  "load_program ps program = foldres load_line (new_process ps) (split_on CHR '','' program)"

definition load_all :: "string \<Rightarrow> proc list res" where
  "load_all program = foldres load_program [] (split_on CHR '':'' program)"

text \<open>The other form of a description, \<^verbatim>\<open>X:Y\<close>: \<open>X\<close> instructions, each of them a computation when the number drawn for it is below
  \<open>Y\<close> per cent. \<open>is_float\<close> says which texts \<^verbatim>\<open>float\<close> takes, \<open>coins\<close> how the comparisons of the draws with the chance come out.\<close>

definition load_desc :: "(string \<Rightarrow> bool) \<Rightarrow> bool list \<Rightarrow> proc list \<Rightarrow> string \<Rightarrow> proc list res" where
  "load_desc is_float coins ps d =
     (let ps = new_process ps; tmp = split_on CHR '':'' d
      in if length tmp \<noteq> 2 then Inl SysExit
         else bnd (int_of_string (tmp ! 0)) (\<lambda>num_instructions.
                if \<not> is_float (tmp ! 1) then Inl ValueError
                else Inr (append_code ps (concat (map (\<lambda>cpu. if cpu then [DO_COMPUTE] else [DO_IO, DO_IO_DONE]) (take (nat num_instructions) coins))))))"

text \<open>The scheduler: the processes, the current one, the times at which the I/Os of each process finish, and the counters of the run.\<close>

record sched =
  procs :: "proc list"
  curr_proc :: nat
  io_finish_times :: "int list list"
  clock_tick :: int
  cpu_busy :: int
  io_busy :: int

definition move_to :: "pstate \<Rightarrow> pstate \<Rightarrow> nat \<Rightarrow> sched \<Rightarrow> sched res" where
  "move_to new expected i s =
     bnd (key_get (procs s) i) (\<lambda>p. asserting (pstate p = expected) (Inr (s\<lparr>procs := (procs s)[i := p\<lparr>pstate := new\<rparr>]\<rparr>)))"

definition run_proc :: "sched \<Rightarrow> nat \<Rightarrow> sched res" where
  "run_proc s i = move_to RUNNING READY i (s\<lparr>curr_proc := i\<rparr>)"

definition next_proc :: "sched \<Rightarrow> sched res" where
  "next_proc s =
     (let n = length (procs s); c = curr_proc s
      in case find (\<lambda>i. pstate (procs s ! i) = READY) ([Suc c..<n] @ [0..<Suc c]) of
           None \<Rightarrow> Inr s
         | Some i \<Rightarrow> run_proc s i)"

definition get_num_active :: "sched \<Rightarrow> nat" where
  "get_num_active s = length (filter (\<lambda>p. pstate p \<noteq> DONE) (procs s))"

definition get_num_runnable :: "sched \<Rightarrow> nat" where
  "get_num_runnable s = length (filter (\<lambda>p. pstate p = READY \<or> pstate p = RUNNING) (procs s))"

definition get_ios_in_flight :: "sched \<Rightarrow> int \<Rightarrow> nat" where
  "get_ios_in_flight s now = length (filter (\<lambda>t. t > now) (concat (io_finish_times s)))"

definition check_if_done :: "sched \<Rightarrow> sched res" where
  "check_if_done s =
     bnd (key_get (procs s) (curr_proc s)) (\<lambda>p.
       if code p = [] \<and> pstate p = RUNNING then bnd (move_to DONE RUNNING (curr_proc s) s) next_proc else Inr s)"

text \<open>The I/O of a process that finishes at this tick.\<close>

definition finish_io :: "conf \<Rightarrow> sched \<Rightarrow> nat \<Rightarrow> sched res" where
  "finish_io g s i =
     bnd (key_get (io_finish_times s) i) (\<lambda>ts.
       if clock_tick s \<notin> set ts then Inr s
       else bnd (move_to READY WAIT i s) (\<lambda>s.
            bnd (if io_done_behavior g = IO_RUN_IMMEDIATE
                 then bnd (key_get (procs s) (curr_proc s)) (\<lambda>p.
                        bnd (if curr_proc s \<noteq> i \<and> pstate p = RUNNING then move_to READY RUNNING (curr_proc s) s else Inr s) (\<lambda>s.
                        run_proc s i))
                 else bnd (if process_switch_behavior g = SWITCH_ON_END \<and> get_num_runnable s > 1 then run_proc s i else Inr s) (\<lambda>s.
                      if get_num_runnable s = 1 then run_proc s i else Inr s)) check_if_done))"

text \<open>The instruction of the current process, if it runs and has one.\<close>

definition fetch :: "sched \<Rightarrow> (pinstr option \<times> sched) res" where
  "fetch s =
     bnd (key_get (procs s) (curr_proc s)) (\<lambda>p.
       case code p of
         ins # rest \<Rightarrow>
           if pstate p = RUNNING
           then Inr (Some ins, s\<lparr>procs := (procs s)[curr_proc s := p\<lparr>code := rest\<rparr>], cpu_busy := cpu_busy s + 1\<rparr>)
           else Inr (None, s)
       | [] \<Rightarrow> Inr (None, s))"

definition start_io :: "conf \<Rightarrow> sched \<Rightarrow> sched res" where
  "start_io g s =
     bnd (move_to WAIT RUNNING (curr_proc s) s) (\<lambda>s.
     bnd (key_get (io_finish_times s) (curr_proc s)) (\<lambda>ts.
       let s = s\<lparr>io_finish_times := (io_finish_times s)[curr_proc s := ts @ [clock_tick s + io_length g + 1]]\<rparr>
       in if process_switch_behavior g = SWITCH_ON_IO then next_proc s else Inr s))"

text \<open>The rest of a tick: execute, count, start the I/O, and look whether the process is done.\<close>

definition execute :: "conf \<Rightarrow> sched \<Rightarrow> sched res" where
  "execute g s =
     bnd (fetch s) (\<lambda>(ins, s).
       let s = s\<lparr>io_busy := io_busy s + (if get_ios_in_flight s (clock_tick s) > 0 then 1 else 0)\<rparr>
       in bnd (if ins = Some DO_IO then start_io g s else Inr s) check_if_done)"

definition ptick :: "conf \<Rightarrow> sched \<Rightarrow> sched res" where
  "ptick g s0 =
     (let s = s0\<lparr>clock_tick := clock_tick s0 + 1\<rparr>
      in bnd (foldres (finish_io g) s [0..<length (procs s)]) (execute g))"

definition boot_sched :: "proc list \<Rightarrow> sched res" where
  "boot_sched ps = move_to RUNNING READY 0
     \<lparr>procs = ps, curr_proc = 0, io_finish_times = replicate (length ps) [], clock_tick = 0, cpu_busy = 0, io_busy = 0\<rparr>"

text \<open>\<open>None\<close>: there is no process and \<^verbatim>\<open>run\<close> returns nothing.\<close>

definition sched_run :: "conf \<Rightarrow> nat \<Rightarrow> proc list \<Rightarrow> (int \<times> int \<times> int) option res" where
  "sched_run g fuel ps =
     (if ps = [] then Inr None
      else bnd (boot_sched ps) (\<lambda>s.
           bnd (while_res (\<lambda>s. get_num_active s > 0) (ptick g) fuel s) (\<lambda>s. Inr (Some (cpu_busy s, io_busy s, clock_tick s)))))"

section \<open>Invariant\<close>

definition st :: "sched \<Rightarrow> nat \<Rightarrow> pstate" where "st s i = pstate (procs s ! i)"

definition cd :: "sched \<Rightarrow> nat \<Rightarrow> pinstr list" where "cd s i = code (procs s ! i)"

definition io :: "sched \<Rightarrow> nat \<Rightarrow> int list" where "io s i = io_finish_times s ! i"

text \<open>The I/O times of a process, seen after time \<open>c\<close>: one that waits has exactly one still to come.\<close>

definition timed :: "int \<Rightarrow> pstate \<Rightarrow> int list \<Rightarrow> bool" where
  "timed c q ts \<longleftrightarrow> (if q = WAIT then ts \<noteq> [] \<and> last ts > c \<and> (\<forall>t \<in> set (butlast ts). t \<le> c) else \<forall>t \<in> set ts. t \<le> c)"

text \<open>Only the current process runs; when nobody may be interrupted only the current one waits; and nobody is ready while the
  processor is idle, unless it is held by the process that waits. \<open>K\<close>: the processes whose I/O of this tick is already handled.\<close>

definition due :: "nat set \<Rightarrow> int \<Rightarrow> nat \<Rightarrow> int" where
  "due K c i = (if i \<in> K then c else c - 1)"

definition sinv :: "conf \<Rightarrow> nat \<Rightarrow> nat set \<Rightarrow> sched \<Rightarrow> bool" where
  "sinv g n K s \<longleftrightarrow> length (procs s) = n \<and> length (io_finish_times s) = n \<and> curr_proc s < n \<and>
     (\<forall>i < n. st s i = RUNNING \<longrightarrow> i = curr_proc s) \<and>
     (\<forall>i < n. timed (due K (clock_tick s) i) (st s i) (io s i)) \<and>
     (process_switch_behavior g = SWITCH_ON_END \<longrightarrow> (\<forall>i < n. st s i = WAIT \<longrightarrow> i = curr_proc s)) \<and>
     ((\<exists>i < n. st s i = READY) \<longrightarrow> st s (curr_proc s) = RUNNING \<or> process_switch_behavior g = SWITCH_ON_END \<and> st s (curr_proc s) = WAIT)"

abbreviation put :: "sched \<Rightarrow> nat \<Rightarrow> pstate \<Rightarrow> sched" where
  "put s i q \<equiv> s\<lparr>procs := (procs s)[i := (procs s ! i)\<lparr>pstate := q\<rparr>]\<rparr>"

lemma put_simps [simp]:
  "i < length (procs s) \<Longrightarrow> st (put s i q) = (st s)(i := q)" "i < length (procs s) \<Longrightarrow> cd (put s i q) = cd s" "io (put s i q) = io s"
  by (auto simp: st_def cd_def io_def fun_eq_iff nth_list_update)

lemma view_curr [simp]: "st (s\<lparr>curr_proc := i\<rparr>) = st s" "cd (s\<lparr>curr_proc := i\<rparr>) = cd s" "io (s\<lparr>curr_proc := i\<rparr>) = io s"
  by (simp_all add: st_def cd_def io_def fun_eq_iff)

lemma move_to_ok: "i < length (procs s) \<Longrightarrow> st s i = expected \<Longrightarrow> move_to q expected i s = Inr (put s i q)"
  by (simp add: move_to_def st_def)

lemma run_proc_ok: "i < length (procs s) \<Longrightarrow> st s i = READY \<Longrightarrow> run_proc s i = Inr ((put s i RUNNING)\<lparr>curr_proc := i\<rparr>)"
  using move_to_ok[of i "s\<lparr>curr_proc := i\<rparr>" READY RUNNING] by (simp add: run_proc_def)

text \<open>What a step leaves alone: the programs, the I/O times and the counters.\<close>

definition frame :: "sched \<Rightarrow> sched \<Rightarrow> bool" where
  "frame s s' \<longleftrightarrow> length (procs s') = length (procs s) \<and> cd s' = cd s \<and> io_finish_times s' = io_finish_times s \<and> clock_tick s' = clock_tick s \<and>
     cpu_busy s' = cpu_busy s \<and> io_busy s' = io_busy s \<and>
     (\<forall>i < length (procs s). (st s i = DONE \<longrightarrow> st s' i = DONE) \<and> (st s' i = WAIT \<longrightarrow> st s i = WAIT) \<and>
       (st s' i = DONE \<longrightarrow> st s i = DONE \<or> cd s i = []))"

text \<open>Processes that are done have executed their program.\<close>

definition spent :: "sched \<Rightarrow> bool" where
  "spent s \<longleftrightarrow> (\<forall>i < length (procs s). st s i = DONE \<longrightarrow> cd s i = [])"

lemma spent_frame: "frame s s' \<Longrightarrow> spent s \<Longrightarrow> spent s'"
  unfolding spent_def frame_def by metis

lemma frame_refl [simp]: "frame s s"
  by (simp add: frame_def)

lemma frame_trans:
  assumes "frame s t" "frame t u"
  shows "frame s u"
  unfolding frame_def
proof (intro conjI allI impI)
  fix i assume i: "i < length (procs s)"
  show "st s i = DONE \<Longrightarrow> st u i = DONE" "st u i = WAIT \<Longrightarrow> st s i = WAIT" "st u i = DONE \<Longrightarrow> st s i = DONE \<or> cd s i = []"
    using assms i unfolding frame_def by metis+
qed (use assms in \<open>simp_all only: frame_def\<close>)

lemma next_proc_cases:
  assumes "curr_proc s < length (procs s)"
  shows "(\<exists>i < length (procs s). st s i = READY \<and> next_proc s = run_proc s i) \<or> (\<forall>i < length (procs s). st s i \<noteq> READY) \<and> next_proc s = Inr s"
proof (cases "find (\<lambda>i. pstate (procs s ! i) = READY) ([Suc (curr_proc s)..<length (procs s)] @ [0..<Suc (curr_proc s)])")
  case None
  have "st s i \<noteq> READY" if "i < length (procs s)" for i
  proof -
    have "i \<in> set ([Suc (curr_proc s)..<length (procs s)] @ [0..<Suc (curr_proc s)])" using that by auto
    then show ?thesis using None unfolding find_None_iff st_def by blast
  qed
  then show ?thesis using None by (simp add: next_proc_def Let_def)
next
  case (Some i)
  have "i < length (procs s)" "st s i = READY" using find_SomeD[OF Some] assms by (auto simp: st_def)
  then show ?thesis using Some by (auto simp: next_proc_def Let_def)
qed

text \<open>A ready process is put on the idle processor.\<close>

lemma run_ok:
  assumes n: "length (procs s) = n" "length (io_finish_times s) = n"
    and idle: "\<forall>j < n. st s j \<noteq> RUNNING" and no_wait: "process_switch_behavior g = SWITCH_ON_END \<longrightarrow> (\<forall>j < n. st s j \<noteq> WAIT)"
    and t: "\<forall>j < n. timed (due K (clock_tick s) j) (st s j) (io s j)" and i: "i < n" "st s i = READY"
  shows "\<exists>s'. run_proc s i = Inr s' \<and> sinv g n K s' \<and> frame s s' \<and> s' = (put s i RUNNING)\<lparr>curr_proc := i\<rparr>"
proof -
  define s' where "s' = (put s i RUNNING)\<lparr>curr_proc := i\<rparr>"
  have v: "st s' = (st s)(i := RUNNING)" "cd s' = cd s" "io s' = io s" using i(1) n by (simp_all add: s'_def)
  have f: "length (procs s') = n" "length (io_finish_times s') = n" "curr_proc s' = i" "clock_tick s' = clock_tick s" "io_finish_times s' = io_finish_times s"
    "cpu_busy s' = cpu_busy s" "io_busy s' = io_busy s" using n by (simp_all add: s'_def)
  have tm: "timed (due K (clock_tick s) j) (st s' j) (io s' j)" if "j < n" for j
    using t that i(2) unfolding v by (auto simp: timed_def)
  have "sinv g n K s'" using f i(1) n idle no_wait tm by (auto simp: sinv_def v)
  moreover have "frame s s'" using f n i by (simp add: frame_def v)
  ultimately show ?thesis using run_proc_ok[of i s] i n by (simp add: s'_def)
qed

lemma next_proc_ok:
  assumes n: "length (procs s) = n" "length (io_finish_times s) = n" "curr_proc s < n"
    and idle: "\<forall>i < n. st s i \<noteq> RUNNING" and no_wait: "process_switch_behavior g = SWITCH_ON_END \<longrightarrow> (\<forall>i < n. st s i \<noteq> WAIT)"
    and t: "\<forall>i < n. timed (due K (clock_tick s) i) (st s i) (io s i)"
  shows "\<exists>s'. next_proc s = Inr s' \<and> sinv g n K s' \<and> frame s s'"
proof -
  have "curr_proc s < length (procs s)" using n by simp
  from next_proc_cases[OF this] consider i where "i < n" "st s i = READY" "next_proc s = run_proc s i" | "\<forall>i < n. st s i \<noteq> READY" "next_proc s = Inr s"
    using n(1) by auto
  then show ?thesis
  proof cases
    case 1
    then show ?thesis using run_ok[OF n(1,2) idle no_wait t] by metis
  next
    case 2
    moreover from this have "sinv g n K s" using n idle no_wait t by (auto simp: sinv_def)
    ultimately show ?thesis by simp
  qed
qed

lemma sinvI_running:
  assumes "length (procs s) = n" "length (io_finish_times s) = n" "st s (curr_proc s) = RUNNING" "curr_proc s < n"
    "\<forall>i < n. st s i = RUNNING \<longrightarrow> i = curr_proc s" "\<forall>i < n. timed (due K (clock_tick s) i) (st s i) (io s i)"
    "process_switch_behavior g \<noteq> SWITCH_ON_END"
  shows "sinv g n K s"
  unfolding sinv_def by (intro conjI impI) (use assms in blast)+

lemma sinvI_waiting:
  assumes "length (procs s) = n" "length (io_finish_times s) = n" "st s (curr_proc s) = WAIT" "curr_proc s < n"
    "\<forall>i < n. st s i \<noteq> RUNNING" "\<forall>i < n. timed (due K (clock_tick s) i) (st s i) (io s i)" "\<forall>i < n. st s i = WAIT \<longrightarrow> i = curr_proc s"
    "process_switch_behavior g = SWITCH_ON_END"
  shows "sinv g n K s"
  unfolding sinv_def by (intro conjI impI) (use assms in blast)+

lemma sinvD:
  assumes "sinv g n K s"
  shows "length (procs s) = n" "length (io_finish_times s) = n" "curr_proc s < n" "\<And>i. i < n \<Longrightarrow> st s i = RUNNING \<Longrightarrow> i = curr_proc s"
    "\<And>i. i < n \<Longrightarrow> timed (due K (clock_tick s) i) (st s i) (io s i)"
    "\<And>i. process_switch_behavior g = SWITCH_ON_END \<Longrightarrow> i < n \<Longrightarrow> st s i = WAIT \<Longrightarrow> i = curr_proc s"
    "\<And>i. i < n \<Longrightarrow> st s i = READY \<Longrightarrow> st s (curr_proc s) = RUNNING \<or> process_switch_behavior g = SWITCH_ON_END \<and> st s (curr_proc s) = WAIT"
  using assms unfolding sinv_def by blast+

lemma frame_put: "i < length (procs s) \<Longrightarrow> (st s i = DONE \<longrightarrow> q = DONE) \<Longrightarrow> (q = DONE \<longrightarrow> cd s i = []) \<Longrightarrow> q \<noteq> WAIT \<Longrightarrow>
    frame s (put s i q)"
  by (auto simp: frame_def)

text \<open>A current process without further instructions ends.\<close>

lemma check_if_done_ok:
  assumes inv: "sinv g n K s"
  shows "\<exists>s'. check_if_done s = Inr s' \<and> sinv g n K s' \<and> frame s s' \<and>
    (st s (curr_proc s) = RUNNING \<and> cd s (curr_proc s) = [] \<longrightarrow> st s' (curr_proc s) = DONE)"
proof (cases "st s (curr_proc s) = RUNNING \<and> cd s (curr_proc s) = []")
  case True
  let ?c = "curr_proc s"
  define t where "t = put s ?c DONE"
  note I = sinvD[OF inv]
  have c: "?c < length (procs s)" using I(1,3) by simp
  have v: "st t = (st s)(?c := DONE)" "io t = io s" using c by (simp_all add: t_def)
  have f: "length (procs t) = n" "length (io_finish_times t) = n" "curr_proc t = ?c" "clock_tick t = clock_tick s" using I by (simp_all add: t_def)
  have tm: "timed (due K (clock_tick t) j) (st t j) (io t j)" if "j < n" for j
    using I(5)[OF that] True unfolding v f by (auto simp: timed_def)
  have idle: "\<forall>i < n. st t i \<noteq> RUNNING" using I(4) by (auto simp: v)
  have nw: "process_switch_behavior g = SWITCH_ON_END \<longrightarrow> (\<forall>i < n. st t i \<noteq> WAIT)"
  proof (intro impI allI)
    fix i assume "process_switch_behavior g = SWITCH_ON_END" "i < n"
    then show "st t i \<noteq> WAIT" using I(6)[of i] True by (auto simp: v)
  qed
  from next_proc_ok[OF f(1,2) _ idle nw, of K] f I(3) tm obtain s' where s': "next_proc t = Inr s'" "sinv g n K s'" "frame t s'" by auto
  have "frame s t" unfolding t_def by (rule frame_put) (use c True in auto)
  then have "frame s s'" using s'(3) by (rule frame_trans)
  moreover have "st s' ?c = DONE" using s'(3) f(1) I(3) v by (simp add: frame_def)
  moreover have "check_if_done s = Inr s'" using True c s'(1) move_to_ok[OF c, of RUNNING DONE] by (simp add: check_if_done_def st_def cd_def t_def)
  ultimately show ?thesis using s'(2) by blast
next
  case False
  have "check_if_done s = Inr s" using False sinvD(1,3)[OF inv] by (auto simp: check_if_done_def st_def cd_def)
  then show ?thesis using inv False by auto
qed

lemma num_runnable: "get_num_runnable s = card {j. j < length (procs s) \<and> (st s j = READY \<or> st s j = RUNNING)}"
  by (simp add: get_num_runnable_def length_filter_conv_card st_def)

lemma num_runnable_run: "i < length (procs s) \<Longrightarrow> st s i = READY \<Longrightarrow> get_num_runnable ((put s i RUNNING)\<lparr>curr_proc := j\<rparr>) = get_num_runnable s"
  unfolding num_runnable by (auto intro!: arg_cong[where f = card])

lemma timed_later: "timed (c - 1) q ts \<Longrightarrow> c \<notin> set ts \<Longrightarrow> timed c q ts"
  by (cases ts rule: rev_cases) (auto simp: timed_def split: if_splits)

lemma timed_now: "timed (c - 1) q ts \<Longrightarrow> c \<in> set ts \<Longrightarrow> q = WAIT \<and> (q' \<noteq> WAIT \<longrightarrow> timed c q' ts)"
  by (cases ts rule: rev_cases) (auto simp: timed_def split: if_splits)

text \<open>The choice of who runs after an I/O.\<close>

lemma after_io:
  assumes inv: "sinv g n K s" and i: "i < n" "st s i = WAIT" and s1: "s1 = put s i READY"
    and tm: "\<forall>j < n. timed (due K' (clock_tick s) j) (st s1 j) (io s j)"
  shows "\<exists>s2. (if io_done_behavior g = IO_RUN_IMMEDIATE
       then bnd (key_get (procs s1) (curr_proc s1)) (\<lambda>p.
              bnd (if curr_proc s1 \<noteq> i \<and> pstate p = RUNNING then move_to READY RUNNING (curr_proc s1) s1 else Inr s1) (\<lambda>s. run_proc s i))
       else bnd (if process_switch_behavior g = SWITCH_ON_END \<and> get_num_runnable s1 > 1 then run_proc s1 i else Inr s1) (\<lambda>s.
              if get_num_runnable s = 1 then run_proc s i else Inr s)) = Inr s2 \<and> sinv g n K' s2 \<and> frame s s2"
proof -
  note I = sinvD[OF inv]
  have il: "i < length (procs s)" using i I(1) by simp
  have v: "st s1 = (st s)(i := READY)" "io s1 = io s" using il by (simp_all add: s1)
  have f: "length (procs s1) = n" "length (io_finish_times s1) = n" "curr_proc s1 = curr_proc s" "clock_tick s1 = clock_tick s"
    using I(1,2) by (simp_all add: s1)
  have fr: "frame s s1" unfolding s1 by (rule frame_put) (use il i in auto)
  have run: "\<forall>j < n. st s1 j = RUNNING \<longrightarrow> j = curr_proc s" using I(4) by (auto simp: v)
  have nw: "process_switch_behavior g = SWITCH_ON_END \<longrightarrow> i = curr_proc s \<and> (\<forall>j < n. st s1 j \<noteq> WAIT)" using I(6) i by (auto simp: v)
  have ready: "st s1 i = READY" by (simp add: v)
  show ?thesis
  proof (cases "io_done_behavior g = IO_RUN_IMMEDIATE")
    case True
    define u where "u = (if curr_proc s \<noteq> i \<and> st s1 (curr_proc s) = RUNNING then put s1 (curr_proc s) READY else s1)"
    have c: "curr_proc s < length (procs s1)" using f I(3) by simp
    have mv: "(if curr_proc s1 \<noteq> i \<and> pstate (procs s1 ! curr_proc s1) = RUNNING then move_to READY RUNNING (curr_proc s1) s1 else Inr s1) = Inr u"
      using move_to_ok[OF c, of RUNNING READY] f(3) by (auto simp: u_def st_def)
    have uf: "length (procs u) = n" "length (io_finish_times u) = n" "clock_tick u = clock_tick s" "io u = io s" using f v c by (simp_all add: u_def)
    have us: "st u j = (if j = curr_proc s \<and> j \<noteq> i \<and> st s1 j = RUNNING then READY else st s1 j)" for j using c by (auto simp: u_def)
    have "\<forall>j < n. timed (due K' (clock_tick u) j) (st u j) (io u j)" unfolding uf us using tm by (auto simp: timed_def)
    moreover have "\<forall>j < n. st u j \<noteq> RUNNING" using run ready by (auto simp: us)
    moreover have "process_switch_behavior g = SWITCH_ON_END \<longrightarrow> (\<forall>j < n. st u j \<noteq> WAIT)" using nw by (auto simp: us)
    moreover have "st u i = READY" using ready by (simp add: us)
    ultimately obtain s2 where s2: "run_proc u i = Inr s2" "sinv g n K' s2" "frame u s2" using run_ok[OF uf(1,2) _ _ _ i(1)] by blast
    have "frame s1 u" using c by (auto simp: u_def intro!: frame_put)
    then have "frame s s2" using fr s2(3) by (blast intro: frame_trans)
    then show ?thesis using True s2(1,2) c f(3) mv by (intro exI[of _ s2]) simp
  next
    case later: False
    let ?R = "{j. j < length (procs s1) \<and> (st s1 j = READY \<or> st s1 j = RUNNING)}"
    have R: "i \<in> ?R" "finite ?R" using i f ready by simp_all
    have tm1: "\<forall>j < n. timed (due K' (clock_tick s1) j) (st s1 j) (io s1 j)" using tm f v by simp
    show ?thesis
    proof (cases "process_switch_behavior g = SWITCH_ON_IO \<and> get_num_runnable s1 \<noteq> 1")
      case True
      have "card ?R \<noteq> 1" using True by (simp only: num_runnable) simp
      then have "?R \<noteq> {i}" by (metis is_singletonI is_singleton_altdef)
      then obtain j where j: "j \<noteq> i" "j < n" "st s j = READY \<or> st s j = RUNNING" using R(1) f(1) by (auto simp: v split: if_splits)
      then have "st s (curr_proc s) = RUNNING" using I(4)[of j] I(7)[of j] True by auto
      moreover from this have "curr_proc s \<noteq> i" using i by auto
      ultimately have "st s1 (curr_proc s1) = RUNNING" by (simp add: f v)
      then have "sinv g n K' s1"
      proof (rule sinvI_running[OF f(1,2)])
        show "curr_proc s1 < n" using f(3) I(3) by simp
        show "\<forall>i < n. st s1 i = RUNNING \<longrightarrow> i = curr_proc s1" unfolding f(3) by (rule run)
      qed (use True tm1 in simp_all)
      then show ?thesis using fr later True by (intro exI[of _ s1]) simp
    next
      case False
      have idle: "\<forall>j < n. st s1 j \<noteq> RUNNING"
      proof (cases "process_switch_behavior g")
        case SWITCH_ON_IO
        then have "card ?R = 1" using False by (simp add: num_runnable)
        then have only: "j = i" if "j \<in> ?R" for j using R(1) that by (metis (no_types, lifting) card_1_singletonE singletonD)
        show ?thesis
        proof (intro allI impI notI)
          fix j assume "j < n" "st s1 j = RUNNING"
          moreover from this have "j = i" using only[of j] f(1) by blast
          ultimately show False using ready by simp
        qed
      next
        case SWITCH_ON_END
        then show ?thesis using run nw ready by auto
      qed
      have "process_switch_behavior g = SWITCH_ON_END \<longrightarrow> (\<forall>j < n. st s1 j \<noteq> WAIT)" using nw by blast
      from run_ok[OF f(1,2) idle this tm1 i(1) ready] obtain s2 where
        s2: "run_proc s1 i = Inr s2" "sinv g n K' s2" "frame s1 s2" "s2 = (put s1 i RUNNING)\<lparr>curr_proc := i\<rparr>" by blast
      have "get_num_runnable s2 = get_num_runnable s1" unfolding s2(4) by (rule num_runnable_run) (use i f ready in simp_all)
      moreover have "get_num_runnable s1 > 0" unfolding num_runnable using R by (metis card_gt_0_iff empty_iff)
      ultimately show ?thesis using False later s2(1,2) frame_trans[OF fr s2(3)]
        by (intro exI[of _ s2], cases "process_switch_behavior g"; cases "get_num_runnable s1 = 1") auto
    qed
  qed
qed

lemma finish_io_ok:
  assumes inv: "sinv g n K s" and i: "i < n" "i \<notin> K"
  shows "\<exists>s'. finish_io g s i = Inr s' \<and> sinv g n (insert i K) s' \<and> frame s s'"
proof -
  note I = sinvD[OF inv]
  let ?c = "clock_tick s"
  have ti: "timed (?c - 1) (st s i) (io s i)" using I(5)[OF i(1)] i(2) by (simp add: due_def)
  have key: "key_get (io_finish_times s) i = Inr (io s i)" using I(2) i(1) by (simp add: io_def)
  have rest: "timed (due (insert i K) ?c j) (st s j) (io s j)" if "j < n" "j \<noteq> i" for j using I(5)[OF that(1)] that(2) by (simp add: due_def)
  show ?thesis
  proof (cases "?c \<in> set (io s i)")
    case False
    then have "timed (due (insert i K) ?c j) (st s j) (io s j)" if "j < n" for j
      using rest[OF that] timed_later[OF ti] by (cases "j = i") (simp_all add: due_def)
    then have "sinv g n (insert i K) s" using inv by (simp add: sinv_def)
    then show ?thesis using False key by (intro exI[of _ s]) (simp add: finish_io_def)
  next
    case True
    then have w: "st s i = WAIT" "timed ?c READY (io s i)" using timed_now[OF ti, of READY] by simp_all
    have il: "i < length (procs s)" using i I(1) by simp
    define s1 where "s1 = put s i READY"
    have tm: "\<forall>j < n. timed (due (insert i K) ?c j) (st s1 j) (io s j)"
    proof (intro allI impI)
      fix j assume "j < n"
      then show "timed (due (insert i K) ?c j) (st s1 j) (io s j)"
        using rest[of j] w(2) il unfolding s1_def by (cases "j = i") (simp_all add: due_def)
    qed
    obtain s2 where s2: "(if io_done_behavior g = IO_RUN_IMMEDIATE
       then bnd (key_get (procs s1) (curr_proc s1)) (\<lambda>p.
              bnd (if curr_proc s1 \<noteq> i \<and> pstate p = RUNNING then move_to READY RUNNING (curr_proc s1) s1 else Inr s1) (\<lambda>s. run_proc s i))
       else bnd (if process_switch_behavior g = SWITCH_ON_END \<and> get_num_runnable s1 > 1 then run_proc s1 i else Inr s1) (\<lambda>s.
              if get_num_runnable s = 1 then run_proc s i else Inr s)) = Inr s2" "sinv g n (insert i K) s2" "frame s s2"
      using after_io[OF inv i(1) w(1) s1_def tm] by blast
    obtain s3 where s3: "check_if_done s2 = Inr s3" "sinv g n (insert i K) s3" "frame s2 s3" using check_if_done_ok[OF s2(2)] by blast
    have "finish_io g s i = Inr s3"
      unfolding finish_io_def key bnd_simps move_to_ok[OF il w(1)] s1_def[symmetric] using True s2(1) s3(1) by simp
    then show ?thesis using s3(2) frame_trans[OF s2(3) s3(3)] by blast
  qed
qed

lemma finish_all_ok:
  assumes "sinv g n {} s" "k \<le> n"
  shows "\<exists>s'. foldres (finish_io g) s [0..<k] = Inr s' \<and> sinv g n {..<k} s' \<and> frame s s'"
  using assms(2)
proof (induction k)
  case 0
  then show ?case using assms(1) by (intro exI[of _ s]) simp
next
  case (Suc k)
  then obtain s1 where s1: "foldres (finish_io g) s [0..<k] = Inr s1" "sinv g n {..<k} s1" "frame s s1" by auto
  obtain s2 where s2: "finish_io g s1 k = Inr s2" "sinv g n (insert k {..<k}) s2" "frame s1 s2" using finish_io_ok[OF s1(2), of k] Suc.prems by auto
  have "insert k {..<k} = {..<Suc k}" by auto
  then show ?case using s1 s2 frame_trans[OF s1(3) s2(3)] by (intro exI[of _ s2]) (simp add: foldres_append)
qed

section \<open>A clock tick\<close>

text \<open>What is left to do: instructions, processes that are not done, and the time until the I/Os finish.\<close>

definition todo :: "conf \<Rightarrow> int \<Rightarrow> sched \<Rightarrow> nat \<Rightarrow> int" where
  "todo g c s i = (io_length g + 2) * int (length (cd s i)) + (if st s i = DONE then 0 else 1) + (if st s i = WAIT then last (io s i) - c else 0)"

definition todos :: "conf \<Rightarrow> int \<Rightarrow> sched \<Rightarrow> int" where
  "todos g c s = (\<Sum>i < length (procs s). todo g c s i)"

lemma todo_frame:
  assumes "frame s s'" "timed d (st s i) (io s i)" "c \<le> d + 1" "i < length (procs s)"
  shows "todo g c s' i \<le> todo g c s i"
proof -
  have "io s' = io s" "cd s' = cd s" using assms(1) by (simp_all add: frame_def io_def fun_eq_iff)
  moreover have "st s i = DONE \<longrightarrow> st s' i = DONE" "st s' i = WAIT \<longrightarrow> st s i = WAIT" using assms(1,4) by (auto simp: frame_def)
  ultimately show ?thesis using assms(2,3) by (auto simp: todo_def timed_def)
qed

definition codes :: "sched \<Rightarrow> int" where
  "codes s = (\<Sum>i < length (procs s). int (length (cd s i)))"

lemma codes_frame: "frame s s' \<Longrightarrow> codes s' = codes s"
  by (simp add: frame_def codes_def)

text \<open>The instruction is taken off the program of the running process.\<close>

lemma fetch_runs:
  assumes c: "curr_proc s < length (procs s)" and r: "st s (curr_proc s) = RUNNING" "cd s (curr_proc s) = ins # rest"
  shows "\<exists>t. fetch s = Inr (Some ins, t) \<and> io_finish_times t = io_finish_times s \<and> curr_proc t = curr_proc s \<and> clock_tick t = clock_tick s \<and> cpu_busy t = cpu_busy s + 1 \<and> io_busy t = io_busy s \<and>
    length (procs t) = length (procs s) \<and>
    st t = st s \<and> cd t = (cd s)(curr_proc s := rest) \<and> io t = io s"
  using assms
  by (intro exI[of _ "s\<lparr>procs := (procs s)[curr_proc s := (procs s ! curr_proc s)\<lparr>code := rest\<rparr>], cpu_busy := cpu_busy s + 1\<rparr>"])
    (auto simp: fetch_def st_def cd_def io_def fun_eq_iff nth_list_update)

lemma fetch_idle:
  assumes c: "curr_proc s < length (procs s)" and r: "st s (curr_proc s) \<noteq> RUNNING \<or> cd s (curr_proc s) = []"
  shows "fetch s = Inr (None, s)"
  using assms by (auto simp: fetch_def st_def cd_def split: list.splits)

lemma codes_pop:
  assumes "curr_proc s < length (procs s)" "cd s (curr_proc s) = ins # rest" "length (procs t) = length (procs s)" "cd t = (cd s)(curr_proc s := rest)"
  shows "codes s = codes t + 1"
proof -
  let ?n = "length (procs s)" and ?c = "curr_proc s"
  have "codes s = int (length (cd s ?c)) + (\<Sum>i \<in> {..<?n} - {?c}. int (length (cd s i)))"
    unfolding codes_def using assms(1) by (intro sum.remove) auto
  moreover have "codes t = int (length (cd t ?c)) + (\<Sum>i \<in> {..<?n} - {?c}. int (length (cd t i)))"
    unfolding codes_def assms(3) using assms(1) by (intro sum.remove) auto
  moreover have "(\<Sum>i \<in> {..<?n} - {?c}. int (length (cd t i))) = (\<Sum>i \<in> {..<?n} - {?c}. int (length (cd s i)))"
    by (rule sum.cong) (auto simp: assms(4))
  ultimately show ?thesis using assms by simp
qed

lemma sinv_cong:
  assumes "sinv g n K s" "length (procs t) = length (procs s)" "io_finish_times t = io_finish_times s" "curr_proc t = curr_proc s"
    "clock_tick t = clock_tick s" "st t = st s"
  shows "sinv g n K t"
proof -
  have "io t = io s" using assms(3) by (simp add: io_def fun_eq_iff)
  then show ?thesis using assms by (simp add: sinv_def)
qed

text \<open>The running process starts an I/O.\<close>

lemma start_io_ok:
  assumes inv: "sinv g n {..<n} s" and r: "st s (curr_proc s) = RUNNING" and L: "0 \<le> io_length g"
  shows "\<exists>t s'. start_io g s = Inr s' \<and> sinv g n {..<n} s' \<and> frame t s' \<and> length (procs t) = n \<and>
    st t = (st s)(curr_proc s := WAIT) \<and> cd t = cd s \<and> io t = (io s)(curr_proc s := io s (curr_proc s) @ [clock_tick s + io_length g + 1]) \<and>
    clock_tick t = clock_tick s \<and> cpu_busy t = cpu_busy s \<and> io_busy t = io_busy s \<and> (\<forall>j < n. timed (clock_tick s) (st t j) (io t j))"
proof -
  note I = sinvD[OF inv]
  let ?c = "curr_proc s" and ?f = "clock_tick s + io_length g + 1"
  define t where "t = (put s ?c WAIT)\<lparr>io_finish_times := (io_finish_times s)[?c := io s ?c @ [?f]]\<rparr>"
  have c: "?c < length (procs s)" "?c < length (io_finish_times s)" using I(1,2,3) by simp_all
  have v: "st t = (st s)(?c := WAIT)" "cd t = cd s" "io t = (io s)(?c := io s ?c @ [?f])"
    using c by (auto simp: t_def st_def cd_def io_def fun_eq_iff nth_list_update)
  have f: "length (procs t) = n" "length (io_finish_times t) = n" "curr_proc t = ?c" "clock_tick t = clock_tick s" "cpu_busy t = cpu_busy s" "io_busy t = io_busy s"
    using I(1,2) by (simp_all add: t_def)
  have tm: "\<forall>j < n. timed (due {..<n} (clock_tick t) j) (st t j) (io t j)"
  proof (intro allI impI)
    fix j assume "j < n"
    then show "timed (due {..<n} (clock_tick t) j) (st t j) (io t j)"
      using I(5)[of j] r L unfolding v f by (cases "j = ?c") (simp_all add: due_def timed_def)
  qed
  have run: "start_io g s = (if process_switch_behavior g = SWITCH_ON_IO then next_proc t else Inr t)"
    using move_to_ok[OF c(1) r, of WAIT] c(2) by (simp add: start_io_def t_def Let_def io_def)
  have idle: "\<forall>j < n. st t j \<noteq> RUNNING" using I(4) by (auto simp: v)
  have "\<exists>s'. start_io g s = Inr s' \<and> sinv g n {..<n} s' \<and> frame t s'"
  proof (cases "process_switch_behavior g")
    case SWITCH_ON_IO
    then show ?thesis using next_proc_ok[OF f(1,2) _ idle _ tm] f I(3) run by simp
  next
    case SWITCH_ON_END
    have only: "\<forall>j < n. st t j = WAIT \<longrightarrow> j = curr_proc t" using I(6)[OF SWITCH_ON_END] by (auto simp: v f)
    have "sinv g n {..<n} t"
      by (rule sinvI_waiting[OF f(1,2) _ _ idle tm only SWITCH_ON_END]) (use f(3) I(3) v in simp_all)
    then show ?thesis using run SWITCH_ON_END by simp
  qed
  moreover have "\<forall>j < n. timed (clock_tick s) (st t j) (io t j)" using tm f(4) by (simp add: due_def)
  ultimately show ?thesis using f v by blast
qed

lemma execute_ok:
  assumes inv: "sinv g n {..<n} s" and L: "0 \<le> io_length g"
  shows "\<exists>s'. execute g s = Inr s' \<and> sinv g n {..<n} s' \<and> clock_tick s' = clock_tick s \<and>
    (\<forall>i < n. todo g (clock_tick s) s' i \<le> todo g (clock_tick s) s i) \<and>
    (st s (curr_proc s) = RUNNING \<longrightarrow> todo g (clock_tick s) s' (curr_proc s) < todo g (clock_tick s) s (curr_proc s)) \<and>
    cpu_busy s' + codes s' = cpu_busy s + codes s \<and> cpu_busy s' \<in> {cpu_busy s, cpu_busy s + 1} \<and> io_busy s' \<in> {io_busy s, io_busy s + 1} \<and>
    (spent s \<longrightarrow> spent s')"
proof -
  note I = sinvD[OF inv]
  let ?c = "curr_proc s" and ?T = "\<lambda>s. todo g (clock_tick s) s"
  have c: "?c < length (procs s)" using I(1,3) by simp
  define bump where "bump = (\<lambda>s. s\<lparr>io_busy := io_busy s + (if get_ios_in_flight s (clock_tick s) > 0 then 1 else 0)\<rparr>)"
  have bv: "st (bump t) = st t" "cd (bump t) = cd t" "io (bump t) = io t" "clock_tick (bump t) = clock_tick t" "length (procs (bump t)) = length (procs t)"
    "curr_proc (bump t) = curr_proc t" "cpu_busy (bump t) = cpu_busy t" "io_finish_times (bump t) = io_finish_times t"
    "io_busy (bump t) \<in> {io_busy t, io_busy t + 1}" for t
    by (simp_all add: bump_def st_def cd_def io_def fun_eq_iff)
  have cb: "codes (bump t) = codes t" for t by (simp add: codes_def bv)
  show ?thesis
  proof (cases "st s ?c = RUNNING \<and> cd s ?c \<noteq> []")
    case False
    then have "fetch s = Inr (None, s)" using fetch_idle[OF c] by blast
    moreover have b: "sinv g n {..<n} (bump s)" by (rule sinv_cong[OF inv]) (simp_all add: bv)
    moreover obtain s' where s': "check_if_done (bump s) = Inr s'" "sinv g n {..<n} s'" "frame (bump s) s'"
      "st s ?c = RUNNING \<and> cd s ?c = [] \<longrightarrow> st s' ?c = DONE" using check_if_done_ok[OF b] bv by auto
    moreover have le: "todo g (clock_tick s) s' i \<le> todo g (clock_tick s) s i" if "i < n" for i
    proof -
      have "todo g (clock_tick s) s' i \<le> todo g (clock_tick s) (bump s) i"
        by (rule todo_frame[OF s'(3), where d = "clock_tick s"]) (use I(5)[OF that] that I(1) in \<open>simp_all add: bv due_def\<close>)
      moreover have "todo g (clock_tick s) (bump s) i = todo g (clock_tick s) s i" by (simp add: todo_def bv)
      ultimately show ?thesis by simp
    qed
    moreover have "todo g (clock_tick s) s' ?c < todo g (clock_tick s) s ?c" if "st s ?c = RUNNING"
      using that False s'(3,4) by (simp add: todo_def frame_def bv)
    moreover have "spent (bump s) = spent s" by (simp add: spent_def bv)
    ultimately show ?thesis using codes_frame[OF s'(3)] cb[of s] spent_frame[OF s'(3)]
      by (intro exI[of _ s']) (auto simp: execute_def Let_def bump_def frame_def bv)
  next
    case True
    then obtain ins rest where code: "cd s ?c = ins # rest" by (cases "cd s ?c") auto
    obtain t where t: "fetch s = Inr (Some ins, t)" "length (procs t) = length (procs s)" "st t = st s" "cd t = (cd s)(?c := rest)" "io t = io s"
      and tf: "io_finish_times t = io_finish_times s" "curr_proc t = ?c" "clock_tick t = clock_tick s" "cpu_busy t = cpu_busy s + 1" "io_busy t = io_busy s"
      using fetch_runs[OF c _ code] True by blast
    have b: "sinv g n {..<n} (bump t)" by (rule sinv_cong[OF inv]) (simp_all add: bv tf t)
    have cp: "codes s = codes (bump t) + 1" using codes_pop[OF c code t(2,4)] cb by simp
    have "\<exists>w u. (if ins = DO_IO then start_io g (bump t) else Inr (bump t)) = Inr u \<and> sinv g n {..<n} u \<and> frame w u \<and> length (procs w) = n \<and> (spent s \<longrightarrow> spent w) \<and>
      cd w = cd t \<and> clock_tick w = clock_tick s \<and> cpu_busy w = cpu_busy s + 1 \<and> io_busy w = io_busy (bump t) \<and>
      (\<forall>i < n. timed (clock_tick s) (st w i) (io w i)) \<and>
      (\<forall>i < n. todo g (clock_tick s) w i \<le> todo g (clock_tick s) s i - (if i = ?c then 1 else 0))"
    proof (cases "ins = DO_IO")
      case io: True
      have "st (bump t) (curr_proc (bump t)) = RUNNING" using True by (simp add: bv tf t)
      from start_io_ok[OF b this L] obtain w u where w: "start_io g (bump t) = Inr u" "sinv g n {..<n} u" "frame w u" "length (procs w) = n"
        "st w = (st s)(?c := WAIT)" "cd w = cd t" "io w = (io s)(?c := io s ?c @ [clock_tick s + io_length g + 1])" "clock_tick w = clock_tick s"
        "cpu_busy w = cpu_busy s + 1" "io_busy w = io_busy (bump t)" "\<forall>j < n. timed (clock_tick s) (st w j) (io w j)"
        unfolding bv tf t by blast
      have "todo g (clock_tick s) w i \<le> todo g (clock_tick s) s i - (if i = ?c then 1 else 0)" for i
        using True code w(5,6,7) t(4) by (simp add: todo_def algebra_simps)
      moreover have "spent s \<longrightarrow> spent w" using w(4,5,6) t(4) I(1) by (simp add: spent_def)
      ultimately show ?thesis using io w by (intro exI[of _ w] exI[of _ u]) simp
    next
      case False
      have "todo g (clock_tick s) (bump t) i \<le> todo g (clock_tick s) s i - (if i = ?c then 1 else 0)" for i
        using True code L by (simp add: todo_def bv t algebra_simps)
      moreover have "timed (clock_tick s) (st s i) (io s i)" if "i < n" for i using I(5)[OF that] that by (simp add: due_def)
      moreover have "spent s \<longrightarrow> spent (bump t)" using True by (simp add: spent_def bv t I(1))
      ultimately show ?thesis using False b by (intro exI[of _ "bump t"]) (simp add: bv tf t I(1))
    qed
    then obtain w u where w: "(if ins = DO_IO then start_io g (bump t) else Inr (bump t)) = Inr u" "sinv g n {..<n} u" "frame w u" "length (procs w) = n"
      and sw: "spent s \<longrightarrow> spent w" and w':      "cd w = cd t" "clock_tick w = clock_tick s" "cpu_busy w = cpu_busy s + 1" "io_busy w = io_busy (bump t)"
      "\<forall>i < n. timed (clock_tick s) (st w i) (io w i)" "\<forall>i < n. todo g (clock_tick s) w i \<le> todo g (clock_tick s) s i - (if i = ?c then 1 else 0)" by blast
    obtain s' where s': "check_if_done u = Inr s'" "sinv g n {..<n} s'" "frame u s'" using check_if_done_ok[OF w(2)] by blast
    have fr: "frame w s'" using w(3) s'(3) by (rule frame_trans)
    have le: "todo g (clock_tick s) s' i \<le> todo g (clock_tick s) s i - (if i = ?c then 1 else 0)" if "i < n" for i
    proof -
      have "todo g (clock_tick s) s' i \<le> todo g (clock_tick s) w i"
        by (rule todo_frame[OF fr, where d = "clock_tick s"]) (use w(4) w'(5) that in simp_all)
      then show ?thesis using w'(6) that by fastforce
    qed
    have "codes w = codes (bump t)" using w(4) w'(1) t(2) I(1) by (simp add: codes_def bv)
    then have "codes s' = codes (bump t)" using codes_frame[OF fr] by simp
    moreover have "execute g s = bnd (if ins = DO_IO then start_io g (bump t) else Inr (bump t)) check_if_done"
      unfolding execute_def t(1) bump_def Let_def by simp
    then have "execute g s = Inr s'" unfolding w(1) using s'(1) by simp
    moreover have "todo g (clock_tick s) s' i \<le> todo g (clock_tick s) s i" if "i < n" for i using le[OF that] by (simp split: if_splits)
    moreover have "todo g (clock_tick s) s' ?c < todo g (clock_tick s) s ?c" using le[OF I(3)] by simp
    moreover have "clock_tick s' = clock_tick s" "cpu_busy s' = cpu_busy s + 1" "io_busy s' \<in> {io_busy s, io_busy s + 1}"
      using fr w'(2,3,4) bv(9)[of t] tf(5) by (simp_all add: frame_def)
    ultimately show ?thesis using s'(2) cp sw spent_frame[OF fr] by (intro exI[of _ s']) simp
  qed
qed

lemma sinv_tick: "sinv g n UNIV s \<Longrightarrow> sinv g n {} (s\<lparr>clock_tick := clock_tick s + 1\<rparr>)"
  by (simp add: sinv_def due_def st_def io_def)

lemma sinv_all: "sinv g n {..<n} s \<longleftrightarrow> sinv g n UNIV s"
proof -
  have "(\<forall>i < n. timed (due {..<n} (clock_tick s) i) (st s i) (io s i)) \<longleftrightarrow> (\<forall>i < n. timed (due UNIV (clock_tick s) i) (st s i) (io s i))"
    by (simp add: due_def)
  then show ?thesis unfolding sinv_def by (simp only:)
qed

lemma ptick_ok:
  assumes inv: "sinv g n UNIV s" and L: "0 \<le> io_length g" and act: "\<exists>i < n. st s i \<noteq> DONE"
  shows "\<exists>s'. ptick g s = Inr s' \<and> sinv g n UNIV s' \<and> clock_tick s' = clock_tick s + 1 \<and>
    todos g (clock_tick s') s' < todos g (clock_tick s) s \<and>
    cpu_busy s' + codes s' = cpu_busy s + codes s \<and> cpu_busy s' \<in> {cpu_busy s, cpu_busy s + 1} \<and> io_busy s' \<in> {io_busy s, io_busy s + 1} \<and>
    (spent s \<longrightarrow> spent s')"
proof -
  define s0 where "s0 = s\<lparr>clock_tick := clock_tick s + 1\<rparr>"
  let ?c = "clock_tick s + 1"
  have v0: "st s0 = st s" "cd s0 = cd s" "io s0 = io s" "length (procs s0) = n" "clock_tick s0 = ?c" "cpu_busy s0 = cpu_busy s" "io_busy s0 = io_busy s"
    using sinvD(1)[OF inv] by (simp_all add: s0_def st_def cd_def io_def fun_eq_iff)
  have i0: "sinv g n {} s0" using sinv_tick[OF inv] by (simp add: s0_def)
  obtain s1 where s1: "foldres (finish_io g) s0 [0..<n] = Inr s1" "sinv g n {..<n} s1" "frame s0 s1" using finish_all_ok[OF i0, of n] by auto
  obtain s' where s': "execute g s1 = Inr s'" "sinv g n {..<n} s'" "clock_tick s' = clock_tick s1"
    "\<forall>i < n. todo g (clock_tick s1) s' i \<le> todo g (clock_tick s1) s1 i"
    "st s1 (curr_proc s1) = RUNNING \<longrightarrow> todo g (clock_tick s1) s' (curr_proc s1) < todo g (clock_tick s1) s1 (curr_proc s1)"
    "cpu_busy s' + codes s' = cpu_busy s1 + codes s1" "cpu_busy s' \<in> {cpu_busy s1, cpu_busy s1 + 1}" "io_busy s' \<in> {io_busy s1, io_busy s1 + 1}" "spent s1 \<longrightarrow> spent s'"
    using execute_ok[OF s1(2) L] by blast
  have c1: "clock_tick s1 = ?c" "cpu_busy s1 = cpu_busy s" "io_busy s1 = io_busy s" "codes s1 = codes s" "length (procs s1) = n"
    using s1(3) codes_frame[OF s1(3)] v0 sinvD(1)[OF inv] by (simp_all add: frame_def codes_def)
  have le1: "todo g ?c s1 i \<le> todo g ?c s i" if "i < n" for i
  proof -
    have "todo g ?c s1 i \<le> todo g ?c s0 i"
      by (rule todo_frame[OF s1(3), where d = "clock_tick s"]) (use sinvD(5)[OF inv that] that v0 in \<open>simp_all add: due_def\<close>)
    moreover have "todo g ?c s0 i = todo g ?c s i" by (simp add: todo_def v0)
    ultimately show ?thesis by simp
  qed
  have le0: "todo g ?c s i \<le> todo g (clock_tick s) s i" "st s i = WAIT \<Longrightarrow> todo g ?c s i < todo g (clock_tick s) s i" for i
    by (simp_all add: todo_def)
  have "todo g ?c s' i \<le> todo g (clock_tick s) s i" if "i < n" for i using s'(4) le1[OF that] le0(1)[of i] that c1(1) by force
  moreover have "\<exists>i < n. todo g ?c s' i < todo g (clock_tick s) s i"
  proof (cases "st s1 (curr_proc s1) = RUNNING")
    case True
    have c: "curr_proc s1 < n" using sinvD(3)[OF s1(2)] .
    have "todo g ?c s' (curr_proc s1) < todo g ?c s1 (curr_proc s1)" using s'(5) True c1(1) by simp
    then show ?thesis using le1[OF c] le0(1)[of "curr_proc s1"] c by (intro exI[of _ "curr_proc s1"]) simp
  next
    case False
    obtain i where i: "i < n" "st s i \<noteq> DONE" using act by blast
    show ?thesis
    proof (cases "\<exists>j < n. st s1 j = WAIT")
      case True
      then obtain j where j: "j < n" "st s1 j = WAIT" by blast
      then have "st s j = WAIT" using s1(3) v0 by (simp add: frame_def)
      then show ?thesis using s'(4) le1[OF j(1)] le0(2)[of j] j(1) c1(1) by (intro exI[of _ j]) force
    next
      case nowait: False
      have "st s1 i = DONE" using False nowait i(1) sinvD(4,7)[OF s1(2), of i] sinvD(3)[OF s1(2)] by (cases "st s1 i") auto
      moreover have "cd s1 i = cd s i" using s1(3) v0 by (simp add: frame_def)
      moreover have "timed (clock_tick s) (st s i) (io s i)" using sinvD(5)[OF inv i(1)] by (simp add: due_def)
      ultimately have "todo g ?c s1 i < todo g ?c s i" using i(2) by (simp add: todo_def timed_def)
      then show ?thesis using s'(4) le0(1)[of i] i(1) c1(1) by (intro exI[of _ i]) force
    qed
  qed
  ultimately have "todos g ?c s' < todos g (clock_tick s) s"
    unfolding todos_def sinvD(1)[OF s'(2)] sinvD(1)[OF inv] by (intro sum_strict_mono_ex1) auto
  moreover have "ptick g s = Inr s'" using s1(1) s'(1) v0(4) by (simp add: ptick_def Let_def s0_def)
  moreover have "spent s \<longrightarrow> spent s1" using spent_frame[OF s1(3)] v0 sinvD(1)[OF inv] by (simp add: spent_def)
  ultimately show ?thesis using s'(2,3,6,7,8,9) c1 sinv_all[of g n s'] by (intro exI[of _ s']) simp
qed

section \<open>Whole runs\<close>

definition total :: "proc list \<Rightarrow> int" where
  "total ps = (\<Sum>p \<leftarrow> ps. int (length (code p)))"

text \<open>The most ticks a run can take.\<close>

definition max_ticks :: "conf \<Rightarrow> proc list \<Rightarrow> int" where
  "max_ticks g ps = (io_length g + 2) * total ps + int (length ps)"

definition run_inv :: "conf \<Rightarrow> proc list \<Rightarrow> sched \<Rightarrow> bool" where
  "run_inv g ps s \<longleftrightarrow> 0 \<le> io_length g \<and> sinv g (length ps) UNIV s \<and> cpu_busy s + codes s = total ps \<and> spent s \<and>
     0 \<le> cpu_busy s \<and> cpu_busy s \<le> clock_tick s \<and> 0 \<le> io_busy s \<and> io_busy s \<le> clock_tick s \<and>
     clock_tick s + todos g (clock_tick s) s \<le> max_ticks g ps"

lemma todos_nonneg: "sinv g n UNIV s \<Longrightarrow> 0 \<le> io_length g \<Longrightarrow> 0 \<le> todos g (clock_tick s) s"
proof -
  assume inv: "sinv g n UNIV s" and L: "0 \<le> io_length g"
  have "0 \<le> todo g (clock_tick s) s i" if "i < n" for i using sinvD(5)[OF inv that] L by (auto simp: todo_def timed_def due_def)
  then show ?thesis unfolding todos_def sinvD(1)[OF inv] by (intro sum_nonneg) simp
qed

lemma active_iff: "get_num_active s > 0 \<longleftrightarrow> (\<exists>i < length (procs s). st s i \<noteq> DONE)"
  by (simp add: get_num_active_def st_def filter_empty_conv) (metis in_set_conv_nth)

interpretation ticks: terminating_loop "run_inv g ps" "\<lambda>s. get_num_active s > 0" "ptick g" "\<lambda>s. nat (todos g (clock_tick s) s)" for g ps
proof
  fix s assume inv: "run_inv g ps s" and act: "get_num_active s > 0"
  then have si: "sinv g (length ps) UNIV s" and L: "0 \<le> io_length g" by (simp_all add: run_inv_def)
  have "\<exists>i < length ps. st s i \<noteq> DONE" using act sinvD(1)[OF si] by (simp add: active_iff)
  from ptick_ok[OF si L this] obtain s' where s': "ptick g s = Inr s'" "sinv g (length ps) UNIV s'" "clock_tick s' = clock_tick s + 1"
    "todos g (clock_tick s') s' < todos g (clock_tick s) s" "cpu_busy s' + codes s' = cpu_busy s + codes s"
    "cpu_busy s' \<in> {cpu_busy s, cpu_busy s + 1}" "io_busy s' \<in> {io_busy s, io_busy s + 1}" "spent s \<longrightarrow> spent s'" by blast
  have "run_inv g ps s'" using inv s'(2-) by (auto simp: run_inv_def)
  moreover have "nat (todos g (clock_tick s') s') < nat (todos g (clock_tick s) s)" using s'(4) todos_nonneg[OF s'(2) L] by simp
  ultimately show "\<exists>s'. ptick g s = Inr s' \<and> run_inv g ps s' \<and> nat (todos g (clock_tick s') s') < nat (todos g (clock_tick s) s)"
    using s'(1) by blast
qed

definition loaded :: "proc list \<Rightarrow> bool" where
  "loaded ps \<longleftrightarrow> ps \<noteq> [] \<and> (\<forall>p \<in> set ps. pstate p = READY)"

lemma sum_list_lessThan: "(\<Sum>x \<leftarrow> xs. f x) = (\<Sum>i < length xs. f (xs ! i))"
  by (simp add: sum_list_sum_nth atLeast0LessThan)

lemma boot_sched_ok:
  assumes ps: "loaded ps" and L: "0 \<le> io_length g"
  shows "\<exists>s. boot_sched ps = Inr s \<and> run_inv g ps s"
proof -
  define s0 where "s0 = \<lparr>procs = ps, curr_proc = 0, io_finish_times = replicate (length ps) [], clock_tick = 0, cpu_busy = 0, io_busy = 0\<rparr>"
  define s where "s = put s0 0 RUNNING"
  have n: "0 < length (procs s0)" using ps by (simp add: s0_def loaded_def)
  have r: "st s0 i = READY" if "i < length ps" for i using ps that by (simp add: st_def s0_def loaded_def)
  have v: "st s = (st s0)(0 := RUNNING)" "cd s = cd s0" "io s = io s0" using n by (simp_all add: s_def)
  have io: "io s i = []" if "i < length ps" for i using that by (simp add: v) (simp add: io_def s0_def)
  have cdi: "cd s i = code (ps ! i)" for i by (simp add: v cd_def s0_def)
  have "boot_sched ps = Inr s" using move_to_ok[OF n r, of RUNNING] n by (simp add: boot_sched_def s_def s0_def)
  moreover have f: "length (procs s) = length ps" "length (io_finish_times s) = length ps" "curr_proc s = 0" "clock_tick s = 0" "cpu_busy s = 0" "io_busy s = 0"
    by (simp_all add: s_def s0_def)
  moreover have "sinv g (length ps) UNIV s" using n f r io by (auto simp: sinv_def v(1) timed_def s0_def)
  moreover have "spent s" using r f by (auto simp: spent_def v(1))
  moreover have "codes s = total ps" by (simp add: codes_def total_def f cdi sum_list_lessThan)
  moreover have "todos g 0 s = max_ticks g ps"
  proof -
    have "todo g 0 s i = (io_length g + 2) * int (length (code (ps ! i))) + 1" if "i < length ps" for i
      using r[OF that] that by (simp add: todo_def cdi v(1))
    then show ?thesis by (simp add: todos_def f max_ticks_def total_def sum_list_lessThan sum.distrib sum_distrib_left)
  qed
  ultimately show ?thesis using L by (auto simp: run_inv_def)
qed

text \<open>The states of a run.\<close>

inductive reached :: "conf \<Rightarrow> proc list \<Rightarrow> sched \<Rightarrow> bool" for g ps where
  Boot: "boot_sched ps = Inr s \<Longrightarrow> reached g ps s"
| Tick: "reached g ps s \<Longrightarrow> get_num_active s > 0 \<Longrightarrow> ptick g s = Inr s' \<Longrightarrow> reached g ps s'"

lemma reached_inv: "reached g ps s \<Longrightarrow> loaded ps \<Longrightarrow> 0 \<le> io_length g \<Longrightarrow> run_inv g ps s"
proof (induction rule: reached.induct)
  case (Boot s)
  then show ?case using boot_sched_ok[of ps g] by auto
next
  case (Tick s s')
  then show ?case using ticks.body_ok[of g ps s] by auto
qed

section \<open>Programs as text\<close>

datatype item = Compute nat | Io

fun show_item :: "item \<Rightarrow> string" where
  "show_item (Compute n) = CHR ''c'' # str_int (int n)"
| "show_item Io = ''i''"

definition show_program :: "item list \<Rightarrow> string" where
  "show_program xs = join_with CHR '','' (map show_item xs)"

fun item_code :: "item \<Rightarrow> pinstr list" where
  "item_code (Compute n) = replicate n DO_COMPUTE"
| "item_code Io = [DO_IO, DO_IO_DONE]"

definition loaded_proc :: "nat \<Rightarrow> item list \<Rightarrow> proc" where
  "loaded_proc i xs = \<lparr>pc = 0, pid = i, code = concat (map item_code xs), pstate = READY\<rparr>"

lemma show_item_sep: "CHR '','' \<notin> set (show_item x)" "CHR '':'' \<notin> set (show_item x)"
  by (cases x; simp add: str_int_no_sep)+

lemma load_line_show: "load_line (ps @ [p]) (show_item x) = Inr (ps @ [p\<lparr>code := code p @ item_code x\<rparr>])"
  by (cases x) (simp_all add: load_line_def append_code_def int_of_string_str_int Let_def)

lemma load_lines_show:
  "foldres load_line (ps @ [p]) (map show_item xs) = Inr (ps @ [p\<lparr>code := code p @ concat (map item_code xs)\<rparr>])"
  by (induction xs arbitrary: p) (simp_all add: load_line_show)

lemma load_program_show:
  assumes "xs \<noteq> []"
  shows "load_program ps (show_program xs) = Inr (ps @ [loaded_proc (length ps) xs])"
proof -
  have "split_on CHR '','' (show_program xs) = map show_item xs" unfolding show_program_def
    by (rule split_join) (use assms show_item_sep in auto)
  then show ?thesis by (simp add: load_program_def new_process_def load_lines_show loaded_proc_def)
qed

lemma join_no_sep: "c \<noteq> d \<Longrightarrow> \<forall>t \<in> set ts. c \<notin> set t \<Longrightarrow> c \<notin> set (join_with d ts)"
  by (induction d ts rule: join_with.induct) auto

definition loaded_procs :: "item list list \<Rightarrow> proc list" where
  "loaded_procs xss = map (\<lambda>(i, xs). loaded_proc i xs) (enumerate 0 xss)"

lemma load_programs_show:
  "[] \<notin> set xss \<Longrightarrow> foldres load_program ps (map show_program xss) = Inr (ps @ map (\<lambda>(i, xs). loaded_proc i xs) (enumerate (length ps) xss))"
proof (induction xss arbitrary: ps)
  case (Cons xs xss)
  then show ?case using load_program_show[of xs ps] by fastforce
qed simp

lemma load_all_show:
  assumes "xss \<noteq> []" "[] \<notin> set xss"
  shows "load_all (join_with CHR '':'' (map show_program xss)) = Inr (loaded_procs xss)"
proof -
  have "CHR '':'' \<notin> set (show_program xs)" for xs
    unfolding show_program_def by (rule join_no_sep) (simp_all add: show_item_sep)
  then have "\<forall>t \<in> set (map show_program xss). CHR '':'' \<notin> set t" by simp
  then have "split_on CHR '':'' (join_with CHR '':'' (map show_program xss)) = map show_program xss" using assms(1) by (intro split_join) auto
  then show ?thesis using load_programs_show[OF assms(2), of "[]"] by (simp add: load_all_def loaded_procs_def)
qed

lemma loaded_procs_loaded: "xss \<noteq> [] \<Longrightarrow> loaded (loaded_procs xss)"
  by (auto simp: loaded_def loaded_procs_def loaded_proc_def enumerate_eq_zip dest!: set_zip_rightD)

lemma total_loaded: "total (loaded_procs xss) = int (\<Sum>xs \<leftarrow> xss. \<Sum>x \<leftarrow> xs. length (item_code x))"
proof -
  have "total (map (\<lambda>(i, xs). loaded_proc i xs) (enumerate k xss)) = int (\<Sum>xs \<leftarrow> xss. \<Sum>x \<leftarrow> xs. length (item_code x))" for k
    by (induction xss arbitrary: k) (simp_all add: total_def loaded_proc_def length_concat comp_def)
  then show ?thesis by (simp add: loaded_procs_def)
qed

section \<open>Properties\<close>

text \<open>C14. Every set of programs, given as the option takes it, runs to the end with no failed assertion, for both switching and both I/O
  behaviours: the processor executes each instruction exactly once, neither device is busier than the clock has run, and the
  run takes at most \<open>max_ticks\<close> ticks (an I/O takes its length plus two ticks of the processor).\<close>

theorem process_run_ends:
  assumes "xss \<noteq> []" "[] \<notin> set xss" "0 \<le> io_length g" "nat (max_ticks g (loaded_procs xss)) \<le> fuel"
  shows "\<exists>cpu io ticks. bnd (load_all (join_with CHR '':'' (map show_program xss))) (sched_run g fuel) = Inr (Some (cpu, io, ticks)) \<and>
    cpu = int (\<Sum>xs \<leftarrow> xss. \<Sum>x \<leftarrow> xs. length (item_code x)) \<and> cpu \<le> ticks \<and> 0 \<le> io \<and> io \<le> ticks \<and> ticks \<le> max_ticks g (loaded_procs xss)"
proof -
  let ?ps = "loaded_procs xss"
  have ld: "loaded ?ps" using loaded_procs_loaded[OF assms(1)] .
  obtain s where s: "boot_sched ?ps = Inr s" "run_inv g ?ps s" using boot_sched_ok[OF ld assms(3)] by blast
  have "clock_tick s = 0" using s(1) by (auto simp: boot_sched_def move_to_def res_simps)
  then have "nat (todos g (clock_tick s) s) \<le> fuel" using s(2) assms(4) by (auto simp: run_inv_def)
  from ticks.loop_ends[OF s(2) this] obtain s' where s': "while_res (\<lambda>s. get_num_active s > 0) (ptick g) fuel s = Inr s'" "run_inv g ?ps s'"
    "\<not> get_num_active s' > 0" by blast
  have inv: "sinv g (length ?ps) UNIV s'" using s'(2) by (simp add: run_inv_def)
  have "bnd (load_all (join_with CHR '':'' (map show_program xss))) (sched_run g fuel) = Inr (Some (cpu_busy s', io_busy s', clock_tick s'))"
    using load_all_show[OF assms(1,2)] ld s(1) s'(1) by (simp add: sched_run_def loaded_def)
  moreover have "codes s' = 0"
    using s'(2,3) by (simp add: codes_def run_inv_def spent_def active_iff)
  moreover have "total ?ps = int (\<Sum>xs \<leftarrow> xss. \<Sum>x \<leftarrow> xs. length (item_code x))" by (rule total_loaded)
  ultimately show ?thesis using s'(2) todos_nonneg[OF inv assms(3)] by (auto simp: run_inv_def)
qed

theorem process_run_ends_witness:
  "\<exists>cpu io ticks. bnd (load_all ''c3,i,c1:c2'') (sched_run \<lparr>process_switch_behavior = SWITCH_ON_IO, io_done_behavior = IO_RUN_LATER, io_length = 5\<rparr> 100) =
     Inr (Some (cpu, io, ticks)) \<and> cpu = 8 \<and> ticks \<le> 58"
proof -
  let ?g = "\<lparr>process_switch_behavior = SWITCH_ON_IO, io_done_behavior = IO_RUN_LATER, io_length = 5\<rparr>"
  let ?x = "[[Compute 3, Io, Compute 1], [Compute 2]]"
  have t: "join_with CHR '':'' (map show_program ?x) = ''c3,i,c1:c2''" by code_simp
  have m: "max_ticks ?g (loaded_procs ?x) = 58" by code_simp
  show ?thesis using process_run_ends[of ?x ?g 100] unfolding t m by auto
qed

text \<open>C33. In every state a run reaches at most one process runs, and it is the current one; a process waits exactly while one of its
  I/Os is outstanding; nobody is ready while the processor is idle when an I/O switches, and otherwise only the current process
  waits.\<close>

theorem process_run_states:
  assumes "reached g ps s" "loaded ps" "0 \<le> io_length g" "i < length ps"
  shows "(pstate (procs s ! i) = RUNNING \<longrightarrow> i = curr_proc s) \<and>
    (pstate (procs s ! i) = WAIT \<longleftrightarrow> (\<exists>t \<in> set (io_finish_times s ! i). clock_tick s < t)) \<and>
    length (filter (\<lambda>t. clock_tick s < t) (io_finish_times s ! i)) \<le> 1 \<and>
    (pstate (procs s ! i) = READY \<longrightarrow> process_switch_behavior g = SWITCH_ON_IO \<longrightarrow> pstate (procs s ! curr_proc s) = RUNNING) \<and>
    (pstate (procs s ! i) = WAIT \<longrightarrow> process_switch_behavior g = SWITCH_ON_END \<longrightarrow> i = curr_proc s)"
proof -
  have inv: "sinv g (length ps) UNIV s" using reached_inv[OF assms(1-3)] by (simp add: run_inv_def)
  have t: "timed (clock_tick s) (pstate (procs s ! i)) (io_finish_times s ! i)" using sinvD(5)[OF inv assms(4)] by (simp add: due_def st_def io_def)
  have "(pstate (procs s ! i) = WAIT \<longleftrightarrow> (\<exists>t \<in> set (io_finish_times s ! i). clock_tick s < t)) \<and>
    length (filter (\<lambda>t. clock_tick s < t) (io_finish_times s ! i)) \<le> 1"
    using t by (cases "io_finish_times s ! i" rule: rev_cases) (auto simp: timed_def filter_empty_conv not_less split: if_splits)
  then show ?thesis using sinvD(4,6,7)[OF inv, of i] assms(4) by (auto simp: st_def)
qed

theorem process_run_states_witness:
  "\<exists>s. reached \<lparr>process_switch_behavior = SWITCH_ON_IO, io_done_behavior = IO_RUN_LATER, io_length = 5\<rparr> (loaded_procs [[Io], [Compute 2]]) s \<and>
     (pstate (procs s ! 1) = RUNNING \<longrightarrow> 1 = curr_proc s)"
proof -
  let ?g = "\<lparr>process_switch_behavior = SWITCH_ON_IO, io_done_behavior = IO_RUN_LATER, io_length = 5\<rparr>" and ?ps = "loaded_procs [[Io], [Compute 2]]"
  have ld: "loaded ?ps" by (rule loaded_procs_loaded) simp
  obtain s where "boot_sched ?ps = Inr s" using boot_sched_ok[OF ld, of ?g] by auto
  then have "reached ?g ?ps s" by (rule Boot)
  moreover have "1 < length ?ps" by (simp add: loaded_procs_def)
  ultimately show ?thesis using process_run_states[OF _ ld, of ?g s 1] by auto
qed

text \<open>A list of programs written out in the syntax of the option is read back as the processes it describes; every empty line, bad
  number and unknown opcode is refused as the code refuses it.\<close>

theorem process_load_roundtrip:
  "(xss \<noteq> [] \<longrightarrow> [] \<notin> set xss \<longrightarrow> load_all (join_with CHR '':'' (map show_program xss)) = Inr (loaded_procs xss)) \<and>
   load_line ps [] = Inl IndexError \<and>
   (c \<noteq> CHR ''c'' \<longrightarrow> c \<noteq> CHR ''i'' \<longrightarrow> load_line ps (c # cs) = Inl SysExit) \<and>
   (int_of_string cs = Inl e \<longrightarrow> load_line ps (CHR ''c'' # cs) = Inl e)"
  using load_all_show by (auto simp: load_line_def)

theorem process_load_roundtrip_witness:
  "load_all ''c3,i:c2'' = Inr (loaded_procs [[Compute 3, Io], [Compute 2]])"
proof -
  have "join_with CHR '':'' (map show_program [[Compute 3, Io], [Compute 2]]) = ''c3,i:c2''" by code_simp
  then show ?thesis using process_load_roundtrip[of "[[Compute 3, Io], [Compute 2]]"] by simp
qed

end
