(* ===== verification/Page_Tables.thy ===== *)
theory Page_Tables
  imports Machines
begin

text \<open>
  The two-level page tables of \<^verbatim>\<open>ostep/homework/vm-smalltables/paging-multilevel-translate.py\<close>: physical memory of 128 pages of 32 bytes
  that holds page directories, pages of page tables and data, all found at random; the entries are bytes whose
  high bit says that they are valid. A random number is its numerator over \<open>2^53\<close>, as in the other theories; the
  state carries the numbers still to be drawn.
\<close>

unbundle bit_operations_syntax

section \<open>Model\<close>

record os =
  usedPages :: "int list"
  usedPagesCount :: int
  memory :: "int list"
  pdbr :: "int \<rightharpoonup> int"
  rnd :: "int list"

definition pageSize :: int where "pageSize = 32"
definition physPages :: int where "physPages = 128"
definition physMem :: int where "physMem = pageSize * physPages"
definition vaPages :: int where "vaPages = 1024"
definition pageBits :: nat where "pageBits = 5"
definition maxPageCount :: int where "maxPageCount = physMem div pageSize"
definition PDE_MASK :: int where "PDE_MASK = 0x7c00"
definition PDE_SHIFT :: nat where "PDE_SHIFT = 10"
definition PTE_MASK :: int where "PTE_MASK = 0x03e0"
definition PTE_SHIFT :: nat where "PTE_SHIFT = 5"
definition OFFSET_MASK :: int where "OFFSET_MASK = 0x1f"

definition os_init :: "int list \<Rightarrow> os" where
  "os_init rs = \<lparr>usedPages = replicate (nat maxPageCount) 0, usedPagesCount = 0, memory = replicate (nat physMem) 0, pdbr = Map.empty, rnd = rs\<rparr>"

text \<open>Numbers are drawn until one is a page that is not in use.\<close>

fun draw_free :: "int list \<Rightarrow> int list \<Rightarrow> (int \<times> int list) res" where
  "draw_free used [] = Inl NoReturn"
| "draw_free used (k # ks) =
     bnd (list_get used (scaled k maxPageCount)) (\<lambda>u. if u = 1 then draw_free used ks else Inr (scaled k maxPageCount, ks))"

definition findFree :: "os \<Rightarrow> (int \<times> os) res" where
  "findFree s =
     asserting (usedPagesCount s < maxPageCount)
      (bnd (draw_free (usedPages s) (rnd s)) (\<lambda>(look, rs).
       bnd (list_put (usedPages s) look 1) (\<lambda>used.
         Inr (look, s\<lparr>usedPages := used, usedPagesCount := usedPagesCount s + 1, rnd := rs\<rparr>))))"

definition poke :: "os \<Rightarrow> int \<Rightarrow> int \<Rightarrow> os res" where
  "poke s a v = bnd (list_put (memory s) a v) (\<lambda>m. Inr (s\<lparr>memory := m\<rparr>))"

definition initPageDir :: "os \<Rightarrow> int \<Rightarrow> os res" where
  "initPageDir s whichPage =
     (let whichByte = push_bit pageBits whichPage
      in foldres (\<lambda>s i. poke s i 0x7f) s [whichByte .. whichByte + pageSize - 1])"

definition initPageTablePage :: "os \<Rightarrow> int \<Rightarrow> os res" where
  "initPageTablePage s whichPage = initPageDir s whichPage"

definition getPageTableEntry :: "os \<Rightarrow> int \<Rightarrow> int \<Rightarrow> (int \<times> int \<times> int) res" where
  "getPageTableEntry s virtualAddr ptePage =
     (let pteBits = drop_bit PTE_SHIFT (virtualAddr AND PTE_MASK);
          pteAddr = push_bit pageBits ptePage OR pteBits
      in bnd (list_get (memory s) pteAddr) (\<lambda>pte. Inr (drop_bit 7 (pte AND 0x80), pte AND 0x7f, pteAddr)))"

definition getPageDirEntry :: "os \<Rightarrow> int \<Rightarrow> int \<Rightarrow> (int \<times> int \<times> int) res" where
  "getPageDirEntry s pid virtualAddr =
     bnd (dict_get (pdbr s) pid) (\<lambda>pageDir.
       let pdeBits = drop_bit PDE_SHIFT (virtualAddr AND PDE_MASK);
           pdeAddr = push_bit pageBits pageDir OR pdeBits
       in bnd (list_get (memory s) pdeAddr) (\<lambda>pde. Inr (drop_bit 7 (pde AND 0x80), pde AND 0x7f, pdeAddr)))"

definition setPageTableEntry :: "os \<Rightarrow> int \<Rightarrow> int \<Rightarrow> os res" where
  "setPageTableEntry s pteAddr physicalPage = poke s pteAddr (0x80 OR physicalPage)"

definition setPageDirEntry :: "os \<Rightarrow> int \<Rightarrow> int \<Rightarrow> os res" where
  "setPageDirEntry s pdeAddr physicalPage = poke s pdeAddr (0x80 OR physicalPage)"

definition allocVirtualPage :: "os \<Rightarrow> int \<Rightarrow> int \<Rightarrow> int \<Rightarrow> os res" where
  "allocVirtualPage s pid virtualPage physicalPage =
     (let virtualAddr = push_bit pageBits virtualPage
      in bnd (getPageDirEntry s pid virtualAddr) (\<lambda>(valid, ptPtr, pdeAddr).
         bnd (if valid = 0
              then asserting (ptPtr = 127)
                    (bnd (findFree s) (\<lambda>(ptePage, s).
                     bnd (setPageDirEntry s pdeAddr ptePage) (\<lambda>s.
                     bnd (initPageTablePage s ptePage) (\<lambda>s. Inr (ptePage, s)))))
              else Inr (ptPtr, s)) (\<lambda>(ptePage, s).
         bnd (getPageTableEntry s virtualAddr ptePage) (\<lambda>(valid, pfn, pteAddr).
           asserting (valid = 0) (asserting (pfn = 127) (setPageTableEntry s pteAddr physicalPage))))))"

definition translate :: "os \<Rightarrow> int \<Rightarrow> int \<Rightarrow> int res" where
  "translate s pid virtualAddr =
     bnd (getPageDirEntry s pid virtualAddr) (\<lambda>(valid, ptPtr, pdeAddr).
       if valid = 1
       then bnd (getPageTableEntry s virtualAddr ptPtr) (\<lambda>(valid, pfn, pteAddr).
              if valid = 1 then Inr (push_bit pageBits pfn OR (virtualAddr AND OFFSET_MASK)) else Inr (-2))
       else Inr (-1))"

text \<open>The next number of the state.\<close>

definition draw :: "os \<Rightarrow> (int \<times> os) res" where
  "draw s = (case rnd s of [] \<Rightarrow> Inl NoReturn | k # ks \<Rightarrow> Inr (k, s\<lparr>rnd := ks\<rparr>))"

definition fillPage :: "os \<Rightarrow> int \<Rightarrow> os res" where
  "fillPage s whichPage =
     foldres (\<lambda>s j. bnd (draw s) (\<lambda>(k, s). poke s (whichPage * pageSize + j) (scaled k 31))) s [0 .. pageSize - 1]"

fun draw_vp :: "(int \<rightharpoonup> int) \<Rightarrow> int list \<Rightarrow> (int \<times> int list) res" where
  "draw_vp used [] = Inl NoReturn"
| "draw_vp used (k # ks) =
     bnd (dict_get used (scaled k vaPages)) (\<lambda>u. if u = 1 then draw_vp used ks else Inr (scaled k vaPages, ks))"

text \<open>One round of the allocation: the pages allocated so far, and the dictionary of the ones in use.\<close>

definition alloc_one :: "int \<Rightarrow> (int \<rightharpoonup> int) \<times> int list \<times> os \<Rightarrow> ((int \<rightharpoonup> int) \<times> int list \<times> os) res" where
  "alloc_one pid = (\<lambda>(used, allocatedVPs, s).
     bnd (draw_vp used (rnd s)) (\<lambda>(vp, rs).
     bnd (dict_get used vp) (\<lambda>u. asserting (u = 0)
      (bnd (findFree (s\<lparr>rnd := rs\<rparr>)) (\<lambda>(pp, s).
       bnd (allocVirtualPage s pid vp pp) (\<lambda>s.
       bnd (fillPage s pp) (\<lambda>s. Inr (used(vp \<mapsto> 1), allocatedVPs @ [vp], s))))))))"

definition procAlloc :: "os \<Rightarrow> int \<Rightarrow> nat \<Rightarrow> (int list \<times> os) res" where
  "procAlloc s pid numPages =
     bnd (findFree s) (\<lambda>(pageDir, s).
     bnd (initPageDir (s\<lparr>pdbr := (pdbr s)(pid \<mapsto> pageDir)\<rparr>) pageDir) (\<lambda>s.
     bnd (foldres (\<lambda>u _. alloc_one pid u) (\<lambda>vp. if 0 \<le> vp \<and> vp < vaPages then Some 0 else None, [], s) [0..<numPages]) (\<lambda>(_, vps, s).
       Inr (vps, s))))"

lemmas page_consts = pageSize_def physPages_def physMem_def vaPages_def pageBits_def maxPageCount_def PDE_MASK_def PDE_SHIFT_def PTE_MASK_def
  PTE_SHIFT_def OFFSET_MASK_def

section \<open>Bit fields\<close>

lemma mask_consts: "(0x7c00::int) = push_bit 10 (mask 5)" "(0x03e0::int) = push_bit 5 (mask 5)" "(0x1f::int) = mask 5" "(0x80::int) = push_bit 7 (mask 1)"
  "(0x7f::int) = mask 7"
  by (simp_all add: push_bit_eq_mult mask_eq_exp_minus_1)

lemma pde_bits: "drop_bit PDE_SHIFT (a AND PDE_MASK) = a div 1024 mod 32"
  using field_bits[of 10 a 5, folded mask_consts(1)] by (simp add: PDE_SHIFT_def PDE_MASK_def)

lemma pte_bits: "drop_bit PTE_SHIFT (a AND PTE_MASK) = a div 32 mod 32"
  using field_bits[of 5 a 5, folded mask_consts(2)] by (simp add: PTE_SHIFT_def PTE_MASK_def)

lemma offset_bits: "a AND OFFSET_MASK = a mod 32"
  unfolding OFFSET_MASK_def mask_consts(3) by (simp add: take_bit_eq_mask[symmetric] take_bit_eq_mod)

text \<open>An entry is invalid with all other bits set, or valid with a page number.\<close>

definition entry :: "int option \<Rightarrow> int" where
  "entry e = (case e of None \<Rightarrow> 127 | Some p \<Rightarrow> 128 + p)"

lemma entry_valid:
  assumes "\<And>p. e = Some p \<Longrightarrow> 0 \<le> p \<and> p < 128"
  shows "drop_bit 7 (entry e AND 0x80) = (if e = None then 0 else 1)" "entry e AND 0x7f = (case e of None \<Rightarrow> 127 | Some p \<Rightarrow> p)"
proof -
  have "drop_bit 7 (entry e AND 0x80) = entry e div 128 mod 2" using field_bits[of 7 "entry e" 1, folded mask_consts(4)] by simp
  moreover have "entry e AND 0x7f = entry e mod 128"
    unfolding mask_consts(5) by (simp add: take_bit_eq_mask[symmetric] take_bit_eq_mod)
  moreover have "(128 + p) div 128 = 1 \<and> (128 + p) mod 128 = p" if "0 \<le> p" "p < 128" for p :: int using that by simp
  ultimately show "drop_bit 7 (entry e AND 0x80) = (if e = None then 0 else 1)" "entry e AND 0x7f = (case e of None \<Rightarrow> 127 | Some p \<Rightarrow> p)"
    using assms by (auto simp: entry_def split: option.splits)
qed

lemma entry_make: "0 \<le> p \<Longrightarrow> p < 128 \<Longrightarrow> 0x80 OR p = entry (Some p)"
  using or_field[of p 7 1] by (simp add: push_bit_eq_mult entry_def)

section \<open>Memory\<close>

definition byte :: "os \<Rightarrow> int \<Rightarrow> int" where
  "byte s a = memory s ! nat a"

text \<open>Page \<open>p\<close>, byte \<open>j\<close> of it.\<close>

lemma page_addr:
  fixes p j :: int
  assumes "0 \<le> j" "j < 32"
  shows "(p * 32 + j) div 32 = p"
  using assms by simp

lemma poke_ok:
  assumes "0 \<le> a" "a < 4096" "length (memory s) = 4096"
  shows "\<exists>m. poke s a v = Inr (s\<lparr>memory := m\<rparr>) \<and> length m = 4096 \<and> (\<forall>b \<ge> 0. m ! nat b = (if b = a then v else byte s b))"
  using assms by (intro exI[of _ "(memory s)[nat a := v]"]) (auto simp: poke_def byte_def nth_list_update)

lemma pokes_ok:
  assumes "\<forall>a \<in> set as. 0 \<le> a \<and> a < 4096" "length (memory s) = 4096"
  shows "\<exists>m. foldres (\<lambda>s a. poke s a v) s as = Inr (s\<lparr>memory := m\<rparr>) \<and> length m = 4096 \<and>
    (\<forall>b \<ge> 0. m ! nat b = (if b \<in> set as then v else byte s b))"
  using assms
proof (induction as arbitrary: s)
  case Nil
  then show ?case by (intro exI[of _ "memory s"]) (simp add: byte_def)
next
  case (Cons a as)
  obtain m where m: "poke s a v = Inr (s\<lparr>memory := m\<rparr>)" "length m = 4096" "\<forall>b \<ge> 0. m ! nat b = (if b = a then v else byte s b)"
    using poke_ok[of a s v] Cons.prems by auto
  obtain m' where m': "foldres (\<lambda>s a. poke s a v) (s\<lparr>memory := m\<rparr>) as = Inr (s\<lparr>memory := m'\<rparr>)" "length m' = 4096"
    "\<forall>b \<ge> 0. m' ! nat b = (if b \<in> set as then v else byte (s\<lparr>memory := m\<rparr>) b)"
    using Cons.IH[of "s\<lparr>memory := m\<rparr>"] Cons.prems m(2) by auto
  show ?case using m(1) m' m(3) by (intro exI[of _ m']) (auto simp: byte_def)
qed

lemma initPageDir_ok:
  assumes p: "0 \<le> p" "p < 128" and len: "length (memory s) = 4096"
  shows "\<exists>m. initPageDir s p = Inr (s\<lparr>memory := m\<rparr>) \<and> length m = 4096 \<and> (\<forall>b \<ge> 0. m ! nat b = (if b div 32 = p then 127 else byte s b))"
proof -
  have eq: "b \<in> set [p * 32 .. p * 32 + 31] \<longleftrightarrow> b div 32 = p" for b by auto
  have "\<forall>a \<in> set [p * 32 .. p * 32 + 31]. 0 \<le> a \<and> a < 4096" using p by auto
  from pokes_ok[OF this len, of 127] show ?thesis unfolding eq
    by (simp add: initPageDir_def Let_def page_consts push_bit_eq_mult add.commute)
qed

text \<open>Filling a page touches nothing else.\<close>

lemma fillPage_ok:
  assumes p: "0 \<le> p" "p < 128" and len: "length (memory s) = 4096"
  shows "lucky (\<lambda>s'. \<exists>m rs. s' = s\<lparr>memory := m, rnd := rs\<rparr> \<and> set rs \<subseteq> set (rnd s) \<and> length m = 4096 \<and>
    (\<forall>b \<ge> 0. b div 32 \<noteq> p \<longrightarrow> m ! nat b = byte s b)) (fillPage s p)"
proof -
  let ?P = "\<lambda>s0 s'. \<exists>m rs. s' = s0\<lparr>memory := m, rnd := rs\<rparr> \<and> set rs \<subseteq> set (rnd s0) \<and> length m = 4096 \<and>
    (\<forall>b \<ge> 0. b div 32 \<noteq> p \<longrightarrow> m ! nat b = byte s0 b)"
  let ?f = "\<lambda>s j. bnd (draw s) (\<lambda>(k, s). poke s (p * pageSize + j) (scaled k 31))"
  have step: "lucky (?P s) (?f s j)" if j: "0 \<le> j" "j < 32" and l: "length (memory s) = 4096" for s j
  proof (cases "rnd s")
    case (Cons k ks)
    obtain m where m: "poke (s\<lparr>rnd := ks\<rparr>) (p * 32 + j) (scaled k 31) = Inr (s\<lparr>rnd := ks, memory := m\<rparr>)" "length m = 4096"
      "\<forall>b \<ge> 0. m ! nat b = (if b = p * 32 + j then scaled k 31 else byte (s\<lparr>rnd := ks\<rparr>) b)"
      using poke_ok[of "p * 32 + j" "s\<lparr>rnd := ks\<rparr>" "scaled k 31"] j p l by auto
    have "m ! nat b = byte s b" if "0 \<le> b" "b div 32 \<noteq> p" for b using m(3) that page_addr[OF j, of p] by (auto simp: byte_def)
    then have "?P s (s\<lparr>rnd := ks, memory := m\<rparr>)" by - (rule exI[of _ m], rule exI[of _ ks], use Cons m(2) in auto)
    then show ?thesis using Cons m(1) by (simp add: draw_def pageSize_def)
  qed (simp add: draw_def)
  have "lucky (?P s) (foldres ?f s js)" if "\<forall>j \<in> set js. 0 \<le> j \<and> j < 32" "length (memory s) = 4096" for js s
    using that
  proof (induction js arbitrary: s)
    case Nil
    have "?P s s" by (rule exI[of _ "memory s"], rule exI[of _ "rnd s"]) (use Nil in \<open>simp add: byte_def\<close>)
    then show ?case by simp
  next
    case (Cons j js)
    have "lucky (?P s) (?f s j)" using step[of j s] Cons.prems by simp
    then show ?case
      unfolding foldres.simps
    proof (rule lucky_bnd)
      fix t assume t: "?P s t"
      then have "length (memory t) = 4096" by auto
      then have "lucky (?P t) (foldres ?f t js)" using Cons.IH[of t] Cons.prems by simp
      then show "lucky (?P s) (foldres ?f t js)"
        by (rule lucky_mono) (use t in \<open>force simp: byte_def\<close>)
    qed
  qed
  then show ?thesis using len by (simp add: fillPage_def pageSize_def)
qed

section \<open>Page tables in memory\<close>

definition in_use :: "os \<Rightarrow> int \<Rightarrow> bool" where
  "in_use s p \<longleftrightarrow> 0 \<le> p \<and> p < 128 \<and> usedPages s ! nat p = 1"

text \<open>The pages the tables take: the directory, the pages of the page table, the data pages, and pages set aside.\<close>

definition owned :: "int \<Rightarrow> (int \<rightharpoonup> int) \<Rightarrow> (int \<rightharpoonup> int) \<Rightarrow> int set \<Rightarrow> bool" where
  "owned pd D M X \<longleftrightarrow> pd \<notin> ran D \<union> ran M \<union> X \<and> ran D \<inter> ran M = {} \<and> (ran D \<union> ran M) \<inter> X = {} \<and> inj_on D (dom D) \<and> inj_on M (dom M)"

text \<open>Page \<open>pd\<close> holds the directory \<open>D\<close> and its pages the table \<open>M\<close>.\<close>

definition holds :: "os \<Rightarrow> int \<Rightarrow> (int \<rightharpoonup> int) \<Rightarrow> (int \<rightharpoonup> int) \<Rightarrow> bool" where
  "holds s pd D M \<longleftrightarrow> (\<forall>i. 0 \<le> i \<longrightarrow> i < 32 \<longrightarrow> byte s (pd * 32 + i) = entry (D i)) \<and>
     (\<forall>i p j. D i = Some p \<longrightarrow> 0 \<le> j \<longrightarrow> j < 32 \<longrightarrow> byte s (p * 32 + j) = entry (M (i * 32 + j)))"

definition tables :: "os \<Rightarrow> int \<Rightarrow> (int \<rightharpoonup> int) \<Rightarrow> (int \<rightharpoonup> int) \<Rightarrow> int set \<Rightarrow> bool" where
  "tables s pd D M X \<longleftrightarrow>
     length (memory s) = 4096 \<and> length (usedPages s) = 128 \<and> (\<forall>k \<in> set (rnd s). drawn k) \<and>
     (\<forall>p \<in> {pd} \<union> ran D \<union> ran M \<union> X. in_use s p) \<and> owned pd D M X \<and> finite X \<and>
     dom D \<subseteq> {0..<32} \<and> (\<forall>v \<in> dom M. 0 \<le> v \<and> v < 1024 \<and> v div 32 \<in> dom D) \<and>
     usedPagesCount s = 1 + int (card (dom D) + card (dom M) + card X) \<and> holds s pd D M"

lemma tablesD:
  assumes "tables s pd D M X"
  shows "length (memory s) = 4096" "length (usedPages s) = 128" "\<And>k. k \<in> set (rnd s) \<Longrightarrow> drawn k"
    "\<And>p. p \<in> {pd} \<union> ran D \<union> ran M \<union> X \<Longrightarrow> in_use s p" "owned pd D M X" "finite X" "dom D \<subseteq> {0..<32}"
    "\<And>v. v \<in> dom M \<Longrightarrow> 0 \<le> v \<and> v < 1024 \<and> v div 32 \<in> dom D" "usedPagesCount s = 1 + int (card (dom D) + card (dom M) + card X)"
    "holds s pd D M"
  using assms unfolding tables_def by blast+

lemma tables_finite: "tables s pd D M X \<Longrightarrow> finite (dom D) \<and> finite (dom M)"
proof -
  assume t: "tables s pd D M X"
  have "dom M \<subseteq> {0..<1024}" using tablesD(8)[OF t] by fastforce
  then show ?thesis using tablesD(7)[OF t] finite_subset by blast
qed

text \<open>A free page is set aside.\<close>

lemma draw_free_ok:
  assumes "length used = 128" "\<forall>k \<in> set ks. drawn k"
  shows "lucky (\<lambda>(p, rs). 0 \<le> p \<and> p < 128 \<and> used ! nat p \<noteq> 1 \<and> set rs \<subseteq> set ks) (draw_free used ks)"
  using assms(2)
proof (induction ks)
  case (Cons k ks)
  have p: "0 \<le> scaled k maxPageCount" "scaled k maxPageCount < 128" using scaled_range[of k maxPageCount] Cons.prems by (simp_all add: page_consts)
  have "lucky (\<lambda>(p, rs). 0 \<le> p \<and> p < 128 \<and> used ! nat p \<noteq> 1 \<and> set rs \<subseteq> set (k # ks)) (draw_free used ks)"
    by (rule lucky_mono[OF Cons.IH]) (use Cons.prems in auto)
  then show ?case using p assms(1) by auto
qed simp

lemma findFree_ok:
  assumes t: "tables s pd D M X" and room: "usedPagesCount s < 128"
  shows "lucky (\<lambda>(p, s'). 0 \<le> p \<and> p < 128 \<and> p \<notin> {pd} \<union> ran D \<union> ran M \<union> X \<and> tables s' pd D M (insert p X) \<and> pdbr s' = pdbr s) (findFree s)"
proof -
  note T = tablesD[OF t]
  have room': "usedPagesCount s < maxPageCount" using room by (simp add: page_consts)
  have "lucky (\<lambda>(p, rs). 0 \<le> p \<and> p < 128 \<and> usedPages s ! nat p \<noteq> 1 \<and> set rs \<subseteq> set (rnd s)) (draw_free (usedPages s) (rnd s))"
    using draw_free_ok[OF T(2)] T(3) by blast
  then show ?thesis
    unfolding findFree_def asserting_def if_P[OF room']
  proof (rule lucky_bnd)
    fix x assume x: "case x of (p, rs) \<Rightarrow> 0 \<le> p \<and> p < 128 \<and> usedPages s ! nat p \<noteq> 1 \<and> set rs \<subseteq> set (rnd s)"
    obtain p rs where pr: "x = (p, rs)" by (cases x)
    then have p: "0 \<le> p" "p < 128" "usedPages s ! nat p \<noteq> 1" "set rs \<subseteq> set (rnd s)" using x by auto
    define s' where "s' = s\<lparr>usedPages := (usedPages s)[nat p := 1], usedPagesCount := usedPagesCount s + 1, rnd := rs\<rparr>"
    have np: "p \<notin> {pd} \<union> ran D \<union> ran M \<union> X" using T(4)[of p] p(3) by (auto simp: in_use_def)
    have "in_use s' q" if "q \<in> insert p ({pd} \<union> ran D \<union> ran M \<union> X)" for q
      using that T(4)[of q] p(1,2) T(2) by (auto simp: in_use_def s'_def nth_list_update)
    moreover have "owned pd D M (insert p X)" using T(5) np by (auto simp: owned_def)
    moreover have "holds s' pd D M" using T(10) by (simp add: holds_def byte_def s'_def)
    moreover have "p \<notin> X" using np by simp
    ultimately have "tables s' pd D M (insert p X)" using T(1-3,6-9) p(4) unfolding tables_def by (auto simp: s'_def)
    then show "lucky (\<lambda>(p, s'). 0 \<le> p \<and> p < 128 \<and> p \<notin> {pd} \<union> ran D \<union> ran M \<union> X \<and> tables s' pd D M (insert p X) \<and> pdbr s' = pdbr s)
      ((\<lambda>(look, rs). bnd (list_put (usedPages s) look 1) (\<lambda>used.
         Inr (look, s\<lparr>usedPages := used, usedPagesCount := usedPagesCount s + 1, rnd := rs\<rparr>))) x)"
      using pr p np T(2) by (simp add: s'_def)
  qed
qed

text \<open>Where the room is not known to be enough, a failed assertion of the allocator is one more way to stop.\<close>

definition lucky_room :: "bool \<Rightarrow> ('a \<Rightarrow> bool) \<Rightarrow> 'a res \<Rightarrow> bool" where
  "lucky_room r P m \<longleftrightarrow> lucky P m \<or> \<not> r \<and> m = Inl AssertionError"

lemma lucky_room_simps [simp]: "lucky_room r P (Inr x) \<longleftrightarrow> P x" "lucky_room True P m \<longleftrightarrow> lucky P m"
  by (simp_all add: lucky_room_def)

lemma lucky_room_bnd: "lucky_room r P m \<Longrightarrow> (\<And>x. P x \<Longrightarrow> lucky_room r Q (f x)) \<Longrightarrow> lucky_room r Q (bnd m f)"
  by (cases m) (auto simp: lucky_room_def)

lemma lucky_room_lift: "lucky P m \<Longrightarrow> lucky_room r P m"
  by (simp add: lucky_room_def)

lemma findFree_room:
  assumes t: "tables s pd D M X" and room: "r \<Longrightarrow> usedPagesCount s < 128"
  shows "lucky_room r (\<lambda>(p, s'). 0 \<le> p \<and> p < 128 \<and> p \<notin> {pd} \<union> ran D \<union> ran M \<union> X \<and> tables s' pd D M (insert p X) \<and> pdbr s' = pdbr s) (findFree s)"
proof (cases "usedPagesCount s < 128")
  case True
  then show ?thesis using lucky_room_lift[OF findFree_ok[OF t]] by blast
next
  case False
  then show ?thesis using room by (auto simp: lucky_room_def findFree_def page_consts asserting_def)
qed

lemma in_useD: "in_use s p \<Longrightarrow> 0 \<le> p \<and> p < 128"
  by (simp add: in_use_def)

lemma dir_read:
  assumes t: "tables s pd D M X" and pid: "pdbr s pid = Some pd" and i: "i = va div 1024 mod 32"
  shows "getPageDirEntry s pid va = Inr (if D i = None then 0 else 1, case D i of None \<Rightarrow> 127 | Some p \<Rightarrow> p, pd * 32 + i)"
proof -
  note T = tablesD[OF t]
  have i': "0 \<le> i" "i < 32" using i by simp_all
  have pd: "0 \<le> pd" "pd < 128" using T(4)[of pd] by (simp_all add: in_use_def)
  have r: "0 \<le> p \<and> p < 128" if "D i = Some p" for p using T(4)[of p] that by (auto simp: in_use_def ran_def)
  have a: "push_bit pageBits pd OR drop_bit PDE_SHIFT (va AND PDE_MASK) = pd * 32 + i"
    using or_field[of i 5 pd] i' unfolding pde_bits i[symmetric] by (simp add: pageBits_def)
  have g: "list_get (memory s) (pd * 32 + i) = Inr (entry (D i))"
    using T(1,10) i' pd by (simp add: holds_def byte_def)
  show ?thesis unfolding getPageDirEntry_def dict_get_Some[of "pdbr s", OF pid] bnd_simps Let_def a g
    by (simp only: bnd_simps entry_valid[of "D i", OF r])
qed

lemma table_read:
  assumes t: "tables s pd D M X" and i: "D i = Some p" and j: "j = va div 32 mod 32"
  shows "getPageTableEntry s va p = Inr (if M (i * 32 + j) = None then 0 else 1, case M (i * 32 + j) of None \<Rightarrow> 127 | Some f \<Rightarrow> f, p * 32 + j)"
proof -
  note T = tablesD[OF t]
  have j': "0 \<le> j" "j < 32" using j by simp_all
  have p: "0 \<le> p" "p < 128" using T(4)[of p] i by (auto simp: in_use_def ran_def)
  have r: "0 \<le> f \<and> f < 128" if "M (i * 32 + j) = Some f" for f using T(4)[of f] that by (auto simp: in_use_def ran_def)
  have a: "push_bit pageBits p OR drop_bit PTE_SHIFT (va AND PTE_MASK) = p * 32 + j"
    using or_field[of j 5 p] j' unfolding pte_bits j[symmetric] by (simp add: pageBits_def)
  have g: "list_get (memory s) (p * 32 + j) = Inr (entry (M (i * 32 + j)))"
    using T(1,10) i j' p by (simp add: holds_def byte_def)
  show ?thesis unfolding getPageTableEntry_def Let_def a g by (simp only: bnd_simps entry_valid[of "M (i * 32 + j)", OF r])
qed

text \<open>A page set aside becomes a page of the page table.\<close>

lemma new_table:
  assumes t: "tables s pd D M (insert q X)" and q: "q \<notin> X" and i: "0 \<le> i" "i < 32" "D i = None"
  shows "\<exists>s'. bnd (setPageDirEntry s (pd * 32 + i) q) (\<lambda>s. initPageTablePage s q) = Inr s' \<and> tables s' pd (D(i \<mapsto> q)) M X \<and> pdbr s' = pdbr s \<and> rnd s' = rnd s"
proof -
  note T = tablesD[OF t]
  have pd: "0 \<le> pd" "pd < 128" using T(4)[of pd] by (simp_all add: in_use_def)
  have q': "0 \<le> q" "q < 128" "q \<noteq> pd" "q \<notin> ran D" "q \<notin> ran M" using T(4)[of q] T(5) by (auto simp: in_use_def owned_def)
  obtain m where m: "poke s (pd * 32 + i) (128 OR q) = Inr (s\<lparr>memory := m\<rparr>)" "length m = 4096"
    "\<forall>b \<ge> 0. m ! nat b = (if b = pd * 32 + i then 128 OR q else byte s b)" using poke_ok[of "pd * 32 + i" s "128 OR q"] pd i T(1) by auto
  obtain m' where m': "initPageDir (s\<lparr>memory := m\<rparr>) q = Inr (s\<lparr>memory := m'\<rparr>)" "length m' = 4096"
    "\<forall>b \<ge> 0. m' ! nat b = (if b div 32 = q then 127 else byte (s\<lparr>memory := m\<rparr>) b)" using initPageDir_ok[OF q'(1,2), of "s\<lparr>memory := m\<rparr>"] m(2) by auto
  define s' where "s' = s\<lparr>memory := m'\<rparr>"
  have bt: "byte s' b = (if b div 32 = q then 127 else if b = pd * 32 + i then entry (Some q) else byte s b)" if "0 \<le> b" for b
    using m(3) m'(3) that entry_make[OF q'(1,2)] by (simp add: s'_def byte_def)
  have Mi: "M (i * 32 + j) = None" if "0 \<le> j" "j < 32" for j
  proof (rule ccontr)
    assume "M (i * 32 + j) \<noteq> None"
    then have "(i * 32 + j) div 32 \<in> dom D" using T(8) by blast
    then show False using page_addr[OF that] i(3) by (auto simp: dom_def)
  qed
  have "holds s' pd (D(i \<mapsto> q)) M"
    unfolding holds_def
  proof (intro conjI allI impI)
    fix k :: int assume k: "0 \<le> k" "k < 32"
    then show "byte s' (pd * 32 + k) = entry ((D(i \<mapsto> q)) k)" using bt[of "pd * 32 + k"] page_addr[OF k, of pd] pd q'(3) T(10) by (simp add: holds_def)
  next
    fix k p j assume k: "(D(i \<mapsto> q)) k = Some p" "0 \<le> j" "j < (32::int)"
    show "byte s' (p * 32 + j) = entry (M (k * 32 + j))"
    proof (cases "k = i")
      case True
      then show ?thesis using bt[of "p * 32 + j"] k page_addr[OF k(2,3), of p] q' Mi by (simp add: entry_def)
    next
      case False
      then have D: "D k = Some p" using k(1) by simp
      then have p: "p \<in> ran D" "0 \<le> p" using T(4)[of p] by (auto simp: ran_def in_use_def)
      then have "p \<noteq> q" "p \<noteq> pd" using q' T(5) by (auto simp: owned_def)
      then have "p * 32 + j \<noteq> pd * 32 + i" using page_addr[OF k(2,3), of p] page_addr[OF i(1,2), of pd] by auto
      then show ?thesis using bt[of "p * 32 + j"] p(2) k(2,3) \<open>p \<noteq> q\<close> page_addr[OF k(2,3), of p] T(10) D by (simp add: holds_def)
    qed
  qed
  moreover have "owned pd (D(i \<mapsto> q)) M X" using T(5) i(3) q q' by (auto simp: owned_def inj_on_def ran_def dom_def)
  moreover have "\<forall>p \<in> {pd} \<union> ran (D(i \<mapsto> q)) \<union> ran M \<union> X. in_use s' p" using T(4) i(3) by (auto simp: in_use_def s'_def ran_def)
  moreover have "card (dom (D(i \<mapsto> q))) + card X = card (dom D) + card (insert q X)"
    using i(3) q tables_finite[OF t] T(6) by (simp add: card_insert_if domIff)
  ultimately have "tables s' pd (D(i \<mapsto> q)) M X" using T(1-3,6-9) i m'(2) unfolding tables_def by (auto simp: s'_def)
  then show ?thesis using m(1) m'(1) by (simp add: setPageDirEntry_def initPageTablePage_def s'_def)
qed

text \<open>A page set aside becomes the page of a virtual page.\<close>

lemma new_page:
  assumes t: "tables s pd D M (insert f X)" and f: "f \<notin> X" and v: "0 \<le> v" "v < 1024" "M v = None" "D (v div 32) = Some p"
  shows "\<exists>s'. setPageTableEntry s (p * 32 + v mod 32) f = Inr s' \<and> tables s' pd D (M(v \<mapsto> f)) X \<and> pdbr s' = pdbr s \<and> rnd s' = rnd s"
proof -
  note T = tablesD[OF t]
  let ?j = "v mod 32" and ?i = "v div 32"
  have j: "0 \<le> ?j" "?j < 32" by simp_all
  have p: "p \<in> ran D" "0 \<le> p" "p < 128" "p \<noteq> pd" using T(4)[of p] T(5) v(4) by (auto simp: in_use_def owned_def ran_def)
  have pd: "0 \<le> pd" using T(4)[of pd] by (simp add: in_use_def)
  have f': "0 \<le> f" "f < 128" "f \<noteq> pd" "f \<notin> ran D" "f \<notin> ran M" using T(4)[of f] T(5) by (auto simp: in_use_def owned_def)
  obtain m where m: "poke s (p * 32 + ?j) (128 OR f) = Inr (s\<lparr>memory := m\<rparr>)" "length m = 4096"
    "\<forall>b \<ge> 0. m ! nat b = (if b = p * 32 + ?j then 128 OR f else byte s b)" using poke_ok[of "p * 32 + ?j" s "128 OR f"] p j T(1) by auto
  define s' where "s' = s\<lparr>memory := m\<rparr>"
  have bt: "byte s' b = (if b = p * 32 + ?j then entry (Some f) else byte s b)" if "0 \<le> b" for b
    using m(3) that entry_make[OF f'(1,2)] by (simp add: s'_def byte_def)
  have "holds s' pd D (M(v \<mapsto> f))"
    unfolding holds_def
  proof (intro conjI allI impI)
    fix k :: int assume k: "0 \<le> k" "k < 32"
    have "pd * 32 + k \<noteq> p * 32 + ?j" using page_addr[OF k, of pd] page_addr[OF j, of p] p(4) by auto
    then show "byte s' (pd * 32 + k) = entry (D k)" using bt[of "pd * 32 + k"] pd k T(10) by (simp add: holds_def)
  next
    fix k r l assume k: "D k = Some r" "0 \<le> l" "l < (32::int)"
    have r: "0 \<le> r" using T(4)[of r] k(1) by (auto simp: in_use_def ran_def)
    have old: "byte s (r * 32 + l) = entry (M (k * 32 + l))" using T(10) k by (simp add: holds_def)
    have "r * 32 + l = p * 32 + ?j \<longleftrightarrow> k * 32 + l = v"
    proof
      assume eq: "r * 32 + l = p * 32 + ?j"
      then have "r = p" using page_addr[OF k(2,3), of r] page_addr[OF j, of p] by simp
      moreover have "k = ?i" using T(5) k(1) v(4) \<open>r = p\<close> by (auto simp: owned_def inj_on_def dom_def)
      ultimately show "k * 32 + l = v" using eq by simp
    next
      assume eq: "k * 32 + l = v"
      then have "k = ?i" using page_addr[OF k(2,3), of k] by simp
      moreover have "l = ?j" using eq \<open>k = ?i\<close> div_mult_mod_eq[of v 32] by linarith
      ultimately show "r * 32 + l = p * 32 + ?j" using k(1) v(4) by simp
    qed
    then show "byte s' (r * 32 + l) = entry ((M(v \<mapsto> f)) (k * 32 + l))" using bt[of "r * 32 + l"] r k old by simp
  qed
  moreover have "owned pd D (M(v \<mapsto> f)) X" using T(5) v(3) f f' by (auto simp: owned_def inj_on_def ran_def dom_def)
  moreover have "\<forall>q \<in> {pd} \<union> ran D \<union> ran (M(v \<mapsto> f)) \<union> X. in_use s' q" using T(4) v(3) by (auto simp: in_use_def s'_def ran_def)
  moreover have "card (dom (M(v \<mapsto> f))) + card X = card (dom M) + card (insert f X)"
    using v(3) f tables_finite[OF t] T(6) by (simp add: card_insert_if domIff)
  ultimately have "tables s' pd D (M(v \<mapsto> f)) X" using T(1-3,6-9) v m(2) unfolding tables_def by (auto simp: s'_def)
  then show ?thesis using m(1) by (simp add: setPageTableEntry_def s'_def)
qed

section \<open>Allocation\<close>

lemma allocVirtualPage_ok:
  assumes t: "tables s pd D M {f}" and pid: "pdbr s pid = Some pd" and v: "0 \<le> v" "v < 1024" "M v = None"
    and room: "r \<longrightarrow> D (v div 32) = None \<longrightarrow> usedPagesCount s < 128"
  shows "lucky_room r (\<lambda>s'. \<exists>D'. tables s' pd D' (M(v \<mapsto> f)) {} \<and> pdbr s' = pdbr s \<and> dom D' = insert (v div 32) (dom D)) (allocVirtualPage s pid v f)"
proof -
  let ?i = "v div 32" and ?va = "push_bit pageBits v"
  have va: "?va div 1024 mod 32 = ?i" "?va div 32 mod 32 = v mod 32"
  proof -
    have e: "?va = v * 32" by (simp add: pageBits_def push_bit_eq_mult)
    have "v * 32 div 1024 = v div 32" using div_mult_mult2[of 32 v 32] by simp
    then show "?va div 1024 mod 32 = ?i" "?va div 32 mod 32 = v mod 32" unfolding e using v by simp_all
  qed
  have i: "0 \<le> ?i" "?i < 32" using v by simp_all
  define tab where "tab = (if D ?i = None
      then bnd (findFree s) (\<lambda>(ptePage, s). bnd (setPageDirEntry s (pd * 32 + ?i) ptePage) (\<lambda>s.
             bnd (initPageTablePage s ptePage) (\<lambda>s. Inr (ptePage, s))))
      else Inr (the (D ?i), s))"
  have run: "allocVirtualPage s pid v f = bnd tab (\<lambda>(ptePage, s).
      bnd (getPageTableEntry s ?va ptePage) (\<lambda>(valid, pfn, pteAddr).
        asserting (valid = 0) (asserting (pfn = 127) (setPageTableEntry s pteAddr f))))"
    unfolding allocVirtualPage_def Let_def dir_read[OF t pid va(1)[symmetric]] tab_def by (cases "D ?i") simp_all
  have "lucky_room r (\<lambda>(p, s'). \<exists>D'. tables s' pd D' M {f} \<and> pdbr s' = pdbr s \<and> D' ?i = Some p \<and> dom D' = insert ?i (dom D)) tab"
  proof (cases "D ?i")
    case (Some p)
    then have "dom D = insert ?i (dom D)" by auto
    then show ?thesis using t Some by (auto simp: tab_def)
  next
    case None
    then have "r \<Longrightarrow> usedPagesCount s < 128" using room by simp
    from findFree_room[OF t this] show ?thesis
      unfolding tab_def if_P[OF None]
    proof (rule lucky_room_bnd)
      fix x assume x: "case x of (p, s') \<Rightarrow> 0 \<le> p \<and> p < 128 \<and> p \<notin> {pd} \<union> ran D \<union> ran M \<union> {f} \<and> tables s' pd D M (insert p {f}) \<and> pdbr s' = pdbr s"
      obtain q u where q: "x = (q, u)" by (cases x)
      then have u: "tables u pd D M (insert q {f})" "q \<notin> {f}" "pdbr u = pdbr s" using x by auto
      from new_table[OF u(1,2) i None] obtain s' where s': "bnd (setPageDirEntry u (pd * 32 + ?i) q) (\<lambda>s. initPageTablePage s q) = Inr s'"
        "tables s' pd (D(?i \<mapsto> q)) M {f}" "pdbr s' = pdbr u" by blast
      have "bnd (setPageDirEntry u (pd * 32 + ?i) q) (\<lambda>s. bnd (initPageTablePage s q) (\<lambda>s. Inr (q, s))) = Inr (q, s')"
        using arg_cong[OF s'(1), of "\<lambda>m. bnd m (\<lambda>s. Inr (q, s))"] by (simp add: bnd_assoc)
      moreover have "dom (D(?i \<mapsto> q)) = insert ?i (dom D)" "(D(?i \<mapsto> q)) ?i = Some q" by auto
      ultimately show "lucky_room r (\<lambda>(p, s'). \<exists>D'. tables s' pd D' M {f} \<and> pdbr s' = pdbr s \<and> D' ?i = Some p \<and> dom D' = insert ?i (dom D))
        ((\<lambda>(ptePage, s). bnd (setPageDirEntry s (pd * 32 + ?i) ptePage) (\<lambda>s. bnd (initPageTablePage s ptePage) (\<lambda>s. Inr (ptePage, s)))) x)"
        using q s'(2,3) u(3) by (auto intro!: exI[of _ "D(?i \<mapsto> q)"])
    qed
  qed
  then show ?thesis
    unfolding run
  proof (rule lucky_room_bnd)
    fix x assume x: "case x of (p, s') \<Rightarrow> \<exists>D'. tables s' pd D' M {f} \<and> pdbr s' = pdbr s \<and> D' ?i = Some p \<and> dom D' = insert ?i (dom D)"
    obtain p u where p: "x = (p, u)" by (cases x)
    then obtain D' where D': "tables u pd D' M {f}" "pdbr u = pdbr s" "D' ?i = Some p" "dom D' = insert ?i (dom D)" using x by auto
    have "?i * 32 + v mod 32 = v" by simp
    then have "getPageTableEntry u ?va p = Inr (0, 127, p * 32 + v mod 32)" using table_read[OF D'(1,3) va(2)[symmetric]] v(3) by simp
    moreover obtain s' where "setPageTableEntry u (p * 32 + v mod 32) f = Inr s'" "tables s' pd D' (M(v \<mapsto> f)) {}" "pdbr s' = pdbr u"
      using new_page[OF D'(1) _ v D'(3)] by auto
    ultimately show "lucky_room r (\<lambda>s'. \<exists>D'. tables s' pd D' (M(v \<mapsto> f)) {} \<and> pdbr s' = pdbr s \<and> dom D' = insert ?i (dom D))
      ((\<lambda>(ptePage, s). bnd (getPageTableEntry s ?va ptePage) (\<lambda>(valid, pfn, pteAddr).
        asserting (valid = 0) (asserting (pfn = 127) (setPageTableEntry s pteAddr f)))) x)"
      using p D'(2,4) by auto
  qed
qed

lemma draw_vp_ok:
  assumes "\<forall>k \<in> set ks. drawn k" "\<forall>v. 0 \<le> v \<and> v < 1024 \<longrightarrow> used v = Some (if v \<in> A then 1 else 0)"
  shows "lucky (\<lambda>(v, rs). 0 \<le> v \<and> v < 1024 \<and> v \<notin> A \<and> set rs \<subseteq> set ks) (draw_vp used ks)"
  using assms(1)
proof (induction ks)
  case (Cons k ks)
  have p: "0 \<le> scaled k vaPages" "scaled k vaPages < 1024" using scaled_range[of k vaPages] Cons.prems by (simp_all add: page_consts)
  have "lucky (\<lambda>(v, rs). 0 \<le> v \<and> v < 1024 \<and> v \<notin> A \<and> set rs \<subseteq> set (k # ks)) (draw_vp used ks)"
    by (rule lucky_mono[OF Cons.IH]) (use Cons.prems in auto)
  then show ?case using p assms(2) by (auto simp: dict_get_def)
qed simp

text \<open>The state of the allocation loop.\<close>

definition loop_ok :: "int \<Rightarrow> int \<Rightarrow> (int \<rightharpoonup> int) \<times> int list \<times> os \<Rightarrow> bool" where
  "loop_ok pid pd = (\<lambda>(used, vps, s). \<exists>D M. tables s pd D M {} \<and> pdbr s pid = Some pd \<and> dom M = set vps \<and> distinct vps \<and>
     dom D = (\<lambda>v. v div 32) ` set vps \<and> (\<forall>v. 0 \<le> v \<and> v < 1024 \<longrightarrow> used v = Some (if v \<in> set vps then 1 else 0)))"

lemma tables_fill:
  assumes t: "tables s pd D M X" and f: "f \<in> ran M" and m: "length m = 4096" "\<forall>b \<ge> 0. b div 32 \<noteq> f \<longrightarrow> m ! nat b = byte s b" and rs: "set rs \<subseteq> set (rnd s)"
  shows "tables (s\<lparr>memory := m, rnd := rs\<rparr>) pd D M X"
proof -
  note T = tablesD[OF t]
  let ?s = "s\<lparr>memory := m, rnd := rs\<rparr>"
  have same: "byte ?s (q * 32 + j) = byte s (q * 32 + j)" if "q \<in> {pd} \<union> ran D" "0 \<le> j" "j < 32" for q j
  proof -
    have "q \<noteq> f" "0 \<le> q" using that(1) f T(4)[of q] T(5) by (auto simp: owned_def in_use_def)
    then show ?thesis using m(2) page_addr[OF that(2,3), of q] that(2) by (simp add: byte_def)
  qed
  have "holds ?s pd D M"
    unfolding holds_def
  proof (intro conjI allI impI)
    fix i :: int assume "0 \<le> i" "i < 32"
    then show "byte ?s (pd * 32 + i) = entry (D i)" using T(10) same[of pd i] unfolding holds_def by simp
  next
    fix i p j assume *: "D i = Some p" "0 \<le> j" "j < (32::int)"
    then have "p \<in> ran D" by (auto simp: ran_def)
    then show "byte ?s (p * 32 + j) = entry (M (i * 32 + j))" using T(10) same[of p j] * unfolding holds_def by simp
  qed
  then show ?thesis using T m(1) rs unfolding tables_def by (auto simp: in_use_def)
qed

lemma alloc_one_ok:
  assumes ok: "loop_ok pid pd (used, vps, s)" and n: "r \<Longrightarrow> length vps \<le> 94"
  shows "lucky_room r (\<lambda>(used', vps', s'). loop_ok pid pd (used', vps', s') \<and> length vps' = Suc (length vps)) (alloc_one pid (used, vps, s))"
proof -
  obtain D M where t: "tables s pd D M {}" and pid: "pdbr s pid = Some pd" and M: "dom M = set vps" "distinct vps" and D: "dom D = (\<lambda>v. v div 32) ` set vps"
    and used: "\<forall>v. 0 \<le> v \<and> v < 1024 \<longrightarrow> used v = Some (if v \<in> set vps then 1 else 0)" using ok by (auto simp: loop_ok_def)
  note T = tablesD[OF t]
  have cM: "card (dom M) = length vps" using M by (simp add: distinct_card)
  have cD: "card (dom D) \<le> 32" using card_mono[OF _ T(7)] by simp
  have "lucky_room r (\<lambda>(v, rs). 0 \<le> v \<and> v < 1024 \<and> v \<notin> set vps \<and> set rs \<subseteq> set (rnd s)) (draw_vp used (rnd s))"
    by (rule lucky_room_lift[OF draw_vp_ok]) (use T(3) used in auto)
  then show ?thesis
    unfolding alloc_one_def prod.case
  proof (rule lucky_room_bnd, goal_cases)
    case (1 x)
    obtain v rs where x: "x = (v, rs)" by (cases x)
    then have v: "0 \<le> v" "v < 1024" "v \<notin> set vps" "set rs \<subseteq> set (rnd s)" using 1 by auto
    then have u: "dict_get used v = Inr 0" "M v = None" using used M(1) by (auto simp: dict_get_def)
    let ?s = "s\<lparr>rnd := rs\<rparr>"
    have "tables ?s pd D M {}" using t v(4) unfolding tables_def by (auto simp: in_use_def holds_def byte_def)
    moreover have "r \<Longrightarrow> usedPagesCount ?s < 128" using T(9) cM cD n by simp
    ultimately have "lucky_room r (\<lambda>(p, s'). 0 \<le> p \<and> p < 128 \<and> p \<notin> {pd} \<union> ran D \<union> ran M \<union> {} \<and> tables s' pd D M (insert p {}) \<and> pdbr s' = pdbr ?s) (findFree ?s)"
      by (rule findFree_room)
    then show ?case
      unfolding x prod.case u(1) bnd_simps simp_thms asserting_True
    proof (rule lucky_room_bnd, goal_cases)
      case (1 y)
      obtain f u where y: "y = (f, u)" by (cases y)
      then have f: "0 \<le> f" "f < 128" "tables u pd D M {f}" "pdbr u pid = Some pd" using 1 pid by auto
      have room: "r \<longrightarrow> D (v div 32) = None \<longrightarrow> usedPagesCount u < 128"
      proof (intro impI)
        assume that: r "D (v div 32) = None"
        have "dom D \<subseteq> {0..<32} - {v div 32}" using T(7) that(2) by auto
        then have "card (dom D) \<le> card ({0..<32} - {v div 32})" by (intro card_mono) auto
        moreover have "v div 32 \<in> {0..<32}" using v(1,2) by (simp add: zdiv_less_iff pos_imp_zdiv_nonneg_iff)
        then have "card ({0..<32} - {v div 32}) = 31" by simp
        ultimately have "card (dom D) \<le> 31" by simp
        then show "usedPagesCount u < 128" using tablesD(9)[OF f(3)] cM n that(1) by simp
      qed
      from allocVirtualPage_ok[OF f(3,4) v(1,2) u(2) room] show ?case
        unfolding y prod.case
      proof (rule lucky_room_bnd, goal_cases)
        case (1 w)
        then obtain D' where w: "tables w pd D' (M(v \<mapsto> f)) {}" "pdbr w = pdbr u" "dom D' = insert (v div 32) (dom D)" by blast
        from lucky_room_lift[OF fillPage_ok[OF f(1,2) tablesD(1)[OF w(1)]], of r] show ?case
        proof (rule lucky_room_bnd, goal_cases)
          case (1 z)
          then obtain m rs where z: "z = w\<lparr>memory := m, rnd := rs\<rparr>" "set rs \<subseteq> set (rnd w)" "length m = 4096" "\<forall>b \<ge> 0. b div 32 \<noteq> f \<longrightarrow> m ! nat b = byte w b"
            by blast
          have "f \<in> ran (M(v \<mapsto> f))" by (auto simp: ran_def)
          from tables_fill[OF w(1) this z(3,4,2)] have "tables z pd D' (M(v \<mapsto> f)) {}" using z(1) by simp
          then have "loop_ok pid pd (used(v \<mapsto> 1), vps @ [v], z)"
            unfolding loop_ok_def prod.case using z(1) w(2,3) f(4) M D v(3) used by (intro exI[of _ D'] exI[of _ "M(v \<mapsto> f)"]) auto
          then show ?case by simp
        qed
      qed
    qed
  qed
qed

lemma alloc_loop_ok:
  assumes "loop_ok pid pd (used, [], s)" "r \<longrightarrow> n \<le> 95"
  shows "lucky_room r (\<lambda>(used', vps', s'). loop_ok pid pd (used', vps', s') \<and> length vps' = n) (foldres (\<lambda>u _. alloc_one pid u) (used, [], s) [0..<n])"
  using assms(2)
proof (induction n)
  case (Suc n)
  have "lucky_room r (\<lambda>(used', vps', s'). loop_ok pid pd (used', vps', s') \<and> length vps' = n) (foldres (\<lambda>u _. alloc_one pid u) (used, [], s) [0..<n])"
    by (rule Suc.IH) (use Suc.prems in auto)
  then show ?case
    unfolding upt_Suc_append[OF le0] foldres_append
  proof (rule lucky_room_bnd)
    fix x assume x: "case x of (used', vps', s') \<Rightarrow> loop_ok pid pd (used', vps', s') \<and> length vps' = n"
    obtain u v w where "x = (u, v, w)" by (cases x)
    then show "lucky_room r (\<lambda>(used', vps', s'). loop_ok pid pd (used', vps', s') \<and> length vps' = Suc n) (foldres (\<lambda>u _. alloc_one pid u) x [n])"
      using alloc_one_ok[of pid pd u v w] x Suc.prems by (cases "alloc_one pid (u, v, w)") auto
  qed
qed (use assms(1) in simp)

lemma procAlloc_ok:
  assumes "\<forall>k \<in> set rs. drawn k" "r \<longrightarrow> n \<le> 95"
  shows "lucky_room r (\<lambda>(vps, s). \<exists>pd used. loop_ok pid pd (used, vps, s) \<and> length vps = n) (procAlloc (os_init rs) pid n)"
proof -
  let ?s = "os_init rs"
  have l: "length (memory ?s) = 4096" "length (usedPages ?s) = 128" "usedPagesCount ?s < maxPageCount" "rnd ?s = rs"
    by (simp_all add: os_init_def page_consts)
  have "lucky (\<lambda>(p, rs'). 0 \<le> p \<and> p < 128 \<and> usedPages ?s ! nat p \<noteq> 1 \<and> set rs' \<subseteq> set rs) (draw_free (usedPages ?s) rs)"
    by (rule draw_free_ok[OF l(2) assms(1)])
  then have "lucky (\<lambda>(p, s). 0 \<le> p \<and> p < 128 \<and> (\<exists>rs'. set rs' \<subseteq> set rs \<and>
      s = ?s\<lparr>usedPages := (usedPages ?s)[nat p := 1], usedPagesCount := 1, rnd := rs'\<rparr>)) (findFree ?s)"
    unfolding findFree_def asserting_def if_P[OF l(3)] l(4)
  proof (rule lucky_bnd, goal_cases)
    case (1 x)
    then show ?case using l(2) by (cases x) (auto simp: os_init_def)
  qed
  from lucky_room_lift[OF this, of r] show ?thesis
    unfolding procAlloc_def
  proof (rule lucky_room_bnd, goal_cases)
    case (1 x)
    then obtain pd rs' where x: "0 \<le> pd" "pd < 128" "set rs' \<subseteq> set rs"
      "x = (pd, ?s\<lparr>usedPages := (usedPages ?s)[nat pd := 1], usedPagesCount := 1, rnd := rs'\<rparr>)" by (cases x) auto
    define t where "t = ?s\<lparr>usedPages := (usedPages ?s)[nat pd := 1], usedPagesCount := 1, rnd := rs', pdbr := (pdbr ?s)(pid \<mapsto> pd)\<rparr>"
    obtain m where m: "initPageDir t pd = Inr (t\<lparr>memory := m\<rparr>)" "length m = 4096" "\<forall>b \<ge> 0. m ! nat b = (if b div 32 = pd then 127 else byte t b)"
      using initPageDir_ok[OF x(1,2), of t] l(1) by (auto simp: t_def)
    define u where "u = t\<lparr>memory := m\<rparr>"
    have "holds u pd Map.empty Map.empty" unfolding holds_def using m(3) x(1) by (simp add: u_def byte_def entry_def page_addr)
    then have "tables u pd Map.empty Map.empty {}" using x assms(1) l m(2) unfolding tables_def
      by (auto simp: u_def t_def in_use_def owned_def)
    then have "loop_ok pid pd (\<lambda>vp. if 0 \<le> vp \<and> vp < vaPages then Some 0 else None, [], u)"
      unfolding loop_ok_def prod.case by (intro exI[of _ Map.empty]) (auto simp: u_def t_def page_consts)
    note loop = alloc_loop_ok[OF this assms(2)]
    have start: "initPageDir (?s\<lparr>usedPages := (usedPages ?s)[nat pd := 1], usedPagesCount := 1, rnd := rs'\<rparr>
        \<lparr>pdbr := (pdbr (?s\<lparr>usedPages := (usedPages ?s)[nat pd := 1], usedPagesCount := 1, rnd := rs'\<rparr>))(pid \<mapsto> pd)\<rparr>) pd = Inr u"
      using m(1) by (simp add: t_def u_def)
    from loop show ?case
      unfolding x(4) prod.case start bnd_simps
    proof (rule lucky_room_bnd, goal_cases)
      case (1 y)
      obtain a b c where "y = (a, b, c)" by (cases y)
      then show ?case using 1 by auto
    qed
  qed
qed

lemma translate_ok:
  assumes t: "tables s pd D M X" and pid: "pdbr s pid = Some pd"
  shows "translate s pid va = Inr (case M (va div 32 mod 1024) of Some f \<Rightarrow> f * 32 + va mod 32 | None \<Rightarrow> if va div 1024 mod 32 \<in> dom D then -2 else -1)"
proof -
  let ?i = "va div 1024 mod 32" and ?j = "va div 32 mod 32"
  have vpn: "?i * 32 + ?j = va div 32 mod 1024"
    using zmod_zmult2_eq[of 32 "va div 32" 32] by (simp add: zdiv_zmult2_eq[symmetric])
  note T = tablesD[OF t]
  show ?thesis
  proof (cases "D ?i")
    case None
    then have nd: "?i \<notin> dom D" by (simp add: domIff)
    have "va div 32 mod 1024 div 32 = ?i" unfolding vpn[symmetric] by (rule page_addr) simp_all
    then have "va div 32 mod 1024 \<notin> dom M" using T(8) nd by metis
    then have "M (va div 32 mod 1024) = None" by (simp add: domIff)
    with nd show ?thesis using None dir_read[OF t pid refl, of va] unfolding translate_def by simp
  next
    case (Some p)
    have off: "push_bit pageBits f OR (va AND OFFSET_MASK) = f * 32 + va mod 32" for f
      using or_field[of "va mod 32" 5 f] unfolding offset_bits by (simp add: pageBits_def)
    have "?i \<in> dom D" using Some by (simp add: domIff)
    moreover have "getPageDirEntry s pid va = Inr (1, p, pd * 32 + ?i)" using dir_read[OF t pid refl, of va] Some by simp
    moreover note table_read[OF t Some refl, of va, unfolded vpn]
    ultimately show ?thesis unfolding translate_def using off by (cases "M (va div 32 mod 1024)") simp_all
  qed
qed

section \<open>Properties\<close>

text \<open>C13. After the allocation of any number of pages, if it succeeds (it always does up to 95 pages, and may do up to 123), the code's bit manipulations implement a page map: an address of an
  allocated page translates to the same offset in the page's own frame, any other address faults with \<open>-2\<close> when its
  part of the page table exists and with \<open>-1\<close> when it does not.\<close>

theorem page_tables_translate:
  assumes "\<forall>k \<in> set rs. drawn k" "procAlloc (os_init rs) pid n = Inr (vps, s)"
  shows "\<exists>M. dom M = set vps \<and> distinct vps \<and> length vps = n \<and> inj_on M (dom M) \<and> (\<forall>f \<in> ran M. 0 \<le> f \<and> f < 128) \<and>
    (\<forall>va. translate s pid va = Inr (case M (va div 32 mod 1024) of
        Some f \<Rightarrow> f * 32 + va mod 32
      | None \<Rightarrow> if \<exists>v \<in> set vps. v div 32 = va div 1024 mod 32 then -2 else -1))"
proof -
  obtain pd D M where t: "tables s pd D M {}" "pdbr s pid = Some pd" "dom M = set vps" "distinct vps" "dom D = (\<lambda>v. v div 32) ` set vps" "length vps = n"
    using procAlloc_ok[OF assms(1), of False n pid] assms(2) by (auto simp: loop_ok_def)
  have "\<forall>f \<in> ran M. 0 \<le> f \<and> f < 128" using tablesD(4)[OF t(1)] by (auto simp: in_use_def)
  moreover have "inj_on M (dom M)" using tablesD(5)[OF t(1)] by (simp add: owned_def)
  moreover have iff: "w \<in> dom D \<longleftrightarrow> (\<exists>v \<in> set vps. v div 32 = w)" for w unfolding t(5) by auto
  moreover note translate_ok[OF t(1,2), unfolded iff]
  ultimately show ?thesis using t(3,4,6) by (intro exI[of _ M] conjI allI) simp_all
qed

text \<open>One page: the directory in page 0, virtual page 0 in page 1, its page table in page 2.\<close>

definition example_draws :: "int list" where
  "example_draws = [0, 0, 2 ^ 46, 2 * 2 ^ 46] @ replicate 32 0"

lemma fillPage_total:
  assumes "0 \<le> p" "p < 128" "length (memory s) = 4096" "32 \<le> length (rnd s)"
  shows "\<exists>s'. fillPage s p = Inr s'"
proof -
  let ?f = "\<lambda>s j. bnd (draw s) (\<lambda>(k, s). poke s (p * pageSize + j) (scaled k 31))"
  have "\<exists>s'. foldres ?f s js = Inr s'" if "\<forall>j \<in> set js. 0 \<le> j \<and> j < 32" "length (memory s) = 4096" "length js \<le> length (rnd s)" for js s
    using that
  proof (induction js arbitrary: s)
    case (Cons j js)
    then obtain k ks where k: "rnd s = k # ks" by (cases "rnd s") auto
    obtain m where "poke (s\<lparr>rnd := ks\<rparr>) (p * 32 + j) (scaled k 31) = Inr (s\<lparr>rnd := ks, memory := m\<rparr>)" "length m = 4096"
      using poke_ok[of "p * 32 + j" "s\<lparr>rnd := ks\<rparr>" "scaled k 31"] Cons.prems assms(1,2) by auto
    then show ?case using Cons.IH[of "s\<lparr>rnd := ks, memory := m\<rparr>"] Cons.prems k by (simp add: draw_def pageSize_def)
  qed simp
  from this[of "[0..31]" s] assms(3,4) show ?thesis by (simp add: fillPage_def pageSize_def)
qed

lemma example_alloc: "\<exists>s. procAlloc (os_init example_draws) 1 1 = Inr ([0], s)"
proof -
  define s0 where "s0 = (os_init example_draws)\<lparr>usedPages := (replicate 128 0)[0 := 1], usedPagesCount := 1, rnd := drop 1 example_draws, pdbr := [1 \<mapsto> 0]\<rparr>"
  have f0: "findFree (os_init example_draws) = Inr (0, (os_init example_draws)\<lparr>usedPages := (replicate 128 0)[0 := 1], usedPagesCount := 1, rnd := drop 1 example_draws\<rparr>)"
    by (simp add: findFree_def os_init_def example_draws_def page_consts scaled_def asserting_def)
  obtain m where m: "initPageDir s0 0 = Inr (s0\<lparr>memory := m\<rparr>)" "length m = 4096" "\<forall>b \<ge> 0. m ! nat b = (if b div 32 = 0 then 127 else byte s0 b)"
    using initPageDir_ok[of 0 s0] by (auto simp: s0_def os_init_def page_consts)
  define u where "u = s0\<lparr>memory := m\<rparr>"
  define u1 where "u1 = u\<lparr>usedPages := (replicate 128 0)[0 := 1, 1 := 1], usedPagesCount := 2, rnd := drop 3 example_draws\<rparr>"
  define u2 where "u2 = u1\<lparr>usedPages := (replicate 128 0)[0 := 1, 1 := 1, 2 := 1], usedPagesCount := 3, rnd := drop 4 example_draws\<rparr>"
  have f1: "findFree (u\<lparr>rnd := drop 2 example_draws\<rparr>) = Inr (1, u1)"
    by (simp add: findFree_def u1_def u_def s0_def os_init_def example_draws_def page_consts scaled_def asserting_def)
  have f2: "findFree u1 = Inr (2, u2)"
    by (simp add: findFree_def u2_def u1_def u_def s0_def os_init_def example_draws_def page_consts scaled_def asserting_def)
  have "holds u1 0 Map.empty Map.empty" using m(3) by (simp add: holds_def u1_def u_def byte_def entry_def)
  then have t1: "tables u1 0 Map.empty Map.empty {1}"
    using m(2) by (simp add: tables_def u1_def u_def s0_def in_use_def owned_def example_draws_def)
  have t2: "tables u2 0 Map.empty Map.empty (insert 2 {1})"
    using findFree_ok[OF t1] f2 by (simp add: u1_def)
  obtain u3 where u3: "bnd (setPageDirEntry u2 (0 * 32 + 0) 2) (\<lambda>s. initPageTablePage s 2) = Inr u3" "tables u3 0 [0 \<mapsto> 2] Map.empty {1}" "rnd u3 = rnd u2"
    using new_table[OF t2, of 0] by auto
  obtain u4 where u4: "setPageTableEntry u3 64 1 = Inr u4" "tables u4 0 [0 \<mapsto> 2] [0 \<mapsto> 1] {}" "rnd u4 = rnd u3" using new_page[OF u3(2), of 0 2] by auto
  have pid: "pdbr u1 1 = Some 0" by (simp add: u1_def u_def s0_def)
  have rn: "rnd u4 = drop 4 example_draws" using u3(3) u4(3) by (simp add: u2_def)
  have "allocVirtualPage u1 1 0 1 = Inr u4"
  proof -
    have "getPageDirEntry u1 1 0 = Inr (0, 127, 0)" using dir_read[OF t1 pid refl, of 0] by simp
    moreover have "getPageTableEntry u3 0 2 = Inr (0, 127, 64)" using table_read[OF u3(2) _ refl, of 0 2 0] by simp
    moreover have "bnd (setPageDirEntry u2 0 2) (\<lambda>s. bnd (initPageTablePage s 2) (\<lambda>s. Inr (2, s))) = Inr (2::int, u3)"
      using arg_cong[OF u3(1), of "\<lambda>m. bnd m (\<lambda>s. Inr (2::int, s))"] by (simp add: bnd_assoc)
    ultimately show ?thesis using f2 u4(1) by (simp add: allocVirtualPage_def)
  qed
  moreover obtain u5 where "fillPage u4 1 = Inr u5" using fillPage_total[of 1 u4] tablesD(1)[OF u4(2)] rn by (auto simp: example_draws_def)
  moreover have "draw_vp (\<lambda>vp. if 0 \<le> vp \<and> vp < vaPages then Some 0 else None) (rnd u) = Inr (0, drop 2 example_draws)"
    by (simp add: u_def s0_def example_draws_def scaled_def page_consts dict_get_def)
  ultimately have "alloc_one 1 (\<lambda>vp. if 0 \<le> vp \<and> vp < vaPages then Some 0 else None, [], u) =
      Inr ((\<lambda>vp. if 0 \<le> vp \<and> vp < vaPages then Some 0 else None)(0 \<mapsto> 1), [0], u5)"
    using f1 by (simp add: alloc_one_def dict_get_def vaPages_def)
  then show ?thesis using f0 m(1) by (simp add: procAlloc_def s0_def u_def os_init_def)
qed

theorem page_tables_translate_witness:
  "\<exists>s (M :: int \<rightharpoonup> int). procAlloc (os_init example_draws) 1 1 = Inr ([0], s) \<and> dom M = {0} \<and> translate s 1 7 = Inr (the (M 0) * 32 + 7) \<and>
     translate s 1 40 = Inr (-2) \<and> translate s 1 5000 = Inr (-1)"
proof -
  obtain s where s: "procAlloc (os_init example_draws) 1 1 = Inr ([0], s)" using example_alloc by blast
  have d: "\<forall>k \<in> set example_draws. drawn k" by (simp add: example_draws_def)
  obtain M where M: "dom M = {0}" "\<forall>va. translate s 1 va = Inr (case M (va div 32 mod 1024) of
        Some f \<Rightarrow> f * 32 + va mod 32 | None \<Rightarrow> if \<exists>v \<in> set [0]. v div 32 = va div 1024 mod 32 then -2 else -1)"
    using page_tables_translate[OF d s] by auto
  have "1 \<notin> dom M" "156 \<notin> dom M" "0 \<in> dom M" using M(1) by simp_all
  then have "M 1 = None" "M 156 = None" "\<exists>f. M 0 = Some f" by (simp_all add: domIff)
  then obtain f where "M 1 = None" "M 156 = None" "M 0 = Some f" by blast
  then show ?thesis using s M by (intro exI[of _ s] exI[of _ M]) simp
qed

text \<open>No two virtual addresses of the address space reach the same byte of physical memory.\<close>

theorem page_tables_injective:
  assumes "\<forall>k \<in> set rs. drawn k" "procAlloc (os_init rs) pid n = Inr (vps, s)"
    and "0 \<le> va" "va < 32768" "0 \<le> wa" "wa < 32768" "translate s pid va = Inr a" "translate s pid wa = Inr a" "0 \<le> a"
  shows "va = wa"
proof -
  obtain pd D M where t: "tables s pd D M {}" "pdbr s pid = Some pd"
    using procAlloc_ok[OF assms(1), of False n pid] assms(2) by (auto simp: loop_ok_def)
  have hit: "\<exists>f. M (x div 32) = Some f \<and> a = f * 32 + x mod 32" if x: "0 \<le> x" "x < 32768" "translate s pid x = Inr a" for x
  proof -
    have "x div 32 mod 1024 = x div 32" using x(1,2) by (simp add: zdiv_less_iff pos_imp_zdiv_nonneg_iff)
    then have "a = (case M (x div 32) of Some f \<Rightarrow> f * 32 + x mod 32 | None \<Rightarrow> if x div 1024 mod 32 \<in> dom D then -2 else -1)"
      using translate_ok[OF t, of x] x(3) by simp
    then show ?thesis using assms(9) by (cases "M (x div 32)") (simp_all split: if_splits)
  qed
  obtain f g where fg: "M (va div 32) = Some f" "a = f * 32 + va mod 32" "M (wa div 32) = Some g" "a = g * 32 + wa mod 32"
    using hit[OF assms(3,4,7)] hit[OF assms(5,6,8)] by blast
  have "f = a div 32" "g = a div 32" using fg(2,4) page_addr[of "va mod 32" f] page_addr[of "wa mod 32" g] by simp_all
  then have "f = g" by simp
  moreover have "inj_on M (dom M)" using tablesD(5)[OF t(1)] by (simp add: owned_def)
  ultimately have "va div 32 = wa div 32" using fg(1,3) unfolding inj_on_def by (metis domI)
  moreover have "va mod 32 = wa mod 32" using fg(2,4) \<open>f = g\<close> by simp
  ultimately show ?thesis using div_mult_mod_eq[of va 32] div_mult_mod_eq[of wa 32] by linarith
qed

theorem page_tables_injective_witness:
  "\<exists>s. procAlloc (os_init example_draws) 1 1 = Inr ([0], s) \<and> (\<forall>a \<ge> 0. translate s 1 3 = Inr a \<longrightarrow> translate s 1 9 \<noteq> Inr a)"
proof -
  obtain s where s: "procAlloc (os_init example_draws) 1 1 = Inr ([0], s)" using example_alloc by blast
  have d: "\<forall>k \<in> set example_draws. drawn k" by (simp add: example_draws_def)
  have "translate s 1 9 \<noteq> Inr a" if "0 \<le> a" "translate s 1 3 = Inr a" for a
    using page_tables_injective[OF d s, of 3 9 a] that by auto
  then show ?thesis using s by blast
qed

text \<open>C35. Up to 95 pages fit, however they fall: no assertion of the code fails (the physical pages never run out, and no page
  table entry is in use when it is to be filled), no memory access is out of range, and the allocation can only go on forever
  for want of suitable random numbers.\<close>

theorem page_tables_fit:
  assumes "\<forall>k \<in> set rs. drawn k" "n \<le> 95" "procAlloc (os_init rs) pid n = Inl e"
  shows "e = NoReturn"
  using procAlloc_ok[OF assms(1), of True n pid] assms(2,3) by simp

theorem page_tables_fit_witness: "procAlloc (os_init []) 1 3 = Inl NoReturn"
proof -
  have "procAlloc (os_init []) 1 3 = Inl (case procAlloc (os_init []) 1 3 of Inl e \<Rightarrow> e | Inr _ \<Rightarrow> NoReturn)"
    by (simp add: procAlloc_def findFree_def os_init_def page_consts)
  then show ?thesis using page_tables_fit[of "[]" 3 1] by (cases "procAlloc (os_init []) 1 3") auto
qed

end
