(* ===== verification/Fork.thy ===== *)
theory Fork
  imports Machines Complex_Main
begin

text \<open>
  The process-tree simulator of \<^verbatim>\<open>ostep/homework/cpu-api/fork.py\<close>: the class \<^verbatim>\<open>Forker\<close> with its process names, the two
  operations \<^verbatim>\<open>do_fork\<close> and \<^verbatim>\<open>do_exit\<close> (orphans go to the parent or to the root), the reading of an action list, the random action
  list, and the drawing of the tree. The lemmas show that the dictionaries always represent a tree, and which tree it is.
\<close>

section \<open>Model\<close>

text \<open>An entry of the dictionaries: a value, or the \<open>-1\<close> that marks a process that has exited.\<close>

datatype 'a slot = Live 'a | Gone

record forker =
  process_list :: "string list"
  children :: "string \<rightharpoonup> string list slot"
  parents :: "string \<rightharpoonup> string slot"

record fork_opts =
  local_reparent :: bool
  leaf_only :: bool
  print_style :: string
  show_tree :: bool
  just_final :: bool
  solve :: bool

definition root_name :: string where "root_name = ''a''"

definition forker_init :: forker where
  "forker_init = \<lparr>process_list = [root_name], children = [root_name \<mapsto> Live []], parents = Map.empty\<rparr>"

text \<open>The names given to random processes: the letters, then all pairs of letters, and so on.\<close>

record namer =
  curr_names :: "string list"
  curr_index :: nat

definition base_names :: string where
  "base_names = ''abcdefghijklmnopqrstuvwxyzABCDEFGHIJKLMNOPQRSTUVWXYZ''"

definition namer_init :: namer where
  "namer_init = \<lparr>curr_names = map (\<lambda>c. [c]) base_names, curr_index = 1\<rparr>"

definition grow_names :: "namer \<Rightarrow> namer" where
  "grow_names n = \<lparr>curr_names = concat (map (\<lambda>b1. map (\<lambda>b2. b1 @ [b2]) base_names) (curr_names n)), curr_index = 0\<rparr>"

definition get_name :: "namer \<Rightarrow> string \<times> namer" where
  "get_name n =
     (let n = (if curr_index n = length (curr_names n) then grow_names n else n)
      in (curr_names n ! curr_index n, n\<lparr>curr_index := curr_index n + 1\<rparr>))"

text \<open>\<open>kids\<close> is \<^verbatim>\<open>self.children[p]\<close> where a list is needed: a \<open>-1\<close> is refused there.\<close>

definition kids :: "pyerr \<Rightarrow> (string \<rightharpoonup> string list slot) \<Rightarrow> string \<Rightarrow> string list res" where
  "kids e ch p = bnd (dict_get ch p) (\<lambda>v. case v of Live ks \<Rightarrow> Inr ks | Gone \<Rightarrow> Inl e)"

definition append_kid :: "(string \<rightharpoonup> string list slot) \<Rightarrow> string \<Rightarrow> string \<Rightarrow> (string \<rightharpoonup> string list slot) res" where
  "append_kid ch p c = bnd (kids AttributeError ch p) (\<lambda>ks. Inr (ch(p \<mapsto> Live (ks @ [c]))))"

definition do_fork :: "forker \<Rightarrow> string \<Rightarrow> string \<Rightarrow> (string \<times> forker) res" where
  "do_fork s p c =
     bnd (append_kid ((children s)(c \<mapsto> Live [])) p c) (\<lambda>ch.
       Inr (p @ '' forks '' @ c, s\<lparr>process_list := process_list s @ [c], children := ch, parents := (parents s)(c \<mapsto> Live p)\<rparr>))"

text \<open>The recursions of \<^verbatim>\<open>collect_children\<close> and \<^verbatim>\<open>walk\<close> take the depth that the interpreter allows.\<close>

fun collect_children :: "nat \<Rightarrow> (string \<rightharpoonup> string list slot) \<Rightarrow> string \<Rightarrow> string list res" where
  "collect_children 0 ch p = Inl NoReturn"
| "collect_children (Suc d) ch p =
     bnd (kids TypeError ch p) (\<lambda>ks. foldres (\<lambda>L c. bnd (collect_children d ch c) (\<lambda>M. Inr (L @ M))) [p] ks)"

definition list_remove :: "'a list \<Rightarrow> 'a \<Rightarrow> 'a list res" where
  "list_remove xs x = (if x \<in> set xs then Inr (remove1 x xs) else Inl ValueError)"

definition reparent_local :: "string \<Rightarrow> forker \<Rightarrow> string \<Rightarrow> forker res" where
  "reparent_local q s orphan =
     bnd (append_kid (children s) q orphan) (\<lambda>ch. Inr (s\<lparr>parents := (parents s)(orphan \<mapsto> Live q), children := ch\<rparr>))"

definition reparent_root :: "forker \<Rightarrow> string \<Rightarrow> forker res" where
  "reparent_root s d =
     bnd (append_kid ((children s)(d \<mapsto> Live [])) root_name d) (\<lambda>ch.
       Inr (s\<lparr>children := ch, parents := (parents s)(d \<mapsto> Live root_name)\<rparr>))"

text \<open>A process that is its own parent would append to the list the loop over its orphans runs through, without end.\<close>

definition reparent :: "nat \<Rightarrow> bool \<Rightarrow> forker \<Rightarrow> string \<Rightarrow> string \<Rightarrow> forker res" where
  "reparent depth local s p q =
     (if local
      then bnd (kids TypeError (children s) p) (\<lambda>ks. if q = p \<and> ks \<noteq> [] then Inl NoReturn else foldres (reparent_local q) s ks)
      else bnd (collect_children depth (children s) p) (\<lambda>descendents.
           bnd (list_remove descendents p) (foldres reparent_root s)))"

definition do_exit :: "nat \<Rightarrow> bool \<Rightarrow> forker \<Rightarrow> string \<Rightarrow> (string \<times> forker) res" where
  "do_exit depth local s p =
     (if p = root_name then Inl SysExit
      else bnd (dict_get (parents s) p) (\<lambda>exit_parent.
           bnd (list_remove (process_list s) p) (\<lambda>pl.
           case exit_parent of
             Gone \<Rightarrow> Inl KeyError
           | Live q \<Rightarrow>
               bnd (reparent depth local (s\<lparr>process_list := pl\<rparr>) p q) (\<lambda>s.
               bnd (kids AttributeError (children s) q) (\<lambda>ks.
               bnd (list_remove ks p) (\<lambda>ks.
               Inr (p @ '' EXITS'', s\<lparr>children := (children s)(q \<mapsto> Live ks, p \<mapsto> Gone), parents := (parents s)(p \<mapsto> Gone)\<rparr>)))))))"

definition check_legal :: "string \<Rightarrow> string list res" where
  "check_legal action =
     (if CHR ''+'' \<in> set action
      then (let tmp = split_on CHR ''+'' action in if length tmp \<noteq> 2 then Inl SysExit else Inr [tmp ! 0, tmp ! 1])
      else if CHR ''-'' \<in> set action
      then (let tmp = split_on CHR ''-'' action in if length tmp \<noteq> 2 then Inl SysExit else Inr [tmp ! 0])
      else Inl SysExit)"

definition run_action :: "nat \<Rightarrow> fork_opts \<Rightarrow> forker \<Rightarrow> string \<Rightarrow> (string \<times> forker) res" where
  "run_action depth opt s a =
     bnd (check_legal a) (\<lambda>tmp.
       if length tmp = 2
       then if tmp ! 0 \<notin> set (process_list s) then Inl SysExit else do_fork s (tmp ! 0) (tmp ! 1)
       else let exit_choice = tmp ! 0
            in if exit_choice \<notin> set (process_list s) then Inl SysExit
               else bnd (if leaf_only opt then bnd (kids TypeError (children s) exit_choice) (\<lambda>ks. Inr (ks \<noteq> [])) else Inr False) (\<lambda>busy.
                    if busy then Inr (exit_choice @ '' EXITS (failed: has children)'', s)
                    else do_exit depth (local_reparent opt) s exit_choice))"

text \<open>Drawing the tree: the lines printed, and the mask of the columns that still carry a vertical bar, which all the calls share.
  The third form uses box-drawing characters, three bytes each.\<close>

definition style_chars :: "string \<Rightarrow> (string \<times> string \<times> string \<times> string) option" where
  "style_chars style =
     (if style = ''line1'' then Some (''|'', ''-'', ''+'', ''|'')
      else if style = ''line2'' then Some (''|'', ''_'', ''|'', ''|'')
      else if style = ''fancy''
      then Some ([CHR 0xE2, CHR 0x94, CHR 0x82], [CHR 0xE2, CHR 0x94, CHR 0x80], [CHR 0xE2, CHR 0x94, CHR 0x9C], [CHR 0xE2, CHR 0x94, CHR 0x94])
      else None)"

definition margin :: string where "margin = replicate 31 CHR '' ''"

definition before_node :: "string \<times> string \<times> string \<times> string \<Rightarrow> int \<Rightarrow> (int \<rightharpoonup> bool) \<Rightarrow> bool \<Rightarrow> string res" where
  "before_node chars level pmask is_last =
     (case chars of (bar, dash, tee, corner) \<Rightarrow>
        if level > 0
        then bnd (foldres (\<lambda>out i. bnd (dict_get pmask i) (\<lambda>m. Inr (out @ (if m then bar @ ''   '' else ''    '')))) [] [0..level - 2]) (\<lambda>out.
             bnd (dict_get pmask (level - 1)) (\<lambda>m.
             Inr (out @ (if m then (if is_last then corner else tee) @ dash @ dash @ '' '' else '' '' @ dash @ dash @ dash @ '' ''))))
        else Inr [])"

fun walk :: "nat \<Rightarrow> string \<Rightarrow> (string \<rightharpoonup> string list slot) \<Rightarrow> string \<Rightarrow> int \<Rightarrow> (int \<rightharpoonup> bool) \<Rightarrow> bool \<Rightarrow> (string list \<times> (int \<rightharpoonup> bool)) res" where
  "walk 0 style ch p level pmask is_last = Inl NoReturn"
| "walk (Suc d) style ch p level pmask is_last =
     (if style = ''basic''
      then bnd (kids TypeError ch p) (\<lambda>ks.
           bnd (foldres (\<lambda>out c. bnd (walk d style ch c (level + 1) Map.empty False) (\<lambda>(o1, _). Inr (out @ o1)))
                  [margin @ concat (replicate (nat level) ''   '') @ (replicate (2 - length p) CHR '' '' @ p)] ks) (\<lambda>out.
           Inr (out, pmask)))
      else case style_chars style of
             None \<Rightarrow> Inl SysExit
           | Some chars \<Rightarrow>
               bnd (before_node chars level pmask is_last) (\<lambda>pre.
               let pmask = (if is_last then pmask(level - 1 \<mapsto> False) else pmask)(level \<mapsto> True)
               in bnd (kids TypeError ch p) (\<lambda>ks.
                  bnd (foldres (\<lambda>(out, pmask) c. bnd (walk d style ch c (level + 1) pmask False) (\<lambda>(o1, pmask). Inr (out @ o1, pmask)))
                         ([margin @ pre @ p], pmask) (butlast ks)) (\<lambda>(out, pmask).
                  foldres (\<lambda>(out, pmask) c. bnd (walk d style ch c (level + 1) pmask True) (\<lambda>(o1, pmask). Inr (out @ o1, pmask)))
                    (out, pmask) (if ks = [] then [] else [last ks])))))"

definition print_tree :: "nat \<Rightarrow> fork_opts \<Rightarrow> forker \<Rightarrow> string list res" where
  "print_tree depth opt s = bnd (walk depth (print_style opt) (children s) root_name 0 Map.empty False) (\<lambda>(out, _). Inr out)"

text \<open>What is printed after an action, and at the end.\<close>

definition report :: "nat \<Rightarrow> fork_opts \<Rightarrow> string \<Rightarrow> forker \<Rightarrow> string list res" where
  "report depth opt action s =
     (if show_tree opt
      then bnd (if just_final opt then Inr [] else print_tree depth opt s) (\<lambda>t.
           Inr ((if solve opt then ''Action: '' @ action else ''Action?'') # t))
      else bnd (if just_final opt then Inr [] else if solve opt then print_tree depth opt s else Inr [''Process Tree?'']) (\<lambda>t.
           Inr ((''Action: '' @ action) # t)))"

definition report_final :: "nat \<Rightarrow> fork_opts \<Rightarrow> forker \<Rightarrow> string list res" where
  "report_final depth opt s =
     (if just_final opt
      then if show_tree opt \<or> solve opt
           then bnd (print_tree depth opt s) (\<lambda>t. Inr ([] # ''                        Final Process Tree:'' # t @ [[]]))
           else Inr [[], ''                        Final Process Tree?'', []]
      else Inr [])"

definition run_actions :: "nat \<Rightarrow> fork_opts \<Rightarrow> forker \<Rightarrow> string list \<Rightarrow> (forker \<times> string list) res" where
  "run_actions depth opt s acts =
     foldres (\<lambda>(s, out) a. bnd (run_action depth opt s a) (\<lambda>(msg, s). bnd (report depth opt msg s) (\<lambda>o1. Inr (s, out @ o1)))) (s, []) acts"

text \<open>The random action list. A round draws twice: whether to fork, and which process acts; \<open>draws\<close> are the numerators over \<open>2^53\<close>.\<close>

definition random_choice :: "int \<Rightarrow> 'a list \<Rightarrow> 'a res" where
  "random_choice k L = list_get L (scaled k (int (length L)))"

fun random_actions :: "rat \<Rightarrow> int \<Rightarrow> int list \<Rightarrow> namer \<Rightarrow> string list \<Rightarrow> string list res" where
  "random_actions pct todo draws n temp =
     (if todo \<le> 0 then Inr []
      else case draws of
             coin # k # draws' \<Rightarrow>
               bnd (random_choice k temp) (\<lambda>choice.
                 if of_int coin < pct * 2 ^ 53
                 then (case get_name n of (new_child, n') \<Rightarrow>
                        bnd (random_actions pct (todo - 1) draws' n' (temp @ [new_child])) (\<lambda>acts. Inr ((choice @ ''+'' @ new_child) # acts)))
                 else if choice = root_name then random_actions pct todo draws' n temp
                 else bnd (random_actions pct (todo - 1) draws' n (remove1 choice temp)) (\<lambda>acts. Inr ((choice @ ''-'') # acts)))
           | _ \<Rightarrow> Inl NoReturn)"

declare random_actions.simps [simp del]

definition fork_run :: "nat \<Rightarrow> fork_opts \<Rightarrow> rat \<Rightarrow> int \<Rightarrow> string \<Rightarrow> int list \<Rightarrow> (forker \<times> string list) res" where
  "fork_run depth opt pct max_actions action_list draws =
     bnd (print_tree depth opt forker_init) (\<lambda>t0.
     bnd (if action_list \<noteq> [] then Inr (split_on CHR '','' action_list)
          else random_actions pct max_actions draws namer_init [root_name]) (\<lambda>acts.
     bnd (run_actions depth opt forker_init acts) (\<lambda>(s, out).
     bnd (report_final depth opt s) (\<lambda>t1. Inr (s, ''                           Process Tree:'' # t0 @ [[]] @ out @ t1)))))"

section \<open>Trees\<close>

text \<open>The specification: the parent of every process but the root, and what an action makes of it.\<close>

type_synonym ptree = "string \<rightharpoonup> string"

datatype action = Forks string string | Exits string

fun show_action :: "action \<Rightarrow> string" where
  "show_action (Forks p c) = p @ ''+'' @ c"
| "show_action (Exits p) = p @ ''-''"

definition members :: "ptree \<Rightarrow> string set" where "members T = insert root_name (dom T)"

definition child_of :: "ptree \<Rightarrow> (string \<times> string) set" where "child_of T = {(p, c). T c = Some p}"

definition descends :: "ptree \<Rightarrow> string \<Rightarrow> string set" where "descends T p = {x. (p, x) \<in> (child_of T)\<^sup>+}"

fun tree_step :: "fork_opts \<Rightarrow> ptree \<Rightarrow> action \<Rightarrow> ptree" where
  "tree_step opt T (Forks p c) = T(c \<mapsto> p)"
| "tree_step opt T (Exits p) =
     (if leaf_only opt \<and> p \<in> ran T then T
      else if local_reparent opt then (\<lambda>x. if x = p then None else if T x = Some p then T p else T x)
      else (\<lambda>x. if x = p then None else if x \<in> descends T p then Some root_name else T x))"

text \<open>The state represents the tree: no process is listed twice, the lists of children and the parents agree with it, and it has no cycle.\<close>

definition ranked :: "ptree \<Rightarrow> (string \<Rightarrow> nat) \<Rightarrow> bool" where
  "ranked T r \<longleftrightarrow> (\<forall>x y. T x = Some y \<longrightarrow> r y < r x)"

definition forest :: "forker \<Rightarrow> ptree \<Rightarrow> bool" where
  "forest s T \<longleftrightarrow> distinct (process_list s) \<and> set (process_list s) = members T \<and> T root_name = None \<and> ran T \<subseteq> members T \<and>
     (\<forall>p \<in> members T. \<exists>ks. children s p = Some (Live ks) \<and> distinct ks \<and> set ks = {x. T x = Some p}) \<and>
     (\<forall>x y. T x = Some y \<longrightarrow> parents s x = Some (Live y)) \<and> (\<exists>r. ranked T r)"

lemma forestD:
  assumes "forest s T"
  shows "distinct (process_list s)" "set (process_list s) = members T" "T root_name = None"
    "\<And>x y. T x = Some y \<Longrightarrow> y \<in> members T" "\<And>x y. T x = Some y \<Longrightarrow> parents s x = Some (Live y)"
    "\<And>x y. T x = Some y \<Longrightarrow> x \<in> members T"
  using assms by (auto simp: forest_def members_def ran_def)

lemma forest_kids:
  assumes "forest s T" "p \<in> members T"
  obtains ks where "children s p = Some (Live ks)" "distinct ks" "set ks = {x. T x = Some p}"
  using assms unfolding forest_def by blast

lemma forest_ranked:
  assumes "forest s T" obtains r where "ranked T r"
  using assms unfolding forest_def by blast

lemma forestI:
  assumes "distinct (process_list s)" "set (process_list s) = members T" "T root_name = None"
    "\<And>x y. T x = Some y \<Longrightarrow> y \<in> members T" "ranked T r" "\<And>x y. T x = Some y \<Longrightarrow> parents s x = Some (Live y)"
    "\<And>p. p \<in> members T \<Longrightarrow> \<exists>ks. children s p = Some (Live ks) \<and> distinct ks \<and> set ks = {x. T x = Some p}"
  shows "forest s T"
proof -
  have "ran T \<subseteq> members T" using assms(4) by (auto simp: ran_def)
  then show ?thesis unfolding forest_def using assms(1-3,5-7) by blast
qed

lemma members_root [simp]: "root_name \<in> members T"
  by (simp add: members_def)

lemma kids_live [simp]: "ch p = Some (Live ks) \<Longrightarrow> kids e ch p = Inr ks"
  by (simp add: kids_def)

lemma append_kid_live [simp]: "ch p = Some (Live ks) \<Longrightarrow> append_kid ch p c = Inr (ch(p \<mapsto> Live (ks @ [c])))"
  by (simp add: append_kid_def)

lemma list_remove_in [simp]: "x \<in> set xs \<Longrightarrow> list_remove xs x = Inr (remove1 x xs)"
  by (simp add: list_remove_def)

text \<open>The fork of a new process adds a leaf.\<close>

lemma do_fork_ok:
  assumes f: "forest s T" and p: "p \<in> members T" and c: "c \<notin> members T"
  shows "\<exists>s'. do_fork s p c = Inr (p @ '' forks '' @ c, s') \<and> forest s' (T(c \<mapsto> p))"
proof -
  note F = forestD[OF f]
  have pc: "p \<noteq> c" "c \<noteq> root_name" "T c = None" using p c by (auto simp: members_def)
  have nc: "T x \<noteq> Some c" for x using F(4) c by blast
  obtain kp where kp: "children s p = Some (Live kp)" "distinct kp" "set kp = {x. T x = Some p}" using forest_kids[OF f p] .
  obtain r where r: "ranked T r" using forest_ranked[OF f] .
  define s' where "s' = s\<lparr>process_list := process_list s @ [c], children := (children s)(c \<mapsto> Live [], p \<mapsto> Live (kp @ [c])), parents := (parents s)(c \<mapsto> Live p)\<rparr>"
  have "do_fork s p c = Inr (p @ '' forks '' @ c, s')" using pc kp(1) by (simp add: do_fork_def s'_def)
  moreover have "forest s' (T(c \<mapsto> p))"
  proof (rule forestI[where r="r(c := Suc (r p))"])
    show "ranked (T(c \<mapsto> p)) (r(c := Suc (r p)))" using r nc pc by (auto simp: ranked_def)
    show "y \<in> members (T(c \<mapsto> p))" if "(T(c \<mapsto> p)) x = Some y" for x y
      using that F(4) p by (auto simp: members_def split: if_splits)
    show "\<exists>ks. children s' q = Some (Live ks) \<and> distinct ks \<and> set ks = {x. (T(c \<mapsto> p)) x = Some q}" if q: "q \<in> members (T(c \<mapsto> p))" for q
    proof -
      consider "q = c" | "q = p" | "q \<in> members T" "q \<noteq> c" "q \<noteq> p" using q unfolding members_def by fastforce
      then show ?thesis
      proof cases
        case 1 then show ?thesis using pc nc by (auto simp: s'_def)
      next
        case 2 then show ?thesis using kp pc by (auto simp: s'_def)
      next
        case 3
        from forest_kids[OF f 3(1)] obtain kq where "children s q = Some (Live kq)" "distinct kq" "set kq = {x. T x = Some q}" .
        with 3 pc show ?thesis by (auto simp: s'_def)
      qed
    qed
  qed (use F pc c in \<open>auto simp: s'_def members_def split: if_splits\<close>)
  ultimately show ?thesis by blast
qed

section \<open>Descendants\<close>

lemma descends_iff: "T x = Some y \<Longrightarrow> x \<in> descends T p \<longleftrightarrow> y = p \<or> y \<in> descends T p"
  by (auto simp: descends_def child_of_def elim: tranclE intro: trancl.intros)

lemma descends_parent: "x \<in> descends T p \<Longrightarrow> \<exists>y. T x = Some y"
  by (auto simp: descends_def child_of_def elim: tranclE)

lemma descends_rank: "ranked T r \<Longrightarrow> x \<in> descends T p \<Longrightarrow> r p < r x"
proof -
  assume r: "ranked T r" and "x \<in> descends T p"
  then have "(p, x) \<in> (child_of T)\<^sup>+" by (simp add: descends_def)
  then show "r p < r x" by induction (use r in \<open>auto simp: child_of_def ranked_def intro: less_trans\<close>)
qed

lemma descends_split: "descends T p = (\<Union>c \<in> {c. T c = Some p}. insert c (descends T c))"
  by (auto simp: descends_def child_of_def elim: converse_tranclE intro: trancl_into_trancl2)

text \<open>Two children of one process have no descendant in common.\<close>

lemma descends_apart:
  assumes r: "ranked T r" and c: "T c = Some p" "T c' = Some p" "c \<noteq> c'"
  shows "insert c (descends T c) \<inter> insert c' (descends T c') = {}"
proof -
  have sib: "a \<notin> descends T b" if "T a = Some p" "T b = Some p" for a b
  proof
    assume "a \<in> descends T b"
    then have "p = b \<or> p \<in> descends T b" using descends_iff[of T a p b] that(1) by simp
    then show False using descends_rank[OF r, of p b] that(2) r unfolding ranked_def by fastforce
  qed
  have "x \<notin> descends T c'" if "x \<in> descends T c" for x
  proof -
    have "(c, x) \<in> (child_of T)\<^sup>+" using that by (simp add: descends_def)
    then show ?thesis
    proof induction
      case (base y)
      then have "T y = Some c" by (simp add: child_of_def)
      then show ?case using descends_iff[of T y c c'] sib c by blast
    next
      case (step y z)
      then have z: "T z = Some y" by (simp add: child_of_def)
      have "y \<noteq> c'"
      proof
        assume "y = c'" with step.hyps(1) have "c' \<in> descends T c" by (simp add: descends_def)
        then show False using sib c by blast
      qed
      then show ?case using descends_iff[of T z y c'] z step.IH by blast
    qed
  qed
  then show ?thesis using sib c by blast
qed

text \<open>How many levels lie below a process: no more than processes of a higher rank.\<close>

definition above :: "ptree \<Rightarrow> (string \<Rightarrow> nat) \<Rightarrow> string \<Rightarrow> nat" where
  "above T r p = card {q \<in> members T. r p < r q}"

lemma above_child:
  assumes "finite (members T)" "ranked T r" "T c = Some p"
  shows "above T r c < above T r p"
proof -
  have "r p < r c" using assms by (simp add: ranked_def)
  moreover have "c \<in> members T" using assms(3) by (auto simp: members_def)
  ultimately have "{q \<in> members T. r c < r q} \<subset> {q \<in> members T. r p < r q}" by auto
  then show ?thesis unfolding above_def using assms(1) by (intro psubset_card_mono) auto
qed

lemma above_less:
  assumes "finite (members T)" "p \<in> members T"
  shows "above T r p < card (members T)"
proof -
  have "{q \<in> members T. r p < r q} \<subset> members T" using assms(2) by auto
  then show ?thesis unfolding above_def using assms(1) by (intro psubset_card_mono)
qed

lemma forest_finite: "forest s T \<Longrightarrow> finite (members T)"
  using forestD(2)[of s T] by (metis List.finite_set)

lemma members_card: "forest s T \<Longrightarrow> card (members T) = length (process_list s)"
  using forestD(1,2)[of s T] by (metis distinct_card)

lemma collect_fold:
  assumes "\<And>c. c \<in> set ks \<Longrightarrow> \<exists>M. collect_children d ch c = Inr M \<and> distinct M \<and> set M = D c"
    and "\<And>c c'. c \<in> set ks \<Longrightarrow> c' \<in> set ks \<Longrightarrow> c \<noteq> c' \<Longrightarrow> D c \<inter> D c' = {}"
    and "distinct ks" "distinct L" "\<And>c. c \<in> set ks \<Longrightarrow> set L \<inter> D c = {}"
  shows "\<exists>M. foldres (\<lambda>L c. bnd (collect_children d ch c) (\<lambda>M. Inr (L @ M))) L ks = Inr (L @ M) \<and> distinct (L @ M) \<and> set M = (\<Union>c \<in> set ks. D c)"
  using assms
proof (induction ks arbitrary: L)
  case (Cons c ks)
  obtain M where M: "collect_children d ch c = Inr M" "distinct M" "set M = D c" using Cons.prems(1)[of c] by auto
  have "distinct (L @ M)" using M Cons.prems(4,5) by auto
  moreover have "set (L @ M) \<inter> D c' = {}" if "c' \<in> set ks" for c'
  proof -
    have "c \<noteq> c'" using that Cons.prems(3) by auto
    then have "D c \<inter> D c' = {}" using Cons.prems(2)[of c c'] that by simp
    then show ?thesis using M(3) Cons.prems(5)[of c'] that by auto
  qed
  moreover have "distinct ks" using Cons.prems(3) by simp
  ultimately have "\<exists>N. foldres (\<lambda>L c. bnd (collect_children d ch c) (\<lambda>M. Inr (L @ M))) (L @ M) ks = Inr ((L @ M) @ N) \<and>
    distinct ((L @ M) @ N) \<and> set N = (\<Union>c \<in> set ks. D c)"
    by (intro Cons.IH) (simp_all add: Cons.prems(1,2))
  then obtain N where "foldres (\<lambda>L c. bnd (collect_children d ch c) (\<lambda>M. Inr (L @ M))) (L @ M) ks = Inr ((L @ M) @ N)"
    "distinct ((L @ M) @ N)" "set N = (\<Union>c \<in> set ks. D c)" by blast
  then show ?case using M by (intro exI[of _ "M @ N"]) simp
qed simp

lemma collect_ok:
  assumes f: "forest s T" and r: "ranked T r"
  shows "p \<in> members T \<Longrightarrow> above T r p < d \<Longrightarrow>
    \<exists>L. collect_children d (children s) p = Inr (p # L) \<and> distinct (p # L) \<and> set L = descends T p"
proof (induction d arbitrary: p)
  case (Suc d)
  obtain ks where ks: "children s p = Some (Live ks)" "distinct ks" "set ks = {x. T x = Some p}" using forest_kids[OF f Suc.prems(1)] .
  have sub: "\<exists>M. collect_children d (children s) c = Inr M \<and> distinct M \<and> set M = insert c (descends T c)" if "c \<in> set ks" for c
  proof -
    have c: "T c = Some p" using that ks by simp
    have "above T r c < d" using above_child[OF forest_finite[OF f] r c] Suc.prems(2) by simp
    moreover have "c \<in> members T" using forestD(6)[OF f c] .
    ultimately obtain L where "collect_children d (children s) c = Inr (c # L)" "distinct (c # L)" "set L = descends T c" using Suc.IH by blast
    then show ?thesis by auto
  qed
  have "insert c (descends T c) \<inter> insert c' (descends T c') = {}" if "c \<in> set ks" "c' \<in> set ks" "c \<noteq> c'" for c c'
    using descends_apart[OF r, of c p c'] that ks by simp
  moreover have "set [p] \<inter> insert c (descends T c) = {}" if "c \<in> set ks" for c
  proof -
    have "p \<notin> descends T p" using descends_rank[OF r, of p p] by auto
    then show ?thesis using that ks descends_split[of T p] by auto
  qed
  ultimately have "\<exists>L. foldres (\<lambda>L c. bnd (collect_children d (children s) c) (\<lambda>M. Inr (L @ M))) [p] ks = Inr ([p] @ L) \<and> distinct ([p] @ L) \<and>
    set L = (\<Union>c \<in> set ks. insert c (descends T c))"
    using ks(2) by (intro collect_fold sub) simp_all
  moreover have "(\<Union>c \<in> set ks. insert c (descends T c)) = descends T p" using ks(3) descends_split[of T p] by simp
  ultimately show ?case using ks(1) by simp
qed simp

section \<open>Exit\<close>

lemma reparent_local_all:
  "children s q = Some (Live kq) \<Longrightarrow>
   foldres (reparent_local q) s ks =
     Inr (s\<lparr>parents := (\<lambda>x. if x \<in> set ks then Some (Live q) else parents s x), children := (children s)(q \<mapsto> Live (kq @ ks))\<rparr>)"
proof (induction ks arbitrary: s kq)
  case Nil
  then show ?case by (simp add: map_upd_triv)
next
  case (Cons k ks)
  then show ?case by (simp add: reparent_local_def fun_eq_iff)
qed

lemma reparent_root_all:
  "children s root_name = Some (Live kr) \<Longrightarrow> root_name \<notin> set ds \<Longrightarrow>
   foldres reparent_root s ds =
     Inr (s\<lparr>parents := (\<lambda>x. if x \<in> set ds then Some (Live root_name) else parents s x),
           children := (\<lambda>x. if x \<in> set ds then Some (Live []) else children s x)(root_name \<mapsto> Live (kr @ ds))\<rparr>)"
proof (induction ds arbitrary: s kr)
  case Nil
  then show ?case by (simp add: map_upd_triv)
next
  case (Cons d ds)
  then show ?case by (auto simp: reparent_root_def fun_eq_iff)
qed

text \<open>What both forms of reparenting have to give: the lists of children of the new tree, except that the exiting process is still in
  its parent's list.\<close>

lemma do_exit_from:
  assumes f: "forest s T" and p: "T p = Some q"
    and rep: "reparent d local (s\<lparr>process_list := remove1 p (process_list s)\<rparr>) p q = Inr (s\<lparr>process_list := remove1 p (process_list s), children := ch, parents := pa\<rparr>)"
    and T': "T' p = None" "dom T' = dom T - {p}" "T' root_name = None" "\<And>x y. T' x = Some y \<Longrightarrow> y \<in> members T - {p}"
    and rk: "ranked T' r" and pa: "\<And>x y. T' x = Some y \<Longrightarrow> pa x = Some (Live y)"
    and ch: "\<And>y. y \<in> members T - {p} \<Longrightarrow> \<exists>ks. ch y = Some (Live ks) \<and> distinct ks \<and> set ks = {x. T' x = Some y} \<union> (if y = q then {p} else {})"
  shows "\<exists>s'. do_exit d local s p = Inr (p @ '' EXITS'', s') \<and> forest s' T'"
proof -
  note F = forestD[OF f]
  have pr: "p \<noteq> root_name" using p F(3) by auto
  have m: "members T' = members T - {p}" using T'(2) pr by (auto simp: members_def)
  have "q \<noteq> p" using p forest_ranked[OF f] unfolding ranked_def by (metis less_irrefl)
  then have q: "q \<in> members T - {p}" using F(4)[OF p] by simp
  from ch[OF q] obtain kq where kq: "ch q = Some (Live kq)" "distinct kq" "set kq = {x. T' x = Some q} \<union> {p}" by auto
  have pin: "p \<in> set (process_list s)" using F(2) F(6)[OF p] by simp
  define s' where "s' = s\<lparr>process_list := remove1 p (process_list s), children := ch(q \<mapsto> Live (remove1 p kq), p \<mapsto> Gone), parents := pa(p \<mapsto> Gone)\<rparr>"
  have "do_exit d local s p = Inr (p @ '' EXITS'', s')"
    using pr F(5)[OF p] pin rep kq by (simp add: do_exit_def s'_def)
  moreover have "forest s' T'"
  proof (rule forestI[OF _ _ T'(3) _ rk])
    show "set (process_list s') = members T'" using F(1,2) m by (simp add: s'_def)
    show "y \<in> members T'" if "T' x = Some y" for x y using T'(4)[OF that] m by simp
    show "parents s' x = Some (Live y)" if "T' x = Some y" for x y using pa[OF that] that T'(1) by (auto simp: s'_def)
    show "\<exists>ks. children s' y = Some (Live ks) \<and> distinct ks \<and> set ks = {x. T' x = Some y}" if "y \<in> members T'" for y
    proof (cases "y = q")
      case True
      then show ?thesis using kq T'(1) q by (auto simp: s'_def)
    next
      case False
      with ch[of y] that m show ?thesis by (auto simp: s'_def)
    qed
  qed (use F(1) in \<open>simp add: s'_def\<close>)
  ultimately show ?thesis by blast
qed

lemma do_exit_local:
  assumes f: "forest s T" and p: "T p = Some q"
  shows "\<exists>s'. do_exit d True s p = Inr (p @ '' EXITS'', s') \<and> forest s' (\<lambda>x. if x = p then None else if T x = Some p then T p else T x)"
proof -
  note F = forestD[OF f]
  obtain r where r: "ranked T r" using forest_ranked[OF f] .
  then have rk: "r y < r x" if "T x = Some y" for x y using that by (simp add: ranked_def)
  obtain kp where kp: "children s p = Some (Live kp)" "distinct kp" "set kp = {x. T x = Some p}" using forest_kids[OF f F(6)[OF p]] .
  obtain kq where kq: "children s q = Some (Live kq)" "distinct kq" "set kq = {x. T x = Some q}" using forest_kids[OF f F(4)[OF p]] .
  have qp: "q \<noteq> p" using rk[OF p] by auto
  show ?thesis
  proof (rule do_exit_from[OF f p])
    show "reparent d True (s\<lparr>process_list := remove1 p (process_list s)\<rparr>) p q = Inr (s\<lparr>process_list := remove1 p (process_list s),
        children := (children s)(q \<mapsto> Live (kq @ kp)), parents := (\<lambda>x. if x \<in> set kp then Some (Live q) else parents s x)\<rparr>)"
      using kp(1) kq(1) qp reparent_local_all[of "s\<lparr>process_list := remove1 p (process_list s)\<rparr>" q kq kp] by (simp add: reparent_def cong: if_cong)
    show "ranked (\<lambda>x. if x = p then None else if T x = Some p then T p else T x) r"
      using rk p by (auto simp: ranked_def split: if_splits intro: less_trans[OF rk[OF p]])
    show "\<exists>ks. ((children s)(q \<mapsto> Live (kq @ kp))) y = Some (Live ks) \<and> distinct ks \<and>
        set ks = {x. (if x = p then None else if T x = Some p then T p else T x) = Some y} \<union> (if y = q then {p} else {})" if y: "y \<in> members T - {p}" for y
    proof (cases "y = q")
      case True
      then show ?thesis using kp kq p qp by auto
    next
      case False
      from y obtain ky where "children s y = Some (Live ky)" "distinct ky" "set ky = {x. T x = Some y}" using forest_kids[OF f, of y] by auto
      with False y p show ?thesis by auto
    qed
  qed (use F p qp kp rk in \<open>auto simp: members_def split: if_splits\<close>)
qed

lemma do_exit_root:
  assumes f: "forest s T" and p: "T p = Some q" and d: "card (members T) \<le> d"
  shows "\<exists>s'. do_exit d False s p = Inr (p @ '' EXITS'', s') \<and> forest s' (\<lambda>x. if x = p then None else if x \<in> descends T p then Some root_name else T x)"
proof -
  note F = forestD[OF f]
  obtain r where r: "ranked T r" using forest_ranked[OF f] .
  then have rk: "r y < r x" if "T x = Some y" for x y using that by (simp add: ranked_def)
  let ?D = "descends T p"
  have pD: "p \<notin> ?D" using descends_rank[OF r, of p p] by auto
  have qD: "q \<notin> ?D" using descends_rank[OF r, of q p] rk[OF p] by auto
  have rD: "root_name \<notin> ?D" using descends_parent[of root_name T p] F(3) by auto
  have qp: "q \<noteq> p" and pr: "p \<noteq> root_name" using rk[OF p] F(3) p by auto
  have pm: "p \<in> members T" using F(6)[OF p] .
  have "above T r p < d" using above_less[OF forest_finite[OF f] pm] d by (rule less_le_trans)
  from collect_ok[OF f r pm this] obtain ds where ds: "collect_children d (children s) p = Inr (p # ds)" "distinct (p # ds)" "set ds = ?D" by blast
  obtain kr where kr: "children s root_name = Some (Live kr)" "distinct kr" "set kr = {x. T x = Some root_name}" using forest_kids[OF f members_root] .
  have krD: "x \<notin> ?D" if "T x = Some root_name" for x using that descends_iff[of T x root_name p] rD pr by auto
  show ?thesis
  proof (rule do_exit_from[OF f p])
    show "reparent d False (s\<lparr>process_list := remove1 p (process_list s)\<rparr>) p q = Inr (s\<lparr>process_list := remove1 p (process_list s),
        children := (\<lambda>x. if x \<in> set ds then Some (Live []) else children s x)(root_name \<mapsto> Live (kr @ ds)),
        parents := (\<lambda>x. if x \<in> set ds then Some (Live root_name) else parents s x)\<rparr>)"
      using ds kr(1) rD reparent_root_all[of "s\<lparr>process_list := remove1 p (process_list s)\<rparr>" kr ds] by (simp add: reparent_def cong: if_cong)
    show "ranked (\<lambda>x. if x = p then None else if x \<in> ?D then Some root_name else T x) (\<lambda>x. if x \<in> ?D then Suc (r root_name) else r x)"
      using rk rD descends_iff[of T _ _ p] by (auto simp: ranked_def split: if_splits)
    show "\<exists>ks. ((\<lambda>x. if x \<in> set ds then Some (Live []) else children s x)(root_name \<mapsto> Live (kr @ ds))) y = Some (Live ks) \<and> distinct ks \<and>
        set ks = {x. (if x = p then None else if x \<in> ?D then Some root_name else T x) = Some y} \<union> (if y = q then {p} else {})" if y: "y \<in> members T - {p}" for y
    proof -
      from y obtain ky where ky: "children s y = Some (Live ky)" "distinct ky" "set ky = {x. T x = Some y}" using forest_kids[OF f, of y] by auto
      consider "y = root_name" | "y \<in> ?D" "y \<noteq> root_name" | "y \<notin> ?D" "y \<noteq> root_name" by blast
      then show ?thesis
      proof cases
        case 1
        then show ?thesis using kr ds krD p pD by auto
      next
        case 2
        then have "x \<in> ?D" if "T x = Some y" for x using that descends_iff[of T x y p] by simp
        then show ?thesis using 2 ds(3) qD by auto
      next
        case 3
        then have "x \<notin> ?D" if "T x = Some y" for x using that descends_iff[of T x y p] y by simp
        then show ?thesis using 3 ds(3) ky p by auto
      qed
    qed
  qed (use F p qp pr pm rD ds descends_iff[of T _ _ p] descends_parent[of _ T p] in \<open>auto simp: members_def split: if_splits\<close>)
qed

section \<open>Drawing the tree\<close>

definition known_style :: "string \<Rightarrow> bool" where
  "known_style style \<longleftrightarrow> style = ''basic'' \<or> style_chars style \<noteq> None"

definition ends_with :: "string \<Rightarrow> string \<Rightarrow> bool" where
  "ends_with q line \<longleftrightarrow> (\<exists>pre. line = pre @ q)"

lemma ends_withI [intro]: "ends_with q (pre @ q)" "ends_with q (pre @ pre' @ q)" "ends_with q (pre @ pre' @ pre'' @ q)"
  unfolding ends_with_def by (metis append.assoc)+

lemma before_node_ok:
  assumes "{0..<level} \<subseteq> dom pmask"
  shows "\<exists>pre. before_node chars level pmask is_last = Inr pre"
proof -
  obtain bar dash tee corner where chars: "chars = (bar, dash, tee, corner)" by (cases chars) auto
  show ?thesis
  proof (cases "level > 0")
    case True
    let ?f = "\<lambda>out i. bnd (dict_get pmask i) (\<lambda>m. Inr (out @ (if m then bar @ ''   '' else ''    '')))"
    have "\<exists>t. foldres ?f [] [0..level - 2] = Inr t \<and> True"
    proof (rule foldres_total)
      fix out :: string and i assume "i \<in> set [0..level - 2]"
      then have "i \<in> {0..<level}" by simp
      with assms obtain m where "pmask i = Some m" by blast
      then show "\<exists>out'. ?f out i = Inr out' \<and> True" by simp
    qed simp
    then obtain out where out: "foldres ?f [] [0..level - 2] = Inr out" by blast
    have "level - 1 \<in> {0..<level}" using True by simp
    with assms obtain m where "pmask (level - 1) = Some m" by blast
    with out True chars show ?thesis by (simp add: before_node_def)
  qed (simp add: before_node_def chars)
qed

text \<open>The lines printed for the children, beside the names collected from them.\<close>

lemma walk_fold:
  assumes "\<And>c pm. c \<in> set cs \<Longrightarrow> P pm \<Longrightarrow> \<exists>o1 pm' M. w pm c = Inr (o1, pm') \<and> P pm' \<and> g c = Inr M \<and> list_all2 E M o1" and "P pm"
  shows "\<exists>o1 pm' M. foldres (\<lambda>(out, pm) c. bnd (w pm c) (\<lambda>(o1, pm). Inr (out @ o1, pm))) (out, pm) cs = Inr (out @ o1, pm') \<and> P pm' \<and>
    foldres (\<lambda>L c. bnd (g c) (\<lambda>M. Inr (L @ M))) L cs = Inr (L @ M) \<and> list_all2 E M o1"
  using assms
proof (induction cs arbitrary: out pm L)
  case (Cons c cs)
  obtain o1 pm' M where c: "w pm c = Inr (o1, pm')" "P pm'" "g c = Inr M" "list_all2 E M o1" using Cons.prems(1)[of c pm] Cons.prems(2) by auto
  have "\<exists>o2 pm2 N. foldres (\<lambda>(out, pm) c. bnd (w pm c) (\<lambda>(o1, pm). Inr (out @ o1, pm))) (out @ o1, pm') cs = Inr ((out @ o1) @ o2, pm2) \<and> P pm2 \<and>
    foldres (\<lambda>L c. bnd (g c) (\<lambda>M. Inr (L @ M))) (L @ M) cs = Inr ((L @ M) @ N) \<and> list_all2 E N o2"
    by (rule Cons.IH[OF _ c(2)]) (rule Cons.prems(1), simp_all)
  then obtain o2 pm2 N where "foldres (\<lambda>(out, pm) c. bnd (w pm c) (\<lambda>(o1, pm). Inr (out @ o1, pm))) (out @ o1, pm') cs = Inr ((out @ o1) @ o2, pm2)" "P pm2"
    "foldres (\<lambda>L c. bnd (g c) (\<lambda>M. Inr (L @ M))) (L @ M) cs = Inr ((L @ M) @ N)" "list_all2 E N o2" by blast
  then show ?case using c by (intro exI[of _ "o1 @ o2"] exI[of _ pm2] exI[of _ "M @ N"]) (simp add: list_all2_appendI)
qed simp

lemma walk_fold_basic:
  assumes "\<And>c. c \<in> set cs \<Longrightarrow> \<exists>o1 pm' M. w c = Inr (o1, pm') \<and> g c = Inr M \<and> list_all2 E M o1"
  shows "\<exists>o1 M. foldres (\<lambda>out c. bnd (w c) (\<lambda>(o1, _). Inr (out @ o1))) out cs = Inr (out @ o1) \<and>
    foldres (\<lambda>L c. bnd (g c) (\<lambda>M. Inr (L @ M))) L cs = Inr (L @ M) \<and> list_all2 E M o1"
  using assms
proof (induction cs arbitrary: out L)
  case (Cons c cs)
  obtain o1 pm' M where c: "w c = Inr (o1, pm')" "g c = Inr M" "list_all2 E M o1" using Cons.prems(1)[of c] by auto
  have "\<exists>o2 N. foldres (\<lambda>out c. bnd (w c) (\<lambda>(o1, _). Inr (out @ o1))) (out @ o1) cs = Inr ((out @ o1) @ o2) \<and>
    foldres (\<lambda>L c. bnd (g c) (\<lambda>M. Inr (L @ M))) (L @ M) cs = Inr ((L @ M) @ N) \<and> list_all2 E N o2"
    by (rule Cons.IH) (rule Cons.prems(1), simp)
  then obtain o2 N where "foldres (\<lambda>out c. bnd (w c) (\<lambda>(o1, _). Inr (out @ o1))) (out @ o1) cs = Inr ((out @ o1) @ o2)"
    "foldres (\<lambda>L c. bnd (g c) (\<lambda>M. Inr (L @ M))) (L @ M) cs = Inr ((L @ M) @ N)" "list_all2 E N o2" by blast
  then show ?case using c by (intro exI[of _ "o1 @ o2"] exI[of _ "M @ N"]) (simp add: list_all2_appendI)
qed simp

lemma walk_ok:
  assumes f: "forest s T" and r: "ranked T r" and style: "known_style style"
  shows "p \<in> members T \<Longrightarrow> above T r p < d \<Longrightarrow> 0 \<le> level \<Longrightarrow> style = ''basic'' \<or> {0..<level} \<subseteq> dom pmask \<Longrightarrow>
    \<exists>out pm L. walk d style (children s) p level pmask is_last = Inr (out, pm) \<and> (style = ''basic'' \<or> {0..<level} \<subseteq> dom pm) \<and>
      collect_children d (children s) p = Inr L \<and> list_all2 ends_with L out"
proof (induction d arbitrary: p level pmask is_last)
  case (Suc d)
  obtain ks where ks: "children s p = Some (Live ks)" "distinct ks" "set ks = {x. T x = Some p}" using forest_kids[OF f Suc.prems(1)] .
  have IH: "\<exists>out pm' L. walk d style (children s) c (level + 1) pm b = Inr (out, pm') \<and> (style = ''basic'' \<or> {0..<level + 1} \<subseteq> dom pm') \<and>
      collect_children d (children s) c = Inr L \<and> list_all2 ends_with L out"
    if "c \<in> set ks" "style = ''basic'' \<or> {0..<level + 1} \<subseteq> dom pm" for c pm b
  proof -
    have c: "T c = Some p" using that ks by simp
    have "above T r c < d" using above_child[OF forest_finite[OF f] r c] Suc.prems(2) by simp
    with Suc.IH[of c "level + 1" pm b] forestD(6)[OF f c] that(2) Suc.prems(3) show ?thesis by simp
  qed
  let ?g = "\<lambda>c. collect_children d (children s) c"
  show ?case
  proof (cases "style = ''basic''")
    case True
    let ?line = "margin @ concat (replicate (nat level) ''   '') @ (replicate (2 - length p) CHR '' '' @ p)"
    have "\<exists>o1 M. foldres (\<lambda>out c. bnd (walk d style (children s) c (level + 1) Map.empty False) (\<lambda>(o1, _). Inr (out @ o1))) [?line] ks = Inr ([?line] @ o1) \<and>
      foldres (\<lambda>L c. bnd (?g c) (\<lambda>M. Inr (L @ M))) [p] ks = Inr ([p] @ M) \<and> list_all2 ends_with M o1"
      by (rule walk_fold_basic) (use IH True in blast)
    moreover have "ends_with p ?line" unfolding ends_with_def by (metis append.assoc)
    ultimately show ?thesis using True ks(1) by auto
  next
    case False
    then obtain chars where chars: "style_chars style = Some chars" using style by (auto simp: known_style_def)
    have dm: "{0..<level} \<subseteq> dom pmask" using Suc.prems(4) False by simp
    from before_node_ok[OF this] obtain pre where pre: "before_node chars level pmask is_last = Inr pre" by blast
    define pm where "pm = (if is_last then pmask(level - 1 \<mapsto> False) else pmask)(level \<mapsto> True)"
    have "{0..<level + 1} = insert level {0..<level}" using Suc.prems(3) by auto
    then have dpm: "{0..<level + 1} \<subseteq> dom pm" using dm by (auto simp: pm_def)
    let ?step = "\<lambda>b. \<lambda>(out, pmask) c. bnd (walk d style (children s) c (level + 1) pmask b) (\<lambda>(o1, pmask). Inr (out @ o1, pmask))"
    let ?line = "margin @ pre @ p"
    let ?P = "\<lambda>pm. {0..<level + 1} \<subseteq> dom pm"
    have 1: "\<exists>o1 pm' M. foldres (?step False) ([?line], pm) (butlast ks) = Inr ([?line] @ o1, pm') \<and> ?P pm' \<and>
      foldres (\<lambda>L c. bnd (?g c) (\<lambda>M. Inr (L @ M))) [p] (butlast ks) = Inr ([p] @ M) \<and> list_all2 ends_with M o1"
      by (rule walk_fold[where P="?P" and w="\<lambda>pm c. walk d style (children s) c (level + 1) pm False", OF _ dpm]) (use IH False in \<open>meson in_set_butlastD\<close>)
    then obtain o1 pm1 M where o1: "foldres (?step False) ([?line], pm) (butlast ks) = Inr ([?line] @ o1, pm1)" "?P pm1"
      "foldres (\<lambda>L c. bnd (?g c) (\<lambda>M. Inr (L @ M))) [p] (butlast ks) = Inr ([p] @ M)" "list_all2 ends_with M o1" by blast
    let ?rest = "if ks = [] then [] else [last ks]"
    have "\<exists>o2 pm' N. foldres (?step True) ([?line] @ o1, pm1) ?rest = Inr (([?line] @ o1) @ o2, pm') \<and> ?P pm' \<and>
      foldres (\<lambda>L c. bnd (?g c) (\<lambda>M. Inr (L @ M))) ([p] @ M) ?rest = Inr (([p] @ M) @ N) \<and> list_all2 ends_with N o2"
      by (rule walk_fold[where P="?P" and w="\<lambda>pm c. walk d style (children s) c (level + 1) pm True", OF _ o1(2)]) (use IH False last_in_set[of ks] in \<open>auto split: if_splits\<close>)
    then obtain o2 pm2 N where o2: "foldres (?step True) ([?line] @ o1, pm1) ?rest = Inr (([?line] @ o1) @ o2, pm2)" "?P pm2"
      "foldres (\<lambda>L c. bnd (?g c) (\<lambda>M. Inr (L @ M))) ([p] @ M) ?rest = Inr (([p] @ M) @ N)" "list_all2 ends_with N o2" by blast
    have "walk (Suc d) style (children s) p level pmask is_last = Inr (([?line] @ o1) @ o2, pm2)"
      using False chars pre ks(1) o1(1) o2(1) by (simp add: pm_def Let_def)
    moreover have "collect_children (Suc d) (children s) p = Inr (([p] @ M) @ N)"
    proof -
      have "butlast ks @ ?rest = ks" by simp
      moreover have "foldres (\<lambda>L c. bnd (?g c) (\<lambda>M. Inr (L @ M))) [p] (butlast ks @ ?rest) = Inr (([p] @ M) @ N)"
        using o1(3) o2(3) by (simp only: foldres_append bnd_simps)
      ultimately have "foldres (\<lambda>L c. bnd (?g c) (\<lambda>M. Inr (L @ M))) [p] ks = Inr (([p] @ M) @ N)" by metis
      then show ?thesis using ks(1) by simp
    qed
    moreover have "list_all2 ends_with (([p] @ M) @ N) (([?line] @ o1) @ o2)" using o1(4) o2(4) by (auto intro!: list_all2_appendI)
    moreover have "{0..<level} \<subseteq> dom pm2" by (rule subset_trans[OF _ o2(2)]) auto
    ultimately show ?thesis by blast
  qed
qed simp

lemma print_tree_ok:
  assumes f: "forest s T" and style: "known_style (print_style opt)" and d: "card (members T) \<le> d"
  shows "\<exists>lines L. print_tree d opt s = Inr lines \<and> collect_children d (children s) root_name = Inr L \<and> list_all2 ends_with L lines \<and>
    distinct L \<and> set L = insert root_name (descends T root_name)"
proof -
  obtain r where r: "ranked T r" using forest_ranked[OF f] .
  have a: "above T r root_name < d" using above_less[OF forest_finite[OF f] members_root] d by (rule less_le_trans)
  from walk_ok[OF f r style members_root a, of 0 Map.empty False] obtain out pm L where
    "walk d (print_style opt) (children s) root_name 0 Map.empty False = Inr (out, pm)" "collect_children d (children s) root_name = Inr L" "list_all2 ends_with L out" by auto
  moreover from collect_ok[OF f r members_root a] obtain M where "collect_children d (children s) root_name = Inr (root_name # M)"
    "distinct (root_name # M)" "set M = descends T root_name" by blast
  ultimately show ?thesis by (auto simp: print_tree_def)
qed

text \<open>Every process descends from the root.\<close>

lemma members_descend:
  assumes f: "forest s T"
  shows "insert root_name (descends T root_name) = members T"
proof -
  obtain r where r: "ranked T r" using forest_ranked[OF f] .
  have "x = root_name \<or> x \<in> descends T root_name" if "x \<in> members T" for x
    using that
  proof (induction "r x" arbitrary: x rule: less_induct)
    case less
    show ?case
    proof (cases "T x")
      case None
      then show ?thesis using less.prems by (auto simp: members_def)
    next
      case (Some y)
      then have "r y < r x" "y \<in> members T" using r forestD(4)[OF f] by (auto simp: ranked_def)
      then have "y = root_name \<or> y \<in> descends T root_name" using less.hyps by blast
      then show ?thesis using descends_iff[of T x y root_name] Some by simp
    qed
  qed
  then show ?thesis using descends_parent[of _ T root_name] by (auto simp: members_def)
qed

section \<open>Runs\<close>

text \<open>Names that an action text can carry, and the actions that make sense at a tree. The depth of the recursions bounds the number of processes.\<close>

definition plain :: "string \<Rightarrow> bool" where
  "plain x \<longleftrightarrow> CHR ''+'' \<notin> set x \<and> CHR ''-'' \<notin> set x \<and> CHR '','' \<notin> set x"

fun legal_action :: "nat \<Rightarrow> ptree \<Rightarrow> action \<Rightarrow> bool" where
  "legal_action depth T (Forks p c) \<longleftrightarrow> plain p \<and> plain c \<and> p \<in> members T \<and> c \<notin> members T \<and> card (members T) < depth"
| "legal_action depth T (Exits p) \<longleftrightarrow> plain p \<and> p \<in> dom T"

definition run_one :: "nat \<Rightarrow> fork_opts \<Rightarrow> forker \<times> string list \<Rightarrow> action \<Rightarrow> (forker \<times> string list) res" where
  "run_one depth opt = (\<lambda>(s, out) e.
     bnd (run_action depth opt s (show_action e)) (\<lambda>(msg, s). bnd (report depth opt msg s) (\<lambda>o1. Inr (s, out @ o1))))"

definition shows_forest :: "nat \<Rightarrow> fork_opts \<Rightarrow> forker \<times> string list \<Rightarrow> ptree \<Rightarrow> bool" where
  "shows_forest depth opt = (\<lambda>(s, out) T. known_style (print_style opt) \<and> forest s T \<and> card (members T) \<le> depth)"

lemma check_legal_show:
  "plain p \<Longrightarrow> plain c \<Longrightarrow> check_legal (p @ ''+'' @ c) = Inr [p, c]" "plain p \<Longrightarrow> check_legal (p @ ''-'') = Inr [p]"
  by (simp_all add: check_legal_def plain_def py_simps)

lemma members_exit:
  assumes "p \<in> dom T" "p \<noteq> root_name"
  shows "members (tree_step opt T (Exits p)) = (if leaf_only opt \<and> p \<in> ran T then members T else members T - {p})"
proof -
  have "dom (\<lambda>x. if x = p then None else if T x = Some p then T p else T x) = dom T - {p}" using assms(1) by (auto split: if_splits)
  moreover have "dom (\<lambda>x. if x = p then None else if x \<in> descends T p then Some root_name else T x) = dom T - {p}"
    using descends_parent[of _ T p] by (auto split: if_splits)
  ultimately show ?thesis using assms(2) by (auto simp: members_def)
qed

lemma run_action_ok:
  assumes f: "forest s T" and d: "card (members T) \<le> depth" and e: "legal_action depth T e"
  shows "\<exists>msg s'. run_action depth opt s (show_action e) = Inr (msg, s') \<and> forest s' (tree_step opt T e) \<and> card (members (tree_step opt T e)) \<le> depth"
proof (cases e)
  case (Forks p c)
  then have l: "plain p" "plain c" "p \<in> members T" "c \<notin> members T" "card (members T) < depth" using e by simp_all
  from do_fork_ok[OF f l(3,4)] obtain s' where s': "do_fork s p c = Inr (p @ '' forks '' @ c, s')" "forest s' (T(c \<mapsto> p))" by blast
  have "run_action depth opt s (show_action e) = do_fork s p c" using check_legal_show(1)[OF l(1,2)] l(3) forestD(2)[OF f] by (simp add: Forks run_action_def)
  moreover have "members (T(c \<mapsto> p)) = insert c (members T)" by (auto simp: members_def)
  then have "card (members (T(c \<mapsto> p))) \<le> depth" using l(4,5) forest_finite[OF f] by simp
  ultimately show ?thesis using s' Forks by simp
next
  case (Exits p)
  then have l: "plain p" and pd: "p \<in> dom T" using e by simp_all
  then obtain q where q: "T p = Some q" by blast
  have pr: "p \<noteq> root_name" using q forestD(3)[OF f] by auto
  obtain ks where ks: "children s p = Some (Live ks)" "set ks = {x. T x = Some p}" using forest_kids[OF f forestD(6)[OF f q]] .
  have busy: "ks = [] \<longleftrightarrow> p \<notin> ran T" using ks(2) by (auto simp: ran_def)
  have pl: "p \<in> set (process_list s)" using forestD(2)[OF f] forestD(6)[OF f q] by simp
  let ?T = "tree_step opt T (Exits p)"
  have "members ?T \<subseteq> members T" unfolding members_exit[OF pd pr] by simp
  then have "card (members ?T) \<le> depth" using card_mono[OF forest_finite[OF f]] d by (meson le_trans)
  moreover have "\<exists>msg s'. run_action depth opt s (p @ ''-'') = Inr (msg, s') \<and> forest s' ?T"
  proof (cases "leaf_only opt \<and> p \<in> ran T")
    case True
    then show ?thesis using check_legal_show(2)[OF l] pl ks(1) busy f by (auto simp: run_action_def Let_def)
  next
    case False
    then have "run_action depth opt s (p @ ''-'') = do_exit depth (local_reparent opt) s p"
      using check_legal_show(2)[OF l] pl ks(1) busy by (auto simp: run_action_def Let_def)
    then show ?thesis using do_exit_local[OF f q, of depth] do_exit_root[OF f q d] False by (cases "local_reparent opt") auto
  qed
  ultimately show ?thesis using Exits by simp
qed

lemma report_ok:
  assumes "forest s T" "known_style (print_style opt)" "card (members T) \<le> depth"
  shows "\<exists>o1. report depth opt msg s = Inr o1" "\<exists>o1. report_final depth opt s = Inr o1"
  using print_tree_ok[OF assms] by (auto simp: report_def report_final_def)

interpretation fk: refined_machine "shows_forest depth opt" "legal_action depth" "run_one depth opt" "tree_step opt" for depth opt
proof
  fix so T e assume "shows_forest depth opt so T" and e: "legal_action depth T e"
  then obtain s out where s: "so = (s, out)" "known_style (print_style opt)" "forest s T" "card (members T) \<le> depth"
    by (auto simp: shows_forest_def)
  from run_action_ok[OF s(3,4) e] obtain msg s' where s': "run_action depth opt s (show_action e) = Inr (msg, s')" "forest s' (tree_step opt T e)"
    "card (members (tree_step opt T e)) \<le> depth" by blast
  from report_ok(1)[OF s'(2) s(2) s'(3)] obtain o1 where "report depth opt msg s' = Inr o1" by blast
  then show "\<exists>so'. run_one depth opt so e = Inr so' \<and> shows_forest depth opt so' (tree_step opt T e)"
    using s s' by (intro exI[of _ "(s', out @ o1)"]) (simp add: run_one_def shows_forest_def)
qed

lemma run_actions_eq: "run_actions depth opt s (map show_action acts) = foldres (run_one depth opt) (s, []) acts"
proof -
  have "foldres f x (map show_action acts) = foldres (\<lambda>x e. f x (show_action e)) x acts" for f :: "forker \<times> string list \<Rightarrow> string \<Rightarrow> (forker \<times> string list) res" and x
    by (induction acts arbitrary: x) (auto simp: bnd_def split: sum.splits)
  then show ?thesis by (simp add: run_actions_def run_one_def case_prod_unfold)
qed

lemma init_forest: "forest forker_init Map.empty"
  by (rule forestI[where r="\<lambda>_. 0"]) (auto simp: forker_init_def members_def ranked_def)

text \<open>A run over legal actions: the common part of the two ways to give them.\<close>

lemma run_legal:
  assumes style: "known_style (print_style opt)" and d: "0 < depth" and legal: "legal_run (legal_action depth) (tree_step opt) Map.empty acts"
  shows "\<exists>t0 s out t1. print_tree depth opt forker_init = Inr t0 \<and> run_actions depth opt forker_init (map show_action acts) = Inr (s, out) \<and>
    report_final depth opt s = Inr t1 \<and> forest s (foldl (tree_step opt) Map.empty acts) \<and> card (members (foldl (tree_step opt) Map.empty acts)) \<le> depth"
proof -
  have c: "card (members Map.empty) \<le> depth" using d by (simp add: members_def)
  then have "shows_forest depth opt (forker_init, []) Map.empty" using style init_forest by (simp add: shows_forest_def)
  from fk.run_refines[OF this legal] obtain s out where
    "foldres (run_one depth opt) (forker_init, []) acts = Inr (s, out)" "shows_forest depth opt (s, out) (foldl (tree_step opt) Map.empty acts)" by auto
  then have "run_actions depth opt forker_init (map show_action acts) = Inr (s, out)" "forest s (foldl (tree_step opt) Map.empty acts)"
    "card (members (foldl (tree_step opt) Map.empty acts)) \<le> depth" by (auto simp: run_actions_eq shows_forest_def)
  moreover obtain t0 where "print_tree depth opt forker_init = Inr t0" using print_tree_ok[OF init_forest style c] by blast
  moreover obtain t1 where "report_final depth opt s = Inr t1" using report_ok(2)[OF calculation(2) style calculation(3)] by blast
  ultimately show ?thesis by simp
qed

section \<open>Random actions\<close>

text \<open>The names given out so far: all the shorter ones, and those before the index.\<close>

definition names_ok :: "namer \<Rightarrow> string set \<Rightarrow> bool" where
  "names_ok n U \<longleftrightarrow> distinct (curr_names n) \<and> curr_names n \<noteq> [] \<and> curr_index n \<le> length (curr_names n) \<and>
     (\<exists>m. (\<forall>x \<in> set (curr_names n). length x = m \<and> set x \<subseteq> set base_names) \<and>
          (\<forall>u \<in> U. length u < m \<or> u \<in> set (take (curr_index n) (curr_names n))))"

lemma base_names_facts: "distinct base_names" "base_names \<noteq> []" "CHR ''+'' \<notin> set base_names" "CHR ''-'' \<notin> set base_names" "CHR '','' \<notin> set base_names"
  by (simp_all add: base_names_def)

lemma plain_letters: "set x \<subseteq> set base_names \<Longrightarrow> plain x"
  using base_names_facts by (auto simp: plain_def)

lemma distinct_grown: "distinct ns \<Longrightarrow> distinct (concat (map (\<lambda>b1. map (\<lambda>b2. b1 @ [b2]) base_names) ns))"
  by (induction ns) (auto simp: distinct_map inj_on_def base_names_facts)

lemma grow_names_ok:
  assumes n: "names_ok n U" and i: "curr_index n = length (curr_names n)"
  shows "names_ok (grow_names n) U \<and> curr_index (grow_names n) < length (curr_names (grow_names n))"
proof -
  obtain m where m: "\<forall>x \<in> set (curr_names n). length x = m \<and> set x \<subseteq> set base_names" "\<forall>u \<in> U. length u < m \<or> u \<in> set (take (curr_index n) (curr_names n))"
    and d: "distinct (curr_names n)" "curr_names n \<noteq> []" using n unfolding names_ok_def by blast
  have ne: "curr_names (grow_names n) \<noteq> []" using d(2) base_names_facts(2) by (cases "curr_names n") (auto simp: grow_names_def)
  have "\<forall>x \<in> set (curr_names (grow_names n)). length x = Suc m \<and> set x \<subseteq> set base_names" using m(1) by (auto simp: grow_names_def)
  moreover have "\<forall>u \<in> U. length u < Suc m" using m i by (auto simp: less_Suc_eq)
  moreover have "distinct (curr_names (grow_names n))" using distinct_grown[OF d(1)] by (simp add: grow_names_def)
  ultimately show ?thesis using ne unfolding names_ok_def by (auto simp: grow_names_def)
qed

lemma fresh_name:
  assumes n: "names_ok n U" and i: "curr_index n < length (curr_names n)"
  shows "curr_names n ! curr_index n \<notin> U \<and> plain (curr_names n ! curr_index n) \<and>
    names_ok (n\<lparr>curr_index := curr_index n + 1\<rparr>) (insert (curr_names n ! curr_index n) U)"
proof -
  let ?x = "curr_names n ! curr_index n"
  obtain m where m: "\<forall>x \<in> set (curr_names n). length x = m \<and> set x \<subseteq> set base_names" "\<forall>u \<in> U. length u < m \<or> u \<in> set (take (curr_index n) (curr_names n))"
    and d: "distinct (curr_names n)" "curr_names n \<noteq> []" using n unfolding names_ok_def by blast
  have x: "?x \<in> set (curr_names n)" using i by simp
  have eq: "take (Suc (curr_index n)) (curr_names n) = take (curr_index n) (curr_names n) @ [?x]" using i by (rule take_Suc_conv_app_nth)
  then have "distinct (take (curr_index n) (curr_names n) @ [?x])" using d(1) distinct_take[of "curr_names n" "Suc (curr_index n)"] by simp
  then have "?x \<notin> set (take (curr_index n) (curr_names n))" by simp
  then have "?x \<notin> U" using m x by force
  moreover have "\<forall>u \<in> insert ?x U. length u < m \<or> u \<in> set (take (Suc (curr_index n)) (curr_names n))" using m(2) eq by auto
  then have "names_ok (n\<lparr>curr_index := curr_index n + 1\<rparr>) (insert ?x U)" using m(1) d i unfolding names_ok_def by (auto simp: Suc_le_eq)
  ultimately show ?thesis using plain_letters[of ?x] m(1) x by simp
qed

lemma get_name_ok:
  assumes "names_ok n U" and "get_name n = (c, n')"
  shows "c \<notin> U \<and> plain c \<and> names_ok n' (insert c U)"
proof (cases "curr_index n = length (curr_names n)")
  case True
  then show ?thesis using fresh_name[of "grow_names n" U] grow_names_ok[OF assms(1) True] assms(2) by (auto simp: get_name_def Let_def)
next
  case False
  then have "curr_index n < length (curr_names n)" using assms(1) by (auto simp: names_ok_def)
  then show ?thesis using fresh_name[OF assms(1)] assms(2) False by (auto simp: get_name_def Let_def)
qed

lemma names_ok_mono: "names_ok n U \<Longrightarrow> V \<subseteq> U \<Longrightarrow> names_ok n V"
  unfolding names_ok_def by blast

text \<open>The rounds of a sequence of draws that fork.\<close>

fun forks :: "rat \<Rightarrow> int list \<Rightarrow> nat" where
  "forks pct (coin # k # draws) = (if of_int coin < pct * 2 ^ 53 then 1 else 0) + forks pct draws"
| "forks pct _ = 0"

lemma random_choice_ok: "drawn k \<Longrightarrow> L \<noteq> [] \<Longrightarrow> \<exists>x \<in> set L. random_choice k L = Inr x"
  using scaled_range[of k "int (length L)"] by (auto simp: random_choice_def)

text \<open>The actions drawn are legal when they are carried out.\<close>

lemma random_actions_ok:
  assumes "names_ok n U" "members T \<subseteq> U" "T root_name = None" "distinct temp" "root_name \<in> set temp" "set temp \<subseteq> members T" "\<forall>x \<in> set temp. plain x" "\<forall>k \<in> set draws. drawn k"
    "finite (members T)" "card (members T) + nat todo \<le> depth"
  shows "(random_actions pct todo draws n temp = Inl NoReturn \<and> forks pct draws < nat todo) \<or>
    (\<exists>acts. random_actions pct todo draws n temp = Inr (map show_action acts) \<and> legal_run (legal_action depth) (tree_step opt) T acts \<and> length acts = nat todo)"
  using assms
proof (induction pct todo draws n temp arbitrary: T U rule: random_actions.induct)
  case (1 pct todo draws n temp)
  show ?case
  proof (cases "0 < todo \<and> length draws \<ge> 2")
    case False
    then show ?thesis by (auto simp: random_actions.simps[of pct todo] neq_Nil_conv Suc_le_length_iff split: list.splits)
  next
    case True
    then obtain coin k draws' where dr: "draws = coin # k # draws'" by (cases draws; cases "tl draws") auto
    from True have todo: "\<not> todo \<le> 0" "nat todo = Suc (nat (todo - 1))" by auto
    have "drawn k" "temp \<noteq> []" using "1.prems"(5,8) dr by auto
    then obtain p where p: "p \<in> set temp" "random_choice k temp = Inr p" using random_choice_ok by blast
    have pm: "p \<in> members T" "plain p" using p(1) "1.prems"(6,7) by auto
    show ?thesis
    proof (cases "of_int coin < pct * 2 ^ 53")
      case fork: True
      obtain c n' where c: "get_name n = (c, n')" by fastforce
      from get_name_ok[OF "1.prems"(1) c] have c': "c \<notin> U" "plain c" "names_ok n' (insert c U)" by auto
      have "c \<notin> members T" using c'(1) "1.prems"(2) by blast
      define T' where "T' = T(c \<mapsto> p)"
      have m: "members T' = insert c (members T)" by (auto simp: T'_def members_def)
      have "(random_actions pct (todo - 1) draws' n' (temp @ [c]) = Inl NoReturn \<and> forks pct draws' < nat (todo - 1)) \<or>
        (\<exists>acts. random_actions pct (todo - 1) draws' n' (temp @ [c]) = Inr (map show_action acts) \<and> legal_run (legal_action depth) (tree_step opt) T' acts \<and> length acts = nat (todo - 1))"
      proof (rule "1.IH"(1)[OF todo(1) dr HOL.refl fork c[symmetric] c'(3)])
        show "card (members T') + nat (todo - 1) \<le> depth" using "1.prems"(9,10) todo(2) \<open>c \<notin> members T\<close> m by simp
        show "T' root_name = None" using "1.prems"(3) \<open>c \<notin> members T\<close> by (auto simp: T'_def members_def)
      qed (use "1.prems" m \<open>c \<notin> members T\<close> c' dr in auto)
      moreover have "random_actions pct todo draws n temp = bnd (random_actions pct (todo - 1) draws' n' (temp @ [c])) (\<lambda>acts. Inr ((p @ ''+'' @ c) # acts))"
        using todo(1) dr p(2) fork c by (simp add: random_actions.simps[of pct todo])
      moreover have "legal_action depth T (Forks p c)" using pm c'(2) \<open>c \<notin> members T\<close> "1.prems"(10) todo(2) by simp
      ultimately show ?thesis using dr fork todo(2)
        by (elim disjE exE) (simp, intro disjI2, rule_tac x="Forks p c # acts" in exI, simp add: T'_def)
    next
      case exit: False
      show ?thesis
      proof (cases "p = root_name")
        case True
        have "random_actions pct todo draws n temp = random_actions pct todo draws' n temp"
          using todo(1) p(2) exit True unfolding dr random_actions.simps[of pct todo "coin # k # draws'"] by simp
        moreover have "forks pct draws = forks pct draws'" using dr exit by simp
        moreover have "(random_actions pct todo draws' n temp = Inl NoReturn \<and> forks pct draws' < nat todo) \<or>
          (\<exists>acts. random_actions pct todo draws' n temp = Inr (map show_action acts) \<and> legal_run (legal_action depth) (tree_step opt) T acts \<and> length acts = nat todo)"
          by (rule "1.IH"(2)[OF todo(1) dr HOL.refl exit True]) (use "1.prems" dr in auto)
        ultimately show ?thesis by simp
      next
        case np: False
        let ?T = "tree_step opt T (Exits p)"
        have pd: "p \<in> dom T" using pm(1) np by (simp add: members_def)
        have sub: "members T - {p} \<subseteq> members ?T" "members ?T \<subseteq> members T" unfolding members_exit[OF pd np] by auto
        have "root_name \<notin> descends T p" using descends_parent[of root_name T p] "1.prems"(3) by auto
        then have rn: "?T root_name = None" using "1.prems"(3) np by auto
        have "(random_actions pct (todo - 1) draws' n (remove1 p temp) = Inl NoReturn \<and> forks pct draws' < nat (todo - 1)) \<or>
          (\<exists>acts. random_actions pct (todo - 1) draws' n (remove1 p temp) = Inr (map show_action acts) \<and> legal_run (legal_action depth) (tree_step opt) ?T acts \<and> length acts = nat (todo - 1))"
        proof (rule "1.IH"(3)[OF todo(1) dr HOL.refl exit np "1.prems"(1)])
          show "card (members ?T) + nat (todo - 1) \<le> depth" using "1.prems"(10) todo(2) card_mono[OF "1.prems"(9) sub(2)] by simp
          show "finite (members ?T)" using finite_subset[OF sub(2) "1.prems"(9)] .
          show "set (remove1 p temp) \<subseteq> members ?T" using sub(1) "1.prems"(4,6) by auto
        qed (use "1.prems" rn sub np dr in auto)
        moreover have "random_actions pct todo draws n temp = bnd (random_actions pct (todo - 1) draws' n (remove1 p temp)) (\<lambda>acts. Inr ((p @ ''-'') # acts))"
          using todo(1) dr p(2) exit np by (simp add: random_actions.simps[of pct todo])
        moreover have "legal_action depth T (Exits p)" using pm(2) pd by simp
        ultimately show ?thesis using dr exit todo(2)
          by (elim disjE exE) (simp, intro disjI2, rule_tac x="Exits p # acts" in exI, simp)
      qed
    qed
  qed
qed

lemma names_init_ok: "names_ok namer_init {root_name}"
proof -
  have "distinct (curr_names namer_init)" by (simp add: namer_init_def distinct_map inj_on_def base_names_facts)
  moreover have "\<forall>x \<in> set (curr_names namer_init). length x = 1 \<and> set x \<subseteq> set base_names" by (auto simp: namer_init_def)
  moreover have "root_name \<in> set (take (curr_index namer_init) (curr_names namer_init))" "curr_names namer_init \<noteq> []" "curr_index namer_init \<le> length (curr_names namer_init)"
    by (simp_all add: namer_init_def base_names_def root_name_def)
  ultimately show ?thesis unfolding names_ok_def by blast
qed

lemma action_text_sep: "plain p \<Longrightarrow> plain c \<Longrightarrow> CHR '','' \<notin> set (show_action (Forks p c))" "plain p \<Longrightarrow> CHR '','' \<notin> set (show_action (Exits p))"
  by (auto simp: plain_def)

lemma legal_texts: "legal_run (legal_action depth) (tree_step opt) T acts \<Longrightarrow> \<forall>t \<in> set (map show_action acts). CHR '','' \<notin> set t \<and> t \<noteq> []"
proof (induction acts arbitrary: T)
  case (Cons a acts)
  then show ?case by (cases a) (use action_text_sep in auto)
qed simp

lemma legal_deeper: "legal_run (legal_action d) (tree_step opt) T acts \<Longrightarrow> d \<le> d' \<Longrightarrow> legal_run (legal_action d') (tree_step opt) T acts"
proof (induction acts arbitrary: T)
  case (Cons a acts)
  then show ?case by (cases a) auto
qed simp

section \<open>Properties\<close>

text \<open>C15. Process trees. A list of actions that fork only from live processes, to names not in use, and let only live processes other than the
  root exit, is carried out to its end with no error, and the dictionaries then represent the tree of the specification: a fork adds a
  leaf, an exit gives the orphans to the exiting process's parent (or, in the other mode, all descendants to the root), and a process with
  children does not exit when only leaves may. The recursion depth has only to reach the number of processes.\<close>

theorem fork_tree:
  assumes "known_style (print_style opt)" "0 < depth" "acts \<noteq> []" "legal_run (legal_action depth) (tree_step opt) Map.empty acts"
  shows "\<exists>s out. fork_run depth opt pct n (join_with CHR '','' (map show_action acts)) draws = Inr (s, out) \<and> forest s (foldl (tree_step opt) Map.empty acts)"
proof -
  let ?ts = "map show_action acts"
  have t: "\<forall>t \<in> set ?ts. CHR '','' \<notin> set t \<and> t \<noteq> []" using legal_texts[OF assms(4)] .
  then have sp: "split_on CHR '','' (join_with CHR '','' ?ts) = ?ts" using assms(3) by (intro split_join) auto
  have "join_with CHR '','' ?ts \<noteq> []"
  proof
    assume "join_with CHR '','' ?ts = []"
    with sp have "?ts = [[]]" by simp
    with t show False by simp
  qed
  with run_legal[OF assms(1,2,4)] sp show ?thesis by (auto simp: fork_run_def)
qed

text \<open>C26. Random actions. For every sequence of random numbers the generated actions are legal: the run either needs more random numbers,
  in which case fewer rounds than actions asked for have forked, or it carries out all the actions with no error and ends in a tree of at most one process more than
  the number of actions. Enough forking rounds therefore always give a complete run.\<close>

theorem fork_random:
  assumes "known_style (print_style opt)" "nat n < depth" "\<forall>k \<in> set draws. drawn k"
  shows "(fork_run depth opt pct n [] draws = Inl NoReturn \<and> forks pct draws < nat n) \<or>
    (\<exists>s out acts. fork_run depth opt pct n [] draws = Inr (s, out) \<and> length acts = nat n \<and> legal_run (legal_action depth) (tree_step opt) Map.empty acts \<and>
      forest s (foldl (tree_step opt) Map.empty acts) \<and> length (process_list s) \<le> Suc (nat n))"
proof -
  have c: "members Map.empty = {root_name}" by (simp add: members_def)
  have d: "0 < depth" "card (members Map.empty) \<le> depth" using assms(2) c by auto
  from random_actions_ok[OF names_init_ok, where temp="[root_name]" and T=Map.empty and todo=n and depth="Suc (nat n)" and opt=opt and pct=pct, OF _ _ _ _ _ _ assms(3)]
  consider "random_actions pct n draws namer_init [root_name] = Inl NoReturn" "forks pct draws < nat n"
    | acts where "random_actions pct n draws namer_init [root_name] = Inr (map show_action acts)" "legal_run (legal_action (Suc (nat n))) (tree_step opt) Map.empty acts" "length acts = nat n"
    using c by (fastforce simp: plain_def root_name_def)
  then show ?thesis
  proof cases
    case 1
    obtain t0 where "print_tree depth opt forker_init = Inr t0" using print_tree_ok[OF init_forest assms(1) d(2)] by blast
    with 1 show ?thesis by (simp add: fork_run_def)
  next
    case 2
    have legal: "legal_run (legal_action depth) (tree_step opt) Map.empty acts" using legal_deeper[OF 2(2)] assms(2) by simp
    from run_legal[OF assms(1) d(1) legal] obtain t0 s out t1 where "print_tree depth opt forker_init = Inr t0"
      "run_actions depth opt forker_init (map show_action acts) = Inr (s, out)" "report_final depth opt s = Inr t1"
      and f: "forest s (foldl (tree_step opt) Map.empty acts)" by blast
    then have "fork_run depth opt pct n [] draws = Inr (s, ''                           Process Tree:'' # t0 @ [[]] @ out @ t1)" using 2(1) by (simp add: fork_run_def)
    moreover have "card (members (foldl (tree_step opt) Map.empty acts)) \<le> Suc (nat n)" using run_legal[OF assms(1) _ 2(2)] by blast
    ultimately show ?thesis using 2(3) legal f members_card[OF f] by auto
  qed
qed

text \<open>Drawing. In a state that represents a tree every style prints one line per process, each process exactly once and the root first.\<close>

theorem fork_print:
  assumes "forest s T" "known_style (print_style opt)" "length (process_list s) \<le> depth"
  shows "\<exists>lines L. print_tree depth opt s = Inr lines \<and> list_all2 ends_with L lines \<and> distinct L \<and> set L = set (process_list s) \<and> hd L = root_name"
proof -
  have d: "card (members T) \<le> depth" using assms(3) members_card[OF assms(1)] by simp
  obtain lines L where p: "print_tree depth opt s = Inr lines" "collect_children depth (children s) root_name = Inr L" "list_all2 ends_with L lines"
    "distinct L" "set L = insert root_name (descends T root_name)" using print_tree_ok[OF assms(1,2) d] by blast
  obtain r where r: "ranked T r" using forest_ranked[OF assms(1)] .
  have "above T r root_name < depth" using above_less[OF forest_finite[OF assms(1)] members_root] d by (rule less_le_trans)
  from collect_ok[OF assms(1) r members_root this] p(2) have "hd L = root_name" by auto
  with p show ?thesis using members_descend[OF assms(1)] forestD(2)[OF assms(1)] by auto
qed

definition sample_opts :: fork_opts where
  "sample_opts = \<lparr>local_reparent = False, leaf_only = False, print_style = ''line1'', show_tree = False, just_final = False, solve = True\<rparr>"

definition sample_acts :: "action list" where
  "sample_acts = [Forks ''a'' ''b'', Forks ''b'' ''c'', Exits ''b'']"

lemma known_sample: "known_style (print_style sample_opts)"
  by (simp add: known_style_def style_chars_def sample_opts_def)

lemma sample_legal: "legal_run (legal_action 10) (tree_step sample_opts) Map.empty sample_acts"
  by (simp add: sample_acts_def sample_opts_def plain_def members_def root_name_def card_insert_if)

theorem fork_tree_witness:
  "\<exists>s out. fork_run 10 sample_opts (7 / 10) 5 ''a+b,b+c,b-'' [] = Inr (s, out) \<and> forest s (foldl (tree_step sample_opts) Map.empty sample_acts)"
  using fork_tree[of sample_opts 10 sample_acts "7 / 10" 5 "[]", OF known_sample _ _ sample_legal] by (simp add: sample_acts_def)

theorem fork_random_witness:
  "\<exists>s out acts. fork_run 10 sample_opts (7 / 10) 2 [] [0, 5, 0, 2 ^ 52] = Inr (s, out) \<and> length acts = 2 \<and> legal_run (legal_action 10) (tree_step sample_opts) Map.empty acts \<and>
    forest s (foldl (tree_step sample_opts) Map.empty acts) \<and> length (process_list s) \<le> 3"
  using fork_random[of sample_opts 2 10 "[0, 5, 0, 2 ^ 52]" "7 / 10", OF known_sample] by simp

theorem fork_print_witness:
  "\<exists>lines L. print_tree 10 sample_opts forker_init = Inr lines \<and> list_all2 ends_with L lines \<and> distinct L \<and> set L = set (process_list forker_init) \<and> hd L = root_name"
  by (rule fork_print[OF init_forest known_sample]) (simp add: forker_init_def)

text \<open>A name that is in use is not refused: after \<^verbatim>\<open>a+b,a+b,b-\<close> the process is still among the root's children, but its own list is gone, and
  drawing the tree stops with an error. A process that forks itself makes the drawing go on without end.\<close>

lemma fork_duplicate_name:
  "(case fork_run 10 sample_opts (7 / 10) 5 ''a+b,a+b,b-'' [] of Inl e \<Rightarrow> Some e | Inr _ \<Rightarrow> None) = Some TypeError"
  "(case fork_run 10 sample_opts (7 / 10) 5 ''a+a'' [] of Inl e \<Rightarrow> Some e | Inr _ \<Rightarrow> None) = Some NoReturn"
  by code_simp+

end
