(* ===== verification/Scheduler.thy ===== *)
theory Scheduler
  imports Machines Complex_Main
begin

text \<open>
  The batch scheduler of \<^verbatim>\<open>ostep/homework/cpu-sched/scheduler.py\<close>: the job list (random or given), first-in-first-out, shortest job first
  and round robin, with the trace and the statistics they print. Times are Python floats; the model takes their sums exactly.
\<close>

section \<open>Model\<close>

type_synonym job = "nat \<times> rat"

fun random_jobs :: "int \<Rightarrow> nat \<Rightarrow> nat \<Rightarrow> int list \<Rightarrow> job list res" where
  "random_jobs maxlen jobnum 0 draws = Inr []"
| "random_jobs maxlen jobnum (Suc n) [] = Inl NoReturn"
| "random_jobs maxlen jobnum (Suc n) (k # draws) =
     bnd (random_jobs maxlen (Suc jobnum) n draws) (\<lambda>js. Inr ((jobnum, of_int (int_scaled k maxlen + 1)) # js))"

text \<open>\<open>float_of\<close> is the conversion \<^verbatim>\<open>float(s)\<close>.\<close>

fun given_jobs :: "(string \<Rightarrow> rat res) \<Rightarrow> nat \<Rightarrow> string list \<Rightarrow> job list res" where
  "given_jobs float_of jobnum [] = Inr []"
| "given_jobs float_of jobnum (x # xs) =
     bnd (float_of x) (\<lambda>runtime. bnd (given_jobs float_of (Suc jobnum) xs) (\<lambda>js. Inr ((jobnum, runtime) # js)))"

definition make_jobs :: "(string \<Rightarrow> rat res) \<Rightarrow> string \<Rightarrow> int \<Rightarrow> int \<Rightarrow> int list \<Rightarrow> job list res" where
  "make_jobs float_of jlist jobs maxlen draws =
     (if jlist = [] then random_jobs maxlen 0 (nat jobs) draws else given_jobs float_of 0 (split_on CHR '','' jlist))"

text \<open>A line of the execution trace, and the statistics: response, turnaround and wait of every job and their averages.\<close>

record tline =
  t_time :: rat
  t_job :: nat
  t_ran :: rat
  t_done :: "rat option"

record jstat =
  s_job :: nat
  s_response :: rat
  s_turnaround :: rat
  s_wait :: rat

record averages =
  a_response :: rat
  a_turnaround :: rat
  a_wait :: rat

definition average :: "(jstat \<Rightarrow> rat) \<Rightarrow> jstat list \<Rightarrow> rat" where
  "average f st = sum_list (map f st) / of_nat (length st)"

definition averages_of :: "jstat list \<Rightarrow> averages res" where
  "averages_of st =
     (if st = [] then Inl ZeroDivisionError
      else Inr \<lparr>a_response = average s_response st, a_turnaround = average s_turnaround st, a_wait = average s_wait st\<rparr>)"

fun fifo_trace :: "rat \<Rightarrow> job list \<Rightarrow> tline list" where
  "fifo_trace t [] = []"
| "fifo_trace t ((j, r) # js) = \<lparr>t_time = t, t_job = j, t_ran = r, t_done = Some (t + r)\<rparr> # fifo_trace (t + r) js"

fun fifo_stats :: "rat \<Rightarrow> job list \<Rightarrow> jstat list" where
  "fifo_stats t [] = []"
| "fifo_stats t ((j, r) # js) = \<lparr>s_job = j, s_response = t, s_turnaround = t + r, s_wait = t\<rparr> # fifo_stats (t + r) js"

text \<open>Round robin: the dictionaries, the queue and the clock.\<close>

record rr =
  turnaround :: "rat list"
  response :: "rat list"
  lastran :: "rat list"
  wait :: "rat list"
  runlist :: "job list"
  jobcount :: nat
  thetime :: rat
  trace :: "tline list"

definition rr_init :: "job list \<Rightarrow> rr" where
  "rr_init joblist =
     (let n = length joblist
      in \<lparr>turnaround = replicate n 0, response = replicate n (-1), lastran = replicate n 0, wait = replicate n 0,
          runlist = joblist, jobcount = n, thetime = 0, trace = []\<rparr>)"

definition rr_step :: "rat \<Rightarrow> rr \<Rightarrow> rr res" where
  "rr_step quantum s =
     (case runlist s of
        [] \<Rightarrow> Inl IndexError
      | (jobnum, runtime) # rest \<Rightarrow>
          bnd (key_get (response s) jobnum) (\<lambda>resp.
          bnd (key_get (lastran s) jobnum) (\<lambda>lr.
          bnd (key_get (wait s) jobnum) (\<lambda>w.
            let s = s\<lparr>response := (if resp = -1 then (response s)[jobnum := thetime s] else response s), wait := (wait s)[jobnum := w + (thetime s - lr)]\<rparr>;
                ranfor = (if runtime > quantum then quantum else runtime);
                now = thetime s + ranfor;
                s = (if runtime > quantum then s\<lparr>runlist := rest @ [(jobnum, runtime - quantum)]\<rparr>
                     else s\<lparr>runlist := rest, turnaround := (turnaround s)[jobnum := now], jobcount := jobcount s - 1\<rparr>)
            in Inr (s\<lparr>trace := trace s @ [\<lparr>t_time = thetime s, t_job = jobnum, t_ran = ranfor, t_done = (if runtime > quantum then None else Some now)\<rparr>],
                     thetime := now, lastran := (lastran s)[jobnum := now]\<rparr>)))))"

definition rr_stats :: "nat \<Rightarrow> rr \<Rightarrow> jstat list" where
  "rr_stats n s = map (\<lambda>i. \<lparr>s_job = i, s_response = response s ! i, s_turnaround = turnaround s ! i, s_wait = wait s ! i\<rparr>) [0..<n]"

definition round_robin :: "nat \<Rightarrow> rat \<Rightarrow> job list \<Rightarrow> rr res" where
  "round_robin fuel quantum joblist = while_res (\<lambda>s. jobcount s > 0) (rr_step quantum) fuel (rr_init joblist)"

text \<open>The solution part of the program: trace, statistics, averages. A policy it does not know ends the program.\<close>

definition solve_jobs :: "nat \<Rightarrow> string \<Rightarrow> rat \<Rightarrow> job list \<Rightarrow> (tline list \<times> jstat list \<times> averages) res" where
  "solve_jobs fuel policy quantum joblist =
     (let joblist = (if policy = ''SJF'' then sort_key snd joblist else joblist)
      in if policy = ''SJF'' \<or> policy = ''FIFO''
         then bnd (averages_of (fifo_stats 0 joblist)) (\<lambda>a. Inr (fifo_trace 0 joblist, fifo_stats 0 joblist, a))
         else if policy = ''RR''
         then bnd (round_robin fuel quantum joblist) (\<lambda>s.
              bnd (averages_of (rr_stats (length joblist) s)) (\<lambda>a. Inr (trace s, rr_stats (length joblist) s, a)))
         else Inl SysExit)"

section \<open>First in, first out, and shortest job first\<close>

text \<open>The sum of the completion times of a sequence of run times.\<close>

fun completions :: "rat \<Rightarrow> rat list \<Rightarrow> rat" where
  "completions t [] = 0"
| "completions t (r # rs) = (t + r) + completions (t + r) rs"

lemma completions_move:
  "\<forall>a \<in> set as. m \<le> a \<Longrightarrow> completions t (m # as @ bs) \<le> completions t (as @ m # bs)"
proof (induction as arbitrary: t)
  case (Cons a as)
  have "completions t (m # a # as @ bs) \<le> completions t (a # m # as @ bs)" using Cons.prems by (simp add: add.commute add.left_commute)
  also have "\<dots> \<le> completions t (a # as @ m # bs)" using Cons.IH[of "t + a"] Cons.prems by simp
  finally show ?case by simp
qed simp

text \<open>The exchange argument: of all orders of the same run times, the sorted one has the least sum.\<close>

lemma sorted_least:
  "sorted xs \<Longrightarrow> mset ys = mset xs \<Longrightarrow> completions t xs \<le> completions t ys"
proof (induction xs arbitrary: t ys)
  case (Cons m xs)
  have "m \<in> set ys" using Cons.prems(2) by (metis list.set_intros(1) set_mset_mset)
  then obtain as bs where ys: "ys = as @ m # bs" by (auto dest: split_list)
  have rest: "mset (as @ bs) = mset xs" using Cons.prems(2) ys by simp
  have "\<forall>a \<in> set as. m \<le> a"
  proof
    fix a assume "a \<in> set as"
    then have "a \<in> set xs" using rest by (metis Un_iff set_append set_mset_mset)
    then show "m \<le> a" using Cons.prems(1) by simp
  qed
  from completions_move[OF this, of t bs] have "completions t (m # as @ bs) \<le> completions t ys" using ys by simp
  moreover have "completions (t + m) xs \<le> completions (t + m) (as @ bs)" using Cons.IH[OF _ rest] Cons.prems(1) by simp
  ultimately show ?case by simp
qed simp

lemma fifo_sums:
  "sum_list (map s_turnaround (fifo_stats t js)) = completions t (map snd js)"
  "sum_list (map s_wait (fifo_stats t js)) = completions t (map snd js) - sum_list (map snd js)"
  "sum_list (map s_response (fifo_stats t js)) = completions t (map snd js) - sum_list (map snd js)"
  by (induction t js rule: fifo_stats.induct) auto

lemma fifo_length [simp]: "length (fifo_stats t js) = length js"
  by (induction t js rule: fifo_stats.induct) auto

lemma fifo_nth:
  "i < length js \<Longrightarrow> fifo_stats t js ! i =
     \<lparr>s_job = fst (js ! i), s_response = t + sum_list (map snd (take i js)), s_turnaround = t + sum_list (map snd (take (Suc i) js)), s_wait = t + sum_list (map snd (take i js))\<rparr>"
  by (induction t js arbitrary: i rule: fifo_stats.induct) (auto simp: nth_Cons split: nat.splits)

lemma fifo_averages:
  "js \<noteq> [] \<Longrightarrow> averages_of (fifo_stats 0 js) = Inr \<lparr>a_response = (completions 0 (map snd js) - sum_list (map snd js)) / of_nat (length js),
     a_turnaround = completions 0 (map snd js) / of_nat (length js), a_wait = (completions 0 (map snd js) - sum_list (map snd js)) / of_nat (length js)\<rparr>"
proof -
  assume "js \<noteq> []"
  then have "fifo_stats 0 js \<noteq> []" using fifo_length[of 0 js] by (metis length_0_conv)
  then show ?thesis by (simp add: averages_of_def average_def fifo_sums)
qed

section \<open>Round robin\<close>

text \<open>The jobs as the program makes them, and when the first slice of job \<open>k\<close> starts.\<close>

definition jobs_ok :: "job list \<Rightarrow> bool" where
  "jobs_ok jl \<longleftrightarrow> map fst jl = [0..<length jl] \<and> (\<forall>j \<in> set jl. 0 \<le> snd j)"

definition first_start :: "rat \<Rightarrow> job list \<Rightarrow> nat \<Rightarrow> rat" where
  "first_start q jl k = sum_list (map (\<lambda>j. min q (snd j)) (take k jl))"

lemma first_start_Suc: "k < length jl \<Longrightarrow> first_start q jl (Suc k) = first_start q jl k + min q (snd (jl ! k))"
  by (simp add: first_start_def take_Suc_conv_app_nth)

lemma first_start_nonneg: "jobs_ok jl \<Longrightarrow> 0 < q \<Longrightarrow> 0 \<le> first_start q jl k"
  unfolding first_start_def by (rule sum_list_nonneg) (auto simp: jobs_ok_def dest!: in_set_takeD)

text \<open>Accounting: what a job has waited and run adds up to the time it last stopped, and the time to what is left.\<close>

definition rr_acct :: "job list \<Rightarrow> rr \<Rightarrow> bool" where
  "rr_acct jl s \<longleftrightarrow> length (turnaround s) = length jl \<and> length (response s) = length jl \<and> length (lastran s) = length jl \<and> length (wait s) = length jl \<and>
     jobcount s = length (runlist s) \<and> distinct (map fst (runlist s)) \<and>
     (\<forall>(i, rem) \<in> set (runlist s). i < length jl \<and> 0 \<le> rem \<and> wait s ! i + (snd (jl ! i) - rem) = lastran s ! i) \<and>
     (\<forall>i < length jl. lastran s ! i \<le> thetime s \<and> 0 \<le> wait s ! i \<and> (i \<notin> fst ` set (runlist s) \<longrightarrow> turnaround s ! i = lastran s ! i \<and> lastran s ! i = wait s ! i + snd (jl ! i))) \<and>
     thetime s + sum_list (map snd (runlist s)) = sum_list (map snd jl)"

text \<open>The first round: \<open>k\<close> jobs have been started, the others still stand in order at the front of the queue.\<close>

definition rr_resp :: "rat \<Rightarrow> job list \<Rightarrow> nat \<Rightarrow> rr \<Rightarrow> bool" where
  "rr_resp q jl k s \<longleftrightarrow> k \<le> length jl \<and> (\<exists>rest. runlist s = drop k jl @ rest \<and> (\<forall>j \<in> set rest. fst j < k)) \<and>
     (\<forall>i < length jl. response s ! i = (if i < k then first_start q jl i else -1)) \<and> (k < length jl \<longrightarrow> thetime s = first_start q jl k)"

lemma rr_step_fields:
  assumes "runlist s = (j, r) # js" "j < length (response s)" "j < length (lastran s)" "j < length (wait s)"
  shows "\<exists>s'. rr_step q s = Inr s' \<and> response s' = (if response s ! j = -1 then (response s)[j := thetime s] else response s) \<and>
    wait s' = (wait s)[j := wait s ! j + (thetime s - lastran s ! j)] \<and> lastran s' = (lastran s)[j := thetime s + min q r] \<and>
    thetime s' = thetime s + min q r \<and> runlist s' = (if r > q then js @ [(j, r - q)] else js) \<and>
    turnaround s' = (if r > q then turnaround s else (turnaround s)[j := thetime s + min q r]) \<and>
    jobcount s' = (if r > q then jobcount s else jobcount s - 1)"
  using assms by (cases "r > q") (simp_all add: rr_step_def Let_def min_def)

lemma rr_acct_step:
  assumes inv: "rr_acct jl s" and q: "0 < q" and run: "runlist s = (j, r) # js" and st: "rr_step q s = Inr s'"
  shows "rr_acct jl s'"
proof -
  have len: "length (turnaround s) = length jl" "length (response s) = length jl" "length (lastran s) = length jl" "length (wait s) = length jl"
    and cnt: "jobcount s = length (runlist s)" and dist: "distinct (map fst (runlist s))"
    and rem: "\<forall>(i, rem) \<in> set (runlist s). i < length jl \<and> 0 \<le> rem \<and> wait s ! i + (snd (jl ! i) - rem) = lastran s ! i"
    and all: "\<forall>i < length jl. lastran s ! i \<le> thetime s \<and> 0 \<le> wait s ! i \<and> (i \<notin> fst ` set (runlist s) \<longrightarrow> turnaround s ! i = lastran s ! i \<and> lastran s ! i = wait s ! i + snd (jl ! i))"
    and tot: "thetime s + sum_list (map snd (runlist s)) = sum_list (map snd jl)"
    using inv unfolding rr_acct_def by blast+
  have j: "j < length jl" "0 \<le> r" "wait s ! j + (snd (jl ! j) - r) = lastran s ! j" using rem run by auto
  have jt: "j \<notin> fst ` set js" using dist run by auto
  let ?m = "min q r"
  have f: "response s' = (if response s ! j = -1 then (response s)[j := thetime s] else response s)"
    "wait s' = (wait s)[j := wait s ! j + (thetime s - lastran s ! j)]" "lastran s' = (lastran s)[j := thetime s + ?m]"
    "thetime s' = thetime s + ?m" "runlist s' = (if r > q then js @ [(j, r - q)] else js)"
    "turnaround s' = (if r > q then turnaround s else (turnaround s)[j := thetime s + ?m])" "jobcount s' = (if r > q then jobcount s else jobcount s - 1)"
    using rr_step_fields[OF run, of q] j(1) len st by auto
  have m: "0 \<le> ?m" using q j(2) by simp
  have w: "0 \<le> thetime s - lastran s ! j" "0 \<le> wait s ! j" using all j(1) by auto
  have "\<forall>(i, rem) \<in> set (runlist s'). i < length jl \<and> 0 \<le> rem \<and> wait s' ! i + (snd (jl ! i) - rem) = lastran s' ! i"
  proof (clarify)
    fix i rm assume i: "(i, rm) \<in> set (runlist s')"
    show "i < length jl \<and> 0 \<le> rm \<and> wait s' ! i + (snd (jl ! i) - rm) = lastran s' ! i"
    proof (cases "(i, rm) \<in> set js")
      case True
      then have "i \<noteq> j" "(i, rm) \<in> set (runlist s)" using jt run by force+
      then show ?thesis using rem f(2,3) by fastforce
    next
      case False
      then have "i = j" "rm = r - q" "r > q" using i f(5) by (auto split: if_splits)
      then show ?thesis using j len f(2,3) by (auto simp: min_def)
    qed
  qed
  moreover have "lastran s' ! i \<le> thetime s' \<and> 0 \<le> wait s' ! i \<and> (i \<notin> fst ` set (runlist s') \<longrightarrow> turnaround s' ! i = lastran s' ! i \<and> lastran s' ! i = wait s' ! i + snd (jl ! i))"
    if i: "i < length jl" for i
  proof (cases "i = j")
    case True
    then show ?thesis using f j len m w by (auto simp: min_def split: if_splits)
  next
    case False
    then have "i \<in> fst ` set (runlist s') \<longleftrightarrow> i \<in> fst ` set (runlist s)" using f(5) run by auto
    moreover have "lastran s' ! i = lastran s ! i" "wait s' ! i = wait s ! i" "turnaround s' ! i = turnaround s ! i" using f(2,3,6) False by auto
    moreover have "lastran s ! i \<le> thetime s'" using all[rule_format, OF i] f(4) m by linarith
    ultimately show ?thesis using all[rule_format, OF i] by simp
  qed
  moreover have "distinct (map fst (runlist s'))" using dist run f(5) by auto
  moreover have "thetime s' + sum_list (map snd (runlist s')) = sum_list (map snd jl)" using tot run f(4,5) by (auto simp: min_def)
  moreover have "jobcount s' = length (runlist s')" using cnt run f(5,7) by simp
  ultimately show ?thesis unfolding rr_acct_def using len f by simp
qed

lemma rr_resp_step:
  assumes ok: "jobs_ok jl" and q: "0 < q" and inv: "rr_resp q jl k s" and acct: "rr_acct jl s" and run: "runlist s = (j, r) # js" and st: "rr_step q s = Inr s'"
  shows "\<exists>k'. rr_resp q jl k' s'"
proof -
  from inv obtain rest where k: "k \<le> length jl" and rest: "runlist s = drop k jl @ rest" "\<forall>x \<in> set rest. fst x < k"
    and resp: "\<forall>i < length jl. response s ! i = (if i < k then first_start q jl i else -1)" and now: "k < length jl \<Longrightarrow> thetime s = first_start q jl k"
    unfolding rr_resp_def by blast
  have len: "length (response s) = length jl" "length (lastran s) = length jl" "length (wait s) = length jl" using acct unfolding rr_acct_def by blast+
  have j: "j < length jl" using acct run unfolding rr_acct_def by auto
  have f: "response s' = (if response s ! j = -1 then (response s)[j := thetime s] else response s)"
    "thetime s' = thetime s + min q r" "runlist s' = (if r > q then js @ [(j, r - q)] else js)"
    using rr_step_fields[OF run, of q] j len st by auto
  show ?thesis
  proof (cases "k < length jl")
    case True
    then have d: "drop k jl = jl ! k # drop (Suc k) jl" by (simp add: Cons_nth_drop_Suc)
    have "fst (jl ! k) = map fst jl ! k" using True by simp
    then have "fst (jl ! k) = k" using ok True unfolding jobs_ok_def by simp
    then have jr: "j = k" "r = snd (jl ! k)" "js = drop (Suc k) jl @ rest" using run rest(1) d by auto
    have "thetime s' = first_start q jl (Suc k)" using f(2) now[OF True] jr first_start_Suc[OF True] by simp
    moreover have "response s' = (response s)[k := first_start q jl k]" using f(1) resp True jr(1) now by simp
    then have "\<forall>i < length jl. response s' ! i = (if i < Suc k then first_start q jl i else -1)" using resp True len(1) by (auto simp: nth_list_update less_Suc_eq)
    moreover have "\<exists>rest'. runlist s' = drop (Suc k) jl @ rest' \<and> (\<forall>x \<in> set rest'. fst x < Suc k)"
      by (rule exI[of _ "if r > q then rest @ [(j, r - q)] else rest"]) (use f(3) jr rest(2) in \<open>auto simp: less_Suc_eq\<close>)
    ultimately have "rr_resp q jl (Suc k) s'" unfolding rr_resp_def using True by auto
    then show ?thesis ..
  next
    case False
    then have kn: "k = length jl" using k by simp
    then have rs: "rest = (j, r) # js" using run rest(1) by simp
    then have "response s ! j = first_start q jl j" using resp j kn by simp
    then have "response s ! j \<noteq> -1" using first_start_nonneg[OF ok q, of j] by simp
    then have "response s' = response s" using f(1) by simp
    moreover have "\<exists>rest'. runlist s' = drop k jl @ rest' \<and> (\<forall>x \<in> set rest'. fst x < k)"
      by (rule exI[of _ "runlist s'"]) (use f(3) rs rest(2) kn in auto)
    ultimately have "rr_resp q jl k s'" unfolding rr_resp_def using kn resp by simp
    then show ?thesis ..
  qed
qed

text \<open>The slices still to come.\<close>

definition slices :: "rat \<Rightarrow> job list \<Rightarrow> nat" where
  "slices q js = sum_list (map (\<lambda>j. Suc (nat \<lceil>snd j / q\<rceil>)) js)"

definition rr_inv :: "rat \<Rightarrow> job list \<Rightarrow> rr \<Rightarrow> bool" where
  "rr_inv q jl s \<longleftrightarrow> 0 < q \<and> jobs_ok jl \<and> rr_acct jl s \<and> (\<exists>k. rr_resp q jl k s)"

lemma slices_step:
  assumes "0 < q" "r > q"
  shows "slices q (js @ [(j, r - q)]) < slices q ((j, r) # js)"
proof -
  have "(r - q) / q = r / q - 1" using assms by (simp add: diff_divide_distrib)
  then have "\<lceil>(r - q) / q\<rceil> = \<lceil>r / q\<rceil> - 1" by simp
  moreover have "0 < \<lceil>r / q\<rceil>" using assms by simp
  ultimately show ?thesis by (simp add: slices_def)
qed

interpretation robin: terminating_loop "rr_inv q jl" "\<lambda>s. jobcount s > 0" "rr_step q" "\<lambda>s. slices q (runlist s)" for q jl
proof
  fix s assume inv: "rr_inv q jl s" and "jobcount s > 0"
  then have q: "0 < q" and ok: "jobs_ok jl" and acct: "rr_acct jl s" unfolding rr_inv_def by blast+
  from inv obtain k where k: "rr_resp q jl k s" unfolding rr_inv_def by blast
  have len: "length (response s) = length jl" "length (lastran s) = length jl" "length (wait s) = length jl" and cnt: "jobcount s = length (runlist s)"
    using acct unfolding rr_acct_def by blast+
  from \<open>jobcount s > 0\<close> cnt obtain j r js where run: "runlist s = (j, r) # js" by (cases "runlist s") auto
  have j: "j < length jl" using acct run unfolding rr_acct_def by auto
  obtain s' where s': "rr_step q s = Inr s'" "runlist s' = (if r > q then js @ [(j, r - q)] else js)"
    using rr_step_fields[OF run, of q] j len by auto
  have "rr_inv q jl s'" using rr_acct_step[OF acct q run s'(1)] rr_resp_step[OF ok q k acct run s'(1)] ok q unfolding rr_inv_def by blast
  moreover have "slices q (runlist s') < slices q (runlist s)"
  proof (cases "r > q")
    case True
    then show ?thesis using s'(2) run slices_step[OF q True] by simp
  next
    case False
    then show ?thesis using s'(2) run by (simp add: slices_def)
  qed
  ultimately show "\<exists>s'. rr_step q s = Inr s' \<and> rr_inv q jl s' \<and> slices q (runlist s') < slices q (runlist s)" using s'(1) by blast
qed

lemma rr_init_inv: "jobs_ok jl \<Longrightarrow> 0 < q \<Longrightarrow> rr_inv q jl (rr_init jl)"
proof -
  assume ok: "jobs_ok jl" and q: "0 < q"
  have fs: "fst (jl ! i) = i" if "i < length jl" for i
  proof -
    have "fst (jl ! i) = map fst jl ! i" using that by simp
    then show ?thesis using ok that unfolding jobs_ok_def by simp
  qed
  have d: "distinct (map fst jl)" using ok unfolding jobs_ok_def by simp
  have el: "i < length jl \<and> 0 \<le> rm \<and> snd (jl ! i) = rm" if "(i, rm) \<in> set jl" for i rm
  proof -
    from that obtain n where n: "n < length jl" "jl ! n = (i, rm)" by (auto simp: in_set_conv_nth)
    then have "i = n" using fs[of n] by simp
    then show ?thesis using n ok that unfolding jobs_ok_def by force
  qed
  have mem: "i \<in> fst ` set jl" if "i < length jl" for i
    using fs[OF that] nth_mem[OF that] by (metis imageI)
  have "rr_acct jl (rr_init jl)" unfolding rr_acct_def rr_init_def Let_def using d el mem by auto
  moreover have "rr_resp q jl 0 (rr_init jl)" unfolding rr_resp_def rr_init_def Let_def by (simp add: first_start_def)
  ultimately show ?thesis using ok q unfolding rr_inv_def by blast
qed

section \<open>Making the jobs\<close>

lemma random_jobs_ok:
  "0 \<le> maxlen \<Longrightarrow> \<forall>k \<in> set draws. drawn k \<Longrightarrow> n \<le> length draws \<Longrightarrow>
   \<exists>js. random_jobs maxlen m n draws = Inr js \<and> map fst js = [m..<m + n] \<and> (\<forall>j \<in> set js. 1 \<le> snd j \<and> snd j \<le> of_int (max 1 maxlen))"
proof (induction maxlen m n draws rule: random_jobs.induct)
  case (3 maxlen jobnum n k draws)
  then obtain js where js: "random_jobs maxlen (Suc jobnum) n draws = Inr js" "map fst js = [Suc jobnum..<Suc jobnum + n]"
    "\<forall>j \<in> set js. 1 \<le> snd j \<and> snd j \<le> of_int (max 1 maxlen)" by auto
  have "0 \<le> scaled k maxlen \<and> scaled k maxlen + 1 \<le> max 1 maxlen"
  proof (cases "maxlen = 0")
    case False
    then show ?thesis using scaled_range[of k maxlen] "3.prems" by auto
  qed (simp add: scaled_def)
  moreover from this have "(of_int (scaled k maxlen) :: rat) + 1 \<le> of_int (max 1 maxlen)" by (metis of_int_1 of_int_add of_int_le_iff)
  ultimately show ?case using js "3.prems"(1) by (auto simp: int_scaled_def upt_rec[of jobnum])
qed auto

lemma sched_round_robin_ends:
  assumes "jobs_ok jl" "jl \<noteq> []" "0 < q" "slices q jl \<le> fuel"
  shows "\<exists>s a. round_robin fuel q jl = Inr s \<and> rr_inv q jl s \<and> runlist s = [] \<and> averages_of (rr_stats (length jl) s) = Inr a \<and>
    solve_jobs fuel ''RR'' q jl = Inr (trace s, rr_stats (length jl) s, a)"
proof -
  have "slices q (runlist (rr_init jl)) \<le> fuel" using assms(4) by (simp add: rr_init_def Let_def)
  from robin.loop_ends[OF rr_init_inv[OF assms(1,3)] this] obtain s where s: "round_robin fuel q jl = Inr s" "rr_inv q jl s" "jobcount s = 0"
    by (auto simp: round_robin_def)
  then have "runlist s = []" unfolding rr_inv_def rr_acct_def by simp
  moreover have "rr_stats (length jl) s \<noteq> []" using assms(2) by (simp add: rr_stats_def)
  then have "\<exists>a. averages_of (rr_stats (length jl) s) = Inr a" by (simp add: averages_of_def)
  ultimately show ?thesis using s(1,2) by (auto simp: solve_jobs_def)
qed

section \<open>Properties\<close>

text \<open>C16. Shortest job first. On every list of jobs the program's SJF answer lists each job once, and no order of the same jobs has a smaller average turnaround,
  wait or response under FIFO.\<close>

theorem sched_sjf_optimal:
  assumes "jl \<noteq> []"
  shows "\<exists>tr st a. solve_jobs fuel ''SJF'' q jl = Inr (tr, st, a) \<and> mset (map s_job st) = mset (map fst jl) \<and>
    (\<forall>js. mset js = mset jl \<longrightarrow> (\<exists>tr' st' a'. solve_jobs fuel ''FIFO'' q js = Inr (tr', st', a') \<and>
      a_turnaround a \<le> a_turnaround a' \<and> a_wait a \<le> a_wait a' \<and> a_response a \<le> a_response a'))"
proof -
  let ?sj = "sort_key snd jl"
  have ne: "?sj \<noteq> []" using assms by (metis length_0_conv length_sort)
  have jobs: "map s_job (fifo_stats t js) = map fst js" for t js by (induction t js rule: fifo_stats.induct) auto
  have "\<exists>tr' st' a'. solve_jobs fuel ''FIFO'' q js = Inr (tr', st', a') \<and> completions 0 (map snd ?sj) / of_nat (length ?sj) \<le> a_turnaround a' \<and>
      (completions 0 (map snd ?sj) - sum_list (map snd ?sj)) / of_nat (length ?sj) \<le> a_wait a' \<and> (completions 0 (map snd ?sj) - sum_list (map snd ?sj)) / of_nat (length ?sj) \<le> a_response a'"
    if js: "mset js = mset jl" for js
  proof -
    have "js \<noteq> []" using js assms by auto
    note av = fifo_averages[OF this]
    have m: "mset (map snd js) = mset (map snd ?sj)" using js by simp
    have "completions 0 (map snd ?sj) \<le> completions 0 (map snd js)" by (rule sorted_least[OF _ m]) simp
    moreover have "length js = length ?sj" using js by (metis length_sort size_mset)
    moreover have "sum_list (map snd js) = sum_list (map snd ?sj)" using m by (metis sum_mset_sum_list)
    ultimately show ?thesis using av by (auto simp: solve_jobs_def intro!: divide_right_mono)
  qed
  note least = this
  define a where "a = \<lparr>a_response = (completions 0 (map snd ?sj) - sum_list (map snd ?sj)) / of_nat (length ?sj),
    a_turnaround = completions 0 (map snd ?sj) / of_nat (length ?sj), a_wait = (completions 0 (map snd ?sj) - sum_list (map snd ?sj)) / of_nat (length ?sj)\<rparr>"
  have "solve_jobs fuel ''SJF'' q jl = Inr (fifo_trace 0 ?sj, fifo_stats 0 ?sj, a)" using fifo_averages[OF ne] by (simp add: solve_jobs_def a_def Let_def)
  moreover have "mset (map s_job (fifo_stats 0 ?sj)) = mset (map fst jl)" unfolding jobs by simp
  moreover have "\<exists>tr' st' a'. solve_jobs fuel ''FIFO'' q js = Inr (tr', st', a') \<and> a_turnaround a \<le> a_turnaround a' \<and> a_wait a \<le> a_wait a' \<and> a_response a \<le> a_response a'"
    if "mset js = mset jl" for js using least[OF that] by (simp add: a_def)
  ultimately show ?thesis by blast
qed

text \<open>C17. Round robin. With a positive quantum the loop ends after the slices of all jobs, every job waits and runs for exactly its turnaround,
  is first served when the jobs before it have had one slice each, and nothing runs longer than the sum of the run times.\<close>

theorem sched_round_robin:
  assumes "jobs_ok jl" "jl \<noteq> []" "0 < q" "slices q jl \<le> fuel"
  shows "\<exists>tr st a. solve_jobs fuel ''RR'' q jl = Inr (tr, st, a) \<and> length st = length jl \<and>
    (\<forall>i < length jl. s_job (st ! i) = i \<and> s_response (st ! i) = first_start q jl i \<and> s_turnaround (st ! i) = s_wait (st ! i) + snd (jl ! i) \<and>
      0 \<le> s_wait (st ! i) \<and> s_turnaround (st ! i) \<le> sum_list (map snd jl))"
proof -
  obtain s a where s: "rr_inv q jl s" and rl: "runlist s = []" and ans: "solve_jobs fuel ''RR'' q jl = Inr (trace s, rr_stats (length jl) s, a)"
    using sched_round_robin_ends[OF assms] by blast
  then have acct: "rr_acct jl s" unfolding rr_inv_def by blast
  obtain k where k: "rr_resp q jl k s" using s unfolding rr_inv_def by blast
  then have "k = length jl" using rl unfolding rr_resp_def by auto
  then have resp: "response s ! i = first_start q jl i" if "i < length jl" for i using k that unfolding rr_resp_def by simp
  have jobs: "0 \<le> wait s ! i \<and> turnaround s ! i = wait s ! i + snd (jl ! i) \<and> turnaround s ! i \<le> thetime s" if "i < length jl" for i
  proof -
    have "i \<notin> fst ` set (runlist s)" using rl by simp
    then have "lastran s ! i \<le> thetime s \<and> 0 \<le> wait s ! i \<and> turnaround s ! i = lastran s ! i \<and> lastran s ! i = wait s ! i + snd (jl ! i)"
      using acct that unfolding rr_acct_def by blast
    then show ?thesis by (metis)
  qed
  have tot: "thetime s = sum_list (map snd jl)" using acct rl unfolding rr_acct_def by simp
  have "\<forall>i < length jl. s_job (rr_stats (length jl) s ! i) = i \<and> s_response (rr_stats (length jl) s ! i) = first_start q jl i \<and>
    s_turnaround (rr_stats (length jl) s ! i) = s_wait (rr_stats (length jl) s ! i) + snd (jl ! i) \<and>
    0 \<le> s_wait (rr_stats (length jl) s ! i) \<and> s_turnaround (rr_stats (length jl) s ! i) \<le> sum_list (map snd jl)"
    using resp jobs tot by (simp add: rr_stats_def) metis
  moreover have "length (rr_stats (length jl) s) = length jl" by (simp add: rr_stats_def)
  ultimately show ?thesis using ans by blast
qed

text \<open>A quantum of zero or less. Jobs that take time are then put back into the queue for ever: the loop ends for no number of rounds.\<close>

theorem sched_bad_quantum:
  assumes "jobs_ok jl" "jl \<noteq> []" "\<forall>j \<in> set jl. 0 < snd j" "q \<le> 0"
  shows "solve_jobs fuel ''RR'' q jl = Inl NoReturn"
proof -
  define P where "P s \<longleftrightarrow> runlist s \<noteq> [] \<and> jobcount s > 0 \<and> length (response s) = length jl \<and> length (lastran s) = length jl \<and> length (wait s) = length jl \<and>
    (\<forall>(i, r) \<in> set (runlist s). i < length jl \<and> 0 < r)" for s :: rr
  have "P s \<Longrightarrow> while_res (\<lambda>s. jobcount s > 0) (rr_step q) n s = Inl NoReturn" for n s
  proof (induction n arbitrary: s)
    case (Suc n)
    then obtain j r js where run: "runlist s = (j, r) # js" by (cases "runlist s") (auto simp: P_def)
    then have j: "j < length jl" "0 < r" using Suc.prems by (auto simp: P_def)
    then have "r > q" using assms(4) by simp
    obtain s' where s': "rr_step q s = Inr s'" "length (response s') = length (response s)" "length (wait s') = length (wait s)" "length (lastran s') = length (lastran s)"
      "runlist s' = js @ [(j, r - q)]" "jobcount s' = jobcount s"
      using rr_step_fields[OF run, of q] j Suc.prems \<open>r > q\<close> by (auto simp: P_def)
    have "P s'" using Suc.prems s' run j assms(4) by (auto simp: P_def)
    with Suc s'(1) show ?case by (simp add: P_def)
  qed (simp add: P_def)
  moreover have "P (rr_init jl)"
  proof -
    have "i < length jl" if "(i, r) \<in> set jl" for i r
    proof -
      have "i \<in> set (map fst jl)" using that by force
      then show ?thesis using assms(1) unfolding jobs_ok_def by simp
    qed
    then show ?thesis using assms(2,3) by (auto simp: P_def rr_init_def Let_def)
  qed
  ultimately show ?thesis by (simp add: solve_jobs_def round_robin_def)
qed

text \<open>Random jobs. The jobs drawn are numbered in order and last between 1 and the given maximum, so all three policies answer for them.\<close>

theorem sched_random_jobs:
  assumes "1 \<le> maxlen" "0 < jobs" "\<forall>k \<in> set draws. drawn k" "nat jobs \<le> length draws"
  shows "\<exists>jl. make_jobs float_of [] jobs maxlen draws = Inr jl \<and> length jl = nat jobs \<and> jobs_ok jl \<and> (\<forall>j \<in> set jl. 1 \<le> snd j \<and> snd j \<le> of_int maxlen) \<and>
    (\<forall>policy \<in> {''FIFO'', ''SJF'', ''RR''}. \<exists>ans. solve_jobs (nat jobs * Suc (nat maxlen)) policy 1 jl = Inr ans)"
proof -
  obtain jl where jl: "random_jobs maxlen 0 (nat jobs) draws = Inr jl" "map fst jl = [0..<nat jobs]" "\<forall>j \<in> set jl. 1 \<le> snd j \<and> snd j \<le> of_int (max 1 maxlen)"
    using random_jobs_ok[of maxlen draws "nat jobs" 0] assms by auto
  have len: "length jl = nat jobs" using arg_cong[OF jl(2), of length] by simp
  have mx: "max 1 maxlen = maxlen" using assms(1) by simp
  have ok: "jobs_ok jl" using jl len by (force simp: jobs_ok_def)
  have ne: "jl \<noteq> []" using len assms(2) by auto
  have "sum_list (map (\<lambda>j. Suc (nat \<lceil>snd j / 1\<rceil>)) jl) \<le> sum_list (map (\<lambda>_. Suc (nat maxlen)) jl)"
    using jl(3) mx by (intro sum_list_mono) (auto simp: nat_mono ceiling_le_iff)
  then have "slices 1 jl \<le> nat jobs * Suc (nat maxlen)" by (simp add: slices_def sum_list_triv len)
  from sched_round_robin_ends[OF ok ne _ this] have "\<exists>ans. solve_jobs (nat jobs * Suc (nat maxlen)) ''RR'' 1 jl = Inr ans" by (meson zero_less_one)
  moreover have "sort_key snd jl \<noteq> []" using ne by (metis length_0_conv length_sort)
  ultimately show ?thesis using jl mx ok len fifo_averages[OF ne] fifo_averages[of "sort_key snd jl"] by (auto simp: make_jobs_def solve_jobs_def Let_def)
qed

theorem sched_sjf_optimal_witness:
  "\<exists>tr st a. solve_jobs 0 ''SJF'' 1 [(0, 5), (1, 2), (2, 9)] = Inr (tr, st, a) \<and>
    (\<exists>tr' st' a'. solve_jobs 0 ''FIFO'' 1 [(0, 5), (1, 2), (2, 9)] = Inr (tr', st', a') \<and> a_turnaround a \<le> a_turnaround a')"
  using sched_sjf_optimal[of "[(0, 5), (1, 2), (2, 9)]" 0 1] by (metis list.distinct(1))

lemma example_jobs_ok: "jobs_ok [(0, 5), (1, 2)]"
  by (simp add: jobs_ok_def upt_rec)

theorem sched_round_robin_witness:
  "\<exists>tr st a. solve_jobs 9 ''RR'' 2 [(0, 5), (1, 2)] = Inr (tr, st, a) \<and> s_response (st ! 1) = 2 \<and> s_turnaround (st ! 1) = s_wait (st ! 1) + 2"
proof -
  have "\<lceil>5 / 2 :: rat\<rceil> \<le> 3" by (simp add: ceiling_le_iff)
  then have "nat \<lceil>5 / 2 :: rat\<rceil> \<le> 3" by linarith
  then have "slices 2 [(0, 5), (1, 2)] \<le> 9" by (simp add: slices_def)
  from sched_round_robin[OF example_jobs_ok _ _ this] show ?thesis by (fastforce simp: first_start_def)
qed

theorem sched_bad_quantum_witness: "solve_jobs 1000 ''RR'' 0 [(0, 5), (1, 2)] = Inl NoReturn"
  by (rule sched_bad_quantum[OF example_jobs_ok]) simp_all

theorem sched_random_jobs_witness:
  "\<exists>jl. make_jobs (\<lambda>_. Inl ValueError) [] 2 10 [1, 2 ^ 52] = Inr jl \<and> length jl = 2 \<and> (\<exists>ans. solve_jobs 22 ''RR'' 1 jl = Inr ans)"
  using sched_random_jobs[of 10 2 "[1, 2 ^ 52]" "\<lambda>_. Inl ValueError"] by force

end
