(* ===== verification/Lottery.thy ===== *)
theory Lottery
  imports Machines
begin

text \<open>
  The lottery scheduler of \<^verbatim>\<open>ostep/homework/cpu-sched-lottery/lottery.py\<close>: the job list with run times and tickets, the draw of a winner, and the
  accounting of a time slice. The random numbers are arguments, as numerators over \<open>2^53\<close>.
\<close>

section \<open>Model\<close>

text \<open>An entry of the job list: number, time left, tickets.\<close>

type_synonym ljob = "nat \<times> int \<times> int"

text \<open>\<^verbatim>\<open>while x == 0: x = int(maxval * random.random())\<close> with the numbers that are left.\<close>

fun draw_nonzero :: "int \<Rightarrow> int list \<Rightarrow> (int \<times> int list) res" where
  "draw_nonzero maxval [] = Inl NoReturn"
| "draw_nonzero maxval (k # draws) =
     (let x = int_scaled k maxval in if x = 0 then draw_nonzero maxval draws else Inr (x, draws))"

fun random_entries :: "int \<Rightarrow> int \<Rightarrow> nat \<Rightarrow> nat \<Rightarrow> int list \<Rightarrow> (ljob list \<times> int list) res" where
  "random_entries maxlen maxticket jobnum 0 draws = Inr ([], draws)"
| "random_entries maxlen maxticket jobnum (Suc n) draws =
     bnd (draw_nonzero maxlen draws) (\<lambda>(runtime, draws).
     bnd (draw_nonzero maxticket draws) (\<lambda>(tickets, draws).
     bnd (random_entries maxlen maxticket (Suc jobnum) n draws) (\<lambda>(js, draws). Inr ((jobnum, runtime, tickets) # js, draws))))"

definition entry_of :: "nat \<Rightarrow> string \<Rightarrow> ljob res" where
  "entry_of jobnum entry =
     (case split_on CHR '':'' entry of
        [runtime, tickets] \<Rightarrow> bnd (int_of_string runtime) (\<lambda>r. bnd (int_of_string tickets) (\<lambda>t. Inr (jobnum, r, t)))
      | _ \<Rightarrow> Inl ValueError)"

fun given_entries :: "nat \<Rightarrow> string list \<Rightarrow> ljob list res" where
  "given_entries jobnum [] = Inr []"
| "given_entries jobnum (x # xs) = bnd (entry_of jobnum x) (\<lambda>j. bnd (given_entries (Suc jobnum) xs) (\<lambda>js. Inr (j # js)))"

definition entries :: "string \<Rightarrow> int \<Rightarrow> int \<Rightarrow> int \<Rightarrow> int list \<Rightarrow> (ljob list \<times> int list) res" where
  "entries jlist jobs maxlen maxticket draws =
     (if jlist = [] then random_entries maxlen maxticket 0 (nat jobs) draws
      else bnd (given_entries 0 (split_on CHR '','' jlist)) (\<lambda>js. Inr (js, draws)))"

definition run_of :: "ljob \<Rightarrow> int" where "run_of j = fst (snd j)"

definition tix_of :: "ljob \<Rightarrow> int" where "tix_of j = snd (snd j)"

text \<open>The state of the simulation. \<open>won\<close> are the variables of the last winner, \<open>finished\<close> the lines about completed jobs.\<close>

record lottery =
  joblist :: "ljob list"
  tickTotal :: int
  jobs :: int
  clock :: int
  won :: "ljob option"
  finished :: "(nat \<times> int) list"

definition lottery_init :: "ljob list \<Rightarrow> lottery" where
  "lottery_init js = \<lparr>joblist = js, tickTotal = sum_list (map tix_of js), jobs = int (length js), clock = 0, won = None, finished = []\<rparr>"

fun pick_winner :: "int \<Rightarrow> int \<Rightarrow> ljob list \<Rightarrow> ljob option" where
  "pick_winner winner current [] = None"
| "pick_winner winner current (j # js) = (if current + tix_of j > winner then Some j else pick_winner winner (current + tix_of j) js)"

definition run_winner :: "int \<Rightarrow> lottery \<Rightarrow> ljob \<Rightarrow> lottery res" where
  "run_winner quantum s w =
     (case w of (wjob, wrun, wtix) \<Rightarrow>
        let wrun = (if wrun \<ge> quantum then wrun - quantum else 0);
            s = s\<lparr>clock := clock s + quantum\<rparr>;
            s = (if wrun = 0 then s\<lparr>tickTotal := tickTotal s - wtix, jobs := jobs s - 1, finished := finished s @ [(wjob, clock s)]\<rparr> else s);
            wtix = (if wrun = 0 then 0 else wtix)
        in bnd (list_put (joblist s) (int wjob) (wjob, wrun, wtix)) (\<lambda>js. Inr (s\<lparr>joblist := js, won := Some (wjob, wrun, wtix)\<rparr>)))"

text \<open>One slice. When no ticket count exceeds the winning ticket the variables keep the values of the last slice, if there was one.\<close>

definition slice :: "int \<Rightarrow> lottery \<Rightarrow> int \<Rightarrow> lottery res" where
  "slice quantum s k =
     bnd (int_mod (scaled k 1000001) (tickTotal s)) (\<lambda>winner.
       case pick_winner winner 0 (joblist s) of
         Some w \<Rightarrow> run_winner quantum s w
       | None \<Rightarrow> (case won s of None \<Rightarrow> Inl NameError | Some w \<Rightarrow> run_winner quantum s w))"

text \<open>\<^verbatim>\<open>for i in range(runTotal)\<close>, left when no job remains.\<close>

fun lottery_loop :: "int \<Rightarrow> nat \<Rightarrow> int list \<Rightarrow> lottery \<Rightarrow> lottery res" where
  "lottery_loop quantum 0 draws s = Inr s"
| "lottery_loop quantum (Suc n) [] s = Inl NoReturn"
| "lottery_loop quantum (Suc n) (k # draws) s =
     bnd (slice quantum s k) (\<lambda>s. if jobs s = 0 then Inr s else lottery_loop quantum n draws s)"

definition lottery_run :: "int \<Rightarrow> ljob list \<Rightarrow> int list \<Rightarrow> lottery res" where
  "lottery_run quantum js draws = lottery_loop quantum (nat (sum_list (map run_of js))) draws (lottery_init js)"

definition lottery_main :: "string \<Rightarrow> int \<Rightarrow> int \<Rightarrow> int \<Rightarrow> int \<Rightarrow> int list \<Rightarrow> lottery res" where
  "lottery_main jlist njobs maxlen maxticket quantum draws =
     bnd (entries jlist njobs maxlen maxticket draws) (\<lambda>(js, draws). lottery_run quantum js draws)"

section \<open>The draw\<close>

text \<open>The tickets before job \<open>i\<close>.\<close>

definition tickets_before :: "ljob list \<Rightarrow> nat \<Rightarrow> int" where
  "tickets_before js i = sum_list (map tix_of (take i js))"

lemma tickets_before_Suc: "tickets_before (j # js) (Suc i) = tix_of j + tickets_before js i"
  by (simp add: tickets_before_def)

lemma tickets_before_nonneg: "\<forall>j \<in> set js. 0 \<le> tix_of j \<Longrightarrow> 0 \<le> tickets_before js i"
  unfolding tickets_before_def by (rule sum_list_nonneg) (auto dest: in_set_takeD)

lemma pick_winner_range:
  assumes "\<forall>j \<in> set js. 0 \<le> tix_of j" "c \<le> w" "w < c + sum_list (map tix_of js)"
  shows "\<exists>i < length js. pick_winner w c js = Some (js ! i) \<and> c + tickets_before js i \<le> w \<and> w < c + tickets_before js i + tix_of (js ! i)"
  using assms
proof (induction js arbitrary: c)
  case (Cons j js)
  show ?case
  proof (cases "c + tix_of j > w")
    case True
    then show ?thesis using Cons.prems by (intro exI[of _ 0]) (simp add: tickets_before_def)
  next
    case False
    have "\<exists>i < length js. pick_winner w (c + tix_of j) js = Some (js ! i) \<and> c + tix_of j + tickets_before js i \<le> w \<and> w < c + tix_of j + tickets_before js i + tix_of (js ! i)"
      by (rule Cons.IH) (use False Cons.prems in simp_all)
    then obtain i where "i < length js" "pick_winner w (c + tix_of j) js = Some (js ! i)"
      "c + tix_of j + tickets_before js i \<le> w" "w < c + tix_of j + tickets_before js i + tix_of (js ! i)" by blast
    with False show ?thesis by (intro exI[of _ "Suc i"]) (simp add: tickets_before_Suc)
  qed
qed simp

lemma tickets_before_mono:
  assumes "\<forall>j \<in> set js. 0 \<le> tix_of j" "i < i'" "i' \<le> length js"
  shows "tickets_before js i + tix_of (js ! i) \<le> tickets_before js i'"
proof -
  have "take i' js = take (Suc i) js @ take (i' - Suc i) (drop (Suc i) js)" using assms(2,3) by (metis Suc_leI le_add_diff_inverse take_add)
  then have "tickets_before js i' = tickets_before js (Suc i) + sum_list (map tix_of (take (i' - Suc i) (drop (Suc i) js)))" by (simp add: tickets_before_def)
  moreover have "tickets_before js (Suc i) = tickets_before js i + tix_of (js ! i)" using assms(2,3) by (simp add: tickets_before_def take_Suc_conv_app_nth)
  moreover have "0 \<le> sum_list (map tix_of (take (i' - Suc i) (drop (Suc i) js)))"
    by (rule sum_list_nonneg) (use assms(1) in \<open>auto dest: in_set_takeD in_set_dropD\<close>)
  ultimately show ?thesis by simp
qed

text \<open>Exactly as many of the winning tickets fall to a job as it holds.\<close>

lemma winners_of:
  assumes tix: "\<forall>j \<in> set js. 0 \<le> tix_of j" and num: "map fst js = [0..<length js]" and i: "i < length js"
  shows "{w. 0 \<le> w \<and> w < sum_list (map tix_of js) \<and> map_option fst (pick_winner w 0 js) = Some i} = {tickets_before js i..<tickets_before js i + tix_of (js ! i)}"
proof -
  have fst_nth: "fst (js ! n) = n" if "n < length js" for n
  proof -
    have "fst (js ! n) = map fst js ! n" using that by simp
    then show ?thesis using num that by simp
  qed
  have last: "tickets_before js i + tix_of (js ! i) \<le> sum_list (map tix_of js)"
    using tickets_before_mono[OF tix, of i "length js"] i by (simp add: tickets_before_def)
  show ?thesis
  proof (rule set_eqI, rule iffI)
    fix w assume "w \<in> {w. 0 \<le> w \<and> w < sum_list (map tix_of js) \<and> map_option fst (pick_winner w 0 js) = Some i}"
    then have w: "0 \<le> w" "w < sum_list (map tix_of js)" "map_option fst (pick_winner w 0 js) = Some i" by auto
    from pick_winner_range[OF tix, of 0 w] w obtain n where n: "n < length js" "pick_winner w 0 js = Some (js ! n)"
      "tickets_before js n \<le> w" "w < tickets_before js n + tix_of (js ! n)" by auto
    then have "n = i" using w(3) fst_nth by simp
    with n show "w \<in> {tickets_before js i..<tickets_before js i + tix_of (js ! i)}" by simp
  next
    fix w assume w: "w \<in> {tickets_before js i..<tickets_before js i + tix_of (js ! i)}"
    then have r: "0 \<le> w" "w < sum_list (map tix_of js)" using tickets_before_nonneg[OF tix, of i] last by auto
    from pick_winner_range[OF tix, of 0 w] r obtain n where n: "n < length js" "pick_winner w 0 js = Some (js ! n)"
      "tickets_before js n \<le> w" "w < tickets_before js n + tix_of (js ! n)" by auto
    have "n = i"
    proof (rule ccontr)
      assume "n \<noteq> i"
      then consider "n < i" | "i < n" by linarith
      then show False using tickets_before_mono[OF tix, of n i] tickets_before_mono[OF tix, of i n] n i w by cases auto
    qed
    then show "w \<in> {w. 0 \<le> w \<and> w < sum_list (map tix_of js) \<and> map_option fst (pick_winner w 0 js) = Some i}" using n r fst_nth[OF i] by (cases "js ! i") simp
  qed
qed

section \<open>Invariant\<close>

definition jobs_fine :: "ljob list \<Rightarrow> bool" where
  "jobs_fine js \<longleftrightarrow> map fst js = [0..<length js] \<and> (\<forall>j \<in> set js. 0 < run_of j \<and> 0 < tix_of j)"

text \<open>The slices that a run time takes.\<close>

definition slices_for :: "int \<Rightarrow> int \<Rightarrow> int" where "slices_for q r = (r + q - 1) div q"

definition live :: "ljob \<Rightarrow> int" where "live j = (if run_of j > 0 then 1 else 0)"

definition linv :: "int \<Rightarrow> ljob list \<Rightarrow> lottery \<Rightarrow> bool" where
  "linv q js s \<longleftrightarrow> 1 \<le> q \<and> jobs_fine js \<and> map fst (joblist s) = map fst js \<and>
     (\<forall>i < length js. 0 \<le> run_of (joblist s ! i) \<and> tix_of (joblist s ! i) = (if run_of (joblist s ! i) = 0 then 0 else tix_of (js ! i))) \<and>
     tickTotal s = sum_list (map tix_of (joblist s)) \<and> jobs s = sum_list (map live (joblist s)) \<and>
     distinct (map fst (finished s)) \<and> set (map fst (finished s)) = {i. i < length js \<and> run_of (joblist s ! i) = 0} \<and>
     clock s + q * sum_list (map (slices_for q \<circ> run_of) (joblist s)) = q * sum_list (map (slices_for q \<circ> run_of) js)"

lemma sum_map_update: "i < length xs \<Longrightarrow> sum_list (map f (xs[i := v])) = sum_list (map f xs) + f v - (f (xs ! i) :: int)"
  by (simp add: map_update sum_list_update_int)

lemma slices_for_step:
  assumes "1 \<le> q" "0 < r"
  shows "slices_for q (if q \<le> r then r - q else 0) = slices_for q r - 1"
proof (cases "q \<le> r")
  case True
  have "(r + q - 1) div q = (r - 1 + q) div q" by (simp add: algebra_simps)
  also have "\<dots> = (r - 1) div q + 1" using assms(1) by (intro div_add_self2) simp
  finally show ?thesis using True by (simp add: slices_for_def)
next
  case False
  then have "(r - 1) div q = 0" using assms by (simp add: div_pos_pos_trivial)
  then have "(r - 1 + q) div q = 1" using assms(1) by (subst div_add_self2) simp_all
  then have "(r + q - 1) div q = 1" by (simp add: algebra_simps)
  then show ?thesis using False assms(1) by (simp add: slices_for_def)
qed

lemma linvD:
  assumes "linv q js s"
  shows "1 \<le> q" "jobs_fine js" "length (joblist s) = length js" "map fst (joblist s) = [0..<length js]"
    "\<And>i. i < length js \<Longrightarrow> 0 \<le> run_of (joblist s ! i)" "\<And>i. i < length js \<Longrightarrow> tix_of (joblist s ! i) = (if run_of (joblist s ! i) = 0 then 0 else tix_of (js ! i))"
    "\<forall>j \<in> set (joblist s). 0 \<le> run_of j \<and> 0 \<le> tix_of j" "tickTotal s = sum_list (map tix_of (joblist s))" "jobs s = sum_list (map live (joblist s))"
proof -
  show len: "length (joblist s) = length js" using assms unfolding linv_def by (metis length_map)
  show "1 \<le> q" "jobs_fine js" "tickTotal s = sum_list (map tix_of (joblist s))" "jobs s = sum_list (map live (joblist s))" using assms unfolding linv_def by blast+
  show "map fst (joblist s) = [0..<length js]" using assms unfolding linv_def jobs_fine_def by simp
  show r: "0 \<le> run_of (joblist s ! i)" and t: "tix_of (joblist s ! i) = (if run_of (joblist s ! i) = 0 then 0 else tix_of (js ! i))" if "i < length js" for i
    using assms that unfolding linv_def by blast+
  have "0 < tix_of (js ! i)" if "i < length js" for i using assms nth_mem[OF that] unfolding linv_def jobs_fine_def by blast
  then show "\<forall>j \<in> set (joblist s). 0 \<le> run_of j \<and> 0 \<le> tix_of j" using r t len by (force simp: in_set_conv_nth)
qed

lemma fst_joblist: "linv q js s \<Longrightarrow> i < length js \<Longrightarrow> fst (joblist s ! i) = i"
proof -
  assume a: "linv q js s" "i < length js"
  then have "fst (joblist s ! i) = map fst (joblist s) ! i" using linvD(3) by simp
  then show ?thesis using linvD(4)[OF a(1)] a(2) by simp
qed

lemma live_nonneg: "0 \<le> live j"
  by (simp add: live_def)

text \<open>While a job remains, the tickets do not run out.\<close>

lemma tickets_remain:
  assumes "linv q js s" "jobs s \<noteq> 0"
  shows "0 < tickTotal s"
proof -
  have "\<exists>i < length js. run_of (joblist s ! i) \<noteq> 0"
  proof (rule ccontr)
    assume "\<not> ?thesis"
    then have "\<forall>j \<in> set (joblist s). live j = 0" using linvD(3)[OF assms(1)] by (force simp: in_set_conv_nth live_def)
    then have "sum_list (map live (joblist s)) = 0" by (simp add: sum_list_0 cong: map_cong)
    then show False using assms(2) linvD(9)[OF assms(1)] by simp
  qed
  then obtain i where i: "i < length js" "run_of (joblist s ! i) \<noteq> 0" by blast
  then have "0 < tix_of (joblist s ! i)" using linvD(2,6)[OF assms(1)] nth_mem[OF i(1)] by (auto simp: jobs_fine_def)
  also have "\<dots> \<le> sum_list (map tix_of (joblist s))"
    by (rule member_le_sum_int) (use i linvD(3,7)[OF assms(1)] in auto)
  finally show ?thesis using linvD(8)[OF assms(1)] by simp
qed

text \<open>A slice of an unfinished job keeps the books.\<close>

lemma run_winner_ok:
  assumes inv: "linv q js s" and i: "i < length js" and run: "0 < run_of (joblist s ! i)"
  shows "\<exists>s'. run_winner q s (joblist s ! i) = Inr s' \<and> linv q js s' \<and> sum_list (map run_of (joblist s')) < sum_list (map run_of (joblist s))"
proof -
  note I = linvD[OF inv]
  let ?j = "joblist s ! i"
  define r where "r = (if q \<le> run_of ?j then run_of ?j - q else 0)"
  define t where "t = (if r = 0 then 0 else tix_of ?j)"
  define s' where "s' = s\<lparr>clock := clock s + q, tickTotal := tickTotal s - (if r = 0 then tix_of ?j else 0), jobs := jobs s - (if r = 0 then 1 else 0),
    finished := finished s @ (if r = 0 then [(i, clock s + q)] else []), joblist := (joblist s)[i := (i, r, t)], won := Some (i, r, t)\<rparr>"
  have len: "i < length (joblist s)" using i I(3) by simp
  have j: "?j = (i, run_of ?j, tix_of ?j)" using fst_joblist[OF inv i] by (simp add: run_of_def tix_of_def prod_eq_iff)
  have e: "run_winner q s ?j = Inr s'"
    using len by (subst j) (simp add: run_winner_def s'_def r_def t_def Let_def)
  have r: "0 \<le> r" "r < run_of ?j" using run I(1) by (auto simp: r_def)
  have js': "joblist s' = (joblist s)[i := (i, r, t)]" "run_of (i, r, t) = r" "tix_of (i, r, t) = t" by (simp_all add: s'_def run_of_def tix_of_def)
  have tx: "tix_of ?j = tix_of (js ! i)" using I(6)[OF i] run by simp
  have "linv q js s'"
    unfolding linv_def
  proof (intro conjI allI impI)
    show "map fst (joblist s') = map fst js" 
    proof -
      have "map fst (joblist s') = (map fst (joblist s))[i := i]" unfolding js'(1) by (simp add: map_update)
      also have "\<dots> = map fst (joblist s)" using linvD(4)[OF inv] i by (simp add: list_update_same_conv)
      finally show ?thesis using inv unfolding linv_def by simp
    qed
    show "0 \<le> run_of (joblist s' ! k)" "tix_of (joblist s' ! k) = (if run_of (joblist s' ! k) = 0 then 0 else tix_of (js ! k))" if "k < length js" for k
      using I(5,6)[OF that] r(1) tx that I(3) js'(2,3) unfolding js'(1) by (cases "k = i"; simp add: t_def)+
    show "tickTotal s' = sum_list (map tix_of (joblist s'))" using I(8) js'(3) unfolding js'(1) sum_map_update[OF len] by (simp add: s'_def t_def)
    show "jobs s' = sum_list (map live (joblist s'))" using I(9) js'(2) run r(1) unfolding js'(1) sum_map_update[OF len] by (simp add: s'_def live_def)
    have old: "distinct (map fst (finished s))" "set (map fst (finished s)) = {k. k < length js \<and> run_of (joblist s ! k) = 0}" using inv unfolding linv_def by blast+
    then have ni: "i \<notin> set (map fst (finished s))" using run by simp
    then show "distinct (map fst (finished s'))" using old(1) by (simp add: s'_def)
    have "{k. k < length js \<and> run_of (joblist s' ! k) = 0} = {k. k < length js \<and> run_of (joblist s ! k) = 0} \<union> (if r = 0 then {i} else {})"
      using i run I(3) js'(2) unfolding js'(1) by (auto simp: nth_list_update)
    then show "set (map fst (finished s')) = {k. k < length js \<and> run_of (joblist s' ! k) = 0}" using old(2) by (simp add: s'_def)
    have "slices_for q r = slices_for q (run_of ?j) - 1" using slices_for_step[OF I(1) run] by (simp add: r_def)
    then have "sum_list (map (slices_for q \<circ> run_of) (joblist s')) = sum_list (map (slices_for q \<circ> run_of) (joblist s)) - 1"
      unfolding js'(1) sum_map_update[OF len] by (simp add: js'(2))
    moreover have "clock s + q * sum_list (map (slices_for q \<circ> run_of) (joblist s)) = q * sum_list (map (slices_for q \<circ> run_of) js)" using inv unfolding linv_def by blast
    moreover have "clock s' = clock s + q" by (simp add: s'_def)
    ultimately show "clock s' + q * sum_list (map (slices_for q \<circ> run_of) (joblist s')) = q * sum_list (map (slices_for q \<circ> run_of) js)"
      by (simp only: right_diff_distrib mult_1_right)
  qed (use I in simp_all)
  moreover have "sum_list (map run_of (joblist s')) < sum_list (map run_of (joblist s))" using r(2) unfolding js'(1) sum_map_update[OF len] js'(2) by simp
  ultimately show ?thesis using e by blast
qed

lemma slice_ok:
  assumes inv: "linv q js s" and "jobs s \<noteq> 0"
  shows "\<exists>s'. slice q s k = Inr s' \<and> linv q js s' \<and> sum_list (map run_of (joblist s')) < sum_list (map run_of (joblist s))"
proof -
  note I = linvD[OF inv]
  have tt: "0 < tickTotal s" using tickets_remain[OF assms] .
  let ?w = "scaled k 1000001 mod tickTotal s"
  have "0 \<le> ?w" "?w < 0 + sum_list (map tix_of (joblist s))" using tt I(8) by simp_all
  with I(7) obtain i where i: "i < length (joblist s)" "pick_winner ?w 0 (joblist s) = Some (joblist s ! i)" "0 + tickets_before (joblist s) i \<le> ?w"
    "?w < 0 + tickets_before (joblist s) i + tix_of (joblist s ! i)" using pick_winner_range[of "joblist s" 0 ?w] by blast
  then have i': "i < length js" "0 < tix_of (joblist s ! i)" using I(3) by auto
  then have "0 < run_of (joblist s ! i)" using I(5,6)[of i] by (auto split: if_splits)
  from run_winner_ok[OF inv i'(1) this] i(2) tt show ?thesis by (auto simp: slice_def)
qed

lemma lottery_init_inv: "jobs_fine js \<Longrightarrow> 1 \<le> q \<Longrightarrow> linv q js (lottery_init js)"
proof -
  assume fine: "jobs_fine js" and q: "1 \<le> q"
  have "map live js = map (\<lambda>_. 1) js" using fine by (auto simp: jobs_fine_def live_def)
  then have "sum_list (map live js) = sum_list (map (\<lambda>_. 1 :: int) js)" by (rule arg_cong)
  then have "sum_list (map live js) = int (length js)" by (simp add: sum_list_triv)
  moreover have "0 \<le> run_of (js ! i) \<and> run_of (js ! i) \<noteq> 0" if "i < length js" for i using fine nth_mem[OF that] by (force simp: jobs_fine_def)
  ultimately show ?thesis using fine q unfolding linv_def lottery_init_def by simp
qed

lemma lottery_loop_ok:
  assumes "linv q js s" "sum_list (map run_of (joblist s)) \<le> int n" "n \<le> length draws" "jobs s = 0 \<longrightarrow> n = 0"
  shows "\<exists>s'. lottery_loop q n draws s = Inr s' \<and> linv q js s' \<and> jobs s' = 0"
  using assms
proof (induction q n draws s rule: lottery_loop.induct)
  case (1 q draws s)
  have "live j = 0" if "j \<in> set (joblist s)" for j
  proof -
    have "run_of j \<le> sum_list (map run_of (joblist s))" by (rule member_le_sum_int) (use that linvD(7)[OF "1.prems"(1)] in auto)
    then show ?thesis using "1.prems"(2) by (simp add: live_def)
  qed
  then have "sum_list (map live (joblist s)) = 0" by (simp add: sum_list_0 cong: map_cong)
  then show ?case using "1.prems"(1) linvD(9)[OF "1.prems"(1)] by simp
next
  case (3 q n k draws s)
  from slice_ok[OF "3.prems"(1), of k] "3.prems"(4) obtain s' where s': "slice q s k = Inr s'" "linv q js s'"
    "sum_list (map run_of (joblist s')) < sum_list (map run_of (joblist s))" by auto
  show ?case
  proof (cases "jobs s' = 0")
    case True
    then show ?thesis using s' by simp
  next
    case False
    have "\<exists>s''. lottery_loop q n draws s' = Inr s'' \<and> linv q js s'' \<and> jobs s'' = 0"
      by (rule "3.IH"[OF False s'(2)]) (use s'(3) "3.prems" False in auto)
    then show ?thesis using s'(1) False by simp
  qed
qed simp

section \<open>Reading the jobs\<close>

definition show_entry :: "int \<times> int \<Rightarrow> string" where
  "show_entry e = str_int (fst e) @ CHR '':'' # str_int (snd e)"

definition numbered :: "nat \<Rightarrow> (int \<times> int) list \<Rightarrow> ljob list" where
  "numbered n es = zip [n..<n + length es] es"

lemma entry_of_show: "entry_of n (show_entry (r, t)) = Inr (n, r, t)"
  by (simp add: entry_of_def show_entry_def py_simps str_int_no_sep)

lemma numbered_Cons: "numbered n (e # es) = (n, e) # numbered (Suc n) es"
proof -
  have "[n..<n + length (e # es)] = n # [Suc n..<Suc n + length es]" by (simp add: upt_conv_Cons del: upt_Suc)
  then show ?thesis unfolding numbered_def by (simp del: upt_Suc)
qed

lemma given_entries_show: "given_entries n (map show_entry es) = Inr (numbered n es)"
proof (induction es arbitrary: n)
  case (Cons e es)
  obtain r t where "e = (r, t)" by fastforce
  then show ?case using Cons entry_of_show by (simp add: numbered_Cons)
qed (simp add: numbered_def)

lemma entries_show:
  assumes "es \<noteq> []"
  shows "entries (join_with CHR '','' (map show_entry es)) njobs maxlen maxticket draws = Inr (numbered 0 es, draws)"
proof -
  have sep: "CHR '','' \<notin> set (show_entry e)" for e by (simp add: show_entry_def str_int_no_sep)
  then have sp: "split_on CHR '','' (join_with CHR '','' (map show_entry es)) = map show_entry es" using assms by (intro split_join) auto
  moreover have "join_with CHR '','' (map show_entry es) \<noteq> []"
  proof
    assume "join_with CHR '','' (map show_entry es) = []"
    with sp have "map show_entry es = [[]]" by simp
    then show False by (cases es) (auto simp: show_entry_def)
  qed
  ultimately show ?thesis by (simp add: entries_def given_entries_show)
qed

lemma numbered_fine: "\<forall>(r, t) \<in> set es. 0 < r \<and> 0 < t \<Longrightarrow> jobs_fine (numbered 0 es)"
  by (auto simp: jobs_fine_def numbered_def run_of_def tix_of_def dest!: set_zip_rightD)

lemma numbered_runs: "map run_of (numbered n es) = map fst es" "map tix_of (numbered n es) = map snd es"
proof -
  have 1: "run_of = fst \<circ> snd" and 2: "tix_of = snd \<circ> snd" by (simp_all add: fun_eq_iff run_of_def tix_of_def)
  have z: "map snd (numbered n es) = es" by (simp add: numbered_def)
  show "map run_of (numbered n es) = map fst es" unfolding 1 map_map[symmetric] z ..
  show "map tix_of (numbered n es) = map snd es" unfolding 2 map_map[symmetric] z ..
qed

section \<open>Properties\<close>

text \<open>The states a simulation can be in.\<close>

inductive lreach :: "int \<Rightarrow> ljob list \<Rightarrow> lottery \<Rightarrow> bool" for q js where
  start: "lreach q js (lottery_init js)"
| slice: "lreach q js s \<Longrightarrow> jobs s \<noteq> 0 \<Longrightarrow> slice q s k = Inr s' \<Longrightarrow> lreach q js s'"

lemma lreach_inv: "lreach q js s \<Longrightarrow> jobs_fine js \<Longrightarrow> 1 \<le> q \<Longrightarrow> linv q js s"
proof (induction rule: lreach.induct)
  case (slice s k s')
  then show ?case using slice_ok[of q js s k] by auto
qed (rule lottery_init_inv)

text \<open>C19. Lottery scheduling. Every list of jobs with positive run times and tickets is read and, for every sequence of random numbers, run to the end within the
  announced number of draws: no error, every job is reported as done exactly once, no ticket is left, and the clock has advanced by the
  slices that the jobs need.\<close>

theorem lottery_completes:
  assumes "es \<noteq> []" "\<forall>(r, t) \<in> set es. 0 < r \<and> 0 < t" "1 \<le> q" "sum_list (map fst es) \<le> int (length draws)"
  shows "\<exists>s. lottery_main (join_with CHR '','' (map show_entry es)) njobs maxlen maxticket q draws = Inr s \<and> jobs s = 0 \<and> tickTotal s = 0 \<and>
    (\<forall>j \<in> set (joblist s). run_of j = 0) \<and> distinct (map fst (finished s)) \<and> set (map fst (finished s)) = {0..<length es} \<and>
    clock s = q * sum_list (map (slices_for q) (map fst es))"
proof -
  let ?js = "numbered 0 es"
  have fine: "jobs_fine ?js" using numbered_fine[OF assms(2)] .
  have runs: "sum_list (map run_of ?js) = sum_list (map fst es)" by (simp only: numbered_runs)
  have len: "length ?js = length es" by (simp add: numbered_def)
  have inv: "linv q ?js (lottery_init ?js)" by (rule lottery_init_inv[OF fine assms(3)])
  have nn: "0 \<le> sum_list (map fst es)" by (rule sum_list_nonneg) (use assms(2) in force)
  have "\<exists>s. lottery_loop q (nat (sum_list (map run_of ?js))) draws (lottery_init ?js) = Inr s \<and> linv q ?js s \<and> jobs s = 0"
  proof (rule lottery_loop_ok[OF inv])
    show "sum_list (map run_of (joblist (lottery_init ?js))) \<le> int (nat (sum_list (map run_of ?js)))" using nn runs by (simp add: lottery_init_def)
    show "nat (sum_list (map run_of ?js)) \<le> length draws" using assms(4) runs by simp
    show "jobs (lottery_init ?js) = 0 \<longrightarrow> nat (sum_list (map run_of ?js)) = 0" using assms(1) len by (simp add: lottery_init_def)
  qed
  then obtain s where s: "lottery_run q ?js draws = Inr s" "linv q ?js s" "jobs s = 0" by (auto simp: lottery_run_def)
  note I = linvD[OF s(2)]
  have fin: "run_of j = 0" if j: "j \<in> set (joblist s)" for j
  proof -
    have "live j \<le> sum_list (map live (joblist s))" by (rule member_le_sum_int) (use j live_nonneg in auto)
    then show ?thesis using I(7,9) s(3) j by (force simp: live_def split: if_splits)
  qed
  then have z: "run_of (joblist s ! i) = 0" if "i < length es" for i using I(3) len that by simp
  have "tix_of j = 0" if "j \<in> set (joblist s)" for j
    using that I(3,6) z len by (auto simp: in_set_conv_nth)
  then have "tickTotal s = 0" using I(8) by (simp add: sum_list_0 cong: map_cong)
  moreover have "set (map fst (finished s)) = {0..<length es}" "distinct (map fst (finished s))" using s(2) z len unfolding linv_def by auto
  moreover have "clock s = q * sum_list (map (slices_for q) (map fst es))"
  proof -
    have "slices_for q 0 = 0" using assms(3) by (simp add: slices_for_def)
    then have "sum_list (map (slices_for q \<circ> run_of) (joblist s)) = 0" using fin by (simp add: sum_list_0 cong: map_cong)
    moreover have "map (slices_for q \<circ> run_of) ?js = map (slices_for q) (map fst es)" using numbered_runs(1)[of 0 es] by (metis map_map)
    moreover have "clock s + q * sum_list (map (slices_for q \<circ> run_of) (joblist s)) = q * sum_list (map (slices_for q \<circ> run_of) ?js)" using s(2) unfolding linv_def by blast
    ultimately show ?thesis by simp
  qed
  ultimately show ?thesis using s fin entries_show[OF assms(1)] by (auto simp: lottery_main_def)
qed

text \<open>C29. Fairness. In every state of a simulation the tickets in play are those of the unfinished jobs, and of the winning tickets exactly as many fall to
  an unfinished job as it was given at the start, none to a finished one.\<close>

theorem lottery_fair:
  assumes "lreach q js s" "jobs_fine js" "1 \<le> q" "i < length js"
  shows "card {w. 0 \<le> w \<and> w < tickTotal s \<and> map_option fst (pick_winner w 0 (joblist s)) = Some i} =
      (if run_of (joblist s ! i) = 0 then 0 else nat (tix_of (js ! i))) \<and>
    tickTotal s = (\<Sum>i \<leftarrow> [0..<length js]. if run_of (joblist s ! i) = 0 then 0 else tix_of (js ! i))"
proof -
  have inv: "linv q js s" using lreach_inv[OF assms(1-3)] .
  note I = linvD[OF inv]
  have "map fst (joblist s) = [0..<length (joblist s)]" "i < length (joblist s)" using I(3,4) assms(4) by simp_all
  moreover have "\<forall>j \<in> set (joblist s). 0 \<le> tix_of j" using I(7) by blast
  ultimately have "{w. 0 \<le> w \<and> w < tickTotal s \<and> map_option fst (pick_winner w 0 (joblist s)) = Some i} =
    {tickets_before (joblist s) i..<tickets_before (joblist s) i + tix_of (joblist s ! i)}" using winners_of[of "joblist s" i] I(8) by simp
  then have "card {w. 0 \<le> w \<and> w < tickTotal s \<and> map_option fst (pick_winner w 0 (joblist s)) = Some i} = (if run_of (joblist s ! i) = 0 then 0 else nat (tix_of (js ! i)))"
    using I(6)[OF assms(4)] by simp
  moreover have "map tix_of (joblist s) = map (\<lambda>i. if run_of (joblist s ! i) = 0 then 0 else tix_of (js ! i)) [0..<length js]"
    by (rule nth_equalityI) (use I(3,6) in auto)
  then have "tickTotal s = (\<Sum>i \<leftarrow> [0..<length js]. if run_of (joblist s ! i) = 0 then 0 else tix_of (js ! i))" using I(8) by simp
  ultimately show ?thesis by blast
qed

text \<open>Lengths and tickets that cannot be drawn. With a maximum of one (or zero) every drawn value is 0 and the program draws for ever, whatever the
  random numbers are.\<close>

theorem lottery_draws_forever:
  assumes "0 < njobs" "0 \<le> maxlen" "maxlen \<le> 1" "\<forall>k \<in> set draws. drawn k"
  shows "lottery_main [] njobs maxlen maxticket q draws = Inl NoReturn"
proof -
  have "draw_nonzero maxlen draws = Inl NoReturn"
    using assms(4)
  proof (induction draws)
    case (Cons k draws)
    have "scaled k maxlen = 0"
    proof (cases "maxlen = 0")
      case False
      then show ?thesis using scaled_range[of k maxlen] Cons.prems assms(2,3) by auto
    qed (simp add: scaled_def)
    then show ?case using Cons assms(2) by (simp add: int_scaled_def)
  qed simp
  moreover obtain n where "nat njobs = Suc n" using assms(1) by (metis gr0_conv_Suc zero_less_nat_eq)
  ultimately show ?thesis by (simp add: lottery_main_def entries_def)
qed

theorem lottery_completes_witness:
  "\<exists>s. lottery_main ''10:1,3:7'' 3 10 100 2 (replicate 13 (2 ^ 52)) = Inr s \<and> jobs s = 0 \<and> set (map fst (finished s)) = {0..<2} \<and> clock s = 14"
proof -
  have "join_with CHR '','' (map show_entry [(10, 1), (3, 7)]) = ''10:1,3:7''"
    by code_simp
  with lottery_completes[of "[(10, 1), (3, 7)]" 2 "replicate 13 (2 ^ 52)" 3 10 100] show ?thesis by (auto simp: slices_for_def)
qed

theorem lottery_fair_witness:
  "card {w. 0 \<le> w \<and> w < tickTotal (lottery_init [(0, 5, 25), (1, 4, 75)]) \<and> map_option fst (pick_winner w 0 (joblist (lottery_init [(0, 5, 25), (1, 4, 75)]))) = Some 1} = 75"
  using lottery_fair[OF lreach.start, of "[(0, 5, 25), (1, 4, 75)]" 1 1] by (simp add: jobs_fine_def run_of_def tix_of_def lottery_init_def upt_rec)

theorem lottery_draws_forever_witness: "lottery_main [] 3 1 100 1 [0, 2 ^ 52, 2 ^ 53 - 1] = Inl NoReturn"
  by (rule lottery_draws_forever) simp_all

text \<open>A job with no tickets can never be finished: once the others are done the program divides by zero.\<close>

lemma lottery_no_tickets:
  "(case lottery_main ''1:1,5:0'' 3 10 100 1 (replicate 6 5) of Inl e \<Rightarrow> Some e | Inr _ \<Rightarrow> None) = Some ZeroDivisionError"
  by code_simp

end
