(* ===== verification/Address_Spaces.thy ===== *)
theory Address_Spaces
  imports Machines
begin

text \<open>
  Three address-translation programs: base and bounds (\<^verbatim>\<open>ostep/homework/vm-mechanism/relocation.py\<close>), two segments that grow towards
  each other (\<^verbatim>\<open>ostep/homework/vm-segmentation/segmentation.py\<close>) and a linear page table
  (\<^verbatim>\<open>ostep/homework/vm-paging/paging-linear-translate.py\<close>). Each reads sizes and registers, draws what is not given, checks it, and
  translates a list of virtual addresses. Random numbers are numerators over \<open>2^53\<close>; the programs consume them in order.
\<close>

section \<open>Sizes and random choices\<close>

text \<open>Sizes with a unit; all three programs carry the same function.\<close>

definition convert :: "string \<Rightarrow> int res" where
  "convert sz =
     (if sz = [] then Inl IndexError
      else let lastchar = last sz
           in if lastchar = CHR ''k'' \<or> lastchar = CHR ''K'' then bnd (int_of_string (butlast sz)) (\<lambda>n. Inr (n * 1024))
              else if lastchar = CHR ''m'' \<or> lastchar = CHR ''M'' then bnd (int_of_string (butlast sz)) (\<lambda>n. Inr (n * (1024 * 1024)))
              else if lastchar = CHR ''g'' \<or> lastchar = CHR ''G'' then bnd (int_of_string (butlast sz)) (\<lambda>n. Inr (n * (1024 * 1024 * 1024)))
              else int_of_string sz)"

definition next_draw :: "int list \<Rightarrow> (int \<times> int list) res" where
  "next_draw draws = (case draws of [] \<Rightarrow> Inl NoReturn | k # ks \<Rightarrow> Inr (k, ks))"

text \<open>\<^verbatim>\<open>int(asize/4.0 + (asize/4.0 * random.random()))\<close>\<close>

definition quarter_len :: "int \<Rightarrow> int \<Rightarrow> int" where
  "quarter_len asize k = (if 0 \<le> asize then asize * (2 ^ 53 + k) div 2 ^ 55 else - (- asize * (2 ^ 53 + k) div 2 ^ 55))"

text \<open>A register that is \<open>-1\<close> is drawn.\<close>

definition pick_len :: "int \<Rightarrow> int \<Rightarrow> int list \<Rightarrow> (int \<times> int list) res" where
  "pick_len asize len draws =
     (if len = -1 then bnd (next_draw draws) (\<lambda>(k, draws). Inr (quarter_len asize k, draws)) else Inr (len, draws))"

fun draw_base :: "int \<Rightarrow> (int \<Rightarrow> bool) \<Rightarrow> int list \<Rightarrow> (int \<times> int list) res" where
  "draw_base psize ok [] = Inl NoReturn"
| "draw_base psize ok (k # draws) = (let base = int_scaled k psize in if ok base then Inr (base, draws) else draw_base psize ok draws)"

text \<open>\<^verbatim>\<open>abort_if\<close>, and the \<^verbatim>\<open>if ...: exit(1)\<close> of the other programs.\<close>

definition abort_if :: "bool \<Rightarrow> 'a res \<Rightarrow> 'a res" where
  "abort_if c m = (if c then Inl SysExit else m)"

fun draw_addrs :: "int \<Rightarrow> nat \<Rightarrow> int list \<Rightarrow> int list res" where
  "draw_addrs asize 0 draws = Inr []"
| "draw_addrs asize (Suc n) draws = bnd (next_draw draws) (\<lambda>(k, draws). bnd (draw_addrs asize n draws) (\<lambda>vs. Inr (int_scaled k asize # vs)))"

text \<open>The addresses of the option \<^verbatim>\<open>-A\<close> are converted one by one when their turn comes.\<close>

definition addr_inputs :: "string \<Rightarrow> int \<Rightarrow> int \<Rightarrow> int list \<Rightarrow> int res list res" where
  "addr_inputs addresses asize num draws =
     (if addresses = ''-1'' then bnd (draw_addrs asize (nat num) draws) (\<lambda>vs. Inr (map Inr vs))
      else Inr (map int_of_string (split_on CHR '','' addresses)))"

fun trace_with :: "(int \<Rightarrow> 'a res) \<Rightarrow> int res list \<Rightarrow> (int \<times> 'a) list res" where
  "trace_with f [] = Inr []"
| "trace_with f (x # xs) = bnd x (\<lambda>v. bnd (f v) (\<lambda>t. bnd (trace_with f xs) (\<lambda>ts. Inr ((v, t) # ts))))"

section \<open>Base and bounds\<close>

definition reloc_translate :: "int \<Rightarrow> int \<Rightarrow> int \<Rightarrow> int option" where
  "reloc_translate base limit vaddr = (if vaddr \<ge> limit then None else Some (vaddr + base))"

definition reloc_sizes :: "int \<Rightarrow> int \<Rightarrow> 'a res \<Rightarrow> 'a res" where
  "reloc_sizes asize psize m = abort_if (psize \<le> 1) (abort_if (asize = 0) (abort_if (psize \<le> asize) m))"

definition reloc_registers :: "int \<Rightarrow> int \<Rightarrow> int \<Rightarrow> int \<Rightarrow> int list \<Rightarrow> (int \<times> int \<times> int list) res" where
  "reloc_registers asize psize limit base draws =
     bnd (pick_len asize limit draws) (\<lambda>(limit, draws).
     bnd (if base = -1 then draw_base psize (\<lambda>b. b + limit < psize) draws else Inr (base, draws)) (\<lambda>(base, draws).
     abort_if (base + limit > psize) (Inr (base, limit, draws))))"

definition relocation :: "string \<Rightarrow> string \<Rightarrow> string \<Rightarrow> string \<Rightarrow> int \<Rightarrow> int list \<Rightarrow> (int \<times> int \<times> (int \<times> int option) list) res" where
  "relocation asize psize limit base num draws =
     bnd (convert asize) (\<lambda>asize. bnd (convert psize) (\<lambda>psize. reloc_sizes asize psize
     (bnd (convert limit) (\<lambda>limit. bnd (convert base) (\<lambda>base.
      bnd (reloc_registers asize psize limit base draws) (\<lambda>(base, limit, draws).
      bnd (draw_addrs asize (nat num) draws) (\<lambda>vs.
      Inr (base, limit, map (\<lambda>v. (v, reloc_translate base limit v)) vs))))))))"

section \<open>Segmentation\<close>

text \<open>Inside the program \<open>base1\<close> is the low end of the segment that grows down.\<close>

record seg_regs =
  base0 :: int
  len0 :: int
  base1 :: int
  len1 :: int

definition seg_checks :: "int \<Rightarrow> int \<Rightarrow> seg_regs \<Rightarrow> seg_regs res" where
  "seg_checks asize psize g =
     abort_if (psize < base0 g + len0 g - 1) (abort_if (psize < base1 g)
     (abort_if (2 * len0 g > asize) (abort_if (2 * len1 g > asize)
     (abort_if (len0 g + base0 g > base1 g \<and> base1 g > base0 g) (Inr g)))))"

definition seg_sizes :: "int \<Rightarrow> int \<Rightarrow> 'a res \<Rightarrow> 'a res" where
  "seg_sizes asize psize m = abort_if (psize \<le> 4) (abort_if (asize = 0) (abort_if (psize \<le> asize) m))"

definition seg_registers :: "int \<Rightarrow> int \<Rightarrow> seg_regs \<Rightarrow> int list \<Rightarrow> (seg_regs \<times> int list) res" where
  "seg_registers asize psize opt draws =
     bnd (pick_len asize (len0 opt) draws) (\<lambda>(l0, draws).
     bnd (pick_len asize (len1 opt) draws) (\<lambda>(l1, draws).
     abort_if ((base0 opt = -1 \<or> base1 opt = -1) \<and> psize \<le> 2 * asize)
    (bnd (if base0 opt = -1 then draw_base psize (\<lambda>b. b + l0 < psize) draws else Inr (base0 opt, draws)) (\<lambda>(b0, draws).
     bnd (if base1 opt = -1 then draw_base psize (\<lambda>b. b + l1 < psize \<and> (b > b0 + l0 \<or> b + l1 < b0)) draws
          else Inr (base1 opt - l1, draws)) (\<lambda>(b1, draws).
     bnd (seg_checks asize psize \<lparr>base0 = b0, len0 = l0, base1 = b1, len1 = l1\<rparr>) (\<lambda>g. Inr (g, draws)))))))"

text \<open>The segment is chosen by the upper half of the address space; \<open>None\<close> is a segmentation violation.\<close>

definition seg_translate :: "int \<Rightarrow> seg_regs \<Rightarrow> int \<Rightarrow> (nat \<times> int) option res" where
  "seg_translate asize g vaddr =
     abort_if (vaddr < 0 \<or> vaddr \<ge> asize)
      (Inr (if 2 * vaddr \<ge> asize
            then let paddr = base1 g + len1 g + (vaddr - asize) in if paddr < base1 g then None else Some (1, paddr)
            else if vaddr \<ge> len0 g then None else Some (0, vaddr + base0 g)))"

definition seg_options :: "string \<Rightarrow> string \<Rightarrow> string \<Rightarrow> string \<Rightarrow> seg_regs res" where
  "seg_options l0 l1 b0 b1 =
     bnd (convert l0) (\<lambda>l0. bnd (convert l1) (\<lambda>l1. bnd (convert b0) (\<lambda>b0. bnd (convert b1) (\<lambda>b1. Inr \<lparr>base0 = b0, len0 = l0, base1 = b1, len1 = l1\<rparr>))))"

definition segmentation :: "string \<Rightarrow> string \<Rightarrow> string \<Rightarrow> string \<Rightarrow> string \<Rightarrow> string \<Rightarrow> string \<Rightarrow> int \<Rightarrow> int list \<Rightarrow> (seg_regs \<times> (int \<times> (nat \<times> int) option) list) res" where
  "segmentation asize psize l0 l1 b0 b1 addresses num draws =
     bnd (convert asize) (\<lambda>asize. bnd (convert psize) (\<lambda>psize. seg_sizes asize psize
     (bnd (seg_options l0 l1 b0 b1) (\<lambda>opt.
      bnd (seg_registers asize psize opt draws) (\<lambda>(g, draws).
      bnd (addr_inputs addresses asize num draws) (\<lambda>vs.
      bnd (trace_with (seg_translate asize g) vs) (\<lambda>ts. Inr (g, ts))))))))"

section \<open>Linear page table\<close>

text \<open>\<^verbatim>\<open>mustbemultipleof\<close>: the quotient is whole; \<^verbatim>\<open>mustbepowerof2\<close> with the logarithm rounded down.\<close>

definition mustbemultipleof :: "int \<Rightarrow> int \<Rightarrow> 'a res \<Rightarrow> 'a res" where
  "mustbemultipleof bignum num m = (if num = 0 then Inl ZeroDivisionError else abort_if (\<not> num dvd bignum) m)"

fun log2 :: "nat \<Rightarrow> nat" where
  "log2 n = (if n \<le> 1 then 0 else Suc (log2 (n div 2)))"

declare log2.simps [simp del]

definition bits_of :: "int \<Rightarrow> (nat \<Rightarrow> 'a res) \<Rightarrow> 'a res" where
  "bits_of sz m = (if sz \<le> 0 then Inl ValueError else let bits = log2 (nat sz) in abort_if (2 ^ bits \<noteq> sz) (m bits))"

record lin =
  pagebits :: nat
  pt :: "int list"

text \<open>The entries of the page table: a number decides whether the page is valid, and then frames are drawn, each with a new decision, until one is free.\<close>

fun draw_pte :: "int \<Rightarrow> int \<Rightarrow> int list \<Rightarrow> int list \<Rightarrow> (int \<times> int list \<times> int list) res" where
  "draw_pte pages used_pct used (coin # draws) =
     (if coin * 100 > (100 - used_pct) * 2 ^ 53
      then (case draws of
              [] \<Rightarrow> Inl NoReturn
            | k # draws' \<Rightarrow>
                let u = int_scaled k pages
                in bnd (list_get used u) (\<lambda>x. if x = 0 then bnd (list_put used u 1) (\<lambda>used. Inr (u, used, draws')) else draw_pte pages used_pct used draws'))
      else Inr (-1, used, draws))"
| "draw_pte pages used_pct used [] = Inl NoReturn"

fun draw_table :: "int \<Rightarrow> int \<Rightarrow> nat \<Rightarrow> int list \<Rightarrow> int list \<Rightarrow> (int list \<times> int list) res" where
  "draw_table pages used_pct 0 used draws = Inr ([], draws)"
| "draw_table pages used_pct (Suc n) used draws =
     bnd (draw_pte pages used_pct used draws) (\<lambda>(u, used, draws). bnd (draw_table pages used_pct n used draws) (\<lambda>(pt, draws). Inr (u # pt, draws)))"

definition lin_setup :: "int \<Rightarrow> int \<Rightarrow> int \<Rightarrow> int \<Rightarrow> int list \<Rightarrow> (lin \<times> int list) res" where
  "lin_setup asize psize pagesize used_pct draws =
     abort_if (psize \<le> 1) (abort_if (asize < 1) (abort_if (psize \<le> asize) (abort_if (psize \<ge> 2 ^ 30 \<or> asize \<ge> 2 ^ 30)
     (mustbemultipleof asize pagesize (mustbemultipleof psize pagesize
     (bits_of asize (\<lambda>vabits. bits_of pagesize (\<lambda>pb.
        let pages = psize div pagesize
        in bnd (draw_table pages used_pct (nat (asize div pagesize)) (replicate (nat pages) 0) draws) (\<lambda>(pt, draws).
           Inr (\<lparr>pagebits = pb, pt = pt\<rparr>, draws)))))))))) "

definition lin_translate :: "lin \<Rightarrow> int \<Rightarrow> int option res" where
  "lin_translate s vaddr =
     (let pagemask = push_bit (pagebits s) 1 - 1; vpnmask = 0xFFFFFFFF AND NOT pagemask;
          vpn = drop_bit (pagebits s) (vaddr AND vpnmask)
      in bnd (list_get (pt s) vpn) (\<lambda>pfn.
           Inr (if pfn < 0 then None else Some (push_bit (pagebits s) pfn OR (vaddr AND pagemask)))))"

definition linear_paging :: "string \<Rightarrow> string \<Rightarrow> string \<Rightarrow> int \<Rightarrow> string \<Rightarrow> int \<Rightarrow> int list \<Rightarrow> (lin \<times> (int \<times> int option) list) res" where
  "linear_paging asize psize pagesize used_pct addresses num draws =
     bnd (convert asize) (\<lambda>asize. bnd (convert psize) (\<lambda>psize. bnd (convert pagesize) (\<lambda>pagesize.
     bnd (lin_setup asize psize pagesize used_pct draws) (\<lambda>(s, draws).
     bnd (addr_inputs addresses asize num draws) (\<lambda>vs.
     bnd (trace_with (lin_translate s) vs) (\<lambda>ts. Inr (s, ts)))))))"

section \<open>Draws\<close>

lemma abort_if_False [simp]: "abort_if False m = m" "abort_if True m = Inl SysExit"
  by (simp_all add: abort_if_def)

lemma next_draw_ok: "\<forall>k \<in> set draws. drawn k \<Longrightarrow> lucky (\<lambda>(k, ds). drawn k \<and> set ds \<subseteq> set draws \<and> length draws = Suc (length ds)) (next_draw draws)"
  by (cases draws) (auto simp: next_draw_def)

lemma quarter_len_range:
  assumes "drawn k" "0 < a"
  shows "0 \<le> quarter_len a k \<and> 2 * quarter_len a k \<le> a"
proof -
  have "a * (2 ^ 53 + k) \<le> a * 2 ^ 54" using assms by (intro mult_left_mono) auto
  then have "a * (2 ^ 53 + k) div 2 ^ 55 \<le> a * 2 ^ 54 div 2 ^ 55" by (rule zdiv_mono1) simp
  also have "\<dots> = a div 2" by simp
  finally show ?thesis using assms by (auto simp: quarter_len_def pos_imp_zdiv_nonneg_iff)
qed

lemma pick_len_ok:
  assumes "\<forall>k \<in> set draws. drawn k" "0 < a" "len = -1 \<or> 0 \<le> len"
  shows "lucky (\<lambda>(l, ds). 0 \<le> l \<and> (if len = -1 then 2 * l \<le> a else l = len) \<and> set ds \<subseteq> set draws \<and> length draws \<le> Suc (length ds)) (pick_len a len draws)"
proof (cases "len = -1")
  case True
  show ?thesis unfolding pick_len_def using True
    by (simp only: if_True refl) (rule lucky_bnd[OF next_draw_ok[OF assms(1)]], use quarter_len_range[OF _ assms(2)] in auto)
qed (use assms(3) in \<open>simp add: pick_len_def\<close>)

lemma draw_base_ok:
  assumes "\<forall>k \<in> set draws. drawn k" "0 < p"
  shows "lucky (\<lambda>(b, ds). 0 \<le> b \<and> b < p \<and> ok b \<and> set ds \<subseteq> set draws) (draw_base p ok draws)"
  using assms(1)
proof (induction draws)
  case (Cons k draws)
  have "lucky (\<lambda>(b, ds). 0 \<le> b \<and> b < p \<and> ok b \<and> set ds \<subseteq> set (k # draws)) (draw_base p ok draws)"
    by (rule lucky_mono[OF Cons.IH]) (use Cons.prems in auto)
  moreover have "0 \<le> int_scaled k p \<and> int_scaled k p < p" using int_scaled_range[of k p] Cons.prems assms(2) by simp
  ultimately show ?case by (auto simp: Let_def)
qed simp

lemma draw_addrs_ok:
  assumes "\<forall>k \<in> set draws. drawn k" "0 < a"
  shows "lucky (\<lambda>vs. length vs = n \<and> (\<forall>v \<in> set vs. 0 \<le> v \<and> v < a)) (draw_addrs a n draws)"
    "n \<le> length draws \<Longrightarrow> \<exists>vs. draw_addrs a n draws = Inr vs"
proof -
  show "lucky (\<lambda>vs. length vs = n \<and> (\<forall>v \<in> set vs. 0 \<le> v \<and> v < a)) (draw_addrs a n draws)"
    using assms(1)
  proof (induction n arbitrary: draws)
    case (Suc n)
    show ?case
    proof (cases draws)
      case (Cons k ks)
      have "lucky (\<lambda>vs. length vs = Suc n \<and> (\<forall>v \<in> set vs. 0 \<le> v \<and> v < a)) (bnd (draw_addrs a n ks) (\<lambda>vs. Inr (int_scaled k a # vs)))"
        by (rule lucky_bnd[OF Suc.IH]) (use Suc.prems Cons int_scaled_range[OF _ assms(2), of k] in auto)
      then show ?thesis by (simp add: Cons next_draw_def)
    qed (simp add: next_draw_def)
  qed simp
  show "n \<le> length draws \<Longrightarrow> \<exists>vs. draw_addrs a n draws = Inr vs"
  proof (induction n arbitrary: draws)
    case (Suc n)
    then obtain k ks where ks: "draws = k # ks" "n \<le> length ks" by (cases draws) auto
    from Suc.IH[OF ks(2)] obtain vs where "draw_addrs a n ks = Inr vs" by blast
    then show ?case by (simp add: ks(1) next_draw_def)
  qed simp
qed

section \<open>Registers\<close>

lemma reloc_registers_ok:
  assumes "\<forall>k \<in> set draws. drawn k" "0 < a" "1 < p" "lim = -1 \<or> 0 \<le> lim" "bs = -1 \<or> 0 \<le> bs"
  shows "lucky (\<lambda>(b, l, ds). 0 \<le> b \<and> b + l \<le> p \<and> set ds \<subseteq> set draws \<and> (lim \<noteq> -1 \<longrightarrow> l = lim) \<and> (bs \<noteq> -1 \<longrightarrow> b = bs)) (reloc_registers a p lim bs draws) \<or>
    reloc_registers a p lim bs draws = Inl SysExit \<and> bs \<noteq> -1"
proof (cases "pick_len a lim draws")
  case (Inl e)
  then show ?thesis using pick_len_ok[OF assms(1,2,4)] by (simp add: reloc_registers_def)
next
  case (Inr r)
  obtain l ds where r: "r = (l, ds)" by fastforce
  from pick_len_ok[OF assms(1,2,4)] Inr r have l: "0 \<le> l" "lim \<noteq> -1 \<longrightarrow> l = lim" "set ds \<subseteq> set draws" by (auto split: if_splits)
  have dr: "\<forall>k \<in> set ds. drawn k" using assms(1) l(3) by blast
  show ?thesis
  proof (cases "bs = -1")
    case True
    have "lucky (\<lambda>(b, l, ds). 0 \<le> b \<and> b + l \<le> p \<and> set ds \<subseteq> set draws \<and> (lim \<noteq> -1 \<longrightarrow> l = lim) \<and> (bs \<noteq> -1 \<longrightarrow> b = bs))
      (bnd (draw_base p (\<lambda>b. b + l < p) ds) (\<lambda>(base, draws). abort_if (base + l > p) (Inr (base, l, draws))))"
      by (rule lucky_bnd[OF draw_base_ok[OF dr]]) (use assms(3) l True in \<open>auto simp: abort_if_def\<close>)
    then show ?thesis using Inr r True by (simp add: reloc_registers_def)
  next
    case False
    then show ?thesis using Inr r l assms(5) by (auto simp: reloc_registers_def abort_if_def)
  qed
qed

text \<open>Two segments inside the memory, apart from each other, and no longer than half of the address space.\<close>

definition segs_ok :: "int \<Rightarrow> int \<Rightarrow> seg_regs \<Rightarrow> bool" where
  "segs_ok a p g \<longleftrightarrow> 0 \<le> base0 g \<and> 0 \<le> len0 g \<and> 2 * len0 g \<le> a \<and> base0 g + len0 g \<le> p \<and> 0 \<le> base1 g \<and> 0 \<le> len1 g \<and> 2 * len1 g \<le> a \<and> base1 g + len1 g \<le> p \<and>
     (base0 g + len0 g \<le> base1 g \<or> base1 g + len1 g \<le> base0 g)"

lemma seg_registers_ok:
  assumes "\<forall>k \<in> set draws. drawn k" "0 < a" "2 * a < p"
  shows "lucky (\<lambda>(g, ds). segs_ok a p g \<and> set ds \<subseteq> set draws) (seg_registers a p \<lparr>base0 = -1, len0 = -1, base1 = -1, len1 = -1\<rparr> draws)"
proof -
  have p: "0 < p" using assms by simp
  have inner: "lucky (\<lambda>(g, ds'). segs_ok a p g \<and> set ds' \<subseteq> set draws)
      (bnd (draw_base p (\<lambda>b. b + l0 < p) ds) (\<lambda>(b0, ds). bnd (draw_base p (\<lambda>b. b + l1 < p \<and> (b > b0 + l0 \<or> b + l1 < b0)) ds) (\<lambda>(b1, ds).
        bnd (seg_checks a p \<lparr>base0 = b0, len0 = l0, base1 = b1, len1 = l1\<rparr>) (\<lambda>g. Inr (g, ds)))))"
    if l: "0 \<le> l0" "2 * l0 \<le> a" "0 \<le> l1" "2 * l1 \<le> a" and ds: "set ds \<subseteq> set draws" for l0 l1 ds
  proof (rule lucky_bnd[OF draw_base_ok[OF _ p]], goal_cases)
    case 1
    then show ?case using ds assms(1) by blast
  next
    case (2 x)
    obtain b0 ds0 where x: "x = (b0, ds0)" by fastforce
    with 2 have b0: "0 \<le> b0" "b0 + l0 < p" "set ds0 \<subseteq> set ds" by auto
    have "lucky (\<lambda>(g, ds'). segs_ok a p g \<and> set ds' \<subseteq> set draws) (bnd (draw_base p (\<lambda>b. b + l1 < p \<and> (b > b0 + l0 \<or> b + l1 < b0)) ds0) (\<lambda>(b1, ds).
        bnd (seg_checks a p \<lparr>base0 = b0, len0 = l0, base1 = b1, len1 = l1\<rparr>) (\<lambda>g. Inr (g, ds))))"
    proof (rule lucky_bnd[OF draw_base_ok[OF _ p]], goal_cases)
      case 1
      then show ?case using b0(3) ds assms(1) by blast
    next
      case (2 y)
      obtain b1 ds1 where y: "y = (b1, ds1)" by fastforce
      with 2 have b1: "0 \<le> b1" "b1 + l1 < p" "b1 > b0 + l0 \<or> b1 + l1 < b0" "set ds1 \<subseteq> set ds0" by auto
      have "\<not> p < b0 + l0 - 1" "\<not> p < b1" "\<not> 2 * l0 > a" "\<not> 2 * l1 > a" "\<not> (l0 + b0 > b1 \<and> b1 > b0)" using b0 b1 l by auto
      then have "seg_checks a p \<lparr>base0 = b0, len0 = l0, base1 = b1, len1 = l1\<rparr> = Inr \<lparr>base0 = b0, len0 = l0, base1 = b1, len1 = l1\<rparr>"
        by (simp add: seg_checks_def abort_if_def)
      moreover have "segs_ok a p \<lparr>base0 = b0, len0 = l0, base1 = b1, len1 = l1\<rparr>" using b0 b1 l by (auto simp: segs_ok_def)
      moreover have "set ds1 \<subseteq> set draws" using b1(4) b0(3) ds by blast
      ultimately show ?case by (simp add: y)
    qed
    then show ?case by (simp add: x)
  qed
  have two: "abort_if (p \<le> 2 * a) m = m" for m :: "(seg_regs \<times> int list) res" using assms(3) by (simp add: abort_if_def)
  have "lucky (\<lambda>(g, ds). segs_ok a p g \<and> set ds \<subseteq> set draws) (bnd (pick_len a (-1) draws) (\<lambda>(l0, ds). bnd (pick_len a (-1) ds) (\<lambda>(l1, ds).
      bnd (draw_base p (\<lambda>b. b + l0 < p) ds) (\<lambda>(b0, ds). bnd (draw_base p (\<lambda>b. b + l1 < p \<and> (b > b0 + l0 \<or> b + l1 < b0)) ds) (\<lambda>(b1, ds).
        bnd (seg_checks a p \<lparr>base0 = b0, len0 = l0, base1 = b1, len1 = l1\<rparr>) (\<lambda>g. Inr (g, ds)))))))"
  proof (rule lucky_bnd[OF pick_len_ok[OF assms(1,2)]], goal_cases)
    case (2 x)
    obtain l0 ds0 where x: "x = (l0, ds0)" by fastforce
    with 2 have l0: "0 \<le> l0" "2 * l0 \<le> a" "set ds0 \<subseteq> set draws" by auto
    have dr: "\<forall>k \<in> set ds0. drawn k" using l0(3) assms(1) by blast
    have "lucky (\<lambda>(g, ds). segs_ok a p g \<and> set ds \<subseteq> set draws) (bnd (pick_len a (-1) ds0) (\<lambda>(l1, ds).
      bnd (draw_base p (\<lambda>b. b + l0 < p) ds) (\<lambda>(b0, ds). bnd (draw_base p (\<lambda>b. b + l1 < p \<and> (b > b0 + l0 \<or> b + l1 < b0)) ds) (\<lambda>(b1, ds).
        bnd (seg_checks a p \<lparr>base0 = b0, len0 = l0, base1 = b1, len1 = l1\<rparr>) (\<lambda>g. Inr (g, ds))))))"
    proof (rule lucky_bnd[OF pick_len_ok[OF dr assms(2)]], goal_cases)
      case (2 y)
      obtain l1 ds1 where y: "y = (l1, ds1)" by fastforce
      with 2 have l1: "0 \<le> l1" "2 * l1 \<le> a" "set ds1 \<subseteq> set ds0" by auto
      then have "set ds1 \<subseteq> set draws" using l0(3) by blast
      from inner[OF l0(1,2) l1(1,2) this] show ?case by (simp add: y)
    qed simp
    then show ?case by (simp add: x)
  qed simp
  then show ?thesis by (simp add: seg_registers_def two)
qed

section \<open>Page tables\<close>

lemma log2_power [simp]: "log2 (2 ^ n) = n"
proof (induction n)
  case (Suc n)
  have "(1::nat) < 2 ^ Suc n" by (rule one_less_power) simp_all
  then have "\<not> (2::nat) ^ Suc n \<le> 1" by simp
  then show ?case using Suc log2.simps[of "2 ^ Suc n"] by simp
qed (simp add: log2.simps)

lemma bits_of_power [simp]: "bits_of (2 ^ n) m = m n"
  by (simp add: bits_of_def abort_if_def nat_power_eq Let_def)

lemma draw_pte_ok:
  assumes "\<forall>k \<in> set draws. drawn k" "0 < pages" "int (length used) = pages"
  shows "lucky (\<lambda>(u, used', ds). set ds \<subseteq> set draws \<and> (u = -1 \<and> used' = used \<or> 0 \<le> u \<and> u < pages \<and> used ! nat u = 0 \<and> used' = used[nat u := 1])) (draw_pte pages pct used draws)"
  using assms
proof (induction pages pct used draws rule: draw_pte.induct)
  case (1 pages pct used coin draws)
  show ?case
  proof (cases "coin * 100 > (100 - pct) * 2 ^ 53")
    case True
    show ?thesis
    proof (cases draws)
      case (Cons k ds)
      let ?u = "int_scaled k pages"
      have u: "0 \<le> ?u" "?u < int (length used)" using int_scaled_range[of k pages] "1.prems" Cons by auto
      have "lucky (\<lambda>(u, used', ds'). set ds' \<subseteq> set ds \<and> (u = -1 \<and> used' = used \<or> 0 \<le> u \<and> u < pages \<and> used ! nat u = 0 \<and> used' = used[nat u := 1])) (draw_pte pages pct used ds)"
        if "used ! nat ?u \<noteq> 0" using "1.IH"[OF True Cons HOL.refl that] "1.prems" Cons by simp
      then show ?thesis using True Cons u "1.prems"(3) by (auto simp: Let_def intro: lucky_mono)
    qed (use True in simp)
  qed auto
qed simp

lemma draw_table_ok:
  assumes "\<forall>k \<in> set draws. drawn k" "0 < pages" "int (length used) = pages"
  shows "lucky (\<lambda>(tb, ds). length tb = n \<and> set ds \<subseteq> set draws \<and> (\<forall>u \<in> set tb. u = -1 \<or> 0 \<le> u \<and> u < pages \<and> used ! nat u = 0) \<and> distinct (filter (\<lambda>u. 0 \<le> u) tb))
    (draw_table pages pct n used draws)"
  using assms
proof (induction n arbitrary: used draws)
  case (Suc n)
  have "lucky (\<lambda>(tb, ds). length tb = Suc n \<and> set ds \<subseteq> set draws \<and> (\<forall>u \<in> set tb. u = -1 \<or> 0 \<le> u \<and> u < pages \<and> used ! nat u = 0) \<and> distinct (filter (\<lambda>u. 0 \<le> u) tb))
    (bnd (draw_pte pages pct used draws) (\<lambda>(u, used, draws). bnd (draw_table pages pct n used draws) (\<lambda>(tb, draws). Inr (u # tb, draws))))"
  proof (rule lucky_bnd[OF draw_pte_ok[OF Suc.prems]])
    fix x assume x: "case x of (u, used', ds) \<Rightarrow> set ds \<subseteq> set draws \<and> (u = -1 \<and> used' = used \<or> 0 \<le> u \<and> u < pages \<and> used ! nat u = 0 \<and> used' = used[nat u := 1])"
    obtain u used' ds where x': "x = (u, used', ds)" by (cases x) auto
    have u: "u = -1 \<and> used' = used \<or> 0 \<le> u \<and> u < pages \<and> used ! nat u = 0 \<and> used' = used[nat u := 1]" and ds: "set ds \<subseteq> set draws" using x x' by auto
    have "\<forall>k \<in> set ds. drawn k" using ds Suc.prems(1) by blast
    moreover have "int (length used') = pages" using u Suc.prems(3) by auto
    ultimately have IH: "lucky (\<lambda>(tb, ds'). length tb = n \<and> set ds' \<subseteq> set ds \<and> (\<forall>u \<in> set tb. u = -1 \<or> 0 \<le> u \<and> u < pages \<and> used' ! nat u = 0) \<and> distinct (filter (\<lambda>u. 0 \<le> u) tb))
      (draw_table pages pct n used' ds)" using Suc.IH Suc.prems(2) by blast
    have free: "used ! nat v = 0 \<and> v \<noteq> u" if "used' ! nat v = 0" "0 \<le> v" "v < pages" for v
    proof (cases "u = -1")
      case False
      then have u': "0 \<le> u" "u < pages" "used' = used[nat u := 1]" using u by auto
      have "v \<noteq> u" using that u' Suc.prems(3) by auto
      moreover from this have "nat v \<noteq> nat u" using that(2) u'(1) by simp
      ultimately show ?thesis using that(1) u'(3) by simp
    qed (use u that in auto)
    have "lucky (\<lambda>(tb, ds). length tb = Suc n \<and> set ds \<subseteq> set draws \<and> (\<forall>u \<in> set tb. u = -1 \<or> 0 \<le> u \<and> u < pages \<and> used ! nat u = 0) \<and> distinct (filter (\<lambda>u. 0 \<le> u) tb))
      (bnd (draw_table pages pct n used' ds) (\<lambda>(tb, draws). Inr (u # tb, draws)))"
    proof (rule lucky_bnd[OF IH])
      fix y assume y: "case y of (tb, ds') \<Rightarrow> length tb = n \<and> set ds' \<subseteq> set ds \<and> (\<forall>u \<in> set tb. u = -1 \<or> 0 \<le> u \<and> u < pages \<and> used' ! nat u = 0) \<and> distinct (filter (\<lambda>u. 0 \<le> u) tb)"
      obtain tb ds' where y': "y = (tb, ds')" by fastforce
      have tb: "length tb = n" "set ds' \<subseteq> set ds" "\<forall>u \<in> set tb. u = -1 \<or> 0 \<le> u \<and> u < pages \<and> used' ! nat u = 0" "distinct (filter (\<lambda>u. 0 \<le> u) tb)" using y y' by auto
      have "\<forall>v \<in> set tb. v = -1 \<or> 0 \<le> v \<and> v < pages \<and> used ! nat v = 0 \<and> v \<noteq> u" using tb(3) free by blast
      then have "\<forall>v \<in> set (u # tb). v = -1 \<or> 0 \<le> v \<and> v < pages \<and> used ! nat v = 0" "distinct (filter (\<lambda>u. 0 \<le> u) (u # tb))" using u tb(4) by auto
      then show "lucky (\<lambda>(tb, ds). length tb = Suc n \<and> set ds \<subseteq> set draws \<and> (\<forall>u \<in> set tb. u = -1 \<or> 0 \<le> u \<and> u < pages \<and> used ! nat u = 0) \<and> distinct (filter (\<lambda>u. 0 \<le> u) tb))
        (case y of (tb, draws) \<Rightarrow> Inr (u # tb, draws))" using tb(1,2) ds y' by auto
    qed
    then show "lucky (\<lambda>(tb, ds). length tb = Suc n \<and> set ds \<subseteq> set draws \<and> (\<forall>u \<in> set tb. u = -1 \<or> 0 \<le> u \<and> u < pages \<and> used ! nat u = 0) \<and> distinct (filter (\<lambda>u. 0 \<le> u) tb))
      (case x of (u, used, draws) \<Rightarrow> bnd (draw_table pages pct n used draws) (\<lambda>(tb, draws). Inr (u # tb, draws)))" by (simp add: x')
  qed
  then show ?case by simp
qed simp

text \<open>A table as the program makes it: one entry per virtual page, no frame twice, all frames in the memory.\<close>

definition table_ok :: "int \<Rightarrow> int \<Rightarrow> lin \<Rightarrow> bool" where
  "table_ok a p s \<longleftrightarrow> int (length (pt s)) * 2 ^ pagebits s = a \<and> pagebits s \<le> 32 \<and> a \<le> 2 ^ 32 \<and>
     (\<forall>u \<in> set (pt s). u = -1 \<or> 0 \<le> u \<and> (u + 1) * 2 ^ pagebits s \<le> p) \<and> distinct (filter (\<lambda>u. 0 \<le> u) (pt s))"

lemma vpn_bits:
  fixes v :: int
  assumes "0 \<le> v" "v < 2 ^ 32" "n \<le> 32"
  shows "drop_bit n (v AND (0xFFFFFFFF AND NOT (push_bit n 1 - 1))) = v div 2 ^ n"
proof -
  have m: "push_bit n 1 - 1 = (mask n :: int)" by (simp add: push_bit_eq_mult mask_eq_exp_minus_1)
  have f: "(0xFFFFFFFF :: int) = mask 32" by (simp add: mask_eq_exp_minus_1)
  have "drop_bit n (v AND (mask 32 AND NOT (mask n))) = drop_bit n (take_bit 32 v)"
    by (rule bit_eqI) (auto simp: bit_simps)
  also have "\<dots> = v div 2 ^ n" using assms by (simp add: take_bit_int_eq_self drop_bit_eq_div)
  finally show ?thesis unfolding m f .
qed

lemma lin_translate_in:
  assumes t: "table_ok a p s" and v: "0 \<le> v" "v < a"
  shows "lin_translate s v = Inr (let f = pt s ! nat (v div 2 ^ pagebits s) in if f < 0 then None else Some (f * 2 ^ pagebits s + v mod 2 ^ pagebits s))"
    "nat (v div 2 ^ pagebits s) < length (pt s)"
proof -
  let ?n = "pagebits s"
  have a: "int (length (pt s)) * 2 ^ ?n = a" "?n \<le> 32" "a \<le> 2 ^ 32" using t by (auto simp: table_ok_def)
  have q: "0 \<le> v div 2 ^ ?n" "v div 2 ^ ?n < int (length (pt s))" using v a(1) by (simp_all add: pos_imp_zdiv_nonneg_iff zdiv_less_iff)
  have vpn: "drop_bit ?n (v AND (0xFFFFFFFF AND NOT (push_bit ?n 1 - 1))) = v div 2 ^ ?n" using vpn_bits[of v ?n] v a by simp
  have off: "v AND (push_bit ?n 1 - 1) = v mod 2 ^ ?n" by (simp add: push_bit_eq_mult mask_eq_exp_minus_1[symmetric] take_bit_eq_mask[symmetric] take_bit_eq_mod)
  show "nat (v div 2 ^ ?n) < length (pt s)" using q by simp
  show "lin_translate s v = Inr (let f = pt s ! nat (v div 2 ^ ?n) in if f < 0 then None else Some (f * 2 ^ ?n + v mod 2 ^ ?n))"
    unfolding lin_translate_def Let_def vpn off using q by (simp add: or_field)
qed

lemma lin_translate_beyond:
  assumes t: "table_ok a p s" and v: "a \<le> v" "v < 2 ^ 32" "0 < a"
  shows "lin_translate s v = Inl IndexError"
proof -
  let ?n = "pagebits s"
  have a: "int (length (pt s)) * 2 ^ ?n = a" "?n \<le> 32" using t by (auto simp: table_ok_def)
  have q: "int (length (pt s)) \<le> v div 2 ^ ?n" using v(1) a(1) by (simp add: zdiv_ge_iff)
  have vpn: "drop_bit ?n (v AND (0xFFFFFFFF AND NOT (push_bit ?n 1 - 1))) = v div 2 ^ ?n" using vpn_bits[of v ?n] v a by simp
  show ?thesis unfolding lin_translate_def Let_def vpn using q by (simp add: list_get_def)
qed

text \<open>Only the low 32 bits of an address count.\<close>

lemma lin_translate_mod:
  assumes "pagebits s \<le> 32"
  shows "lin_translate s v = lin_translate s (v mod 2 ^ 32)"
proof -
  let ?m = "push_bit (pagebits s) 1 - 1 :: int"
  have m: "?m = mask (pagebits s)" by (simp add: push_bit_eq_mult mask_eq_exp_minus_1)
  have f: "(0xFFFFFFFF :: int) = mask 32" by (simp add: mask_eq_exp_minus_1)
  have "v AND (mask 32 AND NOT (mask (pagebits s))) = take_bit 32 v AND (mask 32 AND NOT (mask (pagebits s)))"
    by (rule bit_eqI) (auto simp: bit_simps)
  moreover have "v AND mask (pagebits s) = take_bit 32 v AND mask (pagebits s)"
    using assms by (intro bit_eqI) (auto simp: bit_simps)
  ultimately show ?thesis unfolding lin_translate_def Let_def m f take_bit_eq_mod by (simp only:)
qed

lemma filter_distinct_nth:
  assumes "distinct (filter P xs)" "i < length xs" "j < length xs" "i \<noteq> j"
  shows "\<not> (P (xs ! i) \<and> xs ! i = xs ! j)"
proof
  assume e: "P (xs ! i) \<and> xs ! i = xs ! j"
  have *: False if "a < b" "b < length xs" "P (xs ! a)" "xs ! a = xs ! b" for a b
  proof -
    have eq: "filter P (take b xs) @ filter P (xs ! b # drop (Suc b) xs) = filter P xs" using id_take_nth_drop[OF that(2)] by (metis filter_append)
    have d: "distinct (filter P (take b xs) @ filter P (xs ! b # drop (Suc b) xs))" unfolding eq by (rule assms(1))
    have "xs ! a \<in> set (take b xs)" using that(1,2) by (auto simp: in_set_conv_nth)
    then have "xs ! a \<in> set (filter P (take b xs))" "xs ! a \<in> set (filter P (xs ! b # drop (Suc b) xs))" using that(3,4) by simp_all
    then show False using d unfolding distinct_append by blast
  qed
  from assms(4) consider "i < j" | "j < i" by linarith
  then show False
  proof cases
    case 1
    then show False using *[OF 1 assms(3)] e by blast
  next
    case 2
    then show False using *[OF 2 assms(2)] e by metis
  qed
qed

text \<open>Different virtual addresses have different physical ones.\<close>

lemma lin_translate_inj:
  assumes t: "table_ok a p s" and v: "0 \<le> v" "v < a" "0 \<le> w" "w < a" and same: "lin_translate s v = Inr (Some q)" "lin_translate s w = Inr (Some q)"
  shows "v = w"
proof -
  let ?m = "2 ^ pagebits s :: int"
  let ?i = "nat (v div ?m)" and ?j = "nat (w div ?m)"
  have q: "q = pt s ! ?i * ?m + v mod ?m" "q = pt s ! ?j * ?m + w mod ?m" "0 \<le> pt s ! ?i" "0 \<le> pt s ! ?j"
    using same lin_translate_in(1)[OF t v(1,2)] lin_translate_in(1)[OF t v(3,4)] by (auto simp: Let_def split: if_splits)
  have "q div ?m = pt s ! ?i" "q div ?m = pt s ! ?j" "q mod ?m = v mod ?m" "q mod ?m = w mod ?m" by (simp add: q(1), simp add: q(2), simp add: q(1), simp add: q(2))
  then have e: "pt s ! ?i = pt s ! ?j" "v mod ?m = w mod ?m" by simp_all
  have len: "?i < length (pt s)" "?j < length (pt s)" using lin_translate_in(2)[OF t] v by blast+
  have "?i = ?j"
  proof (rule ccontr)
    assume ne: "?i \<noteq> ?j"
    have "distinct (filter (\<lambda>u. 0 \<le> u) (pt s))" using t by (simp add: table_ok_def)
    then show False using filter_distinct_nth[OF _ len ne] e(1) q(3) by metis
  qed
  moreover have "0 \<le> v div ?m" "0 \<le> w div ?m" using v by (simp_all add: pos_imp_zdiv_nonneg_iff)
  ultimately have "v div ?m = w div ?m" by simp
  then show ?thesis using e(2) div_mult_mod_eq[of v ?m] div_mult_mod_eq[of w ?m] by metis
qed

lemma lin_setup_ok:
  assumes "\<forall>k \<in> set draws. drawn k" "a = 2 ^ va" "ps = 2 ^ pb" "pb \<le> va" "ps dvd p" "a < p" "p < 2 ^ 30"
  shows "lucky (\<lambda>(s, ds). table_ok a p s \<and> pagebits s = pb \<and> set ds \<subseteq> set draws) (lin_setup a p ps pct draws)"
proof -
  have ps: "0 < ps" and a: "0 < a" using assms(2,3) by simp_all
  then have p: "1 < p" using assms(6) by linarith
  have dv: "ps dvd a" using assms(2-4) by (simp add: le_imp_power_dvd)
  obtain n where n: "p = ps * n" using assms(5) ..
  then have "0 < ps * n" using p by linarith
  then have "0 < n" using ps by (rule zero_less_mult_pos)
  moreover have "p div ps = n" unfolding n using ps by simp
  ultimately have pages: "p div ps = n" "0 < n" by simp_all
  have va: "pb \<le> 32" "a \<le> 2 ^ 32"
  proof -
    have "(2::int) ^ va < 2 ^ 30" using assms(2,6,7) by linarith
    then have "va < 30" using power_less_imp_less_exp[of "2::int" va 30] by simp
    then show "pb \<le> 32" using assms(4) by simp
    show "a \<le> 2 ^ 32" using assms(6,7) by simp
  qed
  have eq: "lin_setup a p ps pct draws = bnd (draw_table n pct (nat (a div ps)) (replicate (nat n) 0) draws) (\<lambda>(tb, ds). Inr (\<lparr>pagebits = pb, pt = tb\<rparr>, ds))"
    using p a assms(6,7) dv assms(5) ps pages by (simp add: lin_setup_def mustbemultipleof_def abort_if_def Let_def) (simp add: assms(2,3))
  have "lucky (\<lambda>(s, ds). table_ok a p s \<and> pagebits s = pb \<and> set ds \<subseteq> set draws) (bnd (draw_table n pct (nat (a div ps)) (replicate (nat n) 0) draws) (\<lambda>(tb, ds). Inr (\<lparr>pagebits = pb, pt = tb\<rparr>, ds)))"
  proof (rule lucky_bnd[OF draw_table_ok[OF assms(1) pages(2)]])
    show "int (length (replicate (nat n) (0::int))) = n" using pages(2) by simp
    fix x assume "case x of (tb, ds) \<Rightarrow> length tb = nat (a div ps) \<and> set ds \<subseteq> set draws \<and> (\<forall>u \<in> set tb. u = -1 \<or> 0 \<le> u \<and> u < n \<and> replicate (nat n) 0 ! nat u = (0::int)) \<and> distinct (filter (\<lambda>u. 0 \<le> u) tb)"
    then obtain tb ds where x: "x = (tb, ds)" "length tb = nat (a div ps)" "set ds \<subseteq> set draws" "\<forall>u \<in> set tb. u = -1 \<or> 0 \<le> u \<and> u < n" "distinct (filter (\<lambda>u. 0 \<le> u) tb)" by auto
    have "int (length tb) * ps = a" using x(2) dv ps a by (simp add: pos_imp_zdiv_nonneg_iff)
    moreover have "(u + 1) * ps \<le> p" if "u < n" for u using that ps n by (simp add: mult.commute)
    ultimately have "table_ok a p \<lparr>pagebits = pb, pt = tb\<rparr>" using x(4,5) va assms(3) unfolding table_ok_def by auto
    then show "lucky (\<lambda>(s, ds). table_ok a p s \<and> pagebits s = pb \<and> set ds \<subseteq> set draws) (case x of (tb, ds) \<Rightarrow> Inr (\<lparr>pagebits = pb, pt = tb\<rparr>, ds))" using x by simp
  qed
  then show ?thesis by (simp only: eq)
qed

lemma trace_with_ok:
  assumes "\<And>v. v \<in> set vs \<Longrightarrow> \<exists>t. f v = Inr t"
  shows "\<exists>ts. trace_with f (map Inr vs) = Inr ts \<and> map fst ts = vs \<and> (\<forall>(v, t) \<in> set ts. f v = Inr t)"
  using assms
proof (induction vs)
  case (Cons v vs)
  then obtain t ts where "f v = Inr t" "trace_with f (map Inr vs) = Inr ts" "map fst ts = vs" "\<forall>(v, t) \<in> set ts. f v = Inr t" by fastforce
  then show ?case by simp
qed simp

section \<open>Properties\<close>

text \<open>Base and bounds. With sizes that make sense and registers that are drawn or not negative, the program only stops early when a given base and limit do
  not fit; otherwise every address below the limit is moved by the base into the region between base and base plus limit, which lies inside the physical memory,
  and every other one is a violation. With a given base it needs one number per address and at most one for the limit.\<close>

theorem relocation_bounds:
  assumes "convert asz = Inr a" "convert psz = Inr p" "convert limit = Inr l0" "convert base = Inr b0" "0 < a" "a < p"
    "l0 = -1 \<or> 0 \<le> l0" "b0 = -1 \<or> 0 \<le> b0" "\<forall>k \<in> set draws. drawn k"
  shows "(case relocation asz psz limit base num draws of
      Inl e \<Rightarrow> e = SysExit \<and> b0 \<noteq> -1 \<or> e = NoReturn \<and> (b0 = -1 \<or> length draws < Suc (nat num))
    | Inr (b, l, tr) \<Rightarrow> 0 \<le> b \<and> b + l \<le> p \<and> length tr = nat num \<and>
        (\<forall>(v, t) \<in> set tr. 0 \<le> v \<and> v < a \<and> t = (if v < l then Some (b + v) else None)))"
proof -
  have p: "1 < p" using assms(5,6) by linarith
  have eq: "relocation asz psz limit base num draws = bnd (reloc_registers a p l0 b0 draws) (\<lambda>(base, limit, draws).
      bnd (draw_addrs a (nat num) draws) (\<lambda>vs. Inr (base, limit, map (\<lambda>v. (v, reloc_translate base limit v)) vs)))"
    using assms(1-6) p by (simp add: relocation_def reloc_sizes_def abort_if_def)
  show ?thesis
  proof (cases "reloc_registers a p l0 b0 draws")
    case (Inl e)
    have "e = NoReturn \<longrightarrow> b0 = -1 \<or> draws = []"
    proof (intro impI disjCI)
      assume "e = NoReturn" "draws \<noteq> []"
      then show "b0 = -1" using Inl by (cases draws; cases "b0 = -1") (auto simp: reloc_registers_def pick_len_def next_draw_def abort_if_def split: if_splits)
    qed
    then show ?thesis using reloc_registers_ok[OF assms(9,5) p assms(7,8)] Inl by (auto simp: eq)
  next
    case (Inr r)
    obtain b l ds where r: "r = (b, l, ds)" by (cases r) auto
    have bl: "0 \<le> b" "b + l \<le> p" "set ds \<subseteq> set draws" using reloc_registers_ok[OF assms(9,5) p assms(7,8)] Inr r by auto
    have dr: "\<forall>k \<in> set ds. drawn k" using bl(3) assms(9) by blast
    have "length draws \<le> Suc (length ds)" if "b0 \<noteq> -1"
      using Inr r that by (cases draws) (auto simp: reloc_registers_def pick_len_def next_draw_def abort_if_def split: if_splits)
    then show ?thesis using draw_addrs_ok(1)[OF dr assms(5), of "nat num"] draw_addrs_ok(2)[OF dr assms(5), of "nat num"] bl Inr r
      by (cases "draw_addrs a (nat num) ds") (auto simp: eq reloc_translate_def not_le[symmetric])
  qed
qed

text \<open>C34. Segmentation. For memories of more than twice the size of the address space, registers drawn by the program describe two segments that lie inside the physical memory and do not
  overlap, and no check of the program fails. An address below the length of the first segment is translated to that offset from its base; one in the top part of the
  length of the second is translated to as far below the end of that segment as it is below the end of the address space; every other address is a violation. Translated
  addresses lie in the memory, in the segment they belong to, and no two share a place. The drawn addresses are translated so.\<close>

theorem segmentation_random:
  assumes "convert asz = Inr a" "convert psz = Inr p" "0 < a" "2 * a < p" "4 < p" "\<forall>k \<in> set draws. drawn k"
  shows "lucky (\<lambda>(g, tr). 0 \<le> base0 g \<and> 0 \<le> len0 g \<and> base0 g + len0 g \<le> p \<and> 0 \<le> base1 g \<and> 0 \<le> len1 g \<and> base1 g + len1 g \<le> p \<and>
      {base0 g..<base0 g + len0 g} \<inter> {base1 g..<base1 g + len1 g} = {} \<and>
      length tr = nat num \<and> (\<forall>(v, t) \<in> set tr. 0 \<le> v \<and> v < a \<and> seg_translate a g v = Inr t) \<and>
      (\<forall>v. 0 \<le> v \<and> v < a \<longrightarrow> seg_translate a g v = Inr (if v < len0 g then Some (0, base0 g + v) else if a - len1 g \<le> v then Some (1, base1 g + len1 g - (a - v)) else None)) \<and>
      (\<forall>v n q. seg_translate a g v = Inr (Some (n, q)) \<longrightarrow> 0 \<le> q \<and> q < p \<and> q \<in> (if n = 0 then {base0 g..<base0 g + len0 g} else {base1 g..<base1 g + len1 g})) \<and>
      (\<forall>v w n n' q. seg_translate a g v = Inr (Some (n, q)) \<and> seg_translate a g w = Inr (Some (n', q)) \<longrightarrow> v = w))
    (segmentation asz psz ''-1'' ''-1'' ''-1'' ''-1'' ''-1'' num draws)"
proof -
  have m1: "convert ''-1'' = Inr (-1)" by code_simp
  have "p > a" using assms(3,4) by linarith
  then have eq: "segmentation asz psz ''-1'' ''-1'' ''-1'' ''-1'' ''-1'' num draws = bnd (seg_registers a p \<lparr>base0 = -1, len0 = -1, base1 = -1, len1 = -1\<rparr> draws) (\<lambda>(g, draws).
      bnd (bnd (draw_addrs a (nat num) draws) (\<lambda>vs. Inr (map Inr vs))) (\<lambda>vs. bnd (trace_with (seg_translate a g) vs) (\<lambda>ts. Inr (g, ts))))"
    using assms(1-5) by (simp add: segmentation_def seg_sizes_def abort_if_def seg_options_def m1 addr_inputs_def)
  show ?thesis
    unfolding eq
  proof (rule lucky_bnd[OF seg_registers_ok[OF assms(6,3,4)]], goal_cases)
    case (1 x)
    obtain g ds where x: "x = (g, ds)" by fastforce
    have g: "segs_ok a p g" and dr: "\<forall>k \<in> set ds. drawn k" using 1 x assms(6) by auto
    have tr: "seg_translate a g v = Inr (if v < len0 g then Some (0, base0 g + v) else if a - len1 g \<le> v then Some (1, base1 g + len1 g - (a - v)) else None)"
      if "0 \<le> v" "v < a" for v using that g by (auto simp: seg_translate_def segs_ok_def Let_def)
    have rng: "0 \<le> q \<and> q < p \<and> q \<in> (if n = 0 then {base0 g..<base0 g + len0 g} else {base1 g..<base1 g + len1 g})" if "seg_translate a g v = Inr (Some (n, q))" for v n q
      using that g by (auto simp: seg_translate_def segs_ok_def Let_def abort_if_def split: if_splits)
    have seg: "0 \<le> base0 g \<and> 0 \<le> len0 g \<and> base0 g + len0 g \<le> p \<and> 0 \<le> base1 g \<and> 0 \<le> len1 g \<and> base1 g + len1 g \<le> p \<and>
      {base0 g..<base0 g + len0 g} \<inter> {base1 g..<base1 g + len1 g} = {}" using g by (auto simp: segs_ok_def)
    have inj: "v = w" if "seg_translate a g v = Inr (Some (n, q))" "seg_translate a g w = Inr (Some (n', q))" for v w n n' q
      using that g by (auto simp: seg_translate_def segs_ok_def Let_def abort_if_def split: if_splits)
    have "lucky (\<lambda>(g', tr). g' = g \<and> length tr = nat num \<and> (\<forall>(v, t) \<in> set tr. 0 \<le> v \<and> v < a \<and> seg_translate a g v = Inr t))
      (bnd (draw_addrs a (nat num) ds) (\<lambda>vs. bnd (trace_with (seg_translate a g) (map Inr vs)) (\<lambda>ts. Inr (g, ts))))"
    proof (rule lucky_bnd[OF draw_addrs_ok(1)[OF dr assms(3)]])
      fix vs assume vs: "length vs = nat num \<and> (\<forall>v \<in> set vs. 0 \<le> v \<and> v < a)"
      then obtain ts where ts: "trace_with (seg_translate a g) (map Inr vs) = Inr ts" "map fst ts = vs" "\<forall>(v, t) \<in> set ts. seg_translate a g v = Inr t"
        using trace_with_ok[of vs "seg_translate a g"] tr by blast
      moreover have "length ts = nat num" using ts(2) vs by (metis length_map)
      moreover have "\<forall>(v, t) \<in> set ts. 0 \<le> v \<and> v < a" using ts(2) vs by force
      ultimately show "lucky (\<lambda>(g', tr). g' = g \<and> length tr = nat num \<and> (\<forall>(v, t) \<in> set tr. 0 \<le> v \<and> v < a \<and> seg_translate a g v = Inr t))
        (bnd (trace_with (seg_translate a g) (map Inr vs)) (\<lambda>ts. Inr (g, ts)))" by auto
    qed
    then have l: "lucky (\<lambda>(g', tr). g' = g \<and> length tr = nat num \<and> (\<forall>(v, t) \<in> set tr. 0 \<le> v \<and> v < a \<and> seg_translate a g v = Inr t))
      (case x of (g, draws) \<Rightarrow> bnd (bnd (draw_addrs a (nat num) draws) (\<lambda>vs. Inr (map Inr vs))) (\<lambda>vs. bnd (trace_with (seg_translate a g) vs) (\<lambda>ts. Inr (g, ts))))"
      by (simp add: x bnd_assoc)
    show ?case
    proof (rule lucky_mono[OF l], goal_cases)
      case (1 y)
      then obtain ts where y: "y = (g, ts)" "length ts = nat num" "\<forall>(v, t) \<in> set ts. 0 \<le> v \<and> v < a \<and> seg_translate a g v = Inr t" by auto
      show ?case unfolding y(1) prod.case by (intro conjI allI impI y(2,3)) (use seg tr rng inj in blast)+
    qed
  qed
qed

text \<open>C36. Linear page tables. For sizes that are powers of two (the memory a multiple of the page size, larger than the address space and below 1 GB) the table is drawn with no error, and every address of the address space
  translates to its frame and offset, to a place inside the memory, or is invalid when its page is; no two addresses share a place. Of any other address, negative ones
  included, only the low 32 bits count: if they are an address of the address space it is translated instead, and if not the look-up in the table raises an index error.\<close>

theorem linear_paging_translates:
  assumes "convert asz = Inr (2 ^ va)" "convert psz = Inr p" "convert pgsz = Inr (2 ^ pb)" "pb \<le> va" "2 ^ pb dvd p" "2 ^ va < p" "p < 2 ^ 30" "\<forall>k \<in> set draws. drawn k"
  shows "lucky (\<lambda>(s, tr). length (pt s) = 2 ^ (va - pb) \<and> length tr = nat num \<and> (\<forall>(v, t) \<in> set tr. 0 \<le> v \<and> v < 2 ^ va \<and> lin_translate s v = Inr t) \<and>
      (\<forall>v. 0 \<le> v \<and> v < 2 ^ va \<longrightarrow> (let f = pt s ! nat (v div 2 ^ pb) in
         lin_translate s v = Inr (if f < 0 then None else Some (f * 2 ^ pb + v mod 2 ^ pb)) \<and> (0 \<le> f \<longrightarrow> f * 2 ^ pb + v mod 2 ^ pb < p))) \<and>
      (\<forall>v w q. 0 \<le> v \<and> v < 2 ^ va \<and> 0 \<le> w \<and> w < 2 ^ va \<and> lin_translate s v = Inr (Some q) \<and> lin_translate s w = Inr (Some q) \<longrightarrow> v = w) \<and>
      (\<forall>v. lin_translate s v = (if v mod 2 ^ 32 < 2 ^ va then lin_translate s (v mod 2 ^ 32) else Inl IndexError)))
    (linear_paging asz psz pgsz pct ''-1'' num draws)"
proof -
  let ?a = "2 ^ va :: int"
  have a: "0 < ?a" by simp
  have eq: "linear_paging asz psz pgsz pct ''-1'' num draws = bnd (lin_setup ?a p (2 ^ pb) pct draws) (\<lambda>(s, draws).
      bnd (bnd (draw_addrs ?a (nat num) draws) (\<lambda>vs. Inr (map Inr vs))) (\<lambda>vs. bnd (trace_with (lin_translate s) vs) (\<lambda>ts. Inr (s, ts))))"
    using assms(1-3) by (simp add: linear_paging_def addr_inputs_def)
  show ?thesis
    unfolding eq
  proof (rule lucky_bnd[OF lin_setup_ok[OF assms(8) HOL.refl HOL.refl assms(4-7)]], goal_cases)
    case (1 x)
    obtain s ds where x: "x = (s, ds)" by fastforce
    have t: "table_ok ?a p s" and pb: "pagebits s = pb" and dr: "\<forall>k \<in> set ds. drawn k" using 1 x assms(8) by auto
    have tr: "let f = pt s ! nat (v div 2 ^ pb) in lin_translate s v = Inr (if f < 0 then None else Some (f * 2 ^ pb + v mod 2 ^ pb)) \<and> (0 \<le> f \<longrightarrow> f * 2 ^ pb + v mod 2 ^ pb < p)"
      if v: "0 \<le> v" "v < ?a" for v
    proof -
      have "pt s ! nat (v div 2 ^ pb) \<in> set (pt s)" using lin_translate_in(2)[OF t v] pb by simp
      then have "0 \<le> pt s ! nat (v div 2 ^ pb) \<longrightarrow> (pt s ! nat (v div 2 ^ pb) + 1) * 2 ^ pb \<le> p" using t pb unfolding table_ok_def by force
      moreover have "v mod 2 ^ pb < 2 ^ pb" by simp
      ultimately have "0 \<le> pt s ! nat (v div 2 ^ pb) \<longrightarrow> pt s ! nat (v div 2 ^ pb) * 2 ^ pb + v mod 2 ^ pb < p" unfolding distrib_right by linarith
      then show ?thesis using lin_translate_in(1)[OF t v] pb by (simp add: Let_def)
    qed
    then have ex: "\<exists>t. lin_translate s v = Inr t" if "0 \<le> v" "v < ?a" for v using that by (metis (no_types))
    have len: "length (pt s) = 2 ^ (va - pb)"
    proof -
      have "int (length (pt s)) * 2 ^ pb = 2 ^ (va - pb) * 2 ^ pb" using t pb assms(4) unfolding table_ok_def by (simp flip: power_add)
      then have "int (length (pt s)) = 2 ^ (va - pb)" by simp
      then show ?thesis by (metis of_nat_eq_iff of_nat_numeral of_nat_power)
    qed
    have "lucky (\<lambda>(s', tr). s' = s \<and> length tr = nat num \<and> (\<forall>(v, t) \<in> set tr. 0 \<le> v \<and> v < ?a \<and> lin_translate s v = Inr t))
      (bnd (draw_addrs ?a (nat num) ds) (\<lambda>vs. bnd (trace_with (lin_translate s) (map Inr vs)) (\<lambda>ts. Inr (s, ts))))"
    proof (rule lucky_bnd[OF draw_addrs_ok(1)[OF dr a]])
      fix vs assume vs: "length vs = nat num \<and> (\<forall>v \<in> set vs. 0 \<le> v \<and> v < ?a)"
      then obtain ts where ts: "trace_with (lin_translate s) (map Inr vs) = Inr ts" "map fst ts = vs" "\<forall>(v, t) \<in> set ts. lin_translate s v = Inr t"
        using trace_with_ok[of vs "lin_translate s"] ex by blast
      moreover have "length ts = nat num" using ts(2) vs by (metis length_map)
      moreover have "\<forall>(v, t) \<in> set ts. 0 \<le> v \<and> v < ?a" using ts(2) vs by force
      ultimately show "lucky (\<lambda>(s', tr). s' = s \<and> length tr = nat num \<and> (\<forall>(v, t) \<in> set tr. 0 \<le> v \<and> v < ?a \<and> lin_translate s v = Inr t))
        (bnd (trace_with (lin_translate s) (map Inr vs)) (\<lambda>ts. Inr (s, ts)))" by auto
    qed
    then have l: "lucky (\<lambda>(s', tr). s' = s \<and> length tr = nat num \<and> (\<forall>(v, t) \<in> set tr. 0 \<le> v \<and> v < ?a \<and> lin_translate s v = Inr t))
      (case x of (s, draws) \<Rightarrow> bnd (bnd (draw_addrs ?a (nat num) draws) (\<lambda>vs. Inr (map Inr vs))) (\<lambda>vs. bnd (trace_with (lin_translate s) vs) (\<lambda>ts. Inr (s, ts))))"
      by (simp add: x bnd_assoc)
    have inj: "v = w" if "0 \<le> v \<and> v < ?a \<and> 0 \<le> w \<and> w < ?a \<and> lin_translate s v = Inr (Some q) \<and> lin_translate s w = Inr (Some q)" for v w q
      using lin_translate_inj[OF t] that by blast
    have beyond: "lin_translate s v = (if v mod 2 ^ 32 < ?a then lin_translate s (v mod 2 ^ 32) else Inl IndexError)" for v
      using lin_translate_mod[of s v] lin_translate_beyond[OF t _ _ a, of "v mod 2 ^ 32"] t by (auto simp: table_ok_def)
    show ?case
    proof (rule lucky_mono[OF l], goal_cases)
      case (1 y)
      then obtain ts where y: "y = (s, ts)" "length ts = nat num" "\<forall>(v, t) \<in> set ts. 0 \<le> v \<and> v < ?a \<and> lin_translate s v = Inr t" by auto
      show ?case unfolding y(1) prod.case
        by (intro conjI allI impI y len) (use tr inj beyond in blast)+
    qed
  qed
qed

lemma example_sizes: "convert ''1k'' = Inr 1024" "convert ''16k'' = Inr 16384" "convert ''-1'' = Inr (-1)" "convert ''64'' = Inr (2 ^ 6)" "convert ''128'' = Inr 128" "convert ''16'' = Inr (2 ^ 4)"
  by code_simp+

theorem relocation_bounds_witness:
  "(case relocation ''1k'' ''16k'' ''-1'' ''-1'' 2 [2 ^ 52, 2 ^ 51, 0, 2 ^ 52] of
      Inl e \<Rightarrow> False | Inr (b, l, tr) \<Rightarrow> 0 \<le> b \<and> b + l \<le> 16384 \<and> length tr = 2 \<and> (\<forall>(v, t) \<in> set tr. t = (if v < l then Some (b + v) else None)))"
proof -
  have "(case relocation ''1k'' ''16k'' ''-1'' ''-1'' 2 [2 ^ 52, 2 ^ 51, 0, 2 ^ 52] of Inl e \<Rightarrow> False | Inr _ \<Rightarrow> True)" by code_simp
  with relocation_bounds[OF example_sizes(1,2,3,3), of "[2 ^ 52, 2 ^ 51, 0, 2 ^ 52]" 2] show ?thesis by (fastforce split: sum.splits)
qed

theorem segmentation_random_witness:
  "\<exists>g tr. segmentation ''1k'' ''16k'' ''-1'' ''-1'' ''-1'' ''-1'' ''-1'' 1 [0, 0, 0, 2 ^ 52, 5] = Inr (g, tr) \<and> seg_translate 1024 g 1023 = Inr (Some (1, 8447)) \<and>
    (\<forall>v w n n' q. seg_translate 1024 g v = Inr (Some (n, q)) \<and> seg_translate 1024 g w = Inr (Some (n', q)) \<longrightarrow> v = w)"
proof -
  let ?r = "segmentation ''1k'' ''16k'' ''-1'' ''-1'' ''-1'' ''-1'' ''-1'' 1 [0, 0, 0, 2 ^ 52, 5]"
  have "(case ?r of Inl e \<Rightarrow> False | Inr (g, tr) \<Rightarrow> len0 g = 256 \<and> base1 g = 8192 \<and> len1 g = 256)" by code_simp
  then obtain g tr where r: "?r = Inr (g, tr)" "len0 g = 256" "base1 g = 8192" "len1 g = 256" by (auto split: sum.splits)
  note t = segmentation_random[OF example_sizes(1,2), of "[0, 0, 0, 2 ^ 52, 5]" 1, unfolded r(1) lucky_simps prod.case]
  have "seg_translate 1024 g 1023 = Inr (if 1023 < len0 g then Some (0, base0 g + 1023) else if 1024 - len1 g \<le> 1023 then Some (1, base1 g + len1 g - (1024 - 1023)) else None)"
    using t by simp
  moreover have "\<forall>v w n n' q. seg_translate 1024 g v = Inr (Some (n, q)) \<and> seg_translate 1024 g w = Inr (Some (n', q)) \<longrightarrow> v = w" using t by simp
  ultimately show ?thesis using r by simp
qed

theorem linear_paging_translates_witness:
  "\<exists>s tr. linear_paging ''64'' ''128'' ''16'' 50 ''-1'' 1 [2 ^ 53 - 1, 0, 0, 2 ^ 53 - 1, 0, 2 ^ 53 - 1, 2 ^ 52, 0, 7] = Inr (s, tr) \<and> length (pt s) = 4 \<and>
    lin_translate s 64 = Inl IndexError \<and> lin_translate s 4294967296 = lin_translate s 0"
proof -
  let ?ds = "[2 ^ 53 - 1, 0, 0, 2 ^ 53 - 1, 0, 2 ^ 53 - 1, 2 ^ 52, 0, 7]"
  let ?r = "linear_paging ''64'' ''128'' ''16'' 50 ''-1'' 1 ?ds"
  have "(case ?r of Inl e \<Rightarrow> False | Inr _ \<Rightarrow> True)" by code_simp
  then obtain s tr where "?r = Inr (s, tr)" by (auto split: sum.splits)
  moreover from this have "length (pt s) = 4" "\<And>v. lin_translate s v = (if v mod 2 ^ 32 < 2 ^ 6 then lin_translate s (v mod 2 ^ 32) else Inl IndexError)"
    using linear_paging_translates[OF example_sizes(4,5,6), of ?ds 1 50] by auto
  moreover from this(2)[of 64] this(2)[of 4294967296] have "lin_translate s 64 = Inl IndexError" "lin_translate s 4294967296 = lin_translate s 0" by simp_all
  ultimately show ?thesis by blast
qed

text \<open>Registers given by the user are checked less: segments that overlap are accepted when the second one starts below the first, so that addresses 14 and 63 share a place,
  and the second segment may lie beyond the end of the memory.\<close>

lemma segments_overlap_accepted:
  "(case segmentation ''64'' ''128'' ''20'' ''20'' ''30'' ''45'' ''14,63'' 0 [] of Inl _ \<Rightarrow> None | Inr (g, tr) \<Rightarrow> Some tr) = Some [(14, Some (0, 44)), (63, Some (1, 44))]"
  by code_simp

lemma segment_outside_accepted:
  "(case segmentation ''64'' ''128'' ''20'' ''20'' ''30'' ''148'' ''63'' 0 [] of Inl _ \<Rightarrow> None | Inr (g, tr) \<Rightarrow> Some tr) = Some [(63, Some (1, 147))]"
  by code_simp

end
