(* ===== verification/Checksum.thy ===== *)
theory Checksum
  imports Machines
begin

text \<open>
  The checksums of \<^verbatim>\<open>ostep/homework/file-integrity/checksum.py\<close>: the additive, the exclusive-or and the Fletcher checksum of a list of
  bytes, computed in one pass, and the errors they detect.
\<close>

section \<open>Model\<close>

record sums =
  add_sum :: int
  xor_sum :: int
  fletcher_a :: int
  fletcher_b :: int

definition sums_init :: sums where
  "sums_init = \<lparr>add_sum = 0, xor_sum = 0, fletcher_a = 0, fletcher_b = 0\<rparr>"

definition sums_step :: "sums \<Rightarrow> int \<Rightarrow> sums" where
  "sums_step s v =
     (let a = (fletcher_a s + v) mod 255
      in \<lparr>add_sum = (add_sum s + v) mod 256, xor_sum = xor_sum s XOR v, fletcher_a = a, fletcher_b = (fletcher_b s + a) mod 255\<rparr>)"

definition checksum :: "int list \<Rightarrow> sums" where
  "checksum values = foldl sums_step sums_init values"

text \<open>The values: given, or drawn.\<close>

fun read_values :: "string list \<Rightarrow> int list res" where
  "read_values [] = Inr []"
| "read_values (t # ts) = bnd (int_of_string t) (\<lambda>v. bnd (read_values ts) (\<lambda>vs. Inr (v # vs)))"

fun draw_values :: "nat \<Rightarrow> int list \<Rightarrow> int list res" where
  "draw_values 0 draws = Inr []"
| "draw_values (Suc n) [] = Inl NoReturn"
| "draw_values (Suc n) (k # draws) = bnd (draw_values n draws) (\<lambda>vs. Inr (scaled k 256 # vs))"

definition checksum_main :: "string \<Rightarrow> int \<Rightarrow> int list \<Rightarrow> (int list \<times> sums) res" where
  "checksum_main data data_size draws =
     bnd (if data \<noteq> [] then read_values (split_on CHR '','' data) else draw_values (nat data_size) draws) (\<lambda>vs. Inr (vs, checksum vs))"

section \<open>What the sums are\<close>

text \<open>The reference: plain sums of the values and of the values weighted by their distance from the end.\<close>

fun weighted :: "int list \<Rightarrow> int" where
  "weighted [] = 0"
| "weighted (v # vs) = int (Suc (length vs)) * v + weighted vs"

definition xor_all :: "int list \<Rightarrow> int" where
  "xor_all vs = foldr (XOR) vs 0"

lemma xor_all_simps [simp]: "xor_all [] = 0" "xor_all (v # vs) = v XOR xor_all vs"
  by (simp_all add: xor_all_def)

lemma sums_step_sel [simp]:
  "add_sum (sums_step s v) = (add_sum s + v) mod 256" "xor_sum (sums_step s v) = xor_sum s XOR v"
  "fletcher_a (sums_step s v) = (fletcher_a s + v) mod 255" "fletcher_b (sums_step s v) = (fletcher_b s + (fletcher_a s + v) mod 255) mod 255"
  by (simp_all add: sums_step_def Let_def)

lemma fold_mods: "((b + a mod m) mod m + n * (a mod m) + w) mod m = (b + a + n * a + w) mod (m::int)"
proof -
  have "(b + a mod m) mod m mod m = (b + a) mod m" by (simp add: mod_simps)
  moreover have "n * (a mod m) mod m = n * a mod m" by (simp add: mod_simps)
  ultimately show ?thesis by (intro mod_add_cong) simp_all
qed

lemma checksum_from:
  "foldl sums_step s vs = \<lparr>add_sum = (if vs = [] then add_sum s else (add_sum s + sum_list vs) mod 256), xor_sum = xor_sum s XOR xor_all vs,
     fletcher_a = (if vs = [] then fletcher_a s else (fletcher_a s + sum_list vs) mod 255),
     fletcher_b = (if vs = [] then fletcher_b s else (fletcher_b s + int (length vs) * fletcher_a s + weighted vs) mod 255)\<rparr>"
proof (induction vs arbitrary: s)
  case (Cons v vs)
  show ?case
  proof (cases "vs = []")
    case True
    then show ?thesis by (simp add: sums_step_def Let_def mod_simps algebra_simps)
  next
    case False
    have "((fletcher_b s + (fletcher_a s + v) mod 255) mod 255 + int (length vs) * ((fletcher_a s + v) mod 255) + weighted vs) mod 255 =
      (fletcher_b s + int (length (v # vs)) * fletcher_a s + weighted (v # vs)) mod 255"
      unfolding fold_mods by (simp add: algebra_simps)
    then show ?thesis using False by (simp add: Cons.IH mod_simps xor.assoc add.assoc)
  qed
qed simp

lemma weighted_sum: "weighted vs = (\<Sum>i<length vs. (int (length vs) - int i) * vs ! i)"
  by (induction vs) (simp_all add: sum.lessThan_Suc_shift del: sum.lessThan_Suc)

lemma checksum_eq:
  "checksum vs = \<lparr>add_sum = sum_list vs mod 256, xor_sum = xor_all vs, fletcher_a = sum_list vs mod 255, fletcher_b = weighted vs mod 255\<rparr>"
  by (simp add: checksum_def checksum_from sums_init_def)

lemma weighted_append: "weighted (xs @ ys) = weighted xs + int (length ys) * sum_list xs + weighted ys"
  by (induction xs) (auto simp: algebra_simps)

lemma xor_all_append: "xor_all (xs @ ys) = xor_all xs XOR xor_all ys"
  by (induction xs) (auto simp: xor.assoc)

section \<open>Errors that are detected\<close>

abbreviation byte_value :: "int \<Rightarrow> bool" where
  "byte_value v \<equiv> 0 \<le> v \<and> v < 256"

abbreviation fletcher :: "int list \<Rightarrow> int \<times> int" where
  "fletcher vs \<equiv> (fletcher_a (checksum vs), fletcher_b (checksum vs))"

lemma byte_diff: "byte_value v \<Longrightarrow> byte_value w \<Longrightarrow> 256 dvd v - w \<longleftrightarrow> v = w"
  "byte_value v \<Longrightarrow> byte_value w \<Longrightarrow> 255 dvd v - w \<longleftrightarrow> v = w \<or> {v, w} = {0, 255}"
proof -
  assume v: "byte_value v" and w: "byte_value w"
  have k: "v - w = 0" if "256 dvd v - w"
  proof -
    from that obtain k where k: "v - w = 256 * k" ..
    then have "k = 0" using v w by linarith
    then show ?thesis using k by simp
  qed
  then show "256 dvd v - w \<longleftrightarrow> v = w" by auto
  have "v = w \<or> v = 0 \<and> w = 255 \<or> v = 255 \<and> w = 0" if "255 dvd v - w"
  proof -
    from that obtain k where k: "v - w = 255 * k" ..
    then have "k = 0 \<or> k = 1 \<or> k = -1" using v w by linarith
    then show ?thesis using k v w by auto
  qed
  then have "255 dvd v - w \<longleftrightarrow> v = w \<or> v = 0 \<and> w = 255 \<or> v = 255 \<and> w = 0" by auto
  then show "255 dvd v - w \<longleftrightarrow> v = w \<or> {v, w} = {0, 255}" by (auto simp: doubleton_eq_iff)
qed

lemma xor_cancel: "a XOR (v XOR r) = a XOR (w XOR r) \<longleftrightarrow> v = (w::int)"
proof
  assume "a XOR (v XOR r) = a XOR (w XOR r)"
  then have "a XOR (a XOR (v XOR r)) XOR r = a XOR (a XOR (w XOR r)) XOR r" by simp
  then show "v = w" by (simp add: xor.assoc flip: xor.assoc[of a a])
qed simp

text \<open>C38. Checksums. Computed in one pass, the additive checksum is the sum of the values modulo 256, the exclusive-or checksum the exclusive or of all of them, and Fletcher's the sum and the
  sum weighted by the distance from the end, modulo 255. So the additive and the exclusive-or checksum detect every change of one byte; the Fletcher checksum misses exactly the changes between 0 and 255. An exchange
  of two neighbouring bytes is never seen by the first two, and by Fletcher's unless the bytes are equal or 0 and 255. All sums are bytes.\<close>

theorem checksum_detects:
  assumes "\<forall>x \<in> set (xs @ ys). byte_value x" "byte_value v" "byte_value w"
  shows "(\<forall>vs. checksum vs = \<lparr>add_sum = sum_list vs mod 256, xor_sum = foldr (XOR) vs 0, fletcher_a = sum_list vs mod 255,
      fletcher_b = (\<Sum>i<length vs. (int (length vs) - int i) * vs ! i) mod 255\<rparr>) \<and>
    byte_value (add_sum (checksum (xs @ v # ys))) \<and> byte_value (xor_sum (checksum (xs @ v # ys))) \<and>
    (add_sum (checksum (xs @ v # ys)) = add_sum (checksum (xs @ w # ys)) \<longleftrightarrow> v = w) \<and>
    (xor_sum (checksum (xs @ v # ys)) = xor_sum (checksum (xs @ w # ys)) \<longleftrightarrow> v = w) \<and>
    (fletcher (xs @ v # ys) = fletcher (xs @ w # ys) \<longleftrightarrow> v = w \<or> {v, w} = {0, 255}) \<and>
    add_sum (checksum (xs @ v # w # ys)) = add_sum (checksum (xs @ w # v # ys)) \<and>
    xor_sum (checksum (xs @ v # w # ys)) = xor_sum (checksum (xs @ w # v # ys)) \<and>
    (fletcher (xs @ v # w # ys) = fletcher (xs @ w # v # ys) \<longleftrightarrow> v = w \<or> {v, w} = {0, 255})"
proof -
  have xr: "byte_value (xor_all vs)" if "\<forall>x \<in> set vs. byte_value x" for vs
    using that by (induction vs) (auto intro: XOR_upper[of _ 8, simplified])
  have p1: "byte_value (xor_sum (checksum (xs @ v # ys)))" using xr[of "xs @ v # ys"] assms by (auto simp: checksum_eq)
  have p2: "byte_value (add_sum (checksum (xs @ v # ys)))" by (simp add: checksum_eq)
  have p3: "add_sum (checksum (xs @ v # ys)) = add_sum (checksum (xs @ w # ys)) \<longleftrightarrow> v = w"
    using byte_diff(1)[OF assms(2,3)] by (simp add: checksum_eq mod_eq_dvd_iff)
  have p4: "xor_sum (checksum (xs @ v # ys)) = xor_sum (checksum (xs @ w # ys)) \<longleftrightarrow> v = w"
    by (simp add: checksum_eq xor_all_append xor_cancel)
  have d: "weighted (xs @ v # ys) - weighted (xs @ w # ys) = int (Suc (length ys)) * (v - w)" by (simp add: weighted_append algebra_simps)
  have p5: "fletcher (xs @ v # ys) = fletcher (xs @ w # ys) \<longleftrightarrow> v = w \<or> {v, w} = {0, 255}"
    using byte_diff(2)[OF assms(2,3)] by (simp only: checksum_eq sums.simps prod.inject mod_eq_dvd_iff d) auto
  have p6: "add_sum (checksum (xs @ v # w # ys)) = add_sum (checksum (xs @ w # v # ys))" by (simp add: checksum_eq add.left_commute)
  have p7: "xor_sum (checksum (xs @ v # w # ys)) = xor_sum (checksum (xs @ w # v # ys))" by (simp add: checksum_eq xor_all_append xor.left_commute)
  have e: "weighted (xs @ v # w # ys) - weighted (xs @ w # v # ys) = v - w" by (simp add: weighted_append algebra_simps)
  have f: "sum_list (xs @ v # w # ys) - sum_list (xs @ w # v # ys) = 0" by simp
  have p8: "fletcher (xs @ v # w # ys) = fletcher (xs @ w # v # ys) \<longleftrightarrow> v = w \<or> {v, w} = {0, 255}"
    using byte_diff(2)[OF assms(2,3)] by (simp only: checksum_eq sums.simps prod.inject mod_eq_dvd_iff e f) simp
  have p0: "\<forall>vs. checksum vs = \<lparr>add_sum = sum_list vs mod 256, xor_sum = foldr (XOR) vs 0, fletcher_a = sum_list vs mod 255,
      fletcher_b = (\<Sum>i<length vs. (int (length vs) - int i) * vs ! i) mod 255\<rparr>"
    by (simp add: checksum_eq weighted_sum xor_all_def)
  show ?thesis by (rule conjI[OF p0 conjI[OF p2 conjI[OF p1 conjI[OF p3 conjI[OF p4 conjI[OF p5 conjI[OF p6 conjI[OF p7 p8]]]]]]]])
qed

theorem checksum_detects_witness:
  "fletcher [1, 0, 2] = fletcher [1, 255, 2] \<and> add_sum (checksum [1, 0, 2]) \<noteq> add_sum (checksum [1, 255, 2])"
  using checksum_detects[of "[1]" "[2]" 0 255] by auto

end
