(* ===== verification/Ssd_Workload.thy ===== *)
theory Ssd_Workload
  imports Ssd_Store
begin

text \<open>
  The main program of \<^verbatim>\<open>ostep/homework/file-ssd/ssd.py\<close>: the generator of random commands (with its shares of reads, writes and trims, its share of
  wild reads and its hot pages) and the run of the device on them. The lemmas show that the generated commands make sense,
  and with the contract of the devices how they are answered: only wild reads can fail. Quotients by 100 and products with a random number are exact.
\<close>

section \<open>Model\<close>

record workload =
  percent_reads :: int
  percent_writes :: int
  read_fail :: int
  max_page_addr :: int
  skew :: "(int \<times> int) option" \<comment> \<open>percent of the writes, percent of the pages\<close>

definition draw_one :: "int list \<Rightarrow> (int \<times> int list) res" where
  "draw_one draws = (case draws of [] \<Rightarrow> Inl NoReturn | k # ks \<Rightarrow> Inr (k, ks))"

text \<open>\<^verbatim>\<open>random_randint(0, hi)\<close>\<close>

definition randint0 :: "int \<Rightarrow> int \<Rightarrow> int" where
  "randint0 k hi = int_scaled k (hi + 1)"

definition choice :: "int \<Rightarrow> 'a list \<Rightarrow> 'a res" where
  "choice k L = list_get L (randint0 k (int (length L) - 1))"

definition printable :: string where
  "printable = ''0123456789abcdefghijklmnopqrstuvwxyzABCDEFGHIJKLMNOPQRSTUVWXYZ''"

definition read_skew :: "string \<Rightarrow> (int \<times> int) option res" where
  "read_skew t =
     (if t = [] then Inr None
      else let sk = split_on CHR ''/'' t
           in if length sk \<noteq> 2 then Inl SysExit
              else bnd (int_of_string (sk ! 0)) (\<lambda>a. bnd (int_of_string (sk ! 1)) (\<lambda>b. Inr (Some (a, b)))))"

definition read_percentages :: "string \<Rightarrow> (int \<times> int) res" where
  "read_percentages t =
     (let p = split_on CHR ''/'' t
      in asserting (length p = 3) (bnd (int_of_string (p ! 0)) (\<lambda>a. bnd (int_of_string (p ! 1)) (\<lambda>b. bnd (int_of_string (p ! 2)) (\<lambda>c.
           if b \<le> 0 then Inl SysExit else Inr (a, b))))))"

text \<open>The state of the generator: the commands so far, the pages that hold data, and the writes until the skew starts.\<close>

type_synonym gen_state = "cmd list \<times> int list \<times> int"

definition write_address :: "workload \<Rightarrow> int \<Rightarrow> int list \<Rightarrow> (int \<times> int list) res" where
  "write_address p skew_start ds =
     (let anywhere = (\<lambda>ds. bnd (draw_one ds) (\<lambda>(k, ds). Inr (randint0 k (max_page_addr p - 1), ds)))
      in case skew p of
           Some (hot_percent, hot_target) \<Rightarrow>
             if skew_start = 0
             then bnd (draw_one ds) (\<lambda>(k, ds).
                    if k * 100 < hot_percent * 2 ^ 53
                    then bnd (draw_one ds) (\<lambda>(k, ds). bnd (int_div (hot_target * (max_page_addr p - 1)) 100) (\<lambda>h. Inr (randint0 k h, ds)))
                    else anywhere ds)
             else anywhere ds
         | None \<Rightarrow> anywhere ds)"

definition gen_step :: "workload \<Rightarrow> gen_state \<Rightarrow> int list \<Rightarrow> (gen_state \<times> int list) res" where
  "gen_step p = (\<lambda>(cmds, valid_addresses, skew_start) draws.
     bnd (draw_one draws) (\<lambda>(k, ds).
     let which_cmd = scaled k 100
     in if which_cmd < percent_reads p
        then bnd (draw_one ds) (\<lambda>(k, ds).
               if randint0 k 99 < read_fail p
               then bnd (draw_one ds) (\<lambda>(k, ds). Inr ((cmds @ [Rd (randint0 k (max_page_addr p - 1))], valid_addresses, skew_start), ds))
               else if length valid_addresses < 2 then Inr ((cmds, valid_addresses, skew_start), ds)
               else bnd (draw_one ds) (\<lambda>(k, ds). bnd (choice k valid_addresses) (\<lambda>a. Inr ((cmds @ [Rd a], valid_addresses, skew_start), ds))))
        else if which_cmd < percent_reads p + percent_writes p
        then bnd (write_address p skew_start ds) (\<lambda>(a, ds).
             let valid' = (if a \<in> set valid_addresses then valid_addresses else valid_addresses @ [a])
             in bnd (draw_one ds) (\<lambda>(k, ds). bnd (choice k printable) (\<lambda>c.
                  Inr ((cmds @ [Wr a [c]], valid', (if skew_start > 0 then skew_start - 1 else skew_start)), ds))))
        else if length valid_addresses < 1 then Inr ((cmds, valid_addresses, skew_start), ds)
        else bnd (draw_one ds) (\<lambda>(k, ds). bnd (choice k valid_addresses) (\<lambda>a. Inr ((cmds @ [Tr a], remove1 a valid_addresses, skew_start), ds)))))"

lemma draw_one_shorter: "draw_one draws = Inr (k, ds) \<Longrightarrow> length ds < length draws"
  by (auto simp: draw_one_def split: list.splits)

lemma write_address_shorter: "write_address p sk ds = Inr (a, ds') \<Longrightarrow> length ds' < length ds"
  by (auto simp: write_address_def Let_def res_simps dest!: draw_one_shorter split: option.splits prod.splits if_splits)

lemma gen_step_shorter: "gen_step p st draws = Inr (st', ds) \<Longrightarrow> length ds < length draws"
  by (auto simp: gen_step_def Let_def res_simps dest!: draw_one_shorter write_address_shorter split: prod.splits if_splits)

function gen_cmds :: "workload \<Rightarrow> int \<Rightarrow> gen_state \<Rightarrow> int list \<Rightarrow> cmd list res" where
  "gen_cmds p num_cmds st draws =
     (if int (length (fst st)) < num_cmds
      then case gen_step p st draws of Inl e \<Rightarrow> Inl e | Inr (st', ds) \<Rightarrow> gen_cmds p num_cmds st' ds
      else Inr (fst st))"
  by pat_completeness auto
termination by (relation "measure (\<lambda>(p, n, st, draws). length draws)") (auto dest: gen_step_shorter)

declare gen_cmds.simps [simp del]

definition random_cmds :: "int \<Rightarrow> string \<Rightarrow> int \<Rightarrow> int \<Rightarrow> (int \<times> int) option \<Rightarrow> int \<Rightarrow> int list \<Rightarrow> cmd list res" where
  "random_cmds num_cmds op_percentages rfail nl sk skew_start draws =
     bnd (read_percentages op_percentages) (\<lambda>(r, w).
       gen_cmds \<lparr>percent_reads = r, percent_writes = w, read_fail = rfail, max_page_addr = nl, skew = sk\<rparr> num_cmds ([], [], skew_start) draws)"

text \<open>The main program: \<open>s\<close> is the new device.\<close>

definition ssd_main :: "ssd \<Rightarrow> string \<Rightarrow> int \<Rightarrow> string \<Rightarrow> int \<Rightarrow> string \<Rightarrow> int \<Rightarrow> int list \<Rightarrow> (string list \<times> ssd) res" where
  "ssd_main s cmd_list num_cmds op_percentages rfail skew_text skew_start draws =
     bnd (read_skew skew_text) (\<lambda>sk.
     bnd (if cmd_list = [] then bnd (random_cmds num_cmds op_percentages rfail (num_logical_pages s) sk skew_start draws) (\<lambda>cs. Inr (map show_cmd cs))
          else Inr (split_on CHR '','' cmd_list)) (cmd_loop s []))"

section \<open>Sensible commands\<close>

text \<open>\<open>V\<close> are the pages that hold data: only they are trimmed and, unless there are wild reads (\<open>wild\<close>), read; writes and wild reads go to pages of the device.\<close>

abbreviation letters :: "string set" where
  "letters \<equiv> (\<lambda>c. [c]) ` set printable"

fun sensible_cmd :: "bool \<Rightarrow> int \<Rightarrow> int set \<Rightarrow> cmd \<Rightarrow> bool" where
  "sensible_cmd wild nl V (Rd l) = (l \<in> V \<or> wild \<and> 0 \<le> l \<and> l < nl)"
| "sensible_cmd wild nl V (Wr l d) = (0 \<le> l \<and> l < nl \<and> d \<in> letters)"
| "sensible_cmd wild nl V (Tr l) = (l \<in> V)"

fun holding :: "int set \<Rightarrow> cmd \<Rightarrow> int set" where
  "holding V (Rd l) = V"
| "holding V (Wr l d) = insert l V"
| "holding V (Tr l) = V - {l}"

fun sensible :: "bool \<Rightarrow> int \<Rightarrow> int set \<Rightarrow> cmd list \<Rightarrow> bool" where
  "sensible wild nl V [] = True"
| "sensible wild nl V (c # cs) = (sensible_cmd wild nl V c \<and> sensible wild nl (holding V c) cs)"

lemma sensible_snoc: "sensible wild nl V (cs @ [c]) \<longleftrightarrow> sensible wild nl V cs \<and> sensible_cmd wild nl (foldl holding V cs) c"
  by (induction cs arbitrary: V) auto

lemma sensible_cmd_ok: "sensible wild nl V cs \<Longrightarrow> c \<in> set cs \<Longrightarrow> cmd_ok c"
proof (induction cs arbitrary: V)
  case (Cons x xs)
  have "CHR '':'' \<notin> set printable" by (simp add: printable_def)
  then have "cmd_ok x" using Cons.prems(1) by (cases x) auto
  with Cons show ?case by auto
qed simp

definition gen_inv :: "bool \<Rightarrow> int \<Rightarrow> int \<Rightarrow> gen_state \<Rightarrow> bool" where
  "gen_inv wild nl n = (\<lambda>(cmds, valid, sk). sensible wild nl {} cmds \<and> foldl holding {} cmds = set valid \<and> distinct valid \<and> int (length cmds) \<le> n)"

text \<open>Drawing a number, an element, an address.\<close>

lemma draw_one_ok: "\<forall>k \<in> set draws. drawn k \<Longrightarrow> lucky (\<lambda>(k, ds). drawn k \<and> (\<forall>k \<in> set ds. drawn k)) (draw_one draws)"
  by (cases draws) (auto simp: draw_one_def)

lemma choice_ok: "drawn k \<Longrightarrow> L \<noteq> [] \<Longrightarrow> lucky (\<lambda>x. x \<in> set L) (choice k L)"
  using int_scaled_range[of k "int (length L)"] by (auto simp: choice_def randint0_def)

lemma randint0_ok: "drawn k \<Longrightarrow> 0 \<le> hi \<Longrightarrow> 0 \<le> randint0 k hi \<and> randint0 k hi \<le> hi"
  using int_scaled_range[of k "hi + 1"] by (simp add: randint0_def)

definition workload_ok :: "workload \<Rightarrow> bool" where
  "workload_ok p \<longleftrightarrow> 0 < max_page_addr p \<and> (case skew p of None \<Rightarrow> True | Some (a, b) \<Rightarrow> 0 \<le> b \<and> b \<le> 100)"

lemma write_address_ok:
  assumes p: "workload_ok p" and ds: "\<forall>k \<in> set ds. drawn k"
  shows "lucky (\<lambda>(a, ds). 0 \<le> a \<and> a < max_page_addr p \<and> (\<forall>k \<in> set ds. drawn k)) (write_address p sk ds)"
proof -
  have any: "lucky (\<lambda>(a, ds). 0 \<le> a \<and> a < max_page_addr p \<and> (\<forall>k \<in> set ds. drawn k)) (bnd (draw_one ds) (\<lambda>(k, ds). Inr (randint0 k (max_page_addr p - 1), ds)))"
    if "\<forall>k \<in> set ds. drawn k" for ds
    by (rule lucky_bnd[OF draw_one_ok[OF that]]) (use p randint0_ok[of _ "max_page_addr p - 1"] in \<open>auto simp: workload_ok_def\<close>)
  have hot: "lucky (\<lambda>(a, ds). 0 \<le> a \<and> a < max_page_addr p \<and> (\<forall>k \<in> set ds. drawn k))
      (bnd (draw_one ds) (\<lambda>(k, ds). bnd (int_div (b * (max_page_addr p - 1)) 100) (\<lambda>h. Inr (randint0 k h, ds))))"
    if "\<forall>k \<in> set ds. drawn k" "0 \<le> b" "b \<le> 100" for ds b
  proof (rule lucky_bnd[OF draw_one_ok[OF that(1)]], goal_cases)
    case (1 q)
    define h where "h = b * (max_page_addr p - 1) div 100"
    have m: "0 \<le> max_page_addr p - 1" using p by (simp add: workload_ok_def)
    then have h: "int_div (b * (max_page_addr p - 1)) 100 = Inr h" "0 \<le> h" using that by (simp_all add: h_def pos_imp_zdiv_nonneg_iff)
    have "b * (max_page_addr p - 1) \<le> 100 * (max_page_addr p - 1)" using that m by (intro mult_right_mono)
    then have "h < max_page_addr p" unfolding h_def by (subst zdiv_less_iff) (auto simp: algebra_simps)
    then show ?case using 1 h randint0_ok[of "fst q" h] by (auto simp: split_beta)
  qed
  show ?thesis
  proof (cases "skew p")
    case None
    then show ?thesis using any[OF ds] by (simp add: write_address_def)
  next
    case (Some q)
    then obtain a b where q: "skew p = Some (a, b)" "0 \<le> b" "b \<le> 100" using p by (auto simp: workload_ok_def)
    show ?thesis
    proof (cases "sk = 0")
      case True
      have "lucky (\<lambda>(a, ds). 0 \<le> a \<and> a < max_page_addr p \<and> (\<forall>k \<in> set ds. drawn k)) (bnd (draw_one ds) (\<lambda>(k, ds). if k * 100 < a * 2 ^ 53
           then bnd (draw_one ds) (\<lambda>(k, ds). bnd (int_div (b * (max_page_addr p - 1)) 100) (\<lambda>h. Inr (randint0 k h, ds)))
           else bnd (draw_one ds) (\<lambda>(k, ds). Inr (randint0 k (max_page_addr p - 1), ds))))"
        by (rule lucky_bnd[OF draw_one_ok[OF ds]]) (use any hot[OF _ q(2,3)] in auto)
      then show ?thesis using True q by (simp add: write_address_def)
    qed (use any[OF ds] q in \<open>simp add: write_address_def\<close>)
  qed
qed

lemma gen_inv_add:
  assumes "gen_inv wild nl n (cmds, valid, sk)" "sensible_cmd wild nl (set valid) c" "holding (set valid) c = set valid'" "distinct valid'"
  shows "gen_inv wild nl (n + 1) (cmds @ [c], valid', sk')"
  using assms by (simp add: gen_inv_def sensible_snoc)

lemma gen_inv_keep: "gen_inv wild nl n st \<Longrightarrow> gen_inv wild nl (n + 1) st"
  by (auto simp: gen_inv_def)

lemma gen_step_ok:
  assumes p: "workload_ok p" and inv: "gen_inv (0 < read_fail p) (max_page_addr p) n st" and draws: "\<forall>k \<in> set draws. drawn k"
  shows "lucky (\<lambda>(st', ds). gen_inv (0 < read_fail p) (max_page_addr p) (n + 1) st' \<and> (\<forall>k \<in> set ds. drawn k)) (gen_step p st draws)"
proof -
  obtain cmds valid sk where st: "st = (cmds, valid, sk)" by (cases st) auto
  have dv: "distinct valid" using inv by (simp add: gen_inv_def st)
  have read: "lucky (\<lambda>(st', ds). gen_inv (0 < read_fail p) (max_page_addr p) (n + 1) st' \<and> (\<forall>k \<in> set ds. drawn k))
      (bnd (draw_one ds) (\<lambda>(k, ds). bnd (choice k valid) (\<lambda>a. Inr ((cmds @ [f a], g a, sk), ds))))"
    if "\<forall>k \<in> set ds. drawn k" "valid \<noteq> []" "\<And>a. a \<in> set valid \<Longrightarrow> sensible_cmd (0 < read_fail p) (max_page_addr p) (set valid) (f a)"
      "\<And>a. a \<in> set valid \<Longrightarrow> holding (set valid) (f a) = set (g a) \<and> distinct (g a)" for ds f g
  proof (rule lucky_bnd[OF draw_one_ok[OF that(1)]], goal_cases)
    case (1 q)
    then show ?case unfolding split_beta
      by (intro lucky_bnd[OF choice_ok[OF _ that(2)]]) (use gen_inv_add[OF inv[unfolded st]] that(3,4) in auto)
  qed
  have wrote: "lucky (\<lambda>(st', ds). gen_inv (0 < read_fail p) (max_page_addr p) (n + 1) st' \<and> (\<forall>k \<in> set ds. drawn k))
      (bnd (draw_one ds) (\<lambda>(k, ds). bnd (choice k printable) (\<lambda>c. Inr ((cmds @ [Wr a [c]], (if a \<in> set valid then valid else valid @ [a]), sk'), ds))))"
    if "\<forall>k \<in> set ds. drawn k" "0 \<le> a" "a < max_page_addr p" for ds a sk'
  proof (rule lucky_bnd[OF draw_one_ok[OF that(1)]], goal_cases)
    case (1 q)
    have "printable \<noteq> []" by (simp add: printable_def)
    then show ?case using 1 unfolding split_beta
      by (intro lucky_bnd[OF choice_ok]) (use gen_inv_add[OF inv[unfolded st]] that(2,3) dv in \<open>auto simp: insert_absorb\<close>)
  qed
  show ?thesis unfolding gen_step_def st prod.case
  proof (rule lucky_bnd[OF draw_one_ok[OF draws]], goal_cases)
    case (1 q)
    then obtain k ds where q: "q = (k, ds)" "\<forall>k \<in> set ds. drawn k" by (cases q) auto
    have keep: "lucky (\<lambda>(st', ds). gen_inv (0 < read_fail p) (max_page_addr p) (n + 1) st' \<and> (\<forall>k \<in> set ds. drawn k)) (Inr ((cmds, valid, sk), ds))" if "\<forall>k \<in> set ds. drawn k" for ds
      using gen_inv_keep[OF inv[unfolded st]] that by simp
    consider "scaled k 100 < percent_reads p" | "\<not> scaled k 100 < percent_reads p" "scaled k 100 < percent_reads p + percent_writes p"
      | "\<not> scaled k 100 < percent_reads p" "\<not> scaled k 100 < percent_reads p + percent_writes p" by blast
    then show ?case
    proof cases
      case 1
      have "lucky (\<lambda>(st', ds). gen_inv (0 < read_fail p) (max_page_addr p) (n + 1) st' \<and> (\<forall>k \<in> set ds. drawn k)) (bnd (draw_one ds) (\<lambda>(k, ds).
          if randint0 k 99 < read_fail p then bnd (draw_one ds) (\<lambda>(k, ds). Inr ((cmds @ [Rd (randint0 k (max_page_addr p - 1))], valid, sk), ds))
          else if length valid < 2 then Inr ((cmds, valid, sk), ds)
          else bnd (draw_one ds) (\<lambda>(k, ds). bnd (choice k valid) (\<lambda>a. Inr ((cmds @ [Rd a], valid, sk), ds)))))"
      proof (rule lucky_bnd[OF draw_one_ok[OF q(2)]], goal_cases)
        case (1 r)
        have r0: "0 \<le> randint0 (fst r) 99" using 1 randint0_ok[of "fst r" 99] by (auto simp: split_beta)
        show ?case
        proof (cases "randint0 (fst r) 99 < read_fail p")
          case True
          have "lucky (\<lambda>(st', ds). gen_inv (0 < read_fail p) (max_page_addr p) (n + 1) st' \<and> (\<forall>k \<in> set ds. drawn k))
              (bnd (draw_one (snd r)) (\<lambda>(k, ds). Inr ((cmds @ [Rd (randint0 k (max_page_addr p - 1))], valid, sk), ds)))"
          proof (rule lucky_bnd[OF draw_one_ok], goal_cases)
            case (2 q)
            then have "0 \<le> randint0 (fst q) (max_page_addr p - 1) \<and> randint0 (fst q) (max_page_addr p - 1) < max_page_addr p"
              using randint0_ok[of "fst q" "max_page_addr p - 1"] p by (auto simp: workload_ok_def split_beta)
            then show ?case using 2 True r0 gen_inv_add[OF inv[unfolded st], of "Rd (randint0 (fst q) (max_page_addr p - 1))" valid sk] dv by (simp add: split_beta)
          qed (use 1 in \<open>simp add: split_beta\<close>)
          then show ?thesis using True by (simp add: split_beta)
        next
          case False
          then show ?thesis using 1 keep read[of "snd r" Rd "\<lambda>_. valid"] dv by (cases "valid = []") (auto simp: split_beta)
        qed
      qed
      then show ?thesis using q 1 by (simp add: Let_def)
    next
      case 2
      have "lucky (\<lambda>(st', ds). gen_inv (0 < read_fail p) (max_page_addr p) (n + 1) st' \<and> (\<forall>k \<in> set ds. drawn k)) (bnd (write_address p sk ds) (\<lambda>(a, ds).
          let valid' = (if a \<in> set valid then valid else valid @ [a])
          in bnd (draw_one ds) (\<lambda>(k, ds). bnd (choice k printable) (\<lambda>c. Inr ((cmds @ [Wr a [c]], valid', (if sk > 0 then sk - 1 else sk)), ds)))))"
        by (rule lucky_bnd[OF write_address_ok[OF p q(2)]]) (use wrote in \<open>auto simp: Let_def simp del: lucky_simps\<close>)
      then show ?thesis using q 2 by (simp add: Let_def)
    next
      case 3
      then show ?thesis using q keep[OF q(2)] read[OF q(2), of Tr "\<lambda>a. remove1 a valid"] dv by (auto simp: Let_def)
    qed
  qed
qed

lemma gen_inv_length:
  "gen_inv wild nl n st \<Longrightarrow> gen_inv wild nl (int (length (fst st))) st" "gen_inv wild nl m st \<Longrightarrow> m \<le> n \<Longrightarrow> gen_inv wild nl n st" "gen_inv wild nl n st \<Longrightarrow> int (length (fst st)) \<le> n"
  "gen_inv wild nl n st \<Longrightarrow> sensible wild nl {} (fst st)"
  by (auto simp: gen_inv_def)

lemma gen_cmds_ok:
  assumes "workload_ok p" "gen_inv (0 < read_fail p) (max_page_addr p) n st" "\<forall>k \<in> set draws. drawn k"
  shows "lucky (\<lambda>cs. sensible (0 < read_fail p) (max_page_addr p) {} cs \<and> int (length cs) = n) (gen_cmds p n st draws)"
  using assms
proof (induction p n st draws rule: gen_cmds.induct)
  case (1 p n st draws)
  show ?case
  proof (cases "int (length (fst st)) < n")
    case False
    then show ?thesis using gen_inv_length(3,4)[OF "1.prems"(2)] by (simp add: gen_cmds.simps[of p n st])
  next
    case True
    from gen_step_ok[OF "1.prems"(1) gen_inv_length(1)[OF "1.prems"(2)] "1.prems"(3)] show ?thesis
    proof (cases "gen_step p st draws")
      case (Inl e)
      then show ?thesis using gen_step_ok[OF "1.prems"(1) gen_inv_length(1)[OF "1.prems"(2)] "1.prems"(3)] True by (simp add: gen_cmds.simps[of p n st])
    next
      case (Inr q)
      obtain st' ds where q: "q = (st', ds)" by (cases q)
      have "gen_inv (0 < read_fail p) (max_page_addr p) (int (length (fst st)) + 1) st'" "\<forall>k \<in> set ds. drawn k"
        using gen_step_ok[OF "1.prems"(1) gen_inv_length(1)[OF "1.prems"(2)] "1.prems"(3)] Inr q by auto
      then have "lucky (\<lambda>cs. sensible (0 < read_fail p) (max_page_addr p) {} cs \<and> int (length cs) = n) (gen_cmds p n st' ds)"
        using "1.IH"[OF True Inr q[symmetric]] "1.prems"(1) gen_inv_length(2)[of "0 < read_fail p" "max_page_addr p" "int (length (fst st)) + 1" st' n] True by simp
      then show ?thesis using True Inr q by (simp add: gen_cmds.simps[of p n st])
    qed
  qed
qed

section \<open>Devices on which every write succeeds\<close>

text \<open>The answers to sensible commands, from the data \<open>m\<close> of the pages.\<close>

fun reply :: "(int \<rightharpoonup> string) \<Rightarrow> cmd \<Rightarrow> string" where
  "reply m (Rd l) = (case m l of None \<Rightarrow> ''fail: uninitialized read'' | Some d \<Rightarrow> d)"
| "reply m (Wr l d) = ''success''"
| "reply m (Tr l) = ''success''"

fun kept_pages :: "(int \<rightharpoonup> string) \<Rightarrow> cmd \<Rightarrow> (int \<rightharpoonup> string)" where
  "kept_pages m (Rd l) = m"
| "kept_pages m (Wr l d) = m(l \<mapsto> d)"
| "kept_pages m (Tr l) = m(l := None)"

fun replies :: "(int \<rightharpoonup> string) \<Rightarrow> cmd list \<Rightarrow> string list" where
  "replies m [] = []"
| "replies m (c # cs) = reply m c # replies (kept_pages m c) cs"

text \<open>Without wild reads every command succeeds, and reads answer letters that were written.\<close>

definition served :: "cmd \<Rightarrow> string \<Rightarrow> bool" where
  "served c v \<longleftrightarrow> (case c of Rd l \<Rightarrow> v \<in> letters | _ \<Rightarrow> v = ''success'')"

lemma holding_dom: "holding (dom m) c = dom (kept_pages m c)"
  by (cases c) auto

lemma replies_served: "sensible False nl (dom m) cs \<Longrightarrow> ran m \<subseteq> letters \<Longrightarrow> list_all2 served cs (replies m cs)"
proof (induction cs arbitrary: m)
  case (Cons c cs)
  have "served c (reply m c)" using Cons.prems by (cases c) (auto simp: served_def ran_def)
  moreover have "ran (kept_pages m c) \<subseteq> letters" using Cons.prems by (cases c) (auto simp: ran_def split: if_splits)
  ultimately show ?case using Cons by (simp add: holding_dom)
qed simp

locale sure_store = kept_store +
  assumes write_sure: "inv s \<Longrightarrow> 0 \<le> l \<Longrightarrow> l < nl \<Longrightarrow> wr s l d = Inr (rc, t) \<Longrightarrow> rc = ''success''"
    and trim_sure: "inv s \<Longrightarrow> cont s l \<noteq> None \<Longrightarrow> tr s l = Inr (rc, t) \<Longrightarrow> rc = ''success''"
begin

lemma exec_sure:
  assumes "inv s" "dom (cont s) \<subseteq> {0..<nl}" "sensible_cmd wild nl (dom (cont s)) c" "exec s c = Inr (v, t)"
  shows "v = reply (cont s) c \<and> cont t = kept_pages (cont s) c \<and> dom (cont t) \<subseteq> {0..<nl}"
proof -
  have t: "cont t = after (cont s) c v" "case c of Rd l \<Rightarrow> v = answer nl (cont s) l | _ \<Rightarrow> True" using exec_law[OF assms(1), of c] assms(4) by auto
  show ?thesis
  proof (cases c)
    case (Rd l)
    then have "0 \<le> l \<and> l < nl" using assms(2,3) by auto
    then show ?thesis using t assms(2) Rd by (simp add: answer_def)
  next
    case (Wr l d)
    then have "v = ''success''" using write_sure[OF assms(1), of l d v t] assms(3,4) by (simp add: exec_def)
    then show ?thesis using t(1) assms(2,3) Wr by auto
  next
    case (Tr l)
    then have "cont s l \<noteq> None" using assms(3) by auto
    then have "v = ''success''" using trim_sure[OF assms(1), of l v t] assms(4) Tr by (simp add: exec_def)
    then show ?thesis using t(1) assms(2) Tr by auto
  qed
qed

lemma loop_sure:
  assumes "inv s" "dom (cont s) \<subseteq> {0..<nl}" "sensible wild nl (dom (cont s)) cs"
  shows "\<exists>t. loop s cs = Inr (replies (cont s) cs, t)"
  using assms
proof (induction cs arbitrary: s)
  case (Cons c cs)
  obtain v t where v: "exec s c = Inr (v, t)" "inv t" using exec_law[OF Cons.prems(1), of c] by blast
  have c: "sensible_cmd wild nl (dom (cont s)) c" "sensible wild nl (dom (kept_pages (cont s) c)) cs" using Cons.prems(3) by (simp_all add: holding_dom)
  note w = exec_sure[OF Cons.prems(1,2) c(1) v(1)]
  obtain u where u: "up t = Inr u" "inv u" "cont u = cont t" using up_law[OF v(2)] by blast
  obtain x where "loop u cs = Inr (replies (cont u) cs, x)"
    using Cons.IH[OF u(2)] w u(3) c(2) by auto
  with v u w show ?case by auto
qed simp

end

lemma flat_sure:
  assumes "flat_inv k s" "k = TYPE_DIRECT \<or> k = TYPE_IDEAL"
  shows "0 \<le> l \<Longrightarrow> l < num_logical_pages s \<Longrightarrow> ssd_write s l d = Inr (rc, t) \<Longrightarrow> rc = ''success''"
    and "contents s l \<noteq> None \<Longrightarrow> ssd_trim s l = Inr (rc, t) \<Longrightarrow> rc = ''success''"
proof -
  have k: "ssd_type s = k" using assms(1) by (simp add: flat_inv_def)
  show "rc = ''success''" if "0 \<le> l" "l < num_logical_pages s" "ssd_write s l d = Inr (rc, t)"
    using that k assms(2) by (cases k) (auto simp: ssd_write_def write_direct_def write_ideal_def Let_def res_simps)
  show "rc = ''success''" if "contents s l \<noteq> None" "ssd_trim s l = Inr (rc, t)"
    using that contents_range[of s l] assms(1) by (auto simp: ssd_trim_def contents_def Let_def res_simps flat_inv_def split: if_splits option.splits)
qed

interpretation direct_sure: sure_store nl "\<lambda>s. flat_inv TYPE_DIRECT s \<and> num_logical_pages s = nl" contents ssd_write ssd_read ssd_trim upkeep
  by unfold_locales (use flat_sure in blast)+

interpretation ideal_sure: sure_store nl "\<lambda>s. flat_inv TYPE_IDEAL s \<and> num_logical_pages s = nl" contents ssd_write ssd_read ssd_trim upkeep
  by unfold_locales (use flat_sure in blast)+

section \<open>Properties\<close>

text \<open>C32. Random workloads. On a direct or an ideal device with at least as many physical as logical pages and a positive high-water mark, for every split of the commands, every share of
  wild reads and every skew with at most 100 percent of the pages: the generator only stops for want of random numbers; otherwise it makes the number of commands that was asked
  for, and the device answers them as a store of pages does: every write and every trim succeeds, a read answers what was last written to the page, and fails only on a page
  that holds no data. Only wild reads (option \<^verbatim>\<open>-r\<close>) meet such pages: without them every command is served.\<close>

theorem random_workload_served:
  assumes init: "ssd_init kind nl nb ppb et pt rt high low = Inr s" "kind = ''direct'' \<or> kind = ''ideal''" "0 < nb" "0 < ppb" "0 < nl" "nl \<le> nb * ppb" "0 < high"
    and opts: "read_percentages op_percentages = Inr (r, w)" "read_skew skew_text = Inr sk" "case sk of None \<Rightarrow> True | Some (a, b) \<Rightarrow> 0 \<le> b \<and> b \<le> 100"
    and n: "0 \<le> num_cmds" and draws: "\<forall>k \<in> set draws. drawn k"
  shows "case random_cmds num_cmds op_percentages rfail nl sk skew_start draws of
      Inl e \<Rightarrow> e = NoReturn
    | Inr cs \<Rightarrow> int (length cs) = num_cmds \<and> (\<exists>t. ssd_main s [] num_cmds op_percentages rfail skew_text skew_start draws = Inr (replies Map.empty cs, t)) \<and>
        (rfail \<le> 0 \<longrightarrow> list_all2 served cs (replies Map.empty cs))"
proof -
  define p where "p = \<lparr>percent_reads = r, percent_writes = w, read_fail = rfail, max_page_addr = nl, skew = sk\<rparr>"
  note i = init_fields[OF init(1,3,4)]
  have k: "ssd_type s = TYPE_DIRECT \<or> ssd_type s = TYPE_IDEAL" using i(2) init(2) by (auto simp: kind_of_def)
  have flat: "flat_inv (ssd_type s) s" using i init(6,7) by (auto simp: flat_inv_def fill_apply split: if_splits)
  have g: "random_cmds num_cmds op_percentages rfail nl sk skew_start draws = gen_cmds p num_cmds ([], [], skew_start) draws"
    using opts(1) by (simp add: random_cmds_def p_def)
  have made: "lucky (\<lambda>cs. sensible (0 < rfail) nl {} cs \<and> int (length cs) = num_cmds) (gen_cmds p num_cmds ([], [], skew_start) draws)"
    using gen_cmds_ok[of p num_cmds "([], [], skew_start)" draws] init(5) opts(3) n draws by (simp add: p_def workload_ok_def gen_inv_def)
  show ?thesis
  proof (cases "gen_cmds p num_cmds ([], [], skew_start) draws")
    case (Inl e)
    then show ?thesis using made g by simp
  next
    case (Inr cs)
    then have cs: "sensible (0 < rfail) nl {} cs" "int (length cs) = num_cmds" using made by simp_all
    have "\<exists>t. direct_store.loop s cs = Inr (replies Map.empty cs, t)"
      using k flat i(3,5) cs(1) direct_sure.loop_sure[of s nl "0 < rfail" cs] ideal_sure.loop_sure[of s nl "0 < rfail" cs] by auto
    moreover have "\<forall>c \<in> set cs. cmd_ok c" using sensible_cmd_ok[OF cs(1)] by blast
    moreover have "list_all2 served cs (replies Map.empty cs)" if "rfail \<le> 0" using replies_served[of nl Map.empty cs] cs(1) that by simp
    ultimately show ?thesis using Inr g opts(2) i(3) cs(2) by (auto simp: ssd_main_def cmd_loop_eq)
  qed
qed

text \<open>Two writes and a read, and with wild reads a read of an empty page.\<close>

theorem random_workload_served_witness:
  "\<exists>s t u. ssd_init ''direct'' 4 2 2 10 2 1 2 1 = Inr s \<and> ssd_main s [] 3 ''40/50/10'' 0 [] 0 [2 ^ 52, 0, 0, 2 ^ 52, 2 ^ 52, 2 ^ 52, 0, 0, 0] = Inr ([''success'', ''success'', ''0''], t)
     \<and> ssd_main s [] 1 ''40/50/10'' 100 [] 0 [0, 0, 0] = Inr ([''fail: uninitialized read''], u)"
proof -
  obtain s where s: "ssd_init ''direct'' 4 2 2 10 2 1 2 1 = Inr s" by (simp add: ssd_init_def kind_of_def)
  have r: "read_percentages ''40/50/10'' = Inr (40, 50)" "read_skew [] = Inr None"
    "random_cmds 3 ''40/50/10'' 0 4 None 0 [2 ^ 52, 0, 0, 2 ^ 52, 2 ^ 52, 2 ^ 52, 0, 0, 0] = Inr [Wr 0 ''0'', Wr 2 ''v'', Rd 0]"
    "random_cmds 1 ''40/50/10'' 100 4 None 0 [0, 0, 0] = Inr [Rd 0]" by code_simp+
  note t = random_workload_served[OF s _ _ _ _ _ _ r(1,2)]
  have "\<exists>t. ssd_main s [] 3 ''40/50/10'' 0 [] 0 [2 ^ 52, 0, 0, 2 ^ 52, 2 ^ 52, 2 ^ 52, 0, 0, 0] = Inr ([''success'', ''success'', ''0''], t)"
    using t[of 3 "[2 ^ 52, 0, 0, 2 ^ 52, 2 ^ 52, 2 ^ 52, 0, 0, 0]" 0 0] r(3) by auto
  moreover have "\<exists>u. ssd_main s [] 1 ''40/50/10'' 100 [] 0 [0, 0, 0] = Inr ([''fail: uninitialized read''], u)"
    using t[of 1 "[0, 0, 0]" 100 0] r(4) by auto
  ultimately show ?thesis using s by blast
qed

end
