(* ===== verification/Afs.thy ===== *)
theory Afs
  imports Machines Complex_Main
begin

text \<open>
  The Andrew File System simulator of \<^verbatim>\<open>ostep/homework/dist-afs/afs.py\<close>: a server with call-backs, clients with whole-file caches and
  file descriptors, client programs of opens, reads, writes and closes (given or drawn), and the loop that runs the clients in a given or random order. The lemmas
  show that caching is invisible: clients see session semantics.
\<close>

section \<open>Model\<close>

datatype micro = MICRO_OPEN string int | MICRO_READ int | MICRO_WRITE int | MICRO_CLOSE int

record centry =
  data :: int
  dirty :: bool
  refcnt :: int
  valid :: bool

text \<open>The table of file descriptors has \<open>fd_max\<close> entries, empty strings at first; another index is no key of the dictionary.\<close>

definition fd_max :: int where "fd_max = 1024"

type_synonym fdtab = "int \<Rightarrow> string"

record client =
  cache :: "string \<rightharpoonup> centry"
  hitcnt :: int
  misscnt :: int
  invalidcnt :: int
  fd :: fdtab
  readcnt :: int
  writecnt :: int
  cdone :: bool
  acnt :: nat
  acts :: "micro list"

text \<open>What a step prints with \<^verbatim>\<open>-c\<close>: the value read, or the values overwritten and written.\<close>

datatype event = ReadEv nat int int | WriteEv nat int int int

text \<open>The server, the counter of file values, and the clients; \<open>callbacks\<close> is the server's list of files per client.\<close>

record afs =
  filevalue :: int
  contents :: "string \<rightharpoonup> int"
  getcnt :: int
  putcnt :: int
  callbacks :: "string list list"
  clients :: "client list"
  events :: "event list"

definition zassert :: "bool \<Rightarrow> 'a res \<Rightarrow> 'a res" where
  "zassert c m = (if c then m else Inl SysExit)"

definition filelist :: "int \<Rightarrow> string list" where
  "filelist numfiles = map (\<lambda>c. [c]) (take (nat numfiles) ''abcdefghijklmnopqrstuvwxyz'')"

definition server_init :: "string list \<Rightarrow> client list \<Rightarrow> afs" where
  "server_init fs cs =
     \<lparr>filevalue = int (length fs), contents = map_of (zip fs [0..int (length fs) - 1]), getcnt = 0, putcnt = 0,
      callbacks = replicate (length cs) [], clients = cs, events = []\<rparr>"

subsection \<open>File descriptors\<close>

definition fd_get :: "fdtab \<Rightarrow> int \<Rightarrow> string res" where
  "fd_get t i = (if 0 \<le> i \<and> i < fd_max then Inr (t i) else Inl KeyError)"

definition fd_alloc_at :: "fdtab \<Rightarrow> string \<Rightarrow> int \<Rightarrow> fdtab res" where
  "fd_alloc_at t fname sfd = bnd (fd_get t sfd) (\<lambda>x. zassert (x = []) (Inr (t(sfd := fname))))"

definition fd_alloc :: "fdtab \<Rightarrow> string \<Rightarrow> int \<times> fdtab" where
  "fd_alloc t fname = (case find (\<lambda>i. t i = []) [0..fd_max - 1] of None \<Rightarrow> (-1, t) | Some i \<Rightarrow> (i, t(i := fname)))"

text \<open>The range check looks at the global variable \<^verbatim>\<open>i\<close>, not at the descriptor.\<close>

definition fd_lookup :: "int \<Rightarrow> fdtab \<Rightarrow> int \<Rightarrow> string res" where
  "fd_lookup i t sfd = zassert (0 \<le> i \<and> i < fd_max) (bnd (fd_get t sfd) (\<lambda>x. zassert (x \<noteq> []) (Inr x)))"

text \<open>\<^verbatim>\<open>free\<close>, which nobody calls, names an undefined variable in the messages it builds first.\<close>

definition fd_free :: "fdtab \<Rightarrow> int \<Rightarrow> fdtab res" where
  "fd_free t i = Inl NameError"

subsection \<open>The cache of a client\<close>

definition cache_put :: "string \<Rightarrow> int \<Rightarrow> bool \<Rightarrow> int \<Rightarrow> client \<Rightarrow> client" where
  "cache_put f v d r c = c\<lparr>cache := (cache c)(f \<mapsto> \<lparr>data = v, dirty = d, refcnt = r, valid = True\<rparr>)\<rparr>"

definition cache_invalidate :: "string \<Rightarrow> client \<Rightarrow> client" where
  "cache_invalidate f c =
     (case cache c f of None \<Rightarrow> c | Some e \<Rightarrow> c\<lparr>invalidcnt := invalidcnt c + 1, cache := (cache c)(f \<mapsto> e\<lparr>valid := False\<rparr>)\<rparr>)"

text \<open>\<^verbatim>\<open>get\<close>, \<^verbatim>\<open>isdirty\<close>, and the updates of an entry, which assert that it is there.\<close>

definition cache_get :: "client \<Rightarrow> string \<Rightarrow> centry res" where
  "cache_get c f = (case cache c f of None \<Rightarrow> Inl AssertionError | Some e \<Rightarrow> Inr e)"

definition cache_change :: "(centry \<Rightarrow> centry) \<Rightarrow> string \<Rightarrow> client \<Rightarrow> client res" where
  "cache_change g f c = bnd (cache_get c f) (\<lambda>e. Inr (c\<lparr>cache := (cache c)(f \<mapsto> g e)\<rparr>))"

definition incref :: "string \<Rightarrow> client \<Rightarrow> client res" where "incref = cache_change (\<lambda>e. e\<lparr>refcnt := refcnt e + 1\<rparr>)"

definition decref :: "string \<Rightarrow> client \<Rightarrow> client res" where "decref = cache_change (\<lambda>e. e\<lparr>refcnt := refcnt e - 1\<rparr>)"

definition setdirty :: "string \<Rightarrow> bool \<Rightarrow> client \<Rightarrow> client res" where "setdirty f d = cache_change (\<lambda>e. e\<lparr>dirty := d\<rparr>) f"

definition setclean :: "string \<Rightarrow> client \<Rightarrow> client res" where "setclean = cache_change (\<lambda>e. e\<lparr>dirty := False\<rparr>)"

definition setvalid :: "string \<Rightarrow> client \<Rightarrow> client res" where "setvalid = cache_change (\<lambda>e. e\<lparr>valid := True\<rparr>)"

definition update_entry :: "string \<Rightarrow> int \<Rightarrow> client \<Rightarrow> client res" where
  "update_entry f v c = bnd (dict_get (cache c) f) (\<lambda>e. Inr (c\<lparr>cache := (cache c)(f \<mapsto> e\<lparr>data := v, dirty := True\<rparr>)\<rparr>))"

definition checkvalid :: "string \<Rightarrow> client \<Rightarrow> client res" where
  "checkvalid f c =
     (case cache c f of
        None \<Rightarrow> Inl SysExit
      | Some e \<Rightarrow> Inr (if \<not> valid e \<and> refcnt e = 0 then c\<lparr>cache := (cache c)(f := None)\<rparr> else c))"

definition checkget :: "string \<Rightarrow> client \<Rightarrow> centry option \<times> client" where
  "checkget f c = (case cache c f of Some e \<Rightarrow> (Some e, c\<lparr>hitcnt := hitcnt c + 1\<rparr>) | None \<Rightarrow> (None, c\<lparr>misscnt := misscnt c + 1\<rparr>))"

subsection \<open>Server and clients\<close>

definition on_client :: "(client \<Rightarrow> client res) \<Rightarrow> nat \<Rightarrow> afs \<Rightarrow> afs res" where
  "on_client g c s = bnd (key_get (clients s) c) (\<lambda>x. bnd (g x) (\<lambda>x. Inr (s\<lparr>clients := (clients s)[c := x]\<rparr>)))"

definition server_get :: "nat \<Rightarrow> string \<Rightarrow> afs \<Rightarrow> (int \<times> afs) res" where
  "server_get c f s =
     (case contents s f of
        None \<Rightarrow> Inl SysExit
      | Some v \<Rightarrow> bnd (key_get (callbacks s) c) (\<lambda>fs.
          Inr (v, s\<lparr>getcnt := getcnt s + 1, callbacks := (callbacks s)[c := (if f \<in> set fs then fs else fs @ [f])]\<rparr>)))"

definition server_put :: "nat \<Rightarrow> string \<Rightarrow> int \<Rightarrow> afs \<Rightarrow> afs res" where
  "server_put c f v s =
     zassert (contents s f \<noteq> None)
      (Inr (s\<lparr>putcnt := putcnt s + 1, contents := (contents s)(f \<mapsto> v),
              clients := map (\<lambda>i. if f \<in> set (callbacks s ! i) \<and> i \<noteq> c then cache_invalidate f (clients s ! i) else clients s ! i) [0..<length (clients s)]\<rparr>))"

definition getfile :: "nat \<Rightarrow> string \<Rightarrow> afs \<Rightarrow> afs res" where
  "getfile c f s =
     bnd (key_get (clients s) c) (\<lambda>x.
       let (item, x) = checkget f x; s = s\<lparr>clients := (clients s)[c := x]\<rparr>
       in bnd (if (case item of Some e \<Rightarrow> valid e | None \<Rightarrow> False) then Inr s
               else bnd (server_get c f s) (\<lambda>(v, s). on_client (\<lambda>x. Inr (cache_put f v False 0 x)) c s)) (on_client (incref f) c))"

definition putfile :: "nat \<Rightarrow> string \<Rightarrow> int \<Rightarrow> afs \<Rightarrow> afs res" where
  "putfile c f v s = bnd (server_put c f v s) (\<lambda>s. bnd (on_client (setclean f) c s) (on_client (setvalid f) c))"

definition do_micro :: "int \<Rightarrow> nat \<Rightarrow> client \<Rightarrow> micro \<Rightarrow> afs \<Rightarrow> afs res" where
  "do_micro i c x a s =
     (case a of
        MICRO_OPEN f n \<Rightarrow> getfile c f s
      | MICRO_READ n \<Rightarrow> bnd (fd_lookup i (fd x) n) (\<lambda>f. bnd (cache_get x f) (\<lambda>e.
          bnd (on_client (\<lambda>x. Inr (x\<lparr>readcnt := readcnt x + 1\<rparr>)) c s) (\<lambda>s. Inr (s\<lparr>events := events s @ [ReadEv c n (data e)]\<rparr>))))
      | MICRO_WRITE n \<Rightarrow> bnd (fd_lookup i (fd x) n) (\<lambda>f. bnd (cache_get x f) (\<lambda>e.
          let v = filevalue s
          in bnd (on_client (\<lambda>x. bnd (update_entry f v x) (\<lambda>x. Inr (x\<lparr>writecnt := writecnt x + 1\<rparr>))) c (s\<lparr>filevalue := v + 1\<rparr>)) (\<lambda>s.
             Inr (s\<lparr>events := events s @ [WriteEv c n (data e) v]\<rparr>))))
      | MICRO_CLOSE n \<Rightarrow> bnd (fd_lookup i (fd x) n) (\<lambda>f. bnd (cache_get x f) (\<lambda>e.
          bnd (if dirty e then putfile c f (data e) s else Inr s) (\<lambda>s.
          bnd (on_client (decref f) c s) (on_client (checkvalid f) c)))))"

text \<open>A step of a client; the result is the return code \<^verbatim>\<open>-1\<close>, \<^verbatim>\<open>0\<close> or \<^verbatim>\<open>1\<close>.\<close>

definition client_step :: "int \<Rightarrow> nat \<Rightarrow> afs \<Rightarrow> (int \<times> afs) res" where
  "client_step i c s =
     bnd (key_get (clients s) c) (\<lambda>x.
       if cdone x then Inr (-1, s)
       else if acnt x = length (acts x) then Inr (0, s\<lparr>clients := (clients s)[c := x\<lparr>cdone := True\<rparr>]\<rparr>)
       else bnd (do_micro i c x (acts x ! acnt x) s) (\<lambda>s.
            bnd (on_client (\<lambda>x. Inr (x\<lparr>acnt := acnt x + 1\<rparr>)) c s) (\<lambda>s. Inr (1, s))))"

subsection \<open>Client programs\<close>

definition new_client :: "fdtab \<Rightarrow> micro list \<Rightarrow> client" where
  "new_client t as = \<lparr>cache = Map.empty, hitcnt = 0, misscnt = 0, invalidcnt = 0, fd = t, readcnt = 0, writecnt = 0, cdone = False, acnt = 0, acts = as\<rparr>"

definition pickrand :: "int \<Rightarrow> 'a list \<Rightarrow> 'a res" where
  "pickrand k L = list_get L (scaled k (int (length L)))"

fun random_client :: "string list \<Rightarrow> rat \<Rightarrow> nat \<Rightarrow> fdtab \<Rightarrow> int list \<Rightarrow> (fdtab \<times> micro list \<times> int list) res" where
  "random_client fs readratio 0 t draws = Inr (t, [], draws)"
| "random_client fs readratio (Suc n) t draws =
     (case draws of
        k # r # draws' \<Rightarrow>
          bnd (pickrand k fs) (\<lambda>f. case fd_alloc t f of (n1, t1) \<Rightarrow>
            zassert (n1 \<ge> 0) (bnd (random_client fs readratio n t1 draws') (\<lambda>(t', as, ds).
              Inr (t', [MICRO_OPEN f n1, (if of_int r < readratio * 2 ^ 53 then MICRO_READ n1 else MICRO_WRITE n1), MICRO_CLOSE n1] @ as, ds))))
      | _ \<Rightarrow> Inl NoReturn)"

definition parse_action :: "fdtab \<times> micro list \<Rightarrow> string \<Rightarrow> (fdtab \<times> micro list) res" where
  "parse_action = (\<lambda>(t, as) a.
     case a of
       [] \<Rightarrow> Inl IndexError
     | act # rest \<Rightarrow>
         if act = CHR ''o''
         then zassert (length a = 3) (bnd (int_of_string [a ! 2]) (\<lambda>n. bnd (fd_alloc_at t [a ! 1] n) (\<lambda>t. asserting (n \<ge> 0) (Inr (t, as @ [MICRO_OPEN [a ! 1] n])))))
         else if act = CHR ''r'' then zassert (length a = 2) (bnd (int_of_string [a ! 1]) (\<lambda>n. Inr (t, as @ [MICRO_READ n])))
         else if act = CHR ''w'' then zassert (length a = 2) (bnd (int_of_string [a ! 1]) (\<lambda>n. Inr (t, as @ [MICRO_WRITE n])))
         else if act = CHR ''c'' then zassert (length a = 2) (bnd (int_of_string [a ! 1]) (\<lambda>n. Inr (t, as @ [MICRO_CLOSE n])))
         else Inl SysExit)"

text \<open>An empty list of actions takes the branch of the random programs, with no steps.\<close>

definition given_client :: "string \<Rightarrow> client res" where
  "given_client actions =
     (if actions = [] then Inr (new_client (\<lambda>_. []) [])
      else bnd (foldres parse_action (\<lambda>_. [], []) (split_on CHR '':'' actions)) (\<lambda>(t, as). Inr (new_client t as)))"

fun random_clients :: "string list \<Rightarrow> rat \<Rightarrow> nat \<Rightarrow> nat \<Rightarrow> int list \<Rightarrow> (client list \<times> int list) res" where
  "random_clients fs readratio numsteps 0 draws = Inr ([], draws)"
| "random_clients fs readratio numsteps (Suc n) draws =
     bnd (random_client fs readratio numsteps (\<lambda>_. []) draws) (\<lambda>(t, as, draws).
     bnd (random_clients fs readratio numsteps n draws) (\<lambda>(cs, draws). Inr (new_client t as # cs, draws)))"

fun given_clients :: "string list \<Rightarrow> client list res" where
  "given_clients [] = Inr []"
| "given_clients (x # xs) = bnd (given_client x) (\<lambda>c. bnd (given_clients xs) (\<lambda>cs. Inr (c # cs)))"

subsection \<open>The main loop\<close>

text \<open>Every client has to occur in the schedule.\<close>

fun read_schedule :: "string \<Rightarrow> int list res" where
  "read_schedule [] = Inr []"
| "read_schedule (x # xs) = bnd (int_of_string [x]) (\<lambda>v. bnd (read_schedule xs) (\<lambda>vs. Inr (v # vs)))"

definition check_schedule :: "nat \<Rightarrow> int list \<Rightarrow> 'a res \<Rightarrow> 'a res" where
  "check_schedule n sch m = zassert (\<forall>i \<in> set [0..<n]. int i \<in> set sch) m"

text \<open>The state of the loop: the system, the position in the schedule, and how many clients still run. \<open>pick\<close> gives the client of a round.\<close>

definition afs_round :: "int \<Rightarrow> int list \<Rightarrow> afs \<times> nat \<times> int \<Rightarrow> (afs \<times> nat \<times> int) res" where
  "afs_round i sch = (\<lambda>(s, schedcurr, numrunning).
     bnd (key_get sch schedcurr) (\<lambda>idx.
     bnd (list_get [0..<length (clients s)] idx) (\<lambda>c.
     bnd (client_step i c s) (\<lambda>(rc, s).
       Inr (s, (if schedcurr + 1 = length sch then 0 else schedcurr + 1), (if rc = 0 then numrunning - 1 else numrunning))))))"

definition run_schedule :: "nat \<Rightarrow> int \<Rightarrow> int list \<Rightarrow> afs \<Rightarrow> afs res" where
  "run_schedule fuel i sch s =
     bnd (while_res (\<lambda>(s, schedcurr, numrunning). numrunning > 0) (afs_round i sch) fuel (s, 0, int (length (clients s)))) (\<lambda>(s, _). Inr s)"

fun run_random :: "int \<Rightarrow> int list \<Rightarrow> afs \<Rightarrow> int \<Rightarrow> afs res" where
  "run_random i draws s numrunning =
     (if numrunning \<le> 0 then Inr s
      else case draws of
             [] \<Rightarrow> Inl NoReturn
           | k # draws' \<Rightarrow> bnd (pickrand k [0..<length (clients s)]) (\<lambda>c. bnd (client_step i c s) (\<lambda>(rc, s).
               run_random i draws' s (if rc = 0 then numrunning - 1 else numrunning))))"

declare run_random.simps [simp del]

text \<open>The global variable \<^verbatim>\<open>i\<close> when the loop runs: the last client, or the number of clients when the actions were given and the order is random.\<close>

definition afs_main :: "nat \<Rightarrow> int \<Rightarrow> int \<Rightarrow> int \<Rightarrow> rat \<Rightarrow> string \<Rightarrow> string \<Rightarrow> int list \<Rightarrow> afs res" where
  "afs_main fuel numclients numsteps numfiles readratio actions schedule draws =
     zassert (0 < numfiles \<and> numfiles \<le> 26) (zassert (0 \<le> readratio \<and> readratio \<le> 1)
     (let fs = filelist numfiles
      in bnd (if actions \<noteq> [] then bnd (given_clients (split_on CHR '','' actions)) (\<lambda>cs. Inr (cs, draws))
              else random_clients fs readratio (nat numsteps) (nat numclients) draws) (\<lambda>(cs, draws).
         let s = server_init fs cs; n = int (length cs)
         in if schedule \<noteq> []
            then if cs = [] then Inr s
                 else bnd (read_schedule schedule) (\<lambda>sch. check_schedule (length cs) sch (run_schedule fuel (n - 1) sch s))
            else run_random (if actions \<noteq> [] then n else n - 1) draws s n)))"

section \<open>Session semantics\<close>

text \<open>
  What a user of the file system is promised. A client has open sessions, one per open file: the value seen in the session and whether it was
  written. Opening takes the current value of the file, reading gives the value of the session, writing a new value into
  the session, and closing makes the value of a written session the value of the file. There are no caches, copies or call-backs.
\<close>

record sclient =
  table :: fdtab
  sess :: "string \<rightharpoonup> int \<times> bool"
  todo :: "micro list"
  sdone :: bool

record spec =
  acontents :: "string \<rightharpoonup> int"
  nextv :: int
  sclients :: "sclient list"
  sevents :: "event list"

definition spec_init :: "string list \<Rightarrow> client list \<Rightarrow> spec" where
  "spec_init fs cs =
     \<lparr>acontents = map_of (zip fs [0..int (length fs) - 1]), nextv = int (length fs),
      sclients = map (\<lambda>x. \<lparr>table = fd x, sess = Map.empty, todo = acts x, sdone = False\<rparr>) cs, sevents = []\<rparr>"

fun spec_micro :: "nat \<Rightarrow> sclient \<Rightarrow> micro \<Rightarrow> spec \<Rightarrow> spec \<times> sclient" where
  "spec_micro c y (MICRO_OPEN f n) a = (a, y\<lparr>sess := (sess y)(f \<mapsto> (the (acontents a f), False))\<rparr>)"
| "spec_micro c y (MICRO_READ n) a = (a\<lparr>sevents := sevents a @ [ReadEv c n (fst (the (sess y (table y n))))]\<rparr>, y)"
| "spec_micro c y (MICRO_WRITE n) a =
     (a\<lparr>nextv := nextv a + 1, sevents := sevents a @ [WriteEv c n (fst (the (sess y (table y n)))) (nextv a)]\<rparr>,
      y\<lparr>sess := (sess y)(table y n \<mapsto> (nextv a, True))\<rparr>)"
| "spec_micro c y (MICRO_CLOSE n) a =
     (let f = table y n; (v, d) = the (sess y f)
      in (if d then a\<lparr>acontents := (acontents a)(f \<mapsto> v)\<rparr> else a, y\<lparr>sess := (sess y)(f := None)\<rparr>))"

definition spec_step :: "spec \<Rightarrow> nat \<Rightarrow> spec" where
  "spec_step a c =
     (let y = sclients a ! c
      in if sdone y then a
         else case todo y of
           [] \<Rightarrow> a\<lparr>sclients := (sclients a)[c := y\<lparr>sdone := True\<rparr>]\<rparr>
         | m # ms \<Rightarrow> (case spec_micro c y m a of (a, y) \<Rightarrow> a\<lparr>sclients := (sclients a)[c := y\<lparr>todo := ms\<rparr>]\<rparr>))"

text \<open>The programs the promise is for: a file is not opened again while it is open, and reads, writes and closes use a descriptor of an open
  file. \<open>fs\<close> are the files of the server, \<open>op\<close> those that are open.\<close>

fun sessions_ok :: "fdtab \<Rightarrow> string set \<Rightarrow> string set \<Rightarrow> micro list \<Rightarrow> bool" where
  "sessions_ok t fs op [] = True"
| "sessions_ok t fs op (MICRO_OPEN f n # as) = (f \<in> fs \<and> f \<notin> op \<and> sessions_ok t fs (insert f op) as)"
| "sessions_ok t fs op (MICRO_READ n # as) = (0 \<le> n \<and> n < fd_max \<and> t n \<in> op \<and> sessions_ok t fs op as)"
| "sessions_ok t fs op (MICRO_WRITE n # as) = (0 \<le> n \<and> n < fd_max \<and> t n \<in> op \<and> sessions_ok t fs op as)"
| "sessions_ok t fs op (MICRO_CLOSE n # as) = (0 \<le> n \<and> n < fd_max \<and> t n \<in> op \<and> sessions_ok t fs (op - {t n}) as)"

text \<open>How the caches relate to the sessions.\<close>

definition entry_rel :: "int option \<Rightarrow> (int \<times> bool) option \<Rightarrow> centry option \<Rightarrow> bool" where
  "entry_rel v ss e =
     (case ss of
        Some (w, d) \<Rightarrow> (case e of None \<Rightarrow> False | Some x \<Rightarrow> refcnt x = 1 \<and> data x = w \<and> dirty x = d \<and> (valid x \<and> \<not> d \<longrightarrow> v = Some w))
      | None \<Rightarrow> (case e of None \<Rightarrow> True | Some x \<Rightarrow> refcnt x = 0 \<and> \<not> dirty x \<and> (valid x \<longrightarrow> v = Some (data x))))"

definition client_rel :: "(string \<rightharpoonup> int) \<Rightarrow> string list \<Rightarrow> client \<Rightarrow> sclient \<Rightarrow> bool" where
  "client_rel con cb x y \<longleftrightarrow>
     fd x = table y \<and> cdone x = sdone y \<and> acnt x \<le> length (acts x) \<and> todo y = drop (acnt x) (acts x)
     \<and> (\<forall>f. entry_rel (con f) (sess y f) (cache x f)) \<and> (\<forall>f. cache x f \<noteq> None \<longrightarrow> f \<in> set cb \<and> con f \<noteq> None)"

definition afs_rel :: "afs \<Rightarrow> spec \<Rightarrow> bool" where
  "afs_rel s a \<longleftrightarrow>
     contents s = acontents a \<and> filevalue s = nextv a \<and> events s = sevents a
     \<and> length (clients s) = length (sclients a) \<and> length (callbacks s) = length (clients s)
     \<and> (\<forall>c < length (clients s). client_rel (contents s) (callbacks s ! c) (clients s ! c) (sclients a ! c))"

definition spec_ok :: "string set \<Rightarrow> spec \<Rightarrow> bool" where
  "spec_ok fs a \<longleftrightarrow> dom (acontents a) = fs \<and> [] \<notin> fs \<and> (\<forall>y \<in> set (sclients a). dom (sess y) \<subseteq> fs \<and> sessions_ok (table y) fs (dom (sess y)) (todo y) \<and> (sdone y \<longrightarrow> todo y = []))"

lemma spec_okD:
  assumes "spec_ok fs a" "c < length (sclients a)"
  shows "dom (acontents a) = fs" "[] \<notin> fs" "dom (sess (sclients a ! c)) \<subseteq> fs" "sessions_ok (table (sclients a ! c)) fs (dom (sess (sclients a ! c))) (todo (sclients a ! c))"
    "sdone (sclients a ! c) \<Longrightarrow> todo (sclients a ! c) = []"
  using assms nth_mem[OF assms(2)] unfolding spec_ok_def by blast+

lemma spec_ok_update:
  assumes "spec_ok fs a" "dom (acontents a') = fs" "sclients a' = (sclients a)[c := y]" "dom (sess y) \<subseteq> fs" "sessions_ok (table y) fs (dom (sess y)) (todo y)"
    "sdone y \<Longrightarrow> todo y = []"
  shows "spec_ok fs a'"
  using assms set_update_subset_insert[of "sclients a" c y] unfolding spec_ok_def by (metis insertE subsetD)

section \<open>One action\<close>

lemma zassert_True [simp]: "zassert True m = m"
  by (simp add: zassert_def)

lemma on_client_in [simp]:
  "c < length (clients s) \<Longrightarrow> on_client g c s = bnd (g (clients s ! c)) (\<lambda>x. Inr (s\<lparr>clients := (clients s)[c := x]\<rparr>))"
  by (simp add: on_client_def)

lemma fd_lookup_open:
  assumes "0 \<le> i" "i < fd_max" "0 \<le> n" "n < fd_max" "t n \<noteq> []"
  shows "fd_lookup i t n = Inr (t n)"
  using assms by (simp add: fd_lookup_def fd_get_def)

lemma entry_rel_open: "entry_rel v (Some (w, d)) e \<Longrightarrow> \<exists>b. e = Some \<lparr>data = w, dirty = d, refcnt = 1, valid = b\<rparr> \<and> (b \<and> \<not> d \<longrightarrow> v = Some w)"
  by (cases e) (auto simp: entry_rel_def intro!: exI[of _ "valid (the e)"])

text \<open>Opening: the entry is fetched or was valid, and is counted.\<close>

lemma getfile_spec:
  assumes "c < length (clients s)" "length (callbacks s) = length (clients s)" and x: "x = clients s ! c"
    and e: "entry_rel (contents s f) None (cache x f)" and f: "contents s f = Some v"
    and cb: "cache x f \<noteq> None \<longrightarrow> f \<in> set (callbacks s ! c)"
  shows "\<exists>s' x' cb. getfile c f s = Inr s' \<and> clients s' = (clients s)[c := x'] \<and> contents s' = contents s \<and> filevalue s' = filevalue s \<and> events s' = events s
    \<and> callbacks s' = (callbacks s)[c := cb] \<and> set cb = insert f (set (callbacks s ! c))
    \<and> cache x' = (cache x)(f \<mapsto> \<lparr>data = v, dirty = False, refcnt = 1, valid = True\<rparr>)
    \<and> fd x' = fd x \<and> cdone x' = cdone x \<and> acnt x' = acnt x \<and> acts x' = acts x"
proof (cases "\<exists>e. cache x f = Some e \<and> valid e")
  case True
  then obtain e0 where e0: "cache x f = Some e0" "valid e0" by auto
  then have ent: "e0\<lparr>refcnt := refcnt e0 + 1\<rparr> = \<lparr>data = v, dirty = False, refcnt = 1, valid = True\<rparr>"
    using e f by (auto simp: entry_rel_def)
  define x' where "x' = x\<lparr>hitcnt := hitcnt x + 1, cache := (cache x)(f \<mapsto> \<lparr>data = v, dirty = False, refcnt = 1, valid = True\<rparr>)\<rparr>"
  have "getfile c f s = Inr (s\<lparr>clients := (clients s)[c := x']\<rparr>)"
    using assms(1) x e0 ent by (simp add: getfile_def checkget_def incref_def cache_change_def cache_get_def x'_def)
  moreover have "set (callbacks s ! c) = insert f (set (callbacks s ! c))" using cb e0 by auto
  ultimately show ?thesis
    by (intro exI[of _ "s\<lparr>clients := (clients s)[c := x']\<rparr>"] exI[of _ x'] exI[of _ "callbacks s ! c"]) (simp add: x'_def)
next
  case False
  define cb' where "cb' = (if f \<in> set (callbacks s ! c) then callbacks s ! c else callbacks s ! c @ [f])"
  define x' where "x' = snd (checkget f x)\<lparr>cache := (cache x)(f \<mapsto> \<lparr>data = v, dirty = False, refcnt = 1, valid = True\<rparr>)\<rparr>"
  have fst: "\<not> (case fst (checkget f x) of Some e \<Rightarrow> valid e | None \<Rightarrow> False)" and ca: "cache (snd (checkget f x)) = cache x"
    using False by (auto simp: checkget_def split: option.splits)
  have "getfile c f s = Inr (s\<lparr>clients := (clients s)[c := x'], getcnt := getcnt s + 1, callbacks := (callbacks s)[c := cb']\<rparr>)"
    using assms(1,2) x fst f ca
    by (auto simp: getfile_def split_beta Let_def server_get_def cache_put_def incref_def cache_change_def cache_get_def x'_def cb'_def)
  moreover have "fd x' = fd x" "cdone x' = cdone x" "acnt x' = acnt x" "acts x' = acts x"
    by (simp_all add: x'_def checkget_def split: option.splits)
  moreover have "set cb' = insert f (set (callbacks s ! c))" by (auto simp: cb'_def)
  ultimately show ?thesis
    by (intro exI[of _ "s\<lparr>clients := (clients s)[c := x'], getcnt := getcnt s + 1, callbacks := (callbacks s)[c := cb']\<rparr>"] exI[of _ x'] exI[of _ cb'])
      (simp add: x'_def)
qed

text \<open>Closing: a written entry goes to the server, which invalidates the other copies; an invalid entry is dropped.\<close>

definition invalidated :: "nat \<Rightarrow> string \<Rightarrow> afs \<Rightarrow> client list" where
  "invalidated c f s = map (\<lambda>i. if f \<in> set (callbacks s ! i) \<and> i \<noteq> c then cache_invalidate f (clients s ! i) else clients s ! i) [0..<length (clients s)]"

lemma length_invalidated [simp]: "length (invalidated c f s) = length (clients s)"
  by (simp add: invalidated_def)

lemma invalidated_self [simp]: "c < length (clients s) \<Longrightarrow> invalidated c f s ! c = clients s ! c"
  by (simp add: invalidated_def)

lemma close_spec:
  assumes "c < length (clients s)" and x: "x = clients s ! c" and e: "cache x f = Some \<lparr>data = v, dirty = d, refcnt = 1, valid = b\<rparr>"
    and f: "contents s f \<noteq> None" and lk: "fd_lookup i (fd x) n = Inr f"
  shows "do_micro i c x (MICRO_CLOSE n) s = Inr (s\<lparr>putcnt := putcnt s + (if d then 1 else 0), contents := (if d then (contents s)(f \<mapsto> v) else contents s),
      clients := (if d then invalidated c f s else clients s)
        [c := x\<lparr>cache := (cache x)(f := (if b \<or> d then Some \<lparr>data = v, dirty = False, refcnt = 0, valid = True\<rparr> else None))\<rparr>]\<rparr>)"
proof (cases d)
  case True
  then show ?thesis using assms
    by (simp add: do_micro_def cache_get_def putfile_def server_put_def invalidated_def[symmetric] setclean_def setvalid_def decref_def checkvalid_def cache_change_def)
next
  case False
  then show ?thesis using assms
    by (cases b) (simp_all add: do_micro_def cache_get_def decref_def checkvalid_def cache_change_def)
qed

lemma write_spec:
  assumes "c < length (clients s)" and x: "x = clients s ! c" and e: "cache x f = Some e" and lk: "fd_lookup i (fd x) n = Inr f"
  shows "do_micro i c x (MICRO_WRITE n) s = Inr (s\<lparr>filevalue := filevalue s + 1, events := events s @ [WriteEv c n (data e) (filevalue s)],
      clients := (clients s)[c := x\<lparr>cache := (cache x)(f \<mapsto> e\<lparr>data := filevalue s, dirty := True\<rparr>), writecnt := writecnt x + 1\<rparr>]\<rparr>)"
  using assms by (simp add: do_micro_def cache_get_def update_entry_def Let_def)

lemma read_spec:
  assumes "c < length (clients s)" and x: "x = clients s ! c" and e: "cache x f = Some e" and lk: "fd_lookup i (fd x) n = Inr f"
  shows "do_micro i c x (MICRO_READ n) s = Inr (s\<lparr>events := events s @ [ReadEv c n (data e)], clients := (clients s)[c := x\<lparr>readcnt := readcnt x + 1\<rparr>]\<rparr>)"
  using assms by (simp add: do_micro_def cache_get_def)

section \<open>One step\<close>

text \<open>A step that changes one client and leaves the values of the files.\<close>

lemma afs_rel_local:
  assumes R: "afs_rel s a" and c: "c < length (clients s)"
    and s': "contents s' = contents s" "clients s' = (clients s)[c := x']" "callbacks s' = (callbacks s)[c := cb]"
    and a': "acontents a' = acontents a" "sclients a' = (sclients a)[c := y']" "filevalue s' = nextv a'" "events s' = sevents a'"
    and new: "client_rel (contents s) cb x' y'"
  shows "afs_rel s' a'"
  using assms by (auto simp: afs_rel_def nth_list_update)

lemma entry_rel_invalid: "entry_rel v ss (Some e) \<Longrightarrow> entry_rel v' ss (Some (e\<lparr>valid := False\<rparr>))"
  by (auto simp: entry_rel_def split: option.splits)

lemma entry_rel_absent: "entry_rel v ss None \<Longrightarrow> entry_rel v' ss None"
  by (auto simp: entry_rel_def split: option.splits)

lemma client_rel_invalidate:
  assumes r: "client_rel con cb x y" and f: "con f \<noteq> None"
  shows "client_rel (con(f \<mapsto> v)) cb (if f \<in> set cb then cache_invalidate f x else x) y"
proof (cases "cache x f")
  case None
  then have "(if f \<in> set cb then cache_invalidate f x else x) = x" by (simp add: cache_invalidate_def)
  moreover have "entry_rel ((con(f \<mapsto> v)) g) (sess y g) (cache x g)" for g
  proof (cases "g = f")
    case True
    have "entry_rel (con f) (sess y f) None" using r None by (metis client_rel_def)
    with True None show ?thesis by (simp add: entry_rel_absent[of "con f"])
  qed (use r in \<open>simp add: client_rel_def\<close>)
  ultimately show ?thesis using r by (simp add: client_rel_def)
next
  case (Some e)
  then have x': "(if f \<in> set cb then cache_invalidate f x else x) = x\<lparr>invalidcnt := invalidcnt x + 1, cache := (cache x)(f \<mapsto> e\<lparr>valid := False\<rparr>)\<rparr>"
    using r by (auto simp: client_rel_def cache_invalidate_def)
  have "entry_rel (if g = f then Some v else con g) (sess y g) (((cache x)(f \<mapsto> e\<lparr>valid := False\<rparr>)) g)" for g
  proof (cases "g = f")
    case True
    have "entry_rel (con f) (sess y f) (Some e)" using r Some by (metis client_rel_def)
    with True show ?thesis by (simp add: entry_rel_invalid)
  qed (use r in \<open>simp add: client_rel_def\<close>)
  then show ?thesis using r Some f unfolding x' by (auto simp: client_rel_def)
qed

text \<open>The client moves on to its next action.\<close>

lemma client_rel_next:
  assumes r: "client_rel con cb x y" and m: "todo y = m # ms" and t: "table y' = table y" "sdone y' = sdone y" "todo y' = ms"
    and x': "fd x' = fd x" "cdone x' = cdone x" "acnt x' = acnt x + 1" "acts x' = acts x" and cb: "set cb \<subseteq> set cb'"
    and other: "\<And>g. g \<noteq> f \<Longrightarrow> cache x' g = cache x g \<and> sess y' g = sess y g \<and> con' g = con g"
    and here: "entry_rel (con' f) (sess y' f) (cache x' f)" "cache x' f \<noteq> None \<Longrightarrow> f \<in> set cb' \<and> con' f \<noteq> None"
  shows "client_rel con' cb' x' y'"
proof -
  have d: "drop (acnt x) (acts x) = m # ms" using r m by (simp add: client_rel_def)
  then have lt: "acnt x < length (acts x)" by (metis drop_all list.distinct(1) not_le)
  have "drop (Suc (acnt x)) (acts x) = ms" using d Cons_nth_drop_Suc[OF lt] by simp
  moreover have "entry_rel (con' g) (sess y' g) (cache x' g)" for g
    using other[of g] here(1) r by (cases "g = f") (simp_all add: client_rel_def)
  moreover have "g \<in> set cb' \<and> con' g \<noteq> None" if "cache x' g \<noteq> None" for g
    using that other[of g] here(2) r cb unfolding client_rel_def by (cases "g = f") (auto simp del: not_None_eq)
  ultimately show ?thesis using r t x' lt by (simp add: client_rel_def)
qed

lemma close_sim:
  assumes R: "afs_rel s a" and c: "c < length (clients s)" and x: "x = clients s ! c" and y: "y = sclients a ! c" and m: "todo y = m # ms"
    and a1: "spec_micro c y (MICRO_CLOSE n) a = (a1, y1)" and mc: "m = MICRO_CLOSE n"
    and l: "sess y (table y n) = Some (v, d)" "cache x (table y n) = Some \<lparr>data = v, dirty = d, refcnt = 1, valid = b\<rparr>"
      "fd_lookup i (fd x) n = Inr (table y n)" "table y n \<in> set (callbacks s ! c)" "contents s (table y n) \<noteq> None" "b \<and> \<not> d \<longrightarrow> contents s (table y n) = Some v"
  shows "\<exists>s'. bnd (do_micro i c x m s) (on_client (\<lambda>x. Inr (x\<lparr>acnt := acnt x + 1\<rparr>)) c) = Inr s'
    \<and> afs_rel s' (a1\<lparr>sclients := (sclients a1)[c := y1\<lparr>todo := ms\<rparr>]\<rparr>)"
proof -
  define f where "f = table y n"
  define con where "con = (if d then (contents s)(f \<mapsto> v) else contents s)"
  define x1 where "x1 = x\<lparr>cache := (cache x)(f := (if b \<or> d then Some \<lparr>data = v, dirty = False, refcnt = 0, valid = True\<rparr> else None)), acnt := acnt x + 1\<rparr>"
  define s1 where "s1 = s\<lparr>putcnt := putcnt s + (if d then 1 else 0), contents := con, clients := (if d then invalidated c f s else clients s)[c := x1]\<rparr>"
  have r: "\<And>k. k < length (clients s) \<Longrightarrow> client_rel (contents s) (callbacks s ! k) (clients s ! k) (sclients a ! k)"
    and len: "length (clients s) = length (sclients a)" "length (callbacks s) = length (clients s)"
    and co: "contents s = acontents a" "filevalue s = nextv a" "events s = sevents a"
    using R by (auto simp: afs_rel_def)
  have a1': "a1 = (if d then a\<lparr>acontents := (acontents a)(f \<mapsto> v)\<rparr> else a)" "y1 = y\<lparr>sess := (sess y)(f := None)\<rparr>"
    using a1 l(1) by (auto simp: f_def Let_def)
  have "client_rel con (callbacks s ! c) x1 (y1\<lparr>todo := ms\<rparr>)"
    by (rule client_rel_next[OF r[OF c] m[unfolded y], where f = f])
      (use a1' l x y in \<open>auto simp: x1_def con_def f_def entry_rel_def split: if_splits\<close>)
  moreover have "client_rel con (callbacks s ! k) ((if d then invalidated c f s else clients s) ! k) (sclients a ! k)" if k: "k < length (clients s)" "k \<noteq> c" for k
    using client_rel_invalidate[OF r[OF k(1)] l(5), of v] r[OF k(1)] k by (auto simp: con_def invalidated_def f_def)
  ultimately have "client_rel con (callbacks s ! k) (clients s1 ! k) ((sclients a)[c := y1\<lparr>todo := ms\<rparr>] ! k)" if "k < length (clients s)" for k
    using that len by (cases "k = c") (simp_all add: s1_def)
  then have "afs_rel s1 (a1\<lparr>sclients := (sclients a1)[c := y1\<lparr>todo := ms\<rparr>]\<rparr>)"
    using len co a1'(1) unfolding afs_rel_def s1_def con_def by (cases d) simp_all
  moreover have "bnd (do_micro i c x m s) (on_client (\<lambda>x. Inr (x\<lparr>acnt := acnt x + 1\<rparr>)) c) = Inr s1"
    using close_spec[OF c x l(2,5,3)] c mc by (simp add: s1_def x1_def con_def f_def)
  ultimately show ?thesis by blast
qed

text \<open>The next action of a client, on both levels.\<close>

lemma micro_sim:
  assumes R: "afs_rel s a" and ok: "spec_ok fs a" and i: "0 \<le> i" "i < fd_max" and c: "c < length (clients s)"
    and x: "x = clients s ! c" and y: "y = sclients a ! c" and m: "todo y = m # ms" and a1: "spec_micro c y m a = (a1, y1)"
  shows "\<exists>s'. bnd (do_micro i c x m s) (on_client (\<lambda>x. Inr (x\<lparr>acnt := acnt x + 1\<rparr>)) c) = Inr s'
    \<and> afs_rel s' (a1\<lparr>sclients := (sclients a1)[c := y1\<lparr>todo := ms\<rparr>]\<rparr>)"
proof -
  have r: "client_rel (contents s) (callbacks s ! c) x y" and co: "contents s = acontents a" and fv: "filevalue s = nextv a" and ev: "events s = sevents a"
    and len: "length (clients s) = length (sclients a)" "length (callbacks s) = length (clients s)"
    using R c x y by (auto simp: afs_rel_def)
  have sk: "sessions_ok (table y) fs (dom (sess y)) (m # ms)" and dm: "dom (contents s) = fs" "[] \<notin> fs" "dom (sess y) \<subseteq> fs"
    using spec_okD[OF ok, of c] c len m y co by auto
  have fdx: "fd x = table y" and er: "\<And>g. entry_rel (contents s g) (sess y g) (cache x g)" using r by (simp_all add: client_rel_def)
  have looked: "\<exists>v d b. sess y (table y n) = Some (v, d) \<and> cache x (table y n) = Some \<lparr>data = v, dirty = d, refcnt = 1, valid = b\<rparr> \<and> (b \<and> \<not> d \<longrightarrow> contents s (table y n) = Some v)
      \<and> fd_lookup i (fd x) n = Inr (table y n) \<and> contents s (table y n) \<noteq> None \<and> table y n \<in> set (callbacks s ! c)"
    if n: "0 \<le> n" "n < fd_max" "table y n \<in> dom (sess y)" for n
  proof -
    obtain v d where vd: "sess y (table y n) = Some (v, d)" using n(3) by auto
    then obtain b where "cache x (table y n) = Some \<lparr>data = v, dirty = d, refcnt = 1, valid = b\<rparr>" "b \<and> \<not> d \<longrightarrow> contents s (table y n) = Some v"
      using er[of "table y n"] entry_rel_open by metis
    moreover have "table y n \<in> fs" using n(3) dm(3) by blast
    then have "contents s (table y n) \<noteq> None" "table y n \<noteq> []" using dm(1,2) by auto
    moreover have "table y n \<in> set (callbacks s ! c)" using r calculation(1) unfolding client_rel_def by (metis option.distinct(1))
    ultimately show ?thesis using vd fd_lookup_open[OF i n(1,2), of "fd x"] fdx by auto
  qed
  show ?thesis
  proof (cases m)
    case (MICRO_OPEN f n)
    then have f: "f \<in> fs" "sess y f = None" using sk sessions_ok.simps(2) domIff by metis+
    then obtain v where v: "contents s f = Some v" using dm(1) by blast
    have e: "entry_rel (contents s f) None (cache x f)" "cache x f \<noteq> None \<longrightarrow> f \<in> set (callbacks s ! c)"
      using er[of f] f(2) r unfolding client_rel_def by auto
    obtain s1 x1 cb where s1: "getfile c f s = Inr s1" "clients s1 = (clients s)[c := x1]" "contents s1 = contents s" "filevalue s1 = filevalue s" "events s1 = events s"
      "callbacks s1 = (callbacks s)[c := cb]" "set cb = insert f (set (callbacks s ! c))"
      "cache x1 = (cache x)(f \<mapsto> \<lparr>data = v, dirty = False, refcnt = 1, valid = True\<rparr>)" "fd x1 = fd x" "cdone x1 = cdone x" "acnt x1 = acnt x" "acts x1 = acts x"
      using getfile_spec[OF c len(2) x e(1) v e(2)] by blast
    have a1': "a1 = a" "y1 = y\<lparr>sess := (sess y)(f \<mapsto> (v, False))\<rparr>" using a1 MICRO_OPEN v co by auto
    have "client_rel (contents s) cb (x1\<lparr>acnt := acnt x1 + 1\<rparr>) (y1\<lparr>todo := ms\<rparr>)"
      by (rule client_rel_next[OF r m, where f = f]) (use s1 a1' v in \<open>auto simp: entry_rel_def\<close>)
    then have "afs_rel (s1\<lparr>clients := (clients s)[c := x1\<lparr>acnt := acnt x1 + 1\<rparr>]\<rparr>) (a1\<lparr>sclients := (sclients a1)[c := y1\<lparr>todo := ms\<rparr>]\<rparr>)"
      by (intro afs_rel_local[OF R c]) (use s1 a1' fv ev in auto)
    moreover have "bnd (do_micro i c x m s) (on_client (\<lambda>x. Inr (x\<lparr>acnt := acnt x + 1\<rparr>)) c) = Inr (s1\<lparr>clients := (clients s)[c := x1\<lparr>acnt := acnt x1 + 1\<rparr>]\<rparr>)"
      using s1(1,2) c MICRO_OPEN by (simp add: do_micro_def)
    ultimately show ?thesis by blast
  next
    case (MICRO_READ n)
    with sk looked[of n] obtain v d b where l: "sess y (table y n) = Some (v, d)" "cache x (table y n) = Some \<lparr>data = v, dirty = d, refcnt = 1, valid = b\<rparr>"
      "fd_lookup i (fd x) n = Inr (table y n)" "table y n \<in> set (callbacks s ! c)" "contents s (table y n) \<noteq> None" by auto
    define x1 where "x1 = x\<lparr>readcnt := readcnt x + 1, acnt := acnt x + 1\<rparr>"
    have a1': "a1 = a\<lparr>sevents := sevents a @ [ReadEv c n v]\<rparr>" "y1 = y" using a1 MICRO_READ l by auto
    have "client_rel (contents s) (callbacks s ! c) x1 (y1\<lparr>todo := ms\<rparr>)"
      by (rule client_rel_next[OF r m, where f = "table y n"]) (use er[of "table y n"] a1' l in \<open>simp_all add: x1_def\<close>)
    then have "afs_rel (s\<lparr>events := events s @ [ReadEv c n v], clients := (clients s)[c := x1]\<rparr>) (a1\<lparr>sclients := (sclients a1)[c := y1\<lparr>todo := ms\<rparr>]\<rparr>)"
      by (intro afs_rel_local[OF R c]) (use a1' fv ev len in auto)
    moreover have "bnd (do_micro i c x m s) (on_client (\<lambda>x. Inr (x\<lparr>acnt := acnt x + 1\<rparr>)) c) = Inr (s\<lparr>events := events s @ [ReadEv c n v], clients := (clients s)[c := x1]\<rparr>)"
      using read_spec[OF c x l(2,3)] c MICRO_READ by (simp add: x1_def)
    ultimately show ?thesis by blast
  next
    case (MICRO_WRITE n)
    with sk looked[of n] obtain v d b where l: "sess y (table y n) = Some (v, d)" "cache x (table y n) = Some \<lparr>data = v, dirty = d, refcnt = 1, valid = b\<rparr>"
      "fd_lookup i (fd x) n = Inr (table y n)" "table y n \<in> set (callbacks s ! c)" "contents s (table y n) \<noteq> None" by auto
    define x1 where "x1 = x\<lparr>cache := (cache x)(table y n \<mapsto> \<lparr>data = nextv a, dirty = True, refcnt = 1, valid = b\<rparr>), writecnt := writecnt x + 1, acnt := acnt x + 1\<rparr>"
    have a1': "a1 = a\<lparr>nextv := nextv a + 1, sevents := sevents a @ [WriteEv c n v (nextv a)]\<rparr>" "y1 = y\<lparr>sess := (sess y)(table y n \<mapsto> (nextv a, True))\<rparr>"
      using a1 MICRO_WRITE l by auto
    have "client_rel (contents s) (callbacks s ! c) x1 (y1\<lparr>todo := ms\<rparr>)"
      by (rule client_rel_next[OF r m, where f = "table y n"]) (use a1' l in \<open>auto simp: x1_def entry_rel_def\<close>)
    then have "afs_rel (s\<lparr>filevalue := filevalue s + 1, events := events s @ [WriteEv c n v (nextv a)], clients := (clients s)[c := x1]\<rparr>) (a1\<lparr>sclients := (sclients a1)[c := y1\<lparr>todo := ms\<rparr>]\<rparr>)"
      by (intro afs_rel_local[OF R c]) (use a1' fv ev len in auto)
    moreover have "bnd (do_micro i c x m s) (on_client (\<lambda>x. Inr (x\<lparr>acnt := acnt x + 1\<rparr>)) c) = Inr (s\<lparr>filevalue := filevalue s + 1, events := events s @ [WriteEv c n v (nextv a)], clients := (clients s)[c := x1]\<rparr>)"
      using write_spec[OF c x l(2,3)] c MICRO_WRITE fv by (simp add: x1_def)
    ultimately show ?thesis by blast
  next
    case (MICRO_CLOSE n)
    with sk looked[of n] obtain v d b where l: "sess y (table y n) = Some (v, d)" "cache x (table y n) = Some \<lparr>data = v, dirty = d, refcnt = 1, valid = b\<rparr>"
      "fd_lookup i (fd x) n = Inr (table y n)" "table y n \<in> set (callbacks s ! c)" "contents s (table y n) \<noteq> None" "b \<and> \<not> d \<longrightarrow> contents s (table y n) = Some v" by auto
    show ?thesis by (rule close_sim[OF R c x y m a1[unfolded MICRO_CLOSE] MICRO_CLOSE l])
  qed
qed

lemma micro_ok:
  assumes ok: "spec_ok fs a" and c: "c < length (sclients a)" and y: "y = sclients a ! c" and m: "todo y = m # ms" and a1: "spec_micro c y m a = (a1, y1)"
  shows "spec_ok fs (a1\<lparr>sclients := (sclients a1)[c := y1\<lparr>todo := ms\<rparr>]\<rparr>)"
proof -
  have yk: "dom (sess y) \<subseteq> fs" "sessions_ok (table y) fs (dom (sess y)) (m # ms)" "\<not> sdone y" and dm: "dom (acontents a) = fs" "[] \<notin> fs"
    using spec_okD[OF ok c] m y by auto
  have a1': "sclients a1 = sclients a" "table y1 = table y" "sdone y1 = sdone y"
    using a1 by (cases m; auto simp: Let_def split_beta)+
  have y1: "y1 = snd (spec_micro c y m a)" and a1f: "a1 = fst (spec_micro c y m a)" using a1 by simp_all
  obtain D where D: "dom (sess y) = D" by simp
  have "dom (sess y1) = (case m of MICRO_OPEN f n \<Rightarrow> insert f D | MICRO_READ n \<Rightarrow> D | MICRO_WRITE n \<Rightarrow> insert (table y n) D | MICRO_CLOSE n \<Rightarrow> D - {table y n})"
    by (cases m) (simp_all add: y1 D Let_def split_beta)
  then have "dom (sess y1) \<subseteq> fs \<and> sessions_ok (table y1) fs (dom (sess y1)) ms"
    using yk a1'(2) unfolding D by (cases m) (auto simp: insert_absorb)
  moreover have "dom (acontents a1) = fs" using yk dm(1) unfolding D by (cases m) (auto simp: a1f Let_def split_beta insert_absorb)
  ultimately show ?thesis using a1' yk(3) by (intro spec_ok_update[OF ok, of _ c "y1\<lparr>todo := ms\<rparr>"]) simp_all
qed

definition afs_step :: "int \<Rightarrow> afs \<Rightarrow> nat \<Rightarrow> afs res" where
  "afs_step i s c = bnd (client_step i c s) (\<lambda>(rc, s). Inr s)"

lemma step_sim:
  assumes R: "afs_rel s a" and ok: "spec_ok fs a" and i: "0 \<le> i" "i < fd_max" and c: "c < length (sclients a)"
  shows "\<exists>rc s'. client_step i c s = Inr (rc, s') \<and> afs_rel s' (spec_step a c) \<and> (rc = 0 \<longleftrightarrow> \<not> sdone (sclients a ! c) \<and> todo (sclients a ! c) = [])"
proof -
  define x where "x = clients s ! c"
  define y where "y = sclients a ! c"
  have len: "length (clients s) = length (sclients a)" "length (callbacks s) = length (clients s)" using R by (auto simp: afs_rel_def)
  then have cs: "c < length (clients s)" using c by simp
  have r: "client_rel (contents s) (callbacks s ! c) x y" using R cs by (auto simp: afs_rel_def x_def y_def)
  then have td: "todo y = drop (acnt x) (acts x)" "cdone x = sdone y" "acnt x \<le> length (acts x)" by (simp_all add: client_rel_def)
  show ?thesis
  proof (cases "sdone y")
    case True
    then show ?thesis using R cs td by (simp add: client_step_def spec_step_def x_def[symmetric] y_def[symmetric])
  next
    case nd: False
    show ?thesis
    proof (cases "todo y")
      case Nil
      then have "acnt x = length (acts x)" using td by simp
      moreover have "afs_rel (s\<lparr>clients := (clients s)[c := x\<lparr>cdone := True\<rparr>]\<rparr>) (a\<lparr>sclients := (sclients a)[c := y\<lparr>sdone := True\<rparr>]\<rparr>)"
      proof (rule afs_rel_local[OF R cs, where cb = "callbacks s ! c"])
        show "client_rel (contents s) (callbacks s ! c) (x\<lparr>cdone := True\<rparr>) (y\<lparr>sdone := True\<rparr>)" using r by (simp add: client_rel_def)
      qed (use R len in \<open>auto simp: afs_rel_def\<close>)
      ultimately show ?thesis using cs nd td Nil by (simp add: client_step_def spec_step_def x_def[symmetric] y_def[symmetric])
    next
      case (Cons m ms)
      then have "acnt x < length (acts x)" using td by (metis drop_all list.distinct(1) not_le)
      moreover from this have "acts x ! acnt x = m" using Cons td Cons_nth_drop_Suc by (metis list.inject)
      moreover obtain a1 y1 where a1: "spec_micro c y m a = (a1, y1)" by fastforce
      moreover obtain s' where "bnd (do_micro i c x m s) (on_client (\<lambda>x. Inr (x\<lparr>acnt := acnt x + 1\<rparr>)) c) = Inr s'"
        "afs_rel s' (a1\<lparr>sclients := (sclients a1)[c := y1\<lparr>todo := ms\<rparr>]\<rparr>)"
        using micro_sim[OF R ok i cs x_def y_def Cons a1] by blast
      then have "bnd (do_micro i c x m s) (\<lambda>s. bnd (on_client (\<lambda>x. Inr (x\<lparr>acnt := acnt x + 1\<rparr>)) c s) (\<lambda>s. Inr (1 :: int, s))) = Inr (1, s')"
        by (simp add: bnd_assoc[symmetric])
      ultimately show ?thesis using cs nd td(2) Cons \<open>afs_rel s' _\<close>
        by (simp add: client_step_def spec_step_def x_def[symmetric] y_def[symmetric] del: on_client_in)
    qed
  qed
qed

lemma spec_step_ok:
  assumes ok: "spec_ok fs a" and c: "c < length (sclients a)"
  shows "spec_ok fs (spec_step a c)"
proof (cases "sdone (sclients a ! c) \<or> todo (sclients a ! c) = []")
  case True
  show ?thesis
  proof (cases "sdone (sclients a ! c)")
    case False
    with True have "spec_step a c = a\<lparr>sclients := (sclients a)[c := (sclients a ! c)\<lparr>sdone := True\<rparr>]\<rparr>" by (simp add: spec_step_def Let_def)
    then show ?thesis using spec_okD[OF ok c] True False by (intro spec_ok_update[OF ok, of _ c "(sclients a ! c)\<lparr>sdone := True\<rparr>"]) simp_all
  qed (use ok in \<open>simp add: spec_step_def Let_def\<close>)
next
  case False
  then obtain m ms where "todo (sclients a ! c) = m # ms" by (cases "todo (sclients a ! c)") auto
  moreover obtain a1 y1 where "spec_micro c (sclients a ! c) m a = (a1, y1)" by fastforce
  ultimately show ?thesis using micro_ok[OF ok c refl] False by (simp add: spec_step_def Let_def)
qed

lemma spec_step_clients [simp]: "length (sclients (spec_step a c)) = length (sclients a)"
proof -
  have "sclients (fst (spec_micro c y m a)) = sclients a" for y m
    by (cases m) (auto simp: Let_def split_beta)
  then show ?thesis by (auto simp: spec_step_def Let_def split_beta split: list.splits)
qed

text \<open>The file system follows the specification, whatever client moves next.\<close>

interpretation sessions: refined_machine "\<lambda>s a. afs_rel s a \<and> spec_ok fs a \<and> 0 \<le> i \<and> i < fd_max" "\<lambda>a c. c < length (sclients a)" "afs_step i" spec_step for fs i
proof
  fix s a c assume "afs_rel s a \<and> spec_ok fs a \<and> 0 \<le> i \<and> i < fd_max" "c < length (sclients a)"
  then show "\<exists>s'. afs_step i s c = Inr s' \<and> afs_rel s' (spec_step a c) \<and> spec_ok fs (spec_step a c) \<and> 0 \<le> i \<and> i < fd_max"
    using step_sim[of s a fs i c] spec_step_ok[of fs a c] by (auto simp: afs_step_def)
qed

section \<open>Progress\<close>

text \<open>What a client still has to do, the work of all, and the number of clients that have not reported their end.\<close>

definition left :: "sclient \<Rightarrow> nat" where
  "left y = (if sdone y then 0 else length (todo y) + 1)"

definition work :: "spec \<Rightarrow> nat" where
  "work a = sum_list (map left (sclients a))"

definition active :: "spec \<Rightarrow> int" where
  "active a = sum_list (map (\<lambda>y. if sdone y then 0 else 1) (sclients a))"

lemma spec_step_client:
  assumes c: "c < length (sclients a)" and y: "y = sclients a ! c"
  shows "\<exists>y'. sclients (spec_step a c) = (sclients a)[c := y'] \<and> (if sdone y then y' = y else left y' < left y) \<and> sdone y' = (sdone y \<or> todo y = [])"
proof (cases "sdone y \<or> todo y = []")
  case True
  then show ?thesis using assms by (auto simp: spec_step_def left_def Let_def)
next
  case False
  then obtain m ms where m: "todo y = m # ms" by (cases "todo y") auto
  obtain a1 y1 where a1: "spec_micro c y m a = (a1, y1)" by fastforce
  then have "sclients a1 = sclients a" "sdone y1 = sdone y" by (cases m; auto simp: Let_def split_beta)+
  then show ?thesis using False m a1 y by (auto simp: spec_step_def left_def Let_def intro!: exI[of _ "y1\<lparr>todo := ms\<rparr>"])
qed

lemma spec_step_idle: "sdone (sclients a ! c) \<Longrightarrow> spec_step a c = a"
  by (simp add: spec_step_def Let_def)

lemma spec_step_work:
  assumes c: "c < length (sclients a)" and nd: "\<not> sdone (sclients a ! c)"
  shows "work (spec_step a c) < work a"
proof -
  obtain y' where y': "sclients (spec_step a c) = (sclients a)[c := y']" "left y' < left (sclients a ! c)"
    using spec_step_client[OF c refl] nd by auto
  have "left (sclients a ! c) \<le> work a" unfolding work_def using c by (intro member_le_sum_list) auto
  moreover have "work (spec_step a c) = work a + left y' - left (sclients a ! c)"
    using c y'(1) by (simp add: work_def map_update sum_list_update)
  ultimately show ?thesis using y'(2) by linarith
qed

lemma spec_step_active:
  assumes c: "c < length (sclients a)"
  shows "active (spec_step a c) = (if \<not> sdone (sclients a ! c) \<and> todo (sclients a ! c) = [] then active a - 1 else active a)"
proof -
  obtain y' where y': "sclients (spec_step a c) = (sclients a)[c := y']" "sdone y' = (sdone (sclients a ! c) \<or> todo (sclients a ! c) = [])"
    using spec_step_client[OF c refl] by auto
  then show ?thesis using c by (simp add: active_def map_update sum_list_update_int)
qed

lemma active_pos: "0 < active a \<longleftrightarrow> (\<exists>c < length (sclients a). \<not> sdone (sclients a ! c))"
proof -
  have "0 < sum_list (map (\<lambda>y. if sdone y then 0 else 1 :: int) ys) \<longleftrightarrow> (\<exists>y \<in> set ys. \<not> sdone y)" for ys
  proof (induction ys)
    case (Cons y ys)
    have "0 \<le> sum_list (map (\<lambda>y. if sdone y then 0 else 1 :: int) ys)" by (intro sum_list_nonneg) auto
    with Cons show ?case by auto
  qed simp
  then show ?thesis unfolding active_def by (metis in_set_conv_nth)
qed

section \<open>Runs in a given order\<close>

text \<open>The clients a schedule picks in the first \<open>m\<close> rounds.\<close>

definition picks :: "int list \<Rightarrow> nat \<Rightarrow> nat list" where
  "picks sch m = map (\<lambda>j. nat (sch ! (j mod length sch))) [0..<m]"

definition schedule_ok :: "nat \<Rightarrow> int list \<Rightarrow> bool" where
  "schedule_ok n sch \<longleftrightarrow> sch \<noteq> [] \<and> set sch = int ` {..<n}"

definition sched_inv :: "int \<Rightarrow> int list \<Rightarrow> string set \<Rightarrow> spec \<Rightarrow> afs \<times> nat \<times> int \<Rightarrow> nat \<Rightarrow> spec \<Rightarrow> bool" where
  "sched_inv i sch fs a0 st m a \<longleftrightarrow>
     (case st of (s, schedcurr, numrunning) \<Rightarrow> a = foldl spec_step a0 (picks sch m) \<and> schedcurr = m mod length sch \<and> numrunning = active a \<and> afs_rel s a \<and> spec_ok fs a
       \<and> 0 \<le> i \<and> i < fd_max \<and> schedule_ok (length (sclients a)) sch)"

text \<open>Rounds until a client that is not done is picked.\<close>

definition wait :: "int list \<Rightarrow> nat \<Rightarrow> spec \<Rightarrow> nat" where
  "wait sch m a = (if 0 < active a then LEAST d. \<not> sdone (sclients a ! nat (sch ! ((m + d) mod length sch))) else 0)"

lemma picked:
  assumes "schedule_ok n sch"
  shows "nat (sch ! (j mod length sch)) < n" "int (nat (sch ! (j mod length sch))) = sch ! (j mod length sch)"
proof -
  have "sch ! (j mod length sch) \<in> set sch" using assms by (intro nth_mem) (simp add: schedule_ok_def)
  then show "nat (sch ! (j mod length sch)) < n" "int (nat (sch ! (j mod length sch))) = sch ! (j mod length sch)"
    using assms by (auto simp: schedule_ok_def)
qed

lemma comes_up:
  assumes ok: "schedule_ok n sch" and c: "c < n"
  shows "\<exists>d < length sch. nat (sch ! ((m + d) mod length sch)) = c"
proof -
  have "int c \<in> set sch" using assms by (auto simp: schedule_ok_def)
  then obtain j where j: "j < length sch" "sch ! j = int c" by (auto simp: in_set_conv_nth)
  define L where "L = length sch"
  define d where "d = (j + L - m mod L) mod L"
  have L: "0 < L" "j < L" using j by (auto simp: L_def)
  have "(m + d) mod L = (m mod L + (j + L - m mod L)) mod L" by (simp add: d_def mod_simps)
  also have "m mod L + (j + L - m mod L) = j + L" using mod_less_divisor[OF L(1), of m] by linarith
  also have "(j + L) mod L = j" using L(2) by simp
  finally show ?thesis using j L by (intro exI[of _ d]) (simp add: L_def d_def)
qed

lemma wait_bound:
  assumes "schedule_ok (length (sclients a)) sch"
  shows "wait sch m a < length sch"
proof (cases "0 < active a")
  case True
  then obtain c where c: "c < length (sclients a)" "\<not> sdone (sclients a ! c)" by (auto simp: active_pos)
  obtain d where "d < length sch" "nat (sch ! ((m + d) mod length sch)) = c" using comes_up[OF assms c(1)] by blast
  then have "(LEAST d. \<not> sdone (sclients a ! nat (sch ! ((m + d) mod length sch)))) \<le> d" using c(2) by (intro Least_le) simp
  with True \<open>d < _\<close> show ?thesis by (simp add: wait_def)
qed (use assms in \<open>simp add: wait_def schedule_ok_def\<close>)

lemma wait_next:
  assumes ok: "schedule_ok (length (sclients a)) sch" and "0 < active a" and idle: "sdone (sclients a ! nat (sch ! (m mod length sch)))"
  shows "wait sch (Suc m) a < wait sch m a"
proof -
  let ?P = "\<lambda>d. \<not> sdone (sclients a ! nat (sch ! ((m + d) mod length sch)))"
  obtain c where c: "c < length (sclients a)" "\<not> sdone (sclients a ! c)" using assms(2) by (auto simp: active_pos)
  obtain d where "?P d" using comes_up[OF ok c(1), of m] c(2) by auto
  moreover have "\<not> ?P 0" using idle by simp
  ultimately have "(LEAST d. ?P d) = Suc (LEAST d. ?P (Suc d))" by (rule Least_Suc)
  then show ?thesis using assms(2) by (simp add: wait_def)
qed

lemma picks_Suc: "picks sch (Suc m) = picks sch m @ [nat (sch ! (m mod length sch))]"
  by (simp add: picks_def)

lemma round_ok:
  assumes inv: "sched_inv i sch fs a0 st m a" and run: "case st of (s, _, nr) \<Rightarrow> 0 < nr"
  shows "\<exists>st' a'. afs_round i sch st = Inr st' \<and> sched_inv i sch fs a0 st' (Suc m) a'
    \<and> work a' * length sch + wait sch (Suc m) a' < work a * length sch + wait sch m a"
proof -
  obtain s k nr where st: "st = (s, k, nr)" by (cases st) auto
  define c where "c = nat (sch ! (m mod length sch))"
  have I: "a = foldl spec_step a0 (picks sch m)" "k = m mod length sch" "nr = active a" "afs_rel s a" "spec_ok fs a" "0 \<le> i" "i < fd_max"
    and ok: "schedule_ok (length (sclients a)) sch"
    using inv unfolding sched_inv_def st prod.case by blast+
  have c: "c < length (sclients a)" "int c = sch ! (m mod length sch)" using picked[OF ok] by (simp_all add: c_def)
  obtain rc s' where s': "client_step i c s = Inr (rc, s')" "afs_rel s' (spec_step a c)" "(rc = 0) = (\<not> sdone (sclients a ! c) \<and> todo (sclients a ! c) = [])"
    using step_sim[OF I(4-7) c(1)] by blast
  have L: "k < length sch" using I(2) ok by (simp add: schedule_ok_def)
  have lc: "length (clients s) = length (sclients a)" using I(4) by (simp add: afs_rel_def)
  define st' where "st' = (s', Suc m mod length sch, active (spec_step a c))"
  have "list_get [0..<length (clients s)] (sch ! k) = Inr c" using c lc I(2) by (metis add_0 diff_zero length_upt list_get_nat nth_upt)
  moreover have "(if Suc k = length sch then 0 else Suc k) = Suc m mod length sch" by (simp add: I(2) mod_Suc)
  moreover have "(if rc = 0 then nr - 1 else nr) = active (spec_step a c)" using s'(3) I(3) spec_step_active[OF c(1)] by simp
  ultimately have "afs_round i sch st = Inr st'" using s'(1) L by (auto simp: afs_round_def st st'_def split: if_splits)
  moreover have "sched_inv i sch fs a0 st' (Suc m) (spec_step a c)"
    using I ok s'(2) spec_step_ok[OF I(5) c(1)] by (simp add: sched_inv_def st'_def picks_Suc c_def)
  moreover have "work (spec_step a c) * length sch + wait sch (Suc m) (spec_step a c) < work a * length sch + wait sch m a"
  proof (cases "sdone (sclients a ! c)")
    case True
    then show ?thesis using wait_next[OF ok, of m] run I(3) by (simp add: spec_step_idle st c_def)
  next
    case False
    have "wait sch (Suc m) (spec_step a c) < length sch" using ok by (intro wait_bound) simp
    moreover have "(work (spec_step a c) + 1) * length sch \<le> work a * length sch"
      using spec_step_work[OF c(1) False] by (intro mult_right_mono) auto
    ultimately show ?thesis by simp
  qed
  ultimately show ?thesis by blast
qed

interpretation sched: terminating_loop "\<lambda>st. \<exists>m a. sched_inv i sch fs a0 st m a" "\<lambda>(s, k, nr). nr > 0" "afs_round i sch"
    "\<lambda>st. LEAST r. \<exists>m a. sched_inv i sch fs a0 st m a \<and> r = work a * length sch + wait sch m a" for i sch fs a0
proof
  fix st :: "afs \<times> nat \<times> int"
  let ?r = "\<lambda>st r. \<exists>m a. sched_inv i sch fs a0 st m a \<and> r = work a * length sch + wait sch m a"
  assume "\<exists>m a. sched_inv i sch fs a0 st m a" and g: "case st of (s, k, nr) \<Rightarrow> nr > 0"
  then have "\<exists>r. ?r st r" by blast
  from LeastI_ex[OF this] obtain m a where I: "sched_inv i sch fs a0 st m a" "(LEAST r. ?r st r) = work a * length sch + wait sch m a" by blast
  obtain st' a' where st': "afs_round i sch st = Inr st'" "sched_inv i sch fs a0 st' (Suc m) a'"
    "work a' * length sch + wait sch (Suc m) a' < work a * length sch + wait sch m a"
    using round_ok[OF I(1)] g by (auto simp: split_beta)
  have "(LEAST r. ?r st' r) \<le> work a' * length sch + wait sch (Suc m) a'" by (rule Least_le) (use st'(2) in blast)
  with st' I(2) show "\<exists>st'. afs_round i sch st = Inr st' \<and> (\<exists>m a. sched_inv i sch fs a0 st' m a) \<and> (LEAST r. ?r st' r) < (LEAST r. ?r st r)"
    by (intro exI[of _ st']) auto
qed

text \<open>New clients on a new server.\<close>

lemma init_rel:
  assumes "\<forall>x \<in> set cs. x = new_client (fd x) (acts x)"
  shows "afs_rel (server_init fs cs) (spec_init fs cs)"
proof -
  have "cache x = Map.empty" "\<not> cdone x" "acnt x = 0" if "x \<in> set cs" for x
    using assms that by (metis client.simps new_client_def)+
  then show ?thesis by (auto simp: afs_rel_def server_init_def spec_init_def client_rel_def entry_rel_def)
qed

lemma init_ok:
  assumes "[] \<notin> set fs" "\<forall>x \<in> set cs. sessions_ok (fd x) (set fs) {} (acts x)"
  shows "spec_ok (set fs) (spec_init fs cs)"
proof -
  have "length fs = length [0..int (length fs) - 1]" by simp
  then have "dom (map_of (zip fs [0..int (length fs) - 1])) = set fs" by (rule dom_map_of_zip)
  with assms show ?thesis by (auto simp: spec_ok_def spec_init_def)
qed

lemma init_active: "active (spec_init fs cs) = int (length cs)"
  by (induction cs) (simp_all add: active_def spec_init_def)

lemma init_work: "work (spec_init fs cs) = (\<Sum>x\<leftarrow>cs. length (acts x) + 1)"
  by (induction cs) (simp_all add: work_def spec_init_def left_def)

text \<open>\<open>s\<close> is a state in which all clients have ended, after the steps of the clients \<open>cl\<close> of the session semantics.\<close>

definition ends_as :: "string list \<Rightarrow> client list \<Rightarrow> nat list \<Rightarrow> afs \<Rightarrow> bool" where
  "ends_as fs cs cl s \<longleftrightarrow>
     (let a = foldl spec_step (spec_init fs cs) cl
      in (\<forall>c \<in> set cl. c < length cs) \<and> contents s = acontents a \<and> events s = sevents a \<and> length (clients s) = length cs
         \<and> (\<forall>x \<in> set (clients s). cdone x \<and> acnt x = length (acts x)))"

lemma run_clients [simp]: "length (sclients (foldl spec_step a cl)) = length (sclients a)"
  by (induction cl arbitrary: a) simp_all

lemma ended:
  assumes R: "afs_rel s a" and ok: "spec_ok fs a" and "\<not> 0 < active a"
  shows "\<forall>x \<in> set (clients s). cdone x \<and> acnt x = length (acts x)"
proof
  fix x assume "x \<in> set (clients s)"
  then obtain c where c: "c < length (clients s)" "x = clients s ! c" by (auto simp: in_set_conv_nth)
  then have r: "client_rel (contents s) (callbacks s ! c) x (sclients a ! c)" and cl: "c < length (sclients a)" using R by (auto simp: afs_rel_def)
  then have "sdone (sclients a ! c)" using assms(3) by (auto simp: active_pos)
  then show "cdone x \<and> acnt x = length (acts x)" using spec_okD(5)[OF ok cl] r by (auto simp: client_rel_def)
qed

lemma ends_asI:
  assumes "\<forall>c \<in> set cl. c < length cs" "afs_rel s (foldl spec_step (spec_init fs cs) cl)" "spec_ok (set fs) (foldl spec_step (spec_init fs cs) cl)"
    "\<not> 0 < active (foldl spec_step (spec_init fs cs) cl)"
  shows "ends_as fs cs cl s"
proof -
  have "length (clients s) = length cs" using assms(2) by (simp add: afs_rel_def spec_init_def)
  then show ?thesis using ended[OF assms(2-4)] assms(1,2) by (simp add: ends_as_def Let_def afs_rel_def)
qed

text \<open>A run in a given order follows the session semantics to the end.\<close>

lemma run_schedule_ends:
  assumes new: "\<forall>x \<in> set cs. x = new_client (fd x) (acts x) \<and> sessions_ok (fd x) (set fs) {} (acts x)" and fs: "[] \<notin> set fs"
    and sch: "schedule_ok (length cs) sch" and i: "0 \<le> i" "i < fd_max"
    and fuel: "((\<Sum>x\<leftarrow>cs. length (acts x) + 1) + 1) * length sch \<le> fuel"
  shows "\<exists>s m. run_schedule fuel i sch (server_init fs cs) = Inr s \<and> ends_as fs cs (picks sch m) s"
proof -
  define a0 where "a0 = spec_init fs cs"
  define st where "st = (server_init fs cs, 0 :: nat, int (length cs))"
  have lc: "length (sclients a0) = length cs" by (simp add: a0_def spec_init_def)
  have inv: "sched_inv i sch (set fs) a0 st 0 a0"
    using init_rel[of cs fs] init_ok[of fs cs] new fs sch i lc by (simp add: sched_inv_def st_def a0_def picks_def init_active)
  have "(LEAST r. \<exists>m a. sched_inv i sch (set fs) a0 st m a \<and> r = work a * length sch + wait sch m a) \<le> work a0 * length sch + wait sch 0 a0"
    by (rule Least_le) (use inv in blast)
  also have "\<dots> \<le> fuel" using wait_bound[of a0 sch 0] sch lc fuel by (simp add: a0_def init_work algebra_simps)
  finally obtain st' m a where st': "while_res (\<lambda>(s, k, nr). nr > 0) (afs_round i sch) fuel st = Inr st'" "sched_inv i sch (set fs) a0 st' m a"
    "\<not> (case st' of (s, k, nr) \<Rightarrow> nr > 0)"
    using sched.loop_ends[of i sch "set fs" a0 st fuel] inv by blast
  obtain s k where s: "st' = (s, k, active a)" "a = foldl spec_step a0 (picks sch m)" "afs_rel s a" "spec_ok (set fs) a"
    using st'(2) by (auto simp: sched_inv_def)
  have "\<forall>c \<in> set (picks sch m). c < length cs" using picked(1)[OF sch] by (auto simp: picks_def)
  then have "ends_as fs cs (picks sch m) s" using s st'(3) unfolding a0_def by (intro ends_asI) simp_all
  moreover have "run_schedule fuel i sch (server_init fs cs) = Inr s"
    using st'(1) s(1) by (simp add: run_schedule_def st_def server_init_def)
  ultimately show ?thesis by blast
qed

section \<open>Runs in a random order\<close>

lemma random_pick:
  assumes "drawn k" and R: "afs_rel s a" and ok: "spec_ok fs a" and i: "0 \<le> i" "i < fd_max" and nr: "nr = active a" "0 < nr"
    and c: "c = nat (scaled k (int (length (sclients a))))"
  shows "c < length (sclients a) \<and> (\<exists>s'. (\<forall>ds. run_random i (k # ds) s nr = run_random i ds s' (active (spec_step a c))) \<and> afs_rel s' (spec_step a c))"
proof -
  have lc: "length (clients s) = length (sclients a)" using R by (simp add: afs_rel_def)
  have "0 < length (sclients a)" using nr by (auto simp: active_def)
  then have "0 \<le> scaled k (int (length (sclients a)))" "scaled k (int (length (sclients a))) < int (length (sclients a))"
    using scaled_range[of k "int (length (sclients a))"] assms(1) by auto
  then have cl: "c < length (sclients a)" "pickrand k [0..<length (clients s)] = Inr c" using lc by (auto simp: c pickrand_def)
  obtain rc s' where s': "client_step i c s = Inr (rc, s')" "afs_rel s' (spec_step a c)" "(rc = 0) = (\<not> sdone (sclients a ! c) \<and> todo (sclients a ! c) = [])"
    using step_sim[OF R ok i cl(1)] by blast
  have n: "(if rc = 0 then nr - 1 else nr) = active (spec_step a c)" using s'(3) nr(1) spec_step_active[OF cl(1)] by simp
  have "run_random i (k # ds) s nr = run_random i ds s' (active (spec_step a c))" for ds
    using nr(2) cl(2) s'(1) n by (simp add: run_random.simps[of i "k # ds"])
  with cl(1) s'(2) show ?thesis by blast
qed

lemma run_random_ends:
  assumes "\<forall>k \<in> set draws. drawn k" "afs_rel s a" "spec_ok fs a" "0 \<le> i" "i < fd_max" "nr = active a"
  shows "lucky (\<lambda>s'. \<exists>cl. (\<forall>c \<in> set cl. c < length (sclients a)) \<and> afs_rel s' (foldl spec_step a cl) \<and> spec_ok fs (foldl spec_step a cl) \<and> \<not> 0 < active (foldl spec_step a cl))
    (run_random i draws s nr)"
  using assms
proof (induction draws arbitrary: s a nr)
  case Nil
  then show ?case by (auto simp: run_random.simps intro!: exI[of _ "[]"])
next
  case (Cons k draws)
  show ?case
  proof (cases "0 < nr")
    case False
    with Cons.prems show ?thesis by (auto simp: run_random.simps intro!: exI[of _ "[]"])
  next
    case True
    define c where "c = nat (scaled k (int (length (sclients a))))"
    obtain s' where c: "c < length (sclients a)" and run: "run_random i (k # draws) s nr = run_random i draws s' (active (spec_step a c))" and s': "afs_rel s' (spec_step a c)"
      using random_pick[OF _ Cons.prems(2-6) True c_def] Cons.prems(1) by auto
    have "lucky (\<lambda>s''. \<exists>cl. (\<forall>d \<in> set cl. d < length (sclients (spec_step a c))) \<and> afs_rel s'' (foldl spec_step (spec_step a c) cl)
        \<and> spec_ok fs (foldl spec_step (spec_step a c) cl) \<and> \<not> 0 < active (foldl spec_step (spec_step a c) cl)) (run_random i draws s' (active (spec_step a c)))"
      by (rule Cons.IH) (use Cons.prems s' spec_step_ok[OF Cons.prems(3) c] in auto)
    then show ?thesis unfolding run
    proof (rule lucky_mono, elim exE conjE, goal_cases)
      case (1 s'' cl)
      then show ?case using c by (intro exI[of _ "c # cl"]) simp
    qed
  qed
qed

text \<open>The random numbers only end too early when the clients they pick have not all finished.\<close>

lemma run_random_unfinished:
  assumes "\<forall>k \<in> set draws. drawn k" "afs_rel s a" "spec_ok fs a" "0 \<le> i" "i < fd_max" "nr = active a" "run_random i draws s nr = Inl NoReturn"
  shows "0 < active (foldl spec_step a (map (\<lambda>k. nat (scaled k (int (length (sclients a))))) draws))"
  using assms
proof (induction draws arbitrary: s a nr)
  case Nil
  then show ?case by (simp add: run_random.simps split: if_splits)
next
  case (Cons k draws)
  have nr: "0 < nr" using Cons.prems(7) by (simp add: run_random.simps split: if_splits)
  define c where "c = nat (scaled k (int (length (sclients a))))"
  obtain s' where c: "c < length (sclients a)" and run: "run_random i (k # draws) s nr = run_random i draws s' (active (spec_step a c))" and s': "afs_rel s' (spec_step a c)"
    using random_pick[OF _ Cons.prems(2-6) nr c_def] Cons.prems(1) by auto
  have "0 < active (foldl spec_step (spec_step a c) (map (\<lambda>k. nat (scaled k (int (length (sclients (spec_step a c)))))) draws))"
    using Cons.prems(1,4,5,7) s' run spec_step_ok[OF Cons.prems(3) c] by (intro Cons.IH[OF _ _ _ _ _ refl]) auto
  then show ?case by (simp add: c_def)
qed

lemma random_order_ends:
  assumes new: "\<forall>x \<in> set cs. x = new_client (fd x) (acts x) \<and> sessions_ok (fd x) (set fs) {} (acts x)" and fs: "[] \<notin> set fs"
    and i: "0 \<le> i" "i < fd_max" and ds: "\<forall>k \<in> set ds. drawn k"
  shows "lucky (\<lambda>s. \<exists>cl. ends_as fs cs cl s) (run_random i ds (server_init fs cs) (int (length cs)))"
    and "run_random i ds (server_init fs cs) (int (length cs)) = Inl NoReturn
      \<Longrightarrow> 0 < active (foldl spec_step (spec_init fs cs) (map (\<lambda>k. nat (scaled k (int (length cs)))) ds))"
proof -
  have R: "afs_rel (server_init fs cs) (spec_init fs cs)" using new by (intro init_rel) blast
  have ok: "spec_ok (set fs) (spec_init fs cs)" using new fs by (intro init_ok) blast+
  show "0 < active (foldl spec_step (spec_init fs cs) (map (\<lambda>k. nat (scaled k (int (length cs)))) ds))"
    if "run_random i ds (server_init fs cs) (int (length cs)) = Inl NoReturn"
    using run_random_unfinished[OF ds R ok i init_active[symmetric] that] by (simp add: spec_init_def)
  from run_random_ends[OF ds R ok i init_active[symmetric]] show "lucky (\<lambda>s. \<exists>cl. ends_as fs cs cl s) (run_random i ds (server_init fs cs) (int (length cs)))"
  proof (rule lucky_mono, elim exE conjE, goal_cases)
    case (1 s cl)
    then have "ends_as fs cs cl s" by (intro ends_asI) (auto simp: spec_init_def)
    then show ?case by blast
  qed
qed

section \<open>Programs\<close>

text \<open>The first free descriptor is taken.\<close>

lemma fd_alloc_free:
  assumes "0 \<le> b" "b < fd_max" "t b = []"
  shows "\<exists>j. fd_alloc t f = (j, t(j := f)) \<and> 0 \<le> j \<and> j \<le> b \<and> t j = []"
proof -
  have "b \<in> set [0..fd_max - 1]" using assms by simp
  then obtain j where j: "find (\<lambda>i. t i = []) [0..fd_max - 1] = Some j" using assms(3) by (cases "find (\<lambda>i. t i = []) [0..fd_max - 1]") (auto simp: find_None_iff)
  then obtain k where k: "k < length [0..fd_max - 1]" "t j = []" "j = [0..fd_max - 1] ! k" "\<forall>l < k. t ([0..fd_max - 1] ! l) \<noteq> []" by (auto simp: find_Some_iff)
  then have jk: "j = int k" by (simp add: nth_upto)
  have "\<not> nat b < k"
  proof
    assume "nat b < k"
    then have "t ([0..fd_max - 1] ! nat b) \<noteq> []" using k(4) by blast
    then show False using assms by (simp add: nth_upto)
  qed
  then have "j \<le> b" using jk assms(1) by linarith
  then show ?thesis using j jk k(2) by (simp add: fd_alloc_def)
qed

text \<open>A drawn program is a sequence of sessions, and is drawn without an error as long as the descriptors last.\<close>

lemma random_client_ok:
  assumes fs: "fs \<noteq> []" "[] \<notin> set fs" and "\<forall>k \<in> set draws. drawn k" "\<forall>j \<ge> b. t j = []" "0 \<le> b" "b + int n \<le> fd_max"
  shows "lucky (\<lambda>(t', as, ds). (\<forall>j. t j \<noteq> [] \<longrightarrow> t' j = t j) \<and> sessions_ok t' (set fs) {} as \<and> length as = 3 * n \<and> (\<forall>k \<in> set ds. drawn k) \<and> length draws = length ds + 2 * n)
    (random_client fs readratio n t draws)"
  using assms(3-)
proof (induction n arbitrary: t b draws)
  case (Suc n)
  show ?case
  proof (cases "\<exists>k r ds. draws = k # r # ds")
    case False
    then show ?thesis by (auto split: list.splits)
  next
    case True
    then obtain k r ds0 where d: "draws = k # r # ds0" by blast
    define f where "f = fs ! nat (scaled k (int (length fs)))"
    have "drawn k" using Suc.prems(1) d by simp
    then have "0 \<le> scaled k (int (length fs))" "scaled k (int (length fs)) < int (length fs)" using scaled_range[of k "int (length fs)"] fs by auto
    then have f: "pickrand k fs = Inr f" "f \<in> set fs" by (auto simp: pickrand_def f_def)
    obtain j where j: "fd_alloc t f = (j, t(j := f))" "0 \<le> j" "j \<le> b" "t j = []" using fd_alloc_free[of b t f] Suc.prems by auto
    have "lucky (\<lambda>(t', as, ds). (\<forall>i. (t(j := f)) i \<noteq> [] \<longrightarrow> t' i = (t(j := f)) i) \<and> sessions_ok t' (set fs) {} as \<and> length as = 3 * n \<and> (\<forall>k \<in> set ds. drawn k) \<and> length ds0 = length ds + 2 * n)
        (random_client fs readratio n (t(j := f)) ds0)"
      by (rule Suc.IH[where b = "b + 1"]) (use Suc.prems d j in auto)
    moreover have "random_client fs readratio (Suc n) t draws = bnd (random_client fs readratio n (t(j := f)) ds0) (\<lambda>(t', as, ds).
        Inr (t', [MICRO_OPEN f j, (if of_int r < readratio * 2 ^ 53 then MICRO_READ j else MICRO_WRITE j), MICRO_CLOSE j] @ as, ds))"
      using d f(1) j by simp
    ultimately show ?thesis
    proof (simp only:, elim lucky_bnd, goal_cases)
      case (1 q)
      obtain t' as ds' where q: "q = (t', as, ds')" by (cases q) auto
      have fne: "f \<noteq> []" using f(2) fs(2) by blast
      then have "t' j = f" using 1 q by auto
      moreover have "t' i = t i" if "t i \<noteq> []" for i using 1 q that j(4) by (cases "i = j") auto
      moreover have "j < fd_max" using j Suc.prems by simp
      ultimately show ?case using 1 q j f(2) by (auto simp: zassert_def insert_Diff_if d)
    qed
  qed
qed simp

lemma random_client_draws: "random_client fs readratio n t draws = Inl NoReturn \<Longrightarrow> length draws < 2 * n"
proof (induction n arbitrary: t draws)
  case (Suc n)
  show ?case
  proof (cases "\<exists>k r ds. draws = k # r # ds")
    case True
    then obtain k r ds where d: "draws = k # r # ds" by blast
    then have "\<exists>t'. random_client fs readratio n t' ds = Inl NoReturn"
      using Suc.prems by (auto simp: bnd_def pickrand_def list_get_def Let_def zassert_def split: sum.splits if_splits prod.splits)
    then show ?thesis using Suc.IH d by fastforce
  next
    case False
    then have "length draws < 2" by (cases draws; cases "tl draws") auto
    then show ?thesis by simp
  qed
qed simp

definition session_client :: "string list \<Rightarrow> client \<Rightarrow> bool" where
  "session_client fs x \<longleftrightarrow> x = new_client (fd x) (acts x) \<and> sessions_ok (fd x) (set fs) {} (acts x)"

lemma random_clients_ok:
  assumes fs: "fs \<noteq> []" "[] \<notin> set fs" and "\<forall>k \<in> set draws. drawn k" and n: "int n \<le> fd_max"
  shows "lucky (\<lambda>(cs, ds). length cs = m \<and> (\<forall>x \<in> set cs. session_client fs x \<and> length (acts x) = 3 * n) \<and> (\<forall>k \<in> set ds. drawn k)) (random_clients fs readratio n m draws)"
  using assms(3)
proof (induction m arbitrary: draws)
  case (Suc m)
  have "lucky (\<lambda>(t, as, ds). sessions_ok t (set fs) {} as \<and> length as = 3 * n \<and> (\<forall>k \<in> set ds. drawn k)) (random_client fs readratio n (\<lambda>_. []) draws)"
    by (rule lucky_mono[OF random_client_ok[OF fs Suc.prems, of 0]]) (use n in auto)
  then show ?case unfolding random_clients.simps
  proof (rule lucky_bnd, goal_cases)
    case (1 q)
    obtain t as ds where q: "q = (t, as, ds)" by (cases q) auto
    have "lucky (\<lambda>(cs, ds). length cs = m \<and> (\<forall>x \<in> set cs. session_client fs x \<and> length (acts x) = 3 * n) \<and> (\<forall>k \<in> set ds. drawn k)) (random_clients fs readratio n m ds)"
      using Suc.IH 1 q by auto
    then show ?case unfolding q prod.case
      by (rule lucky_bnd) (use 1 q in \<open>auto simp: session_client_def new_client_def\<close>)
  qed
qed simp

lemma random_clients_draws:
  assumes fs: "fs \<noteq> []" "[] \<notin> set fs" and "\<forall>k \<in> set draws. drawn k" and n: "int n \<le> fd_max"
    and "random_clients fs readratio n m draws = Inl NoReturn"
  shows "length draws < 2 * n * m"
  using assms(3,5)
proof (induction m arbitrary: draws)
  case (Suc m)
  show ?case
  proof (cases "random_client fs readratio n (\<lambda>_. []) draws")
    case (Inl e)
    then have "length draws < 2 * n" using Suc.prems(2) random_client_draws by auto
    then show ?thesis by simp
  next
    case (Inr q)
    obtain t as ds where q: "q = (t, as, ds)" by (cases q) auto
    have "\<forall>k \<in> set ds. drawn k" "length draws = length ds + 2 * n"
      using random_client_ok[OF fs Suc.prems(1), of 0 "\<lambda>_. []" n readratio] n Inr q by auto
    moreover have "random_clients fs readratio n m ds = Inl NoReturn" using Suc.prems(2) Inr q by (auto simp: bnd_def split: sum.splits)
    ultimately show ?thesis using Suc.IH by fastforce
  qed
qed simp

lemma given_clients_new: "given_clients xs = Inr cs \<Longrightarrow> x \<in> set cs \<Longrightarrow> x = new_client (fd x) (acts x)"
  by (induction xs arbitrary: cs) (auto simp: bnd_eq_Inr_iff given_client_def new_client_def split: if_splits)

lemma read_schedule_length: "read_schedule xs = Inr sch \<Longrightarrow> length sch = length xs"
  by (induction xs arbitrary: sch) (auto simp: bnd_eq_Inr_iff)

lemma schedule_checked: "schedule_ok n sch \<Longrightarrow> check_schedule n sch m = m"
  by (auto simp: check_schedule_def schedule_ok_def zassert_def)

lemma filelist_names: "[] \<notin> set (filelist n)" "0 < n \<Longrightarrow> filelist n \<noteq> []"
proof -
  show "[] \<notin> set (filelist n)" by (auto simp: filelist_def)
  assume "0 < n"
  then have "nat n = Suc (nat (n - 1))" by simp
  then show "filelist n \<noteq> []" by (simp add: filelist_def)
qed

section \<open>Properties\<close>

text \<open>C21. Clients whose programs are given keep to the session semantics, in every interleaving a schedule prescribes: if no program
  opens a file it has open, the run ends, the values read, written and stored are those of sessions that take the value of a file when it is opened and
  store it when it is closed, and every client has executed its whole program. No cached copy, call-back or stale value shows.\<close>

theorem afs_refines:
  assumes sizes: "0 < numfiles" "numfiles \<le> 26" "0 \<le> readratio" "readratio \<le> 1"
    and given: "actions \<noteq> []" "given_clients (split_on CHR '','' actions) = Inr cs" "length cs \<le> 1024"
    and prog: "\<forall>x \<in> set cs. sessions_ok (fd x) (set (filelist numfiles)) {} (acts x)"
    and sch: "read_schedule schedule = Inr sch" "schedule_ok (length cs) sch"
    and fuel: "((\<Sum>x\<leftarrow>cs. length (acts x) + 1) + 1) * length sch \<le> fuel"
  shows "\<exists>s m. afs_main fuel numclients numsteps numfiles readratio actions schedule draws = Inr s \<and> ends_as (filelist numfiles) cs (picks sch m) s"
proof -
  have "\<forall>x \<in> set cs. x = new_client (fd x) (acts x) \<and> sessions_ok (fd x) (set (filelist numfiles)) {} (acts x)"
    using given_clients_new[OF given(2)] prog by blast
  moreover have ne: "schedule \<noteq> []" "cs \<noteq> []" using sch by (auto simp: schedule_ok_def)
  moreover have "0 \<le> int (length cs) - 1" "int (length cs) - 1 < fd_max" using ne(2) given(3) by (simp_all add: fd_max_def Suc_le_eq)
  ultimately obtain s m where s: "run_schedule fuel (int (length cs) - 1) sch (server_init (filelist numfiles) cs) = Inr s" "ends_as (filelist numfiles) cs (picks sch m) s"
    using run_schedule_ends[OF _ filelist_names(1) sch(2) _ _ fuel] by blast
  have "afs_main fuel numclients numsteps numfiles readratio actions schedule draws = Inr s"
    using sizes given(1,2) sch(1) s(1) ne by (simp add: afs_main_def schedule_checked[OF sch(2)] Let_def)
  with s(2) show ?thesis by blast
qed

text \<open>C37. Clients whose programs are drawn, at most 1024 of them with at most 1024 operations: under every schedule that is given and names all clients, and under every
  random order, no assertion and no look-up fails, and the run ends in the result of the session semantics, unless the random numbers end first.\<close>

theorem afs_random:
  assumes sizes: "0 < numfiles" "numfiles \<le> 26" "0 \<le> readratio" "readratio \<le> 1" "numsteps \<le> 1024" "1 \<le> numclients" "numclients \<le> 1024"
    and draws: "\<forall>k \<in> set draws. drawn k" "2 * nat numsteps * nat numclients \<le> length draws"
    and sch: "schedule = [] \<or> (\<exists>sch. read_schedule schedule = Inr sch \<and> schedule_ok (nat numclients) sch)"
    and fuel: "(nat numclients * (3 * nat numsteps + 1) + 1) * length schedule \<le> fuel"
  shows "\<exists>cs ds. random_clients (filelist numfiles) readratio (nat numsteps) (nat numclients) draws = Inr (cs, ds)
    \<and> (case afs_main fuel numclients numsteps numfiles readratio [] schedule draws of
         Inr s \<Rightarrow> \<exists>cl. ends_as (filelist numfiles) cs cl s
       | Inl e \<Rightarrow> e = NoReturn \<and> schedule = []
           \<and> 0 < active (foldl spec_step (spec_init (filelist numfiles) cs) (map (\<lambda>k. nat (scaled k (int (length cs)))) ds)))"
proof -
  define fs where "fs = filelist numfiles"
  have fs: "fs \<noteq> []" "[] \<notin> set fs" using filelist_names sizes by (simp_all add: fs_def)
  have n: "int (nat numsteps) \<le> fd_max" using sizes by (simp add: fd_max_def)
  note made = random_clients_ok[OF fs draws(1) n, of "nat numclients" readratio]
  have "random_clients fs readratio (nat numsteps) (nat numclients) draws \<noteq> Inl NoReturn"
    using random_clients_draws[OF fs draws(1) n] draws(2) by (meson not_le)
  then obtain cs ds where q: "random_clients fs readratio (nat numsteps) (nat numclients) draws = Inr (cs, ds)"
    using made by (cases "random_clients fs readratio (nat numsteps) (nat numclients) draws") auto
  then have cs: "length cs = nat numclients" "\<forall>x \<in> set cs. session_client fs x \<and> length (acts x) = 3 * nat numsteps" "\<forall>k \<in> set ds. drawn k"
    using made by (simp_all only: lucky_simps prod.case) blast+
  have new: "\<forall>x \<in> set cs. x = new_client (fd x) (acts x) \<and> sessions_ok (fd x) (set fs) {} (acts x)"
    using cs(2) by (simp add: session_client_def)
  have i: "0 \<le> int (length cs) - 1" "int (length cs) - 1 < fd_max" and ne: "cs \<noteq> []" using cs(1) sizes by (auto simp: fd_max_def)
  have "case afs_main fuel numclients numsteps numfiles readratio [] schedule draws of
         Inr s \<Rightarrow> \<exists>cl. ends_as fs cs cl s
       | Inl e \<Rightarrow> e = NoReturn \<and> schedule = [] \<and> 0 < active (foldl spec_step (spec_init fs cs) (map (\<lambda>k. nat (scaled k (int (length cs)))) ds))"
  proof (cases "schedule = []")
    case True
    then have "afs_main fuel numclients numsteps numfiles readratio [] schedule draws = run_random (int (length cs) - 1) ds (server_init fs cs) (int (length cs))"
      using q sizes by (simp add: afs_main_def Let_def fs_def)
    then show ?thesis using True random_order_ends[OF new fs(2) i cs(3)] by (auto simp: lucky_def split: sum.splits)
  next
    case False
    then obtain sc where sc: "read_schedule schedule = Inr sc" "schedule_ok (length cs) sc" using sch cs(1) by auto
    have "(\<Sum>x\<leftarrow>cs. length (acts x) + 1) = (\<Sum>x\<leftarrow>cs. 3 * nat numsteps + 1)" using cs(2) by (intro arg_cong[of _ _ sum_list] map_cong) auto
    then have "((\<Sum>x\<leftarrow>cs. length (acts x) + 1) + 1) * length sc \<le> fuel"
      using fuel cs(1) read_schedule_length[OF sc(1)] by (simp add: sum_list_triv)
    then obtain s m where "run_schedule fuel (int (length cs) - 1) sc (server_init fs cs) = Inr s" "ends_as fs cs (picks sc m) s"
      using run_schedule_ends[OF new fs(2) sc(2) i] by blast
    then show ?thesis using False q sizes sc(1) ne by (auto simp: afs_main_def Let_def schedule_checked[OF sc(2)] fs_def)
  qed
  with q show ?thesis unfolding fs_def by blast
qed

text \<open>Two clients: one reads the file and one writes it, one step each in turn.\<close>

lemma sample_clients:
  "given_clients (split_on CHR '','' ''oa1:r1:c1,oa1:w1:c1'') =
     Inr [new_client ((\<lambda>_. [])(1 := ''a'')) [MICRO_OPEN ''a'' 1, MICRO_READ 1, MICRO_CLOSE 1], new_client ((\<lambda>_. [])(1 := ''a'')) [MICRO_OPEN ''a'' 1, MICRO_WRITE 1, MICRO_CLOSE 1]]"
proof -
  have 1: "int_of_string ''1'' = Inr 1" by code_simp
  have 2: "split_on CHR '','' ''oa1:r1:c1,oa1:w1:c1'' = [''oa1:r1:c1'', ''oa1:w1:c1'']" "split_on CHR '':'' ''oa1:r1:c1'' = [''oa1'', ''r1'', ''c1'']"
    "split_on CHR '':'' ''oa1:w1:c1'' = [''oa1'', ''w1'', ''c1'']" by code_simp+
  show ?thesis unfolding 2 by (simp add: given_client_def 2 parse_action_def 1 fd_alloc_at_def fd_get_def fd_max_def)
qed

theorem afs_refines_witness:
  "\<exists>s m. afs_main 100 2 2 1 0 ''oa1:r1:c1,oa1:w1:c1'' ''01'' [] = Inr s
     \<and> ends_as (filelist 1) [new_client ((\<lambda>_. [])(1 := ''a'')) [MICRO_OPEN ''a'' 1, MICRO_READ 1, MICRO_CLOSE 1], new_client ((\<lambda>_. [])(1 := ''a'')) [MICRO_OPEN ''a'' 1, MICRO_WRITE 1, MICRO_CLOSE 1]] (picks [0, 1] m) s"
proof (rule afs_refines)
  have "filelist 1 = [''a'']" by code_simp
  then show "\<forall>x \<in> set [new_client ((\<lambda>_. [])(1 := ''a'')) [MICRO_OPEN ''a'' 1, MICRO_READ 1, MICRO_CLOSE 1], new_client ((\<lambda>_. [])(1 := ''a'')) [MICRO_OPEN ''a'' 1, MICRO_WRITE 1, MICRO_CLOSE 1]].
      sessions_ok (fd x) (set (filelist 1)) {} (acts x)" by (simp add: new_client_def fd_max_def)
  show "read_schedule ''01'' = Inr [0, 1]" by code_simp
qed (rule sample_clients | simp add: schedule_ok_def new_client_def lessThan_Suc numeral_2_eq_2 insert_commute)+

theorem afs_random_witness:
  "\<exists>cs ds. random_clients (filelist 1) (1 / 2) (nat 1) (nat 1) [0, 0, 0, 0, 0, 0] = Inr (cs, ds)
    \<and> (case afs_main 0 1 1 1 (1 / 2) [] [] [0, 0, 0, 0, 0, 0] of
         Inr s \<Rightarrow> \<exists>cl. ends_as (filelist 1) cs cl s
       | Inl e \<Rightarrow> e = NoReturn \<and> ([] :: string) = [] \<and> 0 < active (foldl spec_step (spec_init (filelist 1) cs) (map (\<lambda>k. nat (scaled k (int (length cs)))) ds)))"
  by (rule afs_random) simp_all

text \<open>A program outside the promise: the first client writes a file it has open, the second one writes and closes it in between, and the first opens it again. The
  new copy replaces the written one, so that the value 1 of the first write never reaches the server although the file is closed twice afterwards.\<close>

lemma reopened_write_lost:
  "(case afs_main 100 2 2 1 0 ''oa1:w1:oa2:c1:c2,oa1:w1:c1'' ''0011101000'' [] of
      Inl e \<Rightarrow> False | Inr s \<Rightarrow> events s = [WriteEv 0 1 0 1, WriteEv 1 1 0 2] \<and> contents s ''a'' = Some 2 \<and> putcnt s = 1)"
  by code_simp

text \<open>A descriptor is never freed, so that a program cannot use one twice.\<close>

lemma descriptor_used_once: "given_client ''oa1:r1:c1:oa1:r1:c1'' = Inl SysExit"
proof -
  have 1: "int_of_string ''1'' = Inr 1" by code_simp
  have 2: "split_on CHR '':'' ''oa1:r1:c1:oa1:r1:c1'' = [''oa1'', ''r1'', ''c1'', ''oa1'', ''r1'', ''c1'']" by code_simp
  show ?thesis by (simp add: given_client_def 2 parse_action_def 1 fd_alloc_at_def fd_get_def fd_max_def zassert_def)
qed

end
