(* ===== verification/Fsck.thy ===== *)
theory Fsck
  imports Vsfs_Ops
begin

text \<open>
  The corruption step of \<^verbatim>\<open>ostep/homework/file-journaling/fsck.py\<close>, which takes the file system of \<^verbatim>\<open>vsfs.py\<close> (the classes are the same; blocks and inodes are
  allocated at random places), damages one field of it, and asks what was damaged. The model is what the disk holds: bitmaps, inodes and
  blocks. The lemmas are about a checker that reads nothing else.
\<close>

section \<open>Model\<close>

text \<open>The entries of a directory have Python integers: a damaged one may be \<open>-1\<close>.\<close>

record dblock =
  btype :: ftype
  bentries :: "(string \<times> int) list"

record disk =
  ibits :: bitmap
  dinodes :: "inod list"
  dbits :: bitmap
  ddata :: "dblock list"

definition disk_of :: "fs \<Rightarrow> disk" where
  "disk_of s = \<lparr>ibits = ibitmap s, dinodes = inodes s, dbits = dbitmap s,
     ddata = map (\<lambda>b. \<lparr>btype = ftype b, bentries = map (\<lambda>(n, i). (n, int i)) (dirList b)\<rparr>) (blocks s)\<rparr>"

definition next_random :: "int list \<Rightarrow> (int \<times> int list) res" where
  "next_random draws = (case draws of [] \<Rightarrow> Inl NoReturn | k # ks \<Rightarrow> Inr (k, ks))"

text \<open>The bounds are never negative, so that \<^verbatim>\<open>int\<close> rounds down.\<close>

definition random_randint :: "int \<Rightarrow> int \<Rightarrow> int \<Rightarrow> int" where
  "random_randint k low hi = low + scaled k (hi - low + 1)"

definition random_choice :: "int \<Rightarrow> 'a list \<Rightarrow> 'a res" where
  "random_choice k L = list_get L (random_randint k 0 (int (length L) - 1))"

definition bitmap_corrupt :: "bitmap \<Rightarrow> int \<Rightarrow> bitmap res" where
  "bitmap_corrupt m which =
     asserting (which < int (length (bmap m)) \<and> which \<ge> 0) (Inr (m\<lparr>bmap := (bmap m)[nat which := \<not> bmap m ! nat which]\<rparr>))"

fun findFree_loop :: "bitmap \<Rightarrow> int list \<Rightarrow> (int \<times> int list) res" where
  "findFree_loop m [] = Inl NoReturn"
| "findFree_loop m (k # ks) =
     (let num = random_randint k 0 (int (length (bmap m)) - 1)
      in bnd (list_get (bmap m) num) (\<lambda>b. if \<not> b then Inr (num, ks) else findFree_loop m ks))"

definition findFree :: "bitmap \<Rightarrow> int list \<Rightarrow> (int \<times> int list) res" where
  "findFree m draws = (if numAllocated m = int (length (bmap m)) then Inr (-1, draws) else findFree_loop m draws)"

definition pickRandom :: "ftype \<Rightarrow> disk \<Rightarrow> int list \<Rightarrow> (nat \<times> int list) res" where
  "pickRandom match d draws =
     (let is = filter (\<lambda>i. itype (dinodes d ! i) = match) [0..<length (dinodes d)]
      in asserting (is \<noteq> []) (bnd (next_random draws) (\<lambda>(k, ks). bnd (random_choice k is) (\<lambda>i. Inr (i, ks)))))"

definition findFreeData :: "disk \<Rightarrow> int list \<Rightarrow> (nat \<times> int list) res" where
  "findFreeData d draws =
     (let bs = filter (\<lambda>b. btype (ddata d ! b) = FREE) [0..<length (ddata d)]
      in asserting (bs \<noteq> []) (bnd (next_random draws) (\<lambda>(k, ks). bnd (random_choice k bs) (\<lambda>b. Inr (b, ks)))))"

text \<open>Changes to one inode, and to one entry of a directory; \<open>b[-1]\<close> is the last element, as in the language.\<close>

definition change_inode :: "nat \<Rightarrow> (inod \<Rightarrow> inod) \<Rightarrow> disk \<Rightarrow> disk res" where
  "change_inode i g d = bnd (list_get (dinodes d) (int i)) (\<lambda>n. Inr (d\<lparr>dinodes := (dinodes d)[i := g n]\<rparr>))"

definition setDirEntry :: "int \<Rightarrow> int \<Rightarrow> string \<times> int \<Rightarrow> disk \<Rightarrow> disk res" where
  "setDirEntry addr index e d =
     bnd (list_get (ddata d) addr) (\<lambda>b. bnd (list_put (bentries b) index e) (\<lambda>es.
     bnd (list_put (ddata d) addr (b\<lparr>bentries := es\<rparr>)) (\<lambda>bs. Inr (d\<lparr>ddata := bs\<rparr>))))"

definition ascii_lowercase :: string where
  "ascii_lowercase = ''abcdefghijklmnopqrstuvwxyz''"

text \<open>A random entry of a random directory: the address of the block, the index, and the entry.\<close>

definition pickEntry :: "disk \<Rightarrow> int list \<Rightarrow> ((int \<times> int \<times> string \<times> int) \<times> int list) res" where
  "pickEntry d draws =
     bnd (pickRandom DIR d draws) (\<lambda>(badInode, ds).
     let addr = iaddr (dinodes d ! badInode)
     in bnd (list_get (ddata d) addr) (\<lambda>b.
        bnd (next_random ds) (\<lambda>(k, ds).
        let badIndex = random_randint k 0 (int (length (bentries b)) - 1)
        in bnd (list_get (bentries b) badIndex) (\<lambda>badEntry. Inr ((addr, badIndex, badEntry), ds)))))"

definition corrupt_kind :: "int \<Rightarrow> int \<Rightarrow> int" where
  "corrupt_kind whichCorrupt k = (if whichCorrupt \<noteq> -1 then whichCorrupt else random_randint k 0 11)"

definition corrupt :: "int \<Rightarrow> int list \<Rightarrow> disk \<Rightarrow> disk res" where
  "corrupt whichCorrupt draws d =
     bnd (next_random draws) (\<lambda>(k, ds).
     let num = corrupt_kind whichCorrupt k
     in if num = 0 then bnd (next_random ds) (\<lambda>(k, ds).
          bnd (bitmap_corrupt (dbits d) (random_randint k 0 (int (length (ddata d)) - 1))) (\<lambda>m. Inr (d\<lparr>dbits := m\<rparr>)))
        else if num = 1 then bnd (next_random ds) (\<lambda>(k, ds).
          bnd (bitmap_corrupt (ibits d) (random_randint k 0 (int (length (dinodes d)) - 1))) (\<lambda>m. Inr (d\<lparr>ibits := m\<rparr>)))
        else if num = 2 \<or> num = 8 then bnd (pickRandom (if num = 2 then FIL else DIR) d ds) (\<lambda>(badInode, ds).
          bnd (next_random ds) (\<lambda>(k, ds).
          change_inode badInode (\<lambda>n. n\<lparr>refCnt := if random_randint k 0 1 = 0 then refCnt n + 1 else refCnt n - 1\<rparr>) d))
        else if num = 3 \<or> num = 9 then bnd (pickRandom FREE d ds) (\<lambda>(badInode, ds).
          change_inode badInode (\<lambda>_. if num = 3 then setAll FIL (-1) 1 else setAll DIR (-1) 1) d)
        else if num = 4 \<or> num = 10 then bnd (pickRandom (if num = 4 then FIL else DIR) d ds) (\<lambda>(badInode, ds).
          bnd (findFreeData d ds) (\<lambda>(badData, ds). change_inode badInode (\<lambda>n. n\<lparr>iaddr := int badData\<rparr>) d))
        else if num = 5 \<or> num = 11 then bnd (pickRandom (if num = 5 then FIL else DIR) d ds) (\<lambda>(badInode, ds).
          change_inode badInode (\<lambda>n. n\<lparr>itype := if num = 5 then DIR else FIL\<rparr>) d)
        else if num = 6 then bnd (pickEntry d ds) (\<lambda>((addr, badIndex, badEntry), ds).
          bnd (findFree (ibits d) ds) (\<lambda>(badInodeNum, ds). setDirEntry addr badIndex (fst badEntry, badInodeNum) d))
        else if num = 7 then bnd (pickEntry d ds) (\<lambda>((addr, badIndex, badEntry), ds).
          bnd (next_random ds) (\<lambda>(k, ds). bnd (random_choice k ascii_lowercase) (\<lambda>badName. setDirEntry addr badIndex ([badName], snd badEntry) d)))
        else Inl SysExit)"

section \<open>A checker\<close>

text \<open>The bitmaps name the inodes and blocks in use; blocks have one owner of their type; names in a directory differ; entries
  name inodes in use, as often as their counts say.\<close>

definition named :: "dblock list \<Rightarrow> nat \<Rightarrow> nat" where
  "named bs i = length (filter (\<lambda>e. snd e = int i) (concat (map bentries bs)))"

definition disk_refs :: "inod list \<Rightarrow> dblock list \<Rightarrow> bool" where
  "disk_refs ns bs \<longleftrightarrow> (\<forall>e \<in> set (concat (map bentries bs)). 0 \<le> snd e \<and> snd e < int (length ns))
     \<and> (\<forall>i < length ns. if itype (ns ! i) = FREE then named bs i = 0 else refCnt (ns ! i) = int (named bs i))"

definition disk_ok :: "disk \<Rightarrow> bool" where
  "disk_ok d \<longleftrightarrow>
     bmap (ibits d) = map (\<lambda>n. itype n \<noteq> FREE) (dinodes d) \<and> bmap (dbits d) = map (\<lambda>b. btype b \<noteq> FREE) (ddata d)
     \<and> owns (map itype (dinodes d)) (map iaddr (dinodes d)) (map btype (ddata d))
     \<and> (\<forall>b \<in> set (ddata d). distinct (map fst (bentries b))) \<and> disk_refs (dinodes d) (ddata d)"

text \<open>It accepts every consistent file system.\<close>

abbreviation on_disk :: "blk \<Rightarrow> dblock" where
  "on_disk b \<equiv> \<lparr>btype = ftype b, bentries = map (\<lambda>(n, i). (n, int i)) (dirList b)\<rparr>"

lemma named_refs: "named (map on_disk bs) i = refs bs i"
proof -
  have "length (filter (\<lambda>e. snd e = int i) (map (\<lambda>(n, i). (n, int i)) es)) = length (filter (\<lambda>e. snd e = i) es)" for es :: "(string \<times> nat) list"
    by (induction es) auto
  then have "named (map on_disk bs) i = length (filter (\<lambda>e. snd e = i) (concat (map dirList bs)))"
    unfolding named_def by (induction bs) simp_all
  then show ?thesis by (simp add: refs_def entries_def flip: mset_filter)
qed

lemma consistent_accepted:
  assumes ok: "fs_ok s" shows "disk_ok (disk_of s)"
proof -
  have "distinct (map fst (map (\<lambda>(n, i). (n, int i)) (dirList b)))" if "b \<in> set (blocks s)" for b
  proof -
    have "block_ok b" using ok that by (simp add: fs_ok_def)
    then have "distinct (map fst (dirList b))" by (auto simp: block_ok_def split: if_splits)
    moreover have "map fst (map (\<lambda>(n, i). (n, int i)) (dirList b)) = map fst (dirList b)" by auto
    ultimately show ?thesis by metis
  qed
  moreover have "disk_refs (inodes s) (map on_disk (blocks s))"
    using ok by (fastforce simp: fs_ok_def disk_refs_def refs_ok_def named_refs entries_def)
  ultimately show ?thesis using ok by (simp add: disk_ok_def disk_of_def fs_ok_def bits_ok_def addr_ok_def comp_def)
qed

section \<open>What the corruptions do\<close>

lemma disk_okD:
  assumes "disk_ok d"
  shows "bmap (ibits d) = map (\<lambda>n. itype n \<noteq> FREE) (dinodes d)" "bmap (dbits d) = map (\<lambda>b. btype b \<noteq> FREE) (ddata d)"
    "addr_ok (dinodes d) (map (\<lambda>b. \<lparr>ftype = btype b, dirUsed = 0, dirList = [], fdata = []\<rparr>) (ddata d))"
    "\<forall>b \<in> set (ddata d). distinct (map fst (bentries b))" "disk_refs (dinodes d) (ddata d)"
  using assms by (simp_all add: disk_ok_def addr_ok_def comp_def)

text \<open>A number drawn for a bound is an index.\<close>

lemma randint_index:
  assumes "drawn k" "0 < n"
  shows "0 \<le> random_randint k 0 (int n - 1)" "random_randint k 0 (int n - 1) < int n"
  using scaled_range[of k "int n"] assms by (simp_all add: random_randint_def)

lemma choice_in:
  assumes "drawn k" "L \<noteq> []"
  shows "\<exists>x \<in> set L. random_choice k L = Inr x"
proof -
  note r = randint_index[OF assms(1), of "length L"]
  have "random_choice k L = Inr (L ! nat (random_randint k 0 (int (length L) - 1)))"
    using r assms(2) by (simp add: random_choice_def)
  moreover have "L ! nat (random_randint k 0 (int (length L) - 1)) \<in> set L" using r assms(2) by (intro nth_mem) auto
  ultimately show ?thesis by blast
qed

definition no_inode :: "ftype \<Rightarrow> disk \<Rightarrow> bool" where
  "no_inode t d \<longleftrightarrow> (\<forall>n \<in> set (dinodes d). itype n \<noteq> t)"

definition no_block :: "disk \<Rightarrow> bool" where
  "no_block d \<longleftrightarrow> (\<forall>b \<in> set (ddata d). btype b \<noteq> FREE)"

text \<open>The two ways a search for a victim ends, for a list of the indices of \<open>xs\<close> with a property.\<close>

lemma choose_index:
  assumes "drawn k" and js: "js = filter (\<lambda>i. P (xs ! i)) [0..<length xs]"
  shows "(\<forall>x \<in> set xs. \<not> P x) \<and> js = [] \<or> (\<exists>i < length xs. P (xs ! i) \<and> js \<noteq> [] \<and> random_choice k js = Inr i)"
proof (cases "js = []")
  case True
  then show ?thesis unfolding js by (auto simp: filter_empty_conv in_set_conv_nth)
next
  case False
  then show ?thesis using choice_in[OF assms(1) False] unfolding js by auto
qed

lemma pickRandom_ends:
  assumes "drawn k"
  shows "no_inode t d \<and> pickRandom t d (k # ks) = Inl AssertionError \<or> (\<exists>i < length (dinodes d). itype (dinodes d ! i) = t \<and> pickRandom t d (k # ks) = Inr (i, ks))"
  using choose_index[OF assms refl, of "dinodes d" "\<lambda>n. itype n = t"]
  by (auto simp: pickRandom_def Let_def no_inode_def asserting_def next_random_def)

lemma findFreeData_ends:
  assumes "drawn k"
  shows "no_block d \<and> findFreeData d (k # ks) = Inl AssertionError \<or> (\<exists>b < length (ddata d). btype (ddata d ! b) = FREE \<and> findFreeData d (k # ks) = Inr (b, ks))"
  using choose_index[OF assms refl, of "ddata d" "\<lambda>b. btype b = FREE"]
  by (auto simp: findFreeData_def Let_def no_block_def asserting_def next_random_def)

lemma change_inode_in: "i < length (dinodes d) \<Longrightarrow> change_inode i g d = Inr (d\<lparr>dinodes := (dinodes d)[i := g (dinodes d ! i)]\<rparr>)"
  by (simp add: change_inode_def)

text \<open>A flipped bit disagrees with the table.\<close>

lemma flipped_bit:
  assumes "drawn k" "0 < length (bmap m)" "n = length (bmap m)"
  shows "\<exists>m'. bitmap_corrupt m (random_randint k 0 (int n - 1)) = Inr m' \<and> bmap m' \<noteq> bmap m"
proof -
  define j where "j = nat (random_randint k 0 (int n - 1))"
  have j: "j < length (bmap m)" "0 \<le> random_randint k 0 (int n - 1)" "random_randint k 0 (int n - 1) < int (length (bmap m))"
    using randint_index[OF assms(1), of n] assms(2,3) by (auto simp: j_def)
  have "(bmap m)[j := \<not> bmap m ! j] ! j \<noteq> bmap m ! j" using j(1) by simp
  then have "(bmap m)[j := \<not> bmap m ! j] \<noteq> bmap m" by metis
  then show ?thesis using j by (auto simp: bitmap_corrupt_def j_def)
qed

text \<open>A wrong count, a wrong type and a wrong address are seen at the inode itself.\<close>

lemma wrong_count:
  assumes "disk_ok d" "i < length (dinodes d)" "itype (dinodes d ! i) \<noteq> FREE" "r \<noteq> refCnt (dinodes d ! i)"
  shows "\<not> disk_ok (d\<lparr>dinodes := (dinodes d)[i := (dinodes d ! i)\<lparr>refCnt := r\<rparr>]\<rparr>)"
proof
  assume "disk_ok (d\<lparr>dinodes := (dinodes d)[i := (dinodes d ! i)\<lparr>refCnt := r\<rparr>]\<rparr>)"
  then have "disk_refs ((dinodes d)[i := (dinodes d ! i)\<lparr>refCnt := r\<rparr>]) (ddata d)" by (simp add: disk_ok_def)
  then have "r = int (named (ddata d) i)" using assms(2,3) by (auto simp: disk_refs_def dest: spec[of _ i])
  moreover have "refCnt (dinodes d ! i) = int (named (ddata d) i)" using disk_okD(5)[OF assms(1)] assms(2,3) by (simp add: disk_refs_def)
  ultimately show False using assms(4) by simp
qed

lemma wrong_use:
  assumes "disk_ok d" "i < length (dinodes d)" "itype (dinodes d ! i) = FREE" "itype n \<noteq> FREE"
  shows "\<not> disk_ok (d\<lparr>dinodes := (dinodes d)[i := n]\<rparr>)"
proof
  assume "disk_ok (d\<lparr>dinodes := (dinodes d)[i := n]\<rparr>)"
  then have "bmap (ibits d) = map (\<lambda>n. itype n \<noteq> FREE) ((dinodes d)[i := n])" by (simp add: disk_ok_def)
  then have "bmap (ibits d) ! i" using assms(2,4) by simp
  then show False using disk_okD(1)[OF assms(1)] assms(2,3) by simp
qed

lemma wrong_owner:
  assumes "i < length (dinodes d)" "iaddr n \<noteq> -1 \<or> itype n = DIR" "\<And>b. b < length (ddata d) \<Longrightarrow> iaddr n = int b \<Longrightarrow> btype (ddata d ! b) \<noteq> itype n"
  shows "\<not> disk_ok (d\<lparr>dinodes := (dinodes d)[i := n]\<rparr>)"
proof
  assume "disk_ok (d\<lparr>dinodes := (dinodes d)[i := n]\<rparr>)"
  from disk_okD(3)[OF this] assms(1,2)
  have "\<exists>b < length (ddata d). iaddr n = int b \<and> btype (ddata d ! b) = itype n"
    using addr_okD(2)[of "(dinodes d)[i := n]" "map (\<lambda>b. \<lparr>ftype = btype b, dirUsed = 0, dirList = [], fdata = []\<rparr>) (ddata d)" i] by auto
  then show False using assms(3) by blast
qed

lemma wrong_type:
  assumes ok: "disk_ok d" and i: "i < length (dinodes d)" "itype (dinodes d ! i) \<noteq> FREE" "t \<noteq> itype (dinodes d ! i)" and t: "t = DIR \<or> itype (dinodes d ! i) = DIR"
  shows "\<not> disk_ok (d\<lparr>dinodes := (dinodes d)[i := (dinodes d ! i)\<lparr>itype := t\<rparr>]\<rparr>)"
proof (rule wrong_owner[OF i(1)])
  note o = addr_okD(2)[OF disk_okD(3)[OF ok] i(1)]
  show "iaddr ((dinodes d ! i)\<lparr>itype := t\<rparr>) \<noteq> -1 \<or> itype ((dinodes d ! i)\<lparr>itype := t\<rparr>) = DIR" using o t by auto
  show "btype (ddata d ! b) \<noteq> itype ((dinodes d ! i)\<lparr>itype := t\<rparr>)" if "b < length (ddata d)" "iaddr ((dinodes d ! i)\<lparr>itype := t\<rparr>) = int b" for b
    using o i(3) that by auto
qed

text \<open>Directory entries.\<close>

lemma pickEntry_ends:
  assumes ok: "disk_ok d" and ne: "\<forall>b \<in> set (ddata d). btype b = DIR \<longrightarrow> bentries b \<noteq> []" and k: "drawn k" "drawn l"
  shows "no_inode DIR d \<and> pickEntry d (k # l # ks) = Inl AssertionError
    \<or> (\<exists>a < length (ddata d). \<exists>j < length (bentries (ddata d ! a)). btype (ddata d ! a) = DIR \<and> pickEntry d (k # l # ks) = Inr ((int a, int j, bentries (ddata d ! a) ! j), ks))"
proof (cases "pickRandom DIR d (k # l # ks)")
  case (Inl e)
  then show ?thesis using pickRandom_ends[OF k(1), of DIR d "l # ks"] by (auto simp: pickEntry_def)
next
  case (Inr q)
  then obtain i where i: "i < length (dinodes d)" "itype (dinodes d ! i) = DIR" "pickRandom DIR d (k # l # ks) = Inr (i, l # ks)"
    using pickRandom_ends[OF k(1), of DIR d "l # ks"] by auto
  obtain a where a: "a < length (ddata d)" "iaddr (dinodes d ! i) = int a" "btype (ddata d ! a) = DIR"
    using addr_okD(2)[OF disk_okD(3)[OF ok] i(1)] i(2) by auto
  then have "0 < length (bentries (ddata d ! a))" using ne by simp
  note r = randint_index[OF k(2) this]
  define j where "j = nat (random_randint l 0 (int (length (bentries (ddata d ! a))) - 1))"
  have j: "j < length (bentries (ddata d ! a))" "random_randint l 0 (int (length (bentries (ddata d ! a))) - 1) = int j" using r by (auto simp: j_def)
  have "pickEntry d (k # l # ks) = Inr ((int a, int j, bentries (ddata d ! a) ! j), ks)"
    using i(3) a j by (simp add: pickEntry_def Let_def next_random_def)
  with a j show ?thesis by blast
qed

lemma setDirEntry_in:
  assumes "a < length (ddata d)" "j < length (bentries (ddata d ! a))"
  shows "setDirEntry (int a) (int j) e d = Inr (d\<lparr>ddata := (ddata d)[a := (ddata d ! a)\<lparr>bentries := (bentries (ddata d ! a))[j := e]\<rparr>]\<rparr>)"
  using assms by (simp add: setDirEntry_def)

lemma findFree_ends:
  assumes "\<forall>k \<in> set ks. drawn k" "0 < length (bmap m)"
  shows "(case findFree m ks of Inr (v, _) \<Rightarrow> v = -1 \<or> (\<exists>i < length (bmap m). v = int i \<and> \<not> bmap m ! i)
    | Inl e \<Rightarrow> e = NoReturn \<and> (\<forall>k \<in> set ks. bmap m ! nat (random_randint k 0 (int (length (bmap m)) - 1))))"
proof -
  have "(case findFree_loop m ks of Inr (v, _) \<Rightarrow> (\<exists>i < length (bmap m). v = int i \<and> \<not> bmap m ! i)
    | Inl e \<Rightarrow> e = NoReturn \<and> (\<forall>k \<in> set ks. bmap m ! nat (random_randint k 0 (int (length (bmap m)) - 1))))"
    using assms(1)
  proof (induction ks)
    case (Cons k ks)
    define n where "n = random_randint k 0 (int (length (bmap m)) - 1)"
    have n: "0 \<le> n" "n < int (length (bmap m))" using randint_index[OF _ assms(2), of k] Cons.prems by (auto simp: n_def)
    show ?case
    proof (cases "bmap m ! nat n")
      case True
      then have "findFree_loop m (k # ks) = findFree_loop m ks" using n by (simp add: n_def[symmetric] Let_def)
      with Cons True show ?thesis by (auto simp: n_def split: sum.splits)
    next
      case False
      then have "findFree_loop m (k # ks) = Inr (n, ks)" using n by (simp add: n_def[symmetric] Let_def)
      with n False show ?thesis by (auto intro!: exI[of _ "nat n"])
    qed
  qed simp
  then show ?thesis by (auto simp: findFree_def split: sum.splits)
qed

lemma disk_refs_snd:
  "disk_refs ns bs \<longleftrightarrow> (\<forall>v \<in> set (map snd (concat (map bentries bs))). 0 \<le> v \<and> v < int (length ns))
     \<and> (\<forall>i < length ns. if itype (ns ! i) = FREE then int i \<notin> set (map snd (concat (map bentries bs)))
          else refCnt (ns ! i) = int (count_list (map snd (concat (map bentries bs))) (int i)))"
proof -
  have n: "length (filter (\<lambda>e. snd e = v) es) = count_list (map snd es) v" for es :: "(string \<times> int) list" and v
    by (induction es) auto
  show ?thesis unfolding disk_refs_def named_def n by (simp add: count_list_0_iff)
qed

lemma wrong_entry:
  assumes ok: "disk_ok d" and a: "a < length (ddata d)" "j < length (bentries (ddata d ! a))"
    and v: "v = -1 \<or> (\<exists>i < length (bmap (ibits d)). v = int i \<and> \<not> bmap (ibits d) ! i)"
  shows "\<not> disk_ok (d\<lparr>ddata := (ddata d)[a := (ddata d ! a)\<lparr>bentries := (bentries (ddata d ! a))[j := (n, v)]\<rparr>]\<rparr>)"
proof
  let ?bs = "(ddata d)[a := (ddata d ! a)\<lparr>bentries := (bentries (ddata d ! a))[j := (n, v)]\<rparr>]"
  assume "disk_ok (d\<lparr>ddata := ?bs\<rparr>)"
  then have r: "disk_refs (dinodes d) ?bs" by (simp add: disk_ok_def)
  have "(n, v) \<in> set (bentries (?bs ! a))" using a by (simp add: set_update_memI)
  moreover have "?bs ! a \<in> set ?bs" using a by (intro nth_mem) simp
  ultimately have vin: "v \<in> set (map snd (concat (map bentries ?bs)))" by force
  have "v \<noteq> -1" using r vin unfolding disk_refs_snd by fastforce
  with v obtain i where i: "i < length (dinodes d)" "v = int i" "itype (dinodes d ! i) = FREE" using disk_okD(1)[OF ok] by auto
  then show False using r vin unfolding disk_refs_snd by metis
qed

lemma distinct_update_iff:
  assumes "distinct xs" "j < length xs"
  shows "distinct (xs[j := y]) \<longleftrightarrow> y \<notin> set (remove_nth j xs)"
proof -
  have "distinct (take j xs @ xs ! j # drop (Suc j) xs)" using assms by (simp add: id_take_nth_drop[symmetric])
  then show ?thesis using assms(2) by (auto simp: upd_conv_take_nth_drop remove_nth_def)
qed

text \<open>A renamed entry leaves everything else as it was.\<close>

lemma renamed_entry:
  assumes ok: "disk_ok d" and a: "a < length (ddata d)" "j < length (bentries (ddata d ! a))"
  shows "disk_ok (d\<lparr>ddata := (ddata d)[a := (ddata d ! a)\<lparr>bentries := (bentries (ddata d ! a))[j := (n, snd (bentries (ddata d ! a) ! j))]\<rparr>]\<rparr>)
    \<longleftrightarrow> n \<notin> fst ` set (remove_nth j (bentries (ddata d ! a)))"
proof -
  define es where "es = bentries (ddata d ! a)"
  define b where "b = (ddata d ! a)\<lparr>bentries := es[j := (n, snd (es ! j))]\<rparr>"
  define bs where "bs = (ddata d)[a := b]"
  have t: "map btype bs = map btype (ddata d)" "map (\<lambda>b. btype b \<noteq> FREE) bs = map (\<lambda>b. btype b \<noteq> FREE) (ddata d)"
    unfolding bs_def using a by (auto intro!: map_update_same simp: b_def)
  have "map snd (es[j := (n, snd (es ! j))]) = map snd es" using a by (intro map_update_same) (simp_all add: es_def)
  then have "map (\<lambda>b. map snd (bentries b)) bs = map (\<lambda>b. map snd (bentries b)) (ddata d)"
    unfolding bs_def using a by (intro map_update_same) (simp_all add: b_def es_def)
  then have "map snd (concat (map bentries bs)) = map snd (concat (map bentries (ddata d)))" by (simp add: map_concat comp_def)
  then have r: "disk_refs (dinodes d) bs" using disk_okD(5)[OF ok] unfolding disk_refs_snd by metis
  have es: "distinct (map fst es)" using disk_okD(4)[OF ok] a by (simp add: es_def)
  have "(\<forall>b' \<in> set bs. distinct (map fst (bentries b'))) \<longleftrightarrow> distinct (map fst (bentries b))"
    using disk_okD(4)[OF ok] a set_update_memI[OF a(1)] set_update_subset_insert[of "ddata d" a b] unfolding bs_def by auto
  also have "\<dots> \<longleftrightarrow> n \<notin> set (remove_nth j (map fst es))"
    using distinct_update_iff[OF es, of j n] a by (simp add: b_def es_def map_update)
  also have "set (remove_nth j (map fst es)) = fst ` set (remove_nth j es)" by (auto simp: remove_nth_def take_map drop_map)
  finally have "disk_ok (d\<lparr>ddata := bs\<rparr>) \<longleftrightarrow> n \<notin> fst ` set (remove_nth j es)"
    using disk_okD(1,2)[OF ok] ok t r by (simp add: disk_ok_def)
  then show ?thesis unfolding bs_def b_def es_def .
qed

section \<open>Every kind of corruption\<close>

text \<open>The kinds that find no victim.\<close>

definition lacking :: "int \<Rightarrow> disk \<Rightarrow> bool" where
  "lacking num d \<longleftrightarrow> num \<in> {2, 4, 5} \<and> no_inode FIL d \<or> num \<in> {6, 7, 8, 10, 11} \<and> no_inode DIR d \<or> num \<in> {3, 9} \<and> no_inode FREE d \<or> num \<in> {4, 10} \<and> no_block d"

text \<open>How a corruption of kind \<open>num\<close> ends: it is seen, or it renames an entry and is seen only if the new name is taken; or there is no victim; or no free inode
  is hit by the random numbers.\<close>

definition renames :: "disk \<Rightarrow> disk \<Rightarrow> bool" where
  "renames d d' \<longleftrightarrow> (\<exists>a < length (ddata d). \<exists>j < length (bentries (ddata d ! a)). \<exists>n.
     d' = d\<lparr>ddata := (ddata d)[a := (ddata d ! a)\<lparr>bentries := (bentries (ddata d ! a))[j := (n, snd (bentries (ddata d ! a) ! j))]\<rparr>]\<rparr>
     \<and> (disk_ok d' \<longleftrightarrow> n \<notin> fst ` set (remove_nth j (bentries (ddata d ! a)))))"

definition corruption_seen :: "int \<Rightarrow> int list \<Rightarrow> disk \<Rightarrow> disk res \<Rightarrow> bool" where
  "corruption_seen num ks d m \<longleftrightarrow>
     (case m of
        Inl e \<Rightarrow> e = AssertionError \<and> lacking num d
          \<or> e = NoReturn \<and> num = 6 \<and> (\<forall>k \<in> set ks. bmap (ibits d) ! nat (random_randint k 0 (int (length (bmap (ibits d))) - 1)))
      | Inr d' \<Rightarrow> if num = 7 then renames d d' else \<not> disk_ok d')"

lemma seen_lacking: "lacking num d \<Longrightarrow> corruption_seen num us d (Inl AssertionError)"
  by (simp add: corruption_seen_def)

lemma seen_inode:
  assumes k: "drawn k" and m: "m = bnd (pickRandom t d (k # ks)) (\<lambda>(i, ds). f i ds)" and l: "no_inode t d \<Longrightarrow> lacking num d"
    and f: "\<And>i. i < length (dinodes d) \<Longrightarrow> itype (dinodes d ! i) = t \<Longrightarrow> corruption_seen num us d (f i ks)"
  shows "corruption_seen num us d m"
  using pickRandom_ends[OF k, of t d ks] f l unfolding m by (auto intro: seen_lacking)

lemma seen_changed:
  assumes "num \<noteq> 7" "i < length (dinodes d)" "\<not> disk_ok (d\<lparr>dinodes := (dinodes d)[i := g (dinodes d ! i)]\<rparr>)"
  shows "corruption_seen num us d (change_inode i g d)"
  using assms by (simp add: change_inode_in corruption_seen_def)

lemma seen_entry:
  assumes ok: "disk_ok d" and ne: "\<forall>b \<in> set (ddata d). btype b = DIR \<longrightarrow> bentries b \<noteq> []" and k: "drawn k" "drawn l"
    and m: "m = bnd (pickEntry d (k # l # ks)) (\<lambda>((a, j, e), ds). f a j e ds)" and num: "num = 6 \<or> num = 7"
    and f: "\<And>a j. a < length (ddata d) \<Longrightarrow> j < length (bentries (ddata d ! a)) \<Longrightarrow> corruption_seen num us d (f (int a) (int j) (bentries (ddata d ! a) ! j) ks)"
  shows "corruption_seen num us d m"
  using pickEntry_ends[OF ok ne k, of ks] f num unfolding m by (auto intro!: seen_lacking simp: lacking_def)

lemma seen_data_bit:
  assumes ok: "disk_ok d" and k: "drawn k2" "drawn k3" "\<forall>k \<in> set (k4 # ks). drawn k" and num: "num = corrupt_kind which k1" and n: "num = 0"
    and len: "0 < length (dinodes d)" "0 < length (ddata d)"
  shows "corruption_seen num (k4 # ks) d (corrupt which (k1 # k2 # k3 # k4 # ks) d)"
proof -
  note c = corrupt_def[of which "k1 # k2 # k3 # k4 # ks" d] next_random_def num[symmetric]
  have bl: "length (bmap (ibits d)) = length (dinodes d)" "length (bmap (dbits d)) = length (ddata d)" using disk_okD(1,2)[OF ok] by simp_all
  obtain m where "bitmap_corrupt (dbits d) (random_randint k2 0 (int (length (ddata d)) - 1)) = Inr m" "bmap m \<noteq> bmap (dbits d)"
    using flipped_bit[OF k(1), of "dbits d"] len(2) bl(2) by auto
  then show ?thesis using n disk_okD(2)[OF ok] by (simp add: c corruption_seen_def disk_ok_def)
qed

lemma seen_inode_bit:
  assumes ok: "disk_ok d" and k: "drawn k2" "drawn k3" "\<forall>k \<in> set (k4 # ks). drawn k" and num: "num = corrupt_kind which k1" and n: "num = 1"
    and len: "0 < length (dinodes d)" "0 < length (ddata d)"
  shows "corruption_seen num (k4 # ks) d (corrupt which (k1 # k2 # k3 # k4 # ks) d)"
proof -
  note c = corrupt_def[of which "k1 # k2 # k3 # k4 # ks" d] next_random_def num[symmetric]
  have bl: "length (bmap (ibits d)) = length (dinodes d)" "length (bmap (dbits d)) = length (ddata d)" using disk_okD(1,2)[OF ok] by simp_all
  obtain m where "bitmap_corrupt (ibits d) (random_randint k2 0 (int (length (dinodes d)) - 1)) = Inr m" "bmap m \<noteq> bmap (ibits d)"
    using flipped_bit[OF k(1), of "ibits d"] len(1) bl(1) by auto
  then show ?thesis using n disk_okD(1)[OF ok] by (simp add: c corruption_seen_def disk_ok_def)
qed

lemma seen_count:
  assumes ok: "disk_ok d" and k: "drawn k2" "drawn k3" "\<forall>k \<in> set (k4 # ks). drawn k" and num: "num = corrupt_kind which k1" and n: "num = 2 \<or> num = 8"
  shows "corruption_seen num (k4 # ks) d (corrupt which (k1 # k2 # k3 # k4 # ks) d)"
proof -
  note c = corrupt_def[of which "k1 # k2 # k3 # k4 # ks" d] next_random_def num[symmetric]
  show ?thesis
  proof (rule seen_inode[OF k(1), where t = "if num = 2 then FIL else DIR"])
    show "corrupt which (k1 # k2 # k3 # k4 # ks) d = bnd (pickRandom (if num = 2 then FIL else DIR) d (k2 # k3 # k4 # ks)) (\<lambda>(i, ds). bnd (next_random ds) (\<lambda>(k, ds).
        change_inode i (\<lambda>n. n\<lparr>refCnt := if random_randint k 0 1 = 0 then refCnt n + 1 else refCnt n - 1\<rparr>) d))" using n by (auto simp: c)
    fix i assume i: "i < length (dinodes d)" "itype (dinodes d ! i) = (if num = 2 then FIL else DIR)"
    have "\<not> disk_ok (d\<lparr>dinodes := (dinodes d)[i := (dinodes d ! i)\<lparr>refCnt := if random_randint k3 0 1 = 0 then refCnt (dinodes d ! i) + 1 else refCnt (dinodes d ! i) - 1\<rparr>]\<rparr>)"
      using i by (intro wrong_count[OF ok]) simp_all
    then show "corruption_seen num (k4 # ks) d (bnd (next_random (k3 # k4 # ks)) (\<lambda>(k, ds).
        change_inode i (\<lambda>n. n\<lparr>refCnt := if random_randint k 0 1 = 0 then refCnt n + 1 else refCnt n - 1\<rparr>) d))"
      unfolding next_random_def using n i(1) by (auto intro!: seen_changed)
  qed (use n in \<open>auto simp: lacking_def\<close>)
qed

lemma seen_orphan:
  assumes ok: "disk_ok d" and k: "drawn k2" "drawn k3" "\<forall>k \<in> set (k4 # ks). drawn k" and num: "num = corrupt_kind which k1" and n: "num = 3 \<or> num = 9"
  shows "corruption_seen num (k4 # ks) d (corrupt which (k1 # k2 # k3 # k4 # ks) d)"
proof -
  note c = corrupt_def[of which "k1 # k2 # k3 # k4 # ks" d] next_random_def num[symmetric]
  show ?thesis
  proof (rule seen_inode[OF k(1), where t = FREE])
    show "corrupt which (k1 # k2 # k3 # k4 # ks) d = bnd (pickRandom FREE d (k2 # k3 # k4 # ks)) (\<lambda>(i, ds). change_inode i (\<lambda>_. if num = 3 then setAll FIL (-1) 1 else setAll DIR (-1) 1) d)"
      using n by (auto simp: c)
    fix i assume i: "i < length (dinodes d)" "itype (dinodes d ! i) = FREE"
    have "\<not> disk_ok (d\<lparr>dinodes := (dinodes d)[i := if num = 3 then setAll FIL (-1) 1 else setAll DIR (-1) 1]\<rparr>)"
      using i by (intro wrong_use[OF ok]) (simp_all add: setAll_def)
    then show "corruption_seen num (k4 # ks) d (change_inode i (\<lambda>_. if num = 3 then setAll FIL (-1) 1 else setAll DIR (-1) 1) d)"
      using n i(1) by (intro seen_changed) auto
  qed (use n in \<open>auto simp: lacking_def\<close>)
qed

lemma seen_address:
  assumes ok: "disk_ok d" and k: "drawn k2" "drawn k3" "\<forall>k \<in> set (k4 # ks). drawn k" and num: "num = corrupt_kind which k1" and n: "num = 4 \<or> num = 10"
  shows "corruption_seen num (k4 # ks) d (corrupt which (k1 # k2 # k3 # k4 # ks) d)"
proof -
  note c = corrupt_def[of which "k1 # k2 # k3 # k4 # ks" d] next_random_def num[symmetric]
  show ?thesis
  proof (rule seen_inode[OF k(1), where t = "if num = 4 then FIL else DIR"])
    show "corrupt which (k1 # k2 # k3 # k4 # ks) d = bnd (pickRandom (if num = 4 then FIL else DIR) d (k2 # k3 # k4 # ks)) (\<lambda>(i, ds). bnd (findFreeData d ds) (\<lambda>(b, ds). change_inode i (\<lambda>n. n\<lparr>iaddr := int b\<rparr>) d))"
      using n by (auto simp: c)
    fix i assume i: "i < length (dinodes d)" "itype (dinodes d ! i) = (if num = 4 then FIL else DIR)"
    from findFreeData_ends[OF k(2), of d "k4 # ks"] show "corruption_seen num (k4 # ks) d (bnd (findFreeData d (k3 # k4 # ks)) (\<lambda>(b, ds). change_inode i (\<lambda>n. n\<lparr>iaddr := int b\<rparr>) d))"
    proof (elim disjE exE conjE)
      fix b assume b: "b < length (ddata d)" "btype (ddata d ! b) = FREE" "findFreeData d (k3 # k4 # ks) = Inr (b, k4 # ks)"
      have "\<not> disk_ok (d\<lparr>dinodes := (dinodes d)[i := (dinodes d ! i)\<lparr>iaddr := int b\<rparr>]\<rparr>)" using b i by (intro wrong_owner) auto
      then show ?thesis using b(3) n i(1) by (auto intro!: seen_changed)
    qed (use n in \<open>auto simp: corruption_seen_def lacking_def\<close>)
  qed (use n in \<open>auto simp: lacking_def\<close>)
qed

lemma seen_type:
  assumes ok: "disk_ok d" and k: "drawn k2" "drawn k3" "\<forall>k \<in> set (k4 # ks). drawn k" and num: "num = corrupt_kind which k1" and n: "num = 5 \<or> num = 11"
  shows "corruption_seen num (k4 # ks) d (corrupt which (k1 # k2 # k3 # k4 # ks) d)"
proof -
  note c = corrupt_def[of which "k1 # k2 # k3 # k4 # ks" d] next_random_def num[symmetric]
  show ?thesis
  proof (rule seen_inode[OF k(1), where t = "if num = 5 then FIL else DIR"])
    show "corrupt which (k1 # k2 # k3 # k4 # ks) d = bnd (pickRandom (if num = 5 then FIL else DIR) d (k2 # k3 # k4 # ks)) (\<lambda>(i, ds). change_inode i (\<lambda>n. n\<lparr>itype := if num = 5 then DIR else FIL\<rparr>) d)"
      using n by (auto simp: c)
    fix i assume i: "i < length (dinodes d)" "itype (dinodes d ! i) = (if num = 5 then FIL else DIR)"
    have "\<not> disk_ok (d\<lparr>dinodes := (dinodes d)[i := (dinodes d ! i)\<lparr>itype := if num = 5 then DIR else FIL\<rparr>]\<rparr>)"
      using i by (intro wrong_type[OF ok]) simp_all
    then show "corruption_seen num (k4 # ks) d (change_inode i (\<lambda>n. n\<lparr>itype := if num = 5 then DIR else FIL\<rparr>) d)"
      using n i(1) by (intro seen_changed) auto
  qed (use n in \<open>auto simp: lacking_def\<close>)
qed

lemma seen_dangling:
  assumes ok: "disk_ok d" and k: "drawn k2" "drawn k3" "\<forall>k \<in> set (k4 # ks). drawn k" and num: "num = corrupt_kind which k1" and n: "num = 6"
    and len: "0 < length (dinodes d)" "0 < length (ddata d)"
    and ne: "\<forall>b \<in> set (ddata d). btype b = DIR \<longrightarrow> bentries b \<noteq> []"
  shows "corruption_seen num (k4 # ks) d (corrupt which (k1 # k2 # k3 # k4 # ks) d)"
proof -
  note c = corrupt_def[of which "k1 # k2 # k3 # k4 # ks" d] next_random_def num[symmetric]
  have bl: "length (bmap (ibits d)) = length (dinodes d)" "length (bmap (dbits d)) = length (ddata d)" using disk_okD(1,2)[OF ok] by simp_all
  show ?thesis
  proof (rule seen_entry[OF ok ne k(1,2)])
    show "corrupt which (k1 # k2 # k3 # k4 # ks) d = bnd (pickEntry d (k2 # k3 # k4 # ks)) (\<lambda>((a, j, e), ds). bnd (findFree (ibits d) ds) (\<lambda>(v, ds). setDirEntry a j (fst e, v) d))" using n by (simp add: c)
    show "corruption_seen num (k4 # ks) d (bnd (findFree (ibits d) (k4 # ks)) (\<lambda>(v, ds). setDirEntry (int a) (int j) (fst (bentries (ddata d ! a) ! j), v) d))"
      if "a < length (ddata d)" "j < length (bentries (ddata d ! a))" for a j
      using findFree_ends[OF k(3), of "ibits d"] that bl(1) len(1) n wrong_entry[OF ok that]
      by (cases "findFree (ibits d) (k4 # ks)") (auto simp: corruption_seen_def setDirEntry_in)
  qed (use n in simp)
qed

lemma seen_renamed:
  assumes ok: "disk_ok d" and k: "drawn k2" "drawn k3" "\<forall>k \<in> set (k4 # ks). drawn k" and num: "num = corrupt_kind which k1" and n: "num = 7"
    and ne: "\<forall>b \<in> set (ddata d). btype b = DIR \<longrightarrow> bentries b \<noteq> []"
  shows "corruption_seen num (k4 # ks) d (corrupt which (k1 # k2 # k3 # k4 # ks) d)"
proof -
  note c = corrupt_def[of which "k1 # k2 # k3 # k4 # ks" d] next_random_def num[symmetric]
  obtain z where z: "random_choice k4 ascii_lowercase = Inr z" using choice_in[of k4 ascii_lowercase] k(3) by (auto simp: ascii_lowercase_def)
  show ?thesis
  proof (rule seen_entry[OF ok ne k(1,2)])
    show "corrupt which (k1 # k2 # k3 # k4 # ks) d = bnd (pickEntry d (k2 # k3 # k4 # ks)) (\<lambda>((a, j, e), ds). bnd (next_random ds) (\<lambda>(k, ds). bnd (random_choice k ascii_lowercase) (\<lambda>n. setDirEntry a j ([n], snd e) d)))"
      using n by (simp add: c)
    show "corruption_seen num (k4 # ks) d (bnd (next_random (k4 # ks)) (\<lambda>(k, ds). bnd (random_choice k ascii_lowercase) (\<lambda>n. setDirEntry (int a) (int j) ([n], snd (bentries (ddata d ! a) ! j)) d)))"
      if "a < length (ddata d)" "j < length (bentries (ddata d ! a))" for a j
      using that renamed_entry[OF ok that, of "[z]"] z n by (auto simp: next_random_def corruption_seen_def setDirEntry_in renames_def)
  qed (use n in simp)
qed

lemma corrupt_seen:
  assumes ok: "disk_ok d" and ne: "\<forall>b \<in> set (ddata d). btype b = DIR \<longrightarrow> bentries b \<noteq> []" and len: "0 < length (dinodes d)" "0 < length (ddata d)"
    and k: "drawn k2" "drawn k3" "\<forall>k \<in> set (k4 # ks). drawn k" and num: "num = corrupt_kind which k1" "0 \<le> num" "num \<le> 11"
  shows "corruption_seen num (k4 # ks) d (corrupt which (k1 # k2 # k3 # k4 # ks) d)"
proof -
  have "num = 0 \<or> num = 1 \<or> (num = 2 \<or> num = 8) \<or> (num = 3 \<or> num = 9) \<or> (num = 4 \<or> num = 10) \<or> (num = 5 \<or> num = 11) \<or> num = 6 \<or> num = 7"
    using num(2,3) by presburger
  then show ?thesis
    using seen_data_bit[OF ok k num(1) _ len] seen_inode_bit[OF ok k num(1) _ len] seen_count[OF ok k num(1)] seen_orphan[OF ok k num(1)]
      seen_address[OF ok k num(1)] seen_type[OF ok k num(1)] seen_dangling[OF ok k num(1) _ len ne] seen_renamed[OF ok k num(1) _ ne] by blast
qed

section \<open>Properties\<close>

text \<open>C30. A checker that reads only the disk accepts every consistent file system, and rejects it after each of the eleven kinds of corruption that change a bitmap, a
  count, a type, an address or the target of an entry. The remaining kind renames a directory entry; that is seen exactly if the new
  name is already taken. A corruption fails only where the code asserts that there is a victim, or while no random number hits a free inode.\<close>

theorem fsck_detects:
  assumes ok: "fs_ok s" and ne: "\<forall>b \<in> set (blocks s). ftype b = DIR \<longrightarrow> dirList b \<noteq> []"
    and k: "\<forall>k \<in> set (k1 # k2 # k3 # k4 # ks). drawn k" and which: "-1 \<le> which" "which \<le> 11"
  shows "disk_ok (disk_of s) \<and> corruption_seen (corrupt_kind which k1) (k4 # ks) (disk_of s) (corrupt which (k1 # k2 # k3 # k4 # ks) (disk_of s))"
proof
  show d: "disk_ok (disk_of s)" by (rule consistent_accepted[OF ok])
  obtain i b where "dir_at s ''/'' i b" using ok by (auto simp: fs_ok_def names_ok_def)
  then have len: "0 < length (dinodes (disk_of s))" "0 < length (ddata (disk_of s))" by (auto simp: dir_at_def disk_of_def)
  have "\<forall>b \<in> set (ddata (disk_of s)). btype b = DIR \<longrightarrow> bentries b \<noteq> []" using ne by (auto simp: disk_of_def)
  moreover have "0 \<le> corrupt_kind which k1" "corrupt_kind which k1 \<le> 11"
    using randint_index[of k1 12] k which by (auto simp: corrupt_kind_def)
  ultimately show "corruption_seen (corrupt_kind which k1) (k4 # ks) (disk_of s) (corrupt which (k1 # k2 # k3 # k4 # ks) (disk_of s))"
    using k by (intro corrupt_seen[OF d _ len]) auto
qed

text \<open>A count that is one too high, on a new file system.\<close>

theorem fsck_detects_witness:
  "\<exists>s d. fs_init 2 2 = Inr s \<and> disk_ok (disk_of s) \<and> corrupt 8 [0, 0, 0, 0] (disk_of s) = Inr d \<and> \<not> disk_ok d"
proof -
  obtain s where s: "fs_init 2 2 = Inr s" "fs_ok s" using fs_init_ok[of 2 2] by auto
  have "case fs_init 2 2 of Inl e \<Rightarrow> False | Inr s \<Rightarrow> \<forall>b \<in> set (blocks s). ftype b = DIR \<longrightarrow> dirList b \<noteq> []" by code_simp
  then have ne: "\<forall>b \<in> set (blocks s). ftype b = DIR \<longrightarrow> dirList b \<noteq> []" using s(1) by simp
  have "case fs_init 2 2 of Inl e \<Rightarrow> False | Inr s \<Rightarrow> (case corrupt 8 [0, 0, 0, 0] (disk_of s) of Inl e \<Rightarrow> False | Inr d \<Rightarrow> True)" by code_simp
  then obtain d where d: "corrupt 8 [0, 0, 0, 0] (disk_of s) = Inr d" using s(1) by (auto split: sum.splits)
  then show ?thesis using fsck_detects[OF s(2) ne, of 0 0 0 0 "[]" 8] s(1) by (auto simp: corruption_seen_def corrupt_kind_def)
qed

end
