(* ===== verification/Multi.thy ===== *)
theory Multi
  imports Machines
begin

text \<open>
  The multi-processor scheduler of \<^verbatim>\<open>ostep/homework/cpu-sched-multi/multi.py\<close>: one central queue or one queue per processor, affinity of jobs to
  processors, time slices, stealing from other queues, and the warmth of the caches, which sets the speed of a job. The lemmas show that a
  job is always in exactly one place and that every job is run to its end.
\<close>

section \<open>Model\<close>

text \<open>A job is the value of its name in \<^verbatim>\<open>jobs\<close>.\<close>

record mpjob =
  run_time :: int
  working_set_size :: int
  affinity :: "int list"
  time_left :: int

record mcache =
  cache_contents :: "string list"
  cache_warming :: "string list"
  cache_warming_counter :: "string \<rightharpoonup> int"

record mpconf =
  per_cpu_queues :: bool
  peek_interval :: int
  num_cpus :: nat
  time_slice :: int
  random_order :: bool
  cache_size :: int
  cache_rate_cold :: int
  cache_rate_warm :: int
  cache_warmup_time :: int

text \<open>An entry of \<open>sched_current\<close> is \<open>None\<close> where \<^verbatim>\<open>sched_state\<close> is \<^verbatim>\<open>STATE_IDLE\<close>, and the name of the job where it is \<^verbatim>\<open>STATE_RUNNING\<close>. With a central
  queue all processors share the one element of \<open>queues\<close>. The results of \<^verbatim>\<open>random.shuffle\<close> and \<^verbatim>\<open>random.choice\<close> are taken from \<open>shuffles\<close> and
  \<open>choices\<close>: a list in the new order, and a number that names an element.\<close>

record msched =
  jobs :: "string \<rightharpoonup> mpjob"
  job_name_list :: "string list"
  queues :: "string list list"
  sched_current :: "string option list"
  caches :: "mcache list"
  stats_ran :: "int list"
  stats_ran_warm :: "int list"
  system_time :: int
  jobs_finished :: int
  shuffles :: "nat list list"
  choices :: "nat list"

subsection \<open>Caches\<close>

definition warm_up :: "mpconf \<Rightarrow> string \<Rightarrow> mcache \<Rightarrow> mcache" where
  "warm_up cf name c = c\<lparr>cache_warming := cache_warming c @ [name], cache_warming_counter := (cache_warming_counter c)(name \<mapsto> cache_warmup_time cf)\<rparr>"

definition total_working_set :: "(string \<rightharpoonup> mpjob) \<Rightarrow> string list \<Rightarrow> int res" where
  "total_working_set js names = foldres (\<lambda>n name. bnd (dict_get js name) (\<lambda>j. Inr (n + working_set_size j))) 0 names"

function adjust_loop :: "mpconf \<Rightarrow> (string \<rightharpoonup> mpjob) \<Rightarrow> int \<Rightarrow> mcache \<Rightarrow> mcache res" where
  "adjust_loop cf js working_set_total c =
     (if working_set_total > cache_size cf
      then if cache_contents c = [] then Inl IndexError
           else let gone = last (cache_contents c); c' = warm_up cf gone (c\<lparr>cache_contents := butlast (cache_contents c)\<rparr>)
                in (case js gone of None \<Rightarrow> Inl KeyError | Some j \<Rightarrow> adjust_loop cf js (working_set_total - working_set_size j) c')
      else Inr c)"
  by pat_completeness auto
termination by (relation "measure (\<lambda>(cf, js, t, c). length (cache_contents c))") (auto simp: warm_up_def)

declare adjust_loop.simps [simp del]

definition adjust_size :: "mpconf \<Rightarrow> (string \<rightharpoonup> mpjob) \<Rightarrow> mcache \<Rightarrow> mcache res" where
  "adjust_size cf js c = bnd (total_working_set js (cache_contents c)) (\<lambda>t. adjust_loop cf js t c)"

definition cache_new_job :: "mpconf \<Rightarrow> (string \<rightharpoonup> mpjob) \<Rightarrow> string \<Rightarrow> mcache \<Rightarrow> mcache res" where
  "cache_new_job cf js name c =
     (if name \<notin> set (cache_contents c) \<and> name \<notin> set (cache_warming c)
      then if cache_warmup_time cf = 0 then adjust_size cf js (c\<lparr>cache_contents := name # cache_contents c\<rparr>)
           else Inr (warm_up cf name c)
      else Inr c)"

definition get_rate :: "mpconf \<Rightarrow> string \<Rightarrow> mcache \<Rightarrow> int" where
  "get_rate cf name c = (if name \<in> set (cache_contents c) then cache_rate_warm cf else cache_rate_cold cf)"

definition update_warming :: "mpconf \<Rightarrow> (string \<rightharpoonup> mpjob) \<Rightarrow> string \<Rightarrow> mcache \<Rightarrow> mcache res" where
  "update_warming cf js name c =
     (if name \<in> set (cache_warming c)
      then bnd (dict_get (cache_warming_counter c) name) (\<lambda>v.
             let c = c\<lparr>cache_warming_counter := (cache_warming_counter c)(name \<mapsto> v - 1)\<rparr>
             in if v - 1 \<le> 0 then adjust_size cf js (c\<lparr>cache_warming := remove1 name (cache_warming c), cache_contents := name # cache_contents c\<rparr>)
                else Inr c)
      else Inr c)"

subsection \<open>Scheduling\<close>

text \<open>The queue of a processor, and the jobs that may run on it (the names in the queues are always names of jobs).\<close>

definition queue_of :: "mpconf \<Rightarrow> nat \<Rightarrow> nat" where
  "queue_of cf cpu = (if per_cpu_queues cf then cpu else 0)"

definition allowed :: "(string \<rightharpoonup> mpjob) \<Rightarrow> nat \<Rightarrow> string \<Rightarrow> bool" where
  "allowed js cpu name \<longleftrightarrow> (case js name of None \<Rightarrow> False | Some j \<Rightarrow> affinity j = [] \<or> int cpu \<in> set (affinity j))"

definition handle_one_interrupt :: "mpconf \<Rightarrow> bool \<Rightarrow> msched \<Rightarrow> nat \<Rightarrow> msched" where
  "handle_one_interrupt cf interrupt s cpu =
     (case sched_current s ! cpu of
        Some name \<Rightarrow>
          if interrupt
          then s\<lparr>sched_current := (sched_current s)[cpu := None], queues := (queues s)[queue_of cf cpu := queues s ! queue_of cf cpu @ [name]]\<rparr>
          else s
      | None \<Rightarrow> s)"

definition handle_interrupts :: "mpconf \<Rightarrow> msched \<Rightarrow> msched res" where
  "handle_interrupts cf s =
     bnd (int_mod (system_time s) (time_slice cf)) (\<lambda>r.
       Inr (foldl (handle_one_interrupt cf (r = 0 \<and> system_time s > 0)) s [0..<num_cpus cf]))"

definition get_job :: "mpconf \<Rightarrow> msched \<Rightarrow> nat \<Rightarrow> msched res" where
  "get_job cf s cpu =
     (let q = queues s ! queue_of cf cpu
      in case find (\<lambda>i. allowed (jobs s) cpu (q ! i)) [0..<length q] of
           None \<Rightarrow> Inr s
         | Some i \<Rightarrow>
             bnd (cache_new_job cf (jobs s) (q ! i) (caches s ! cpu)) (\<lambda>c.
               Inr (s\<lparr>queues := (queues s)[queue_of cf cpu := remove_nth i q], sched_current := (sched_current s)[cpu := Some (q ! i)],
                      caches := (caches s)[cpu := c]\<rparr>)))"

definition assign_one :: "mpconf \<Rightarrow> msched \<Rightarrow> nat \<Rightarrow> msched res" where
  "assign_one cf s cpu = (if sched_current s ! cpu = None then get_job cf s cpu else Inr s)"

definition assign_jobs :: "mpconf \<Rightarrow> msched \<Rightarrow> msched res" where
  "assign_jobs cf s =
     (if random_order cf
      then case shuffles s of [] \<Rightarrow> Inl NoReturn | cpu_list # rest \<Rightarrow> foldres (assign_one cf) (s\<lparr>shuffles := rest\<rparr>) cpu_list
      else foldres (assign_one cf) s [0..<num_cpus cf])"

text \<open>\<^verbatim>\<open>cpu in self.jobs[job_name]\<close> looks for the number among the fields of the job: only the run time and the size of the working set are numbers.\<close>

definition may_steal :: "mpjob \<Rightarrow> nat \<Rightarrow> bool" where
  "may_steal j cpu \<longleftrightarrow> affinity j = [] \<or> int cpu = run_time j \<or> int cpu = working_set_size j"

definition steal_one :: "mpconf \<Rightarrow> msched \<Rightarrow> nat \<Rightarrow> msched res" where
  "steal_one cf s cpu =
     (if queues s ! cpu = []
      then let others = filter (\<lambda>c. c \<noteq> cpu) [0..<num_cpus cf]
           in if others = [] then Inl IndexError
              else case choices s of
                     [] \<Rightarrow> Inl NoReturn
                   | r # rest \<Rightarrow>
                       let other = others ! (r mod length others); s = s\<lparr>choices := rest\<rparr>
                       in (case find (\<lambda>name. case jobs s name of None \<Rightarrow> False | Some j \<Rightarrow> may_steal j cpu) (queues s ! other) of
                             None \<Rightarrow> Inr s
                           | Some name \<Rightarrow> Inr (s\<lparr>queues := (queues s)[other := remove1 name (queues s ! other), cpu := queues s ! cpu @ [name]]\<rparr>))
      else Inr s)"

definition steal_jobs :: "mpconf \<Rightarrow> msched \<Rightarrow> msched res" where
  "steal_jobs cf s =
     (if \<not> per_cpu_queues cf \<or> peek_interval cf \<le> 0 then Inr s
      else if system_time s > 0 \<and> system_time s mod peek_interval cf = 0 then foldres (steal_one cf) s [0..<num_cpus cf]
      else Inr s)"

definition run_one_tick :: "mpconf \<Rightarrow> msched \<Rightarrow> nat \<Rightarrow> msched res" where
  "run_one_tick cf s cpu =
     (case sched_current s ! cpu of
        None \<Rightarrow> Inr s
      | Some name \<Rightarrow>
          bnd (dict_get (jobs s) name) (\<lambda>job.
          let rate = get_rate cf name (caches s ! cpu);
              left = time_left job - rate;
              left = (if left < 0 then 0 else left);
              s = s\<lparr>stats_ran := (stats_ran s)[cpu := stats_ran s ! cpu + 1],
                    stats_ran_warm := (stats_ran_warm s)[cpu := stats_ran_warm s ! cpu + (if rate > 1 then 1 else 0)],
                    jobs := (jobs s)(name \<mapsto> job\<lparr>time_left := left\<rparr>)\<rparr>
          in bnd (update_warming cf (jobs s) name (caches s ! cpu)) (\<lambda>c.
               let s = s\<lparr>caches := (caches s)[cpu := c]\<rparr>
               in Inr (if left \<le> 0 then s\<lparr>sched_current := (sched_current s)[cpu := None], jobs_finished := jobs_finished s + 1\<rparr> else s))))"

definition run_jobs :: "mpconf \<Rightarrow> msched \<Rightarrow> msched res" where
  "run_jobs cf s = foldres (run_one_tick cf) s [0..<num_cpus cf]"

definition mtick :: "mpconf \<Rightarrow> msched \<Rightarrow> msched res" where
  "mtick cf s =
     bnd (handle_interrupts cf s) (\<lambda>s. bnd (steal_jobs cf s) (\<lambda>s. bnd (assign_jobs cf s) (\<lambda>s.
     bnd (run_jobs cf s) (\<lambda>s. Inr (s\<lparr>system_time := system_time s + 1\<rparr>)))))"

definition mprun :: "mpconf \<Rightarrow> nat \<Rightarrow> msched \<Rightarrow> msched res" where
  "mprun cf fuel s =
     while_res (\<lambda>s. jobs_finished s < int (length (job_name_list s))) (mtick cf) fuel (s\<lparr>system_time := 0, jobs_finished := 0\<rparr>)"

subsection \<open>Making the scheduler\<close>

text \<open>\<^verbatim>\<open>int((random.random() * m)/10.0) * 10\<close>\<close>

definition tens :: "int \<Rightarrow> int \<Rightarrow> int" where
  "tens k m = (if 0 \<le> m then scaled k m div 10 * 10 else - (scaled k (- m) div 10 * 10))"

fun random_job_list :: "int \<Rightarrow> int \<Rightarrow> nat \<Rightarrow> nat \<Rightarrow> int list \<Rightarrow> string list res" where
  "random_job_list max_run max_wset j 0 draws = Inr []"
| "random_job_list max_run max_wset j (Suc n) draws =
     (case draws of
        a # b # ds \<Rightarrow> bnd (random_job_list max_run max_wset (Suc j) n ds) (\<lambda>es.
          Inr ((str_int (int j) @ '':'' @ str_int (tens a max_run) @ '':'' @ str_int (tens b max_wset)) # es))
      | _ \<Rightarrow> Inl NoReturn)"

definition add_entry :: "(string \<rightharpoonup> mpjob) \<times> string list \<Rightarrow> string \<Rightarrow> ((string \<rightharpoonup> mpjob) \<times> string list) res" where
  "add_entry = (\<lambda>(js, names) entry.
     case split_on CHR '':'' entry of
       [name, r, w] \<Rightarrow>
         bnd (int_of_string r) (\<lambda>r. bnd (int_of_string w) (\<lambda>w.
           if name \<in> set names then Inl SysExit
           else Inr (js(name \<mapsto> \<lparr>run_time = r, working_set_size = w, affinity = [], time_left = r\<rparr>), names @ [name])))
     | _ \<Rightarrow> Inl SysExit)"

definition add_cpu :: "mpconf \<Rightarrow> string \<Rightarrow> (string \<rightharpoonup> mpjob) \<Rightarrow> string \<Rightarrow> (string \<rightharpoonup> mpjob) res" where
  "add_cpu cf name js t =
     bnd (int_of_string t) (\<lambda>cpu. bnd (dict_get js name) (\<lambda>j.
       if cpu < 0 \<or> cpu \<ge> int (num_cpus cf) then Inl SysExit else Inr (js(name \<mapsto> j\<lparr>affinity := affinity j @ [cpu]\<rparr>))))"

definition add_affinity :: "mpconf \<Rightarrow> string list \<Rightarrow> (string \<rightharpoonup> mpjob) \<Rightarrow> string \<Rightarrow> (string \<rightharpoonup> mpjob) res" where
  "add_affinity cf names js entry =
     (case split_on CHR '':'' entry of
        [name, t] \<Rightarrow> if name \<notin> set names then Inl SysExit else foldres (add_cpu cf name) js (split_on CHR ''.'' t)
      | _ \<Rightarrow> Inl SysExit)"

text \<open>Jobs are dealt to the queues in turn, to each the first one that may run there.\<close>

definition deal_one :: "(string \<rightharpoonup> mpjob) \<Rightarrow> string list list \<times> string list \<Rightarrow> nat \<Rightarrow> string list list \<times> string list" where
  "deal_one js = (\<lambda>(qs, rest) cpu.
     case find (allowed js cpu) rest of
       None \<Rightarrow> (qs, rest)
     | Some name \<Rightarrow> (qs[cpu := qs ! cpu @ [name]], remove1 name rest))"

definition deal :: "mpconf \<Rightarrow> nat \<Rightarrow> (string \<rightharpoonup> mpjob) \<Rightarrow> string list \<Rightarrow> string list list res" where
  "deal cf fuel js names =
     bnd (while_res (\<lambda>(qs, rest). rest \<noteq> []) (\<lambda>st. Inr (foldl (deal_one js) st [0..<num_cpus cf])) fuel (replicate (num_cpus cf) [], names)) (\<lambda>(qs, _). Inr qs)"

definition parse_jobs :: "mpconf \<Rightarrow> string list \<Rightarrow> string \<Rightarrow> ((string \<rightharpoonup> mpjob) \<times> string list) res" where
  "parse_jobs cf entries aff =
     bnd (foldres add_entry (Map.empty, []) entries) (\<lambda>(js, names).
     bnd (if aff \<noteq> [] then foldres (add_affinity cf names) js (split_on CHR '','' aff) else Inr js) (\<lambda>js. Inr (js, names)))"

definition scheduler_init :: "mpconf \<Rightarrow> nat \<Rightarrow> string list \<Rightarrow> string \<Rightarrow> nat list list \<Rightarrow> nat list \<Rightarrow> msched res" where
  "scheduler_init cf fuel entries aff shs chs =
     bnd (parse_jobs cf entries aff) (\<lambda>(js, names).
     bnd (if per_cpu_queues cf then deal cf fuel js names else Inr [names]) (\<lambda>qs.
       Inr \<lparr>jobs = js, job_name_list = names, queues = qs, sched_current = replicate (num_cpus cf) None,
            caches = replicate (num_cpus cf) \<lparr>cache_contents = [], cache_warming = [], cache_warming_counter = Map.empty\<rparr>,
            stats_ran = replicate (num_cpus cf) 0, stats_ran_warm = replicate (num_cpus cf) 0, system_time = 0, jobs_finished = 0, shuffles = shs, choices = chs\<rparr>))"

text \<open>Without a list of jobs they are drawn; with none to draw the empty text is one entry that is refused.\<close>

definition job_text :: "string \<Rightarrow> nat \<Rightarrow> int \<Rightarrow> int \<Rightarrow> int list \<Rightarrow> string res" where
  "job_text job_list job_num max_run max_wset draws =
     (if job_list \<noteq> [] then Inr job_list else bnd (random_job_list max_run max_wset 0 job_num draws) (\<lambda>es. Inr (join_with CHR '','' es)))"

definition multi_main :: "mpconf \<Rightarrow> nat \<Rightarrow> string \<Rightarrow> string \<Rightarrow> nat \<Rightarrow> int \<Rightarrow> int \<Rightarrow> int list \<Rightarrow> nat list list \<Rightarrow> nat list \<Rightarrow> msched res" where
  "multi_main cf fuel job_list aff job_num max_run max_wset draws shs chs =
     bnd (job_text job_list job_num max_run max_wset draws) (\<lambda>t.
     bnd (scheduler_init cf fuel (split_on CHR '','' t) aff shs chs) (mprun cf fuel))"

section \<open>Invariant\<close>

text \<open>Where the jobs are: in the queues and on the processors.\<close>

definition at_cpu :: "string option \<Rightarrow> string list" where
  "at_cpu x = (case x of None \<Rightarrow> [] | Some name \<Rightarrow> [name])"

definition runs :: "string option list \<Rightarrow> string list" where
  "runs cur = concat (map at_cpu cur)"

definition places :: "msched \<Rightarrow> string multiset" where
  "places s = mset (concat (queues s)) + mset (runs (sched_current s))"

definition ws_sum :: "(string \<rightharpoonup> mpjob) \<Rightarrow> string list \<Rightarrow> int" where
  "ws_sum js names = (\<Sum>name\<leftarrow>names. working_set_size (the (js name)))"

text \<open>No job is both warm and warming, and the warm jobs fit into the cache.\<close>

definition cache_ok :: "mpconf \<Rightarrow> (string \<rightharpoonup> mpjob) \<Rightarrow> mcache \<Rightarrow> bool" where
  "cache_ok cf js c \<longleftrightarrow> distinct (cache_contents c @ cache_warming c) \<and> set (cache_contents c @ cache_warming c) \<subseteq> dom js
     \<and> set (cache_warming c) \<subseteq> dom (cache_warming_counter c) \<and> ws_sum js (cache_contents c) \<le> cache_size cf"

definition conf_ok :: "mpconf \<Rightarrow> bool" where
  "conf_ok cf \<longleftrightarrow> 0 < num_cpus cf \<and> time_slice cf \<noteq> 0 \<and> 1 \<le> cache_rate_cold cf \<and> 1 \<le> cache_rate_warm cf \<and> 0 \<le> cache_size cf"

text \<open>Stealing looks at the wrong field of a job, so that it is only used where jobs have no affinity, with a processor to steal from.\<close>

definition steals :: "mpconf \<Rightarrow> bool" where
  "steals cf \<longleftrightarrow> per_cpu_queues cf \<and> 0 < peek_interval cf"

definition affs_ok :: "mpconf \<Rightarrow> (string \<rightharpoonup> mpjob) \<Rightarrow> bool" where
  "affs_ok cf js \<longleftrightarrow> (\<forall>j \<in> ran js. \<forall>a \<in> set (affinity j). 0 \<le> a \<and> a < int (num_cpus cf)) \<and> (steals cf \<longrightarrow> 2 \<le> num_cpus cf \<and> (\<forall>j \<in> ran js. affinity j = []))"

definition minv :: "mpconf \<Rightarrow> msched \<Rightarrow> bool" where
  "minv cf s \<longleftrightarrow>
     length (sched_current s) = num_cpus cf \<and> length (caches s) = num_cpus cf \<and> length (queues s) = (if per_cpu_queues cf then num_cpus cf else 1)
     \<and> length (stats_ran s) = num_cpus cf \<and> length (stats_ran_warm s) = num_cpus cf
     \<and> affs_ok cf (jobs s) \<and> dom (jobs s) = set (job_name_list s)
     \<and> set_mset (places s) \<subseteq> dom (jobs s) \<and> (\<forall>x. count (places s) x \<le> 1)
     \<and> jobs_finished s = int (length (job_name_list s)) - int (size (places s))
     \<and> (\<forall>c < num_cpus cf. \<forall>name. sched_current s ! c = Some name \<longrightarrow> allowed (jobs s) c name)
     \<and> (per_cpu_queues cf \<longrightarrow> (\<forall>c < num_cpus cf. \<forall>name \<in> set (queues s ! c). allowed (jobs s) c name))
     \<and> (\<forall>c \<in> set (caches s). cache_ok cf (jobs s) c)
     \<and> (\<forall>name j. jobs s name = Some j \<longrightarrow> name \<notin># places s \<longrightarrow> time_left j = 0)"

lemma place_cpu: "c < length cur \<Longrightarrow> mset (runs (cur[c := x])) + mset (at_cpu (cur ! c)) = mset (runs cur) + mset (at_cpu x)"
  using mset_concat_update[of c "map at_cpu cur" "at_cpu x"] by (simp add: runs_def map_update)

lemma at_cpu_simps [simp]: "at_cpu None = []" "at_cpu (Some n) = [n]"
  by (simp_all add: at_cpu_def)

lemma place_queue: "q < length qs \<Longrightarrow> mset (concat (qs[q := xs])) + mset (qs ! q) = mset (concat qs) + mset xs"
  by (rule mset_concat_update)

text \<open>A job moves between a queue and a processor.\<close>

lemma place_move:
  assumes "c < length (sched_current s)" "q < length (queues s)" "mset (queues s ! q) + mset (at_cpu (sched_current s ! c)) = mset xs + mset (at_cpu x)"
    and s': "queues s' = (queues s)[q := xs]" "sched_current s' = (sched_current s)[c := x]"
  shows "places s' = places s"
proof -
  have "places s' + (mset (queues s ! q) + mset (at_cpu (sched_current s ! c)))
      = (mset (concat ((queues s)[q := xs])) + mset (queues s ! q)) + (mset (runs ((sched_current s)[c := x])) + mset (at_cpu (sched_current s ! c)))"
    by (simp add: places_def s')
  also have "\<dots> = (mset (concat (queues s)) + mset xs) + (mset (runs (sched_current s)) + mset (at_cpu x))"
    using place_queue[OF assms(2), of xs] place_cpu[OF assms(1), of x] by simp
  also have "\<dots> = places s + (mset (queues s ! q) + mset (at_cpu (sched_current s ! c)))" using assms(3) by (simp add: places_def)
  finally show ?thesis by simp
qed

lemma minvD:
  assumes "minv cf s"
  shows "length (sched_current s) = num_cpus cf" "length (caches s) = num_cpus cf" "length (queues s) = (if per_cpu_queues cf then num_cpus cf else 1)"
    "length (stats_ran s) = num_cpus cf" "length (stats_ran_warm s) = num_cpus cf"
    "affs_ok cf (jobs s)" "dom (jobs s) = set (job_name_list s)" "set_mset (places s) \<subseteq> dom (jobs s)" "count (places s) x \<le> 1"
    "jobs_finished s = int (length (job_name_list s)) - int (size (places s))"
    "c < num_cpus cf \<Longrightarrow> sched_current s ! c = Some name \<Longrightarrow> allowed (jobs s) c name"
    "per_cpu_queues cf \<Longrightarrow> c < num_cpus cf \<Longrightarrow> name \<in> set (queues s ! c) \<Longrightarrow> allowed (jobs s) c name"
    "k \<in> set (caches s) \<Longrightarrow> cache_ok cf (jobs s) k"
    "jobs s name = Some j \<Longrightarrow> name \<notin># places s \<Longrightarrow> time_left j = 0"
  using assms unfolding minv_def by blast+

text \<open>What stays when jobs only move.\<close>

definition only_moved :: "msched \<Rightarrow> msched \<Rightarrow> bool" where
  "only_moved s s' \<longleftrightarrow> jobs s' = jobs s \<and> job_name_list s' = job_name_list s \<and> stats_ran s' = stats_ran s \<and> stats_ran_warm s' = stats_ran_warm s
     \<and> system_time s' = system_time s \<and> jobs_finished s' = jobs_finished s \<and> places s' = places s"

lemma moved_refl [simp]: "only_moved s s"
  by (simp add: only_moved_def)

lemma moved_seq: "only_moved s t \<Longrightarrow> only_moved t u \<Longrightarrow> only_moved s u"
  by (simp add: only_moved_def)

lemma minv_moved:
  assumes inv: "minv cf s" and m: "only_moved s s'"
    and len: "length (sched_current s') = length (sched_current s)" "length (queues s') = length (queues s)" "length (caches s') = length (caches s)"
    and cur: "\<And>c name. c < num_cpus cf \<Longrightarrow> sched_current s' ! c = Some name \<Longrightarrow> allowed (jobs s) c name"
    and qs: "\<And>c name. per_cpu_queues cf \<Longrightarrow> c < num_cpus cf \<Longrightarrow> name \<in> set (queues s' ! c) \<Longrightarrow> allowed (jobs s) c name"
    and cs: "\<And>k. k \<in> set (caches s') \<Longrightarrow> cache_ok cf (jobs s) k"
  shows "minv cf s'"
proof -
  have m': "jobs s' = jobs s" "job_name_list s' = job_name_list s" "stats_ran s' = stats_ran s" "stats_ran_warm s' = stats_ran_warm s" "jobs_finished s' = jobs_finished s" "places s' = places s"
    using m by (simp_all add: only_moved_def)
  show ?thesis unfolding minv_def m' len by (intro conjI allI impI ballI) (use minvD[OF inv] cur qs cs in blast)+
qed

lemma queue_of_less: "minv cf s \<Longrightarrow> c < num_cpus cf \<Longrightarrow> queue_of cf c < length (queues s)"
  by (auto simp: queue_of_def minv_def)

section \<open>Interrupts\<close>

lemma interrupt_ok:
  assumes inv: "minv cf s" and c: "c < num_cpus cf"
  shows "minv cf (handle_one_interrupt cf b s c) \<and> only_moved s (handle_one_interrupt cf b s c)
    \<and> shuffles (handle_one_interrupt cf b s c) = shuffles s \<and> choices (handle_one_interrupt cf b s c) = choices s"
proof (cases "sched_current s ! c")
  case (Some name)
  show ?thesis
  proof (cases b)
    case True
    define q where "q = queue_of cf c"
    define s' where "s' = s\<lparr>sched_current := (sched_current s)[c := None], queues := (queues s)[q := queues s ! q @ [name]]\<rparr>"
    have h: "handle_one_interrupt cf b s c = s'" using True Some by (simp add: handle_one_interrupt_def s'_def q_def)
    have l: "c < length (sched_current s)" "q < length (queues s)" using inv c queue_of_less[OF inv c] by (simp_all add: minv_def q_def)
    have "places s' = places s" by (rule place_move[OF l]) (use Some in \<open>simp_all add: s'_def\<close>)
    then have m: "only_moved s s'" by (simp add: only_moved_def s'_def)
    have a: "allowed (jobs s) c name" using minvD(11)[OF inv c Some] .
    have "minv cf s'"
    proof (rule minv_moved[OF inv m])
      show "allowed (jobs s) d n" if "per_cpu_queues cf" "d < num_cpus cf" "n \<in> set (queues s' ! d)" for d n
        using that a minvD(12)[OF inv that(1,2), of n] l by (cases "d = c") (auto simp: s'_def q_def queue_of_def)
      show "allowed (jobs s) d n" if "d < num_cpus cf" "sched_current s' ! d = Some n" for d n
        using that minvD(11)[OF inv that(1), of n] l by (cases "d = c") (auto simp: s'_def)
    qed (use minvD(13)[OF inv] in \<open>simp_all add: s'_def\<close>)
    with m h show ?thesis by (simp add: s'_def)
  qed (use inv Some in \<open>simp add: handle_one_interrupt_def\<close>)
qed (use inv in \<open>simp add: handle_one_interrupt_def\<close>)

lemma interrupts_ok:
  assumes "conf_ok cf" "minv cf s"
  shows "\<exists>s'. handle_interrupts cf s = Inr s' \<and> minv cf s' \<and> only_moved s s' \<and> shuffles s' = shuffles s \<and> choices s' = choices s"
proof -
  have "minv cf (foldl (handle_one_interrupt cf b) t cs) \<and> only_moved t (foldl (handle_one_interrupt cf b) t cs) \<and> shuffles (foldl (handle_one_interrupt cf b) t cs) = shuffles t
      \<and> choices (foldl (handle_one_interrupt cf b) t cs) = choices t" if "\<forall>c \<in> set cs. c < num_cpus cf" "minv cf t" for b t cs
    using that
  proof (induction cs arbitrary: t)
    case (Cons c cs)
    then show ?case using interrupt_ok[of cf t c b] moved_seq by fastforce
  qed simp
  from this[of "[0..<num_cpus cf]" s "system_time s mod time_slice cf = 0 \<and> system_time s > 0"] show ?thesis
    using assms by (simp add: handle_interrupts_def conf_ok_def)
qed

section \<open>Stealing\<close>

lemma steal_move:
  assumes inv: "minv cf s" and st: "steals cf" and c: "c < num_cpus cf" "d < num_cpus cf" "c \<noteq> d" and name: "name \<in> set (queues s ! d)" and free: "queues s ! c = []"
    and s': "s' = s\<lparr>choices := rest, queues := (queues s)[d := remove1 name (queues s ! d), c := queues s ! c @ [name]]\<rparr>"
  shows "minv cf s' \<and> only_moved s s'"
proof -
  have pc: "per_cpu_queues cf" using st by (simp add: steals_def)
  then have l: "length (queues s) = num_cpus cf" using minvD(3)[OF inv] by simp
  define qs where "qs = (queues s)[d := remove1 name (queues s ! d)]"
  have "mset (concat (qs[c := qs ! c @ [name]])) + mset (qs ! c) = mset (concat qs) + mset (qs ! c @ [name])" using c l by (intro place_queue) (simp add: qs_def)
  then have 1: "mset (concat (qs[c := qs ! c @ [name]])) = mset (concat qs) + {#name#}" by simp
  have "mset (concat qs) + mset (queues s ! d) = mset (concat (queues s)) + mset (remove1 name (queues s ! d))" unfolding qs_def using c l by (intro place_queue) simp
  moreover have "mset (queues s ! d) = mset (remove1 name (queues s ! d)) + {#name#}" using name by simp
  ultimately have "(mset (concat qs) + {#name#}) + mset (remove1 name (queues s ! d)) = mset (concat (queues s)) + mset (remove1 name (queues s ! d))"
    by (simp only: ac_simps)
  then have "mset (concat qs) + {#name#} = mset (concat (queues s))" by (rule add_right_imp_eq)
  with 1 have "places s' = places s" using c free by (simp add: places_def s' qs_def)
  then have m: "only_moved s s'" by (simp add: only_moved_def s')
  have "name \<in># places s" using name c l by (auto simp: places_def intro!: bexI[of _ "queues s ! d"])
  then obtain j where "jobs s name = Some j" using minvD(8)[OF inv] by auto
  then have al: "allowed (jobs s) c name" using minvD(6)[OF inv] st by (auto simp: allowed_def affs_ok_def ran_def)
  have "minv cf s'"
  proof (rule minv_moved[OF inv m])
    show "allowed (jobs s) e n" if "per_cpu_queues cf" "e < num_cpus cf" "n \<in> set (queues s' ! e)" for e n
      using that minvD(12)[OF inv that(1,2), of n] al c l free by (cases "e = c"; cases "e = d") (auto simp: s' dest: notin_set_remove1)
    show "allowed (jobs s) e n" if "e < num_cpus cf" "sched_current s' ! e = Some n" for e n
      using that minvD(11)[OF inv that(1), of n] by (simp add: s')
  qed (use minvD(13)[OF inv] in \<open>simp_all add: s'\<close>)
  with m show ?thesis by simp
qed

lemma steal_one_ok:
  assumes inv: "minv cf s" and st: "steals cf" and c: "c < num_cpus cf" and ch: "0 < length (choices s)"
  shows "\<exists>s'. steal_one cf s c = Inr s' \<and> minv cf s' \<and> only_moved s s' \<and> shuffles s' = shuffles s \<and> length (choices s) \<le> length (choices s') + 1"
proof (cases "queues s ! c = []")
  case True
  define others where "others = filter (\<lambda>d. d \<noteq> c) [0..<num_cpus cf]"
  have "2 \<le> num_cpus cf" using minvD(6)[OF inv] st by (simp add: affs_ok_def)
  then have "(if c = 0 then 1 else 0) \<in> set others" using c by (auto simp: others_def)
  then have ne: "others \<noteq> []" by auto
  obtain r rest where r: "choices s = r # rest" using ch by (cases "choices s") auto
  define d where "d = others ! (r mod length others)"
  have "d \<in> set others" using ne by (simp add: d_def)
  then have d: "d < num_cpus cf" "d \<noteq> c" by (auto simp: others_def)
  define s1 where "s1 = s\<lparr>choices := rest\<rparr>"
  have one: "steal_one cf s c = (case find (\<lambda>name. case jobs s name of None \<Rightarrow> False | Some j \<Rightarrow> may_steal j c) (queues s ! d) of
      None \<Rightarrow> Inr s1 | Some name \<Rightarrow> Inr (s\<lparr>choices := rest, queues := (queues s)[d := remove1 name (queues s ! d), c := queues s ! c @ [name]]\<rparr>))"
    using True ne r by (simp add: steal_one_def others_def[symmetric] d_def[symmetric] s1_def Let_def split: option.split)
  show ?thesis
  proof (cases "find (\<lambda>name. case jobs s name of None \<Rightarrow> False | Some j \<Rightarrow> may_steal j c) (queues s ! d)")
    case None
    have "only_moved s s1" by (simp add: only_moved_def s1_def places_def)
    moreover have "minv cf s1" by (rule minv_moved[OF inv \<open>only_moved s s1\<close>]) (use minvD(11,12,13)[OF inv] in \<open>simp_all add: s1_def\<close>)
    ultimately show ?thesis using one None r by (simp add: s1_def)
  next
    case (Some name)
    then have "name \<in> set (queues s ! d)" by (auto dest: find_SomeD)
    from steal_move[OF inv st c d(1) d(2)[symmetric] this True refl] show ?thesis using one Some r by simp
  qed
qed (use inv in \<open>simp add: steal_one_def\<close>)

lemma steal_jobs_ok:
  assumes inv: "minv cf s" and ch: "steals cf \<Longrightarrow> num_cpus cf \<le> length (choices s)"
  shows "\<exists>s'. steal_jobs cf s = Inr s' \<and> minv cf s' \<and> only_moved s s' \<and> shuffles s' = shuffles s \<and> (steals cf \<longrightarrow> length (choices s) \<le> length (choices s') + num_cpus cf)"
proof (cases "steals cf \<and> system_time s > 0 \<and> system_time s mod peek_interval cf = 0")
  case True
  have "\<exists>t'. foldres (steal_one cf) t cs = Inr t' \<and> minv cf t' \<and> only_moved t t' \<and> shuffles t' = shuffles t \<and> length (choices t) \<le> length (choices t') + length cs"
    if "\<forall>c \<in> set cs. c < num_cpus cf" "minv cf t" "length cs \<le> length (choices t)" for t cs
    using that
  proof (induction cs arbitrary: t)
    case (Cons c cs)
    then obtain u where u: "steal_one cf t c = Inr u" "minv cf u" "only_moved t u" "shuffles u = shuffles t" "length (choices t) \<le> length (choices u) + 1"
      using steal_one_ok[of cf t c] True by fastforce
    then have "\<exists>t'. foldres (steal_one cf) u cs = Inr t' \<and> minv cf t' \<and> only_moved u t' \<and> shuffles t' = shuffles u \<and> length (choices u) \<le> length (choices t') + length cs"
      using Cons.prems by (intro Cons.IH) auto
    then show ?case using u moved_seq by fastforce
  qed simp
  from this[of "[0..<num_cpus cf]" s] show ?thesis using True inv ch by (simp add: steal_jobs_def steals_def)
next
  case False
  then show ?thesis using inv by (auto simp: steal_jobs_def steals_def)
qed

section \<open>Caches\<close>

lemma total_working_set_eq: "set names \<subseteq> dom js \<Longrightarrow> total_working_set js names = Inr (ws_sum js names)"
proof -
  have "foldres (\<lambda>n name. bnd (dict_get js name) (\<lambda>j. Inr (n + working_set_size j))) k names = Inr (k + ws_sum js names)" if "set names \<subseteq> dom js" for k
    using that by (induction names arbitrary: k) (auto simp: ws_sum_def)
  then show "set names \<subseteq> dom js \<Longrightarrow> ?thesis" by (simp add: total_working_set_def)
qed

definition cache_pre :: "(string \<rightharpoonup> mpjob) \<Rightarrow> mcache \<Rightarrow> bool" where
  "cache_pre js c \<longleftrightarrow> distinct (cache_contents c @ cache_warming c) \<and> set (cache_contents c @ cache_warming c) \<subseteq> dom js \<and> set (cache_warming c) \<subseteq> dom (cache_warming_counter c)"

lemma adjust_loop_ok:
  assumes "cache_pre js c" "t = ws_sum js (cache_contents c)" "0 \<le> cache_size cf"
  shows "\<exists>c'. adjust_loop cf js t c = Inr c' \<and> cache_ok cf js c'"
  using assms
proof (induction cf js t c rule: adjust_loop.induct)
  case (1 cf js t c)
  show ?case
  proof (cases "t > cache_size cf")
    case False
    then have "adjust_loop cf js t c = Inr c" by (simp add: adjust_loop.simps[of cf js t c])
    moreover have "cache_ok cf js c" using False "1.prems" by (simp add: cache_ok_def cache_pre_def)
    ultimately show ?thesis by blast
  next
    case True
    then have ne: "cache_contents c \<noteq> []" using "1.prems"(2,3) by (auto simp: ws_sum_def)
    define gone where "gone = last (cache_contents c)"
    define c' where "c' = warm_up cf gone (c\<lparr>cache_contents := butlast (cache_contents c)\<rparr>)"
    have co: "cache_contents c = butlast (cache_contents c) @ [gone]" using ne by (simp add: gone_def)
    have pre: "distinct ((butlast (cache_contents c) @ [gone]) @ cache_warming c)" "set ((butlast (cache_contents c) @ [gone]) @ cache_warming c) \<subseteq> dom js"
      using "1.prems"(1) unfolding cache_pre_def co[symmetric] by auto
    obtain j where j: "js gone = Some j" using pre(2) by auto
    have "cache_pre js c'" using pre "1.prems"(1) by (auto simp: cache_pre_def c'_def warm_up_def)
    moreover have "t - working_set_size j = ws_sum js (cache_contents c')"
    proof -
      have "ws_sum js (butlast (cache_contents c) @ [gone]) = ws_sum js (butlast (cache_contents c)) + working_set_size j" using j by (simp add: ws_sum_def)
      then show ?thesis using "1.prems"(2) unfolding co[symmetric] by (simp add: c'_def warm_up_def)
    qed
    ultimately have "\<exists>c''. adjust_loop cf js (t - working_set_size j) c' = Inr c'' \<and> cache_ok cf js c''"
      using "1.IH"[OF True ne gone_def c'_def j] "1.prems"(3) by simp
    then show ?thesis using True ne j by (simp add: adjust_loop.simps[of cf js t c] Let_def gone_def[symmetric] c'_def[symmetric])
  qed
qed

lemma adjust_size_ok: "cache_pre js c \<Longrightarrow> 0 \<le> cache_size cf \<Longrightarrow> \<exists>c'. adjust_size cf js c = Inr c' \<and> cache_ok cf js c'"
  using adjust_loop_ok[of js c "ws_sum js (cache_contents c)" cf] by (auto simp: adjust_size_def cache_pre_def total_working_set_eq)

lemma cache_new_job_ok:
  assumes "cache_ok cf js c" "name \<in> dom js" "conf_ok cf"
  shows "\<exists>c'. cache_new_job cf js name c = Inr c' \<and> cache_ok cf js c'"
proof (cases "name \<in> set (cache_contents c) \<or> name \<in> set (cache_warming c)")
  case False
  show ?thesis
  proof (cases "cache_warmup_time cf = 0")
    case True
    have "cache_pre js (c\<lparr>cache_contents := name # cache_contents c\<rparr>)" using assms(1,2) False by (auto simp: cache_pre_def cache_ok_def)
    from adjust_size_ok[OF this] show ?thesis using True False assms(3) by (simp add: cache_new_job_def conf_ok_def)
  next
    case F: False
    have "cache_ok cf js (warm_up cf name c)" using assms(1,2) False by (auto simp: cache_ok_def warm_up_def)
    then show ?thesis using F False by (simp add: cache_new_job_def)
  qed
qed (use assms in \<open>auto simp: cache_new_job_def\<close>)

lemma update_warming_ok:
  assumes "cache_ok cf js c" "name \<in> dom js" "conf_ok cf"
  shows "\<exists>c'. update_warming cf js name c = Inr c' \<and> cache_ok cf js c'"
proof (cases "name \<in> set (cache_warming c)")
  case True
  then obtain v where v: "cache_warming_counter c name = Some v" using assms(1) by (auto simp: cache_ok_def)
  define c1 where "c1 = c\<lparr>cache_warming_counter := (cache_warming_counter c)(name \<mapsto> v - 1)\<rparr>"
  show ?thesis
  proof (cases "v - 1 \<le> 0")
    case le: True
    have "cache_pre js (c1\<lparr>cache_warming := remove1 name (cache_warming c1), cache_contents := name # cache_contents c1\<rparr>)"
      using assms(1,2) True by (auto simp: cache_pre_def cache_ok_def c1_def dest: notin_set_remove1)
    from adjust_size_ok[OF this] show ?thesis using le True v assms(3) by (simp add: update_warming_def conf_ok_def Let_def c1_def)
  next
    case False
    have "cache_ok cf js c1" using assms(1) by (auto simp: cache_ok_def c1_def)
    then show ?thesis using False True v by (simp add: update_warming_def Let_def c1_def)
  qed
qed (use assms in \<open>simp add: update_warming_def\<close>)

section \<open>Assigning jobs\<close>

lemma get_job_ok:
  assumes cf: "conf_ok cf" and inv: "minv cf s" and c: "c < num_cpus cf" and idle: "sched_current s ! c = None"
  shows "\<exists>s'. get_job cf s c = Inr s' \<and> minv cf s' \<and> only_moved s s' \<and> shuffles s' = shuffles s \<and> choices s' = choices s
    \<and> (if \<exists>name \<in> set (queues s ! queue_of cf c). allowed (jobs s) c name then sched_current s' ! c \<noteq> None \<and> (\<forall>d. d \<noteq> c \<longrightarrow> sched_current s' ! d = sched_current s ! d) else s' = s)"
proof -
  define qi where "qi = queue_of cf c"
  define q where "q = queues s ! qi"
  show ?thesis
  proof (cases "find (\<lambda>i. allowed (jobs s) c (q ! i)) [0..<length q]")
    case None
    then have "\<not> (\<exists>name \<in> set q. allowed (jobs s) c name)" by (auto simp: find_None_iff in_set_conv_nth)
    moreover have "get_job cf s c = Inr s" using None by (simp add: get_job_def q_def qi_def Let_def)
    ultimately show ?thesis using inv by (simp add: q_def qi_def)
  next
    case (Some i)
    then have i: "i < length q" "allowed (jobs s) c (q ! i)" using find_SomeD[OF Some] by auto
    have l: "c < length (sched_current s)" "qi < length (queues s)" "c < length (caches s)" using minvD(1,2)[OF inv] c queue_of_less[OF inv c] by (simp_all add: qi_def)
    have dom: "q ! i \<in> dom (jobs s)" using i(2) by (auto simp: allowed_def split: option.splits)
    obtain k where k: "cache_new_job cf (jobs s) (q ! i) (caches s ! c) = Inr k" "cache_ok cf (jobs s) k"
      using cache_new_job_ok[OF minvD(13)[OF inv nth_mem[OF l(3)]] dom cf] by blast
    define s' where "s' = s\<lparr>queues := (queues s)[qi := remove_nth i q], sched_current := (sched_current s)[c := Some (q ! i)], caches := (caches s)[c := k]\<rparr>"
    have g: "get_job cf s c = Inr s'" using Some k(1) by (simp add: get_job_def q_def qi_def Let_def s'_def)
    have "q ! i \<in># mset q" using i(1) by simp
    then have "mset q = mset (remove_nth i q) + {#q ! i#}" using mset_remove_nth[OF i(1)] by simp
    then have "places s' = places s" by (intro place_move[OF l(1,2), of "remove_nth i q" "Some (q ! i)"]) (use idle in \<open>simp_all add: s'_def q_def\<close>)
    then have m: "only_moved s s'" by (simp add: only_moved_def s'_def)
    have "minv cf s'"
    proof (rule minv_moved[OF inv m])
      show "allowed (jobs s) d n" if "per_cpu_queues cf" "d < num_cpus cf" "n \<in> set (queues s' ! d)" for d n
        using that minvD(12)[OF inv that(1,2), of n] l set_remove_nth[of i q] by (cases "d = qi") (auto simp: s'_def q_def)
      show "allowed (jobs s) d n" if "d < num_cpus cf" "sched_current s' ! d = Some n" for d n
        using that minvD(11)[OF inv that(1), of n] l i(2) by (cases "d = c") (auto simp: s'_def)
      show "cache_ok cf (jobs s) k'" if "k' \<in> set (caches s')" for k'
        using that minvD(13)[OF inv, of k'] k(2) set_update_subset_insert[of "caches s" c k] by (auto simp: s'_def)
    qed (simp_all add: s'_def)
    moreover have "\<exists>name \<in> set (queues s ! queue_of cf c). allowed (jobs s) c name" using i by (auto simp: q_def qi_def intro!: bexI[of _ "q ! i"])
    ultimately show ?thesis using g m l(1) by (simp add: s'_def)
  qed
qed

text \<open>Assigning keeps the jobs that run, and if none runs then nothing was there to be run.\<close>

lemma runs_nonempty: "runs cur \<noteq> [] \<longleftrightarrow> (\<exists>c < length cur. cur ! c \<noteq> None)"
proof -
  have "runs cur \<noteq> [] \<longleftrightarrow> (\<exists>x \<in> set cur. x \<noteq> None)" by (auto simp: runs_def at_cpu_def split: option.splits)
  then show ?thesis by (metis in_set_conv_nth)
qed

lemma assign_list_ok:
  assumes cf: "conf_ok cf" and "minv cf s" "\<forall>c \<in> set cs. c < num_cpus cf"
  shows "\<exists>s'. foldres (assign_one cf) s cs = Inr s' \<and> minv cf s' \<and> only_moved s s' \<and> shuffles s' = shuffles s \<and> choices s' = choices s
    \<and> (runs (sched_current s') \<noteq> [] \<or> s' = s \<and> runs (sched_current s) = [] \<and> (\<forall>c \<in> set cs. \<forall>name \<in> set (queues s ! queue_of cf c). \<not> allowed (jobs s) c name))"
  using assms(2-)
proof (induction cs arbitrary: s)
  case (Cons c cs)
  have c: "c < num_cpus cf" "c < length (sched_current s)" using Cons.prems minvD(1) by auto
  have "\<exists>t. assign_one cf s c = Inr t \<and> minv cf t \<and> only_moved s t \<and> shuffles t = shuffles s \<and> choices t = choices s
    \<and> (runs (sched_current t) \<noteq> [] \<or> t = s \<and> (\<forall>name \<in> set (queues s ! queue_of cf c). \<not> allowed (jobs s) c name))"
  proof (cases "sched_current s ! c")
    case None
    then obtain t where t: "get_job cf s c = Inr t" "minv cf t" "only_moved s t" "shuffles t = shuffles s" "choices t = choices s"
      "if \<exists>name \<in> set (queues s ! queue_of cf c). allowed (jobs s) c name then sched_current t ! c \<noteq> None \<and> (\<forall>d. d \<noteq> c \<longrightarrow> sched_current t ! d = sched_current s ! d) else t = s"
      using get_job_ok[OF cf Cons.prems(1) c(1) None] by blast
    have "c < length (sched_current t)" using minvD(1)[OF t(2)] c(1) by simp
    then have "runs (sched_current t) \<noteq> [] \<or> t = s \<and> (\<forall>name \<in> set (queues s ! queue_of cf c). \<not> allowed (jobs s) c name)"
      using t(6) unfolding runs_nonempty by (auto split: if_splits)
    moreover have "assign_one cf s c = Inr t" using t(1) None by (simp add: assign_one_def)
    ultimately show ?thesis using t(2-5) by blast
  next
    case (Some n)
    then have "runs (sched_current s) \<noteq> []" using c(2) unfolding runs_nonempty by blast
    then show ?thesis using Some Cons.prems(1) by (simp add: assign_one_def)
  qed
  then obtain t where t: "assign_one cf s c = Inr t" "minv cf t" "only_moved s t" "shuffles t = shuffles s" "choices t = choices s"
    "runs (sched_current t) \<noteq> [] \<or> t = s \<and> (\<forall>name \<in> set (queues s ! queue_of cf c). \<not> allowed (jobs s) c name)" by blast
  obtain u where u: "foldres (assign_one cf) t cs = Inr u" "minv cf u" "only_moved t u" "shuffles u = shuffles t" "choices u = choices t"
    "runs (sched_current u) \<noteq> [] \<or> u = t \<and> runs (sched_current t) = [] \<and> (\<forall>c \<in> set cs. \<forall>name \<in> set (queues t ! queue_of cf c). \<not> allowed (jobs t) c name)"
    using Cons.IH[OF t(2)] Cons.prems(2) by auto
  show ?case using t u moved_seq[OF t(3) u(3)] by (intro exI[of _ u]) auto
qed (auto simp: runs_nonempty)

lemma some_cpu:
  assumes "conf_ok cf" "affs_ok cf js" "name \<in> dom js"
  shows "\<exists>c < num_cpus cf. allowed js c name"
proof -
  obtain j where j: "js name = Some j" using assms(3) by auto
  show ?thesis
  proof (cases "affinity j")
    case Nil
    then have "allowed js 0 name" using j by (simp add: allowed_def)
    then show ?thesis using assms(1) by (auto simp: conf_ok_def)
  next
    case (Cons a as)
    then have "0 \<le> a" "a < int (num_cpus cf)" using assms(2) j by (auto simp: affs_ok_def ran_def)
    then show ?thesis using Cons j by (intro exI[of _ "nat a"]) (auto simp: allowed_def)
  qed
qed

text \<open>A waiting job is allowed on a processor that looks at its queue.\<close>

lemma waiting_allowed:
  assumes cf: "conf_ok cf" and inv: "minv cf s" and idle: "runs (sched_current s) = []" and ne: "places s \<noteq> {#}"
  shows "\<exists>c < num_cpus cf. \<exists>name \<in> set (queues s ! queue_of cf c). allowed (jobs s) c name"
proof -
  from idle ne have "concat (queues s) \<noteq> []" by (auto simp: places_def)
  then obtain name where name: "name \<in> set (concat (queues s))" by (metis list.set_sel(1))
  then obtain q where q: "q < length (queues s)" "name \<in> set (queues s ! q)" by (auto simp: in_set_conv_nth) blast
  have "name \<in># places s" using name by (simp add: places_def)
  then have "name \<in> dom (jobs s)" using minvD(8)[OF inv] by auto
  from some_cpu[OF cf minvD(6)[OF inv] this] obtain c where c: "c < num_cpus cf" "allowed (jobs s) c name" by blast
  show ?thesis
  proof (cases "per_cpu_queues cf")
    case True
    then show ?thesis using q minvD(3,12)[OF inv] by (auto simp: queue_of_def)
  next
    case False
    then have "q = 0" using q minvD(3)[OF inv] by simp
    then show ?thesis using False q c by (auto simp: queue_of_def)
  qed
qed

lemma assign_jobs_ok:
  assumes cf: "conf_ok cf" and inv: "minv cf s" and ne: "places s \<noteq> {#}"
    and sh: "random_order cf \<Longrightarrow> shuffles s = cpus # rest \<and> set cpus = {0..<num_cpus cf}"
  shows "\<exists>s'. assign_jobs cf s = Inr s' \<and> minv cf s' \<and> only_moved s s' \<and> choices s' = choices s \<and> runs (sched_current s') \<noteq> []
    \<and> shuffles s' = (if random_order cf then rest else shuffles s)"
proof -
  define t where "t = (if random_order cf then s\<lparr>shuffles := rest\<rparr> else s)"
  define cs where "cs = (if random_order cf then cpus else [0..<num_cpus cf])"
  have cs: "set cs = {0..<num_cpus cf}" using sh by (auto simp: cs_def)
  have a: "assign_jobs cf s = foldres (assign_one cf) t cs" using sh by (auto simp: assign_jobs_def t_def cs_def)
  have t: "only_moved s t" "choices t = choices s" "shuffles t = (if random_order cf then rest else shuffles s)" "sched_current t = sched_current s" "queues t = queues s" "caches t = caches s"
    by (simp_all add: t_def only_moved_def places_def)
  have it: "minv cf t" by (rule minv_moved[OF inv t(1)]) (use minvD(11,12,13)[OF inv] t in simp_all)
  have pt: "places t \<noteq> {#}" using ne t(1) by (simp add: only_moved_def)
  obtain u where u: "foldres (assign_one cf) t cs = Inr u" "minv cf u" "only_moved t u" "shuffles u = shuffles t" "choices u = choices t"
    "runs (sched_current u) \<noteq> [] \<or> u = t \<and> runs (sched_current t) = [] \<and> (\<forall>c \<in> set cs. \<forall>name \<in> set (queues t ! queue_of cf c). \<not> allowed (jobs t) c name)"
    using assign_list_ok[OF cf it, of cs] cs by auto
  have "runs (sched_current u) \<noteq> []" using u(6) waiting_allowed[OF cf it _ pt] cs by fastforce
  then show ?thesis using a u t moved_seq[OF t(1) u(3)] by (intro exI[of _ u]) simp
qed

section \<open>Running jobs\<close>

text \<open>Time is taken off a job; the rest of the job stays.\<close>

lemma job_same:
  assumes "js name = Some job"
  shows "allowed (js(name \<mapsto> job\<lparr>time_left := l\<rparr>)) = allowed js" "ws_sum (js(name \<mapsto> job\<lparr>time_left := l\<rparr>)) = ws_sum js"
    "dom (js(name \<mapsto> job\<lparr>time_left := l\<rparr>)) = dom js"
proof -
  show "allowed (js(name \<mapsto> job\<lparr>time_left := l\<rparr>)) = allowed js" using assms by (intro ext) (simp add: allowed_def)
  have "(\<lambda>x. working_set_size (the ((js(name \<mapsto> job\<lparr>time_left := l\<rparr>)) x))) = (\<lambda>x. working_set_size (the (js x)))" using assms by auto
  then show "ws_sum (js(name \<mapsto> job\<lparr>time_left := l\<rparr>)) = ws_sum js" by (intro ext) (simp only: ws_sum_def)
  show "dom (js(name \<mapsto> job\<lparr>time_left := l\<rparr>)) = dom js" using assms by auto
qed

lemma cache_same: "js name = Some job \<Longrightarrow> cache_ok cf (js(name \<mapsto> job\<lparr>time_left := l\<rparr>)) = cache_ok cf js"
  by (intro ext) (simp only: cache_ok_def job_same)

lemma jobs_same: "js name = Some job \<Longrightarrow> affs_ok cf js \<Longrightarrow> affs_ok cf (js(name \<mapsto> job\<lparr>time_left := l\<rparr>))"
  by (auto simp: affs_ok_def ran_def split: if_splits)

text \<open>The ticks that are left.\<close>

definition ticks :: "(string \<rightharpoonup> mpjob) \<Rightarrow> string \<Rightarrow> nat" where
  "ticks js name = nat (max 1 (time_left (the (js name))))"

definition work_left :: "msched \<Rightarrow> nat" where
  "work_left s = (\<Sum>name \<in># places s. ticks (jobs s) name)"

lemma todo_drop:
  assumes "places s = add_mset name rest" "name \<notin># rest" "jobs s name = Some job" "left < time_left job \<or> left \<le> 0"
    and s': "jobs s' = (jobs s)(name \<mapsto> job\<lparr>time_left := left\<rparr>)" "places s' = (if left \<le> 0 then rest else places s)"
  shows "work_left s' < work_left s"
proof -
  define r where "r = (\<Sum>n \<in># rest. ticks (jobs s) n)"
  have "image_mset (ticks (jobs s')) rest = image_mset (ticks (jobs s)) rest"
    by (rule image_mset_cong) (use assms(2) in \<open>auto simp: ticks_def s'\<close>)
  then have "work_left s' = (if left \<le> 0 then r else ticks (jobs s') name + r)" using s'(2) assms(1) by (simp add: work_left_def r_def)
  moreover have "work_left s = ticks (jobs s) name + r" using assms(1) by (simp add: work_left_def r_def)
  moreover have "ticks (jobs s) name = nat (max 1 (time_left job))" "ticks (jobs s') name = nat (max 1 left)" using assms(3) s'(1) by (simp_all add: ticks_def)
  ultimately show ?thesis using assms(4) by auto
qed

text \<open>Counters grow by at most one, on the processors of the list only.\<close>

definition ran_more :: "msched \<Rightarrow> msched \<Rightarrow> nat set \<Rightarrow> bool" where
  "ran_more s s' cs \<longleftrightarrow> (\<forall>d < length (stats_ran s). stats_ran s ! d \<le> stats_ran s' ! d \<and> stats_ran s' ! d \<le> stats_ran s ! d + (if d \<in> cs then 1 else 0)
     \<and> stats_ran_warm s ! d \<le> stats_ran_warm s' ! d \<and> stats_ran_warm s' ! d - stats_ran_warm s ! d \<le> stats_ran s' ! d - stats_ran s ! d)"

lemma ran_more_trans:
  assumes "ran_more s t A" "ran_more t u B" "A \<inter> B = {}" "length (stats_ran t) = length (stats_ran s)"
  shows "ran_more s u (A \<union> B)"
  unfolding ran_more_def
proof (intro allI impI)
  fix d assume d: "d < length (stats_ran s)"
  have "d \<notin> A \<or> d \<notin> B" using assms(3) by auto
  then show "stats_ran s ! d \<le> stats_ran u ! d \<and> stats_ran u ! d \<le> stats_ran s ! d + (if d \<in> A \<union> B then 1 else 0)
     \<and> stats_ran_warm s ! d \<le> stats_ran_warm u ! d \<and> stats_ran_warm u ! d - stats_ran_warm s ! d \<le> stats_ran u ! d - stats_ran s ! d"
    using assms(1)[unfolded ran_more_def, rule_format, OF d] assms(2)[unfolded ran_more_def, rule_format, of d] d assms(4) by (auto split: if_splits)
qed

definition same_env :: "msched \<Rightarrow> msched \<Rightarrow> bool" where
  "same_env s s' \<longleftrightarrow> job_name_list s' = job_name_list s \<and> system_time s' = system_time s \<and> shuffles s' = shuffles s \<and> choices s' = choices s"

lemma run_one_ok:
  assumes cf: "conf_ok cf" and inv: "minv cf s" and c: "c < num_cpus cf" and cur: "sched_current s ! c = Some name"
  shows "\<exists>s'. run_one_tick cf s c = Inr s' \<and> minv cf s' \<and> same_env s s' \<and> ran_more s s' {c} \<and> work_left s' < work_left s"
proof -
  have l: "c < length (sched_current s)" "c < length (caches s)" "c < length (stats_ran s)" "c < length (stats_ran_warm s)" using minvD(1,2,4,5)[OF inv] c by simp_all
  obtain job where job: "jobs s name = Some job" using minvD(11)[OF inv c cur] by (auto simp: allowed_def split: option.splits)
  define rate where "rate = get_rate cf name (caches s ! c)"
  have rate: "1 \<le> rate" using cf by (simp add: rate_def get_rate_def conf_ok_def)
  define left where "left = (if time_left job - rate < 0 then 0 else time_left job - rate)"
  define js where "js = (jobs s)(name \<mapsto> job\<lparr>time_left := left\<rparr>)"
  have js: "allowed js = allowed (jobs s)" "dom js = dom (jobs s)" "cache_ok cf js = cache_ok cf (jobs s)" "affs_ok cf js"
    using job_same(1,3)[of "jobs s" name job left] cache_same[of "jobs s" name job cf left] jobs_same[of "jobs s" name job cf left] job minvD(6)[OF inv] by (simp_all add: js_def)
  obtain k where k: "update_warming cf js name (caches s ! c) = Inr k" "cache_ok cf (jobs s) k"
    using update_warming_ok[of cf js "caches s ! c" name] minvD(13)[OF inv nth_mem[OF l(2)]] job cf js by auto
  define s1 where "s1 = s\<lparr>stats_ran := (stats_ran s)[c := stats_ran s ! c + 1], stats_ran_warm := (stats_ran_warm s)[c := stats_ran_warm s ! c + (if rate > 1 then 1 else 0)], jobs := js, caches := (caches s)[c := k]\<rparr>"
  define s' where "s' = (if left \<le> 0 then s1\<lparr>sched_current := (sched_current s1)[c := None], jobs_finished := jobs_finished s1 + 1\<rparr> else s1)"
  have run: "run_one_tick cf s c = Inr s'"
  proof -
    have "dict_get (jobs s) name = Inr job" using job by simp
    then show ?thesis
      by (simp only: run_one_tick_def cur option.case bnd_simps Let_def rate_def[symmetric] left_def[symmetric])
        (use k(1) in \<open>simp add: js_def[symmetric] s'_def s1_def\<close>)
  qed
  define rest where "rest = mset (concat (queues s)) + mset (runs ((sched_current s)[c := None]))"
  have "mset (runs ((sched_current s)[c := None])) + {#name#} = mset (runs (sched_current s))" using place_cpu[OF l(1), of None] cur by simp
  then have pl: "places s = add_mset name rest" by (simp add: places_def rest_def)
  have "count (places s) name \<le> 1" by (rule minvD(9)[OF inv])
  then have nr: "name \<notin># rest" using pl by (simp add: not_in_iff)
  have pl': "places s' = (if left \<le> 0 then rest else places s)" by (simp add: s'_def s1_def rest_def places_def)
  have f: "jobs s' = js" "job_name_list s' = job_name_list s" "queues s' = queues s" "length (sched_current s') = num_cpus cf" "caches s' = (caches s)[c := k]" "length (stats_ran s') = num_cpus cf"
    "length (stats_ran_warm s') = num_cpus cf" "jobs_finished s' = jobs_finished s + (if left \<le> 0 then 1 else 0)" "sched_current s' = (if left \<le> 0 then (sched_current s)[c := None] else sched_current s)"
    using minvD(1,4,5)[OF inv] by (simp_all add: s'_def s1_def)
  have "minv cf s'"
    unfolding minv_def f(1,2,3,4,6,7) js(1,2,3)
  proof (intro conjI allI impI ballI)
    show "length (caches s') = num_cpus cf" using f(5) minvD(2)[OF inv] by simp
    show "set_mset (places s') \<subseteq> dom (jobs s)" using minvD(8)[OF inv] pl pl' by auto
    show "count (places s') x \<le> 1" for x using minvD(9)[OF inv, of x] pl pl' by (auto split: if_splits)
    show "jobs_finished s' = int (length (job_name_list s)) - int (size (places s'))" using minvD(10)[OF inv] pl pl' f(8) by simp
    show "allowed (jobs s) d n" if "d < num_cpus cf" "sched_current s' ! d = Some n" for d n
      using that minvD(11)[OF inv that(1), of n] f(9) l(1) by (cases "d = c") (auto split: if_splits)
    show "cache_ok cf (jobs s) k'" if "k' \<in> set (caches s')" for k'
      using that minvD(13)[OF inv, of k'] k(2) set_update_subset_insert[of "caches s" c k] f(5) by auto
    show "time_left j = 0" if "js n = Some j" "n \<notin># places s'" for n j
      using that minvD(14)[OF inv, of n j] pl pl' by (cases "n = name") (auto simp: js_def left_def split: if_splits)
  qed (use js(4) minvD(3,7,12)[OF inv] in blast)+
  moreover have "ran_more s s' {c}" using l by (auto simp: ran_more_def s'_def s1_def nth_list_update)
  moreover have "work_left s' < work_left s" by (rule todo_drop[OF pl nr job, of left]) (use f(1) pl' rate in \<open>auto simp: js_def left_def\<close>)
  moreover have "same_env s s'" by (simp add: same_env_def s'_def s1_def)
  ultimately show ?thesis using run by blast
qed

lemma run_jobs_ok:
  assumes cf: "conf_ok cf" and inv: "minv cf s" and r: "runs (sched_current s) \<noteq> []"
  shows "\<exists>s'. run_jobs cf s = Inr s' \<and> minv cf s' \<and> same_env s s' \<and> ran_more s s' UNIV \<and> work_left s' < work_left s"
proof -
  have "\<exists>t'. foldres (run_one_tick cf) t cs = Inr t' \<and> minv cf t' \<and> same_env t t' \<and> ran_more t t' (set cs) \<and> work_left t' \<le> work_left t \<and> ((\<exists>c \<in> set cs. sched_current t ! c \<noteq> None) \<longrightarrow> work_left t' < work_left t)"
    if "\<forall>c \<in> set cs. c < num_cpus cf" "distinct cs" "minv cf t" for t cs
    using that
  proof (induction cs arbitrary: t)
    case Nil
    then show ?case by (simp add: same_env_def ran_more_def)
  next
    case (Cons c cs)
    have "\<exists>u. run_one_tick cf t c = Inr u \<and> minv cf u \<and> same_env t u \<and> ran_more t u {c} \<and> work_left u \<le> work_left t \<and> (if sched_current t ! c = None then u = t else work_left u < work_left t)"
    proof (cases "sched_current t ! c")
      case None
      then show ?thesis using Cons.prems(3) by (intro exI[of _ t]) (simp add: run_one_tick_def same_env_def ran_more_def)
    next
      case (Some name)
      then show ?thesis using run_one_ok[OF cf Cons.prems(3) _ Some] Cons.prems(1) by fastforce
    qed
    then obtain u where u: "run_one_tick cf t c = Inr u" "minv cf u" "same_env t u" "ran_more t u {c}" "work_left u \<le> work_left t" "if sched_current t ! c = None then u = t else work_left u < work_left t" by blast
    obtain v where v: "foldres (run_one_tick cf) u cs = Inr v" "minv cf v" "same_env u v" "ran_more u v (set cs)" "work_left v \<le> work_left u" "(\<exists>c \<in> set cs. sched_current u ! c \<noteq> None) \<longrightarrow> work_left v < work_left u"
      using Cons.IH[OF _ _ u(2)] Cons.prems by auto
    have "ran_more t v ({c} \<union> set cs)" using Cons.prems(2) minvD(4)[OF u(2)] minvD(4)[OF Cons.prems(3)] by (intro ran_more_trans[OF u(4) v(4)]) auto
    moreover have "same_env t v" using u(3) v(3) by (simp add: same_env_def)
    moreover have "foldres (run_one_tick cf) t (c # cs) = Inr v" using u(1) v(1) by simp
    moreover have "work_left v < work_left t" if "\<exists>d \<in> set (c # cs). sched_current t ! d \<noteq> None"
      using that u(5,6) v(5,6) by (cases "sched_current t ! c = None") auto
    ultimately show ?case using v(2,5) u(5) by (intro exI[of _ v]) auto
  qed
  from this[of "[0..<num_cpus cf]" s] obtain t where t: "run_jobs cf s = Inr t" "minv cf t" "same_env s t" "ran_more s t (set [0..<num_cpus cf])"
      "(\<exists>c \<in> set [0..<num_cpus cf]. sched_current s ! c \<noteq> None) \<longrightarrow> work_left t < work_left s" using inv by (auto simp: run_jobs_def)
  have "work_left t < work_left s" using t(5) r minvD(1)[OF inv] by (auto simp: runs_nonempty)
  moreover have "ran_more s t UNIV" using t(4) by (auto simp: ran_more_def split: if_splits)
  ultimately show ?thesis using t by blast
qed

section \<open>Whole runs\<close>

text \<open>The random numbers are enough for the ticks that are left: an order of the processors for each, and a choice for each processor.\<close>

definition supplied :: "mpconf \<Rightarrow> nat \<Rightarrow> msched \<Rightarrow> bool" where
  "supplied cf n s \<longleftrightarrow> (random_order cf \<longrightarrow> n \<le> length (shuffles s) \<and> (\<forall>cpus \<in> set (shuffles s). mset cpus = mset [0..<num_cpus cf]))
     \<and> (steals cf \<longrightarrow> n * num_cpus cf \<le> length (choices s))"

text \<open>A processor has run for no longer than the time that went by, and the end is in sight.\<close>

definition mloop :: "mpconf \<Rightarrow> string list \<Rightarrow> nat \<Rightarrow> msched \<Rightarrow> bool" where
  "mloop cf names T s \<longleftrightarrow> conf_ok cf \<and> minv cf s \<and> job_name_list s = names \<and> supplied cf (work_left s) s \<and> system_time s + int (work_left s) \<le> int T
     \<and> (\<forall>c < num_cpus cf. 0 \<le> stats_ran_warm s ! c \<and> stats_ran_warm s ! c \<le> stats_ran s ! c \<and> stats_ran s ! c \<le> system_time s)"

lemma moved_todo: "only_moved s s' \<Longrightarrow> work_left s' = work_left s"
  by (simp add: only_moved_def work_left_def)

lemma mtick_ok:
  assumes l: "mloop cf names T s" and g: "jobs_finished s < int (length (job_name_list s))"
  shows "\<exists>s'. mtick cf s = Inr s' \<and> mloop cf names T s' \<and> work_left s' < work_left s"
proof -
  have cf: "conf_ok cf" and inv: "minv cf s" and sup: "supplied cf (work_left s) s" using l by (simp_all add: mloop_def)
  have ne: "places s \<noteq> {#}" using minvD(10)[OF inv] g by auto
  then have pos: "0 < work_left s" by (cases "places s") (auto simp: work_left_def ticks_def)
  obtain a where a: "handle_interrupts cf s = Inr a" "minv cf a" "only_moved s a" "shuffles a = shuffles s" "choices a = choices s" using interrupts_ok[OF cf inv] by blast
  have "num_cpus cf \<le> length (choices a)" if "steals cf"
  proof -
    have "num_cpus cf \<le> work_left s * num_cpus cf" using pos by simp
    also have "\<dots> \<le> length (choices s)" using sup that by (simp add: supplied_def)
    finally show ?thesis using a(5) by simp
  qed
  then obtain b where b: "steal_jobs cf a = Inr b" "minv cf b" "only_moved a b" "shuffles b = shuffles a" "steals cf \<longrightarrow> length (choices a) \<le> length (choices b) + num_cpus cf"
    using steal_jobs_ok[OF a(2)] by blast
  have mb: "only_moved s b" by (rule moved_seq[OF a(3) b(3)])
  have hd: "shuffles b = hd (shuffles b) # tl (shuffles b) \<and> set (hd (shuffles b)) = {0..<num_cpus cf}" if "random_order cf"
  proof -
    have ne: "shuffles b \<noteq> []" using sup pos a(4) b(4) that by (auto simp: supplied_def)
    then have "hd (shuffles b) \<in> set (shuffles s)" using a(4) b(4) by simp
    then have "mset (hd (shuffles b)) = mset [0..<num_cpus cf]" using sup that unfolding supplied_def by blast
    then show ?thesis using ne mset_eq_setD[of "hd (shuffles b)" "[0..<num_cpus cf]"] by simp
  qed
  obtain c where c: "assign_jobs cf b = Inr c" "minv cf c" "only_moved b c" "choices c = choices b" "runs (sched_current c) \<noteq> []" "shuffles c = (if random_order cf then tl (shuffles b) else shuffles b)"
    using assign_jobs_ok[OF cf b(2), of "hd (shuffles b)" "tl (shuffles b)"] hd ne mb by (auto simp: only_moved_def)
  have mc: "only_moved s c" by (rule moved_seq[OF mb c(3)])
  obtain d where d: "run_jobs cf c = Inr d" "minv cf d" "same_env c d" "ran_more c d UNIV" "work_left d < work_left c" using run_jobs_ok[OF cf c(2,5)] by blast
  define s' where "s' = d\<lparr>system_time := system_time d + 1\<rparr>"
  have f: "work_left s' = work_left d" "places s' = places d" "system_time s' = system_time s + 1" "shuffles s' = shuffles c" "choices s' = choices c" "stats_ran s' = stats_ran d" "stats_ran_warm s' = stats_ran_warm d"
    using d(3) mc by (simp_all add: s'_def work_left_def places_def same_env_def only_moved_def)
  have td: "work_left s' < work_left s" using d(5) f(1) moved_todo[OF mc] by simp
  have g: "jobs s' = jobs d" "job_name_list s' = job_name_list d" "queues s' = queues d" "sched_current s' = sched_current d" "caches s' = caches d" "jobs_finished s' = jobs_finished d"
    by (simp_all add: s'_def)
  have "minv cf s'" using d(2) unfolding minv_def f(2,6,7) g .
  moreover have "supplied cf (work_left s') s'"
  proof -
    have "(work_left s' + 1) * num_cpus cf \<le> work_left s * num_cpus cf" using td by (intro mult_right_mono) simp_all
    moreover have "set (tl (shuffles b)) \<subseteq> set (shuffles b)" by (cases "shuffles b") auto
    ultimately show ?thesis using sup td a(4,5) b(4,5) c(4,6) f(4,5) by (auto simp: supplied_def)
  qed
  moreover have "0 \<le> stats_ran_warm s' ! e \<and> stats_ran_warm s' ! e \<le> stats_ran s' ! e \<and> stats_ran s' ! e \<le> system_time s'" if "e < num_cpus cf" for e
  proof -
    have s: "stats_ran c = stats_ran s" "stats_ran_warm c = stats_ran_warm s" using mc by (simp_all add: only_moved_def)
    have "0 \<le> stats_ran_warm s ! e \<and> stats_ran_warm s ! e \<le> stats_ran s ! e \<and> stats_ran s ! e \<le> system_time s" using l that by (simp add: mloop_def)
    moreover have "e < length (stats_ran s)" using minvD(4)[OF inv] that by simp
    ultimately show ?thesis using d(4) s f(3,6,7) by (auto simp: ran_more_def dest!: spec[of _ e])
  qed
  moreover have "system_time s' + int (work_left s') \<le> int T" using l td f(3) by (simp add: mloop_def)
  moreover have "job_name_list s' = names" using l d(3) mc by (simp add: s'_def mloop_def same_env_def only_moved_def)
  ultimately have "mloop cf names T s'" using cf by (simp add: mloop_def)
  moreover have "mtick cf s = Inr s'" using a(1) b(1) c(1) d(1) by (simp add: mtick_def s'_def)
  ultimately show ?thesis using td by blast
qed

interpretation ml: terminating_loop "mloop cf names T" "\<lambda>s. jobs_finished s < int (length (job_name_list s))" "mtick cf" work_left for cf names T
  by unfold_locales (rule mtick_ok)

lemma mprun_ok:
  assumes "mloop cf names T (s\<lparr>system_time := 0, jobs_finished := 0\<rparr>)" "T \<le> fuel" "work_left s \<le> T"
  shows "\<exists>s'. mprun cf fuel s = Inr s' \<and> mloop cf names T s' \<and> places s' = {#}"
proof -
  have "work_left (s\<lparr>system_time := 0, jobs_finished := 0\<rparr>) \<le> fuel" using assms(2,3) by (simp add: work_left_def places_def)
  then obtain s' where s': "mprun cf fuel s = Inr s'" "mloop cf names T s'" "\<not> jobs_finished s' < int (length (job_name_list s'))"
    using ml.loop_ends[OF assms(1)] by (auto simp: mprun_def)
  have "places s' = {#}" using s'(2,3) minvD(10)[of cf s'] by (auto simp: mloop_def)
  then show ?thesis using s' by blast
qed

section \<open>Making the scheduler\<close>

lemma add_entry_ok:
  assumes "foldres add_entry (js, names) entries = Inr (js', names')" "dom js = set names" "distinct names" "\<forall>j \<in> ran js. affinity j = [] \<and> time_left j = run_time j"
  shows "dom js' = set names' \<and> distinct names' \<and> (\<forall>j \<in> ran js'. affinity j = [] \<and> time_left j = run_time j)"
  using assms
proof (induction entries arbitrary: js names)
  case (Cons e es)
  then obtain js1 names1 where e: "add_entry (js, names) e = Inr (js1, names1)" "foldres add_entry (js1, names1) es = Inr (js', names')"
    by (auto simp: bnd_eq_Inr_iff)
  then obtain name r w where "name \<notin> set names" "js1 = js(name \<mapsto> \<lparr>run_time = r, working_set_size = w, affinity = [], time_left = r\<rparr>)" "names1 = names @ [name]"
    by (auto simp: add_entry_def bnd_eq_Inr_iff split: list.splits if_splits)
  then have "dom js1 = set names1 \<and> distinct names1 \<and> (\<forall>j \<in> ran js1. affinity j = [] \<and> time_left j = run_time j)"
    using Cons.prems(2-) by (auto simp: ran_def)
  then show ?case using Cons.IH[OF e(2)] by blast
qed simp

definition aff_ok :: "mpconf \<Rightarrow> string set \<Rightarrow> (string \<rightharpoonup> mpjob) \<Rightarrow> bool" where
  "aff_ok cf D js \<longleftrightarrow> dom js = D \<and> (\<forall>name j. js name = Some j \<longrightarrow> time_left j = run_time j) \<and> (\<forall>name j a. js name = Some j \<longrightarrow> a \<in> set (affinity j) \<longrightarrow> 0 \<le> a \<and> a < int (num_cpus cf))"

lemma add_cpu_ok: "add_cpu cf name js t = Inr js' \<Longrightarrow> aff_ok cf D js \<Longrightarrow> aff_ok cf D js'"
  by (auto simp: add_cpu_def aff_ok_def res_simps split: if_splits)

lemma add_affinity_ok: "add_affinity cf names js entry = Inr js' \<Longrightarrow> aff_ok cf D js \<Longrightarrow> aff_ok cf D js'"
  by (auto simp: add_affinity_def split: list.splits if_splits elim!: foldres_inv intro: add_cpu_ok)

lemma parse_jobs_ok:
  assumes "parse_jobs cf entries aff = Inr (js, names)" "steals cf \<Longrightarrow> 2 \<le> num_cpus cf \<and> aff = []"
  shows "affs_ok cf js \<and> dom js = set names \<and> distinct names \<and> (\<forall>name j. js name = Some j \<longrightarrow> time_left j = run_time j)"
proof -
  obtain js0 where j0: "foldres add_entry (Map.empty, []) entries = Inr (js0, names)"
    and j: "(if aff \<noteq> [] then foldres (add_affinity cf names) js0 (split_on CHR '','' aff) else Inr js0) = Inr js"
    using assms(1) by (auto simp: parse_jobs_def bnd_eq_Inr_iff split: prod.splits)
  have 0: "dom js0 = set names" "distinct names" "\<forall>j \<in> ran js0. affinity j = [] \<and> time_left j = run_time j" using add_entry_ok[OF j0] by auto
  then have "aff_ok cf (set names) js0" by (auto simp: aff_ok_def ran_def)
  then have a: "aff_ok cf (set names) js" using j add_affinity_ok by (auto split: if_splits elim!: foldres_inv)
  moreover have "\<forall>j \<in> ran js. affinity j = []" if "steals cf" using j assms(2)[OF that] 0(3) by auto
  ultimately show ?thesis using 0(2) assms(2) by (auto simp: affs_ok_def aff_ok_def ran_def)
qed

text \<open>Dealing the jobs to the queues.\<close>

definition dealt :: "mpconf \<Rightarrow> (string \<rightharpoonup> mpjob) \<Rightarrow> string list \<Rightarrow> string list list \<times> string list \<Rightarrow> bool" where
  "dealt cf js names = (\<lambda>(qs, rest). length qs = num_cpus cf \<and> mset (concat qs) + mset rest = mset names \<and> (\<forall>c < num_cpus cf. \<forall>name \<in> set (qs ! c). allowed js c name))"

lemma deal_one_ok:
  assumes "dealt cf js names st" "c < num_cpus cf"
  shows "dealt cf js names (deal_one js st c) \<and> length (snd (deal_one js st c)) \<le> length (snd st)
    \<and> (if \<exists>name \<in> set (snd st). allowed js c name then length (snd (deal_one js st c)) < length (snd st) else deal_one js st c = st)"
proof -
  obtain qs rest where st: "st = (qs, rest)" by (cases st)
  show ?thesis
  proof (cases "find (allowed js c) rest")
    case None
    then have "\<not> (\<exists>name \<in> set rest. allowed js c name)" by (auto simp: find_None_iff)
    then show ?thesis using None assms(1) by (simp add: st deal_one_def)
  next
    case (Some name)
    then have n: "name \<in> set rest" "allowed js c name" by (auto dest: find_SomeD)
    have l: "c < length qs" "length qs = num_cpus cf" using assms by (simp_all add: dealt_def st)
    have "mset (concat (qs[c := qs ! c @ [name]])) + mset (qs ! c) = (mset (concat qs) + {#name#}) + mset (qs ! c)" using place_queue[OF l(1), of "qs ! c @ [name]"] by simp
    then have "mset (concat (qs[c := qs ! c @ [name]])) = mset (concat qs) + {#name#}" by (rule add_right_imp_eq)
    moreover have "mset rest = mset (remove1 name rest) + {#name#}" using n(1) by simp
    ultimately have "mset (concat (qs[c := qs ! c @ [name]])) + mset (remove1 name rest) = mset (concat qs) + mset rest" by (simp only: ac_simps)
    then have "mset (concat (qs[c := qs ! c @ [name]])) + mset (remove1 name rest) = mset names" using assms(1) by (simp add: dealt_def st)
    moreover have "allowed js d m" if "d < num_cpus cf" "m \<in> set (qs[c := qs ! c @ [name]] ! d)" for d m
      using that assms(1) n(2) l by (cases "d = c") (auto simp: dealt_def st)
    ultimately have "dealt cf js names (qs[c := qs ! c @ [name]], remove1 name rest)" using l by (auto simp: dealt_def)
    moreover have "length (remove1 name rest) < length rest" using n(1) length_pos_if_in_set[OF n(1)] by (simp add: length_remove1)
    ultimately show ?thesis using Some n by (auto simp: st deal_one_def)
  qed
qed

lemma deal_pass_ok:
  assumes "dealt cf js names st" "\<forall>c \<in> set cs. c < num_cpus cf"
  shows "dealt cf js names (foldl (deal_one js) st cs) \<and> length (snd (foldl (deal_one js) st cs)) \<le> length (snd st)
    \<and> ((\<exists>c \<in> set cs. \<exists>name \<in> set (snd st). allowed js c name) \<longrightarrow> length (snd (foldl (deal_one js) st cs)) < length (snd st))"
  using assms
proof (induction cs arbitrary: st)
  case (Cons c cs)
  have 1: "dealt cf js names (deal_one js st c)" "length (snd (deal_one js st c)) \<le> length (snd st)"
    "if \<exists>name \<in> set (snd st). allowed js c name then length (snd (deal_one js st c)) < length (snd st) else deal_one js st c = st"
    using deal_one_ok[OF Cons.prems(1), of c] Cons.prems(2) by auto
  have 2: "dealt cf js names (foldl (deal_one js) (deal_one js st c) cs)" "length (snd (foldl (deal_one js) (deal_one js st c) cs)) \<le> length (snd (deal_one js st c))"
    "(\<exists>d \<in> set cs. \<exists>name \<in> set (snd (deal_one js st c)). allowed js d name) \<longrightarrow> length (snd (foldl (deal_one js) (deal_one js st c) cs)) < length (snd (deal_one js st c))"
    using Cons.IH[OF 1(1)] Cons.prems(2) by auto
  show ?case
  proof (cases "\<exists>name \<in> set (snd st). allowed js c name")
    case True
    then show ?thesis using 1 2 by simp
  next
    case False
    then have "deal_one js st c = st" using 1(3) by simp
    then show ?thesis using 2 False by auto
  qed
qed simp

interpretation dl: terminating_loop "\<lambda>st. conf_ok cf \<and> affs_ok cf js \<and> dom js = set names \<and> dealt cf js names st" "\<lambda>(qs, rest). rest \<noteq> []"
  "\<lambda>st. Inr (foldl (deal_one js) st [0..<num_cpus cf])" "\<lambda>st. length (snd st)" for cf js names
proof (unfold_locales, elim conjE)
  fix st assume a: "case st of (qs, rest) \<Rightarrow> rest \<noteq> []" "conf_ok cf" "affs_ok cf js" "dom js = set names" "dealt cf js names st"
  obtain qs rest where st: "st = (qs, rest)" by (cases st)
  have "mset names = mset (concat qs @ rest)" using a(5) by (simp add: dealt_def st)
  then have "set names = set (concat qs @ rest)" by (rule mset_eq_setD)
  then have "set rest \<subseteq> set names" by simp
  then obtain name where n: "name \<in> set rest" "name \<in> dom js" using a(1,4) by (cases rest) (auto simp: st)
  then have "\<exists>c \<in> set [0..<num_cpus cf]. \<exists>name \<in> set (snd st). allowed js c name" using some_cpu[OF a(2,3) n(2)] by (auto simp: st)
  then show "\<exists>s'. Inr (foldl (deal_one js) st [0..<num_cpus cf]) = Inr s' \<and> (conf_ok cf \<and> affs_ok cf js \<and> dom js = set names \<and> dealt cf js names s') \<and> length (snd s') < length (snd st)"
    using deal_pass_ok[OF a(5), of "[0..<num_cpus cf]"] a by auto
qed

lemma deal_ok:
  assumes "conf_ok cf" "affs_ok cf js" "dom js = set names" "length names \<le> fuel"
  shows "\<exists>qs. deal cf fuel js names = Inr qs \<and> dealt cf js names (qs, [])"
proof -
  have "dealt cf js names (replicate (num_cpus cf) [], names)" by (auto simp: dealt_def)
  then show ?thesis using dl.loop_ends[of cf js names "(replicate (num_cpus cf) [], names)" fuel] assms by (auto simp: deal_def)
qed

lemma scheduler_init_ok:
  assumes cf: "conf_ok cf" and st: "steals cf \<Longrightarrow> 2 \<le> num_cpus cf \<and> aff = []" and p: "parse_jobs cf entries aff = Inr (js, names)" and fuel: "length names \<le> fuel"
  shows "\<exists>s. scheduler_init cf fuel entries aff shs chs = Inr s \<and> minv cf s \<and> jobs s = js \<and> job_name_list s = names \<and> places s = mset names \<and> system_time s = 0 \<and> jobs_finished s = 0
    \<and> stats_ran s = replicate (num_cpus cf) 0 \<and> stats_ran_warm s = replicate (num_cpus cf) 0 \<and> shuffles s = shs \<and> choices s = chs"
proof -
  have js: "affs_ok cf js" "dom js = set names" "distinct names" using parse_jobs_ok[OF p st] by auto
  have "\<exists>qs. (if per_cpu_queues cf then deal cf fuel js names else Inr [names]) = Inr qs \<and> length qs = (if per_cpu_queues cf then num_cpus cf else 1) \<and> mset (concat qs) = mset names
      \<and> (per_cpu_queues cf \<longrightarrow> (\<forall>c < num_cpus cf. \<forall>name \<in> set (qs ! c). allowed js c name))"
    using deal_ok[OF cf js(1,2) fuel] by (auto simp: dealt_def)
  then obtain qs where qs: "(if per_cpu_queues cf then deal cf fuel js names else Inr [names]) = Inr qs" "length qs = (if per_cpu_queues cf then num_cpus cf else 1)" "mset (concat qs) = mset names"
      "per_cpu_queues cf \<longrightarrow> (\<forall>c < num_cpus cf. \<forall>name \<in> set (qs ! c). allowed js c name)" by blast
  define s where "s = \<lparr>jobs = js, job_name_list = names, queues = qs, sched_current = replicate (num_cpus cf) None,
      caches = replicate (num_cpus cf) \<lparr>cache_contents = [], cache_warming = [], cache_warming_counter = Map.empty\<rparr>,
      stats_ran = replicate (num_cpus cf) 0, stats_ran_warm = replicate (num_cpus cf) 0, system_time = 0, jobs_finished = 0, shuffles = shs, choices = chs\<rparr>"
  have f: "jobs s = js" "job_name_list s = names" "queues s = qs" "sched_current s = replicate (num_cpus cf) None" "system_time s = 0" "jobs_finished s = 0" "shuffles s = shs" "choices s = chs"
    "stats_ran s = replicate (num_cpus cf) 0" "stats_ran_warm s = replicate (num_cpus cf) 0" "caches s = replicate (num_cpus cf) \<lparr>cache_contents = [], cache_warming = [], cache_warming_counter = Map.empty\<rparr>"
    by (simp_all add: s_def)
  have pl: "places s = mset names" using qs(3) by (simp add: places_def f runs_def)
  have "minv cf s" unfolding minv_def pl unfolding f
  proof (intro conjI allI impI ballI)
    show "count (mset names) x \<le> 1" for x using js(3) by (simp add: distinct_count_atmost_1)
    show "cache_ok cf js c" if "c \<in> set (replicate (num_cpus cf) \<lparr>cache_contents = [], cache_warming = [], cache_warming_counter = Map.empty\<rparr>)" for c
      using that cf by (auto simp: cache_ok_def ws_sum_def conf_ok_def)
    show "time_left j = 0" if "js name = Some j" "name \<notin># mset names" for name j using that js(2) by auto
  qed (use js qs cf in \<open>auto simp: conf_ok_def\<close>)
  moreover have "scheduler_init cf fuel entries aff shs chs = Inr s" using p qs(1) by (simp add: scheduler_init_def s_def)
  ultimately show ?thesis using pl f by blast
qed

lemma length_le_sum: "(\<And>x. x \<in> set xs \<Longrightarrow> 1 \<le> f x) \<Longrightarrow> length xs \<le> (\<Sum>x\<leftarrow>xs. f x :: nat)"
  by (induction xs) force+

section \<open>Properties\<close>

text \<open>C20. The main program runs every job to its end. With the jobs and their affinities read from the arguments, a slice that is not 0, rates of at least 1 and a cache size that is not
  negative, the run ends within the sum of the run times (a job with no time counts for one tick): then all jobs are finished with no time left,
  and no processor was used for longer than the run took, nor warm for longer than it was used. Without stealing the affinities are any; stealing compares the number of the
  processor with the wrong fields of a job, so for it no affinities are given and there are two processors.\<close>

theorem multi_completes:
  assumes "conf_ok cf" "steals cf \<Longrightarrow> 2 \<le> num_cpus cf \<and> aff = []"
    and "job_text job_list job_num max_run max_wset draws = Inr t" "parse_jobs cf (split_on CHR '','' t) aff = Inr (js, names)"
    and "(\<Sum>name\<leftarrow>names. nat (max 1 (run_time (the (js name))))) = T" "T \<le> fuel"
    and "random_order cf \<Longrightarrow> T \<le> length shs \<and> (\<forall>cpus \<in> set shs. mset cpus = mset [0..<num_cpus cf])" "steals cf \<Longrightarrow> T * num_cpus cf \<le> length chs"
  shows "\<exists>s. multi_main cf fuel job_list aff job_num max_run max_wset draws shs chs = Inr s
    \<and> jobs_finished s = int (length names) \<and> dom (jobs s) = set names \<and> (\<forall>name j. jobs s name = Some j \<longrightarrow> time_left j = 0) \<and> places s = {#}
    \<and> system_time s \<le> int T \<and> (\<forall>c < num_cpus cf. 0 \<le> stats_ran_warm s ! c \<and> stats_ran_warm s ! c \<le> stats_ran s ! c \<and> stats_ran s ! c \<le> system_time s)"
proof -
  have js: "dom js = set names" "\<forall>name j. js name = Some j \<longrightarrow> time_left j = run_time j" using parse_jobs_ok[OF assms(4,2)] by auto
  have T: "(\<Sum>name\<leftarrow>names. ticks js name) = T" unfolding assms(5)[symmetric] ticks_def
    by (intro arg_cong[of _ _ sum_list] map_cong refl) (metis js domD option.sel)
  have "length names \<le> T" unfolding T[symmetric] by (rule length_le_sum) (simp add: ticks_def)
  then have "length names \<le> fuel" using assms(6) by simp
  from scheduler_init_ok[OF assms(1,2,4) this, of shs chs] obtain s where s: "scheduler_init cf fuel (split_on CHR '','' t) aff shs chs = Inr s" "minv cf s" "jobs s = js" "job_name_list s = names" "places s = mset names"
    "system_time s = 0" "jobs_finished s = 0" "stats_ran s = replicate (num_cpus cf) 0" "stats_ran_warm s = replicate (num_cpus cf) 0" "shuffles s = shs" "choices s = chs" by blast
  have td: "work_left s = T" using s(3,5) T by (simp add: work_left_def sum_mset_sum_list[symmetric])
  have e: "s\<lparr>system_time := 0, jobs_finished := 0\<rparr> = s" using s(6,7) by (cases s) simp
  have "mloop cf names T s" using assms(1,7,8) s td by (simp add: mloop_def supplied_def)
  then obtain s' where s': "mprun cf fuel s = Inr s'" "mloop cf names T s'" "places s' = {#}" using mprun_ok[of cf names T s fuel] e td assms(6) by auto
  have inv: "minv cf s'" and l: "job_name_list s' = names" using s'(2) by (simp_all add: mloop_def)
  have "multi_main cf fuel job_list aff job_num max_run max_wset draws shs chs = Inr s'" using assms(3) s(1) s'(1) by (simp add: multi_main_def)
  moreover have "jobs_finished s' = int (length names)" using minvD(10)[OF inv] s'(3) l by simp
  moreover have "dom (jobs s') = set names" using minvD(7)[OF inv] l by simp
  moreover have "\<forall>name j. jobs s' name = Some j \<longrightarrow> time_left j = 0" using minvD(14)[OF inv] s'(3) by simp
  moreover have "system_time s' \<le> int T" using s'(2) by (simp add: mloop_def)
  moreover have "\<forall>c < num_cpus cf. 0 \<le> stats_ran_warm s' ! c \<and> stats_ran_warm s' ! c \<le> stats_ran s' ! c \<and> stats_ran s' ! c \<le> system_time s'" using s'(2) by (simp add: mloop_def)
  ultimately show ?thesis using s'(3) by blast
qed

text \<open>A machine with two processors, a queue for each, and stealing at every tick.\<close>

definition two_cpus :: "bool \<Rightarrow> mpconf" where
  "two_cpus r = \<lparr>per_cpu_queues = True, peek_interval = 1, num_cpus = 2, time_slice = 1, random_order = r, cache_size = 100, cache_rate_cold = 1, cache_rate_warm = 2, cache_warmup_time = 10\<rparr>"

lemma two_cpus_sel [simp]:
  "per_cpu_queues (two_cpus r) = True" "peek_interval (two_cpus r) = 1" "num_cpus (two_cpus r) = 2" "time_slice (two_cpus r) = 1" "random_order (two_cpus r) = r"
  by (simp_all add: two_cpus_def)

lemma upto_two: "[0..<2] = [0, 1::nat]"
  by code_simp

theorem multi_completes_witness:
  "\<exists>s. multi_main (two_cpus True) 5 ''a:3:10,b:2:5'' [] 0 0 0 [] (replicate 5 [1, 0]) (replicate 10 0) = Inr s
    \<and> jobs_finished s = 2 \<and> dom (jobs s) = {''a'', ''b''} \<and> system_time s \<le> 5"
proof -
  define js where "js = [''a'' \<mapsto> \<lparr>run_time = 3, working_set_size = 10, affinity = [], time_left = 3\<rparr>, ''b'' \<mapsto> \<lparr>run_time = 2, working_set_size = 5, affinity = [], time_left = 2\<rparr>]"
  have t: "job_text ''a:3:10,b:2:5'' 0 0 0 [] = Inr ''a:3:10,b:2:5''" by (simp add: job_text_def)
  have e: "split_on CHR '','' ''a:3:10,b:2:5'' = [''a:3:10'', ''b:2:5'']" by code_simp
  have w: "split_on CHR '':'' ''a:3:10'' = [''a'', ''3'', ''10'']" "split_on CHR '':'' ''b:2:5'' = [''b'', ''2'', ''5'']" by code_simp+
  have i: "int_of_string ''3'' = Inr 3" "int_of_string ''10'' = Inr 10" "int_of_string ''2'' = Inr 2" "int_of_string ''5'' = Inr 5" by code_simp+
  have p: "parse_jobs (two_cpus True) (split_on CHR '','' ''a:3:10,b:2:5'') [] = Inr (js, [''a'', ''b''])"
    by (simp add: parse_jobs_def e add_entry_def w i js_def)
  have c: "conf_ok (two_cpus True)" by (simp add: conf_ok_def two_cpus_def)
  have T: "(\<Sum>name\<leftarrow>[''a'', ''b'']. nat (max 1 (run_time (the (js name))))) = 5" by (simp add: js_def)
  obtain s where "multi_main (two_cpus True) 5 ''a:3:10,b:2:5'' [] 0 0 0 [] (replicate 5 [1, 0]) (replicate 10 0) = Inr s"
    "jobs_finished s = int (length [''a'', ''b''])" "dom (jobs s) = set [''a'', ''b'']" "system_time s \<le> int 5"
    using multi_completes[OF c _ t p T, of 5 "replicate 5 [1, 0]" "replicate 10 0"] by (auto simp: upto_two)
  then show ?thesis by auto
qed

section \<open>Stealing against an affinity\<close>

text \<open>One job, bound to the first of two processors that have queues of their own; its working set has the size 1, the number of the other processor.\<close>

definition bound_job :: "int \<Rightarrow> int \<Rightarrow> mpjob" where
  "bound_job r l = \<lparr>run_time = r, working_set_size = 1, affinity = [0], time_left = l\<rparr>"

definition thief_conf :: "mpconf \<Rightarrow> bool" where
  "thief_conf cf \<longleftrightarrow> conf_ok cf \<and> per_cpu_queues cf \<and> num_cpus cf = 2 \<and> \<not> random_order cf \<and> 0 < time_slice cf \<and> 0 < peek_interval cf"

definition top_rate :: "mpconf \<Rightarrow> int" where
  "top_rate cf = max (cache_rate_cold cf) (cache_rate_warm cf)"

text \<open>The time is \<open>t\<close>, and the job has run for at most that long.\<close>

definition one_job :: "mpconf \<Rightarrow> string \<Rightarrow> int \<Rightarrow> int \<Rightarrow> msched \<Rightarrow> bool" where
  "one_job cf name r t s \<longleftrightarrow> job_name_list s = [name] \<and> jobs_finished s = 0 \<and> system_time s = t \<and> 0 < r
     \<and> (\<exists>l. jobs s = [name \<mapsto> bound_job r l] \<and> r - top_rate cf * t \<le> l) \<and> (\<exists>c d. caches s = [c, d] \<and> cache_ok cf (jobs s) c)"

definition waits_at :: "string list \<Rightarrow> string list \<Rightarrow> msched \<Rightarrow> bool" where
  "waits_at q q' s \<longleftrightarrow> queues s = [q, q'] \<and> sched_current s = [None, None]"

definition runs_at_home :: "string \<Rightarrow> msched \<Rightarrow> bool" where
  "runs_at_home name s \<longleftrightarrow> queues s = [[], []] \<and> sched_current s = [Some name, None]"

lemma thief_confD:
  assumes "thief_conf cf"
  shows "conf_ok cf" "per_cpu_queues cf" "num_cpus cf = 2" "\<not> random_order cf" "0 < time_slice cf" "0 < peek_interval cf" "time_slice cf \<noteq> 0" "\<not> peek_interval cf \<le> 0"
  using assms by (simp_all add: thief_conf_def)

lemma one_job_fields:
  assumes "one_job cf name r t s" "job_name_list s' = job_name_list s" "jobs_finished s' = jobs_finished s" "system_time s' = system_time s" "jobs s' = jobs s" "caches s' = caches s"
  shows "one_job cf name r t s'"
  using assms unfolding one_job_def by simp

lemma home_interrupt:
  assumes cf: "thief_conf cf" and s: "one_job cf name r t s"
  shows "runs_at_home name s \<Longrightarrow> \<exists>s'. handle_interrupts cf s = Inr s' \<and> one_job cf name r t s' \<and> choices s' = choices s
      \<and> (if t mod time_slice cf = 0 \<and> 0 < t then waits_at [name] [] s' else runs_at_home name s')"
    and "waits_at q q' s \<Longrightarrow> handle_interrupts cf s = Inr s"
proof -
  have t: "system_time s = t" using s by (simp add: one_job_def)
  note c = thief_confD[OF cf]
  show "handle_interrupts cf s = Inr s" if "waits_at q q' s"
    using that c by (simp add: handle_interrupts_def upto_two handle_one_interrupt_def waits_at_def)
  assume h: "runs_at_home name s"
  show "\<exists>s'. handle_interrupts cf s = Inr s' \<and> one_job cf name r t s' \<and> choices s' = choices s
      \<and> (if t mod time_slice cf = 0 \<and> 0 < t then waits_at [name] [] s' else runs_at_home name s')"
  proof (cases "t mod time_slice cf = 0 \<and> 0 < t")
    case True
    define s' where "s' = s\<lparr>sched_current := [None, None], queues := [[name], []]\<rparr>"
    have "handle_interrupts cf s = Inr s'"
      using True h t c by (simp add: handle_interrupts_def upto_two handle_one_interrupt_def runs_at_home_def queue_of_def s'_def)
    moreover have "one_job cf name r t s'" by (rule one_job_fields[OF s]) (simp_all add: s'_def)
    ultimately show ?thesis using True by (simp add: s'_def waits_at_def)
  next
    case False
    then have "handle_interrupts cf s = Inr s"
      using h t c by (auto simp: handle_interrupts_def upto_two handle_one_interrupt_def runs_at_home_def)
    then show ?thesis using s h False by auto
  qed
qed

lemma bnd_return: "bnd m Inr = m"
  by (cases m) simp_all

text \<open>The only choice of a processor is the other one.\<close>

lemma steal_other:
  assumes "num_cpus cf = 2" "c < 2" "queues s ! c = []" "choices s = k # ks"
  shows "steal_one cf s c = (case find (\<lambda>name. case jobs s name of None \<Rightarrow> False | Some j \<Rightarrow> may_steal j c) (queues s ! (1 - c)) of
      None \<Rightarrow> Inr (s\<lparr>choices := ks\<rparr>)
    | Some name \<Rightarrow> Inr (s\<lparr>choices := ks, queues := (queues s)[1 - c := remove1 name (queues s ! (1 - c)), c := [name]]\<rparr>))"
proof -
  have "c = 0 \<or> c = 1" using assms(2) by auto
  then have "filter (\<lambda>d. d \<noteq> c) [0..<num_cpus cf] = [1 - c]" using assms(1) upto_two by auto
  then show ?thesis using assms by (simp add: steal_one_def Let_def split: option.split)
qed

lemma steal_when:
  assumes "thief_conf cf" "system_time s = t"
  shows "steal_jobs cf s = (if 0 < t \<and> t mod peek_interval cf = 0 then bnd (steal_one cf s 0) (\<lambda>s. steal_one cf s 1) else Inr s)"
  using assms thief_confD[OF assms(1)] by (auto simp: steal_jobs_def upto_two bnd_return)

lemma home_steal:
  assumes cf: "thief_conf cf" and s: "one_job cf name r t s" and ch: "2 \<le> length (choices s)"
  shows "runs_at_home name s \<Longrightarrow> \<exists>s'. steal_jobs cf s = Inr s' \<and> one_job cf name r t s' \<and> length (choices s) \<le> length (choices s') + 2 \<and> runs_at_home name s'"
    and "waits_at [name] [] s \<Longrightarrow> \<exists>s'. steal_jobs cf s = Inr s' \<and> one_job cf name r t s' \<and> length (choices s) \<le> length (choices s') + 2
      \<and> (if 0 < t \<and> t mod peek_interval cf = 0 then waits_at [] [name] s' else waits_at [name] [] s')"
    and "waits_at [] [name] s \<Longrightarrow> \<exists>s'. steal_jobs cf s = Inr s' \<and> one_job cf name r t s' \<and> length (choices s) \<le> length (choices s') + 2 \<and> waits_at [] [name] s'"
proof -
  note w = steal_when[OF cf, of s t]
  have t: "system_time s = t" using s by (simp add: one_job_def)
  have n: "num_cpus cf = 2" using thief_confD[OF cf] by simp
  obtain k k' ks where ks: "choices s = k # k' # ks" using ch by (cases "choices s"; cases "tl (choices s)") auto
  obtain l where j: "jobs s = [name \<mapsto> bound_job r l]" "0 < r" using s by (auto simp: one_job_def)
  define u where "u = s\<lparr>choices := k' # ks\<rparr>"
  define v where "v = s\<lparr>choices := ks\<rparr>"
  have uv: "one_job cf name r t u" "one_job cf name r t v" by (rule one_job_fields[OF s]; simp add: u_def v_def)+
  show "\<exists>s'. steal_jobs cf s = Inr s' \<and> one_job cf name r t s' \<and> length (choices s) \<le> length (choices s') + 2 \<and> runs_at_home name s'" if h: "runs_at_home name s"
  proof (cases "0 < t \<and> t mod peek_interval cf = 0")
    case True
    have "steal_one cf s 0 = Inr u" using steal_other[OF n _ _ ks, of 0] h by (simp add: runs_at_home_def u_def)
    moreover have "steal_one cf u 1 = Inr v" using steal_other[OF n, of 1 u k' ks] h by (simp add: runs_at_home_def u_def v_def)
    ultimately have "steal_jobs cf s = Inr v" using w t True by simp
    then show ?thesis using uv(2) h ks by (simp add: v_def runs_at_home_def)
  next
    case False
    then have "steal_jobs cf s = Inr s" using w t by auto
    then show ?thesis using s h by simp
  qed
  show "\<exists>s'. steal_jobs cf s = Inr s' \<and> one_job cf name r t s' \<and> length (choices s) \<le> length (choices s') + 2 \<and> waits_at [] [name] s'" if h: "waits_at [] [name] s"
  proof (cases "0 < t \<and> t mod peek_interval cf = 0")
    case True
    have "steal_one cf s 0 = Inr u" using steal_other[OF n _ _ ks, of 0] h j by (simp add: waits_at_def u_def may_steal_def bound_job_def)
    moreover have "steal_one cf u 1 = Inr u" using h by (simp add: steal_one_def waits_at_def u_def)
    ultimately have "steal_jobs cf s = Inr u" using w t True by simp
    then show ?thesis using uv(1) h ks by (simp add: u_def waits_at_def)
  next
    case False
    then have "steal_jobs cf s = Inr s" using w t by auto
    then show ?thesis using s h by simp
  qed
  show "\<exists>s'. steal_jobs cf s = Inr s' \<and> one_job cf name r t s' \<and> length (choices s) \<le> length (choices s') + 2
      \<and> (if 0 < t \<and> t mod peek_interval cf = 0 then waits_at [] [name] s' else waits_at [name] [] s')" if h: "waits_at [name] [] s"
  proof (cases "0 < t \<and> t mod peek_interval cf = 0")
    case True
    define x where "x = s\<lparr>choices := k' # ks, queues := [[], [name]]\<rparr>"
    have "steal_one cf s 0 = Inr s" using h by (simp add: steal_one_def waits_at_def)
    moreover have "steal_one cf s 1 = Inr x" using steal_other[OF n _ _ ks, of 1] h j by (simp add: waits_at_def x_def may_steal_def bound_job_def)
    ultimately have "steal_jobs cf s = Inr x" using w t True by simp
    moreover have "one_job cf name r t x" by (rule one_job_fields[OF s]) (simp_all add: x_def)
    ultimately show ?thesis using True h ks by (simp add: x_def waits_at_def)
  next
    case False
    then have "steal_jobs cf s = Inr s" using w t by auto
    then show ?thesis using s h False by auto
  qed
qed

lemma home_assign:
  assumes cf: "thief_conf cf" and s: "one_job cf name r t s"
  shows "runs_at_home name s \<Longrightarrow> assign_jobs cf s = Inr s"
    and "waits_at [] [name] s \<Longrightarrow> assign_jobs cf s = Inr s"
    and "waits_at [name] [] s \<Longrightarrow> \<exists>s'. assign_jobs cf s = Inr s' \<and> one_job cf name r t s' \<and> choices s' = choices s \<and> runs_at_home name s'"
proof -
  note c = thief_confD[OF cf]
  obtain l where j: "jobs s = [name \<mapsto> bound_job r l]" using s by (auto simp: one_job_def)
  have a: "assign_jobs cf s = bnd (assign_one cf s 0) (\<lambda>s. assign_one cf s 1)" using c by (simp add: assign_jobs_def upto_two bnd_return)
  have none: "get_job cf x 1 = Inr x" if "queues x ! 1 = []" for x using that c by (simp add: get_job_def queue_of_def)
  show "assign_jobs cf s = Inr s" if "runs_at_home name s" using that none[of s] unfolding a by (simp add: assign_one_def runs_at_home_def)
  show "assign_jobs cf s = Inr s" if "waits_at [] [name] s"
    using that c j unfolding a by (simp add: assign_one_def waits_at_def get_job_def queue_of_def allowed_def bound_job_def)
  assume h: "waits_at [name] [] s"
  obtain k d where kd: "caches s = [k, d]" "cache_ok cf (jobs s) k" using s by (auto simp: one_job_def)
  obtain k' where k': "cache_new_job cf (jobs s) name k = Inr k'" "cache_ok cf (jobs s) k'" using cache_new_job_ok[OF kd(2) _ c(1), of name] j by auto
  define s' where "s' = s\<lparr>queues := [[], []], sched_current := [Some name, None], caches := [k', d]\<rparr>"
  have "get_job cf s 0 = Inr s'" using h c j k'(1) kd(1)
    by (simp add: get_job_def waits_at_def queue_of_def allowed_def bound_job_def s'_def remove_nth_def)
  then have "assign_jobs cf s = Inr s'" using h none[of s'] unfolding a by (simp add: assign_one_def waits_at_def s'_def)
  moreover have "one_job cf name r t s'" using s k'(2) unfolding one_job_def by (auto simp: s'_def)
  ultimately show "\<exists>s'. assign_jobs cf s = Inr s' \<and> one_job cf name r t s' \<and> choices s' = choices s \<and> runs_at_home name s'" by (simp add: s'_def runs_at_home_def)
qed

lemma home_run:
  assumes cf: "thief_conf cf" and s: "one_job cf name r t s"
  shows "waits_at q q' s \<Longrightarrow> run_jobs cf s = Inr s"
    and "runs_at_home name s \<Longrightarrow> top_rate cf * (t + 1) < r \<Longrightarrow>
      \<exists>s'. run_jobs cf s = Inr s' \<and> one_job cf name r (t + 1) (s'\<lparr>system_time := system_time s' + 1\<rparr>) \<and> choices s' = choices s \<and> runs_at_home name s'"
proof -
  note c = thief_confD[OF cf]
  have e: "run_jobs cf s = bnd (run_one_tick cf s 0) (\<lambda>s. run_one_tick cf s 1)" using c by (simp add: run_jobs_def upto_two bnd_return)
  show "run_jobs cf s = Inr s" if "waits_at q q' s" using that unfolding e by (simp add: run_one_tick_def waits_at_def)
  assume h: "runs_at_home name s" and r: "top_rate cf * (t + 1) < r"
  obtain l where j: "jobs s = [name \<mapsto> bound_job r l]" "r - top_rate cf * t \<le> l" using s by (auto simp: one_job_def)
  obtain k d where kd: "caches s = [k, d]" "cache_ok cf (jobs s) k" using s by (auto simp: one_job_def)
  define rate where "rate = get_rate cf name k"
  have rt: "rate \<le> top_rate cf" by (simp add: rate_def get_rate_def top_rate_def)
  have "top_rate cf * (t + 1) = top_rate cf * t + top_rate cf" by (simp add: algebra_simps)
  then have left: "r - top_rate cf * (t + 1) \<le> l - rate" "0 < l - rate" using j(2) r rt by linarith+
  define js where "js = [name \<mapsto> bound_job r (l - rate)]"
  have js: "(jobs s)(name \<mapsto> (bound_job r l)\<lparr>time_left := l - rate\<rparr>) = js" by (simp add: js_def j bound_job_def)
  have "cache_ok cf js k" using cache_same[of "jobs s" name "bound_job r l" cf "l - rate"] kd(2) j(1) js by simp
  then obtain k' where k': "update_warming cf js name k = Inr k'" "cache_ok cf js k'" using update_warming_ok[OF _ _ c(1), of js k name] by (auto simp: js_def)
  define s' where "s' = s\<lparr>stats_ran := (stats_ran s)[0 := stats_ran s ! 0 + 1], stats_ran_warm := (stats_ran_warm s)[0 := stats_ran_warm s ! 0 + (if rate > 1 then 1 else 0)], jobs := js, caches := [k', d]\<rparr>"
  have tl: "time_left (bound_job r l) = l" by (simp add: bound_job_def)
  have "run_one_tick cf s 0 = Inr s'"
  proof -
    have "dict_get (jobs s) name = Inr (bound_job r l)" "sched_current s ! 0 = Some name" "caches s ! 0 = k" "(if l - rate < 0 then 0 else l - rate) = l - rate" "\<not> l - rate \<le> 0"
      using j h kd left by (simp_all add: runs_at_home_def)
    then show ?thesis by (simp only: run_one_tick_def option.case bnd_simps Let_def rate_def[symmetric] tl if_False js)
        (use k'(1) kd(1) js in \<open>simp add: s'_def\<close>)
  qed
  moreover have "run_one_tick cf s' 1 = Inr s'" using h by (simp add: run_one_tick_def s'_def runs_at_home_def)
  ultimately have "run_jobs cf s = Inr s'" unfolding e by simp
  moreover have "one_job cf name r (t + 1) (s'\<lparr>system_time := system_time s' + 1\<rparr>)"
    using s k'(2) left(1) unfolding one_job_def by (auto simp: s'_def js_def)
  ultimately show "\<exists>s'. run_jobs cf s = Inr s' \<and> one_job cf name r (t + 1) (s'\<lparr>system_time := system_time s' + 1\<rparr>) \<and> choices s' = choices s \<and> runs_at_home name s'"
    using h by (auto simp: s'_def runs_at_home_def)
qed

text \<open>A tick of the loop. Until the first time that is a multiple of both intervals the job stays at home; then it is stolen, and from then on nothing happens.\<close>

lemma stolen_rest:
  assumes cf: "thief_conf cf" and s: "one_job cf name r t s" and w: "waits_at [] [name] s"
    and step: "mtick cf s0 = bnd (assign_jobs cf s) (\<lambda>s. bnd (run_jobs cf s) (\<lambda>s. Inr (s\<lparr>system_time := system_time s + 1\<rparr>)))" and top: "0 \<le> top_rate cf"
  shows "\<exists>s'. mtick cf s0 = Inr s' \<and> one_job cf name r (t + 1) s' \<and> choices s' = choices s \<and> waits_at [] [name] s'"
proof -
  have "mtick cf s0 = Inr (s\<lparr>system_time := system_time s + 1\<rparr>)" using step home_assign(2)[OF cf s w] home_run(1)[OF cf s w] by simp
  moreover have "one_job cf name r (t + 1) (s\<lparr>system_time := system_time s + 1\<rparr>)" using s top unfolding one_job_def by (auto simp: distrib_left)
  ultimately show ?thesis using w by (simp add: waits_at_def)
qed

lemma top_rate_pos: "thief_conf cf \<Longrightarrow> 1 \<le> top_rate cf"
  by (auto simp: thief_conf_def conf_ok_def top_rate_def)

lemma stolen_tick:
  assumes cf: "thief_conf cf" and s: "one_job cf name r t s" and w: "waits_at [] [name] s" and ch: "2 \<le> length (choices s)"
  shows "\<exists>s'. mtick cf s = Inr s' \<and> one_job cf name r (t + 1) s' \<and> length (choices s) \<le> length (choices s') + 2 \<and> waits_at [] [name] s'"
proof -
  obtain u where u: "steal_jobs cf s = Inr u" "one_job cf name r t u" "length (choices s) \<le> length (choices u) + 2" "waits_at [] [name] u" using home_steal(3)[OF cf s ch w] by blast
  have "mtick cf s = bnd (assign_jobs cf u) (\<lambda>s. bnd (run_jobs cf s) (\<lambda>s. Inr (s\<lparr>system_time := system_time s + 1\<rparr>)))"
    using home_interrupt(2)[OF cf s w] u(1) by (simp add: mtick_def)
  from stolen_rest[OF cf u(2,4) this] show ?thesis using top_rate_pos[OF cf] u(3) by auto
qed

lemma home_tick:
  assumes cf: "thief_conf cf" and s: "one_job cf name r t s" and t: "0 \<le> t" and h: "if t = 0 then waits_at [name] [] s else runs_at_home name s" and ch: "2 \<le> length (choices s)"
    and long: "top_rate cf * (t + 1) < r"
  shows "\<exists>s'. mtick cf s = Inr s' \<and> one_job cf name r (t + 1) s' \<and> length (choices s) \<le> length (choices s') + 2
    \<and> (if 0 < t \<and> t mod time_slice cf = 0 \<and> t mod peek_interval cf = 0 then waits_at [] [name] s' else runs_at_home name s')"
proof -
  obtain a where a: "handle_interrupts cf s = Inr a" "one_job cf name r t a" "choices a = choices s"
    "if t = 0 \<or> t mod time_slice cf = 0 then waits_at [name] [] a else runs_at_home name a"
    using home_interrupt[OF cf s] s h t by (cases "t = 0") (auto split: if_splits)
  have ch': "2 \<le> length (choices a)" using ch a(3) by simp
  obtain b where b: "steal_jobs cf a = Inr b" "one_job cf name r t b" "length (choices a) \<le> length (choices b) + 2"
    "if t = 0 \<or> t mod time_slice cf = 0 then (if 0 < t \<and> t mod peek_interval cf = 0 then waits_at [] [name] b else waits_at [name] [] b) else runs_at_home name b"
    using home_steal(1,2)[OF cf a(2) ch'] a(4) by (cases "t = 0 \<or> t mod time_slice cf = 0") auto
  have tick: "mtick cf s = bnd (assign_jobs cf b) (\<lambda>s. bnd (run_jobs cf s) (\<lambda>s. Inr (s\<lparr>system_time := system_time s + 1\<rparr>)))"
    using a(1) b(1) by (simp add: mtick_def)
  show ?thesis
  proof (cases "0 < t \<and> t mod time_slice cf = 0 \<and> t mod peek_interval cf = 0")
    case True
    then have "waits_at [] [name] b" using b(4) by simp
    from stolen_rest[OF cf b(2) this tick] show ?thesis using True top_rate_pos[OF cf] b(3) a(3) by auto
  next
    case False
    then have "waits_at [name] [] b \<or> runs_at_home name b" using b(4) t by (auto split: if_splits)
    then obtain c where c: "assign_jobs cf b = Inr c" "one_job cf name r t c" "choices c = choices b" "runs_at_home name c"
      using home_assign(1,3)[OF cf b(2)] b(2) by blast
    obtain d where d: "run_jobs cf c = Inr d" "one_job cf name r (t + 1) (d\<lparr>system_time := system_time d + 1\<rparr>)" "choices d = choices c" "runs_at_home name d"
      using home_run(2)[OF cf c(2,4) long] by blast
    have "mtick cf s = Inr (d\<lparr>system_time := system_time d + 1\<rparr>)" using tick c(1) d(1) by simp
    moreover have "runs_at_home name (d\<lparr>system_time := system_time d + 1\<rparr>)" using d(4) by (simp add: runs_at_home_def)
    ultimately show ?thesis using False d(2,3) c(3) b(3) a(3) by auto
  qed
qed

text \<open>Any number of rounds; \<open>L\<close> is the time of the theft.\<close>

lemma foldres_replicate_Suc: "foldres (\<lambda>s _. b s) s (replicate (Suc n) ()) = bnd (foldres (\<lambda>s _. b s) s (replicate n ())) b"
  unfolding replicate_append_same[symmetric] replicate_Suc foldres_append by (simp add: bnd_return)

lemma rounds_of_thief:
  assumes cf: "thief_conf cf" and s: "one_job cf name r 0 s0" and w: "waits_at [name] [] s0" and L: "L = lcm (time_slice cf) (peek_interval cf)" and long: "top_rate cf * (L + 1) < r"
    and ch: "2 * n \<le> length (choices s0)"
  shows "\<exists>s. foldres (\<lambda>s _. mtick cf s) s0 (replicate n ()) = Inr s \<and> one_job cf name r (int n) s \<and> length (choices s0) \<le> length (choices s) + 2 * n
    \<and> (if n = 0 then waits_at [name] [] s else if int n \<le> L then runs_at_home name s else waits_at [] [name] s)"
  using ch
proof (induction n)
  case 0
  then show ?case using s w by simp
next
  case (Suc n)
  then obtain s where x: "foldres (\<lambda>s _. mtick cf s) s0 (replicate n ()) = Inr s" "one_job cf name r (int n) s" "length (choices s0) \<le> length (choices s) + 2 * n"
    "if n = 0 then waits_at [name] [] s else if int n \<le> L then runs_at_home name s else waits_at [] [name] s" by auto
  have c: "2 \<le> length (choices s)" using x(3) Suc.prems by simp
  have L0: "0 < L" "time_slice cf dvd L" "peek_interval cf dvd L" using L thief_confD[OF cf] by (simp_all add: lcm_pos_int)
  have "\<exists>s'. mtick cf s = Inr s' \<and> one_job cf name r (int n + 1) s' \<and> length (choices s) \<le> length (choices s') + 2
    \<and> (if int n < L then runs_at_home name s' else waits_at [] [name] s')"
  proof (cases "int n \<le> L")
    case True
    have "top_rate cf * (int n + 1) \<le> top_rate cf * (L + 1)" using True top_rate_pos[OF cf] by (intro mult_left_mono) auto
    then have lg: "top_rate cf * (int n + 1) < r" using long by simp
    have both: "0 < int n \<and> int n mod time_slice cf = 0 \<and> int n mod peek_interval cf = 0 \<longleftrightarrow> int n = L"
    proof
      assume a: "0 < int n \<and> int n mod time_slice cf = 0 \<and> int n mod peek_interval cf = 0"
      then have "L dvd int n" unfolding L by (intro lcm_least) (auto simp: mod_eq_0_iff_dvd)
      then show "int n = L" using a True by (meson order.antisym zdvd_imp_le)
    qed (use L0 in \<open>auto simp: mod_eq_0_iff_dvd\<close>)
    have "if int n = 0 then waits_at [name] [] s else runs_at_home name s" using x(4) True by simp
    from home_tick[OF cf x(2) _ this c lg] show ?thesis unfolding both using True by auto
  next
    case False
    then have "waits_at [] [name] s" using x(4) L0 by (auto split: if_splits)
    from stolen_tick[OF cf x(2) this c] show ?thesis using False by auto
  qed
  then obtain s' where s': "mtick cf s = Inr s'" "one_job cf name r (int n + 1) s'" "length (choices s) \<le> length (choices s') + 2"
    "if int n < L then runs_at_home name s' else waits_at [] [name] s'" by blast
  have "int (Suc n) = int n + 1" "int (Suc n) \<le> L \<longleftrightarrow> int n < L" by auto
  then show ?case using x(1,3) s' unfolding foldres_replicate_Suc by (intro exI[of _ s']) (simp add: add.commute)
qed

lemma while_res_runs:
  assumes "\<And>n. n \<le> k \<Longrightarrow> \<exists>s. foldres (\<lambda>s _. b s) s0 (replicate n ()) = Inr s \<and> g s"
  shows "while_res g b k s0 = Inl NoReturn"
  using assms
proof (induction k arbitrary: s0)
  case 0
  then show ?case using 0[of 0] by simp
next
  case (Suc k)
  have g: "g s0" using Suc.prems[of 0] by simp
  obtain t where t: "b s0 = Inr t" using Suc.prems[of 1] by (auto simp: bnd_return)
  have "\<exists>s. foldres (\<lambda>s _. b s) t (replicate n ()) = Inr s \<and> g s" if "n \<le> k" for n using Suc.prems[of "Suc n"] that t by simp
  then show ?case using Suc.IH[of t] g t by simp
qed

lemma deal_bound:
  assumes "thief_conf cf" "0 < fuel"
  shows "deal cf fuel [name \<mapsto> bound_job r r] [name] = Inr [[name], []]"
proof -
  obtain f where "fuel = Suc f" using assms(2) by (cases fuel) auto
  moreover have "while_res (\<lambda>(qs, rest). rest \<noteq> []) b f (qs, [] :: string list) = Inr (qs, [])" for b and qs :: "string list list" by (cases f) simp_all
  moreover have "foldl (deal_one [name \<mapsto> bound_job r r]) (replicate 2 [], [name]) [0, 1] = ([[name], []], [])"
    by (simp add: deal_one_def allowed_def bound_job_def numeral_2_eq_2)
  ultimately show ?thesis using thief_confD[OF assms(1)] by (simp add: deal_def upto_two)
qed

lemma init_bound:
  assumes cf: "thief_conf cf" and p: "parse_jobs cf entries aff = Inr ([name \<mapsto> bound_job r r], [name])" and "0 < fuel" "0 < r"
  shows "\<exists>s. scheduler_init cf fuel entries aff shs chs = Inr s \<and> one_job cf name r 0 s \<and> waits_at [name] [] s \<and> choices s = chs"
proof -
  have "cache_ok cf js \<lparr>cache_contents = [], cache_warming = [], cache_warming_counter = Map.empty\<rparr>" for js
    using thief_confD[OF cf] by (simp add: cache_ok_def ws_sum_def conf_ok_def)
  then show ?thesis using deal_bound[OF cf assms(3)] p thief_confD[OF cf] assms(4)
    by (auto simp: scheduler_init_def one_job_def waits_at_def numeral_2_eq_2)
qed

text \<open>C40. Stealing ignores affinities, because the number of the processor is compared with the run time and the working set of the job. On two processors with queues of their own, for any
  slice, any interval of stealing and any caches: a job that may only run on the first processor and has a working set of size 1 is stolen by the second one at the first time
  that is a multiple of slice and interval, if it has enough to run until then. From then on it waits, without an error and in every round, in the queue of a processor it may not
  run on, both processors are idle, and the loop of the program never ends. The default options with \<^verbatim>\<open>-p -L a:100:1 -A a:0\<close> are such a case.\<close>

theorem multi_steal_hangs:
  assumes cf: "thief_conf cf" and p: "job_list \<noteq> []" "parse_jobs cf (split_on CHR '','' job_list) aff = Inr ([name \<mapsto> bound_job r r], [name])"
    and long: "top_rate cf * (lcm (time_slice cf) (peek_interval cf) + 1) < r" and k: "lcm (time_slice cf) (peek_interval cf) < int k" and ch: "2 * k \<le> length chs"
  shows "(\<exists>s0 s. scheduler_init cf k (split_on CHR '','' job_list) aff shs chs = Inr s0 \<and> foldres (\<lambda>s _. mtick cf s) s0 (replicate k ()) = Inr s \<and> system_time s = int k
      \<and> queues s = [[], [name]] \<and> \<not> allowed (jobs s) 1 name \<and> sched_current s = [None, None] \<and> jobs_finished s < int (length (job_name_list s)))
    \<and> multi_main cf k job_list aff job_num max_run max_wset draws shs chs = Inl NoReturn"
proof -
  have L: "0 < lcm (time_slice cf) (peek_interval cf)" using thief_confD[OF cf] by (simp add: lcm_pos_int)
  then have "0 < k" using k by simp
  have "0 \<le> top_rate cf * (lcm (time_slice cf) (peek_interval cf) + 1)" using L top_rate_pos[OF cf] by simp
  then have "0 < r" using long by simp
  obtain s0 where s0: "scheduler_init cf k (split_on CHR '','' job_list) aff shs chs = Inr s0" "one_job cf name r 0 s0" "waits_at [name] [] s0" "choices s0 = chs"
    using init_bound[OF cf p(2) \<open>0 < k\<close> \<open>0 < r\<close>] by blast
  have e: "s0\<lparr>system_time := 0, jobs_finished := 0\<rparr> = s0" using s0(2) by (cases s0) (simp add: one_job_def)
  note run = rounds_of_thief[OF cf s0(2,3) HOL.refl long]
  have "\<exists>s. foldres (\<lambda>s _. mtick cf s) s0 (replicate n ()) = Inr s \<and> jobs_finished s < int (length (job_name_list s))" if "n \<le> k" for n
    using run[of n] that ch s0(4) by (auto simp: one_job_def)
  then have "while_res (\<lambda>s. jobs_finished s < int (length (job_name_list s))) (mtick cf) k s0 = Inl NoReturn" by (rule while_res_runs)
  then have "multi_main cf k job_list aff job_num max_run max_wset draws shs chs = Inl NoReturn"
    using p(1) s0(1) e by (simp add: multi_main_def job_text_def mprun_def)
  moreover obtain s where s: "foldres (\<lambda>s _. mtick cf s) s0 (replicate k ()) = Inr s" "one_job cf name r (int k) s" "waits_at [] [name] s"
    using run[of k] ch s0(4) k L by (auto split: if_splits)
  have "\<not> allowed (jobs s) 1 name" using s(2) by (auto simp: one_job_def allowed_def bound_job_def)
  then have "system_time s = int k \<and> queues s = [[], [name]] \<and> \<not> allowed (jobs s) 1 name \<and> sched_current s = [None, None] \<and> jobs_finished s < int (length (job_name_list s))"
    using s(2,3) by (auto simp: one_job_def waits_at_def)
  ultimately show ?thesis using s0(1) s(1) by blast
qed

text \<open>The default options, for 50 rounds.\<close>

definition default_conf :: mpconf where
  "default_conf = \<lparr>per_cpu_queues = True, peek_interval = 30, num_cpus = 2, time_slice = 10, random_order = False, cache_size = 100, cache_rate_cold = 1, cache_rate_warm = 2, cache_warmup_time = 10\<rparr>"

theorem multi_steal_hangs_witness:
  "\<exists>s0 s. scheduler_init default_conf 50 (split_on CHR '','' ''a:100:1'') ''a:0'' [] (replicate 100 0) = Inr s0 \<and> foldres (\<lambda>s _. mtick default_conf s) s0 (replicate 50 ()) = Inr s
    \<and> queues s = [[], [''a'']] \<and> \<not> allowed (jobs s) 1 ''a'' \<and> sched_current s = [None, None]"
proof -
  have e: "split_on CHR '','' ''a:100:1'' = [''a:100:1'']" "split_on CHR '','' ''a:0'' = [''a:0'']" by code_simp+
  have w: "split_on CHR '':'' ''a:100:1'' = [''a'', ''100'', ''1'']" "split_on CHR '':'' ''a:0'' = [''a'', ''0'']" "split_on CHR ''.'' ''0'' = [''0'']" by code_simp+
  have i: "int_of_string ''100'' = Inr 100" "int_of_string ''1'' = Inr 1" "int_of_string ''0'' = Inr 0" by code_simp+
  have n: "num_cpus default_conf = 2" by (simp add: default_conf_def)
  have p: "parse_jobs default_conf (split_on CHR '','' ''a:100:1'') ''a:0'' = Inr ([''a'' \<mapsto> bound_job 100 100], [''a''])"
    by (simp add: parse_jobs_def e add_entry_def w i add_affinity_def add_cpu_def n bound_job_def)
  have c: "thief_conf default_conf" by (simp add: thief_conf_def default_conf_def conf_ok_def)
  have "lcm (10 :: int) 30 = 30" by code_simp
  then have L: "lcm (time_slice default_conf) (peek_interval default_conf) = 30" "top_rate default_conf = 2" by (simp_all add: default_conf_def top_rate_def)
  show ?thesis using multi_steal_hangs[OF c _ p, of 50 "replicate 100 0" "[]" 0 0 0 "[]", unfolded L] by auto
qed

end
