(* ===== verification/Spec2Isabelle.thy ===== *)
theory Spec2Isabelle
  imports Malloc Ssd_Store X86_Programs Raid Mlfq Paging_Policy Vsfs_Ops Process_Run Page_Tables Fork Scheduler Lottery Address_Spaces Checksum Ssd_Workload Afs Fsck Multi
begin

text \<open>
  Verification of the simulators that make up the Python part of this repository: the homework programs of
  \<^verbatim>\<open>src/ostep/homework\<close>. Each program is a small model of one piece of an operating system (an allocator, a
  scheduler, an address-translation unit, a storage device, a file system, a machine with threads). The programs do not call
  one another: each reads its options, builds its state, runs a loop and prints what happened. They share the conventions of the
  language, which is why the shared part of this development is the Python runtime and the shape of such loops, and each
  program is a component of its own. This theory imports all of them.

  \<^bold>\<open>Layers.\<close>

  \<^item> \<open>Prelude\<close>: the errors a program can stop with (\<open>pyerr\<close>), results \<open>'a res\<close> (an error or a value) and their
    sequencing \<open>bnd\<close>, \<open>foldres\<close> for a \<^verbatim>\<open>for\<close> loop that may stop, list and dictionary access with Python's errors, \<^verbatim>\<open>split\<close>,
    \<^verbatim>\<open>int\<close>, \<^verbatim>\<open>'%d'\<close>, bit fields, random draws. Collections \<open>res_simps\<close> and \<open>py_simps\<close>.
  \<^item> \<open>Machines\<close>: the contracts, as locales. \<open>safe_machine\<close>: operations that keep an invariant and do not fail;
    \<open>refined_machine\<close>: operations that follow an abstract step function; \<open>terminating_loop\<close>: a \<^verbatim>\<open>while\<close> loop (\<open>while_res\<close>, with fuel)
    with an invariant and a measure. The facts on whole runs are proved there once, and every component that has such a loop
    interprets the locale on its own operations.
  \<^item> One or more theories per program, in the order model, invariant, lemmas on each operation, whole runs, properties.

  \<^bold>\<open>Components.\<close> For each: theory, source file, how state and operations correspond, and what is shown.

  \<^item> \<open>Malloc\<close>: \<^verbatim>\<open>vm-freespace/malloc.py\<close>. The record \<open>heap\<close> has the attributes of class \<^verbatim>\<open>malloc\<close>; \<open>malloc\<close>, \<open>addToMap\<close>, \<open>free\<close>, \<open>coalesce\<close>
    are its methods, \<open>random_step\<close> and the request list the two halves of the main program. The invariant: free and
    allocated extents partition the heap. Shown: no assertion fails, no byte is lost or given out twice, what each policy
    chooses and when it fails, the round trip of an allocation and its release, and that coalescing keeps the list sorted with no two adjacent extents.

  \<^item> \<open>Ssd\<close>, \<open>Ssd_Log\<close>, \<open>Ssd_Store\<close>: \<^verbatim>\<open>file-ssd/ssd.py\<close>. Class \<^verbatim>\<open>ssd\<close> with its dictionaries as maps; the direct, ideal and
    log-structured write paths, the garbage collector, and the loop over the commands. The locale \<open>page_store\<close> is the
    contract of a device towards its user, with \<open>kept_store\<close> for one that never loses a page; it is interpreted on the three kinds of devices. Shown: every
    command sequence refines an abstract map of pages, as long as no copy of the collector fails, and what the collector loses on a full device, where all copies fail.

  \<^item> \<open>X86\<close>, \<open>X86_Load\<close>, \<open>X86_Interleave\<close>, \<open>X86_Locks\<close>, \<open>X86_Programs\<close>: \<^verbatim>\<open>threads-locks/x86.py\<close> and the assembly programs beside
    it. \<open>X86\<close> is the machine (class \<^verbatim>\<open>cpu\<close> with its instructions, class \<^verbatim>\<open>process\<close>, class \<^verbatim>\<open>proclist\<close>, the run loop),
    \<open>X86_Load\<close> the assembler. \<open>X86_Interleave\<close> gives the abstract semantics, threads that interleave single instructions, as an
    inductive step relation and shows that the run loop refines it; the locale \<open>safe_program\<close> turns an inductive invariant of the
    step relation into a property of all runs. \<open>X86_Locks\<close> and \<open>X86_Programs\<close> prove, from their source text, the test-and-set,
    ticket and Peterson locks correct for every schedule, and show that the flag lock is not.

  \<^item> \<open>Raid\<close>: \<^verbatim>\<open>file-raid/raid.py\<close>. Classes \<^verbatim>\<open>disk\<close> and \<^verbatim>\<open>raid\<close>, levels 0, 1, 4 and 5, the main program. Locales \<open>striped\<close> and
    \<open>parity_array\<close>. Shown: the block maps are bijections onto the places for data, small writes keep parity computable, mirrors
    get every write, and the statistics account for every operation.

  \<^item> \<open>Mlfq\<close>: \<^verbatim>\<open>cpu-sched-mlfq/mlfq.py\<close>. Queues, boosts, quanta and I/O. Shown: the loop ends with every job finished, and the first job
    of the highest non-empty queue runs. The fuel of the loop is a parameter and the theorem gives an amount that is enough.

  \<^item> \<open>Paging_Policy\<close>: \<^verbatim>\<open>vm-beyondphys-policy/paging-policy.py\<close>. Seven replacement policies. Shown: Belady's theorem for OPT against every
    run of the program, LRU as the stack of the most recent pages, and that no run fails.

  \<^item> \<open>Vsfs\<close>, \<open>Vsfs_Ops\<close>: \<^verbatim>\<open>file-implementation/vsfs.py\<close>. Classes \<^verbatim>\<open>bitmap\<close>, \<^verbatim>\<open>block\<close>, \<^verbatim>\<open>inode\<close> and \<^verbatim>\<open>fs\<close>, and the workload. The invariant
    \<open>fs_ok\<close> is what a checker of the file system would test. Shown: every operation keeps it, fails cleanly or does what
    its name says on the abstract name space, and what each takes from and gives back to the bitmaps, which account for all inodes and blocks.

  \<^item> \<open>Process_Run\<close>: \<^verbatim>\<open>cpu-intro/process-run.py\<close>. Process states with I/O. Shown: every run ends with each instruction executed once,
    the state invariant of the scheduler, and the round trip of the text of a program.

  \<^item> \<open>Page_Tables\<close>: \<^verbatim>\<open>vm-smalltables/paging-multilevel-translate.py\<close>. Page directories and page tables as bytes of the physical
    memory. Shown: after every allocation that succeeds the bytes implement an injective page map, and up to 95 pages always fit.

  \<^item> \<open>Fork\<close>: \<^verbatim>\<open>cpu-api/fork.py\<close>. The dictionaries of class \<^verbatim>\<open>Forker\<close>. Shown: they represent the tree of the
    specification after every legal action list, random lists are legal, and the drawing prints each process once.

  \<^item> \<open>Scheduler\<close>, \<open>Lottery\<close>: \<^verbatim>\<open>cpu-sched/scheduler.py\<close> and \<^verbatim>\<open>cpu-sched-lottery/lottery.py\<close>. Shown: SJF minimises the averages, round robin
    ends and its statistics are consistent, the lottery runs every job to the end and is fair in every reachable state.

  \<^item> \<open>Address_Spaces\<close>: \<^verbatim>\<open>vm-mechanism/relocation.py\<close>, \<^verbatim>\<open>vm-segmentation/segmentation.py\<close>, \<^verbatim>\<open>vm-paging/paging-linear-translate.py\<close>.
    Shown: registers and page tables the programs draw are consistent, and translation is exact, stays in memory and is injective.

  \<^item> \<open>Checksum\<close>: \<^verbatim>\<open>file-integrity/checksum.py\<close>. Shown: the running sums are the weighted sums, and exactly which errors they detect.

  \<^item> \<open>Ssd_Workload\<close>: the main program of \<^verbatim>\<open>file-ssd/ssd.py\<close> with its generator of random commands. The locale \<open>sure_store\<close> extends \<open>kept_store\<close> by writes that always succeed. Shown:
    every command of a random workload is answered as by a store of pages, and without wild reads none fails.

  \<^item> \<open>Afs\<close>: \<^verbatim>\<open>dist-afs/afs.py\<close>. Classes \<^verbatim>\<open>server\<close>, \<^verbatim>\<open>filedesc\<close>, \<^verbatim>\<open>cache\<close> and \<^verbatim>\<open>client\<close> and the main loop. The objects are one record \<open>afs\<close>: the values on the
    server, its call-back lists (one per client) and the clients with their caches. The specification \<open>spec_step\<close> has no caches,
    only sessions. Shown: every run follows it step by step and ends, for given and for drawn programs; two lemmas show programs outside the promise.

  \<^item> \<open>Fsck\<close>: \<^verbatim>\<open>file-journaling/fsck.py\<close>, the corruption step on the disk of \<^verbatim>\<open>vsfs.py\<close>: bitmaps, inodes and blocks as the record \<open>disk\<close>. Shown: a checker of the disk
    accepts what \<open>fs_ok\<close> accepts and sees every kind of corruption but a renamed entry.

  \<^item> \<open>Multi\<close>: \<^verbatim>\<open>cpu-sched-multi/multi.py\<close>. Classes \<^verbatim>\<open>cache\<close> and \<^verbatim>\<open>scheduler\<close> as the records \<open>mcache\<close> and \<open>msched\<close>: reading of jobs and affinities, one queue or one for
    each processor, interrupts, stealing, assignment, ticks. The rounds of the main loop are bounded by the sum of the run times, and so is the fuel that is enough.
    Shown: with \<open>minv\<close> (every job that is left is in exactly one place, on a processor it may run on, and the warm jobs fit into the cache) all jobs are run to their
    end; and a family of inputs on which stealing with affinities hangs, since it looks at the wrong fields of a job.

  \<^bold>\<open>Conventions.\<close> Python integers are \<open>int\<close>, sizes and indices \<open>nat\<close> where the code cannot make them negative. An exception, a
  failed assertion and \<^verbatim>\<open>exit(1)\<close> are values of \<open>pyerr\<close>; a loop that does not end, and a program that runs out of given random
  numbers, is \<open>NoReturn\<close>. A value of \<^verbatim>\<open>random.random()\<close> is an input: the numerator \<open>k\<close> of \<open>k / 2^53\<close>, and the product with an
  integer is taken exactly before it is rounded. Floating-point times are exact: tenths of a millisecond in \<open>Raid\<close>, rational
  numbers in \<open>Scheduler\<close>. What a program prints is kept where a property is about it (events, traces, the drawn tree) and
  left out elsewhere.

  \<^bold>\<open>Fuel.\<close> \<open>while_res\<close> takes fuel, and every theorem on such a loop says that all runs with at least a stated amount return: the measure
  of the interpretation of \<open>terminating_loop\<close>, or a bound written in the statement. Running \<open>Fork\<close> takes the recursion
  depth of the interpreter as a parameter, and its theorems ask for as much as the tree is deep.
  The run loop of \<open>X86\<close> takes fuel because programs of the machine may loop; its properties hold in every state of every run of any
  length.

  \<^bold>\<open>Not modelled.\<close> Option parsing by \<^verbatim>\<open>optparse\<close>, console output other than named above, and seeding of the random generator.
  \<^verbatim>\<open>threads-intro/x86.py\<close> and \<^verbatim>\<open>file-devices/process-run.py\<close> are variants of programs that are modelled, and so are the
  file-system operations of \<^verbatim>\<open>file-journaling/fsck.py\<close>;
  \<^verbatim>\<open>raid-graphics.py\<close>, \<^verbatim>\<open>disk.py\<close> and \<^verbatim>\<open>disk-precise.py\<close> are animations in a window, driven by timers; \<^verbatim>\<open>generator.py\<close> writes C programs and runs the
  compiler; the \<^verbatim>\<open>ebpf\<close> scripts call a kernel library. The programs \<^verbatim>\<open>file-lfs/lfs.py\<close> and \<^verbatim>\<open>file-ffs/ffs.py\<close> are simulators of the same kind that have no model here.
  The parts of the repository in C, Rust, assembly and hardware description are separate course work and not part of the Python
  programs.
\<close>

end
